(* ===== verification/Prelude.thy ===== *)
theory Prelude
  imports Main "HOL-Library.Word"
begin

text \<open>
  Shared vocabulary of the development: bytes and byte strings, JavaScript exceptions as
  values, the sequencing of operations that may throw, overwriting part of a byte array,
  and the little- and big-endian readings of byte strings.  The component theories import
  this theory and rely on the collections \<open>bytes_simps\<close> (lengths and indexing of byte
  arrays) and \<open>throws\<close> (case analysis of operations that may throw).
\<close>

named_theorems bytes_simps \<open>lengths, indexing and slicing of byte arrays\<close>
named_theorems throws \<open>unfolding of operations that may throw\<close>

section \<open>Bytes and exceptions\<close>

type_synonym byte = "8 word"
type_synonym bytes = "byte list"

text \<open>
  The exceptions the sources raise, by constructor, each with its message.  A filesystem error
  carries the errno that is sent to the guest.
\<close>

datatype js_error =
    Error string
  | RangeError string
  | TypeError string
  | FSError nat string
  | ProtocolError string
  | WasmParseError string nat
  | Errno int

type_synonym 'a result = "js_error + 'a"

text \<open>Run the second operation on the value of the first, unless the first throws.\<close>

definition bindE :: "'e + 'a \<Rightarrow> ('a \<Rightarrow> 'e + 'b) \<Rightarrow> 'e + 'b" where
  "bindE m f = (case m of Inl e \<Rightarrow> Inl e | Inr x \<Rightarrow> f x)"

text \<open>The \<open>assert\<close> of the sources: throw an \<open>Error\<close> with the message unless the condition holds.\<close>

definition assertE :: "bool \<Rightarrow> string \<Rightarrow> unit result" where
  "assertE c msg = (if c then Inr () else Inl (Error msg))"

definition is_ok :: "'e + 'a \<Rightarrow> bool" where
  "is_ok r = (case r of Inl _ \<Rightarrow> False | Inr _ \<Rightarrow> True)"

lemma bindE_Inl [simp]: "bindE (Inl e) f = Inl e"
  by (simp add: bindE_def)

lemma bindE_Inr [simp]: "bindE (Inr x) f = f x"
  by (simp add: bindE_def)

lemma bindE_eq_Inr [throws]: "bindE m f = Inr y \<longleftrightarrow> (\<exists>x. m = Inr x \<and> f x = Inr y)"
  by (cases m) simp_all

lemma bindE_eq_Inl [throws]:
  "bindE m f = Inl e \<longleftrightarrow> m = Inl e \<or> (\<exists>x. m = Inr x \<and> f x = Inl e)"
  by (cases m) auto

lemma bindE_assoc: "bindE (bindE m f) g = bindE m (\<lambda>x. bindE (f x) g)"
  by (cases m) simp_all

lemma bindE_cong [fundef_cong]:
  "m = m' \<Longrightarrow> (\<And>x. m' = Inr x \<Longrightarrow> f x = f' x) \<Longrightarrow> bindE m f = bindE m' f'"
  by (cases m') auto

lemma assertE_eq_Inr [simp]: "assertE c msg = Inr u \<longleftrightarrow> c"
  by (simp add: assertE_def)

lemma assertE_eq_Inl [simp]: "assertE c msg = Inl e \<longleftrightarrow> \<not> c \<and> e = Error msg"
  by (auto simp: assertE_def)

lemma assertE_True [simp]: "assertE True msg = Inr ()"
  by (simp add: assertE_def)

lemma assertE_False [simp]: "assertE False msg = Inl (Error msg)"
  by (simp add: assertE_def)

text \<open>The same over computations that may not return.\<close>

definition bindR :: "'a result option \<Rightarrow> ('a \<Rightarrow> 'b result option) \<Rightarrow> 'b result option" where
  "bindR m f = (case m of None \<Rightarrow> None | Some (Inl e) \<Rightarrow> Some (Inl e) | Some (Inr x) \<Rightarrow> f x)"

lemma bindR_simps [simp]:
  "bindR None f = None" "bindR (Some (Inl e)) f = Some (Inl e)" "bindR (Some (Inr x)) f = f x"
  by (simp_all add: bindR_def)

lemma is_ok_simps [simp]: "is_ok (Inr x)" "\<not> is_ok (Inl e)"
  by (simp_all add: is_ok_def)

lemma is_ok_iff: "is_ok r \<longleftrightarrow> (\<exists>x. r = Inr x)"
  by (cases r) simp_all

section \<open>Strings\<close>

text \<open>\<open>String(n)\<close> for a natural number, and \<open>strings.join(sep)\<close>.\<close>

fun decimal :: "nat \<Rightarrow> string" where
  "decimal n = (if n < 10 then [char_of (48 + n)] else decimal (n div 10) @ [char_of (48 + n mod 10)])"

declare decimal.simps [simp del]

fun join :: "string \<Rightarrow> string list \<Rightarrow> string" where
  "join sep [] = []"
| "join sep [x] = x"
| "join sep (x # y # xs) = x @ sep @ join sep (y # xs)"

section \<open>Parts of arrays\<close>

text \<open>\<open>array.subarray(from, to)\<close> and \<open>array.slice(from, to)\<close>, both ends clamped to the array.\<close>

definition subarray :: "'a list \<Rightarrow> nat \<Rightarrow> nat \<Rightarrow> 'a list" where
  "subarray xs from to = take (to - from) (drop from xs)"

text \<open>\<open>target.set(source, offset)\<close> when the source fits: the elements from \<open>offset\<close> are replaced.\<close>

definition overwrite :: "'a list \<Rightarrow> nat \<Rightarrow> 'a list \<Rightarrow> 'a list" where
  "overwrite xs off ys = take off xs @ ys @ drop (off + length ys) xs"

lemma length_subarray [bytes_simps]:
  "length (subarray xs from to) = min (to - from) (length xs - from)"
  by (simp add: subarray_def min.commute)

lemma length_overwrite [bytes_simps]:
  "off + length ys \<le> length xs \<Longrightarrow> length (overwrite xs off ys) = length xs"
  by (simp add: overwrite_def)

lemma overwrite_Nil [simp]: "overwrite xs off [] = xs"
  by (simp add: overwrite_def)

lemma overwrite_0_all: "length ys = length xs \<Longrightarrow> overwrite xs 0 ys = ys"
  by (simp add: overwrite_def)

lemma nth_overwrite [bytes_simps]:
  assumes "off + length ys \<le> length xs" and "i < length xs"
  shows "overwrite xs off ys ! i =
    (if off \<le> i \<and> i < off + length ys then ys ! (i - off) else xs ! i)"
  using assms by (auto simp: overwrite_def nth_append min_def)

lemma subarray_overwrite_same [bytes_simps]:
  assumes "off + length ys \<le> length xs" and "n = off + length ys"
  shows "subarray (overwrite xs off ys) off n = ys"
  using assms by (simp add: subarray_def overwrite_def)

lemma subarray_overwrite_disjoint [bytes_simps]:
  assumes "off + length ys \<le> length xs"
    and "to \<le> off \<or> off + length ys \<le> from"
  shows "subarray (overwrite xs off ys) from to = subarray xs from to"
proof (rule nth_equalityI)
  show "length (subarray (overwrite xs off ys) from to) = length (subarray xs from to)"
    using assms(1) by (simp add: length_subarray length_overwrite)
next
  fix i
  assume "i < length (subarray (overwrite xs off ys) from to)"
  then have i: "i < to - from" "from + i < length xs"
    using assms(1) by (auto simp: length_subarray length_overwrite)
  then show "subarray (overwrite xs off ys) from to ! i = subarray xs from to ! i"
    using assms by (auto simp: subarray_def nth_overwrite length_overwrite)
qed

lemma subarray_append_left [bytes_simps]:
  "to \<le> length xs \<Longrightarrow> subarray (xs @ ys) from to = subarray xs from to"
  by (simp add: subarray_def)

lemma subarray_all [simp]: "n = length xs \<Longrightarrow> subarray xs 0 n = xs"
  by (simp add: subarray_def)

lemma subarray_self [simp]: "subarray xs n n = []"
  by (simp add: subarray_def)

lemma subarray_split:
  assumes "a \<le> b" and "b \<le> c"
  shows "subarray xs a c = subarray xs a b @ subarray xs b c"
proof -
  have "take (c - a) (drop a xs) = take ((b - a) + (c - b)) (drop a xs)"
    using assms by simp
  also have "\<dots> = take (b - a) (drop a xs) @ take (c - b) (drop (b - a) (drop a xs))"
    by (rule take_add)
  finally show ?thesis
    using assms by (simp add: subarray_def)
qed

section \<open>Byte strings as numbers\<close>

text \<open>
  The readings used by \<open>DataView\<close>: the least significant byte first (\<open>littleEndian = true\<close>) or last.
  Writing reduces the number modulo the width, as \<open>setUint8\<close>, \<open>setBigUint64\<close> and the others do.
\<close>

fun le_nat :: "bytes \<Rightarrow> nat" where
  "le_nat [] = 0"
| "le_nat (b # bs) = unat b + 256 * le_nat bs"

fun le_bytes :: "nat \<Rightarrow> nat \<Rightarrow> bytes" where
  "le_bytes 0 v = []"
| "le_bytes (Suc n) v = of_nat v # le_bytes n (v div 256)"

definition be_nat :: "bytes \<Rightarrow> nat" where
  "be_nat bs = le_nat (rev bs)"

definition be_bytes :: "nat \<Rightarrow> nat \<Rightarrow> bytes" where
  "be_bytes n v = rev (le_bytes n v)"

lemma length_le_bytes [simp, bytes_simps]: "length (le_bytes n v) = n"
  by (induction n arbitrary: v) simp_all

lemma length_be_bytes [simp, bytes_simps]: "length (be_bytes n v) = n"
  by (simp add: be_bytes_def)

lemma unat_byte_of_nat: "unat (of_nat v :: byte) = v mod 256"
  by (simp add: unat_of_nat)

lemma unat_byte_less: "unat (b :: byte) < 256"
  using unsigned_less [of b] by simp

lemma le_nat_le_bytes: "le_nat (le_bytes n v) = v mod 256 ^ n"
proof (induction n arbitrary: v)
  case 0
  then show ?case by simp
next
  case (Suc n)
  have "v mod 256 ^ Suc n = v mod 256 + 256 * (v div 256 mod 256 ^ n)"
    by (simp add: mod_mult2_eq add.commute)
  with Suc show ?case by (simp add: unat_byte_of_nat)
qed

lemma be_nat_be_bytes: "be_nat (be_bytes n v) = v mod 256 ^ n"
  by (simp add: be_nat_def be_bytes_def le_nat_le_bytes)

lemma le_nat_less: "le_nat bs < 256 ^ length bs"
proof (induction bs)
  case Nil
  then show ?case by simp
next
  case (Cons b bs)
  then have "le_nat bs + 1 \<le> 256 ^ length bs" by simp
  then have "256 * (le_nat bs + 1) \<le> 256 * 256 ^ length bs" by (rule mult_le_mono2)
  with unat_byte_less [of b] show ?case by simp
qed

lemma be_nat_less: "be_nat bs < 256 ^ length bs"
  using le_nat_less [of "rev bs"] by (simp add: be_nat_def)

lemma le_bytes_le_nat: "le_bytes (length bs) (le_nat bs) = bs"
proof (induction bs)
  case Nil
  then show ?case by simp
next
  case (Cons b bs)
  have "(unat b + 256 * le_nat bs) div 256 = le_nat bs"
    using unat_byte_less [of b] by simp
  moreover have "(of_nat (unat b + 256 * le_nat bs) :: byte) = b"
    by (rule word_unat_eq_iff [THEN iffD2])
      (use unat_byte_less [of b] in \<open>simp add: unat_byte_of_nat del: of_nat_add of_nat_mult\<close>)
  ultimately show ?case using Cons by simp
qed

lemma be_bytes_be_nat: "be_bytes (length bs) (be_nat bs) = bs"
proof -
  have "be_bytes (length bs) (be_nat bs) = rev (le_bytes (length (rev bs)) (le_nat (rev bs)))"
    by (simp add: be_bytes_def be_nat_def)
  also have "\<dots> = bs" by (simp only: le_bytes_le_nat rev_rev_ident)
  finally show ?thesis .
qed

text \<open>The signed reading of a \<open>w\<close>-bit number (two's complement).\<close>

definition js_signed :: "nat \<Rightarrow> nat \<Rightarrow> int" where
  "js_signed w v = (if 2 * v < 2 ^ w then int v else int v - 2 ^ w)"

lemma js_signed_mod:
  assumes "w > 0" and "- (2 ^ (w - 1)) \<le> v" and "v < 2 ^ (w - 1)"
  shows "js_signed w (nat (v mod 2 ^ w)) = v"
proof (cases w)
  case 0
  with assms(1) show ?thesis by simp
next
  case (Suc k)
  have range: "- (2 ^ k) \<le> v" "v < 2 ^ k" using assms Suc by simp_all
  show ?thesis
  proof (cases "0 \<le> v")
    case True
    with range have "v mod 2 ^ w = v" unfolding Suc by (intro mod_pos_pos_trivial) simp_all
    with True range have "2 * nat v < 2 ^ w" unfolding Suc by simp
    with True \<open>v mod 2 ^ w = v\<close> show ?thesis by (simp add: js_signed_def)
  next
    case False
    with range have "(v + 2 ^ w) mod 2 ^ w = v + 2 ^ w"
      unfolding Suc by (intro mod_pos_pos_trivial) simp_all
    then have m: "v mod 2 ^ w = v + 2 ^ w" by simp
    with range have "\<not> 2 * nat (v mod 2 ^ w) < 2 ^ w" unfolding Suc by simp
    moreover have "0 \<le> v + 2 ^ w" using range unfolding Suc by simp
    ultimately show ?thesis by (simp add: js_signed_def m)
  qed
qed

section \<open>Cyclic scans\<close>

lemma cyclic_cover:
  fixes x m r :: nat
  assumes "x < m"
  shows "\<exists>k < m. (r + k) mod m = x"
proof (intro exI conjI)
  let ?k = "(x + (m - r mod m)) mod m"
  show "?k < m" using assms by simp
  have "(r + ?k) mod m = (r mod m + (x + (m - r mod m))) mod m" by (simp add: mod_simps)
  also have "r mod m + (x + (m - r mod m)) = x + m" using assms mod_less_divisor [of m r] by linarith
  finally show "(r + ?k) mod m = x" using assms by simp
qed

end
