(* ===== verification/Byte_Layout.thy ===== *)
theory Byte_Layout
  imports Prelude
begin

text \<open>
  The typed views of \<open>packages/bytes/src/index.ts\<close>: scalar types, fixed arrays and structs, read
  from and written to a \<open>DataView\<close>.  A view is a window of an array buffer; the buffer is an
  explicit store, so a write returns the new contents of the buffer.
\<close>

section \<open>Data views\<close>

record dataview =
  dv_buffer :: bytes
  dv_offset :: nat
  dv_length :: nat

text \<open>\<open>new DataView(array.buffer, array.byteOffset, array.byteLength)\<close> for an array of its own.\<close>

definition whole_view :: "bytes \<Rightarrow> dataview" where
  "whole_view bs = \<lparr>dv_buffer = bs, dv_offset = 0, dv_length = length bs\<rparr>"

text \<open>
  \<open>new DataView(dv.buffer, dv.byteOffset + offset)\<close>: without a length the new view reaches to the
  end of the buffer, even when \<open>dv\<close> itself ended earlier.
\<close>

definition tail_view :: "dataview \<Rightarrow> nat \<Rightarrow> dataview result" where
  "tail_view dv off =
     (if dv_offset dv + off \<le> length (dv_buffer dv)
      then Inr (dv\<lparr>dv_offset := dv_offset dv + off,
                   dv_length := length (dv_buffer dv) - (dv_offset dv + off)\<rparr>)
      else Inl (RangeError ''offset is outside the bounds of the buffer''))"

text \<open>The bounds check every \<open>DataView\<close> accessor makes, and the bytes it then touches.\<close>

definition dv_read :: "dataview \<Rightarrow> nat \<Rightarrow> nat \<Rightarrow> bytes result" where
  "dv_read dv off n =
     (if off + n \<le> dv_length dv
      then Inr (subarray (dv_buffer dv) (dv_offset dv + off) (dv_offset dv + off + n))
      else Inl (RangeError ''offset is outside the bounds of the DataView''))"

definition dv_write :: "dataview \<Rightarrow> nat \<Rightarrow> bytes \<Rightarrow> bytes result" where
  "dv_write dv off bs =
     (if off + length bs \<le> dv_length dv
      then Inr (overwrite (dv_buffer dv) (dv_offset dv + off) bs)
      else Inl (RangeError ''offset is outside the bounds of the DataView''))"

definition dv_ok :: "dataview \<Rightarrow> bool" where
  "dv_ok dv \<longleftrightarrow> dv_offset dv + dv_length dv \<le> length (dv_buffer dv)"

section \<open>Types\<close>

datatype scalar = U8 | U16LE | U32LE | I32LE | U64LE | I64LE | U16BE | U32BE | U64BE

datatype ty =
    Scalar scalar
  | FixedArray ty nat
  | Struct "(string \<times> ty) list"

type_synonym layout = "(string \<times> ty) list"

text \<open>
  JavaScript values that occur as field values: numbers and big integers, arrays, plain objects
  with their own keys in insertion order, an instance of a struct class (a view together with
  its layout; its accessors live on the prototype), and \<open>undefined\<close>.
\<close>

datatype val =
    Num int
  | Arr "val list"
  | Obj "(string \<times> val) list"
  | Inst dataview layout
  | Undefined

fun scalar_size :: "scalar \<Rightarrow> nat" where
  "scalar_size U8 = 1"
| "scalar_size U16LE = 2"
| "scalar_size U32LE = 4"
| "scalar_size I32LE = 4"
| "scalar_size U64LE = 8"
| "scalar_size I64LE = 8"
| "scalar_size U16BE = 2"
| "scalar_size U32BE = 4"
| "scalar_size U64BE = 8"

fun scalar_decode :: "scalar \<Rightarrow> bytes \<Rightarrow> int" where
  "scalar_decode U8 bs = int (le_nat bs)"
| "scalar_decode U16LE bs = int (le_nat bs)"
| "scalar_decode U32LE bs = int (le_nat bs)"
| "scalar_decode I32LE bs = js_signed 32 (le_nat bs)"
| "scalar_decode U64LE bs = int (le_nat bs)"
| "scalar_decode I64LE bs = js_signed 64 (le_nat bs)"
| "scalar_decode U16BE bs = int (be_nat bs)"
| "scalar_decode U32BE bs = int (be_nat bs)"
| "scalar_decode U64BE bs = int (be_nat bs)"

definition big_endian :: "scalar \<Rightarrow> bool" where
  "big_endian s = (case s of U16BE \<Rightarrow> True | U32BE \<Rightarrow> True | U64BE \<Rightarrow> True | _ \<Rightarrow> False)"

text \<open>Whether the TypeScript type is \<open>bigint\<close>, whose setters throw on \<open>undefined\<close>.\<close>

definition is_bigint :: "scalar \<Rightarrow> bool" where
  "is_bigint s = (case s of U64LE \<Rightarrow> True | I64LE \<Rightarrow> True | U64BE \<Rightarrow> True | _ \<Rightarrow> False)"

definition scalar_encode :: "scalar \<Rightarrow> int \<Rightarrow> bytes" where
  "scalar_encode s v =
     (let n = nat (v mod 256 ^ scalar_size s)
      in if big_endian s then be_bytes (scalar_size s) n else le_bytes (scalar_size s) n)"

text \<open>The numbers the type represents exactly.\<close>

definition scalar_range :: "scalar \<Rightarrow> int \<Rightarrow> bool" where
  "scalar_range s v = (case s of
       I32LE \<Rightarrow> - (2 ^ 31) \<le> v \<and> v < 2 ^ 31
     | I64LE \<Rightarrow> - (2 ^ 63) \<le> v \<and> v < 2 ^ 63
     | _ \<Rightarrow> 0 \<le> v \<and> v < 256 ^ scalar_size s)"

definition scalar_get :: "scalar \<Rightarrow> dataview \<Rightarrow> nat \<Rightarrow> int result" where
  "scalar_get s dv off = bindE (dv_read dv off (scalar_size s)) (\<lambda>bs. Inr (scalar_decode s bs))"

definition scalar_set :: "scalar \<Rightarrow> dataview \<Rightarrow> nat \<Rightarrow> int \<Rightarrow> bytes result" where
  "scalar_set s dv off v = dv_write dv off (scalar_encode s v)"

fun ty_size :: "ty \<Rightarrow> nat" where
  "ty_size (Scalar s) = scalar_size s"
| "ty_size (FixedArray t n) = ty_size t * n"
| "ty_size (Struct fs) = sum_list (map (\<lambda>kt. ty_size (snd kt)) fs)"

definition layout_size :: "layout \<Rightarrow> nat" where
  "layout_size fs = ty_size (Struct fs)"

text \<open>
  The static block of \<open>Struct\<close>: every key gets the offset the preceding fields add up to.
\<close>

fun field_at :: "layout \<Rightarrow> nat \<Rightarrow> string \<Rightarrow> (nat \<times> ty) option" where
  "field_at [] off k = None"
| "field_at ((k', t) # fs) off k =
     (if k = k' then Some (off, t) else field_at fs (off + ty_size t) k)"

section \<open>Reading and writing\<close>

text \<open>
  \<open>get\<close> reads a scalar, every element of a fixed array in order, or returns an instance of the
  struct class over the view that starts at the field.
\<close>

fun ty_get :: "ty \<Rightarrow> dataview \<Rightarrow> nat \<Rightarrow> val result"
  and get_elems :: "ty \<Rightarrow> nat \<Rightarrow> dataview \<Rightarrow> nat \<Rightarrow> val list result" where
  "ty_get (Scalar s) dv off = bindE (scalar_get s dv off) (\<lambda>v. Inr (Num v))"
| "ty_get (FixedArray t n) dv off = bindE (get_elems t n dv off) (\<lambda>vs. Inr (Arr vs))"
| "ty_get (Struct fs) dv off =
     bindE (if off \<noteq> 0 then tail_view dv off else Inr dv) (\<lambda>dv'. Inr (Inst dv' fs))"
| "get_elems t 0 dv off = Inr []"
| "get_elems t (Suc n) dv off =
     bindE (ty_get t dv off) (\<lambda>v. bindE (get_elems t n dv (off + ty_size t)) (\<lambda>vs. Inr (v # vs)))"

text \<open>
  Setting \<open>undefined\<close>: a number type stores zero (\<open>NaN\<close> converts to 0), a \<open>bigint\<close> type throws, a fixed
  array throws when it indexes \<open>undefined\<close>, and \<open>Object.assign\<close> ignores it.
\<close>

fun ty_set_undefined :: "ty \<Rightarrow> dataview \<Rightarrow> nat \<Rightarrow> bytes result" where
  "ty_set_undefined (Scalar s) dv off =
     (if is_bigint s then Inl (TypeError ''cannot convert undefined to a BigInt'')
      else scalar_set s dv off 0)"
| "ty_set_undefined (FixedArray t n) dv off = Inl (TypeError ''cannot read properties of undefined'')"
| "ty_set_undefined (Struct fs) dv off =
     bindE (if off \<noteq> 0 then tail_view dv off else Inr dv) (\<lambda>dv'. Inr (dv_buffer dv'))"

text \<open>
  \<open>set\<close> writes a scalar modulo its width, the elements of an array in order (a missing element is
  \<open>undefined\<close>), or assigns the own keys of an object to the accessors of a struct instance in the
  object's order; a key that is no field of the struct touches no byte, and a struct instance
  has no own keys.  Values the TypeScript types exclude throw.
\<close>

fun ty_set :: "ty \<Rightarrow> dataview \<Rightarrow> nat \<Rightarrow> val \<Rightarrow> bytes result"
  and set_elems :: "ty \<Rightarrow> nat \<Rightarrow> dataview \<Rightarrow> nat \<Rightarrow> val list \<Rightarrow> bytes result"
  and set_fields :: "layout \<Rightarrow> dataview \<Rightarrow> (string \<times> val) list \<Rightarrow> bytes result" where
  "ty_set (Scalar s) dv off (Num v) = scalar_set s dv off v"
| "ty_set (FixedArray t n) dv off (Arr vs) = set_elems t n dv off vs"
| "ty_set (Struct fs) dv off (Obj kvs) =
     bindE (if off \<noteq> 0 then tail_view dv off else Inr dv) (\<lambda>dv'. set_fields fs dv' kvs)"
| "ty_set (Struct fs) dv off (Inst dv0 fs0) =
     bindE (if off \<noteq> 0 then tail_view dv off else Inr dv) (\<lambda>dv'. Inr (dv_buffer dv'))"
| "ty_set t dv off Undefined = ty_set_undefined t dv off"
| "ty_set t dv off v = Inl (TypeError ''not a value of the field type'')"
| "set_elems t 0 dv off vs = Inr (dv_buffer dv)"
| "set_elems t (Suc n) dv off [] =
     bindE (ty_set_undefined t dv off)
       (\<lambda>buf. set_elems t n (dv\<lparr>dv_buffer := buf\<rparr>) (off + ty_size t) [])"
| "set_elems t (Suc n) dv off (v # vs) =
     bindE (ty_set t dv off v)
       (\<lambda>buf. set_elems t n (dv\<lparr>dv_buffer := buf\<rparr>) (off + ty_size t) vs)"
| "set_fields fs dv [] = Inr (dv_buffer dv)"
| "set_fields fs dv ((k, v) # kvs) =
     (case field_at fs 0 k of
        None \<Rightarrow> set_fields fs dv kvs
      | Some (off, t) \<Rightarrow>
          bindE (ty_set t dv off v) (\<lambda>buf. set_fields fs (dv\<lparr>dv_buffer := buf\<rparr>) kvs))"

text \<open>Reading \<open>instance.key\<close>, and \<open>toJSON\<close>, which reads every field of the layout.\<close>

definition get_field :: "layout \<Rightarrow> dataview \<Rightarrow> string \<Rightarrow> val result" where
  "get_field fs dv k = (case field_at fs 0 k of
       None \<Rightarrow> Inr Undefined
     | Some (off, t) \<Rightarrow> ty_get t dv off)"

text \<open>Reading a numeric field; the TypeScript types exclude any other value.\<close>

definition get_num :: "layout \<Rightarrow> dataview \<Rightarrow> string \<Rightarrow> nat result" where
  "get_num fs dv k = bindE (get_field fs dv k)
     (\<lambda>v. case v of Num n \<Rightarrow> Inr (nat n) | _ \<Rightarrow> Inl (TypeError ''not a number''))"

fun toJSON_fields :: "layout \<Rightarrow> dataview \<Rightarrow> (string \<times> ty) list \<Rightarrow> (string \<times> val) list result" where
  "toJSON_fields fs dv [] = Inr []"
| "toJSON_fields fs dv ((k, t) # rest) =
     bindE (get_field fs dv k)
       (\<lambda>v. bindE (toJSON_fields fs dv rest) (\<lambda>kvs. Inr ((k, v) # kvs)))"

definition toJSON :: "layout \<Rightarrow> dataview \<Rightarrow> val result" where
  "toJSON fs dv = bindE (toJSON_fields fs dv fs) (\<lambda>kvs. Inr (Obj kvs))"

text \<open>
  Assigning an element of an array that \<open>FixedArray.get\<close> returned writes through to the buffer.
\<close>

definition array_assign :: "ty \<Rightarrow> dataview \<Rightarrow> nat \<Rightarrow> nat \<Rightarrow> val \<Rightarrow> (bytes \<times> val) result" where
  "array_assign t dv off i v =
     bindE (ty_set t dv (off + ty_size t * i) v)
       (\<lambda>buf. bindE (ty_get t (dv\<lparr>dv_buffer := buf\<rparr>) (off + ty_size t * i)) (\<lambda>v'. Inr (buf, v')))"

section \<open>Scalars\<close>

lemma scalar_size_pos [simp]: "0 < scalar_size s"
  by (cases s) simp_all

lemma length_scalar_encode [simp, bytes_simps]: "length (scalar_encode s v) = scalar_size s"
  by (simp add: scalar_encode_def Let_def)

lemma nat_mod_mod: "0 < m \<Longrightarrow> nat (v mod m) mod nat m = nat (v mod m)"
  by (simp add: nat_mod_distrib [symmetric])

lemma nat_of_int_pow: "nat ((256::int) ^ n) = 256 ^ n"
  by (simp add: nat_power_eq)

lemma le_nat_encode:
  "\<not> big_endian s \<Longrightarrow> le_nat (scalar_encode s v) = nat (v mod 256 ^ scalar_size s)"
  using nat_mod_mod [of "256 ^ scalar_size s" v]
  by (simp add: scalar_encode_def Let_def le_nat_le_bytes nat_of_int_pow)

lemma be_nat_encode:
  "big_endian s \<Longrightarrow> be_nat (scalar_encode s v) = nat (v mod 256 ^ scalar_size s)"
  using nat_mod_mod [of "256 ^ scalar_size s" v]
  by (simp add: scalar_encode_def Let_def be_nat_be_bytes nat_of_int_pow)

lemma scalar_decode_encode:
  assumes "scalar_range s v"
  shows "scalar_decode s (scalar_encode s v) = v"
proof (cases s)
  case I32LE
  then show ?thesis
    using assms js_signed_mod [of 32 v] by (simp add: le_nat_encode big_endian_def scalar_range_def)
next
  case I64LE
  then show ?thesis
    using assms js_signed_mod [of 64 v] by (simp add: le_nat_encode big_endian_def scalar_range_def)
qed (use assms in \<open>simp_all add: le_nat_encode be_nat_encode big_endian_def scalar_range_def\<close>)

lemma scalar_decode_range:
  assumes "length bs = scalar_size s"
  shows "scalar_range s (scalar_decode s bs)"
proof -
  have "le_nat bs < 256 ^ scalar_size s" "be_nat bs < 256 ^ scalar_size s"
    using le_nat_less [of bs] be_nat_less [of bs] assms by simp_all
  then show ?thesis
    by (cases s) (auto simp: scalar_range_def js_signed_def)
qed

section \<open>Where fields lie\<close>

lemma layout_size_Cons [simp]: "layout_size ((k, t) # fs) = ty_size t + layout_size fs"
  by (simp add: layout_size_def)

lemma layout_size_Nil [simp]: "layout_size [] = 0"
  by (simp add: layout_size_def)

lemma field_at_bounds:
  "field_at fs off k = Some (o', t) \<Longrightarrow> off \<le> o' \<and> o' + ty_size t \<le> off + layout_size fs"
proof (induction fs arbitrary: off)
  case Nil
  then show ?case by simp
next
  case (Cons kt fs)
  obtain k' t' where kt: "kt = (k', t')" by fastforce
  show ?case
  proof (cases "k = k'")
    case True
    with Cons.prems kt show ?thesis by simp
  next
    case False
    with Cons.prems kt have "field_at fs (off + ty_size t') k = Some (o', t)" by simp
    from Cons.IH [OF this] show ?thesis by (simp add: kt)
  qed
qed

lemma field_at_disjoint:
  "field_at fs off k = Some (o1, t1) \<Longrightarrow> field_at fs off k' = Some (o2, t2) \<Longrightarrow> k \<noteq> k' \<Longrightarrow>
     o1 + ty_size t1 \<le> o2 \<or> o2 + ty_size t2 \<le> o1"
proof (induction fs arbitrary: off)
  case Nil
  then show ?case by simp
next
  case (Cons kt fs)
  obtain k0 t0 where kt: "kt = (k0, t0)" by fastforce
  consider "k0 = k" | "k0 = k'" | "k0 \<noteq> k" "k0 \<noteq> k'" by blast
  then show ?case
  proof cases
    case 1
    with Cons.prems kt have "field_at fs (off + ty_size t0) k' = Some (o2, t2)" by simp
    from field_at_bounds [OF this] 1 Cons.prems kt show ?thesis by simp
  next
    case 2
    with Cons.prems kt have "field_at fs (off + ty_size t0) k = Some (o1, t1)" by simp
    from field_at_bounds [OF this] 2 Cons.prems kt show ?thesis by simp
  next
    case 3
    with Cons.prems kt show ?thesis by (intro Cons.IH) auto
  qed
qed

section \<open>What a write touches\<close>

text \<open>\<open>only_writes buf a b buf'\<close>: same length, and nothing outside \<open>[a, b)\<close> changed.\<close>

definition only_writes :: "bytes \<Rightarrow> nat \<Rightarrow> nat \<Rightarrow> bytes \<Rightarrow> bool" where
  "only_writes buf a b buf' \<longleftrightarrow>
     length buf' = length buf \<and> (\<forall>i < length buf. i < a \<or> b \<le> i \<longrightarrow> buf' ! i = buf ! i)"

lemma only_writes_refl [simp]: "only_writes buf a b buf"
  by (simp add: only_writes_def)

lemma only_writes_trans:
  "only_writes buf a b buf1 \<Longrightarrow> only_writes buf1 a' b' buf2 \<Longrightarrow> lo \<le> a \<Longrightarrow> lo \<le> a' \<Longrightarrow>
     b \<le> hi \<Longrightarrow> b' \<le> hi \<Longrightarrow> only_writes buf lo hi buf2"
  by (auto simp: only_writes_def)

lemma only_writes_mono:
  "only_writes buf a b buf' \<Longrightarrow> lo \<le> a \<Longrightarrow> b \<le> hi \<Longrightarrow> only_writes buf lo hi buf'"
  by (auto simp: only_writes_def)

lemma only_writes_length: "only_writes buf a b buf' \<Longrightarrow> length buf' = length buf"
  by (simp add: only_writes_def)

lemma only_writes_subarray:
  assumes "only_writes buf a b buf'" and "to \<le> a \<or> b \<le> from"
  shows "subarray buf' from to = subarray buf from to"
proof (rule nth_equalityI)
  show "length (subarray buf' from to) = length (subarray buf from to)"
    using assms(1) by (simp add: length_subarray only_writes_def)
next
  fix i
  assume "i < length (subarray buf' from to)"
  then have "i < to - from" "from + i < length buf"
    using assms(1) by (auto simp: length_subarray only_writes_def)
  then show "subarray buf' from to ! i = subarray buf from to ! i"
    using assms by (auto simp: subarray_def only_writes_def)
qed

lemma dv_write_only_writes:
  assumes "dv_ok dv" and "dv_write dv off bs = Inr buf"
  shows "only_writes (dv_buffer dv) (dv_offset dv + off) (dv_offset dv + off + length bs) buf"
  using assms
  by (auto simp: dv_write_def dv_ok_def only_writes_def length_overwrite nth_overwrite
      split: if_splits)

lemma tail_view_ok: "tail_view dv off = Inr dv' \<Longrightarrow> dv_ok dv'"
  by (auto simp: tail_view_def dv_ok_def split: if_splits)

lemma tail_view_parts:
  "tail_view dv off = Inr dv' \<Longrightarrow> dv_buffer dv' = dv_buffer dv \<and> dv_offset dv' = dv_offset dv + off"
  by (auto simp: tail_view_def split: if_splits)

lemma dv_ok_buffer: "dv_ok dv \<Longrightarrow> length buf = length (dv_buffer dv) \<Longrightarrow> dv_ok (dv\<lparr>dv_buffer := buf\<rparr>)"
  by (simp add: dv_ok_def)

lemma ty_set_undefined_only_writes:
  assumes "ty_set_undefined t dv off = Inr buf" and "dv_ok dv"
  shows "only_writes (dv_buffer dv) (dv_offset dv + off) (dv_offset dv + off + ty_size t) buf"
proof (cases t)
  case (Scalar s)
  with assms(1) have "dv_write dv off (scalar_encode s 0) = Inr buf"
    by (simp add: scalar_set_def split: if_splits)
  from dv_write_only_writes [OF assms(2) this] Scalar show ?thesis by simp
next
  case (Struct fs)
  with assms(1) show ?thesis
    by (auto simp: throws dest: tail_view_parts split: if_splits)
qed (use assms(1) in simp_all)

text \<open>
  A successful write changes only bytes of the field, whatever the shape of the type and value:
  by induction along the three mutually recursive writers.
\<close>

lemma ty_set_only_writes_aux:
  shows "ty_set t dv off v = Inr buf \<Longrightarrow> dv_ok dv \<Longrightarrow>
      only_writes (dv_buffer dv) (dv_offset dv + off) (dv_offset dv + off + ty_size t) buf"
    and "set_elems t n dv off vs = Inr buf \<Longrightarrow> dv_ok dv \<Longrightarrow>
      only_writes (dv_buffer dv) (dv_offset dv + off) (dv_offset dv + off + ty_size t * n) buf"
    and "set_fields fs dv kvs = Inr buf \<Longrightarrow> dv_ok dv \<Longrightarrow>
      only_writes (dv_buffer dv) (dv_offset dv) (dv_offset dv + layout_size fs) buf"
proof (induction t dv off v and t n dv off vs and fs dv kvs arbitrary: buf and buf and buf
    rule: ty_set_set_elems_set_fields.induct)
  case (1 s dv off v)
  then show ?case
    using dv_write_only_writes [of dv off "scalar_encode s v" buf] by (simp add: scalar_set_def)
next
  case (3 fs dv off kvs)
  from "3.prems"(1) obtain dv' where dv': "(if off \<noteq> 0 then tail_view dv off else Inr dv) = Inr dv'"
    and fields: "set_fields fs dv' kvs = Inr buf"
    by (auto simp: throws)
  from dv' "3.prems"(2) have ok: "dv_ok dv'" and "dv_buffer dv' = dv_buffer dv"
    and "dv_offset dv' = dv_offset dv + off"
    by (auto split: if_splits dest: tail_view_ok tail_view_parts)
  with "3.IH" [OF dv' fields ok] show ?case by (simp add: layout_size_def)
next
  case (4 fs dv off dv0 fs0)
  then show ?case by (auto simp: throws dest: tail_view_parts split: if_splits)
next
  case (5 t dv off)
  then show ?case using ty_set_undefined_only_writes by simp
next
  case (8 t n dv off)
  from "8.prems"(1) obtain buf1 where first: "ty_set_undefined t dv off = Inr buf1"
    and rest: "set_elems t n (dv\<lparr>dv_buffer := buf1\<rparr>) (off + ty_size t) [] = Inr buf"
    by (auto simp: throws)
  note w1 = ty_set_undefined_only_writes [OF first "8.prems"(2)]
  from "8.IH" [OF first rest dv_ok_buffer [OF "8.prems"(2) only_writes_length [OF w1]]] w1
  show ?case by (auto elim: only_writes_trans)
next
  case (9 t n dv off v vs)
  from "9.prems"(1) obtain buf1 where first: "ty_set t dv off v = Inr buf1"
    and rest: "set_elems t n (dv\<lparr>dv_buffer := buf1\<rparr>) (off + ty_size t) vs = Inr buf"
    by (auto simp: throws)
  note w1 = "9.IH"(1) [OF first "9.prems"(2)]
  from "9.IH"(2) [OF first rest dv_ok_buffer [OF "9.prems"(2) only_writes_length [OF w1]]] w1
  show ?case by (auto elim: only_writes_trans)
next
  case (11 fs dv k v kvs)
  show ?case
  proof (cases "field_at fs 0 k")
    case None
    with "11.prems" "11.IH"(1) show ?thesis by simp
  next
    case (Some ot)
    obtain o1 t1 where ot: "ot = (o1, t1)" by fastforce
    from "11.prems"(1) Some ot obtain buf1 where first: "ty_set t1 dv o1 v = Inr buf1"
      and rest: "set_fields fs (dv\<lparr>dv_buffer := buf1\<rparr>) kvs = Inr buf"
      by (auto simp: throws)
    note w1 = "11.IH"(2) [OF Some ot [symmetric] first "11.prems"(2)]
    note w2 = "11.IH"(3) [OF Some ot [symmetric] first rest
        dv_ok_buffer [OF "11.prems"(2) only_writes_length [OF w1]]]
    from w1 w2 field_at_bounds [of fs 0 k o1 t1] Some ot show ?thesis
      by (auto elim: only_writes_trans)
  qed
qed simp_all

lemmas ty_set_only_writes = ty_set_only_writes_aux(1)
lemmas set_elems_only_writes = ty_set_only_writes_aux(2)
lemmas set_fields_only_writes = ty_set_only_writes_aux(3)

section \<open>Reading back\<close>

text \<open>
  Flat types hold no struct: their \<open>get\<close> copies the bytes out, so it depends on the bytes of the
  field alone.  A struct is read field by field through its instance.
\<close>

fun flat :: "ty \<Rightarrow> bool" where
  "flat (Scalar s) = True"
| "flat (FixedArray t n) = flat t"
| "flat (Struct fs) = False"

fun has_type :: "ty \<Rightarrow> val \<Rightarrow> bool" where
  "has_type (Scalar s) (Num v) = scalar_range s v"
| "has_type (FixedArray t n) (Arr vs) = (length vs = n \<and> list_all (has_type t) vs)"
| "has_type _ _ = False"

definition same_window :: "dataview \<Rightarrow> dataview \<Rightarrow> nat \<Rightarrow> nat \<Rightarrow> bool" where
  "same_window dv dv' off n \<longleftrightarrow> dv_offset dv' = dv_offset dv \<and> dv_length dv' = dv_length dv \<and>
     subarray (dv_buffer dv') (dv_offset dv + off) (dv_offset dv + off + n) =
     subarray (dv_buffer dv) (dv_offset dv + off) (dv_offset dv + off + n)"

lemma subarray_within:
  assumes "subarray xs a c = subarray ys a c" and "a \<le> a'" and "c' \<le> c"
  shows "subarray xs a' c' = subarray ys a' c'"
proof -
  have "subarray zs a' c' = subarray (subarray zs a c) (a' - a) (c' - a)" for zs :: "'a list"
    using assms(2,3) by (simp add: subarray_def drop_take min_def add.commute)
  with assms(1) show ?thesis by metis
qed

lemma same_window_within:
  "same_window dv dv' off n \<Longrightarrow> off \<le> off' \<Longrightarrow> off' + n' \<le> off + n \<Longrightarrow> same_window dv dv' off' n'"
  by (auto simp: same_window_def elim: subarray_within)

lemma only_writes_same_window:
  assumes "only_writes (dv_buffer dv) a b buf"
    and "dv_offset dv + off + n \<le> a \<or> b \<le> dv_offset dv + off"
  shows "same_window dv (dv\<lparr>dv_buffer := buf\<rparr>) off n"
  using only_writes_subarray [OF assms(1)] assms(2) by (auto simp: same_window_def)

lemma ty_get_local_aux:
  shows "flat t \<Longrightarrow> same_window dv dv' off (ty_size t) \<Longrightarrow> ty_get t dv' off = ty_get t dv off"
    and "flat t \<Longrightarrow> same_window dv dv' off (ty_size t * n) \<Longrightarrow>
      get_elems t n dv' off = get_elems t n dv off"
proof (induction t dv off and t n dv off rule: ty_get_get_elems.induct)
  case (1 s dv off)
  then show ?case by (simp add: same_window_def scalar_get_def dv_read_def)
next
  case (5 t n dv off)
  have "ty_get t dv' off = ty_get t dv off"
    by (rule "5.IH"(1)) (use "5.prems" in \<open>auto elim: same_window_within\<close>)
  moreover have "get_elems t n dv' (off + ty_size t) = get_elems t n dv (off + ty_size t)"
    if "ty_get t dv off = Inr v" for v
    by (rule "5.IH"(2) [OF that]) (use "5.prems" in \<open>auto elim: same_window_within\<close>)
  ultimately show ?case by (cases "ty_get t dv off") simp_all
qed simp_all

lemmas ty_get_local = ty_get_local_aux(1)

lemma scalar_get_set:
  assumes "dv_ok dv" and "scalar_set s dv off v = Inr buf"
  shows "scalar_get s (dv\<lparr>dv_buffer := buf\<rparr>) off = Inr (scalar_decode s (scalar_encode s v))"
proof -
  from assms have fits: "off + scalar_size s \<le> dv_length dv"
    and buf: "buf = overwrite (dv_buffer dv) (dv_offset dv + off) (scalar_encode s v)"
    by (simp_all add: scalar_set_def dv_write_def split: if_splits)
  with assms(1) have "subarray buf (dv_offset dv + off) (dv_offset dv + off + scalar_size s)
      = scalar_encode s v"
    by (simp add: subarray_overwrite_same dv_ok_def)
  with fits show ?thesis by (simp add: scalar_get_def dv_read_def)
qed

lemma ty_get_set_aux:
  shows "ty_set t dv off v = Inr buf \<Longrightarrow> dv_ok dv \<Longrightarrow> flat t \<Longrightarrow> has_type t v \<Longrightarrow>
      ty_get t (dv\<lparr>dv_buffer := buf\<rparr>) off = Inr v"
    and "set_elems t n dv off vs = Inr buf \<Longrightarrow> dv_ok dv \<Longrightarrow> flat t \<Longrightarrow>
      length vs = n \<Longrightarrow> list_all (has_type t) vs \<Longrightarrow>
      get_elems t n (dv\<lparr>dv_buffer := buf\<rparr>) off = Inr vs"
    and "set_fields fs dv kvs = Inr buf \<Longrightarrow> True"
proof (induction t dv off v and t n dv off vs and fs dv kvs arbitrary: buf and buf and buf
    rule: ty_set_set_elems_set_fields.induct)
  case (1 s dv off v)
  then show ?case by (simp add: scalar_get_set scalar_decode_encode)
next
  case (9 t n dv off v vs)
  from "9.prems"(1) obtain buf1 where first: "ty_set t dv off v = Inr buf1"
    and rest: "set_elems t n (dv\<lparr>dv_buffer := buf1\<rparr>) (off + ty_size t) vs = Inr buf"
    by (auto simp: throws)
  let ?dv1 = "dv\<lparr>dv_buffer := buf1\<rparr>"
  have ok1: "dv_ok ?dv1"
    using ty_set_only_writes [OF first "9.prems"(2)] "9.prems"(2)
    by (simp add: dv_ok_buffer only_writes_length)
  have head: "ty_get t ?dv1 off = Inr v"
    using "9.IH"(1) [OF first "9.prems"(2)] "9.prems" by simp
  have "same_window ?dv1 (?dv1\<lparr>dv_buffer := buf\<rparr>) off (ty_size t)"
    using set_elems_only_writes [OF rest ok1] by (rule only_writes_same_window) simp
  from ty_get_local [OF "9.prems"(3) this] head
  have "ty_get t (dv\<lparr>dv_buffer := buf\<rparr>) off = Inr v" by simp
  moreover have "get_elems t n (dv\<lparr>dv_buffer := buf\<rparr>) (off + ty_size t) = Inr vs"
    using "9.IH"(2) [OF first rest ok1] "9.prems" by simp
  ultimately show ?case by simp
qed simp_all

lemmas ty_get_set = ty_get_set_aux(1)

lemma dv_write_total:
  "off + length bs \<le> dv_length dv \<Longrightarrow> \<exists>buf. dv_write dv off bs = Inr buf"
  by (simp add: dv_write_def)

lemma ty_set_total_aux:
  shows "dv_ok dv \<Longrightarrow> off + ty_size t \<le> dv_length dv \<Longrightarrow> flat t \<Longrightarrow> has_type t v \<Longrightarrow>
      \<exists>buf. ty_set t dv off v = Inr buf"
    and "dv_ok dv \<Longrightarrow> off + ty_size t * n \<le> dv_length dv \<Longrightarrow> flat t \<Longrightarrow>
      length vs = n \<Longrightarrow> list_all (has_type t) vs \<Longrightarrow> \<exists>buf. set_elems t n dv off vs = Inr buf"
    and "set_fields fs dv kvs = set_fields fs dv kvs"
proof (induction t dv off v and t n dv off vs and fs dv kvs
    rule: ty_set_set_elems_set_fields.induct)
  case (1 s dv off v)
  then show ?case by (simp add: scalar_set_def dv_write_total)
next
  case (9 t n dv off v vs)
  then obtain buf1 where first: "ty_set t dv off v = Inr buf1" by auto
  have "dv_ok (dv\<lparr>dv_buffer := buf1\<rparr>)"
    using ty_set_only_writes [OF first "9.prems"(1)] "9.prems"(1)
    by (simp add: dv_ok_buffer only_writes_length)
  from "9.IH"(2) [OF first this] "9.prems" first show ?case by simp
qed simp_all

lemmas ty_set_total = ty_set_total_aux(1)

text \<open>
  Assigning an object to a struct.  Every key of the object that names a flat field reads back
  the assigned value, and a flat field the object does not name keeps its value.
\<close>

lemma set_fields_keeps:
  assumes "set_fields fs dv kvs = Inr buf" and "dv_ok dv" and "k \<notin> fst ` set kvs"
    and "field_at fs 0 k = Some (off, t)" and "flat t"
  shows "ty_get t (dv\<lparr>dv_buffer := buf\<rparr>) off = ty_get t dv off"
  using assms(1-3)
proof (induction kvs arbitrary: dv)
  case Nil
  then show ?case by (cases dv) simp
next
  case (Cons kv kvs)
  obtain k' v' where kv: "kv = (k', v')" by fastforce
  with Cons.prems(3) have neq: "k \<noteq> k'" and fresh: "k \<notin> fst ` set kvs" by auto
  show ?case
  proof (cases "field_at fs 0 k'")
    case None
    with Cons kv fresh show ?thesis by simp
  next
    case (Some ot)
    obtain o' t' where ot: "ot = (o', t')" by fastforce
    from Cons.prems(1) kv Some ot obtain buf1 where first: "ty_set t' dv o' v' = Inr buf1"
      and rest: "set_fields fs (dv\<lparr>dv_buffer := buf1\<rparr>) kvs = Inr buf"
      by (auto simp: throws)
    note w = ty_set_only_writes [OF first Cons.prems(2)]
    have "same_window dv (dv\<lparr>dv_buffer := buf1\<rparr>) off (ty_size t)"
      using field_at_disjoint [OF assms(4), of k' o' t'] neq Some ot
      by (intro only_writes_same_window [OF w]) auto
    from ty_get_local [OF assms(5) this]
      Cons.IH [OF rest dv_ok_buffer [OF Cons.prems(2) only_writes_length [OF w]] fresh]
    show ?thesis by simp
  qed
qed

lemma set_fields_reads_back:
  assumes "set_fields fs dv kvs = Inr buf" and "dv_ok dv" and "distinct (map fst kvs)"
    and "(k, v) \<in> set kvs" and "field_at fs 0 k = Some (off, t)" and "flat t" and "has_type t v"
  shows "ty_get t (dv\<lparr>dv_buffer := buf\<rparr>) off = Inr v"
  using assms(1-4)
proof (induction kvs arbitrary: dv)
  case Nil
  then show ?case by simp
next
  case (Cons kv kvs)
  obtain k' v' where kv: "kv = (k', v')" by fastforce
  show ?case
  proof (cases "field_at fs 0 k'")
    case None
    with Cons kv assms(5) show ?thesis by auto
  next
    case (Some ot)
    obtain o' t' where ot: "ot = (o', t')" by fastforce
    from Cons.prems(1) kv Some ot obtain buf1 where first: "ty_set t' dv o' v' = Inr buf1"
      and rest: "set_fields fs (dv\<lparr>dv_buffer := buf1\<rparr>) kvs = Inr buf"
      by (auto simp: throws)
    have ok1: "dv_ok (dv\<lparr>dv_buffer := buf1\<rparr>)"
      using ty_set_only_writes [OF first Cons.prems(2)] Cons.prems(2)
      by (simp add: dv_ok_buffer only_writes_length)
    show ?thesis
    proof (cases "k = k'")
      case True
      with Some ot kv Cons.prems(3,4) assms(5) have same: "o' = off" "t' = t" "v' = v"
        by (auto simp: image_iff)
      have "k \<notin> fst ` set kvs" using True Cons.prems(3) kv by auto
      from set_fields_keeps [OF rest ok1 this assms(5,6)]
        ty_get_set [OF first Cons.prems(2)] same assms(6,7)
      show ?thesis by simp
    next
      case False
      with Cons.prems kv have "(k, v) \<in> set kvs" "distinct (map fst kvs)" by auto
      from Cons.IH [OF rest ok1 this(2,1)] show ?thesis by simp
    qed
  qed
qed

text \<open>The keys of the object name flat fields of the struct, with values in range.\<close>

definition fields_typed :: "layout \<Rightarrow> (string \<times> val) list \<Rightarrow> bool" where
  "fields_typed fs kvs = list_all (\<lambda>kv. case field_at fs 0 (fst kv) of
       None \<Rightarrow> False | Some ot \<Rightarrow> flat (snd ot) \<and> has_type (snd ot) (snd kv)) kvs"

lemma set_fields_total:
  assumes "dv_ok dv" and "layout_size fs \<le> dv_length dv" and "fields_typed fs kvs"
  shows "\<exists>buf. set_fields fs dv kvs = Inr buf"
  using assms
proof (induction kvs arbitrary: dv)
  case Nil
  then show ?case by simp
next
  case (Cons kv kvs)
  obtain k v where kv: "kv = (k, v)" by fastforce
  with Cons.prems(3) obtain off t where at: "field_at fs 0 k = Some (off, t)"
    and "flat t" "has_type t v" and rest: "fields_typed fs kvs"
    by (auto simp: fields_typed_def split: option.splits)
  with field_at_bounds [OF at] Cons.prems obtain buf1 where first: "ty_set t dv off v = Inr buf1"
    using ty_set_total [of dv off t v] by auto
  have "dv_ok (dv\<lparr>dv_buffer := buf1\<rparr>)"
    using ty_set_only_writes [OF first Cons.prems(1)] Cons.prems(1)
    by (simp add: dv_ok_buffer only_writes_length)
  from Cons.IH [OF this] Cons.prems(2) rest at first kv show ?case by simp
qed

lemma whole_view_ok [simp]: "dv_ok (whole_view bs)"
  by (simp add: whole_view_def dv_ok_def)

lemma whole_view_sel [simp]:
  "dv_buffer (whole_view bs) = bs" "dv_offset (whole_view bs) = 0" "dv_length (whole_view bs) = length bs"
  "length buf = length bs \<Longrightarrow> (whole_view bs)\<lparr>dv_buffer := buf\<rparr> = whole_view buf"
  by (simp_all add: whole_view_def)

section \<open>Encodings\<close>

text \<open>
  The bytes a value of a type occupies: the type written into zeroed memory of its size.  Writing
  the value anywhere else puts the same bytes there.
\<close>

definition ty_encode :: "ty \<Rightarrow> val \<Rightarrow> bytes result" where
  "ty_encode t v = ty_set t (whole_view (replicate (ty_size t) 0)) 0 v"

text \<open>
  The buffer of one view embedded in a larger buffer; the offset \<open>d\<close> in the outer view is where
  the inner view starts.
\<close>

definition embedded :: "bytes \<Rightarrow> bytes \<Rightarrow> nat \<Rightarrow> dataview \<Rightarrow> dataview \<Rightarrow> bool" where
  "embedded A B d dv dv' \<longleftrightarrow> dv_ok dv \<and> dv_ok dv' \<and> dv_buffer dv' = A @ dv_buffer dv @ B \<and>
     dv_offset dv' + d = length A + dv_offset dv"

definition lift_write :: "bytes \<Rightarrow> bytes \<Rightarrow> bytes result \<Rightarrow> bytes result" where
  "lift_write A B m = bindE m (\<lambda>W. Inr (A @ W @ B))"

lemma lift_write_simps [simp]:
  "lift_write A B (Inl e) = Inl e" "lift_write A B (Inr W) = Inr (A @ W @ B)"
  by (simp_all add: lift_write_def)

lemma overwrite_embedded:
  "off + length ys \<le> length W \<Longrightarrow>
     overwrite (A @ W @ B) (length A + off) ys = A @ overwrite W off ys @ B"
  by (simp add: overwrite_def)

lemma embedded_write:
  assumes "embedded A B d dv dv'" and "off + length bs \<le> dv_length dv"
    and "d + off + length bs \<le> dv_length dv'"
  shows "dv_write dv' (d + off) bs = lift_write A B (dv_write dv off bs)"
proof -
  have "dv_offset dv' + (d + off) = length A + (dv_offset dv + off)"
    using assms(1) by (simp add: embedded_def)
  moreover have "dv_offset dv + off + length bs \<le> length (dv_buffer dv)"
    using assms(1,2) by (simp add: embedded_def dv_ok_def)
  ultimately have "overwrite (A @ dv_buffer dv @ B) (dv_offset dv' + (d + off)) bs =
      A @ overwrite (dv_buffer dv) (dv_offset dv + off) bs @ B"
    by (simp only: overwrite_embedded)
  then show ?thesis
    using assms by (simp add: dv_write_def embedded_def)
qed

lemma embedded_buffer:
  "embedded A B d dv dv' \<Longrightarrow> length W = length (dv_buffer dv) \<Longrightarrow>
     embedded A B d (dv\<lparr>dv_buffer := W\<rparr>) (dv'\<lparr>dv_buffer := A @ W @ B\<rparr>)"
  by (auto simp: embedded_def dv_ok_def)

lemma embedded_tail:
  assumes "embedded A B d dv dv'" and "off + n \<le> dv_length dv" and "d + off + n \<le> dv_length dv'"
  obtains w w' where "(if off \<noteq> 0 then tail_view dv off else Inr dv) = Inr w"
    and "(if d + off \<noteq> 0 then tail_view dv' (d + off) else Inr dv') = Inr w'"
    and "embedded A B 0 w w'" and "n \<le> dv_length w" and "n \<le> dv_length w'"
proof -
  let ?w = "if off \<noteq> 0 then dv\<lparr>dv_offset := dv_offset dv + off,
      dv_length := length (dv_buffer dv) - (dv_offset dv + off)\<rparr> else dv"
  let ?w' = "if d + off \<noteq> 0 then dv'\<lparr>dv_offset := dv_offset dv' + (d + off),
      dv_length := length (dv_buffer dv') - (dv_offset dv' + (d + off))\<rparr> else dv'"
  have "dv_offset dv + off + n \<le> length (dv_buffer dv)"
    "dv_offset dv' + (d + off) + n \<le> length (dv_buffer dv')"
    using assms by (auto simp: embedded_def dv_ok_def)
  with assms show ?thesis
    by (intro that [of ?w ?w']) (auto simp: tail_view_def embedded_def dv_ok_def)
qed

lemma embedded_undefined:
  assumes "embedded A B d dv dv'" "off + ty_size t \<le> dv_length dv"
    "d + off + ty_size t \<le> dv_length dv'"
  shows "ty_set_undefined t dv' (d + off) = lift_write A B (ty_set_undefined t dv off)"
proof (cases t)
  case (Scalar s)
  with assms show ?thesis by (simp add: scalar_set_def embedded_write)
next
  case (Struct fs)
  from assms obtain w w' where "(if off \<noteq> 0 then tail_view dv off else Inr dv) = Inr w"
    "(if d + off \<noteq> 0 then tail_view dv' (d + off) else Inr dv') = Inr w'" "embedded A B 0 w w'"
    by (rule embedded_tail)
  with Struct show ?thesis by (simp add: embedded_def del: add_is_0 add_eq_0_iff_both_eq_0)
qed simp_all

lemma ty_set_embedded_aux:
  shows "embedded A B d dv dv' \<Longrightarrow> off + ty_size t \<le> dv_length dv \<Longrightarrow>
      d + off + ty_size t \<le> dv_length dv' \<Longrightarrow>
      ty_set t dv' (d + off) v = lift_write A B (ty_set t dv off v)"
    and "embedded A B d dv dv' \<Longrightarrow> off + ty_size t * n \<le> dv_length dv \<Longrightarrow>
      d + off + ty_size t * n \<le> dv_length dv' \<Longrightarrow>
      set_elems t n dv' (d + off) vs = lift_write A B (set_elems t n dv off vs)"
    and "embedded A B 0 dv dv' \<Longrightarrow> layout_size fs \<le> dv_length dv \<Longrightarrow> layout_size fs \<le> dv_length dv' \<Longrightarrow>
      set_fields fs dv' kvs = lift_write A B (set_fields fs dv kvs)"
proof (induction t dv off v and t n dv off vs and fs dv kvs arbitrary: d dv' and d dv' and dv'
    rule: ty_set_set_elems_set_fields.induct)
  case (1 s dv off v)
  then show ?case by (simp add: scalar_set_def embedded_write)
next
  case (3 fs dv off kvs)
  from "3.prems" obtain w w' where w: "(if off \<noteq> 0 then tail_view dv off else Inr dv) = Inr w"
    "(if d + off \<noteq> 0 then tail_view dv' (d + off) else Inr dv') = Inr w'" "embedded A B 0 w w'"
    "ty_size (Struct fs) \<le> dv_length w" "ty_size (Struct fs) \<le> dv_length w'"
    by (rule embedded_tail)
  with "3.IH" [OF w(1,3)] show ?case
    by (simp add: layout_size_def del: add_is_0 add_eq_0_iff_both_eq_0)
next
  case (4 fs dv off dv0 fs0)
  from "4.prems" obtain w w' where "(if off \<noteq> 0 then tail_view dv off else Inr dv) = Inr w"
    "(if d + off \<noteq> 0 then tail_view dv' (d + off) else Inr dv') = Inr w'" "embedded A B 0 w w'"
    by (rule embedded_tail)
  then show ?case by (simp add: embedded_def del: add_is_0 add_eq_0_iff_both_eq_0)
next
  case (5 t dv off)
  then show ?case using embedded_undefined by simp
next
  case (7 t dv off vs)
  then show ?case by (simp add: embedded_def)
next
  case (8 t n dv off)
  note first = embedded_undefined [OF "8.prems"(1), of off t]
  show ?case
  proof (cases "ty_set_undefined t dv off")
    case (Inl e)
    with first "8.prems" show ?thesis by simp
  next
    case (Inr W)
    have "length W = length (dv_buffer dv)"
      using ty_set_undefined_only_writes [OF Inr] "8.prems"(1)
      by (simp add: embedded_def only_writes_length)
    with Inr first "8.IH" [OF Inr embedded_buffer [OF "8.prems"(1)]] "8.prems" show ?thesis
      by (simp add: add.assoc)
  qed
next
  case (9 t n dv off v vs)
  note first = "9.IH"(1) [OF "9.prems"(1)]
  show ?case
  proof (cases "ty_set t dv off v")
    case (Inl e)
    with first "9.prems" show ?thesis by simp
  next
    case (Inr W)
    have "length W = length (dv_buffer dv)"
      using ty_set_only_writes [OF Inr] "9.prems"(1) by (simp add: embedded_def only_writes_length)
    with Inr first "9.IH"(2) [OF Inr embedded_buffer [OF "9.prems"(1)]] "9.prems" show ?thesis
      by (simp add: add.assoc)
  qed
next
  case (10 fs dv)
  then show ?case by (simp add: embedded_def)
next
  case (11 fs dv k v kvs)
  show ?case
  proof (cases "field_at fs 0 k")
    case None
    with "11.IH"(1) "11.prems" show ?thesis by simp
  next
    case (Some ot)
    obtain o1 t1 where ot: "ot = (o1, t1)" by fastforce
    have fits: "o1 + ty_size t1 \<le> layout_size fs"
      using field_at_bounds [of fs 0 k o1 t1] Some ot by simp
    note first = "11.IH"(2) [OF Some ot [symmetric] "11.prems"(1)]
    show ?thesis
    proof (cases "ty_set t1 dv o1 v")
      case (Inl e)
      with first fits Some ot "11.prems" show ?thesis by simp
    next
      case (Inr W)
      have "length W = length (dv_buffer dv)"
        using ty_set_only_writes [OF Inr] "11.prems"(1) by (simp add: embedded_def only_writes_length)
      with Inr first fits Some ot
        "11.IH"(3) [OF Some ot [symmetric] Inr embedded_buffer [OF "11.prems"(1)]] "11.prems"
      show ?thesis by simp
    qed
  qed
qed simp_all

lemma ty_set_encode:
  assumes "buf = A @ replicate (ty_size t) 0 @ B" and "off = length A"
  shows "ty_set t (whole_view buf) off v = lift_write A B (ty_encode t v)"
proof -
  have "embedded A B (length A) (whole_view (replicate (ty_size t) 0)) (whole_view buf)"
    using assms(1) by (simp add: embedded_def)
  from ty_set_embedded_aux(1) [OF this, of 0 t v] assms show ?thesis
    by (simp add: ty_encode_def)
qed

lemma length_ty_encode: "ty_encode t v = Inr bs \<Longrightarrow> length bs = ty_size t"
  using ty_set_only_writes [of t "whole_view (replicate (ty_size t) 0)" 0 v bs]
  by (simp add: ty_encode_def only_writes_length)

lemma get_num_whole:
  assumes "field_at fs 0 k = Some (off, Scalar s)" and "dv_offset dv + off + scalar_size s \<le> dv_offset dv + dv_length dv"
  shows "get_num fs dv k = Inr (nat (scalar_decode s
    (subarray (dv_buffer dv) (dv_offset dv + off) (dv_offset dv + off + scalar_size s))))"
  using assms by (simp add: get_num_def get_field_def scalar_get_def dv_read_def)

section \<open>The type interface\<close>

text \<open>
  What the users of the library rely on in a \<open>Type<T>\<close>: a valid value can be written where it
  fits, the write stays inside the field, it reads back, and a read depends on the field alone.
\<close>

locale byte_type =
  fixes get :: "dataview \<Rightarrow> nat \<Rightarrow> 'v result"
    and put :: "dataview \<Rightarrow> nat \<Rightarrow> 'v \<Rightarrow> bytes result"
    and width :: nat
    and valid :: "'v \<Rightarrow> bool"
  assumes put_total: "valid v \<Longrightarrow> dv_ok dv \<Longrightarrow> off + width \<le> dv_length dv \<Longrightarrow>
      \<exists>buf. put dv off v = Inr buf"
    and put_window: "put dv off v = Inr buf \<Longrightarrow> dv_ok dv \<Longrightarrow>
      only_writes (dv_buffer dv) (dv_offset dv + off) (dv_offset dv + off + width) buf"
    and get_put: "put dv off v = Inr buf \<Longrightarrow> dv_ok dv \<Longrightarrow> valid v \<Longrightarrow>
      get (dv\<lparr>dv_buffer := buf\<rparr>) off = Inr v"
    and get_window: "same_window dv dv' off width \<Longrightarrow> get dv' off = get dv off"
begin

lemma put_keeps_view: "put dv off v = Inr buf \<Longrightarrow> dv_ok dv \<Longrightarrow> dv_ok (dv\<lparr>dv_buffer := buf\<rparr>)"
  using put_window [THEN only_writes_length] by (simp add: dv_ok_buffer)

lemma get_after_other_write:
  assumes "only_writes (dv_buffer dv) a b buf"
    and "dv_offset dv + off + width \<le> a \<or> b \<le> dv_offset dv + off"
  shows "get (dv\<lparr>dv_buffer := buf\<rparr>) off = get dv off"
  by (rule get_window) (rule only_writes_same_window [OF assms])

text \<open>Two fields side by side: writing both, in either order, both read back.\<close>

lemma put_put_disjoint:
  assumes "put dv off v = Inr buf1" and "put (dv\<lparr>dv_buffer := buf1\<rparr>) off' v' = Inr buf2"
    and "dv_ok dv" and "valid v" and "valid v'" and "off + width \<le> off' \<or> off' + width \<le> off"
  shows "get (dv\<lparr>dv_buffer := buf2\<rparr>) off = Inr v \<and> get (dv\<lparr>dv_buffer := buf2\<rparr>) off' = Inr v'"
proof -
  let ?dv1 = "dv\<lparr>dv_buffer := buf1\<rparr>"
  have ok1: "dv_ok ?dv1" using assms(1,3) by (rule put_keeps_view)
  have "get (?dv1\<lparr>dv_buffer := buf2\<rparr>) off = get ?dv1 off"
    by (rule get_after_other_write [OF put_window [OF assms(2) ok1]]) (use assms(6) in auto)
  with get_put [OF assms(1,3,4)] get_put [OF assms(2) ok1 assms(5)] show ?thesis by simp
qed

end

interpretation scalar_ty: byte_type "ty_get (Scalar s)" "ty_set (Scalar s)" "scalar_size s"
    "has_type (Scalar s)" for s
  by unfold_locales
    (use ty_set_total [of _ _ "Scalar s"] ty_set_only_writes [of "Scalar s"]
      ty_get_set [of "Scalar s"] ty_get_local [of "Scalar s"] in \<open>auto\<close>)

interpretation array_ty: byte_type "ty_get (FixedArray (Scalar s) n)" "ty_set (FixedArray (Scalar s) n)"
    "ty_size (FixedArray (Scalar s) n)" "has_type (FixedArray (Scalar s) n)" for s n
  by unfold_locales
    (use ty_set_total [of _ _ "FixedArray (Scalar s) n"]
      ty_set_only_writes [of "FixedArray (Scalar s) n"]
      ty_get_set [of "FixedArray (Scalar s) n"] ty_get_local [of "FixedArray (Scalar s) n"] in \<open>auto\<close>)

section \<open>Properties\<close>

text \<open>
  C25: assigning an object to a struct instance whose fields are scalars and arrays succeeds when
  the struct fits the view; every assigned field then reads back its value, every other flat field
  reads as before, and no byte outside the struct changes.
\<close>

theorem struct_assignment_reads_back:
  assumes "dv_ok dv" and "layout_size fs \<le> dv_length dv" and "fields_typed fs kvs"
    and "distinct (map fst kvs)"
  shows "\<exists>buf. set_fields fs dv kvs = Inr buf \<and>
    only_writes (dv_buffer dv) (dv_offset dv) (dv_offset dv + layout_size fs) buf \<and>
    (\<forall>(k, v) \<in> set kvs. get_field fs (dv\<lparr>dv_buffer := buf\<rparr>) k = Inr v) \<and>
    (\<forall>k off t. k \<notin> fst ` set kvs \<and> field_at fs 0 k = Some (off, t) \<and> flat t \<longrightarrow>
       get_field fs (dv\<lparr>dv_buffer := buf\<rparr>) k = get_field fs dv k)"
proof -
  from set_fields_total [OF assms(1-3)] obtain buf where buf: "set_fields fs dv kvs = Inr buf" ..
  have "get_field fs (dv\<lparr>dv_buffer := buf\<rparr>) k = Inr v" if kv: "(k, v) \<in> set kvs" for k v
  proof -
    from assms(3) kv obtain off t where "field_at fs 0 k = Some (off, t)" "flat t" "has_type t v"
      by (fastforce simp: fields_typed_def list_all_iff split: option.splits)
    with set_fields_reads_back [OF buf assms(1,4) kv] show ?thesis by (simp add: get_field_def)
  qed
  then show ?thesis
    using buf set_fields_only_writes [OF buf assms(1)] set_fields_keeps [OF buf assms(1)]
    by (auto simp: get_field_def)
qed

theorem struct_assignment_reads_back_witness:
  "\<exists>buf. set_fields [(''a'', Scalar U16LE), (''b'', FixedArray (Scalar U8) 2)] (whole_view [1, 2, 3, 4, 5])
      [(''b'', Arr [Num 8, Num 9])] = Inr buf \<and>
    get_field [(''a'', Scalar U16LE), (''b'', FixedArray (Scalar U8) 2)] (whole_view buf) ''b'' =
      Inr (Arr [Num 8, Num 9]) \<and> length buf = 5"
  using struct_assignment_reads_back [of "whole_view [1, 2, 3, 4, 5]"
      "[(''a'', Scalar U16LE), (''b'', FixedArray (Scalar U8) 2)]" "[(''b'', Arr [Num 8, Num 9])]"]
  by (auto simp: fields_typed_def scalar_range_def is_bigint_def whole_view_def dv_ok_def dest!: only_writes_length)

lemma scalar_get_typed: "dv_ok dv \<Longrightarrow> scalar_get s dv off = Inr v \<Longrightarrow> scalar_range s v"
  by (auto simp: scalar_get_def dv_read_def dv_ok_def throws length_subarray intro!: scalar_decode_range split: if_splits)

lemma ty_get_typed_aux:
  "flat t \<Longrightarrow> dv_ok dv \<Longrightarrow> ty_get t dv off = Inr v \<Longrightarrow> has_type t v"
  "flat t \<Longrightarrow> dv_ok dv \<Longrightarrow> get_elems t n dv off = Inr vs \<Longrightarrow> length vs = n \<and> list_all (has_type t) vs"
proof (induction t dv off and t n dv off arbitrary: v and vs rule: ty_get_get_elems.induct)
  case (1 s dv off)
  then show ?case by (auto simp: throws dest: scalar_get_typed)
next
  case (2 t n dv off)
  then show ?case by (auto simp: throws)
next
  case (5 t n dv off)
  then show ?case by (auto simp: throws)
qed simp_all

lemma ty_get_total_aux:
  "flat t \<Longrightarrow> off + ty_size t \<le> dv_length dv \<Longrightarrow> \<exists>v. ty_get t dv off = Inr v"
  "flat t \<Longrightarrow> off + ty_size t * n \<le> dv_length dv \<Longrightarrow> \<exists>vs. get_elems t n dv off = Inr vs"
proof (induction t dv off and t n dv off rule: ty_get_get_elems.induct)
  case (1 s dv off)
  then show ?case by (simp add: scalar_get_def dv_read_def)
next
  case (5 t n dv off)
  from "5.prems" have "off + ty_size t \<le> dv_length dv" "off + ty_size t + ty_size t * n \<le> dv_length dv" by simp_all
  with 5 obtain v vs where "ty_get t dv off = Inr v" "get_elems t n dv (off + ty_size t) = Inr vs" by blast
  then show ?case by simp
qed auto

text \<open>
  C37: Reading is type-safe.  Reading a scalar or an array of any nesting from a view succeeds wherever the type fits in the
  view, and whatever a read returns is a value of the type: every number in the range of its scalar, every array of
  the declared length.
\<close>
theorem read_value_well_typed:
  assumes "flat t" "dv_ok dv"
  shows "(off + ty_size t \<le> dv_length dv \<longrightarrow> (\<exists>v. ty_get t dv off = Inr v)) \<and> (\<forall>v. ty_get t dv off = Inr v \<longrightarrow> has_type t v)"
  using assms ty_get_total_aux(1) ty_get_typed_aux(1) by blast

theorem read_value_well_typed_witness:
  "\<exists>v. ty_get (FixedArray (Scalar I32LE) 2) (whole_view [255, 255, 255, 255, 1, 0, 0, 0, 7]) 0 = Inr v \<and> has_type (FixedArray (Scalar I32LE) 2) v"
  using read_value_well_typed [of "FixedArray (Scalar I32LE) 2" "whole_view [255, 255, 255, 255, 1, 0, 0, 0, 7]" 0] by auto
end
