(* ===== verification/Byte_Buffer.thy ===== *)
theory Byte_Buffer
  imports Byte_Layout
begin

text \<open>
  The sequential \<open>Reader\<close> and the growing \<open>Bytes\<close> buffer of \<open>packages/bytes/src/index.ts\<close>.

  A JavaScript string that was decoded from UTF-8 is represented by its UTF-8 encoding, so
  \<open>TextEncoder.encode\<close> is the identity and \<open>TextDecoder.decode\<close> is validation followed by the
  removal of a leading byte order mark, which the decoders of the sources do not switch off.
\<close>

section \<open>UTF-8\<close>

type_synonym ustring = bytes

text \<open>A literal as such a string, and such a string inside the message of an error.\<close>

definition ascii :: "string \<Rightarrow> ustring" where
  "ascii s = map (\<lambda>c. of_nat (of_char c)) s"

definition js_text :: "ustring \<Rightarrow> string" where
  "js_text s = map (\<lambda>b. char_of (unat b)) s"

definition utf8_cont :: "byte \<Rightarrow> bool" where
  "utf8_cont b \<longleftrightarrow> 128 \<le> b \<and> b \<le> 191"

fun utf8_valid :: "bytes \<Rightarrow> bool" where
  "utf8_valid [] = True"
| "utf8_valid (a # bs) =
     (if a < 128 then utf8_valid bs
      else if 194 \<le> a \<and> a \<le> 223 then
        (case bs of b # r \<Rightarrow> utf8_cont b \<and> utf8_valid r | _ \<Rightarrow> False)
      else if 224 \<le> a \<and> a \<le> 239 then
        (case bs of b # c # r \<Rightarrow>
             (if a = 224 then 160 \<le> b \<and> b \<le> 191 else if a = 237 then 128 \<le> b \<and> b \<le> 159 else utf8_cont b)
             \<and> utf8_cont c \<and> utf8_valid r
         | _ \<Rightarrow> False)
      else if 240 \<le> a \<and> a \<le> 244 then
        (case bs of b # c # d # r \<Rightarrow>
             (if a = 240 then 144 \<le> b \<and> b \<le> 191 else if a = 244 then 128 \<le> b \<and> b \<le> 143 else utf8_cont b)
             \<and> utf8_cont c \<and> utf8_cont d \<and> utf8_valid r
         | _ \<Rightarrow> False)
      else False)"

definition strip_bom :: "bytes \<Rightarrow> bytes" where
  "strip_bom bs = (if take 3 bs = [239, 187, 191] then drop 3 bs else bs)"

text \<open>\<open>new TextDecoder("utf-8", { fatal: true }).decode(bytes)\<close>.\<close>

definition utf8_decode_fatal :: "bytes \<Rightarrow> ustring option" where
  "utf8_decode_fatal bs = (if utf8_valid bs then Some (strip_bom bs) else None)"

section \<open>Reader\<close>

record reader =
  rd_array :: bytes
  rd_offset :: nat

definition new_reader :: "bytes \<Rightarrow> reader" where
  "new_reader bs = \<lparr>rd_array = bs, rd_offset = 0\<rparr>"

definition reader_take :: "reader \<Rightarrow> int \<Rightarrow> (nat \<times> reader) result" where
  "reader_take r n =
     (if n < 0 \<or> int (rd_offset r) + n > int (length (rd_array r))
      then Inl (RangeError ''read past the end of the buffer'')
      else Inr (rd_offset r, r\<lparr>rd_offset := rd_offset r + nat n\<rparr>))"

definition reader_scalar :: "scalar \<Rightarrow> reader \<Rightarrow> (int \<times> reader) result" where
  "reader_scalar s r =
     bindE (reader_take r (int (scalar_size s)))
       (\<lambda>(off, r'). bindE (scalar_get s (whole_view (rd_array r)) off) (\<lambda>v. Inr (v, r')))"

definition reader_u8 :: "reader \<Rightarrow> (int \<times> reader) result" where
  "reader_u8 = reader_scalar U8"

definition reader_u16 :: "reader \<Rightarrow> (int \<times> reader) result" where
  "reader_u16 = reader_scalar U16LE"

definition reader_u32 :: "reader \<Rightarrow> (int \<times> reader) result" where
  "reader_u32 = reader_scalar U32LE"

definition reader_i32 :: "reader \<Rightarrow> (int \<times> reader) result" where
  "reader_i32 = reader_scalar I32LE"

definition reader_u64 :: "reader \<Rightarrow> (int \<times> reader) result" where
  "reader_u64 = reader_scalar U64LE"

definition reader_i64 :: "reader \<Rightarrow> (int \<times> reader) result" where
  "reader_i64 = reader_scalar I64LE"

definition reader_skip :: "reader \<Rightarrow> int \<Rightarrow> reader result" where
  "reader_skip r n = bindE (reader_take r n) (\<lambda>(off, r'). Inr r')"

definition reader_bytes :: "reader \<Rightarrow> int \<Rightarrow> (bytes \<times> reader) result" where
  "reader_bytes r n =
     bindE (reader_take r n) (\<lambda>(off, r'). Inr (subarray (rd_array r) off (off + nat n), r'))"

text \<open>\<open>struct(type)\<close>: read a type at the current position and advance past it.\<close>

definition reader_struct :: "ty \<Rightarrow> reader \<Rightarrow> (val \<times> reader) result" where
  "reader_struct t r =
     bindE (reader_take r (int (ty_size t)))
       (\<lambda>(off, r'). bindE (ty_get t (whole_view (rd_array r)) off) (\<lambda>v. Inr (v, r')))"

text \<open>\<open>array.indexOf(0, from)\<close>, as the distance from \<open>from\<close>.\<close>

fun index_of :: "'a \<Rightarrow> 'a list \<Rightarrow> nat option" where
  "index_of x [] = None"
| "index_of x (y # ys) = (if y = x then Some 0 else map_option Suc (index_of x ys))"

definition reader_cstring :: "reader \<Rightarrow> (ustring \<times> reader) result" where
  "reader_cstring r = (case index_of 0 (drop (rd_offset r) (rd_array r)) of
       None \<Rightarrow> Inl (RangeError ''unterminated string'')
     | Some n \<Rightarrow>
         bindE (reader_bytes r (int n)) (\<lambda>(bs, r1).
         bindE (reader_skip r1 1) (\<lambda>r2.
         case utf8_decode_fatal bs of
           None \<Rightarrow> Inl (RangeError ''string is not valid UTF-8'')
         | Some str \<Rightarrow> Inr (str, r2))))"

section \<open>Bytes\<close>

text \<open>
  The buffer holds \<open>bb_array\<close>, of which the first \<open>bb_length\<close> bytes are in use.  The cached
  \<open>DataView\<close> always covers the current array: it is dropped when the array is replaced.
\<close>

record bytebuf =
  bb_array :: bytes
  bb_length :: nat

definition new_bytes :: "nat \<Rightarrow> bytebuf" where
  "new_bytes capacity = \<lparr>bb_array = replicate capacity 0, bb_length = 0\<rparr>"

definition bytes_capacity :: "bytebuf \<Rightarrow> nat" where
  "bytes_capacity b = length (bb_array b)"

definition bytes_array :: "bytebuf \<Rightarrow> bytes" where
  "bytes_array b = take (bb_length b) (bb_array b)"

text \<open>
  The loop \<open>while (length < capacity) length *= 2\<close>; \<open>None\<close> is a loop that never ends.
\<close>

partial_function (option) grow_length :: "nat \<Rightarrow> nat \<Rightarrow> nat option" where
  [code]: "grow_length len cap = (if len < cap then grow_length (len * 2) cap else Some len)"

definition ensure_capacity :: "bytebuf \<Rightarrow> nat \<Rightarrow> bytebuf option" where
  "ensure_capacity b cap =
     (if length (bb_array b) < cap then
        map_option (\<lambda>n. b\<lparr>bb_array := overwrite (replicate n 0) 0 (bb_array b)\<rparr>)
          (grow_length (length (bb_array b)) cap)
      else Some b)"

definition bytes_bump :: "bytebuf \<Rightarrow> nat \<Rightarrow> (nat \<times> bytebuf) option" where
  "bytes_bump b n =
     map_option (\<lambda>b'. (bb_length b, b'\<lparr>bb_length := bb_length b + n\<rparr>))
       (ensure_capacity b (bb_length b + n))"

definition bytes_append :: "bytebuf \<Rightarrow> bytes \<Rightarrow> bytebuf option" where
  "bytes_append b bs =
     map_option (\<lambda>(off, b'). b'\<lparr>bb_array := overwrite (bb_array b') off bs\<rparr>)
       (bytes_bump b (length bs))"

text \<open>
  \<open>alloc(type)\<close> reserves the field and returns its offset; the accessors of the allocated object
  read and write the type there, and \<open>allocated.value.key = v\<close> assigns one field of a struct.
\<close>

definition bytes_alloc :: "bytebuf \<Rightarrow> ty \<Rightarrow> (nat \<times> bytebuf) option" where
  "bytes_alloc b t = bytes_bump b (ty_size t)"

definition alloc_get :: "bytebuf \<Rightarrow> ty \<Rightarrow> nat \<Rightarrow> val result" where
  "alloc_get b t off = ty_get t (whole_view (bb_array b)) off"

definition alloc_set :: "bytebuf \<Rightarrow> ty \<Rightarrow> nat \<Rightarrow> val \<Rightarrow> bytebuf result" where
  "alloc_set b t off v =
     bindE (ty_set t (whole_view (bb_array b)) off v) (\<lambda>buf. Inr (b\<lparr>bb_array := buf\<rparr>))"

definition alloc_set_field :: "bytebuf \<Rightarrow> layout \<Rightarrow> nat \<Rightarrow> string \<Rightarrow> val \<Rightarrow> bytebuf result" where
  "alloc_set_field b fs off k v = alloc_set b (Struct fs) off (Obj [(k, v)])"

section \<open>Facts about the reader\<close>

lemma index_of_Some:
  "index_of x xs = Some n \<longleftrightarrow> n < length xs \<and> xs ! n = x \<and> x \<notin> set (take n xs)"
proof (induction xs arbitrary: n)
  case Nil
  then show ?case by simp
next
  case (Cons y ys)
  then show ?case by (cases n) auto
qed

lemma index_of_None: "index_of x xs = None \<longleftrightarrow> x \<notin> set xs"
  by (induction xs) auto

lemma index_of_append_hit: "x \<notin> set xs \<Longrightarrow> index_of x (xs @ x # ys) = Some (length xs)"
  by (induction xs) auto

definition reader_ok :: "reader \<Rightarrow> bool" where
  "reader_ok r \<longleftrightarrow> rd_offset r \<le> length (rd_array r)"

text \<open>The operations only move forward, never past the end, and never touch the array.\<close>

definition reader_advances :: "reader \<Rightarrow> reader \<Rightarrow> bool" where
  "reader_advances r r' \<longleftrightarrow> rd_array r' = rd_array r \<and> rd_offset r \<le> rd_offset r' \<and> reader_ok r'"

lemma reader_advances_trans [trans]:
  "reader_advances r r1 \<Longrightarrow> reader_advances r1 r2 \<Longrightarrow> reader_advances r r2"
  by (simp add: reader_advances_def)

lemma reader_take_Inr:
  "reader_take r n = Inr (off, r') \<longleftrightarrow>
     0 \<le> n \<and> int (rd_offset r) + n \<le> int (length (rd_array r)) \<and> off = rd_offset r \<and>
     r' = r\<lparr>rd_offset := rd_offset r + nat n\<rparr>"
  by (auto simp: reader_take_def)

lemma reader_take_advances: "reader_take r n = Inr (off, r') \<Longrightarrow> reader_advances r r'"
  by (auto simp: reader_take_Inr reader_advances_def reader_ok_def)

lemma reader_scalar_advances: "reader_scalar s r = Inr (v, r') \<Longrightarrow> reader_advances r r'"
  by (auto simp: reader_scalar_def throws dest: reader_take_advances)

lemma reader_struct_advances: "reader_struct t r = Inr (v, r') \<Longrightarrow> reader_advances r r'"
  by (auto simp: reader_struct_def throws dest: reader_take_advances)

lemma reader_bytes_advances: "reader_bytes r n = Inr (bs, r') \<Longrightarrow> reader_advances r r'"
  by (auto simp: reader_bytes_def throws dest: reader_take_advances)

lemma reader_skip_advances: "reader_skip r n = Inr r' \<Longrightarrow> reader_advances r r'"
  by (auto simp: reader_skip_def throws dest: reader_take_advances)

lemma reader_cstring_advances: "reader_cstring r = Inr (str, r') \<Longrightarrow> reader_advances r r'"
  by (auto simp: reader_cstring_def throws split: option.splits
      dest!: reader_bytes_advances reader_skip_advances intro: reader_advances_trans)

text \<open>A read either succeeds or throws a \<open>RangeError\<close>; no other exception leaves the reader.\<close>

definition only_range_errors :: "'a result \<Rightarrow> bool" where
  "only_range_errors m \<longleftrightarrow> (\<forall>e. m = Inl e \<longrightarrow> (\<exists>msg. e = RangeError msg))"

lemma reader_take_errors: "only_range_errors (reader_take r n)"
  by (auto simp: only_range_errors_def reader_take_def)

lemma reader_cstring_errors: "only_range_errors (reader_cstring r)"
  by (auto simp: only_range_errors_def reader_cstring_def reader_bytes_def reader_skip_def
      reader_take_def throws split: option.splits)

text \<open>
  The inverse of \<open>cstring\<close>: a NUL-terminated valid string without a byte order mark is read back,
  and the reader stands behind the terminator.
\<close>

lemma reader_cstring_reads:
  assumes "rd_array r = pre @ str @ 0 # post" and "rd_offset r = length pre"
    and "0 \<notin> set str" and "utf8_valid str" and "take 3 str \<noteq> [239, 187, 191]"
  shows "reader_cstring r = Inr (str, r\<lparr>rd_offset := length pre + length str + 1\<rparr>)"
proof -
  have "index_of 0 (drop (rd_offset r) (rd_array r)) = Some (length str)"
    using assms(1-3) by (simp add: index_of_append_hit)
  then show ?thesis
    using assms by (simp add: reader_cstring_def reader_bytes_def reader_skip_def reader_take_def
        utf8_decode_fatal_def strip_bom_def subarray_def)
qed

section \<open>Growth of the buffer\<close>

lemma grow_length_from_zero:
  assumes "grow_length len cap = Some n" and "len = 0"
  shows "cap = 0"
proof -
  have "len = 0 \<longrightarrow> cap = 0"
    by (rule grow_length.raw_induct [where P = "\<lambda>len cap n. len = 0 \<longrightarrow> cap = 0", OF _ assms(1)])
      (auto split: if_splits)
  with assms(2) show ?thesis by simp
qed

lemma grow_length_zero_diverges: "0 < cap \<Longrightarrow> grow_length 0 cap = None"
  using grow_length_from_zero [of 0 cap] by (cases "grow_length 0 cap") auto

lemma grow_length_reaches:
  assumes "0 < len"
  shows "\<exists>k. grow_length len cap = Some (len * 2 ^ k) \<and> cap \<le> len * 2 ^ k \<and>
    (\<forall>j < k. len * 2 ^ j < cap)"
  using assms
proof (induction "cap - len" arbitrary: len rule: less_induct)
  case less
  show ?case
  proof (cases "len < cap")
    case True
    with less.prems obtain k where k: "grow_length (len * 2) cap = Some (len * 2 * 2 ^ k)"
      "cap \<le> len * 2 * 2 ^ k" "\<forall>j < k. len * 2 * 2 ^ j < cap"
      using less.hyps [of "len * 2", OF diff_less_mono2] by auto
    have "len * 2 ^ j < cap" if "j < Suc k" for j
      using that True k(3) by (cases j) (auto simp: mult.assoc)
    with k True show ?thesis
      by (intro exI [of _ "Suc k"]) (simp add: grow_length.simps [of len] mult.assoc)
  next
    case False
    then show ?thesis by (intro exI [of _ 0]) (simp add: grow_length.simps [of len])
  qed
qed

lemma grow_length_returns_iff: "(\<exists>n. grow_length len cap = Some n) \<longleftrightarrow> 0 < len \<or> cap = 0"
  using grow_length_reaches [of len cap] grow_length_zero_diverges [of cap]
  by (cases "len = 0"; cases "cap = 0") (auto simp: grow_length.simps [of 0 0])

section \<open>The buffer as a byte string\<close>

text \<open>
  The invariant: the bytes in use fit, and the reserve behind them is still zero.
\<close>

definition bytes_ok :: "bytebuf \<Rightarrow> bool" where
  "bytes_ok b \<longleftrightarrow> bb_length b \<le> length (bb_array b) \<and>
     drop (bb_length b) (bb_array b) = replicate (length (bb_array b) - bb_length b) 0"

lemma new_bytes_ok [simp]: "bytes_ok (new_bytes n)"
  by (simp add: bytes_ok_def new_bytes_def)

lemma new_bytes_array [simp]: "bytes_array (new_bytes n) = []"
  by (simp add: bytes_array_def new_bytes_def)

lemma length_bytes_array: "bytes_ok b \<Longrightarrow> length (bytes_array b) = bb_length b"
  by (simp add: bytes_ok_def bytes_array_def)

lemma bytes_ok_split:
  "bytes_ok b \<Longrightarrow> bb_array b = bytes_array b @ replicate (length (bb_array b) - bb_length b) 0"
  unfolding bytes_ok_def bytes_array_def by (metis append_take_drop_id)

lemma bytes_okI:
  assumes "bb_array b = xs @ replicate n 0" and "bb_length b = length xs"
  shows "bytes_ok b" and "bytes_array b = xs"
  using assms by (simp_all add: bytes_ok_def bytes_array_def)

lemma ensure_capacity_works:
  assumes "bytes_ok b" and "0 < bytes_capacity b \<or> cap = 0"
  shows "\<exists>n. ensure_capacity b cap = Some (b\<lparr>bb_array := bytes_array b @ replicate n 0\<rparr>) \<and>
    cap \<le> bb_length b + n \<and> bytes_capacity b \<le> bb_length b + n"
proof (cases "length (bb_array b) < cap")
  case True
  with assms(2) have "0 < length (bb_array b)" by (auto simp: bytes_capacity_def)
  then obtain k where k: "grow_length (length (bb_array b)) cap = Some (length (bb_array b) * 2 ^ k)"
    "cap \<le> length (bb_array b) * 2 ^ k"
    using grow_length_reaches by blast
  define n where "n = length (bb_array b) * 2 ^ k"
  from k True have n: "length (bb_array b) \<le> n" "cap \<le> n" by (simp_all add: n_def)
  have "overwrite (replicate n 0) 0 (bb_array b) =
      bb_array b @ replicate (n - length (bb_array b)) 0"
    by (simp add: overwrite_def)
  also have "\<dots> = bytes_array b @ replicate (length (bb_array b) - bb_length b) 0
      @ replicate (n - length (bb_array b)) 0"
    by (subst bytes_ok_split [OF assms(1)]) simp
  also have "\<dots> = bytes_array b @ replicate (n - bb_length b) 0"
    using assms(1) n(1) by (simp add: replicate_add [symmetric] bytes_ok_def)
  finally have "overwrite (replicate n 0) 0 (bb_array b) =
      bytes_array b @ replicate (n - bb_length b) 0" .
  then show ?thesis
    using True k n assms(1)
    by (intro exI [of _ "n - bb_length b"])
      (auto simp: ensure_capacity_def n_def [symmetric] bytes_ok_def bytes_capacity_def)
next
  case False
  have "b\<lparr>bb_array := bytes_array b @ replicate (length (bb_array b) - bb_length b) 0\<rparr> = b"
    using bytes_ok_split [OF assms(1)] by (cases b) simp
  with False assms(1) show ?thesis
    by (intro exI [of _ "length (bb_array b) - bb_length b"])
      (auto simp: ensure_capacity_def bytes_ok_def bytes_capacity_def)
qed

text \<open>\<open>alloc(type).value = v\<close>: reserve the type and write it at once.\<close>

definition bytes_put :: "bytebuf \<Rightarrow> ty \<Rightarrow> val \<Rightarrow> bytebuf result option" where
  "bytes_put b t v = map_option (\<lambda>(off, b'). alloc_set b' t off v) (bytes_alloc b t)"

text \<open>A buffer that can be grown: the invariant, and a capacity the doubling can start from.\<close>

definition growable :: "bytebuf \<Rightarrow> bool" where
  "growable b \<longleftrightarrow> bytes_ok b \<and> 0 < bytes_capacity b"

lemma new_bytes_growable: "growable (new_bytes n) \<longleftrightarrow> 0 < n"
  by (simp add: growable_def bytes_capacity_def new_bytes_def bytes_ok_def)

lemma bytes_bump_works:
  assumes "bytes_ok b" and "0 < bytes_capacity b \<or> bb_length b + n = 0"
  shows "\<exists>b' m. bytes_bump b n = Some (bb_length b, b') \<and> bb_length b' = bb_length b + n \<and>
    bb_array b' = bytes_array b @ replicate n 0 @ replicate m 0 \<and>
    bytes_capacity b \<le> bytes_capacity b'"
proof -
  from ensure_capacity_works [OF assms] obtain m where
    m: "ensure_capacity b (bb_length b + n) = Some (b\<lparr>bb_array := bytes_array b @ replicate m 0\<rparr>)"
    "bb_length b + n \<le> bb_length b + m" "bytes_capacity b \<le> bb_length b + m"
    by blast
  then have "replicate m (0::byte) = replicate n 0 @ replicate (m - n) 0"
    by (simp add: replicate_add [symmetric])
  with m assms(1) show ?thesis
    by (intro exI [of _ "b\<lparr>bb_array := bytes_array b @ replicate m 0, bb_length := bb_length b + n\<rparr>"]
        exI [of _ "m - n"])
      (simp add: bytes_bump_def bytes_capacity_def length_bytes_array)
qed

lemma bytes_append_works:
  assumes "growable b"
  shows "\<exists>b'. bytes_append b bs = Some b' \<and> growable b' \<and> bytes_array b' = bytes_array b @ bs"
proof -
  have ok: "bytes_ok b" and cap: "0 < bytes_capacity b" using assms by (simp_all add: growable_def)
  from bytes_bump_works [OF ok, of "length bs"] cap obtain b1 m where
    b1: "bytes_bump b (length bs) = Some (bb_length b, b1)" "bb_length b1 = bb_length b + length bs"
    "bb_array b1 = bytes_array b @ replicate (length bs) 0 @ replicate m 0"
    "bytes_capacity b \<le> bytes_capacity b1"
    by blast
  let ?b = "b1\<lparr>bb_array := overwrite (bb_array b1) (bb_length b) bs\<rparr>"
  have arr: "bb_array ?b = (bytes_array b @ bs) @ replicate m 0"
    using b1(3) length_bytes_array [OF ok]
    by (simp add: overwrite_def)
  then have "bytes_ok ?b" "bytes_array ?b = bytes_array b @ bs"
    by (rule bytes_okI, use b1(2) length_bytes_array [OF ok] in simp)+
  moreover have "length (bb_array ?b) = length (bb_array b1)" using arr b1(3) by simp
  then have "0 < bytes_capacity ?b"
    using cap b1(4) by (simp only: bytes_capacity_def)
  ultimately show ?thesis using b1(1) by (simp add: bytes_append_def growable_def)
qed

lemma bytes_put_works:
  assumes "growable b" and "ty_encode t v = Inr bs"
  shows "\<exists>b'. bytes_put b t v = Some (Inr b') \<and> growable b' \<and> bytes_array b' = bytes_array b @ bs"
proof -
  have ok: "bytes_ok b" and cap: "0 < bytes_capacity b" using assms(1) by (simp_all add: growable_def)
  from bytes_bump_works [OF ok, of "ty_size t"] cap obtain b1 m where
    b1: "bytes_bump b (ty_size t) = Some (bb_length b, b1)" "bb_length b1 = bb_length b + ty_size t"
    "bb_array b1 = bytes_array b @ replicate (ty_size t) 0 @ replicate m 0"
    "bytes_capacity b \<le> bytes_capacity b1"
    by blast
  let ?b = "b1\<lparr>bb_array := (bytes_array b @ bs) @ replicate m 0\<rparr>"
  have "ty_set t (whole_view (bb_array b1)) (bb_length b) v =
      Inr ((bytes_array b @ bs) @ replicate m 0)"
    using ty_set_encode [OF b1(3), of "bb_length b" v] assms(2) length_bytes_array [OF ok] by simp
  then have "bytes_put b t v = Some (Inr ?b)"
    using b1(1) by (simp add: bytes_put_def bytes_alloc_def alloc_set_def)
  moreover have "bytes_ok ?b" "bytes_array ?b = bytes_array b @ bs"
    by (rule bytes_okI [where xs = "bytes_array b @ bs" and n = m];
        use b1(2) length_bytes_array [OF ok] length_ty_encode [OF assms(2)] in simp)+
  moreover have "length (bb_array ?b) = length (bb_array b1)"
    using b1(3) length_ty_encode [OF assms(2)] by simp
  then have "0 < bytes_capacity ?b"
    using cap b1(4) by (simp only: bytes_capacity_def)
  ultimately show ?thesis by (simp add: growable_def)
qed

definition append_bytes :: "bytebuf \<Rightarrow> bytes \<Rightarrow> bytebuf result option" where
  "append_bytes b bs = map_option Inr (bytes_append b bs)"

lemma append_bytes_works:
  "growable b \<Longrightarrow> \<exists>b'. append_bytes b bs = Some (Inr b') \<and> growable b' \<and> bytes_array b' = bytes_array b @ bs"
  using bytes_append_works [of b bs] by (auto simp: append_bytes_def)

text \<open>
  What the users of the buffer rely on: appending is total on growable buffers and concatenates.
\<close>

locale byte_sink =
  fixes add :: "'s \<Rightarrow> bytes \<Rightarrow> 's option"
    and contents :: "'s \<Rightarrow> bytes"
    and ready :: "'s \<Rightarrow> bool"
  assumes add_ready: "ready s \<Longrightarrow> \<exists>s'. add s bs = Some s' \<and> ready s' \<and> contents s' = contents s @ bs"
begin

primrec add_all :: "'s \<Rightarrow> bytes list \<Rightarrow> 's option" where
  "add_all s [] = Some s"
| "add_all s (bs # bss) = Option.bind (add s bs) (\<lambda>s'. add_all s' bss)"

lemma add_all_contents:
  "ready s \<Longrightarrow> \<exists>s'. add_all s bss = Some s' \<and> ready s' \<and> contents s' = contents s @ concat bss"
proof (induction bss arbitrary: s)
  case Nil
  then show ?case by simp
next
  case (Cons bs bss)
  from add_ready [OF Cons.prems] obtain s1 where
    s1: "add s bs = Some s1" "ready s1" "contents s1 = contents s @ bs" by blast
  from Cons.IH [OF s1(2)] s1 show ?case by auto
qed

lemma add_determined: "ready s \<Longrightarrow> add s bs = Some s' \<Longrightarrow> contents s' = contents s @ bs"
  using add_ready [of s bs] by auto

end

interpretation buffer_sink: byte_sink bytes_append bytes_array growable
  by unfold_locales (rule bytes_append_works)

section \<open>Properties\<close>

text \<open>
  appending to the growable buffer returns exactly when the buffer has a capacity or there is
  nothing to append; then the buffer holds the old bytes followed by the new ones.  With capacity
  zero the doubling loop never ends.
\<close>

theorem append_returns_iff:
  assumes "bytes_ok b"
  shows "(bytes_append b bs = None \<longleftrightarrow> bytes_capacity b = 0 \<and> bs \<noteq> []) \<and>
    (\<forall>b'. bytes_append b bs = Some b' \<longrightarrow> bytes_ok b' \<and> bytes_array b' = bytes_array b @ bs)"
proof (cases "0 < bytes_capacity b")
  case True
  with assms have "growable b" by (simp add: growable_def)
  from bytes_append_works [OF this, of bs] True show ?thesis by (auto simp: growable_def)
next
  case False
  then have none: "bb_array b = []" "bb_length b = 0"
    using assms by (simp_all add: bytes_capacity_def bytes_ok_def)
  then show ?thesis
    using assms by (cases "bs = []")
      (auto simp: bytes_append_def bytes_bump_def ensure_capacity_def bytes_capacity_def overwrite_def
        grow_length_zero_diverges bytes_ok_def bytes_array_def)
qed

theorem append_returns_iff_witness:
  "bytes_append (new_bytes 0) [104, 105] = None \<and> bytes_append (new_bytes 1) [104, 105] \<noteq> None"
  using append_returns_iff [OF new_bytes_ok, of 0 "[104, 105]"]
    append_returns_iff [OF new_bytes_ok, of 1 "[104, 105]"]
  by (simp add: bytes_capacity_def new_bytes_def)

text \<open>
  A NUL-terminated string written into a message is read back by \<open>cstring\<close>, and the reader then
  stands behind the terminator, whatever surrounds it.
\<close>

theorem cstring_reads_back:
  assumes "0 \<notin> set str" and "utf8_valid str" and "take 3 str \<noteq> [239, 187, 191]"
  shows "reader_cstring \<lparr>rd_array = pre @ str @ 0 # post, rd_offset = length pre\<rparr> =
    Inr (str, \<lparr>rd_array = pre @ str @ 0 # post, rd_offset = length (pre @ str) + 1\<rparr>)"
  using reader_cstring_reads [OF _ _ assms, where r = "\<lparr>rd_array = pre @ str @ 0 # post, rd_offset = length pre\<rparr>"]
  by simp

theorem cstring_reads_back_witness:
  "reader_cstring \<lparr>rd_array = [9] @ [104, 105] @ 0 # [7], rd_offset = length [9::byte]\<rparr> =
    Inr ([104, 105], \<lparr>rd_array = [9] @ [104, 105] @ 0 # [7], rd_offset = length ([9::byte] @ [104, 105]) + 1\<rparr>)"
  by (rule cstring_reads_back) simp_all

end
