(* ===== verification/Virtqueue.thy ===== *)
theory Virtqueue
  imports Byte_Buffer
begin

text \<open>
  The packed virtqueue of \<open>packages/kernel/src/virtio/queue.ts\<close>: descriptors in guest memory, the
  walk over available descriptors, chains, and the publication of completions.  Guest memory is
  an explicit byte array; one call sees one state of it.  The callback \<open>is_current\<close> is the boolean
  argument \<open>current\<close>, its answer when the code asks.
\<close>

unbundle bit_operations_syntax

section \<open>Descriptors\<close>

definition TF_VERSION_1 :: nat where "TF_VERSION_1 = 2 ^ 32"
definition TF_RING_PACKED :: nat where "TF_RING_PACKED = 2 ^ 34"
definition TF_INDIRECT_DESC :: nat where "TF_INDIRECT_DESC = 2 ^ 28"

definition DF_NEXT :: nat where "DF_NEXT = 1"
definition DF_WRITE :: nat where "DF_WRITE = 2"
definition DF_INDIRECT :: nat where "DF_INDIRECT = 4"
definition DF_AVAIL :: nat where "DF_AVAIL = 128"
definition DF_USED :: nat where "DF_USED = 32768"

definition VirtqDescriptor :: layout where
  "VirtqDescriptor =
     [(''addr'', Scalar U64LE), (''len'', Scalar U32LE), (''id'', Scalar U16LE), (''flags'', Scalar U16LE)]"

record descriptor =
  d_addr :: nat
  d_len :: nat
  d_id :: nat
  d_flags :: nat

definition has_flag :: "nat \<Rightarrow> nat \<Rightarrow> bool" where
  "has_flag flags m \<longleftrightarrow> flags AND m \<noteq> 0"

text \<open>\<open>VirtqDescriptor.get(new DataView(memory.buffer), address)\<close> and the four fields read from it.\<close>

definition read_descriptor :: "bytes \<Rightarrow> nat \<Rightarrow> descriptor result" where
  "read_descriptor mem address =
     bindE (if address \<noteq> 0 then tail_view (whole_view mem) address else Inr (whole_view mem)) (\<lambda>dv.
     bindE (get_num VirtqDescriptor dv ''addr'') (\<lambda>a.
     bindE (get_num VirtqDescriptor dv ''len'') (\<lambda>l.
     bindE (get_num VirtqDescriptor dv ''id'') (\<lambda>i.
     bindE (get_num VirtqDescriptor dv ''flags'') (\<lambda>f.
     Inr \<lparr>d_addr = a, d_len = l, d_id = i, d_flags = f\<rparr>)))))"

text \<open>
  The index of the flags in a \<open>Uint16Array\<close> over guest memory, and the atomic accesses there, which
  throw beyond the end of memory.  The shift truncates the address to 32 bits.
\<close>

definition flags_index :: "nat \<Rightarrow> nat" where
  "flags_index descriptor_address = ((descriptor_address + 14) mod 2 ^ 32) div 2"

definition load_flags :: "bytes \<Rightarrow> nat \<Rightarrow> nat result" where
  "load_flags mem descriptor_address =
     (let i = 2 * flags_index descriptor_address
      in if i + 2 \<le> length mem then Inr (le_nat (subarray mem i (i + 2)))
         else Inl (RangeError ''out-of-range index for atomic access''))"

definition store_flags :: "bytes \<Rightarrow> nat \<Rightarrow> nat \<Rightarrow> bytes result" where
  "store_flags mem descriptor_address flags =
     (let i = 2 * flags_index descriptor_address
      in if i + 2 \<le> length mem then Inr (overwrite mem i (le_bytes 2 flags))
         else Inl (RangeError ''out-of-range index for atomic access''))"

section \<open>Chains\<close>

text \<open>
  One buffer of a chain.  \<open>vb_target\<close> is where the descriptor points in guest memory.  A queue with
  views hands out that memory itself; otherwise \<open>vb_array\<close> is a private copy, and \<open>vb_address\<close> is set
  when the copy is to be written back on release.
\<close>

record vq_buffer =
  vb_array :: bytes
  vb_writable :: bool
  vb_address :: "nat option"
  vb_target :: nat

record vq_output =
  out_address :: nat
  out_data :: bytes

record completion =
  c_descriptor_address :: nat
  c_id :: nat
  c_written :: nat
  c_flags :: nat
  c_outputs :: "vq_output list"

record vq_chain =
  ch_buffers :: "vq_buffer list"
  ch_id :: nat
  ch_skip :: nat

definition chain_buffer :: "bool \<Rightarrow> bytes \<Rightarrow> descriptor \<Rightarrow> vq_buffer result" where
  "chain_buffer views mem d =
     (if d_addr d + d_len d \<le> length mem then
        Inr \<lparr>vb_array = subarray mem (d_addr d) (d_addr d + d_len d),
             vb_writable = has_flag (d_flags d) DF_WRITE,
             vb_address = (if \<not> views \<and> has_flag (d_flags d) DF_WRITE then Some (d_addr d) else None),
             vb_target = d_addr d\<rparr>
      else Inl (RangeError ''invalid typed array length''))"

fun chain_buffers :: "bool \<Rightarrow> bytes \<Rightarrow> descriptor list \<Rightarrow> vq_buffer list result" where
  "chain_buffers views mem [] = Inr []"
| "chain_buffers views mem (d # ds) =
     bindE (chain_buffer views mem d) (\<lambda>b. bindE (chain_buffers views mem ds) (\<lambda>bs. Inr (b # bs)))"

definition chain_outputs :: "vq_buffer list \<Rightarrow> vq_output list" where
  "chain_outputs bs = concat (map (\<lambda>b. case vb_address b of
       None \<Rightarrow> [] | Some a \<Rightarrow> [\<lparr>out_address = a, out_data = vb_array b\<rparr>]) bs)"

section \<open>The queue\<close>

record virtq =
  q_size :: nat
  q_desc_addr :: nat
  q_views :: bool
  q_avail_wrap :: bool
  q_used_wrap :: bool
  q_used_idx :: nat
  q_avail_idx :: nat
  q_valid :: bool

definition new_virtq :: "nat \<Rightarrow> nat \<Rightarrow> bool \<Rightarrow> virtq result" where
  "new_virtq n desc_addr views =
     bindE (assertE (n \<noteq> 0) ''Assertation failed'') (\<lambda>_.
     bindE (assertE (desc_addr mod layout_size VirtqDescriptor = 0) ''packed ring must be 16-byte aligned'') (\<lambda>_.
     Inr \<lparr>q_size = n, q_desc_addr = desc_addr, q_views = views, q_avail_wrap = True,
          q_used_wrap = True, q_used_idx = 0, q_avail_idx = 0, q_valid = True\<rparr>))"

definition invalidate :: "virtq \<Rightarrow> virtq" where
  "invalidate q = q\<lparr>q_valid := False\<rparr>"

definition slot_address :: "virtq \<Rightarrow> nat \<Rightarrow> nat" where
  "slot_address q i = q_desc_addr q + layout_size VirtqDescriptor * i"

definition queue_descriptor :: "bytes \<Rightarrow> virtq \<Rightarrow> nat \<Rightarrow> descriptor result" where
  "queue_descriptor mem q i = read_descriptor mem (slot_address q i)"

fun indirect_descriptors :: "bytes \<Rightarrow> nat \<Rightarrow> nat \<Rightarrow> descriptor list result" where
  "indirect_descriptors mem address 0 = Inr []"
| "indirect_descriptors mem address (Suc count) =
     bindE (read_descriptor mem address) (\<lambda>d.
     bindE (indirect_descriptors mem (address + layout_size VirtqDescriptor) count) (\<lambda>ds. Inr (d # ds)))"

text \<open>Whether flags mark a descriptor as available to the device in the lap with this wrap counter.\<close>

definition available :: "nat \<Rightarrow> bool \<Rightarrow> bool" where
  "available flags wrap \<longleftrightarrow>
     \<not> (has_flag flags DF_AVAIL = has_flag flags DF_USED \<or> has_flag flags DF_AVAIL \<noteq> wrap)"

definition advance :: "bytes \<Rightarrow> virtq \<Rightarrow> virtq \<times> nat option result" where
  "advance mem q = (case load_flags mem (slot_address q (q_avail_idx q)) of
       Inl e \<Rightarrow> (q, Inl e)
     | Inr flags \<Rightarrow>
         if \<not> available flags (q_avail_wrap q) then (q, Inr None)
         else let i = q_avail_idx q + 1
              in if i \<ge> q_size q
                 then (q\<lparr>q_avail_idx := 0, q_avail_wrap := \<not> q_avail_wrap q\<rparr>, Inr (Some (q_avail_idx q)))
                 else (q\<lparr>q_avail_idx := i\<rparr>, Inr (Some (q_avail_idx q))))"

text \<open>
  The \<open>do ... while (desc.flags & NEXT)\<close> loop of \<open>#pop\<close>, from the descriptors collected so far; \<open>None\<close>
  is a loop that never ends.
\<close>

partial_function (option) collect_next ::
    "bytes \<Rightarrow> virtq \<Rightarrow> descriptor list \<Rightarrow> (virtq \<times> descriptor list result) option" where
  [code]: "collect_next mem q ds = (case advance mem q of
       (q1, Inl e) \<Rightarrow> Some (q1, Inl e)
     | (q1, Inr None) \<Rightarrow> Some (q1, Inl (Error ''no next descriptor is available''))
     | (q1, Inr (Some i)) \<Rightarrow> (case queue_descriptor mem q1 i of
           Inl e \<Rightarrow> Some (q1, Inl e)
         | Inr d \<Rightarrow> if has_flag (d_flags d) DF_NEXT then collect_next mem q1 (ds @ [d])
                   else Some (q1, Inr (ds @ [d]))))"

text \<open>The descriptors of the next chain and how many ring slots they take.\<close>

definition chain_descriptors ::
    "bytes \<Rightarrow> virtq \<Rightarrow> descriptor \<Rightarrow> (virtq \<times> (descriptor list \<times> nat) result) option" where
  "chain_descriptors mem q d =
     (if has_flag (d_flags d) DF_NEXT then
        map_option (\<lambda>(q1, r). (q1, bindE r (\<lambda>ds. Inr (ds, length ds)))) (collect_next mem q [d])
      else if has_flag (d_flags d) DF_INDIRECT then
        Some (q,
          if d_len d mod layout_size VirtqDescriptor \<noteq> 0 \<or> d_len d div layout_size VirtqDescriptor > q_size q
          then Inl (Error ''malformed indirect buffer'')
          else bindE (indirect_descriptors mem (d_addr d) (d_len d div layout_size VirtqDescriptor))
                 (\<lambda>ds. Inr (ds, 1)))
      else Some (q, Inr ([d], 1)))"

definition pop :: "bytes \<Rightarrow> virtq \<Rightarrow> bool \<Rightarrow> (virtq \<times> vq_chain option result) option" where
  "pop mem q current = (case advance mem q of
       (q1, Inl e) \<Rightarrow> Some (q1, Inl e)
     | (q1, Inr None) \<Rightarrow> Some (q1, Inr None)
     | (q1, Inr (Some i)) \<Rightarrow> (case queue_descriptor mem q1 i of
           Inl e \<Rightarrow> Some (q1, Inl e)
         | Inr d \<Rightarrow> map_option (\<lambda>(q2, r). (q2,
               bindE r (\<lambda>(ds, skip).
               bindE (chain_buffers (q_views q) mem ds) (\<lambda>bs.
               Inr (if current then Some \<lparr>ch_buffers = bs, ch_id = d_id d, ch_skip = skip\<rparr> else None)))))
             (chain_descriptors mem q1 d)))"

text \<open>One turn of the iterator: nothing once the queue is invalid or no longer current.\<close>

definition iterate_next :: "bytes \<Rightarrow> virtq \<Rightarrow> bool \<Rightarrow> (virtq \<times> vq_chain option result) option" where
  "iterate_next mem q current =
     (if q_valid q \<and> current then pop mem q current else Some (q, Inr None))"

definition release ::
    "bytes \<Rightarrow> virtq \<Rightarrow> bool \<Rightarrow> nat \<Rightarrow> nat \<Rightarrow> nat \<Rightarrow> vq_output list \<Rightarrow> virtq \<times> completion option result" where
  "release mem q current cid skip written outputs =
     (if \<not> q_valid q \<or> \<not> current then (q, Inr None)
      else case queue_descriptor mem q (q_used_idx q) of
        Inl e \<Rightarrow> (q, Inl e)
      | Inr d \<Rightarrow>
          if \<not> available (d_flags d) (q_used_wrap q) then (q, Inl (Error ''ring full''))
          else
            let c = \<lparr>c_descriptor_address = slot_address q (q_used_idx q), c_id = cid, c_written = written,
                     c_flags = (if q_used_wrap q then DF_AVAIL OR DF_USED else 0)
                               OR (if written > 0 then DF_WRITE else 0),
                     c_outputs = outputs\<rparr>;
                u = q_used_idx q + skip
            in if u \<ge> q_size q
               then (q\<lparr>q_used_idx := u - q_size q, q_used_wrap := \<not> q_used_wrap q\<rparr>, Inr (Some c))
               else (q\<lparr>q_used_idx := u\<rparr>, Inr (Some c)))"

definition release_chain ::
    "bytes \<Rightarrow> virtq \<Rightarrow> bool \<Rightarrow> vq_chain \<Rightarrow> nat \<Rightarrow> virtq \<times> completion option result" where
  "release_chain mem q current ch written =
     release mem q current (ch_id ch) (ch_skip ch) written (chain_outputs (ch_buffers ch))"

fun write_outputs :: "bytes \<Rightarrow> vq_output list \<Rightarrow> bytes result" where
  "write_outputs mem [] = Inr mem"
| "write_outputs mem (o' # os) =
     (if out_address o' + length (out_data o') \<le> length mem
      then write_outputs (overwrite mem (out_address o') (out_data o')) os
      else Inl (RangeError ''invalid typed array length''))"

definition publish_virtqueue_completion :: "bytes \<Rightarrow> completion \<Rightarrow> bytes result" where
  "publish_virtqueue_completion mem c =
     bindE (write_outputs mem (c_outputs c)) (\<lambda>mem1.
     bindE (ty_set (Struct VirtqDescriptor) (whole_view mem1) (c_descriptor_address c)
              (Obj [(''id'', Num (int (c_id c)))])) (\<lambda>mem2.
     bindE (ty_set (Struct VirtqDescriptor) (whole_view mem2) (c_descriptor_address c)
              (Obj [(''len'', Num (int (c_written c)))])) (\<lambda>mem3.
     store_flags mem3 (c_descriptor_address c) (c_flags c))))"

section \<open>Descriptors in memory\<close>

lemma VirtqDescriptor_size [simp]: "layout_size VirtqDescriptor = 16"
  by (simp add: VirtqDescriptor_def)

lemma VirtqDescriptor_fields [simp]:
  "field_at VirtqDescriptor 0 ''addr'' = Some (0, Scalar U64LE)"
  "field_at VirtqDescriptor 0 ''len'' = Some (8, Scalar U32LE)"
  "field_at VirtqDescriptor 0 ''id'' = Some (12, Scalar U16LE)"
  "field_at VirtqDescriptor 0 ''flags'' = Some (14, Scalar U16LE)"
  by (simp_all add: VirtqDescriptor_def)

text \<open>The descriptor a slot of sixteen bytes encodes.\<close>

definition descriptor_at :: "bytes \<Rightarrow> nat \<Rightarrow> descriptor" where
  "descriptor_at mem a =
     \<lparr>d_addr = le_nat (subarray mem a (a + 8)), d_len = le_nat (subarray mem (a + 8) (a + 12)),
      d_id = le_nat (subarray mem (a + 12) (a + 14)), d_flags = le_nat (subarray mem (a + 14) (a + 16))\<rparr>"

lemma read_descriptor_at:
  assumes "a + 16 \<le> length mem"
  shows "read_descriptor mem a = Inr (descriptor_at mem a)"
proof -
  have "(if a \<noteq> 0 then tail_view (whole_view mem) a else Inr (whole_view mem)) =
      Inr \<lparr>dv_buffer = mem, dv_offset = a, dv_length = length mem - a\<rparr>"
    using assms by (simp add: tail_view_def whole_view_def)
  with assms show ?thesis
    by (simp add: read_descriptor_def get_num_whole descriptor_at_def add.commute)
qed

text \<open>
  The ring lies in memory, aligned and below the 32-bit limit of the flags index, and both
  cursors are inside it.
\<close>

definition ring_ok :: "bytes \<Rightarrow> virtq \<Rightarrow> bool" where
  "ring_ok mem q \<longleftrightarrow> 0 < q_size q \<and> q_desc_addr q mod 16 = 0 \<and>
     q_desc_addr q + 16 * q_size q \<le> length mem \<and> length mem \<le> 2 ^ 32 \<and>
     q_avail_idx q < q_size q \<and> q_used_idx q < q_size q"

definition slot_flags :: "bytes \<Rightarrow> virtq \<Rightarrow> nat \<Rightarrow> nat" where
  "slot_flags mem q i = d_flags (descriptor_at mem (slot_address q i))"

lemma slot_address_eq: "slot_address q i = q_desc_addr q + 16 * i"
  by (simp add: slot_address_def)

lemma slot_fits: "ring_ok mem q \<Longrightarrow> i < q_size q \<Longrightarrow> slot_address q i + 16 \<le> length mem"
  by (simp add: ring_ok_def slot_address_eq)

lemma queue_descriptor_slot:
  "ring_ok mem q \<Longrightarrow> i < q_size q \<Longrightarrow>
     queue_descriptor mem q i = Inr (descriptor_at mem (slot_address q i))"
  by (simp add: queue_descriptor_def read_descriptor_at slot_fits)

lemma flags_index_slot:
  assumes "ring_ok mem q" and "i < q_size q"
  shows "2 * flags_index (slot_address q i) = slot_address q i + 14"
proof -
  have "slot_address q i + 16 \<le> 2 ^ 32"
    using slot_fits [OF assms] assms(1) by (simp add: ring_ok_def)
  then have "(slot_address q i + 14) mod 2 ^ 32 = slot_address q i + 14" by simp
  moreover have "even (slot_address q i + 14)"
  proof -
    have "even (q_desc_addr q)" using assms(1) unfolding ring_ok_def by presburger
    then show ?thesis by (simp add: slot_address_eq)
  qed
  ultimately show ?thesis by (simp add: flags_index_def)
qed

lemma load_flags_slot:
  assumes "ring_ok mem q" and "i < q_size q"
  shows "load_flags mem (slot_address q i) = Inr (slot_flags mem q i)"
  using slot_fits [OF assms] flags_index_slot [OF assms]
  by (simp add: load_flags_def Let_def slot_flags_def descriptor_at_def add.commute)

section \<open>Positions in the ring\<close>

text \<open>
  A cursor with its wrap counter stands for an unbounded position: the slot is the position
  modulo the ring size, and the wrap counter is set on even laps.
\<close>

definition at_position :: "nat \<Rightarrow> nat \<Rightarrow> nat \<Rightarrow> bool \<Rightarrow> bool" where
  "at_position n p idx wrap \<longleftrightarrow> idx = p mod n \<and> wrap = even (p div n)"

abbreviation avail_at :: "virtq \<Rightarrow> nat \<Rightarrow> bool" where
  "avail_at q p \<equiv> at_position (q_size q) p (q_avail_idx q) (q_avail_wrap q)"

abbreviation used_at :: "virtq \<Rightarrow> nat \<Rightarrow> bool" where
  "used_at q p \<equiv> at_position (q_size q) p (q_used_idx q) (q_used_wrap q)"

text \<open>Moving a cursor by at most one lap moves the position by the same amount.\<close>

lemma at_position_move:
  assumes "at_position n p idx wrap" and "0 < n" and "k \<le> n"
  shows "if idx + k \<ge> n then at_position n (p + k) (idx + k - n) (\<not> wrap)
    else at_position n (p + k) (idx + k) wrap"
proof -
  define a b where "a = p div n" and "b = p mod n"
  have p: "p = a * n + b" and b: "b < n" using assms(2) by (simp_all add: a_def b_def)
  show ?thesis
  proof (cases "b + k \<ge> n")
    case True
    define c where "c = b + k - n"
    have pk: "p + k = c + Suc a * n" and "c < n" using p b True assms(2,3) by (simp_all add: c_def)
    have "(p + k) mod n = c mod n" unfolding pk by (rule mod_mult_self1)
    then have m: "(p + k) mod n = c" using \<open>c < n\<close> by (simp only: mod_less)
    have "(p + k) div n = Suc a + c div n"
      unfolding pk by (rule div_mult_self1) (use assms(2) in simp)
    then have d: "(p + k) div n = Suc a" using \<open>c < n\<close> by (simp only: div_less add_0_right)
    show ?thesis using True assms(1) m d by (simp add: at_position_def a_def b_def c_def)
  next
    case False
    then have pk: "p + k = (b + k) + a * n" and lt: "b + k < n" using p by simp_all
    have m: "(p + k) mod n = b + k" unfolding pk using lt by (simp only: mod_mult_self1 mod_less)
    have "(p + k) div n = a + (b + k) div n"
      unfolding pk by (rule div_mult_self1) (use assms(2) in simp)
    then have d: "(p + k) div n = a" using lt by (simp only: div_less add_0_right)
    show ?thesis using False assms(1) m d by (simp add: at_position_def a_def b_def)
  qed
qed

text \<open>A slot is free for the device at a position when its flags say so for that lap.\<close>

definition slot_available :: "bytes \<Rightarrow> virtq \<Rightarrow> nat \<Rightarrow> bool" where
  "slot_available mem q p \<longleftrightarrow> available (slot_flags mem q (p mod q_size q)) (even (p div q_size q))"

lemma available_one_lap: "available f w \<Longrightarrow> \<not> available f (\<not> w)"
  by (auto simp: available_def)

lemma available_run_bound:
  assumes "0 < q_size q" and "\<forall>j < k. slot_available mem q (p + j)"
  shows "k \<le> q_size q"
proof (rule ccontr)
  assume "\<not> k \<le> q_size q"
  then have "slot_available mem q p" "slot_available mem q (p + q_size q)"
    using assms by (metis add_0_right linorder_not_le not_less_zero order_less_trans gr0I, simp)
  moreover have "(p + q_size q) div q_size q = Suc (p div q_size q)"
    using assms(1) by (simp add: div_add_self2)
  ultimately show False
    using available_one_lap by (auto simp: slot_available_def)
qed

section \<open>Taking chains\<close>

text \<open>Nothing but the available cursor changes while chains are taken.\<close>

definition same_ring :: "virtq \<Rightarrow> virtq \<Rightarrow> bool" where
  "same_ring q q' \<longleftrightarrow> q_size q' = q_size q \<and> q_desc_addr q' = q_desc_addr q \<and> q_views q' = q_views q \<and>
     q_used_wrap q' = q_used_wrap q \<and> q_used_idx q' = q_used_idx q \<and> q_valid q' = q_valid q"

lemma same_ring_refl [simp]: "same_ring q q"
  by (simp add: same_ring_def)

lemma same_ring_trans: "same_ring q q1 \<Longrightarrow> same_ring q1 q2 \<Longrightarrow> same_ring q q2"
  by (simp add: same_ring_def)

lemma same_ring_slots:
  assumes "same_ring q q'"
  shows "slot_flags mem q' i = slot_flags mem q i" "slot_address q' i = slot_address q i"
    "slot_available mem q' p = slot_available mem q p" "queue_descriptor mem q' i = queue_descriptor mem q i"
  using assms
  by (simp_all add: same_ring_def slot_flags_def slot_address_def slot_available_def queue_descriptor_def)

lemma avail_idx_less: "0 < q_size q \<Longrightarrow> avail_at q p \<Longrightarrow> q_avail_idx q < q_size q"
  by (simp add: at_position_def)

lemma ring_ok_same: "ring_ok mem q \<Longrightarrow> same_ring q q' \<Longrightarrow> avail_at q' p \<Longrightarrow> ring_ok mem q'"
  using avail_idx_less [of q' p] by (simp add: ring_ok_def same_ring_def)

lemma advance_cases:
  assumes "ring_ok mem q" and "avail_at q p"
  obtains (empty) "advance mem q = (q, Inr None)" "\<not> slot_available mem q p"
    | (taken) q' where "advance mem q = (q', Inr (Some (p mod q_size q)))" "slot_available mem q p"
        "same_ring q q'" "avail_at q' (Suc p)" "ring_ok mem q'"
proof -
  have pos: "0 < q_size q" "q_avail_idx q < q_size q" using assms(1) by (simp_all add: ring_ok_def)
  have load: "load_flags mem (slot_address q (q_avail_idx q)) = Inr (slot_flags mem q (q_avail_idx q))"
    using assms(1) pos(2) by (rule load_flags_slot)
  have idx: "q_avail_idx q = p mod q_size q" "q_avail_wrap q = even (p div q_size q)"
    using assms(2) by (simp_all add: at_position_def)
  show thesis
  proof (cases "slot_available mem q p")
    case False
    with load idx show ?thesis by (intro empty) (simp_all add: advance_def slot_available_def)
  next
    case True
    let ?i = "q_avail_idx q + 1"
    let ?q = "if ?i \<ge> q_size q then q\<lparr>q_avail_idx := 0, q_avail_wrap := \<not> q_avail_wrap q\<rparr>
      else q\<lparr>q_avail_idx := ?i\<rparr>"
    have "advance mem q = (?q, Inr (Some (p mod q_size q)))"
      using load idx True by (simp add: advance_def slot_available_def Let_def)
    moreover have same: "same_ring q ?q" by (simp add: same_ring_def)
    moreover have at: "avail_at ?q (Suc p)"
      using at_position_move [OF assms(2) pos(1), of 1] pos by (auto split: if_splits)
    ultimately show ?thesis using True ring_ok_same [OF assms(1) same at] by (intro taken)
  qed
qed

lemma run_extend:
  "\<forall>j < c. slot_available mem q (p + j) \<Longrightarrow> slot_available mem q (p + c) \<Longrightarrow>
     \<forall>j < Suc c. slot_available mem q (p + j)"
  by (auto simp: less_Suc_eq)

text \<open>
  The loop over a chained request ends: every turn consumes a slot that is available in the
  current lap, and no more than a whole ring of those can follow each other.
\<close>

lemma collect_next_returns:
  assumes "ring_ok mem q" and "avail_at q (p + c)" and "\<forall>j < c. slot_available mem q (p + j)"
  shows "\<exists>q' r. collect_next mem q ds = Some (q', r) \<and> same_ring q q' \<and>
    (\<exists>c' \<ge> c. avail_at q' (p + c') \<and> (\<forall>j < c'. slot_available mem q (p + j)) \<and>
       (\<forall>ds'. r = Inr ds' \<longrightarrow> length ds' = length ds + (c' - c)))"
  using assms
proof (induction "q_size q - c" arbitrary: q c ds rule: less_induct)
  case less
  have pos: "0 < q_size q" using less.prems(1) by (simp add: ring_ok_def)
  from less.prems(1,2) show ?case
  proof (cases rule: advance_cases)
    case empty
    with less.prems show ?thesis by (auto simp: collect_next.simps)
  next
    case (taken q1)
    let ?i = "(p + c) mod q_size q"
    have run: "\<forall>j < Suc c. slot_available mem q (p + j)"
      using less.prems(3) taken(2) by (rule run_extend)
    then have "Suc c \<le> q_size q" using pos by (rule available_run_bound [rotated])
    then have smaller: "q_size q1 - Suc c < q_size q - c" using taken(3) by (simp add: same_ring_def)
    have d: "queue_descriptor mem q1 ?i = Inr (descriptor_at mem (slot_address q1 ?i))"
      using taken(3,5) pos by (intro queue_descriptor_slot) (simp_all add: same_ring_def)
    let ?d = "descriptor_at mem (slot_address q1 ?i)"
    show ?thesis
    proof (cases "has_flag (d_flags ?d) DF_NEXT")
      case True
      have "\<forall>j < Suc c. slot_available mem q1 (p + j)"
        using run taken(3) by (simp add: same_ring_slots)
      with less.hyps [OF smaller taken(5), of "ds @ [?d]"] taken(4) obtain q' r c' where
        q': "collect_next mem q1 (ds @ [?d]) = Some (q', r)" "same_ring q1 q'" "Suc c \<le> c'"
        "avail_at q' (p + c')" "\<forall>j < c'. slot_available mem q1 (p + j)"
        "\<forall>ds'. r = Inr ds' \<longrightarrow> length ds' = length (ds @ [?d]) + (c' - Suc c)"
        by auto
      have "collect_next mem q ds = Some (q', r)"
        using taken(1) d True q'(1) by (subst collect_next.simps) simp
      moreover have "same_ring q q'" using taken(3) q'(2) by (rule same_ring_trans)
      ultimately show ?thesis
        using q' taken(3) by (auto simp: same_ring_slots intro!: exI [of _ c'])
    next
      case False
      have "collect_next mem q ds = Some (q1, Inr (ds @ [?d]))"
        using taken(1) d False by (subst collect_next.simps) simp
      then show ?thesis using taken run by (auto intro!: exI [of _ "Suc c"])
    qed
  qed
qed

lemma length_chain_buffers: "chain_buffers v mem ds = Inr bs \<Longrightarrow> length bs = length ds"
  by (induction ds arbitrary: bs) (auto simp: throws)

lemma length_indirect_descriptors:
  "indirect_descriptors mem a n = Inr ds \<Longrightarrow> length ds = n"
  by (induction n arbitrary: a ds) (auto simp: throws)

text \<open>
  What \<open>pop\<close> does from a position: it returns, moves the available cursor only over slots that
  were available, and a chain takes at least one slot and at most the whole ring.
\<close>

definition pop_effect :: "bytes \<Rightarrow> virtq \<Rightarrow> nat \<Rightarrow> virtq \<Rightarrow> vq_chain option result \<Rightarrow> nat \<Rightarrow> bool" where
  "pop_effect mem q p q' r c \<longleftrightarrow> same_ring q q' \<and> avail_at q' (p + c) \<and>
     (\<forall>j < c. slot_available mem q (p + j)) \<and>
     (\<forall>ch. r = Inr (Some ch) \<longrightarrow> ch_skip ch = c \<and> 1 \<le> c \<and> length (ch_buffers ch) \<le> q_size q)"

lemma chain_descriptors_returns:
  assumes "ring_ok mem q" and "avail_at q (p + 1)" and "slot_available mem q p"
  shows "\<exists>q' r c. chain_descriptors mem q d = Some (q', r) \<and> same_ring q q' \<and> avail_at q' (p + c) \<and>
    (\<forall>j < c. slot_available mem q (p + j)) \<and>
    (\<forall>ds k. r = Inr (ds, k) \<longrightarrow> k = c \<and> 1 \<le> c \<and> length ds \<le> q_size q)"
proof -
  have pos: "0 < q_size q" using assms(1) by (simp add: ring_ok_def)
  have one: "\<forall>j < 1. slot_available mem q (p + j)" using assms(3) by simp
  show ?thesis
  proof (cases "has_flag (d_flags d) DF_NEXT")
    case True
    from collect_next_returns [OF assms(1,2) one, of "[d]"] obtain q' r c where
      c: "collect_next mem q [d] = Some (q', r)" "same_ring q q'" "1 \<le> c" "avail_at q' (p + c)"
      "\<forall>j < c. slot_available mem q (p + j)" "\<forall>ds'. r = Inr ds' \<longrightarrow> length ds' = length [d] + (c - 1)"
      by blast
    moreover have "c \<le> q_size q" using pos c(5) by (rule available_run_bound)
    ultimately show ?thesis
      using True by (intro exI [of _ q'] exI [of _ "bindE r (\<lambda>ds. Inr (ds, length ds))"] exI [of _ c])
        (auto simp: chain_descriptors_def throws)
  next
    case False
    with assms(2) one pos show ?thesis
      by (cases "has_flag (d_flags d) DF_INDIRECT")
        (auto simp: chain_descriptors_def throws intro!: exI [of _ 1] dest!: length_indirect_descriptors)
  qed
qed

lemma pop_returns:
  assumes "ring_ok mem q" and "avail_at q p"
  shows "\<exists>q' r c. pop mem q current = Some (q', r) \<and> pop_effect mem q p q' r c"
  using assms
proof (cases rule: advance_cases)
  case empty
  then show ?thesis
    using assms by (intro exI [of _ q] exI [of _ "Inr None"] exI [of _ 0]) (simp add: pop_def pop_effect_def)
next
  case (taken q1)
  have pos: "0 < q_size q" using assms(1) by (simp add: ring_ok_def)
  let ?d = "descriptor_at mem (slot_address q1 (p mod q_size q))"
  have d: "queue_descriptor mem q1 (p mod q_size q) = Inr ?d"
    using taken(3,5) pos by (intro queue_descriptor_slot) (simp_all add: same_ring_def)
  from chain_descriptors_returns [OF taken(5), of p ?d] taken(2-4) obtain q' r c where
    c: "chain_descriptors mem q1 ?d = Some (q', r)" "same_ring q1 q'" "avail_at q' (p + c)"
    "\<forall>j < c. slot_available mem q1 (p + j)"
    "\<forall>ds k. r = Inr (ds, k) \<longrightarrow> k = c \<and> 1 \<le> c \<and> length ds \<le> q_size q1"
    by (auto simp: same_ring_slots)
  let ?r = "bindE r (\<lambda>(ds, skip). bindE (chain_buffers (q_views q) mem ds) (\<lambda>bs.
    Inr (if current then Some \<lparr>ch_buffers = bs, ch_id = d_id ?d, ch_skip = skip\<rparr> else None)))"
  have "pop mem q current = Some (q', ?r)" using taken(1) d c(1) by (simp add: pop_def)
  moreover have "ch_skip ch = c \<and> 1 \<le> c \<and> length (ch_buffers ch) \<le> q_size q"
    if "?r = Inr (Some ch)" for ch
  proof -
    from that obtain ds k bs where r: "r = Inr (ds, k)" and bs: "chain_buffers (q_views q) mem ds = Inr bs"
      and ch: "ch = \<lparr>ch_buffers = bs, ch_id = d_id ?d, ch_skip = k\<rparr>"
      by (auto simp: throws split: if_splits)
    from c(5) r have "k = c \<and> 1 \<le> c \<and> length ds \<le> q_size q1" by blast
    with length_chain_buffers [OF bs] taken(3) ch show ?thesis by (simp add: same_ring_def)
  qed
  moreover have "\<forall>j < c. slot_available mem q (p + j)"
    using c(4) same_ring_slots(3) [OF taken(3)] by simp
  ultimately show ?thesis
    using c(3) same_ring_trans [OF taken(3) c(2)] unfolding pop_effect_def by blast
qed

section \<open>Releasing chains\<close>

lemma release_works:
  assumes "ring_ok mem q" and "used_at q u" and "q_valid q" and "slot_available mem q u"
    and "skip \<le> q_size q"
  shows "\<exists>q' c. release mem q True cid skip written outs = (q', Inr (Some c)) \<and>
    c_descriptor_address c = slot_address q (u mod q_size q) \<and> c_id c = cid \<and> c_written c = written \<and>
    c_outputs c = outs \<and> used_at q' (u + skip) \<and>
    q_size q' = q_size q \<and> q_desc_addr q' = q_desc_addr q \<and> q_valid q' = q_valid q \<and>
    q_avail_idx q' = q_avail_idx q \<and> q_avail_wrap q' = q_avail_wrap q \<and> q_views q' = q_views q"
proof -
  have pos: "0 < q_size q" "q_used_idx q < q_size q" using assms(1) by (simp_all add: ring_ok_def)
  have at: "q_used_idx q = u mod q_size q" "q_used_wrap q = even (u div q_size q)"
    using assms(2) by (simp_all add: at_position_def)
  have "queue_descriptor mem q (q_used_idx q) = Inr (descriptor_at mem (slot_address q (q_used_idx q)))"
    using assms(1) pos(2) by (rule queue_descriptor_slot)
  with assms(3,4) at at_position_move [OF assms(2) pos(1) assms(5)] show ?thesis
    by (auto simp: release_def slot_available_def slot_flags_def Let_def)
qed

lemma set_descriptor_field:
  assumes "a + 16 \<le> length mem" and "field_at VirtqDescriptor 0 k = Some (off, Scalar s)"
  shows "ty_set (Struct VirtqDescriptor) (whole_view mem) a (Obj [(k, Num v)]) =
    Inr (overwrite mem (a + off) (scalar_encode s v))"
proof -
  have off: "off + scalar_size s \<le> 16" using field_at_bounds [OF assms(2)] by simp
  have "(if a \<noteq> 0 then tail_view (whole_view mem) a else Inr (whole_view mem)) =
      Inr \<lparr>dv_buffer = mem, dv_offset = a, dv_length = length mem - a\<rparr>"
    using assms(1) by (simp add: tail_view_def whole_view_def)
  with assms off show ?thesis by (simp add: scalar_set_def dv_write_def)
qed

text \<open>The write-backs leave a region of memory alone.\<close>

definition outputs_clear :: "nat \<Rightarrow> nat \<Rightarrow> vq_output list \<Rightarrow> bool" where
  "outputs_clear a b outs \<longleftrightarrow>
     (\<forall>o' \<in> set outs. out_address o' + length (out_data o') \<le> a \<or> b \<le> out_address o')"

lemma write_outputs_clear:
  "write_outputs mem outs = Inr mem' \<Longrightarrow> outputs_clear a b outs \<Longrightarrow>
     length mem' = length mem \<and> subarray mem' a b = subarray mem a b"
proof (induction outs arbitrary: mem)
  case Nil
  then show ?case by simp
next
  case (Cons o1 outs)
  then have fits: "out_address o1 + length (out_data o1) \<le> length mem"
    and rest: "write_outputs (overwrite mem (out_address o1) (out_data o1)) outs = Inr mem'"
    by (simp_all split: if_splits)
  have "outputs_clear a b outs" using Cons.prems(2) by (simp add: outputs_clear_def)
  from Cons.IH [OF rest this] fits Cons.prems(2) show ?case
    by (auto simp: outputs_clear_def length_overwrite subarray_overwrite_disjoint)
qed

lemma write_outputs_total:
  "\<forall>o' \<in> set outs. out_address o' + length (out_data o') \<le> length mem \<Longrightarrow>
     \<exists>mem'. write_outputs mem outs = Inr mem' \<and> length mem' = length mem"
proof (induction outs arbitrary: mem)
  case (Cons o1 outs)
  from Cons.prems Cons.IH [of "overwrite mem (out_address o1) (out_data o1)"] show ?case
    by (simp add: length_overwrite)
qed simp

lemma publish_total:
  assumes "ring_ok mem q" and "i < q_size q" and "c_descriptor_address c = slot_address q i"
    and "\<forall>o' \<in> set (c_outputs c). out_address o' + length (out_data o') \<le> length mem"
  shows "\<exists>mem'. publish_virtqueue_completion mem c = Inr mem'"
proof -
  let ?a = "slot_address q i"
  from write_outputs_total [OF assms(4)] obtain m1 where
    m1: "write_outputs mem (c_outputs c) = Inr m1" "length m1 = length mem" by blast
  have fits: "?a + 16 \<le> length m1" using slot_fits [OF assms(1,2)] m1(2) by simp
  have "2 * flags_index ?a = ?a + 14" using assms(1,2) by (rule flags_index_slot)
  with fits assms(3) m1(1) show ?thesis
    by (simp add: publish_virtqueue_completion_def set_descriptor_field length_overwrite store_flags_def Let_def
        del: ty_set.simps)
qed

text \<open>
  Publication: the used slot carries the completion, the other slots of the ring are as before.
\<close>

lemma descriptor_at_window:
  "subarray mem a (a + 16) = subarray mem' a (a + 16) \<Longrightarrow> descriptor_at mem a = descriptor_at mem' a"
  by (simp add: descriptor_at_def subarray_within [of mem a "a + 16" mem'])

lemma publish_writes_slot:
  assumes "publish_virtqueue_completion mem c = Inr mem'" and "ring_ok mem q" and "i < q_size q"
    and "c_descriptor_address c = slot_address q i"
    and "outputs_clear (q_desc_addr q) (q_desc_addr q + 16 * q_size q) (c_outputs c)"
  shows "length mem' = length mem \<and>
    d_id (descriptor_at mem' (slot_address q i)) = c_id c mod 2 ^ 16 \<and>
    d_len (descriptor_at mem' (slot_address q i)) = c_written c mod 2 ^ 32 \<and>
    d_flags (descriptor_at mem' (slot_address q i)) = c_flags c mod 2 ^ 16 \<and>
    (\<forall>j < q_size q. j \<noteq> i \<longrightarrow>
       descriptor_at mem' (slot_address q j) = descriptor_at mem (slot_address q j))"
proof -
  let ?a = "slot_address q i"
  from assms(1) obtain m1 where m1: "write_outputs mem (c_outputs c) = Inr m1"
    by (auto simp: publish_virtqueue_completion_def throws)
  have ring: "length m1 = length mem"
    "subarray m1 (q_desc_addr q) (q_desc_addr q + 16 * q_size q) =
     subarray mem (q_desc_addr q) (q_desc_addr q + 16 * q_size q)"
    using write_outputs_clear [OF m1 assms(5)] by simp_all
  have fits: "?a + 16 \<le> length m1" using slot_fits [OF assms(2,3)] ring(1) by simp
  let ?m2 = "overwrite m1 (?a + 12) (scalar_encode U16LE (int (c_id c)))"
  let ?m3 = "overwrite ?m2 (?a + 8) (scalar_encode U32LE (int (c_written c)))"
  let ?m4 = "overwrite ?m3 (?a + 14) (le_bytes 2 (c_flags c))"
  have len: "length ?m2 = length m1" "length ?m3 = length m1" "length ?m4 = length m1"
    using fits by (simp_all add: length_overwrite)
  have "ring_ok m1 q" using assms(2) ring(1) by (simp add: ring_ok_def)
  from flags_index_slot [OF this assms(3)] have fi: "2 * flags_index ?a = ?a + 14" .
  have s2: "ty_set (Struct VirtqDescriptor) (whole_view m1) ?a (Obj [(''id'', Num (int (c_id c)))]) = Inr ?m2"
    using fits by (rule set_descriptor_field) simp
  have s3: "ty_set (Struct VirtqDescriptor) (whole_view ?m2) ?a
      (Obj [(''len'', Num (int (c_written c)))]) = Inr ?m3"
    using fits len by (intro set_descriptor_field) simp_all
  have s4: "store_flags ?m3 ?a (c_flags c) = Inr ?m4"
    unfolding store_flags_def Let_def fi len using fits by simp
  have "mem' = ?m4"
    using assms(1) unfolding publish_virtqueue_completion_def m1 assms(4) bindE_Inr s2 s3 s4 by simp
  moreover have "descriptor_at ?m4 (slot_address q j) = descriptor_at mem (slot_address q j)"
    if "j < q_size q" "j \<noteq> i" for j
  proof -
    let ?b = "slot_address q j"
    have away: "?b + 16 \<le> ?a \<or> ?a + 16 \<le> ?b" using that by (auto simp: slot_address_eq)
    have "subarray ?m4 ?b (?b + 16) = subarray m1 ?b (?b + 16)"
      using away fits len by (auto simp: subarray_overwrite_disjoint)
    also have "\<dots> = subarray mem ?b (?b + 16)"
      by (rule subarray_within [OF ring(2)]) (use that(1) in \<open>simp_all add: slot_address_eq\<close>)
    finally show ?thesis by (rule descriptor_at_window)
  qed
  ultimately show ?thesis
    using fits len ring(1)
    by (simp add: descriptor_at_def subarray_overwrite_disjoint subarray_overwrite_same
        le_nat_encode big_endian_def le_nat_le_bytes nat_mod_distrib)
qed

section \<open>Device and driver sharing a ring\<close>

text \<open>
  The ring in use: guest memory, the queue, the chains the device holds, and the unbounded
  positions of the two cursors.  The driver may write memory as it likes as long as it keeps the
  flags of the slots it has handed over; the device takes chains and releases the ones it holds
  in any order, and publishes each completion.
\<close>

record ring_state =
  rs_mem :: bytes
  rs_queue :: virtq
  rs_held :: "vq_chain list"
  rs_avail :: nat
  rs_used :: nat

definition ring_span :: "virtq \<Rightarrow> vq_output list \<Rightarrow> bool" where
  "ring_span q outs = outputs_clear (q_desc_addr q) (q_desc_addr q + 16 * q_size q) outs"

text \<open>What the device may do to a chain it holds: fill its copies, byte for byte.\<close>

definition filled :: "vq_chain \<Rightarrow> vq_chain \<Rightarrow> bool" where
  "filled ch ch' \<longleftrightarrow> ch_id ch' = ch_id ch \<and> ch_skip ch' = ch_skip ch \<and>
     list_all2 (\<lambda>b b'. vb_address b' = vb_address b \<and> vb_writable b' = vb_writable b \<and>
       length (vb_array b') = length (vb_array b)) (ch_buffers ch) (ch_buffers ch')"

inductive ring_step :: "ring_state \<Rightarrow> ring_state \<Rightarrow> bool" where
  driver: "length mem = length (rs_mem s) \<Longrightarrow>
     (\<And>p. rs_used s \<le> p \<Longrightarrow> p < rs_avail s \<Longrightarrow>
        slot_available (rs_mem s) (rs_queue s) p \<Longrightarrow> slot_available mem (rs_queue s) p) \<Longrightarrow>
     ring_step s (s\<lparr>rs_mem := mem\<rparr>)"
| take_chain: "iterate_next (rs_mem s) (rs_queue s) True = Some (q, Inr (Some ch)) \<Longrightarrow>
     ring_step s (s\<lparr>rs_queue := q, rs_held := rs_held s @ [ch], rs_avail := rs_avail s + ch_skip ch\<rparr>)"
| release_held: "rs_held s = hs1 @ ch # hs2 \<Longrightarrow> filled ch ch' \<Longrightarrow>
     release_chain (rs_mem s) (rs_queue s) True ch' written = (q, Inr (Some c)) \<Longrightarrow>
     publish_virtqueue_completion (rs_mem s) c = Inr mem \<Longrightarrow>
     ring_span (rs_queue s) (chain_outputs (ch_buffers ch')) \<Longrightarrow>
     ring_step s (s\<lparr>rs_mem := mem, rs_queue := q, rs_held := hs1 @ hs2, rs_used := rs_used s + ch_skip ch\<rparr>)"

definition ring_start :: "bytes \<Rightarrow> virtq \<Rightarrow> ring_state" where
  "ring_start mem q = \<lparr>rs_mem = mem, rs_queue = q, rs_held = [], rs_avail = 0, rs_used = 0\<rparr>"

inductive ring_reachable :: "bytes \<Rightarrow> virtq \<Rightarrow> ring_state \<Rightarrow> bool" for mem0 q0 where
  start: "ring_reachable mem0 q0 (ring_start mem0 q0)"
| step: "ring_reachable mem0 q0 s \<Longrightarrow> ring_step s t \<Longrightarrow> ring_reachable mem0 q0 t"

definition held_slots :: "vq_chain list \<Rightarrow> nat" where
  "held_slots hs = sum_list (map ch_skip hs)"

text \<open>
  The invariant: the cursors stand at the two positions, the slots between them are exactly those
  of the held chains, and all of them are still marked available.
\<close>

definition ring_inv :: "ring_state \<Rightarrow> bool" where
  "ring_inv s \<longleftrightarrow> ring_ok (rs_mem s) (rs_queue s) \<and> q_valid (rs_queue s) \<and>
     avail_at (rs_queue s) (rs_avail s) \<and> used_at (rs_queue s) (rs_used s) \<and>
     rs_avail s = rs_used s + held_slots (rs_held s) \<and>
     (\<forall>ch \<in> set (rs_held s). 1 \<le> ch_skip ch) \<and>
     (\<forall>p. rs_used s \<le> p \<longrightarrow> p < rs_avail s \<longrightarrow> slot_available (rs_mem s) (rs_queue s) p)"

lemma ring_inv_window:
  assumes "ring_inv s"
  shows "rs_avail s \<le> rs_used s + q_size (rs_queue s)"
proof -
  let ?k = "rs_avail s - rs_used s"
  have "\<forall>j < ?k. slot_available (rs_mem s) (rs_queue s) (rs_used s + j)"
    using assms by (simp add: ring_inv_def)
  moreover have "0 < q_size (rs_queue s)" using assms by (simp add: ring_inv_def ring_ok_def)
  ultimately have "?k \<le> q_size (rs_queue s)" by (intro available_run_bound)
  then show ?thesis by simp
qed

lemma held_slots_append [simp]: "held_slots (xs @ ys) = held_slots xs + held_slots ys"
  by (simp add: held_slots_def)

lemma held_slots_Cons [simp]: "held_slots (ch # hs) = ch_skip ch + held_slots hs"
  by (simp add: held_slots_def)

lemma slots_differ:
  fixes u p n :: nat
  assumes "u < p" and "p < u + n"
  shows "p mod n \<noteq> u mod n"
proof
  assume "p mod n = u mod n"
  then have "n dvd p - u" using assms(1) by (metis mod_eq_dvd_iff_nat less_imp_le)
  with assms show False by (auto dest: dvd_imp_le)
qed

lemma slot_available_cong:
  "q_size q' = q_size q \<Longrightarrow> q_desc_addr q' = q_desc_addr q \<Longrightarrow>
     descriptor_at mem' (slot_address q (p mod q_size q)) = descriptor_at mem (slot_address q (p mod q_size q)) \<Longrightarrow>
     slot_available mem' q' p = slot_available mem q p"
  by (simp add: slot_available_def slot_flags_def slot_address_def)

text \<open>A held chain can always be released: the slot at the used cursor is still available.\<close>

lemma ring_inv_release:
  assumes "ring_inv s" and "ch \<in> set (rs_held s)" and "filled ch ch'"
  shows "\<exists>q c. release_chain (rs_mem s) (rs_queue s) True ch' written = (q, Inr (Some c)) \<and>
    c_descriptor_address c = slot_address (rs_queue s) (rs_used s mod q_size (rs_queue s)) \<and>
    c_id c = ch_id ch \<and> c_written c = written \<and>
    c_outputs c = chain_outputs (ch_buffers ch') \<and> used_at q (rs_used s + ch_skip ch) \<and>
    q_size q = q_size (rs_queue s) \<and> q_desc_addr q = q_desc_addr (rs_queue s) \<and>
    q_valid q = q_valid (rs_queue s) \<and> q_avail_idx q = q_avail_idx (rs_queue s) \<and>
    q_avail_wrap q = q_avail_wrap (rs_queue s)"
proof -
  from assms(2) obtain hs1 hs2 where hs: "rs_held s = hs1 @ ch # hs2" by (auto dest: split_list)
  then have slots: "rs_used s + ch_skip ch \<le> rs_avail s" and "1 \<le> ch_skip ch"
    using assms by (simp_all add: ring_inv_def)
  then have "slot_available (rs_mem s) (rs_queue s) (rs_used s)"
    using assms(1) by (simp add: ring_inv_def)
  moreover have "ch_skip ch \<le> q_size (rs_queue s)" using slots ring_inv_window [OF assms(1)] by simp
  ultimately show ?thesis
    using assms(1,3) release_works [of "rs_mem s" "rs_queue s" "rs_used s" "ch_skip ch" "ch_id ch" written
        "chain_outputs (ch_buffers ch')"]
    unfolding release_chain_def ring_inv_def filled_def by auto
qed

lemma ring_start_inv:
  assumes "new_virtq n desc_addr views = Inr q" and "desc_addr + 16 * n \<le> length mem"
    and "length mem \<le> 2 ^ 32"
  shows "ring_inv (ring_start mem q)"
  using assms
  by (auto simp: new_virtq_def throws ring_inv_def ring_start_def ring_ok_def at_position_def held_slots_def)

lemma ring_step_driver_inv:
  assumes "ring_inv s" and "length mem = length (rs_mem s)"
    and "\<And>p. rs_used s \<le> p \<Longrightarrow> p < rs_avail s \<Longrightarrow>
        slot_available (rs_mem s) (rs_queue s) p \<Longrightarrow> slot_available mem (rs_queue s) p"
  shows "ring_inv (s\<lparr>rs_mem := mem\<rparr>)"
  using assms by (auto simp: ring_inv_def ring_ok_def)

lemma ring_step_take_inv:
  assumes "ring_inv s" and "iterate_next (rs_mem s) (rs_queue s) True = Some (q, Inr (Some ch))"
  shows "ring_inv (s\<lparr>rs_queue := q, rs_held := rs_held s @ [ch], rs_avail := rs_avail s + ch_skip ch\<rparr>)"
proof -
  from assms have "ring_ok (rs_mem s) (rs_queue s)" "avail_at (rs_queue s) (rs_avail s)"
    "pop (rs_mem s) (rs_queue s) True = Some (q, Inr (Some ch))"
    unfolding ring_inv_def iterate_next_def by auto
  with pop_returns [of "rs_mem s" "rs_queue s" "rs_avail s" True] obtain c where
    c: "pop_effect (rs_mem s) (rs_queue s) (rs_avail s) q (Inr (Some ch)) c"
    by auto
  then have e: "same_ring (rs_queue s) q" "avail_at q (rs_avail s + ch_skip ch)" "1 \<le> ch_skip ch"
    "\<forall>j < ch_skip ch. slot_available (rs_mem s) (rs_queue s) (rs_avail s + j)"
    by (simp_all add: pop_effect_def)
  have "slot_available (rs_mem s) q p"
    if "rs_used s \<le> p" "p < rs_avail s + ch_skip ch" for p
  proof (cases "p < rs_avail s")
    case True
    with that assms(1) show ?thesis by (simp add: ring_inv_def same_ring_slots [OF e(1)])
  next
    case False
    with that(2) e(4) [rule_format, of "p - rs_avail s"] have "slot_available (rs_mem s) (rs_queue s) p" by simp
    then show ?thesis by (simp add: same_ring_slots [OF e(1)])
  qed
  with assms(1) e ring_ok_same [OF _ e(1,2), of "rs_mem s"] show ?thesis
    by (auto simp: ring_inv_def same_ring_def held_slots_def)
qed

lemma ring_step_release_inv:
  assumes inv: "ring_inv s" and held: "rs_held s = hs1 @ ch # hs2" and "filled ch ch'"
    and rel: "release_chain (rs_mem s) (rs_queue s) True ch' written = (q, Inr (Some c))"
    and pub: "publish_virtqueue_completion (rs_mem s) c = Inr mem"
    and clear: "ring_span (rs_queue s) (chain_outputs (ch_buffers ch'))"
  shows "ring_inv (s\<lparr>rs_mem := mem, rs_queue := q, rs_held := hs1 @ hs2, rs_used := rs_used s + ch_skip ch\<rparr>)"
proof -
  let ?q = "rs_queue s" and ?u = "rs_used s"
  have ok: "ring_ok (rs_mem s) ?q" and pos: "0 < q_size ?q"
    using inv by (simp_all add: ring_inv_def ring_ok_def)
  from ring_inv_release [OF inv _ assms(3), of written] held rel have
    c: "c_descriptor_address c = slot_address ?q (?u mod q_size ?q)"
    "c_outputs c = chain_outputs (ch_buffers ch')" and
    q: "used_at q (?u + ch_skip ch)" "q_size q = q_size ?q" "q_desc_addr q = q_desc_addr ?q"
    "q_valid q = q_valid ?q" "q_avail_idx q = q_avail_idx ?q" "q_avail_wrap q = q_avail_wrap ?q"
    by auto
  have w: "length mem = length (rs_mem s)"
    "\<forall>j < q_size ?q. j \<noteq> ?u mod q_size ?q \<longrightarrow>
       descriptor_at mem (slot_address ?q j) = descriptor_at (rs_mem s) (slot_address ?q j)"
    using publish_writes_slot [OF pub ok, of "?u mod q_size ?q"] c clear pos by (simp_all add: ring_span_def)
  have skip: "1 \<le> ch_skip ch" using inv held by (simp add: ring_inv_def)
  have "slot_available mem q p" if "?u + ch_skip ch \<le> p" "p < rs_avail s" for p
  proof -
    have "p mod q_size ?q \<noteq> ?u mod q_size ?q"
      using that skip ring_inv_window [OF inv] by (intro slots_differ) simp_all
    with w(2) pos have "descriptor_at mem (slot_address ?q (p mod q_size ?q)) =
        descriptor_at (rs_mem s) (slot_address ?q (p mod q_size ?q))" by simp
    from slot_available_cong [OF q(2,3) this] that inv show ?thesis by (simp add: ring_inv_def)
  qed
  moreover have "ring_ok mem q"
    using ok w(1) q pos by (auto simp: ring_ok_def at_position_def)
  ultimately show ?thesis
    using inv held q by (auto simp: ring_inv_def)
qed

lemma ring_step_inv: "ring_step s t \<Longrightarrow> ring_inv s \<Longrightarrow> ring_inv t"
  by (induction rule: ring_step.induct)
    (blast intro: ring_step_driver_inv ring_step_take_inv ring_step_release_inv)+

lemma ring_reachable_inv: "ring_reachable mem0 q0 s \<Longrightarrow> ring_inv (ring_start mem0 q0) \<Longrightarrow> ring_inv s"
  by (induction rule: ring_reachable.induct) (blast intro: ring_step_inv)+

section \<open>A chained request\<close>

definition slot_descriptor :: "bytes \<Rightarrow> virtq \<Rightarrow> nat \<Rightarrow> descriptor" where
  "slot_descriptor mem q p = descriptor_at mem (slot_address q (p mod q_size q))"

definition buffer_of :: "bool \<Rightarrow> bytes \<Rightarrow> descriptor \<Rightarrow> vq_buffer" where
  "buffer_of views mem d =
     \<lparr>vb_array = subarray mem (d_addr d) (d_addr d + d_len d),
      vb_writable = has_flag (d_flags d) DF_WRITE,
      vb_address = (if \<not> views \<and> has_flag (d_flags d) DF_WRITE then Some (d_addr d) else None),
      vb_target = d_addr d\<rparr>"

lemma chain_buffers_map:
  "\<forall>d \<in> set ds. d_addr d + d_len d \<le> length mem \<Longrightarrow>
     chain_buffers views mem ds = Inr (map (buffer_of views mem) ds)"
  by (induction ds) (simp_all add: chain_buffer_def buffer_of_def)

lemma slot_descriptor_same: "same_ring q q' \<Longrightarrow> slot_descriptor mem q' p = slot_descriptor mem q p"
  by (simp add: slot_descriptor_def slot_address_def same_ring_def)

text \<open>
  A request as the driver lays it out from a position: \<open>k + 1\<close> available slots, all but the last
  with the NEXT flag.
\<close>

definition request_at :: "bytes \<Rightarrow> virtq \<Rightarrow> nat \<Rightarrow> nat \<Rightarrow> bool" where
  "request_at mem q p k \<longleftrightarrow> (\<forall>j \<le> k. slot_available mem q (p + j)) \<and>
     (\<forall>j < k. has_flag (d_flags (slot_descriptor mem q (p + j))) DF_NEXT) \<and>
     \<not> has_flag (d_flags (slot_descriptor mem q (p + k))) DF_NEXT"

lemma request_at_Suc:
  assumes "request_at mem q p (Suc k)"
  shows "request_at mem q (Suc p) k"
proof -
  note req = assms [unfolded request_at_def]
  have "slot_available mem q (Suc p + j)" if "j \<le> k" for j
    unfolding add_Suc_shift by (rule req [THEN conjunct1, rule_format]) (use that in simp)
  moreover have "has_flag (d_flags (slot_descriptor mem q (Suc p + j))) DF_NEXT" if "j < k" for j
    unfolding add_Suc_shift
    by (rule req [THEN conjunct2, THEN conjunct1, rule_format]) (use that in simp)
  moreover have "\<not> has_flag (d_flags (slot_descriptor mem q (Suc p + k))) DF_NEXT"
    unfolding add_Suc_shift by (rule req [THEN conjunct2, THEN conjunct2])
  ultimately show ?thesis unfolding request_at_def by blast
qed

lemma request_at_same: "same_ring q q' \<Longrightarrow> request_at mem q' p k = request_at mem q p k"
  by (simp add: request_at_def same_ring_slots slot_descriptor_same)

lemma advance_taken:
  assumes "ring_ok mem q" and "avail_at q p" and "slot_available mem q p"
  obtains q' where "advance mem q = (q', Inr (Some (p mod q_size q)))"
    "same_ring q q'" "avail_at q' (Suc p)" "ring_ok mem q'"
    "queue_descriptor mem q' (p mod q_size q) = Inr (slot_descriptor mem q p)"
  using assms(1,2)
proof (cases rule: advance_cases)
  case empty
  with assms(3) show ?thesis by simp
next
  case (taken q')
  have "0 < q_size q" using assms(1) by (simp add: ring_ok_def)
  then have "queue_descriptor mem q (p mod q_size q) = Inr (slot_descriptor mem q p)"
    using assms(1) by (simp add: queue_descriptor_slot slot_descriptor_def)
  with taken show ?thesis by (intro that [of q']) (simp_all add: same_ring_slots)
qed

lemma upt_map_Suc: "map f [0..<Suc n] = f 0 # map (\<lambda>j. f (Suc j)) [0..<n]"
  by (simp add: upt_conv_Cons map_Suc_upt [symmetric] del: upt_Suc)

lemma collect_next_request:
  assumes "ring_ok mem q" and "avail_at q p" and "request_at mem q p k"
  shows "\<exists>q'. collect_next mem q ds =
      Some (q', Inr (ds @ map (\<lambda>j. slot_descriptor mem q (p + j)) [0..<Suc k])) \<and>
    same_ring q q' \<and> avail_at q' (p + Suc k)"
  using assms
proof (induction k arbitrary: q p ds)
  case 0
  then have "slot_available mem q p" by (simp add: request_at_def)
  with "0.prems"(1,2) obtain q' where "advance mem q = (q', Inr (Some (p mod q_size q)))"
    "same_ring q q'" "avail_at q' (Suc p)"
    "queue_descriptor mem q' (p mod q_size q) = Inr (slot_descriptor mem q p)"
    by (rule advance_taken)
  with "0.prems"(3) show ?case by (subst collect_next.simps) (simp add: request_at_def)
next
  case (Suc k)
  have "slot_available mem q p" using Suc.prems(3) by (auto simp: request_at_def dest: spec [of _ 0])
  with Suc.prems(1,2) obtain q1 where q1: "advance mem q = (q1, Inr (Some (p mod q_size q)))"
    "same_ring q q1" "avail_at q1 (Suc p)" "ring_ok mem q1"
    "queue_descriptor mem q1 (p mod q_size q) = Inr (slot_descriptor mem q p)"
    by (rule advance_taken)
  have "has_flag (d_flags (slot_descriptor mem q p)) DF_NEXT"
    using Suc.prems(3) by (auto simp: request_at_def dest: spec [of _ 0])
  moreover have "request_at mem q1 (Suc p) k"
    using request_at_Suc [OF Suc.prems(3)] q1(2) by (simp add: request_at_same)
  note Suc.IH [OF q1(4,3) this, of "ds @ [slot_descriptor mem q p]"]
  ultimately show ?case
    using q1 same_ring_trans [OF q1(2)]
    by (subst collect_next.simps) (auto simp: upt_map_Suc slot_descriptor_same simp del: upt_Suc)
qed

lemma pop_request:
  assumes "ring_ok mem q" and "avail_at q p" and "request_at mem q p k"
    and "\<forall>j \<le> k. d_addr (slot_descriptor mem q (p + j)) + d_len (slot_descriptor mem q (p + j)) \<le> length mem"
    and "k = 0 \<longrightarrow> \<not> has_flag (d_flags (slot_descriptor mem q p)) DF_INDIRECT"
  shows "\<exists>q'. pop mem q True = Some (q', Inr (Some
      \<lparr>ch_buffers = map (\<lambda>j. buffer_of (q_views q) mem (slot_descriptor mem q (p + j))) [0..<Suc k],
       ch_id = d_id (slot_descriptor mem q p), ch_skip = Suc k\<rparr>)) \<and>
    ring_ok mem q' \<and> avail_at q' (p + Suc k) \<and> same_ring q q'"
proof -
  let ?ds = "map (\<lambda>j. slot_descriptor mem q (p + j)) [0..<Suc k]"
  have "slot_available mem q p" using assms(3) by (auto simp: request_at_def dest: spec [of _ 0])
  with assms(1,2) obtain q1 where q1: "advance mem q = (q1, Inr (Some (p mod q_size q)))"
    "same_ring q q1" "avail_at q1 (Suc p)" "ring_ok mem q1"
    "queue_descriptor mem q1 (p mod q_size q) = Inr (slot_descriptor mem q p)"
    by (rule advance_taken)
  have "\<exists>q'. chain_descriptors mem q1 (slot_descriptor mem q p) = Some (q', Inr (?ds, Suc k)) \<and>
      same_ring q1 q' \<and> avail_at q' (p + Suc k)"
  proof (cases k)
    case 0
    with assms(3,5) q1(3) show ?thesis by (simp add: chain_descriptors_def request_at_def)
  next
    case (Suc k')
    have "has_flag (d_flags (slot_descriptor mem q p)) DF_NEXT"
      using assms(3) Suc by (auto simp: request_at_def dest: spec [of _ 0])
    moreover have "request_at mem q1 (Suc p) k'"
      using request_at_Suc assms(3) Suc q1(2) by (simp add: request_at_same)
    note collect_next_request [OF q1(4,3) this, of "[slot_descriptor mem q p]"]
    ultimately show ?thesis
      using Suc q1(2) by (auto simp: chain_descriptors_def upt_map_Suc slot_descriptor_same simp del: upt_Suc)
  qed
  then obtain q' where q': "chain_descriptors mem q1 (slot_descriptor mem q p) = Some (q', Inr (?ds, Suc k))"
    "same_ring q1 q'" "avail_at q' (p + Suc k)" by blast
  have "chain_buffers (q_views q) mem ?ds = Inr (map (buffer_of (q_views q) mem) ?ds)"
    by (rule chain_buffers_map) (use assms(4) in auto)
  with q1 q' ring_ok_same [OF q1(4) q'(2,3)] same_ring_trans [OF q1(2) q'(2)] show ?thesis
    by (simp add: pop_def comp_def)
qed

section \<open>Properties\<close>

text \<open>
  A concrete ring for the witnesses: two slots at address 0 holding one request of two
  descriptors (four readable bytes at 32, two writable bytes at 36), with buffer id 7.
\<close>

definition demo_mem :: bytes where
  "demo_mem = le_bytes 8 32 @ le_bytes 4 4 @ le_bytes 2 7 @ le_bytes 2 129 @
     le_bytes 8 36 @ le_bytes 4 2 @ le_bytes 2 7 @ le_bytes 2 130 @ [1, 2, 3, 4, 0, 0]"

definition demo_queue :: virtq where
  "demo_queue = \<lparr>q_size = 2, q_desc_addr = 0, q_views = False, q_avail_wrap = True, q_used_wrap = True,
     q_used_idx = 0, q_avail_idx = 0, q_valid = True\<rparr>"

lemma demo_ring: "ring_ok demo_mem demo_queue" "avail_at demo_queue 0"
  by (simp_all add: ring_ok_def demo_mem_def demo_queue_def at_position_def)

lemma demo_slots:
  "slot_descriptor demo_mem demo_queue 0 = \<lparr>d_addr = 32, d_len = 4, d_id = 7, d_flags = 129\<rparr>"
  "slot_descriptor demo_mem demo_queue (Suc 0) = \<lparr>d_addr = 36, d_len = 2, d_id = 7, d_flags = 130\<rparr>"
  by code_simp+

lemma demo_mem_length: "length demo_mem = 38"
  by (simp add: demo_mem_def)

lemma demo_available: "slot_available demo_mem demo_queue 0" "slot_available demo_mem demo_queue (Suc 0)"
  using demo_slots
  by (simp_all add: slot_available_def slot_flags_def slot_descriptor_def available_def has_flag_def
      DF_AVAIL_def DF_USED_def demo_queue_def)

lemma demo_request: "request_at demo_mem demo_queue 0 1"
  by (auto simp: request_at_def demo_slots demo_available le_Suc_eq has_flag_def DF_NEXT_def)

lemma demo_range: "\<forall>j \<le> 1. d_addr (slot_descriptor demo_mem demo_queue (0 + j)) +
    d_len (slot_descriptor demo_mem demo_queue (0 + j)) \<le> length demo_mem"
  by (auto simp: demo_slots le_Suc_eq demo_mem_length)

lemma demo_buffers:
  "map (\<lambda>j. buffer_of (q_views demo_queue) demo_mem (slot_descriptor demo_mem demo_queue (0 + j)))
      [0..<Suc 1] =
    [\<lparr>vb_array = [1, 2, 3, 4], vb_writable = False, vb_address = None, vb_target = 32\<rparr>,
     \<lparr>vb_array = [0, 0], vb_writable = True, vb_address = Some 36, vb_target = 36\<rparr>]"
  by code_simp

text \<open>
  C21: a request laid out by the driver is taken whole: \<open>pop\<close> returns its buffers in ring order with
  their contents, directions and write-back addresses, the buffer id of the first descriptor, and
  leaves the cursor behind the last one.
\<close>

theorem pop_takes_request:
  assumes "ring_ok mem q" and "avail_at q p" and "request_at mem q p k"
    and "\<forall>j \<le> k. d_addr (slot_descriptor mem q (p + j)) + d_len (slot_descriptor mem q (p + j)) \<le> length mem"
    and "k = 0 \<longrightarrow> \<not> has_flag (d_flags (slot_descriptor mem q p)) DF_INDIRECT"
  shows "\<exists>q'. pop mem q True = Some (q', Inr (Some
      \<lparr>ch_buffers = map (\<lambda>j. buffer_of (q_views q) mem (slot_descriptor mem q (p + j))) [0..<Suc k],
       ch_id = d_id (slot_descriptor mem q p), ch_skip = Suc k\<rparr>)) \<and>
    ring_ok mem q' \<and> avail_at q' (p + Suc k)"
  using pop_request [OF assms] by blast

theorem pop_takes_request_witness:
  "\<exists>q'. pop demo_mem demo_queue True = Some (q', Inr (Some
      \<lparr>ch_buffers = [\<lparr>vb_array = [1, 2, 3, 4], vb_writable = False, vb_address = None, vb_target = 32\<rparr>,
                     \<lparr>vb_array = [0, 0], vb_writable = True, vb_address = Some 36, vb_target = 36\<rparr>],
       ch_id = 7, ch_skip = 2\<rparr>)) \<and> ring_ok demo_mem q' \<and> avail_at q' 2"
  using pop_takes_request [OF demo_ring demo_request demo_range] unfolding demo_buffers
  by (simp add: demo_slots numeral_2_eq_2)

text \<open>
  C24: taking a chain always ends, however the guest fills the ring: the cursor stays inside the
  ring, a chain takes between one slot and the whole ring, and it never has more buffers than the
  ring has slots, chained or indirect.
\<close>

theorem pop_bounded:
  assumes "ring_ok mem q" and "avail_at q p"
  shows "\<exists>q' r. pop mem q current = Some (q', r) \<and> ring_ok mem q' \<and>
    (\<forall>ch. r = Inr (Some ch) \<longrightarrow>
       1 \<le> ch_skip ch \<and> ch_skip ch \<le> q_size q \<and> length (ch_buffers ch) \<le> q_size q)"
proof -
  from pop_returns [OF assms] obtain q' r c where
    "pop mem q current = Some (q', r)" and e: "pop_effect mem q p q' r c" by blast
  moreover have "ring_ok mem q'"
    using e ring_ok_same [OF assms(1)] by (auto simp: pop_effect_def)
  moreover have "c \<le> q_size q"
    using e assms(1) available_run_bound [of q c mem p] by (simp add: pop_effect_def ring_ok_def)
  ultimately show ?thesis by (auto simp: pop_effect_def)
qed

theorem pop_bounded_witness:
  "\<exists>q' r. pop demo_mem demo_queue True = Some (q', r) \<and> ring_ok demo_mem q' \<and>
    (\<forall>ch. r = Inr (Some ch) \<longrightarrow> 1 \<le> ch_skip ch \<and> ch_skip ch \<le> q_size demo_queue \<and>
       length (ch_buffers ch) \<le> q_size demo_queue)"
  by (rule pop_bounded [OF demo_ring])

text \<open>
  C1: a chain the device holds can always be released, whatever the interleaving of driver writes,
  taken chains and releases in any order: the code never throws \<open>ring full\<close>, the completion goes to
  the slot at the used cursor with the chain's own id, length and write-backs, and the device never
  holds more slots than the ring has.
\<close>

theorem held_chain_releases:
  assumes "new_virtq n desc_addr views = Inr q0" and "desc_addr + 16 * n \<le> length mem0"
    and "length mem0 \<le> 2 ^ 32" and "ring_reachable mem0 q0 s"
    and "ch \<in> set (rs_held s)" and "filled ch ch'"
  shows "\<exists>q c. release_chain (rs_mem s) (rs_queue s) True ch' written = (q, Inr (Some c)) \<and>
    c_descriptor_address c = slot_address (rs_queue s) (rs_used s mod q_size (rs_queue s)) \<and>
    c_id c = ch_id ch \<and> c_written c = written \<and> c_outputs c = chain_outputs (ch_buffers ch') \<and>
    held_slots (rs_held s) \<le> q_size (rs_queue s)"
proof -
  have inv: "ring_inv s" using assms(4) ring_start_inv [OF assms(1-3)] by (rule ring_reachable_inv)
  have "held_slots (rs_held s) \<le> q_size (rs_queue s)"
    using ring_inv_window [OF inv] inv by (simp add: ring_inv_def)
  with ring_inv_release [OF inv assms(5,6), of written] show ?thesis by blast
qed

definition demo_chain :: vq_chain where
  "demo_chain = \<lparr>ch_buffers = [\<lparr>vb_array = [1, 2, 3, 4], vb_writable = False, vb_address = None, vb_target = 32\<rparr>,
                     \<lparr>vb_array = [0, 0], vb_writable = True, vb_address = Some 36, vb_target = 36\<rparr>],
       ch_id = 7, ch_skip = 2\<rparr>"

lemma demo_new: "new_virtq 2 0 False = Inr demo_queue"
  by (simp add: new_virtq_def demo_queue_def assertE_def)

lemma demo_take:
  obtains q where "iterate_next demo_mem demo_queue True = Some (q, Inr (Some demo_chain))"
    "same_ring demo_queue q"
proof -
  have "\<exists>q. pop demo_mem demo_queue True = Some (q, Inr (Some demo_chain)) \<and> same_ring demo_queue q"
    using pop_request [OF demo_ring demo_request demo_range] unfolding demo_buffers
    by (auto simp: demo_slots demo_chain_def numeral_2_eq_2)
  with that show thesis by (auto simp: iterate_next_def demo_queue_def)
qed

definition demo_taken :: "virtq \<Rightarrow> ring_state" where
  "demo_taken q = \<lparr>rs_mem = demo_mem, rs_queue = q, rs_held = [demo_chain], rs_avail = 2, rs_used = 0\<rparr>"

lemma demo_reachable:
  assumes "iterate_next demo_mem demo_queue True = Some (q, Inr (Some demo_chain))"
  shows "ring_reachable demo_mem demo_queue (demo_taken q)"
  using ring_reachable.step [OF ring_reachable.start
      ring_step.take_chain [of "ring_start demo_mem demo_queue" q demo_chain]] assms
  by (simp add: demo_taken_def ring_start_def demo_chain_def numeral_2_eq_2)

theorem held_chain_releases_witness:
  "\<exists>q q' c. release_chain demo_mem q True demo_chain 2 = (q', Inr (Some c)) \<and>
    c_descriptor_address c = 0 \<and> c_id c = 7 \<and> c_written c = 2 \<and>
    c_outputs c = [\<lparr>out_address = 36, out_data = [0, 0]\<rparr>]"
proof -
  obtain q where q: "iterate_next demo_mem demo_queue True = Some (q, Inr (Some demo_chain))"
    "same_ring demo_queue q" by (rule demo_take)
  have "filled demo_chain demo_chain" by (simp add: filled_def list_all2_refl)
  from held_chain_releases [OF demo_new _ _ demo_reachable [OF q(1)] _ this, of 2] q(2) show ?thesis
    by (auto simp: demo_mem_length demo_taken_def demo_chain_def demo_queue_def chain_outputs_def
        slot_address_def same_ring_def)
qed

text \<open>
  Publishing a completion writes the id, the length and last the flags of the used slot and
  the output bytes, leaves every other slot of the ring as it was, and the used slot reads back as
  the completion.
\<close>

theorem published_slot_reads_back:
  assumes "ring_ok mem q" and "i < q_size q" and "c_descriptor_address c = slot_address q i"
    and "\<forall>o' \<in> set (c_outputs c). out_address o' + length (out_data o') \<le> length mem"
    and "outputs_clear (q_desc_addr q) (q_desc_addr q + 16 * q_size q) (c_outputs c)"
    and "c_id c < 2 ^ 16" and "c_written c < 2 ^ 32" and "c_flags c < 2 ^ 16"
  shows "\<exists>mem'. publish_virtqueue_completion mem c = Inr mem' \<and> length mem' = length mem \<and>
    (\<exists>d. queue_descriptor mem' q i = Inr d \<and>
      d_id d = c_id c \<and> d_len d = c_written c \<and> d_flags d = c_flags c) \<and>
    (\<forall>j < q_size q. j \<noteq> i \<longrightarrow> queue_descriptor mem' q j = queue_descriptor mem q j)"
proof -
  from publish_total [OF assms(1-4)] obtain mem' where m: "publish_virtqueue_completion mem c = Inr mem'" ..
  note w = publish_writes_slot [OF m assms(1,2,3,5)]
  then have "ring_ok mem' q" using assms(1) by (simp add: ring_ok_def)
  with w m assms show ?thesis by (simp add: queue_descriptor_slot)
qed

theorem published_slot_reads_back_witness:
  "\<exists>mem'. publish_virtqueue_completion demo_mem
      \<lparr>c_descriptor_address = 0, c_id = 7, c_written = 2, c_flags = 32898,
       c_outputs = [\<lparr>out_address = 36, out_data = [8, 9]\<rparr>]\<rparr> = Inr mem' \<and>
    (\<exists>d. queue_descriptor mem' demo_queue 0 = Inr d \<and> d_id d = 7 \<and> d_len d = 2 \<and> d_flags d = 32898)"
  using published_slot_reads_back [OF demo_ring(1), of 0 "\<lparr>c_descriptor_address = 0, c_id = 7, c_written = 2,
    c_flags = 32898, c_outputs = [\<lparr>out_address = 36, out_data = [8, 9]\<rparr>]\<rparr>"]
  by (auto simp: demo_queue_def slot_address_def outputs_clear_def demo_mem_length)

end
