(* ===== verification/Rx_Queue.thy ===== *)
theory Rx_Queue
  imports Virtqueue
begin

text \<open>
  The receive queue of \<open>packages/kernel/src/virtio/rx.ts\<close>: chains the guest has posted, and the
  host producers that wait for one.  A waiter is the number of the promise it resolves; an operation
  that resolves promises returns them.  Chains are a parameter of the state, since the queue
  only stores them.
\<close>

section \<open>Model\<close>

record 'c rx_queue =
  rx_chains :: "'c list"
  rx_waiters :: "nat list"
  rx_closed :: bool

definition new_rx :: "'c rx_queue" where
  "new_rx = \<lparr>rx_chains = [], rx_waiters = [], rx_closed = False\<rparr>"

definition rx_wake :: "'c rx_queue \<Rightarrow> 'c rx_queue \<times> nat list" where
  "rx_wake rx = (rx\<lparr>rx_waiters := []\<rparr>, rx_waiters rx)"

text \<open>
  The chains one iteration over a virtqueue yields, and the exception that ended it early, if any.
  \<open>None\<close> is an iteration that never ends.
\<close>

partial_function (option) take_all ::
    "bytes \<Rightarrow> virtq \<Rightarrow> bool \<Rightarrow> vq_chain list \<Rightarrow> (virtq \<times> vq_chain list \<times> js_error option) option" where
  [code]: "take_all mem q current chs = (case iterate_next mem q current of
       None \<Rightarrow> None
     | Some (q1, Inl e) \<Rightarrow> Some (q1, chs, Some e)
     | Some (q1, Inr None) \<Rightarrow> Some (q1, chs, None)
     | Some (q1, Inr (Some ch)) \<Rightarrow> take_all mem q1 current (chs @ [ch]))"

text \<open>
  \<open>post(queue)\<close>, from the chains the iteration yields.  When the iteration throws, the chains taken
  before stay posted and nobody is woken.
\<close>

definition rx_post :: "'c list \<Rightarrow> js_error option \<Rightarrow> 'c rx_queue \<Rightarrow> 'c rx_queue \<times> nat list \<times> unit result" where
  "rx_post chs err rx =
     (if rx_closed rx then (rx, [], Inr ())
      else let rx1 = rx\<lparr>rx_chains := rx_chains rx @ chs\<rparr>
           in case err of
                Some e \<Rightarrow> (rx1, [], Inl e)
              | None \<Rightarrow> if rx_chains rx1 \<noteq> [] then (let (rx2, ws) = rx_wake rx1 in (rx2, ws, Inr ()))
                        else (rx1, [], Inr ()))"

definition rx_available :: "'c rx_queue \<Rightarrow> nat" where
  "rx_available rx = length (rx_chains rx)"

text \<open>\<open>ready()\<close>: whether the promise is resolved at once; otherwise it becomes a waiter.\<close>

definition rx_ready :: "nat \<Rightarrow> 'c rx_queue \<Rightarrow> 'c rx_queue \<times> bool" where
  "rx_ready w rx =
     (if rx_chains rx \<noteq> [] \<or> rx_closed rx then (rx, True)
      else (rx\<lparr>rx_waiters := rx_waiters rx @ [w]\<rparr>, False))"

text \<open>\<open>deliver\<close>: the chain handed to \<open>fill\<close> and then released, if one is posted.\<close>

definition rx_deliver :: "'c rx_queue \<Rightarrow> 'c rx_queue \<times> 'c option" where
  "rx_deliver rx = (case rx_chains rx of
       [] \<Rightarrow> (rx, None)
     | ch # chs \<Rightarrow> (rx\<lparr>rx_chains := chs\<rparr>, Some ch))"

definition rx_reset :: "'c rx_queue \<Rightarrow> 'c rx_queue" where
  "rx_reset rx = rx\<lparr>rx_chains := []\<rparr>"

definition rx_close :: "'c rx_queue \<Rightarrow> 'c rx_queue \<times> nat list" where
  "rx_close rx = rx_wake (rx\<lparr>rx_closed := True, rx_chains := []\<rparr>)"

section \<open>Taking what the guest queued\<close>

lemma iterate_next_returns:
  assumes "ring_ok mem q" and "avail_at q p"
  shows "\<exists>q' r c. iterate_next mem q current = Some (q', r) \<and> pop_effect mem q p q' r c"
proof (cases "q_valid q \<and> current")
  case True
  then show ?thesis using pop_returns [OF assms, of current] by (simp add: iterate_next_def)
next
  case False
  then show ?thesis
    using assms(2) by (intro exI [of _ q] exI [of _ "Inr None"] exI [of _ 0]) (auto simp: iterate_next_def pop_effect_def)
qed

text \<open>
  The iteration ends whatever the guest wrote: each turn takes at least one slot, and the slots it
  takes from position \<open>p\<close> on are a run of available ones, no longer than the ring.
\<close>

definition taken_slots :: "bytes \<Rightarrow> virtq \<Rightarrow> nat \<Rightarrow> nat \<Rightarrow> bool" where
  "taken_slots mem q p n \<longleftrightarrow> (\<forall>j < n. slot_available mem q (p + j))"

lemma taken_slots_join:
  assumes "taken_slots mem q p n" and "taken_slots mem q (p + n) c"
  shows "taken_slots mem q p (n + c)"
  unfolding taken_slots_def
proof (intro allI impI)
  fix j assume "j < n + c"
  then show "slot_available mem q (p + j)"
    using assms(1) assms(2) [unfolded taken_slots_def, rule_format, of "j - n"]
    by (cases "j < n") (auto simp: taken_slots_def)
qed

lemma take_all_returns_aux:
  assumes "ring_ok mem q" and "avail_at q (p + n)" and "taken_slots mem q p n"
  shows "\<exists>q' chs' err. take_all mem q current chs = Some (q', chs @ chs', err) \<and> ring_ok mem q' \<and>
    n + held_slots chs' \<le> q_size q \<and> (\<forall>ch \<in> set chs'. length (ch_buffers ch) \<le> q_size q)"
  using assms
proof (induction "q_size q - n" arbitrary: q n chs rule: less_induct)
  case less
  have bound: "n \<le> q_size q"
    using less.prems(1,3) available_run_bound [of q n mem p] by (simp add: ring_ok_def taken_slots_def)
  from iterate_next_returns [OF less.prems(1,2), of current] obtain q1 r c where
    r: "iterate_next mem q current = Some (q1, r)" and e: "pop_effect mem q (p + n) q1 r c" by blast
  have q1: "same_ring q q1" "avail_at q1 (p + n + c)" "taken_slots mem q (p + n) c"
    using e by (simp_all add: pop_effect_def taken_slots_def)
  have ok: "ring_ok mem q1" using less.prems(1) q1(1,2) by (rule ring_ok_same)
  have size: "q_size q1 = q_size q" using q1(1) by (simp add: same_ring_def)
  consider (failed) err where "r = Inl err" | (stop) "r = Inr None" | (chain) ch where "r = Inr (Some ch)"
    by (metis not_Some_eq old.sum.exhaust)
  then show ?case
  proof cases
    case failed
    with r ok bound show ?thesis by (auto simp: held_slots_def take_all.simps [of mem q])
  next
    case stop
    with r ok bound show ?thesis by (auto simp: held_slots_def take_all.simps [of mem q])
  next
    case (chain ch)
    then have c: "ch_skip ch = c" "1 \<le> c" "length (ch_buffers ch) \<le> q_size q"
      using e by (simp_all add: pop_effect_def)
    have run: "taken_slots mem q1 p (n + c)"
      using taken_slots_join [OF less.prems(3) q1(3)] by (simp add: taken_slots_def same_ring_slots [OF q1(1)])
    then have "n + c \<le> q_size q1"
      using ok available_run_bound [of q1 "n + c" mem p] by (simp add: ring_ok_def taken_slots_def)
    with c(2) size have "q_size q1 - (n + c) < q_size q - n" by simp
    from less.hyps [OF this ok _ run, of "chs @ [ch]"] q1(2) obtain q' chs' err where
      "take_all mem q1 current (chs @ [ch]) = Some (q', chs @ ch # chs', err)" "ring_ok mem q'"
      "n + c + held_slots chs' \<le> q_size q1" "\<forall>ch \<in> set chs'. length (ch_buffers ch) \<le> q_size q1"
      by (auto simp: add.assoc)
    with r chain c size show ?thesis
      by (intro exI [of _ q'] exI [of _ "ch # chs'"] exI [of _ err]) (auto simp: take_all.simps [of mem q])
  qed
qed

lemma take_all_returns:
  assumes "ring_ok mem q" and "avail_at q p"
  shows "\<exists>q' chs err. take_all mem q current [] = Some (q', chs, err) \<and> ring_ok mem q' \<and>
    held_slots chs \<le> q_size q \<and> (\<forall>ch \<in> set chs. length (ch_buffers ch) \<le> q_size q)"
  using take_all_returns_aux [of mem q p 0 current "[]"] assms by (auto simp: taken_slots_def)

section \<open>Waiting producers\<close>

text \<open>
  Nobody waits while there is something to take: the invariant that makes \<open>ready()\<close> a reliable
  back-pressure signal.  A post whose iteration throws is the one exception.
\<close>

definition rx_inv :: "'c rx_queue \<Rightarrow> bool" where
  "rx_inv rx \<longleftrightarrow> (rx_chains rx \<noteq> [] \<or> rx_closed rx \<longrightarrow> rx_waiters rx = []) \<and>
     (rx_closed rx \<longrightarrow> rx_chains rx = [])"

lemmas rx_defs = rx_post_def rx_wake_def rx_ready_def rx_deliver_def rx_reset_def rx_close_def

lemma new_rx_inv [simp]: "rx_inv new_rx"
  by (simp add: rx_inv_def new_rx_def)

lemma rx_ops_inv:
  assumes "rx_inv rx"
  shows "rx_inv (fst (rx_post chs None rx))" "rx_inv (fst (rx_ready w rx))"
    "rx_inv (fst (rx_deliver rx))" "rx_inv (rx_reset rx)" "rx_inv (fst (rx_close rx))"
  using assms by (auto simp: rx_inv_def rx_defs Let_def split: list.splits)

text \<open>
  A history of the queue: the operations in order, what was delivered and which promises are
  resolved.
\<close>

datatype 'c rx_op = Post "'c list" | Ready nat | Deliver | ResetRx | CloseRx

record 'c rx_history =
  rh_queue :: "'c rx_queue"
  rh_delivered :: "'c list"
  rh_resolved :: "nat list"

fun rx_apply :: "'c rx_history \<Rightarrow> 'c rx_op \<Rightarrow> 'c rx_history" where
  "rx_apply h (Post chs) = (let (rx, ws, _) = rx_post chs None (rh_queue h)
     in h\<lparr>rh_queue := rx, rh_resolved := rh_resolved h @ ws\<rparr>)"
| "rx_apply h (Ready w) = (let (rx, now) = rx_ready w (rh_queue h)
     in h\<lparr>rh_queue := rx, rh_resolved := (if now then rh_resolved h @ [w] else rh_resolved h)\<rparr>)"
| "rx_apply h Deliver = (case rx_deliver (rh_queue h) of
       (rx, None) \<Rightarrow> h\<lparr>rh_queue := rx\<rparr>
     | (rx, Some ch) \<Rightarrow> h\<lparr>rh_queue := rx, rh_delivered := rh_delivered h @ [ch]\<rparr>)"
| "rx_apply h ResetRx = h\<lparr>rh_queue := rx_reset (rh_queue h)\<rparr>"
| "rx_apply h CloseRx = (let (rx, ws) = rx_close (rh_queue h)
     in h\<lparr>rh_queue := rx, rh_resolved := rh_resolved h @ ws\<rparr>)"

definition rx_run :: "'c rx_op list \<Rightarrow> 'c rx_history" where
  "rx_run ops = foldl rx_apply \<lparr>rh_queue = new_rx, rh_delivered = [], rh_resolved = []\<rparr> ops"

lemma rx_run_Nil [simp]: "rx_run [] = \<lparr>rh_queue = new_rx, rh_delivered = [], rh_resolved = []\<rparr>"
  by (simp add: rx_run_def)

lemma rx_run_snoc [simp]: "rx_run (ops @ [a]) = rx_apply (rx_run ops) a"
  by (simp add: rx_run_def)

primrec posted :: "'c rx_op list \<Rightarrow> 'c list" where
  "posted [] = []"
| "posted (a # ops) = (case a of Post chs \<Rightarrow> chs | _ \<Rightarrow> []) @ posted ops"

primrec waiting :: "'c rx_op list \<Rightarrow> nat list" where
  "waiting [] = []"
| "waiting (a # ops) = (case a of Ready w \<Rightarrow> [w] | _ \<Rightarrow> []) @ waiting ops"

lemma posted_append [simp]: "posted (xs @ ys) = posted xs @ posted ys"
  by (induction xs) auto

lemma waiting_append [simp]: "waiting (xs @ ys) = waiting xs @ waiting ys"
  by (induction xs) auto

definition keeps_chains :: "'c rx_op \<Rightarrow> bool" where
  "keeps_chains a \<longleftrightarrow> (case a of ResetRx \<Rightarrow> False | CloseRx \<Rightarrow> False | _ \<Rightarrow> True)"

lemma rx_apply_inv: "rx_inv (rh_queue h) \<Longrightarrow> rx_inv (rh_queue (rx_apply h a))"
  by (cases a) (auto simp: rx_inv_def rx_defs Let_def split: list.splits option.splits prod.splits if_splits)

lemma rx_apply_waiters:
  "set (rh_resolved (rx_apply h a)) \<union> set (rx_waiters (rh_queue (rx_apply h a))) =
   set (rh_resolved h) \<union> set (rx_waiters (rh_queue h)) \<union> set (waiting [a])"
  by (cases a) (auto simp: rx_defs Let_def split: list.splits option.splits prod.splits if_splits)

lemma rx_run_inv: "rx_inv (rh_queue (rx_run ops))"
  by (induction ops rule: rev_induct) (simp_all add: rx_apply_inv)

lemma rx_run_waiters:
  "set (rh_resolved (rx_run ops)) \<union> set (rx_waiters (rh_queue (rx_run ops))) = set (waiting ops)"
proof (induction ops rule: rev_induct)
  case Nil
  then show ?case by (simp add: new_rx_def)
next
  case (snoc a ops)
  then show ?case using rx_apply_waiters [of "rx_run ops" a] by auto
qed

lemma rx_run_order:
  "list_all keeps_chains ops \<Longrightarrow> \<not> rx_closed (rh_queue (rx_run ops)) \<and>
     rh_delivered (rx_run ops) @ rx_chains (rh_queue (rx_run ops)) = posted ops"
proof (induction ops rule: rev_induct)
  case Nil
  then show ?case by (simp add: new_rx_def)
next
  case (snoc a ops)
  then show ?case
    by (cases a) (auto simp: rx_defs keeps_chains_def Let_def split: list.splits option.splits prod.splits if_splits)
qed

section \<open>Properties\<close>

text \<open>
  one iteration over a virtqueue ends for every content of guest memory, after taking no more
  slots than the ring has, and leaves the queue usable.
\<close>

theorem kick_iteration_ends:
  assumes "ring_ok mem q" and "avail_at q p"
  shows "\<exists>q' chs err. take_all mem q current [] = Some (q', chs, err) \<and> ring_ok mem q' \<and>
    held_slots chs \<le> q_size q \<and> (\<forall>ch \<in> set chs. length (ch_buffers ch) \<le> q_size q)"
  using assms by (rule take_all_returns)

theorem kick_iteration_ends_witness:
  "\<exists>q' chs err. take_all demo_mem demo_queue True [] = Some (q', chs, err) \<and> ring_ok demo_mem q' \<and>
    held_slots chs \<le> q_size demo_queue \<and> (\<forall>ch \<in> set chs. length (ch_buffers ch) \<le> q_size demo_queue)"
  by (rule kick_iteration_ends [OF demo_ring])

text \<open>
  C23: no wake-up is lost and nothing is reordered.  After any sequence of operations every promise
  \<open>ready()\<close> returned is resolved or still registered, and none is left registered while a chain is
  posted or the queue is closed; without a reset or close in between, the chains come out in the order
  the guest posted them, none dropped and none twice.
\<close>

theorem rx_queue_history:
  "set (waiting ops) = set (rh_resolved (rx_run ops)) \<union> set (rx_waiters (rh_queue (rx_run ops))) \<and>
   (rx_available (rh_queue (rx_run ops)) > 0 \<or> rx_closed (rh_queue (rx_run ops)) \<longrightarrow>
      set (waiting ops) = set (rh_resolved (rx_run ops))) \<and>
   (list_all keeps_chains ops \<longrightarrow>
      posted ops = rh_delivered (rx_run ops) @ rx_chains (rh_queue (rx_run ops)))"
  using rx_run_inv [of ops] rx_run_waiters [of ops] rx_run_order [of ops]
  by (auto simp: rx_inv_def rx_available_def)

theorem rx_queue_history_witness:
  "let ops = [Ready 5, Post [''a'', ''b''], Deliver] in
   list_all keeps_chains ops \<and> rx_available (rh_queue (rx_run ops)) > 0 \<and>
   set (rh_resolved (rx_run ops)) = {5} \<and> rh_delivered (rx_run ops) = [''a''] \<and>
   rx_chains (rh_queue (rx_run ops)) = [''b'']"
proof -
  let ?ops = "[Ready 5, Post [''a'', ''b''], Deliver]"
  have run: "list_all keeps_chains ?ops" "rx_available (rh_queue (rx_run ?ops)) > 0"
    "rh_delivered (rx_run ?ops) = [''a'']"
    by (simp_all add: keeps_chains_def rx_run_def rx_defs new_rx_def rx_available_def)
  with rx_queue_history [of ?ops] show ?thesis by (auto simp: Let_def)
qed

end
