(* ===== verification/Virtio_Device.thy ===== *)
theory Virtio_Device
  imports Rx_Queue
begin

text \<open>
  The life cycle of a device, \<open>packages/kernel/src/virtio/device.ts\<close>: queues enabled, disabled and
  notified by the guest, kicks that run one at a time per queue, work that outlives its kick,
  interrupts, configuration, guest reset and shutdown.

  The abstract methods \<open>kick\<close>, \<open>reset\<close>, \<open>stop\<close> and \<open>close\<close> belong to the subclasses: calling one is an
  entry of the output log, and its outcome is a later event.  An \<open>async\<close> function is cut at its
  \<open>await\<close>s: a suspended \<open>drain\<close> is an entry of \<open>vd_suspended\<close>, the loop of \<open>shutdown\<close> is \<open>vd_phase\<close>.
  Queue objects live in \<open>vd_heap\<close> and are referred to by index, so that a kick can still hold a
  queue that the guest has replaced.
\<close>

section \<open>State\<close>

datatype work = KickWork nat | SpawnWork nat

datatype device_output =
    OutKick nat nat nat
  | OutError js_error
  | OutIrq nat
  | OutPublish nat nat completion
  | OutConfig nat bytes bool
  | OutReset
  | OutStop
  | OutClose

record queue_state =
  qs_queue :: "nat option"
  qs_pending :: bool
  qs_notifying :: bool

record queue_obj =
  qo_virtq :: virtq
  qo_vq :: nat
  qo_irq :: nat
  qo_armed :: bool

text \<open>
  The configuration space the guest gave: a window of guest memory, or, under \<open>config_target\<close>, an
  array of its own.
\<close>

record attachment =
  at_target :: "bytes option"
  at_address :: nat
  at_length :: nat
  at_irq :: nat

text \<open>Where \<open>shutdown\<close> stands, with the first failure it has seen.\<close>

datatype shutdown_phase =
    Running
  | WaitingActive "work list" "js_error option"
  | Closing "js_error option"
  | Closed "js_error option"

record virtio_device =
  vd_queues :: nat
  vd_features :: nat
  vd_config :: bytes
  vd_views :: bool
  vd_hooks :: bool
  vd_mem :: bytes
  vd_stopped :: bool
  vd_active :: "work list"
  vd_attached :: "attachment option"
  vd_config_pending :: bool
  vd_reports :: bool
  vd_states :: "queue_state option list"
  vd_heap :: "queue_obj list"
  vd_suspended :: "(nat \<times> work option) list"
  vd_settled :: "(work \<times> js_error option) list"
  vd_phase :: shutdown_phase
  vd_next :: nat
  vd_log :: "device_output list"

definition transport_features :: nat where
  "transport_features = TF_VERSION_1 OR TF_RING_PACKED OR TF_INDIRECT_DESC"

definition new_device :: "nat \<Rightarrow> nat \<Rightarrow> bytes \<Rightarrow> bool \<Rightarrow> bytes \<Rightarrow> virtio_device" where
  "new_device queues features config views mem =
     \<lparr>vd_queues = queues, vd_features = transport_features OR features, vd_config = config, vd_views = views,
      vd_hooks = False, vd_mem = mem, vd_stopped = False, vd_active = [], vd_attached = None,
      vd_config_pending = False, vd_reports = False, vd_states = [], vd_heap = [], vd_suspended = [],
      vd_settled = [], vd_phase = Running, vd_next = 0, vd_log = []\<rparr>"

definition emit :: "device_output \<Rightarrow> virtio_device \<Rightarrow> virtio_device" where
  "emit out d = d\<lparr>vd_log := vd_log d @ [out]\<rparr>"

text \<open>\<open>#on_error\<close> does nothing until a machine is attached.\<close>

definition report :: "js_error \<Rightarrow> virtio_device \<Rightarrow> virtio_device" where
  "report e d = (if vd_reports d then emit (OutError e) d else d)"

section \<open>Queues of an attachment\<close>

definition idle_state :: queue_state where
  "idle_state = \<lparr>qs_queue = None, qs_pending = False, qs_notifying = False\<rparr>"

text \<open>\<open>queues[vq]\<close>, \<open>queue_state(vq)\<close> and the assignment that extends the sparse array.\<close>

definition known_state :: "virtio_device \<Rightarrow> nat \<Rightarrow> queue_state option" where
  "known_state d vq = (if vq < length (vd_states d) then vd_states d ! vq else None)"

definition state_of :: "virtio_device \<Rightarrow> nat \<Rightarrow> queue_state" where
  "state_of d vq = (case known_state d vq of None \<Rightarrow> idle_state | Some st \<Rightarrow> st)"

definition set_state :: "nat \<Rightarrow> queue_state \<Rightarrow> virtio_device \<Rightarrow> virtio_device" where
  "set_state vq st d =
     d\<lparr>vd_states := (vd_states d @ replicate (Suc vq - length (vd_states d)) None)[vq := Some st]\<rparr>"

fun invalidate_ref :: "nat option \<Rightarrow> queue_obj list \<Rightarrow> queue_obj list" where
  "invalidate_ref None h = h"
| "invalidate_ref (Some g) h =
     (if g < length h then h[g := (h ! g)\<lparr>qo_virtq := invalidate (qo_virtq (h ! g))\<rparr>] else h)"

text \<open>The queue's \<open>is_current\<close>; \<open>hook\<close> is the answer of \<open>queue_is_current\<close>.\<close>

definition is_current :: "virtio_device \<Rightarrow> nat \<Rightarrow> bool \<Rightarrow> bool" where
  "is_current d g hook \<longleftrightarrow>
     qs_queue (state_of d (qo_vq (vd_heap d ! g))) = Some g \<and> (vd_hooks d \<longrightarrow> hook)"

section \<open>Kicks\<close>

text \<open>
  \<open>#dispatch\<close> up to the call of \<open>kick\<close>, from \<open>drain\<close>: either a kick is in flight and awaited, or
  nothing is awaited because the device has stopped, or the assertion failed and \<open>drain\<close> ends.
\<close>

definition drain_end :: "nat \<Rightarrow> virtio_device \<Rightarrow> virtio_device" where
  "drain_end vq d = set_state vq ((state_of d vq)\<lparr>qs_notifying := False\<rparr>) d"

definition suspend :: "nat \<Rightarrow> work option \<Rightarrow> virtio_device \<Rightarrow> virtio_device" where
  "suspend vq w d = d\<lparr>vd_suspended := vd_suspended d @ [(vq, w)]\<rparr>"

definition start_kick :: "nat \<Rightarrow> nat \<Rightarrow> virtio_device \<Rightarrow> virtio_device" where
  "start_kick vq g d =
     (let w = KickWork (vd_next d)
      in suspend vq (Some w) (emit (OutKick vq g (vd_next d))
           (d\<lparr>vd_active := vd_active d @ [w], vd_next := Suc (vd_next d)\<rparr>)))"

definition drain_turn :: "nat \<Rightarrow> nat \<Rightarrow> virtio_device \<Rightarrow> virtio_device" where
  "drain_turn vq g d0 =
     (let d = set_state vq ((state_of d0 vq)\<lparr>qs_pending := False\<rparr>) d0
      in if vd_stopped d then suspend vq None d
         else if \<not> vq < vd_queues d then drain_end vq (report (Error (''virtio device has no queue '' @ decimal vq)) d)
         else start_kick vq g d)"

definition drain :: "nat \<Rightarrow> virtio_device \<Rightarrow> virtio_device" where
  "drain vq d =
     (let st = state_of d vq
      in case qs_queue st of
           None \<Rightarrow> set_state vq st d
         | Some g \<Rightarrow> if qs_notifying st then set_state vq st d
                    else drain_turn vq g (set_state vq (st\<lparr>qs_notifying := True\<rparr>) d))"

text \<open>The rest of \<open>drain\<close> after its \<open>await\<close>, with the outcome of what it awaited.\<close>

definition drain_resume :: "nat \<Rightarrow> work option \<Rightarrow> js_error option \<Rightarrow> virtio_device \<Rightarrow> virtio_device" where
  "drain_resume vq w outcome d0 =
     (let d = d0\<lparr>vd_suspended := remove1 (vq, w) (vd_suspended d0)\<rparr>;
          st = state_of d vq
      in case outcome of
           Some e \<Rightarrow> drain_end vq (report e d)
         | None \<Rightarrow> (case qs_queue st of
               Some g \<Rightarrow> if qs_pending st then drain_turn vq g d else drain_end vq d
             | None \<Rightarrow> drain_end vq d))"

text \<open>A promise of the active set settles; a failure of spawned work is reported.\<close>

definition settle :: "work \<Rightarrow> js_error option \<Rightarrow> virtio_device \<Rightarrow> virtio_device" where
  "settle w outcome d0 =
     (let d = d0\<lparr>vd_active := remove1 w (vd_active d0), vd_settled := vd_settled d0 @ [(w, outcome)]\<rparr>
      in case (w, outcome) of (SpawnWork _, Some e) \<Rightarrow> report e d | _ \<Rightarrow> d)"

definition spawn :: "virtio_device \<Rightarrow> virtio_device" where
  "spawn d = d\<lparr>vd_active := vd_active d @ [SpawnWork (vd_next d)], vd_next := Suc (vd_next d)\<rparr>"

section \<open>Configuration\<close>

definition write_config :: "attachment \<Rightarrow> virtio_device \<Rightarrow> virtio_device" where
  "write_config a d = (case at_target a of
       Some t \<Rightarrow> d\<lparr>vd_attached := Some (a\<lparr>at_target := Some (overwrite t 0 (vd_config d))\<rparr>)\<rparr>
     | None \<Rightarrow> d\<lparr>vd_mem := overwrite (vd_mem d) (at_address a) (vd_config d), vd_attached := Some a\<rparr>)"

definition config_slice :: "virtio_device \<Rightarrow> bytes" where
  "config_slice d = (case vd_attached d of
       None \<Rightarrow> []
     | Some a \<Rightarrow> (case at_target a of
           Some t \<Rightarrow> t
         | None \<Rightarrow> subarray (vd_mem d) (at_address a) (at_address a + at_length a)))"

definition raise_config :: "nat \<Rightarrow> virtio_device \<Rightarrow> virtio_device" where
  "raise_config irq d = emit (if vd_hooks d then OutConfig irq (config_slice d) True else OutIrq irq) d"

definition update_config :: "virtio_device \<Rightarrow> virtio_device" where
  "update_config d =
     (if vd_stopped d then d
      else case vd_attached d of
        None \<Rightarrow> d\<lparr>vd_config_pending := True\<rparr>
      | Some a \<Rightarrow> raise_config (at_irq a) (write_config a d))"

definition set_features :: "nat \<Rightarrow> virtio_device \<Rightarrow> virtio_device \<times> unit result" where
  "set_features features d =
     (d, assertE (features = vd_features d) ''the kernel should accept every feature we offer, and no more'')"

definition setup_config :: "nat \<Rightarrow> nat \<Rightarrow> nat \<Rightarrow> virtio_device \<Rightarrow> virtio_device \<times> unit result" where
  "setup_config irq address len d =
     (if \<not> len \<ge> length (vd_config d) then (d, Inl (Error ''config space too small''))
      else if \<not> vd_hooks d \<and> address + len > length (vd_mem d) then
        (d, Inl (RangeError ''invalid typed array length''))
      else
        let a = \<lparr>at_target = (if vd_hooks d then Some (replicate len 0) else None),
                 at_address = address, at_length = len, at_irq = irq\<rparr>;
            d1 = write_config a d;
            d2 = (if vd_hooks d then emit (OutConfig irq (config_slice d1) False) d1 else d1)
        in (if vd_config_pending d2 then update_config (d2\<lparr>vd_config_pending := False\<rparr>) else d2, Inr ()))"

section \<open>Operations of the connected device\<close>

definition attach :: "bool \<Rightarrow> virtio_device \<Rightarrow> virtio_device \<times> unit result" where
  "attach hooks d =
     (if vd_stopped d then (d, Inl (Error ''cannot attach a closed virtio device''))
      else if vd_attached d \<noteq> None then (d, Inl (Error ''virtio device is already attached''))
      else (d\<lparr>vd_reports := True, vd_hooks := hooks\<rparr>, Inr ()))"

text \<open>\<open>enable_queue\<close>: the old queue is invalidated, then a new object takes its place.\<close>

definition retire_queue :: "nat \<Rightarrow> virtio_device \<Rightarrow> virtio_device" where
  "retire_queue vq d =
     (set_state vq (state_of d vq) d)\<lparr>vd_heap := invalidate_ref (qs_queue (state_of d vq)) (vd_heap d)\<rparr>"

definition install_queue :: "nat \<Rightarrow> nat \<Rightarrow> virtq \<Rightarrow> virtio_device \<Rightarrow> virtio_device" where
  "install_queue vq irq q d =
     set_state vq ((state_of d vq)\<lparr>qs_queue := Some (length (vd_heap d))\<rparr>)
       (d\<lparr>vd_heap := vd_heap d @ [\<lparr>qo_virtq = q, qo_vq = vq, qo_irq = irq, qo_armed = False\<rparr>]\<rparr>)"

definition enable_queue :: "nat \<Rightarrow> nat \<Rightarrow> nat \<Rightarrow> nat \<Rightarrow> virtio_device \<Rightarrow> virtio_device \<times> unit result" where
  "enable_queue vq n address irq d0 =
     (let d = retire_queue vq d0
      in case new_virtq n address (vd_views d) of
           Inl e \<Rightarrow> (d, Inl e)
         | Inr q \<Rightarrow>
             let d1 = install_queue vq irq q d
             in (if qs_pending (state_of d1 vq) then drain vq d1 else d1, Inr ()))"

definition clear_state :: "queue_state \<Rightarrow> queue_state" where
  "clear_state st = st\<lparr>qs_queue := None, qs_pending := False\<rparr>"

definition disable_queue :: "nat \<Rightarrow> virtio_device \<Rightarrow> virtio_device" where
  "disable_queue vq d = (case known_state d vq of
       None \<Rightarrow> d
     | Some st \<Rightarrow> set_state vq (clear_state st) (d\<lparr>vd_heap := invalidate_ref (qs_queue st) (vd_heap d)\<rparr>))"

definition notify :: "nat \<Rightarrow> virtio_device \<Rightarrow> virtio_device" where
  "notify vq d = drain vq (set_state vq ((state_of d vq)\<lparr>qs_pending := True\<rparr>) d)"

text \<open>
  \<open>reset\<close>: the work the returned promise waits for, empty unless the device hands out views.
\<close>

definition invalidate_all :: "queue_state option list \<Rightarrow> queue_obj list \<Rightarrow> queue_obj list" where
  "invalidate_all sts h =
     foldl (\<lambda>h st. case st of None \<Rightarrow> h | Some s \<Rightarrow> invalidate_ref (qs_queue s) h) h sts"

definition guest_reset :: "virtio_device \<Rightarrow> virtio_device \<times> work list" where
  "guest_reset d =
     (let d1 = d\<lparr>vd_heap := invalidate_all (vd_states d) (vd_heap d),
                 vd_states := map (map_option clear_state) (vd_states d)\<rparr>;
          d2 = (if vd_stopped d1 then d1 else emit OutReset d1)
      in (d2, if vd_views d2 then vd_active d2 else []))"

section \<open>Chains of a queue object\<close>

definition set_virtq :: "nat \<Rightarrow> virtq \<Rightarrow> virtio_device \<Rightarrow> virtio_device" where
  "set_virtq g q d = d\<lparr>vd_heap := (vd_heap d)[g := (vd_heap d ! g)\<lparr>qo_virtq := q\<rparr>]\<rparr>"

definition set_armed :: "nat \<Rightarrow> bool \<Rightarrow> virtio_device \<Rightarrow> virtio_device" where
  "set_armed g b d = d\<lparr>vd_heap := (vd_heap d)[g := (vd_heap d ! g)\<lparr>qo_armed := b\<rparr>]\<rparr>"

definition take_chain :: "nat \<Rightarrow> bool \<Rightarrow> virtio_device \<Rightarrow> (virtio_device \<times> vq_chain option result) option" where
  "take_chain g hook d =
     map_option (\<lambda>(q, r). (set_virtq g q d, r))
       (iterate_next (vd_mem d) (qo_virtq (vd_heap d ! g)) (is_current d g hook))"

text \<open>The publication callback of \<open>enable_queue\<close>: interrupts of one turn are batched.\<close>

definition publish :: "nat \<Rightarrow> completion \<Rightarrow> virtio_device \<Rightarrow> virtio_device \<times> unit result" where
  "publish g c d =
     (if vd_hooks d then
        (emit (OutPublish (qo_vq (vd_heap d ! g)) (qo_irq (vd_heap d ! g)) c) d, Inr ())
      else case publish_virtqueue_completion (vd_mem d) c of
        Inl e \<Rightarrow> (d, Inl e)
      | Inr mem \<Rightarrow> (set_armed g True (d\<lparr>vd_mem := mem\<rparr>), Inr ()))"

definition complete_chain ::
    "nat \<Rightarrow> bool \<Rightarrow> vq_chain \<Rightarrow> nat \<Rightarrow> virtio_device \<Rightarrow> virtio_device \<times> unit result" where
  "complete_chain g hook ch written d =
     (case release_chain (vd_mem d) (qo_virtq (vd_heap d ! g)) (is_current d g hook) ch written of
        (q, Inl e) \<Rightarrow> (set_virtq g q d, Inl e)
      | (q, Inr None) \<Rightarrow> (set_virtq g q d, Inr ())
      | (q, Inr (Some c)) \<Rightarrow> publish g c (set_virtq g q d))"

definition irq_task :: "nat \<Rightarrow> virtio_device \<Rightarrow> virtio_device" where
  "irq_task g d =
     (let d1 = set_armed g False d; obj = vd_heap d ! g
      in if qs_queue (state_of d1 (qo_vq obj)) = Some g then emit (OutIrq (qo_irq obj)) d1 else d1)"

section \<open>Shutdown\<close>

text \<open>The \<open>while (active.size > 0)\<close> test, and the call of \<open>close\<close> behind the loop.\<close>

definition shutdown_turn :: "js_error option \<Rightarrow> virtio_device \<Rightarrow> virtio_device" where
  "shutdown_turn failure d =
     (if vd_active d \<noteq> [] then d\<lparr>vd_phase := WaitingActive (vd_active d) failure\<rparr>
      else emit OutClose (d\<lparr>vd_phase := Closing failure\<rparr>))"

definition shutdown :: "js_error option \<Rightarrow> virtio_device \<Rightarrow> virtio_device" where
  "shutdown stop_failure d =
     (if vd_stopped d then d else shutdown_turn stop_failure (emit OutStop (d\<lparr>vd_stopped := True\<rparr>)))"

definition first_rejected :: "work list \<Rightarrow> (work \<times> js_error option) list \<Rightarrow> js_error option" where
  "first_rejected ws settled = (case List.map_filter (\<lambda>w. Option.bind (map_of settled w) id) ws of
       [] \<Rightarrow> None | e # _ \<Rightarrow> Some e)"

definition shutdown_resume :: "work list \<Rightarrow> js_error option \<Rightarrow> virtio_device \<Rightarrow> virtio_device" where
  "shutdown_resume ws failure d =
     shutdown_turn (case failure of None \<Rightarrow> first_rejected ws (vd_settled d) | Some e \<Rightarrow> Some e) d"

definition close_settled :: "js_error option \<Rightarrow> js_error option \<Rightarrow> virtio_device \<Rightarrow> virtio_device" where
  "close_settled failure outcome d =
     d\<lparr>vd_phase := Closed (case failure of None \<Rightarrow> outcome | Some e \<Rightarrow> Some e)\<rparr>"

section \<open>Runs\<close>

text \<open>
  Everything that can happen to an attached device, one synchronous stretch of code at a time, in
  any order: calls of the guest through the bus, the kick or the host settling a promise, the
  continuations of suspended functions, and the driver writing memory.  \<open>None\<close> means the event
  cannot happen.
\<close>

datatype device_event =
    Notify nat
  | EnableQueue nat nat nat nat
  | DisableQueue nat
  | GuestReset
  | SetupConfig nat nat nat
  | SetFeatures nat
  | UpdateConfig bytes
  | Spawn
  | Settle work "js_error option"
  | Resume nat "work option"
  | TakeChain nat bool
  | CompleteChain nat bool vq_chain nat
  | IrqTask nat
  | Shutdown "js_error option"
  | ShutdownResume
  | CloseSettled "js_error option"
  | DriverWrites bytes

definition outcome_of :: "virtio_device \<Rightarrow> work option \<Rightarrow> js_error option option" where
  "outcome_of d w = (case w of None \<Rightarrow> Some None | Some w \<Rightarrow> map_of (vd_settled d) w)"

definition guarded :: "bool \<Rightarrow> 'a \<Rightarrow> 'a option" where
  "guarded b x = (if b then Some x else None)"

fun device_step :: "device_event \<Rightarrow> virtio_device \<Rightarrow> virtio_device option" where
  "device_step (Notify vq) d = Some (notify vq d)"
| "device_step (EnableQueue vq n a irq) d = Some (fst (enable_queue vq n a irq d))"
| "device_step (DisableQueue vq) d = Some (disable_queue vq d)"
| "device_step GuestReset d = Some (fst (guest_reset d))"
| "device_step (SetupConfig irq a n) d = Some (fst (setup_config irq a n d))"
| "device_step (SetFeatures f) d = Some (fst (set_features f d))"
| "device_step (UpdateConfig cfg) d =
     guarded (length cfg = length (vd_config d)) (update_config (d\<lparr>vd_config := cfg\<rparr>))"
| "device_step Spawn d = Some (spawn d)"
| "device_step (Settle w r) d = guarded (w \<in> set (vd_active d)) (settle w r d)"
| "device_step (Resume vq w) d =
     (if (vq, w) \<in> set (vd_suspended d) then map_option (\<lambda>r. drain_resume vq w r d) (outcome_of d w) else None)"
| "device_step (TakeChain g hook) d =
     (if g < length (vd_heap d) then map_option fst (take_chain g hook d) else None)"
| "device_step (CompleteChain g hook ch n) d =
     guarded (g < length (vd_heap d)) (fst (complete_chain g hook ch n d))"
| "device_step (IrqTask g) d =
     guarded (g < length (vd_heap d) \<and> qo_armed (vd_heap d ! g)) (irq_task g d)"
| "device_step (Shutdown f) d = Some (shutdown f d)"
| "device_step ShutdownResume d = (case vd_phase d of
       WaitingActive ws f \<Rightarrow> guarded (\<forall>w \<in> set ws. map_of (vd_settled d) w \<noteq> None) (shutdown_resume ws f d)
     | _ \<Rightarrow> None)"
| "device_step (CloseSettled r) d = (case vd_phase d of Closing f \<Rightarrow> Some (close_settled f r d) | _ \<Rightarrow> None)"
| "device_step (DriverWrites mem) d = guarded (length mem = length (vd_mem d)) (d\<lparr>vd_mem := mem\<rparr>)"

fun device_run :: "device_event list \<Rightarrow> virtio_device \<Rightarrow> virtio_device option" where
  "device_run [] d = Some d"
| "device_run (e # es) d = Option.bind (device_step e d) (device_run es)"

text \<open>The states an attached device can reach.\<close>

inductive reachable :: "virtio_device \<Rightarrow> bool" where
  attached: "attach hooks (new_device queues features config views mem) = (d, Inr ()) \<Longrightarrow> reachable d"
| step: "reachable d \<Longrightarrow> device_step e d = Some d' \<Longrightarrow> reachable d'"

lemma guarded_Some [simp]: "guarded b x = Some y \<longleftrightarrow> b \<and> x = y"
  by (simp add: guarded_def)

lemma reachable_run: "reachable d \<Longrightarrow> device_run es d = Some d' \<Longrightarrow> reachable d'"
  by (induction es arbitrary: d) (auto split: bind_splits intro: reachable.step)

section \<open>State access\<close>

lemma known_state_frame [simp]:
  "known_state (d\<lparr>vd_heap := h\<rparr>) = known_state d" "known_state (d\<lparr>vd_mem := m\<rparr>) = known_state d"
  "known_state (d\<lparr>vd_log := l\<rparr>) = known_state d" "known_state (d\<lparr>vd_active := a\<rparr>) = known_state d"
  "known_state (d\<lparr>vd_suspended := s\<rparr>) = known_state d" "known_state (d\<lparr>vd_next := n\<rparr>) = known_state d"
  "known_state (d\<lparr>vd_settled := x\<rparr>) = known_state d" "known_state (d\<lparr>vd_phase := p\<rparr>) = known_state d"
  "known_state (d\<lparr>vd_stopped := b\<rparr>) = known_state d" "known_state (d\<lparr>vd_config := c\<rparr>) = known_state d"
  "known_state (d\<lparr>vd_attached := t\<rparr>) = known_state d" "known_state (d\<lparr>vd_config_pending := b\<rparr>) = known_state d"
  by (simp_all add: known_state_def fun_eq_iff)

lemma state_of_frame [simp]:
  "state_of (d\<lparr>vd_heap := h\<rparr>) = state_of d" "state_of (d\<lparr>vd_mem := m\<rparr>) = state_of d"
  "state_of (d\<lparr>vd_log := l\<rparr>) = state_of d" "state_of (d\<lparr>vd_active := a\<rparr>) = state_of d"
  "state_of (d\<lparr>vd_suspended := s\<rparr>) = state_of d" "state_of (d\<lparr>vd_next := n\<rparr>) = state_of d"
  "state_of (d\<lparr>vd_settled := x\<rparr>) = state_of d" "state_of (d\<lparr>vd_phase := p\<rparr>) = state_of d"
  "state_of (d\<lparr>vd_stopped := b\<rparr>) = state_of d" "state_of (d\<lparr>vd_config := c\<rparr>) = state_of d"
  "state_of (d\<lparr>vd_attached := t\<rparr>) = state_of d" "state_of (d\<lparr>vd_config_pending := b\<rparr>) = state_of d"
  by (simp_all add: state_of_def fun_eq_iff)

lemma state_of_set_state [simp]:
  "state_of (set_state vq st d) vq' = (if vq' = vq then st else state_of d vq')"
proof -
  let ?xs = "vd_states d @ replicate (Suc vq - length (vd_states d)) None"
  have len: "vq < length ?xs" by simp
  have "known_state (set_state vq st d) vq' = (if vq' = vq then Some st else known_state d vq')"
    using len by (auto simp: known_state_def set_state_def nth_append)
  then show ?thesis by (simp add: state_of_def)
qed

lemma set_state_frame [simp]:
  "vd_queues (set_state vq st d) = vd_queues d" "vd_views (set_state vq st d) = vd_views d"
  "vd_hooks (set_state vq st d) = vd_hooks d" "vd_mem (set_state vq st d) = vd_mem d"
  "vd_stopped (set_state vq st d) = vd_stopped d" "vd_active (set_state vq st d) = vd_active d"
  "vd_reports (set_state vq st d) = vd_reports d" "vd_heap (set_state vq st d) = vd_heap d"
  "vd_suspended (set_state vq st d) = vd_suspended d" "vd_settled (set_state vq st d) = vd_settled d"
  "vd_phase (set_state vq st d) = vd_phase d" "vd_next (set_state vq st d) = vd_next d"
  "vd_log (set_state vq st d) = vd_log d"
  by (simp_all add: set_state_def)

lemma emit_frame [simp]:
  "vd_queues (emit out d) = vd_queues d" "vd_views (emit out d) = vd_views d" "vd_hooks (emit out d) = vd_hooks d"
  "vd_stopped (emit out d) = vd_stopped d" "vd_active (emit out d) = vd_active d"
  "vd_reports (emit out d) = vd_reports d" "vd_heap (emit out d) = vd_heap d"
  "vd_suspended (emit out d) = vd_suspended d" "vd_settled (emit out d) = vd_settled d"
  "vd_phase (emit out d) = vd_phase d" "vd_next (emit out d) = vd_next d"
  "vd_log (emit out d) = vd_log d @ [out]" "state_of (emit out d) = state_of d"
  by (simp_all add: emit_def)

lemma report_frame [simp]:
  "vd_queues (report e d) = vd_queues d" "vd_hooks (report e d) = vd_hooks d" "vd_stopped (report e d) = vd_stopped d"
  "vd_active (report e d) = vd_active d" "vd_reports (report e d) = vd_reports d"
  "vd_heap (report e d) = vd_heap d" "vd_suspended (report e d) = vd_suspended d"
  "vd_settled (report e d) = vd_settled d" "vd_phase (report e d) = vd_phase d"
  "vd_next (report e d) = vd_next d" "state_of (report e d) = state_of d"
  "vd_log (report e d) = (if vd_reports d then vd_log d @ [OutError e] else vd_log d)"
  by (simp_all add: report_def)

text \<open>The parts of the state that configuration leaves alone.\<close>

definition same_core :: "virtio_device \<Rightarrow> virtio_device \<Rightarrow> bool" where
  "same_core d d' \<longleftrightarrow> vd_states d' = vd_states d \<and> vd_heap d' = vd_heap d \<and> vd_stopped d' = vd_stopped d \<and>
     vd_active d' = vd_active d \<and> vd_suspended d' = vd_suspended d \<and> vd_settled d' = vd_settled d \<and>
     vd_phase d' = vd_phase d \<and> vd_next d' = vd_next d \<and> vd_reports d' = vd_reports d \<and>
     vd_queues d' = vd_queues d \<and>
     (\<exists>outs. vd_log d' = vd_log d @ outs \<and> (\<forall>out \<in> set outs. \<exists>irq c b. out = OutIrq irq \<or> out = OutConfig irq c b))"

lemma update_config_core: "same_core d (update_config d)"
  by (auto simp: same_core_def update_config_def raise_config_def write_config_def emit_def split: option.splits)

lemma same_core_trans: "same_core d d1 \<Longrightarrow> same_core d1 d2 \<Longrightarrow> same_core d d2"
  by (auto simp: same_core_def)

lemma setup_config_core: "same_core d (fst (setup_config irq a n d))"
proof -
  have w: "same_core d (write_config at d)" for at
    by (auto simp: same_core_def write_config_def split: option.splits)
  have c: "same_core d (emit (OutConfig irq bs b) d1)" if "same_core d d1" for d1 bs b
    using that by (auto simp: same_core_def emit_def)
  have u: "same_core d (update_config (d1\<lparr>vd_config_pending := False\<rparr>))" if "same_core d d1" for d1
    by (rule same_core_trans [OF _ update_config_core]) (use that in \<open>simp add: same_core_def\<close>)
  have r: "same_core d d" by (simp add: same_core_def)
  show ?thesis by (simp add: setup_config_def Let_def w c u r)
qed

lemma same_core_state: "same_core d d' \<Longrightarrow> state_of d' = state_of d"
  by (simp add: same_core_def state_of_def known_state_def fun_eq_iff)

section \<open>Stale queues\<close>

text \<open>
  A queue object that can still act is the current one of its slot, and every slot refers to an
  object made for it.
\<close>

definition queues_inv :: "virtio_device \<Rightarrow> bool" where
  "queues_inv d \<longleftrightarrow>
     (\<forall>g < length (vd_heap d). q_valid (qo_virtq (vd_heap d ! g)) \<longrightarrow>
        qs_queue (state_of d (qo_vq (vd_heap d ! g))) = Some g) \<and>
     (\<forall>vq g. qs_queue (state_of d vq) = Some g \<longrightarrow> g < length (vd_heap d) \<and> qo_vq (vd_heap d ! g) = vq)"

text \<open>What \<open>drain\<close> may do to the state of a queue: its flags, never its queue.\<close>

definition same_refs :: "virtio_device \<Rightarrow> virtio_device \<Rightarrow> bool" where
  "same_refs d d' \<longleftrightarrow> vd_heap d' = vd_heap d \<and> (\<forall>vq. qs_queue (state_of d' vq) = qs_queue (state_of d vq))"

lemma same_refs_inv: "same_refs d d' \<Longrightarrow> queues_inv d \<Longrightarrow> queues_inv d'"
  by (simp add: same_refs_def queues_inv_def)

lemma drain_turn_refs: "same_refs d (drain_turn vq g d)"
  by (simp add: same_refs_def drain_turn_def Let_def drain_end_def suspend_def start_kick_def)

lemma drain_refs: "same_refs d (drain vq d)"
proof -
  have "same_refs d (drain_turn vq g (set_state vq ((state_of d vq)\<lparr>qs_notifying := True\<rparr>) d))" for g
    using drain_turn_refs [of "set_state vq ((state_of d vq)\<lparr>qs_notifying := True\<rparr>) d" vq g]
    by (simp add: same_refs_def)
  then show ?thesis by (simp add: drain_def Let_def split: option.split) (simp add: same_refs_def)
qed

lemma drain_resume_refs: "same_refs d (drain_resume vq w r d)"
proof -
  have "same_refs d (drain_turn vq g (d\<lparr>vd_suspended := s\<rparr>))" for g s
    using drain_turn_refs [of "d\<lparr>vd_suspended := s\<rparr>" vq g] by (simp add: same_refs_def)
  then show ?thesis
    by (auto simp: drain_resume_def Let_def split: option.splits) (simp_all add: same_refs_def drain_end_def)
qed

lemma invalidate_ref_length [simp]: "length (invalidate_ref r h) = length h"
  by (cases "(r, h)" rule: invalidate_ref.cases) simp_all

lemma invalidate_ref_nth:
  "g < length h \<Longrightarrow> qo_vq (invalidate_ref r h ! g) = qo_vq (h ! g) \<and>
     (q_valid (qo_virtq (invalidate_ref r h ! g)) \<longleftrightarrow> q_valid (qo_virtq (h ! g)) \<and> r \<noteq> Some g)"
  by (cases "(r, h)" rule: invalidate_ref.cases) (auto simp: nth_list_update invalidate_def)

lemma invalidate_all_length [simp]: "length (invalidate_all sts h) = length h"
  unfolding invalidate_all_def by (induction sts arbitrary: h) (simp_all split: option.split)

lemma invalidate_all_nth:
  "g < length h \<Longrightarrow> qo_vq (invalidate_all sts h ! g) = qo_vq (h ! g) \<and>
     (q_valid (qo_virtq (invalidate_all sts h ! g)) \<longleftrightarrow>
        q_valid (qo_virtq (h ! g)) \<and> (\<forall>st. Some st \<in> set sts \<longrightarrow> qs_queue st \<noteq> Some g))"
proof (induction sts arbitrary: h)
  case Nil
  then show ?case by (simp add: invalidate_all_def)
next
  case (Cons st sts)
  show ?case
  proof (cases st)
    case None
    with Cons show ?thesis by (auto simp: invalidate_all_def)
  next
    case (Some s)
    then have "invalidate_all (st # sts) h = invalidate_all sts (invalidate_ref (qs_queue s) h)"
      by (simp add: invalidate_all_def)
    with Cons.IH [of "invalidate_ref (qs_queue s) h"] Cons.prems invalidate_ref_nth [OF Cons.prems]
    show ?thesis using Some by auto
  qed
qed

lemma state_of_listed:
  assumes "qs_queue (state_of d vq) = Some g"
  shows "\<exists>st. Some st \<in> set (vd_states d) \<and> qs_queue st = Some g"
proof (cases "vq < length (vd_states d)")
  case True
  with assms nth_mem [OF True] show ?thesis
    by (cases "vd_states d ! vq") (auto simp: state_of_def known_state_def idle_state_def)
next
  case False
  with assms show ?thesis by (simp add: state_of_def known_state_def idle_state_def)
qed

lemma reset_queue_None [simp]: "qs_queue (state_of (fst (guest_reset d)) vq) = None"
  by (auto simp: guest_reset_def Let_def state_of_def known_state_def emit_def clear_state_def idle_state_def
      split: option.splits)

lemma guest_reset_queues_inv: "queues_inv d \<Longrightarrow> queues_inv (fst (guest_reset d))"
proof -
  assume inv: "queues_inv d"
  have heap: "vd_heap (fst (guest_reset d)) = invalidate_all (vd_states d) (vd_heap d)"
    by (simp add: guest_reset_def Let_def)
  have "\<not> q_valid (qo_virtq (invalidate_all (vd_states d) (vd_heap d) ! g))" if "g < length (vd_heap d)" for g
    using invalidate_all_nth [OF that, of "vd_states d"] inv that state_of_listed
    unfolding queues_inv_def by blast
  then show ?thesis by (simp add: queues_inv_def heap)
qed

lemma retire_queue_frame [simp]:
  "vd_suspended (retire_queue vq d) = vd_suspended d" "vd_log (retire_queue vq d) = vd_log d"
  "vd_active (retire_queue vq d) = vd_active d" "vd_next (retire_queue vq d) = vd_next d"
  "vd_settled (retire_queue vq d) = vd_settled d" "vd_stopped (retire_queue vq d) = vd_stopped d"
  "vd_phase (retire_queue vq d) = vd_phase d" "vd_reports (retire_queue vq d) = vd_reports d"
  "state_of (retire_queue vq d) v = state_of d v"
  by (simp_all add: retire_queue_def)

lemma install_queue_frame [simp]:
  "vd_suspended (install_queue vq irq q d) = vd_suspended d" "vd_log (install_queue vq irq q d) = vd_log d"
  "vd_active (install_queue vq irq q d) = vd_active d" "vd_next (install_queue vq irq q d) = vd_next d"
  "vd_settled (install_queue vq irq q d) = vd_settled d" "vd_stopped (install_queue vq irq q d) = vd_stopped d"
  "vd_phase (install_queue vq irq q d) = vd_phase d" "vd_reports (install_queue vq irq q d) = vd_reports d"
  "state_of (install_queue vq irq q d) v =
     (if v = vq then (state_of d vq)\<lparr>qs_queue := Some (length (vd_heap d))\<rparr> else state_of d v)"
  by (simp_all add: install_queue_def)

lemma retire_queue_inv:
  assumes "queues_inv d"
  shows "queues_inv (retire_queue vq d)"
    and "g < length (vd_heap d) \<Longrightarrow> q_valid (qo_virtq (vd_heap (retire_queue vq d) ! g)) \<Longrightarrow>
      qo_vq (vd_heap (retire_queue vq d) ! g) \<noteq> vq"
  using assms by (auto simp: queues_inv_def retire_queue_def invalidate_ref_nth)

lemma enable_queue_queues_inv:
  assumes "queues_inv d"
  shows "queues_inv (fst (enable_queue vq n a irq d))"
proof -
  let ?r = "retire_queue vq d"
  have len: "length (vd_heap ?r) = length (vd_heap d)" by (simp add: retire_queue_def)
  have "queues_inv (install_queue vq irq q ?r)" for q
  proof -
    let ?obj = "\<lparr>qo_virtq = q, qo_vq = vq, qo_irq = irq, qo_armed = False\<rparr>"
    have h: "vd_heap (install_queue vq irq q ?r) = vd_heap ?r @ [?obj]" by (simp add: install_queue_def)
    have "qs_queue (state_of d (qo_vq (vd_heap ?r ! g))) = Some g \<and> qo_vq (vd_heap ?r ! g) \<noteq> vq"
      if "g < length (vd_heap d)" "q_valid (qo_virtq (vd_heap ?r ! g))" for g
      using retire_queue_inv(1) [OF assms, of vq] retire_queue_inv(2) [OF assms that] that len
      by (auto simp: queues_inv_def)
    moreover have "g < length (vd_heap d) \<and> qo_vq (vd_heap ?r ! g) = v" if "qs_queue (state_of d v) = Some g" for g v
      using retire_queue_inv(1) [OF assms, of vq] that len by (auto simp: queues_inv_def)
    ultimately show ?thesis by (fastforce simp: queues_inv_def h len nth_append less_Suc_eq)
  qed
  then show ?thesis
    using retire_queue_inv(1) [OF assms, of vq] same_refs_inv [OF drain_refs]
    by (auto simp: enable_queue_def Let_def split: sum.split)
qed

lemma disable_queue_queues_inv:
  assumes "queues_inv d"
  shows "queues_inv (disable_queue vq d)"
proof (cases "known_state d vq")
  case None
  with assms show ?thesis by (simp add: disable_queue_def)
next
  case (Some st)
  then have "state_of d vq = st" by (simp add: state_of_def)
  with Some assms show ?thesis
    by (auto simp: disable_queue_def queues_inv_def clear_state_def invalidate_ref_nth)
qed

lemma notify_queues_inv:
  assumes "queues_inv d"
  shows "queues_inv (notify vq d)"
proof -
  have "queues_inv (set_state vq ((state_of d vq)\<lparr>qs_pending := True\<rparr>) d)"
    using assms by (rule same_refs_inv [rotated]) (simp add: same_refs_def)
  then show ?thesis unfolding notify_def by (rule same_refs_inv [OF drain_refs])
qed

text \<open>Taking and releasing chains move cursors and never revive a queue.\<close>

lemma advance_valid: "q_valid (fst (advance mem q)) = q_valid q"
  by (simp add: advance_def Let_def split: sum.split)

lemma collect_next_valid:
  assumes "collect_next mem q ds = Some y"
  shows "q_valid (fst y) = q_valid q"
proof (rule collect_next.raw_induct [where P = "\<lambda>mem q ds y. q_valid (fst y) = q_valid q", OF _ assms])
  fix f mem q ds y
  assume IH: "\<And>mem q ds y. f mem q ds = Some y \<Longrightarrow> q_valid (fst y) = q_valid q"
    and y: "(case advance mem q of
       (q1, Inl e) \<Rightarrow> Some (q1, Inl e)
     | (q1, Inr None) \<Rightarrow> Some (q1, Inl (Error ''no next descriptor is available''))
     | (q1, Inr (Some i)) \<Rightarrow> (case queue_descriptor mem q1 i of
           Inl e \<Rightarrow> Some (q1, Inl e)
         | Inr d \<Rightarrow> if has_flag (d_flags d) DF_NEXT then f mem q1 (ds @ [d])
                   else Some (q1, Inr (ds @ [d])))) = Some y"
  then show "q_valid (fst y) = q_valid q"
    using advance_valid [of mem q]
    by (auto split: prod.splits sum.splits option.splits if_splits dest: IH)
qed

lemma chain_descriptors_valid: "chain_descriptors mem q d = Some y \<Longrightarrow> q_valid (fst y) = q_valid q"
  by (auto simp: chain_descriptors_def split: if_splits dest: collect_next_valid)

lemma iterate_next_valid:
  assumes "iterate_next mem q current = Some y"
  shows "q_valid (fst y) = q_valid q"
proof -
  have "q_valid (fst y) = q_valid q" if "pop mem q current = Some y"
    using that advance_valid [of mem q]
    by (auto simp: pop_def split: prod.splits sum.splits option.splits dest: chain_descriptors_valid)
  with assms show ?thesis by (auto simp: iterate_next_def split: if_splits)
qed

lemma release_valid: "q_valid (fst (release mem q current cid skip written outs)) = q_valid q"
  by (simp add: release_def Let_def split: sum.split)

text \<open>
  A queue that can be revoked, as the device uses it: a revoked queue yields nothing and completes
  nothing, and no operation revives one.
\<close>

locale revocable_queue =
  fixes take_next :: "'m \<Rightarrow> 'q \<Rightarrow> bool \<Rightarrow> ('q \<times> 'c option result) option"
    and complete :: "'m \<Rightarrow> 'q \<Rightarrow> bool \<Rightarrow> 'c \<Rightarrow> nat \<Rightarrow> 'q \<times> 'o option result"
    and revoke :: "'q \<Rightarrow> 'q"
    and live :: "'q \<Rightarrow> bool"
  assumes revoke_live: "\<not> live (revoke q)"
    and take_live: "take_next m q current = Some (q', r) \<Longrightarrow> live q' = live q"
    and complete_live: "live (fst (complete m q current ch n)) = live q"
    and dead_take: "\<not> live q \<or> \<not> current \<Longrightarrow> take_next m q current = Some (q, Inr None)"
    and dead_complete: "\<not> live q \<or> \<not> current \<Longrightarrow> complete m q current ch n = (q, Inr None)"
begin

inductive used_by_device :: "'q \<Rightarrow> 'q \<Rightarrow> bool" where
  none: "used_by_device q q"
| take_more: "used_by_device q q1 \<Longrightarrow> take_next m q1 current = Some (q2, r) \<Longrightarrow> used_by_device q q2"
| complete_more: "used_by_device q q1 \<Longrightarrow> complete m q1 current ch n = (q2, r) \<Longrightarrow> used_by_device q q2"

lemma used_live: "used_by_device q q' \<Longrightarrow> live q' = live q"
proof (induction rule: used_by_device.induct)
  case (complete_more q q1 m current ch n q2 r)
  then show ?case using complete_live [of m q1 current ch n] by simp
qed (simp_all add: take_live)

lemma revoked_inert:
  assumes "used_by_device (revoke q) q'"
  shows "q' = revoke q" and "take_next m q' current = Some (q', Inr None)"
    and "complete m q' current ch n = (q', Inr None)"
proof -
  have dead: "\<not> live q'" using used_live [OF assms] by (simp add: revoke_live)
  from dead show "take_next m q' current = Some (q', Inr None)" by (simp add: dead_take)
  from dead show "complete m q' current ch n = (q', Inr None)" by (simp add: dead_complete)
  from assms show "q' = revoke q"
    by (induction "revoke q" q' rule: used_by_device.induct) (auto simp: dead_take dead_complete revoke_live)
qed

end

interpretation packed_queue: revocable_queue iterate_next release_chain invalidate q_valid
proof unfold_locales
  show "q_valid q' = q_valid q" if "iterate_next m q current = Some (q', r)" for m q current q' r
    using iterate_next_valid [OF that] by simp
  show "q_valid (fst (release_chain m q current ch n)) = q_valid q" for m q current ch n
    by (simp add: release_chain_def release_valid)
qed (auto simp: invalidate_def release_chain_def iterate_next_def release_def)

lemma set_virtq_queues_inv:
  "queues_inv d \<Longrightarrow> g < length (vd_heap d) \<Longrightarrow> q_valid q = q_valid (qo_virtq (vd_heap d ! g)) \<Longrightarrow>
     queues_inv (set_virtq g q d)"
  by (auto simp: queues_inv_def set_virtq_def nth_list_update)

lemma set_armed_queues_inv: "queues_inv d \<Longrightarrow> g < length (vd_heap d) \<Longrightarrow> queues_inv (set_armed g b d)"
  by (auto simp: queues_inv_def set_armed_def nth_list_update)

lemma publish_queues_inv:
  assumes "queues_inv d" and "g < length (vd_heap d)"
  shows "queues_inv (fst (publish g c d))"
proof -
  have "queues_inv (d\<lparr>vd_mem := m\<rparr>)" "queues_inv (emit out d)" for m out
    using assms(1) by (simp_all add: queues_inv_def)
  then show ?thesis
    using assms by (auto simp: publish_def intro!: set_armed_queues_inv split: sum.split)
qed

lemma complete_chain_queues_inv:
  assumes "queues_inv d" and "g < length (vd_heap d)"
  shows "queues_inv (fst (complete_chain g hook ch n d))"
proof -
  let ?q = "qo_virtq (vd_heap d ! g)"
  obtain q r where r: "release_chain (vd_mem d) ?q (is_current d g hook) ch n = (q, r)" by fastforce
  with packed_queue.complete_live [of "vd_mem d" ?q "is_current d g hook" ch n] have "q_valid q = q_valid ?q" by simp
  with assms have "queues_inv (set_virtq g q d)" by (simp add: set_virtq_queues_inv)
  moreover from this have "queues_inv (fst (publish g c (set_virtq g q d)))" for c
    by (rule publish_queues_inv) (use assms(2) in \<open>simp add: set_virtq_def\<close>)
  ultimately show ?thesis using r by (auto simp: complete_chain_def split: sum.split option.split)
qed

lemma irq_task_queues_inv:
  assumes "queues_inv d" and "g < length (vd_heap d)"
  shows "queues_inv (irq_task g d)"
proof -
  have "queues_inv (emit out d)" if "queues_inv d" for out d
    using that by (simp add: queues_inv_def)
  with set_armed_queues_inv [OF assms] show ?thesis by (simp add: irq_task_def Let_def)
qed

lemma shutdown_turn_frame [simp]:
  "vd_suspended (shutdown_turn f d) = vd_suspended d" "state_of (shutdown_turn f d) = state_of d"
  "vd_active (shutdown_turn f d) = vd_active d" "vd_next (shutdown_turn f d) = vd_next d"
  "vd_settled (shutdown_turn f d) = vd_settled d" "vd_stopped (shutdown_turn f d) = vd_stopped d"
  "vd_reports (shutdown_turn f d) = vd_reports d" "vd_heap (shutdown_turn f d) = vd_heap d"
  by (simp_all add: shutdown_turn_def)

lemma shutdown_frame [simp]:
  "vd_suspended (shutdown f d) = vd_suspended d" "state_of (shutdown f d) = state_of d"
  "vd_active (shutdown f d) = vd_active d" "vd_next (shutdown f d) = vd_next d"
  "vd_settled (shutdown f d) = vd_settled d" "vd_stopped (shutdown f d)"
  "vd_reports (shutdown f d) = vd_reports d" "vd_heap (shutdown f d) = vd_heap d"
  by (simp_all add: shutdown_def)

lemma shutdown_refs: "same_refs d (shutdown f d)" "same_refs d (shutdown_resume ws f d)"
    "same_refs d (close_settled f r d)"
  by (simp_all add: same_refs_def shutdown_resume_def close_settled_def)

lemma device_step_queues_inv:
  assumes "device_step e d = Some d'" and "queues_inv d"
  shows "queues_inv d'"
proof -
  have core: "queues_inv d2" if "same_core d1 d2" "queues_inv d1" for d1 d2
    using that(2) by (rule same_refs_inv [rotated])
      (use that(1) same_core_state [OF that(1)] in \<open>simp add: same_refs_def same_core_def\<close>)
  show ?thesis
  proof (cases "(e, d)" rule: device_step.cases)
    case (1 vq) with assms show ?thesis by (auto simp: notify_queues_inv)
  next
    case (2 vq n a irq) with assms show ?thesis by (auto simp: enable_queue_queues_inv)
  next
    case (3 vq) with assms show ?thesis by (auto simp: disable_queue_queues_inv)
  next
    case 4 with assms show ?thesis by (auto simp: guest_reset_queues_inv)
  next
    case (5 irq a n) with assms core [OF setup_config_core] show ?thesis by auto
  next
    case (6 f) with assms show ?thesis by (auto simp: set_features_def)
  next
    case (7 cfg)
    with assms have "queues_inv (d\<lparr>vd_config := cfg\<rparr>)" by (auto simp: queues_inv_def)
    with 7 assms core [OF update_config_core] show ?thesis by auto
  next
    case 8 with assms show ?thesis by (auto simp: spawn_def queues_inv_def)
  next
    case (9 w r)
    with assms show ?thesis
      by (auto simp: settle_def queues_inv_def Let_def split: work.splits option.splits)
  next
    case (10 vq w)
    with assms same_refs_inv [OF drain_resume_refs] show ?thesis by (auto split: if_splits)
  next
    case (11 g hook)
    with assms show ?thesis
      by (auto simp: take_chain_def split: if_splits dest!: iterate_next_valid intro!: set_virtq_queues_inv)
  next
    case (12 g hook ch n) with assms show ?thesis by (auto simp: complete_chain_queues_inv)
  next
    case (13 g) with assms show ?thesis by (auto simp: irq_task_queues_inv)
  next
    case (14 f) with assms same_refs_inv [OF shutdown_refs(1)] show ?thesis by auto
  next
    case 15
    with assms same_refs_inv [OF shutdown_refs(2)] show ?thesis by (auto split: shutdown_phase.splits)
  next
    case (16 r)
    with assms same_refs_inv [OF shutdown_refs(3)] show ?thesis by (auto split: shutdown_phase.splits)
  next
    case (17 mem) with assms show ?thesis by (auto simp: queues_inv_def)
  qed
qed

lemma attached_start:
  "attach hooks (new_device queues features config views mem) = (d, Inr ()) \<Longrightarrow>
     vd_states d = [] \<and> vd_heap d = [] \<and> vd_suspended d = [] \<and> vd_active d = [] \<and> vd_settled d = [] \<and>
     vd_log d = [] \<and> vd_phase d = Running \<and> \<not> vd_stopped d \<and> vd_reports d"
  by (auto simp: attach_def new_device_def)

lemma fresh_states: "vd_states d = [] \<Longrightarrow> state_of d vq = idle_state"
  by (simp add: state_of_def known_state_def)

lemma reachable_queues_inv: "reachable d \<Longrightarrow> queues_inv d"
proof (induction rule: reachable.induct)
  case attached
  from attached_start [OF this] show ?case by (simp add: queues_inv_def fresh_states idle_state_def)
qed (rule device_step_queues_inv)

text \<open>A queue that has lost its slot never gets one again: new queues are new objects.\<close>

definition stale :: "virtio_device \<Rightarrow> nat \<Rightarrow> bool" where
  "stale d g \<longleftrightarrow> g < length (vd_heap d) \<and> qs_queue (state_of d (qo_vq (vd_heap d ! g))) \<noteq> Some g"

definition refs_shrink :: "virtio_device \<Rightarrow> virtio_device \<Rightarrow> bool" where
  "refs_shrink d d' \<longleftrightarrow> length (vd_heap d) \<le> length (vd_heap d') \<and>
     (\<forall>g < length (vd_heap d). qo_vq (vd_heap d' ! g) = qo_vq (vd_heap d ! g) \<and>
        (\<forall>vq. qs_queue (state_of d' vq) = Some g \<longrightarrow> qs_queue (state_of d vq) = Some g))"

lemma stale_shrink: "refs_shrink d d' \<Longrightarrow> stale d g \<Longrightarrow> stale d' g"
  by (auto simp: refs_shrink_def stale_def)

lemma refs_shrink_trans: "refs_shrink d d1 \<Longrightarrow> refs_shrink d1 d2 \<Longrightarrow> refs_shrink d d2"
  by (fastforce simp: refs_shrink_def)

lemma same_refs_shrink: "same_refs d d' \<Longrightarrow> refs_shrink d d'"
  by (simp add: same_refs_def refs_shrink_def)

lemma same_refs_set_state: "qs_queue st = qs_queue (state_of d vq) \<Longrightarrow> same_refs d (set_state vq st d)"
  by (auto simp: same_refs_def)

lemma heap_update_shrink:
  "qo_vq obj = qo_vq (vd_heap d ! g) \<Longrightarrow> refs_shrink d (d\<lparr>vd_heap := (vd_heap d)[g := obj]\<rparr>)"
  by (cases "g < length (vd_heap d)") (auto simp: refs_shrink_def nth_list_update)

lemma enable_queue_shrink: "refs_shrink d (fst (enable_queue vq n a irq d))"
proof -
  have r: "refs_shrink d (retire_queue vq d)" "length (vd_heap (retire_queue vq d)) = length (vd_heap d)"
    by (simp_all add: refs_shrink_def) (auto simp: retire_queue_def invalidate_ref_nth)
  have "refs_shrink (retire_queue vq d) (install_queue vq irq q (retire_queue vq d))" for q
    by (auto simp: refs_shrink_def) (auto simp: install_queue_def nth_append)
  note i = refs_shrink_trans [OF r(1) this]
  with refs_shrink_trans [OF i same_refs_shrink [OF drain_refs]] r(1) show ?thesis
    by (auto simp: enable_queue_def Let_def split: sum.split)
qed

lemma transfer_refs:
  "refs_shrink d (fst (complete_chain g hook ch n d))" "refs_shrink d (irq_task g d)"
  "take_chain g hook d = Some y \<Longrightarrow> refs_shrink d (fst y)"
proof -
  have v: "refs_shrink d (set_virtq g q d)" "refs_shrink d (set_armed g b d)" for q b d
    unfolding set_virtq_def set_armed_def by (rule heap_update_shrink, simp)+
  have e: "same_refs d (emit out d)" "same_refs d (d\<lparr>vd_mem := m\<rparr>)" for out d m by (simp_all add: same_refs_def)
  note e = e [THEN same_refs_shrink]
  have "refs_shrink d (fst (publish g c d))" for c d
    using e refs_shrink_trans [OF e(2) v(2)] by (auto simp: publish_def refs_shrink_def split: sum.split)
  note refs_shrink_trans [OF v(1) this]
  with v show "refs_shrink d (fst (complete_chain g hook ch n d))"
    by (auto simp: complete_chain_def split: prod.split sum.split option.split)
  show "refs_shrink d (irq_task g d)"
    using v(2) refs_shrink_trans [OF v(2) e(1)] by (simp add: irq_task_def Let_def)
  show "take_chain g hook d = Some y \<Longrightarrow> refs_shrink d (fst y)"
    using v(1) by (auto simp: take_chain_def)
qed

lemma disable_queue_shrink: "refs_shrink d (disable_queue vq d)"
  by (auto simp: refs_shrink_def disable_queue_def clear_state_def invalidate_ref_nth split: option.split if_splits)

lemma device_step_shrink:
  assumes "device_step e d = Some d'"
  shows "refs_shrink d d'"
proof (cases "(\<exists>g hook. e = TakeChain g hook) \<or> (\<exists>g hook ch n. e = CompleteChain g hook ch n) \<or>
    (\<exists>g. e = IrqTask g) \<or> (\<exists>vq. e = DisableQueue vq) \<or> (\<exists>vq n a irq. e = EnableQueue vq n a irq) \<or> e = GuestReset")
  case True
  have "refs_shrink d (fst (guest_reset d))"
    by (simp add: refs_shrink_def) (simp add: guest_reset_def Let_def invalidate_all_nth)
  moreover have tk: "refs_shrink d d1" if "take_chain g hook d = Some (d1, r)" for g hook d1 r
    using transfer_refs(3) [OF that] by simp
  ultimately show ?thesis
    using True assms
    by (auto simp: transfer_refs(1,2) disable_queue_shrink enable_queue_shrink split: if_splits
        intro: tk)
next
  case False
  have core: "same_refs d d1" if "same_core d d1" for d1
    using that same_core_state [OF that] by (simp add: same_refs_def same_core_def)
  have misc: "same_refs d (spawn d)" "same_refs d (settle w r d)" "same_refs d (d\<lparr>vd_mem := m\<rparr>)"
    "same_refs d (update_config (d\<lparr>vd_config := cfg\<rparr>))" for w r m cfg
    using same_core_state [OF update_config_core, of "d\<lparr>vd_config := cfg\<rparr>"] update_config_core [of "d\<lparr>vd_config := cfg\<rparr>"]
    by (simp_all add: same_refs_def spawn_def settle_def Let_def same_core_def split: work.split option.split)
  have note': "same_refs d (notify vq d)" for vq
    using drain_refs [of "set_state vq ((state_of d vq)\<lparr>qs_pending := True\<rparr>) d" vq]
    by (auto simp: notify_def same_refs_def)
  have same: "refs_shrink d1 d1" for d1 by (simp add: refs_shrink_def)
  note all = misc note' drain_resume_refs shutdown_refs core [OF setup_config_core]
  from False assms show ?thesis
    by (cases e) (auto simp: all [THEN same_refs_shrink] same set_features_def split: if_splits shutdown_phase.splits)
qed

lemma device_run_stale: "device_run es d = Some d' \<Longrightarrow> stale d g \<Longrightarrow> stale d' g"
  by (induction es arbitrary: d) (auto split: bind_splits dest: stale_shrink [OF device_step_shrink])

section \<open>Kicks run one at a time\<close>

text \<open>
  A queue is marked as notifying exactly while its \<open>drain\<close> is suspended, and at most one is.
\<close>

definition drains_inv :: "virtio_device \<Rightarrow> bool" where
  "drains_inv d \<longleftrightarrow> distinct (map fst (vd_suspended d)) \<and>
     (\<forall>vq. qs_notifying (state_of d vq) \<longleftrightarrow> vq \<in> fst ` set (vd_suspended d))"

text \<open>The same inside a running \<open>drain\<close> of one queue.\<close>

definition draining :: "nat \<Rightarrow> virtio_device \<Rightarrow> bool" where
  "draining vq d \<longleftrightarrow> distinct (map fst (vd_suspended d)) \<and> vq \<notin> fst ` set (vd_suspended d) \<and>
     (\<forall>vq'. qs_notifying (state_of d vq') \<longleftrightarrow> vq' = vq \<or> vq' \<in> fst ` set (vd_suspended d))"

lemma drain_end_drains: "draining vq d \<Longrightarrow> drains_inv (drain_end vq d)"
  by (auto simp: draining_def drains_inv_def drain_end_def)

lemma draining_report: "draining vq (report e d) = draining vq d"
  by (simp add: draining_def)

lemma draining_set_state:
  "draining vq d \<Longrightarrow> qs_notifying st = qs_notifying (state_of d vq) \<Longrightarrow> draining vq (set_state vq st d)"
  by (auto simp: draining_def)

lemma suspend_drains: "draining vq d \<Longrightarrow> drains_inv (suspend vq w d)"
  by (auto simp: draining_def drains_inv_def suspend_def)

lemma start_kick_drains: "draining vq d \<Longrightarrow> drains_inv (start_kick vq g d)"
  unfolding start_kick_def Let_def by (rule suspend_drains) (simp add: draining_def)

lemma drain_turn_drains: "draining vq d \<Longrightarrow> drains_inv (drain_turn vq g d)"
  using draining_set_state [of vq d "(state_of d vq)\<lparr>qs_pending := False\<rparr>"]
  by (simp add: drain_turn_def Let_def suspend_drains start_kick_drains drain_end_drains draining_report)

lemma drain_drains:
  assumes "drains_inv d"
  shows "drains_inv (drain vq d)"
proof -
  have "drains_inv (set_state vq (state_of d vq) d)" using assms by (auto simp: drains_inv_def)
  moreover have "draining vq (set_state vq ((state_of d vq)\<lparr>qs_notifying := True\<rparr>) d)"
    if "\<not> qs_notifying (state_of d vq)"
    using assms that by (auto simp: drains_inv_def draining_def)
  ultimately show ?thesis by (simp add: drain_def Let_def drain_turn_drains split: option.split)
qed

lemma draining_remove:
  assumes "drains_inv d" and "(vq, w) \<in> set (vd_suspended d)"
  shows "draining vq (d\<lparr>vd_suspended := remove1 (vq, w) (vd_suspended d)\<rparr>)"
proof -
  let ?s = "vd_suspended d"
  have dist: "distinct (map fst ?s)" using assms(1) by (simp add: drains_inv_def)
  then have dist': "distinct ?s" by (simp add: distinct_map)
  have rest: "set (remove1 (vq, w) ?s) = set ?s - {(vq, w)}" using dist' by (rule set_remove1_eq)
  have only: "w' = w" if "(vq, w') \<in> set ?s" for w'
    using dist that assms(2) by (rule eq_key_imp_eq_value)
  have "fst ` set (remove1 (vq, w) ?s) = fst ` set ?s - {vq}"
    unfolding rest using only by force
  moreover have "inj_on fst (set (remove1 (vq, w) ?s))"
    by (rule inj_on_subset [OF _ set_remove1_subset]) (use dist in \<open>simp add: distinct_map\<close>)
  then have "distinct (map fst (remove1 (vq, w) ?s))" using dist' by (simp add: distinct_map)
  moreover have "vq \<in> fst ` set ?s" using assms(2) by force
  ultimately show ?thesis using assms by (auto simp: draining_def drains_inv_def)
qed

lemma drain_resume_drains:
  assumes "drains_inv d" and "(vq, w) \<in> set (vd_suspended d)"
  shows "drains_inv (drain_resume vq w r d)"
  using draining_remove [OF assms]
  by (auto simp: drain_resume_def Let_def drain_turn_drains drain_end_drains draining_report split: option.split)

text \<open>The operations that leave \<open>drain\<close> alone.\<close>

definition drain_frame :: "virtio_device \<Rightarrow> virtio_device \<Rightarrow> bool" where
  "drain_frame d d' \<longleftrightarrow> vd_suspended d' = vd_suspended d \<and>
     (\<forall>vq. qs_notifying (state_of d' vq) = qs_notifying (state_of d vq))"

lemma drain_frame_inv: "drain_frame d d' \<Longrightarrow> drains_inv d \<Longrightarrow> drains_inv d'"
  by (simp add: drain_frame_def drains_inv_def)

lemma same_core_drain_frame: "same_core d d' \<Longrightarrow> drain_frame d d'"
  using same_core_state [of d d'] by (simp add: drain_frame_def same_core_def)

lemma disable_queue_drain_frame: "drain_frame d (disable_queue vq d)"
  by (auto simp: drain_frame_def disable_queue_def clear_state_def state_of_def [of d] split: option.split)

lemma guest_reset_notifying: "qs_notifying (state_of (fst (guest_reset d)) vq) = qs_notifying (state_of d vq)"
  by (auto simp: guest_reset_def Let_def state_of_def known_state_def emit_def clear_state_def split: option.split)

lemma set_virtq_frame [simp]:
  "vd_suspended (set_virtq g q d) = vd_suspended d" "state_of (set_virtq g q d) = state_of d"
  "vd_log (set_virtq g q d) = vd_log d" "vd_active (set_virtq g q d) = vd_active d"
  "vd_next (set_virtq g q d) = vd_next d" "vd_settled (set_virtq g q d) = vd_settled d"
  "vd_stopped (set_virtq g q d) = vd_stopped d" "vd_phase (set_virtq g q d) = vd_phase d"
  "vd_reports (set_virtq g q d) = vd_reports d"
  by (simp_all add: set_virtq_def)

lemma set_armed_frame [simp]:
  "vd_suspended (set_armed g b d) = vd_suspended d" "state_of (set_armed g b d) = state_of d"
  "vd_log (set_armed g b d) = vd_log d" "vd_active (set_armed g b d) = vd_active d"
  "vd_next (set_armed g b d) = vd_next d" "vd_settled (set_armed g b d) = vd_settled d"
  "vd_stopped (set_armed g b d) = vd_stopped d" "vd_phase (set_armed g b d) = vd_phase d"
  "vd_reports (set_armed g b d) = vd_reports d"
  by (simp_all add: set_armed_def)

text \<open>
  What completions and interrupts do to the rest of the device: at most a publication or an
  interrupt is added to the log.
\<close>

definition transfer_frame :: "virtio_device \<Rightarrow> virtio_device \<Rightarrow> bool" where
  "transfer_frame d d' \<longleftrightarrow> vd_suspended d' = vd_suspended d \<and> state_of d' = state_of d \<and>
     vd_active d' = vd_active d \<and> vd_next d' = vd_next d \<and> vd_settled d' = vd_settled d \<and>
     vd_stopped d' = vd_stopped d \<and> vd_phase d' = vd_phase d \<and> vd_reports d' = vd_reports d \<and>
     (\<exists>outs. vd_log d' = vd_log d @ outs \<and> (\<forall>out \<in> set outs. \<exists>vq irq c cfg b.
        out = OutIrq irq \<or> out = OutPublish vq irq c \<or> out = OutConfig irq cfg b))"

lemma transfer_frame_trans: "transfer_frame d d1 \<Longrightarrow> transfer_frame d1 d2 \<Longrightarrow> transfer_frame d d2"
  by (auto simp: transfer_frame_def)

lemma same_core_transfer: "same_core d d' \<Longrightarrow> transfer_frame d d'"
  using same_core_state [of d d'] by (auto simp: transfer_frame_def same_core_def) blast+

lemma publish_transfer: "transfer_frame d (fst (publish g c d))"
  by (auto simp: transfer_frame_def publish_def split: sum.split)

lemma complete_chain_transfer: "transfer_frame d (fst (complete_chain g hook ch n d))"
proof -
  have q: "transfer_frame d (set_virtq g q d)" for q by (simp add: transfer_frame_def)
  with transfer_frame_trans [OF q publish_transfer] show ?thesis
    by (auto simp: complete_chain_def split: prod.split sum.split option.split)
qed

lemma irq_task_transfer: "transfer_frame d (irq_task g d)"
  by (auto simp: transfer_frame_def irq_task_def Let_def)

lemma take_chain_transfer: "take_chain g hook d = Some (d', r) \<Longrightarrow> transfer_frame d d'"
  by (auto simp: take_chain_def transfer_frame_def)

text \<open>The events that only transfer data: configuration, chains, interrupts, driver writes.\<close>

fun transfer_event :: "device_event \<Rightarrow> bool" where
  "transfer_event (SetupConfig _ _ _) = True"
| "transfer_event (SetFeatures _) = True"
| "transfer_event (UpdateConfig _) = True"
| "transfer_event (TakeChain _ _) = True"
| "transfer_event (CompleteChain _ _ _ _) = True"
| "transfer_event (IrqTask _) = True"
| "transfer_event (DriverWrites _) = True"
| "transfer_event _ = False"

lemma transfer_event_frame:
  assumes "device_step e d = Some d'" and "transfer_event e"
  shows "transfer_frame d d'"
proof (cases e)
  case (SetupConfig irq a n)
  with assms same_core_transfer [OF setup_config_core] show ?thesis by auto
next
  case (UpdateConfig cfg)
  have "transfer_frame d (d\<lparr>vd_config := cfg\<rparr>)" by (simp add: transfer_frame_def)
  from transfer_frame_trans [OF this same_core_transfer [OF update_config_core]] UpdateConfig assms
  show ?thesis by auto
next
  case (DriverWrites mem)
  with assms show ?thesis by (auto simp: transfer_frame_def)
next
  case (SetFeatures f)
  with assms show ?thesis by (auto simp: transfer_frame_def set_features_def)
next
  case (TakeChain g hook)
  with assms show ?thesis by (auto split: if_splits intro: take_chain_transfer)
qed (use assms in \<open>auto simp: complete_chain_transfer irq_task_transfer\<close>)

lemma transfer_drain_frame: "transfer_frame d d' \<Longrightarrow> drain_frame d d'"
  by (simp add: transfer_frame_def drain_frame_def)

lemma device_step_drains:
  assumes "device_step e d = Some d'" and "drains_inv d"
  shows "drains_inv d'"
proof (cases "transfer_event e")
  case True
  from transfer_drain_frame [OF transfer_event_frame [OF assms(1) this]] assms(2)
  show ?thesis by (rule drain_frame_inv)
next
  case False
  have frames: "drain_frame d (fst (guest_reset d))" "drain_frame d (spawn d)" "drain_frame d (settle w r d)"
    "drain_frame d (shutdown f d)" "drain_frame d (shutdown_resume ws f d)" "drain_frame d (close_settled f r d)"
    for w r f ws
    by (simp_all add: drain_frame_def guest_reset_notifying)
      (simp_all add: guest_reset_def Let_def spawn_def settle_def shutdown_resume_def close_settled_def
        split: work.split option.split)
  have pend: "drains_inv (set_state vq ((state_of d vq)\<lparr>qs_pending := b\<rparr>) d)" for vq b
    using assms(2) by (auto simp: drains_inv_def)
  have inst: "drains_inv (install_queue vq irq q (retire_queue vq d))" "drains_inv (retire_queue vq d)" for vq irq q
    using assms(2) by (auto simp: drains_inv_def)
  note keep = frames [THEN drain_frame_inv, OF assms(2)] drain_frame_inv [OF disable_queue_drain_frame assms(2)]
  from False assms show ?thesis
    by (cases e) (auto simp: notify_def enable_queue_def Let_def keep pend inst drain_drains drain_resume_drains
        split: sum.splits if_splits shutdown_phase.splits)
qed

lemma reachable_drains: "reachable d \<Longrightarrow> drains_inv d"
proof (induction rule: reachable.induct)
  case attached
  from attached_start [OF this] show ?case by (simp add: drains_inv_def fresh_states idle_state_def)
qed (rule device_step_drains)

text \<open>
  The promises: ids are fresh, active ones are not settled, a suspended \<open>drain\<close> awaits a known
  promise, and every kick in flight is awaited by the \<open>drain\<close> of its queue.
\<close>

primrec work_id :: "work \<Rightarrow> nat" where
  "work_id (KickWork n) = n"
| "work_id (SpawnWork n) = n"

definition works_inv :: "virtio_device \<Rightarrow> bool" where
  "works_inv d \<longleftrightarrow> distinct (vd_active d) \<and>
     (\<forall>w \<in> set (vd_active d). work_id w < vd_next d \<and> w \<notin> fst ` set (vd_settled d)) \<and>
     (\<forall>w \<in> fst ` set (vd_settled d). work_id w < vd_next d) \<and>
     (\<forall>vq w. (vq, Some w) \<in> set (vd_suspended d) \<longrightarrow> w \<in> set (vd_active d) \<union> fst ` set (vd_settled d)) \<and>
     (\<forall>vq g n. OutKick vq g n \<in> set (vd_log d) \<longrightarrow> n < vd_next d \<and>
        (KickWork n \<in> set (vd_active d) \<longrightarrow> (vq, Some (KickWork n)) \<in> set (vd_suspended d))) \<and>
     (\<forall>n. KickWork n \<in> set (vd_active d) \<longrightarrow> (\<exists>vq g. OutKick vq g n \<in> set (vd_log d)))"

definition works_frame :: "virtio_device \<Rightarrow> virtio_device \<Rightarrow> bool" where
  "works_frame d d' \<longleftrightarrow> vd_active d' = vd_active d \<and> vd_settled d' = vd_settled d \<and>
     vd_suspended d' = vd_suspended d \<and> vd_next d' = vd_next d \<and>
     (\<forall>vq g n. OutKick vq g n \<in> set (vd_log d') \<longleftrightarrow> OutKick vq g n \<in> set (vd_log d))"

lemma works_frame_inv: "works_frame d d' \<Longrightarrow> works_inv d \<Longrightarrow> works_inv d'"
  by (simp add: works_frame_def works_inv_def)

lemma transfer_works_frame: "transfer_frame d d' \<Longrightarrow> works_frame d d'"
  by (fastforce simp: transfer_frame_def works_frame_def)

lemma start_kick_works: "works_inv d \<Longrightarrow> works_inv (start_kick vq g d)"
proof -
  assume inv: "works_inv d"
  then have "KickWork (vd_next d) \<notin> set (vd_active d)" "KickWork (vd_next d) \<notin> fst ` set (vd_settled d)"
    by (force simp: works_inv_def)+
  moreover have "n \<noteq> vd_next d" if "OutKick v g' n \<in> set (vd_log d)" for v g' n
    using inv that by (force simp: works_inv_def)
  ultimately show ?thesis
    using inv unfolding works_inv_def start_kick_def Let_def suspend_def
    by (simp add: less_Suc_eq) (metis less_imp_neq)
qed

lemma suspend_None_works: "works_inv d \<Longrightarrow> works_inv (suspend vq None d)"
  by (auto simp: works_inv_def suspend_def)

lemma drain_turn_works:
  assumes "works_inv d"
  shows "works_inv (drain_turn vq g d)"
proof -
  let ?d = "set_state vq ((state_of d vq)\<lparr>qs_pending := False\<rparr>) d"
  have d: "works_inv ?d" by (rule works_frame_inv [OF _ assms]) (simp add: works_frame_def)
  moreover have "works_inv (drain_end vq (report e ?d))" for e
    by (rule works_frame_inv [OF _ assms]) (auto simp: works_frame_def drain_end_def)
  ultimately show ?thesis by (simp add: drain_turn_def Let_def suspend_None_works start_kick_works)
qed

lemma drain_works:
  assumes "works_inv d"
  shows "works_inv (drain vq d)"
proof -
  have "works_inv (set_state vq st d)" for st
    by (rule works_frame_inv [OF _ assms]) (simp add: works_frame_def)
  then show ?thesis by (simp add: drain_def Let_def drain_turn_works split: option.split)
qed

lemma resumed_works:
  assumes "works_inv d" and "outcome_of d w \<noteq> None"
  shows "works_inv (d\<lparr>vd_suspended := remove1 (vq, w) (vd_suspended d)\<rparr>)"
proof -
  have settled: "w \<noteq> Some (KickWork n)" if "KickWork n \<in> set (vd_active d)" for n
  proof
    assume "w = Some (KickWork n)"
    with assms(2) have "KickWork n \<in> fst ` set (vd_settled d)"
      by (force simp: outcome_of_def dest: map_of_SomeD)
    with assms(1) that show False by (auto simp: works_inv_def)
  qed
  have keep: "(v, Some (KickWork n)) \<in> set (remove1 (vq, w) (vd_suspended d))"
    if "OutKick v g n \<in> set (vd_log d)" "KickWork n \<in> set (vd_active d)" for v g n
    using that settled [OF that(2)] assms(1) by (auto simp: works_inv_def)
  have sub: "(v, Some w') \<in> set (vd_suspended d)" if "(v, Some w') \<in> set (remove1 (vq, w) (vd_suspended d))" for v w'
    using that set_remove1_subset by fast
  from assms(1) keep sub show ?thesis unfolding works_inv_def by simp blast
qed

lemma drain_resume_works:
  assumes "works_inv d" and "outcome_of d w = Some r"
  shows "works_inv (drain_resume vq w r d)"
proof -
  let ?d = "d\<lparr>vd_suspended := remove1 (vq, w) (vd_suspended d)\<rparr>"
  have d: "works_inv ?d" using resumed_works [OF assms(1)] assms(2) by simp
  moreover have "works_inv (drain_end vq (report e ?d))" "works_inv (drain_end vq ?d)" for e
    by (rule works_frame_inv [OF _ d]; auto simp: works_frame_def drain_end_def)+
  ultimately show ?thesis by (auto simp: drain_resume_def Let_def drain_turn_works split: option.split)
qed

lemma settle_works:
  assumes "works_inv d" and "w \<in> set (vd_active d)"
  shows "works_inv (settle w r d)"
proof -
  let ?d = "d\<lparr>vd_active := remove1 w (vd_active d), vd_settled := vd_settled d @ [(w, r)]\<rparr>"
  have dist: "distinct (vd_active d)" using assms(1) by (simp add: works_inv_def)
  have "works_inv ?d"
    using assms dist unfolding works_inv_def
    by (simp add: set_remove1_eq [OF dist] distinct_remove1) blast
  moreover have "works_inv (report e ?d)" if "works_inv ?d" for e
    by (rule works_frame_inv [OF _ that]) (auto simp: works_frame_def)
  ultimately show ?thesis by (auto simp: settle_def Let_def split: work.split option.split)
qed

lemma spawn_works:
  assumes "works_inv d"
  shows "works_inv (spawn d)"
proof -
  have "SpawnWork (vd_next d) \<notin> set (vd_active d)" "SpawnWork (vd_next d) \<notin> fst ` set (vd_settled d)"
    using assms by (force simp: works_inv_def)+
  with assms show ?thesis unfolding works_inv_def spawn_def by (simp add: less_Suc_eq)
qed

lemma device_step_works:
  assumes "device_step e d = Some d'" and "works_inv d"
  shows "works_inv d'"
proof (cases "transfer_event e")
  case True
  from transfer_works_frame [OF transfer_event_frame [OF assms(1) this]] assms(2)
  show ?thesis by (rule works_frame_inv)
next
  case False
  have "works_frame d (fst (guest_reset d))" "works_frame d (shutdown f d)"
    "works_frame d (shutdown_resume ws f d)" "works_frame d (close_settled f r d)"
    "works_frame d (disable_queue vq d)" "works_frame d (set_state vq st d)"
    "works_frame d (retire_queue vq d)" "works_frame d (install_queue vq irq q (retire_queue vq d))"
    for f ws r vq st irq q
    by (simp_all add: works_frame_def)
      (simp_all add: guest_reset_def Let_def shutdown_def shutdown_resume_def shutdown_turn_def close_settled_def
        disable_queue_def split: option.split)
  note keep = this [THEN works_frame_inv, OF assms(2)]
  from False assms show ?thesis
    by (cases e) (auto simp: notify_def enable_queue_def Let_def keep drain_works drain_resume_works settle_works
        spawn_works split: sum.splits if_splits shutdown_phase.splits)
qed

lemma reachable_works: "reachable d \<Longrightarrow> works_inv d"
proof (induction rule: reachable.induct)
  case attached
  from attached_start [OF this] show ?case by (simp add: works_inv_def)
qed (rule device_step_works)

section \<open>Shutdown and close\<close>

definition is_kick :: "device_output \<Rightarrow> bool" where
  "is_kick out \<longleftrightarrow> (case out of OutKick _ _ _ \<Rightarrow> True | _ \<Rightarrow> False)"

text \<open>No kick starts behind the call of \<open>stop\<close>.\<close>

definition quiet_after_stop :: "device_output list \<Rightarrow> bool" where
  "quiet_after_stop log \<longleftrightarrow> (\<forall>xs ys. log = xs @ OutStop # ys \<longrightarrow> \<not> list_ex is_kick ys)"

lemma quiet_append:
  assumes "quiet_after_stop log" and "OutStop \<in> set log \<Longrightarrow> \<not> list_ex is_kick outs" and "OutStop \<notin> set outs"
  shows "quiet_after_stop (log @ outs)"
  unfolding quiet_after_stop_def
proof (intro allI impI)
  fix xs ys assume "log @ outs = xs @ OutStop # ys"
  then consider us where "log = xs @ OutStop # us" "ys = us @ outs"
    | us where "outs = us @ OutStop # ys"
    by (auto simp: append_eq_append_conv2 append_eq_Cons_conv)
  then show "\<not> list_ex is_kick ys"
  proof cases
    case 1
    with assms show ?thesis by (auto simp: quiet_after_stop_def)
  next
    case 2
    with assms(3) show ?thesis by simp
  qed
qed

definition life_inv :: "virtio_device \<Rightarrow> bool" where
  "life_inv d \<longleftrightarrow> quiet_after_stop (vd_log d) \<and>
     count_list (vd_log d) OutStop = (if vd_stopped d then 1 else 0) \<and>
     (vd_stopped d \<longleftrightarrow> vd_phase d \<noteq> Running) \<and>
     (case vd_phase d of
        Running \<Rightarrow> OutClose \<notin> set (vd_log d)
      | WaitingActive ws f \<Rightarrow> OutClose \<notin> set (vd_log d)
      | _ \<Rightarrow> count_list (vd_log d) OutClose = 1 \<and> (\<forall>n. KickWork n \<notin> set (vd_active d)))"

text \<open>What every event but shutdown keeps of the life cycle.\<close>

definition life_frame :: "virtio_device \<Rightarrow> virtio_device \<Rightarrow> bool" where
  "life_frame d d' \<longleftrightarrow> vd_stopped d' = vd_stopped d \<and> vd_phase d' = vd_phase d \<and>
     (\<exists>outs. vd_log d' = vd_log d @ outs \<and> OutStop \<notin> set outs \<and> OutClose \<notin> set outs \<and>
        (vd_stopped d \<longrightarrow> \<not> list_ex is_kick outs)) \<and>
     (vd_stopped d \<longrightarrow> (\<forall>n. KickWork n \<in> set (vd_active d') \<longrightarrow> KickWork n \<in> set (vd_active d)))"

lemma life_frame_refl [simp]: "life_frame d d"
  by (simp add: life_frame_def)

lemma life_frame_trans: "life_frame d d1 \<Longrightarrow> life_frame d1 d2 \<Longrightarrow> life_frame d d2"
  by (auto simp: life_frame_def)

lemma life_frame_inv:
  assumes "life_frame d d'" and "life_inv d"
  shows "life_inv d'"
proof -
  from assms(1) obtain outs where outs: "vd_log d' = vd_log d @ outs" "OutStop \<notin> set outs" "OutClose \<notin> set outs"
    "vd_stopped d \<longrightarrow> \<not> list_ex is_kick outs"
    and same: "vd_stopped d' = vd_stopped d" "vd_phase d' = vd_phase d"
    and kicks: "vd_stopped d \<longrightarrow> (\<forall>n. KickWork n \<in> set (vd_active d') \<longrightarrow> KickWork n \<in> set (vd_active d))"
    by (auto simp: life_frame_def)
  have zero: "count_list outs OutStop = 0" "count_list outs OutClose = 0"
    using outs by (simp_all add: count_list_0_iff)
  have "OutStop \<in> set (vd_log d) \<Longrightarrow> vd_stopped d"
    using assms(2) by (cases "vd_stopped d") (auto simp: life_inv_def count_list_0_iff)
  with outs assms(2) have "quiet_after_stop (vd_log d')"
    by (auto simp: life_inv_def intro: quiet_append)
  with assms(2) outs zero same kicks show ?thesis
    by (auto simp: life_inv_def split: shutdown_phase.splits)
qed

lemma transfer_life_frame: "transfer_frame d d' \<Longrightarrow> life_frame d d'"
  by (fastforce simp: transfer_frame_def life_frame_def list_ex_iff is_kick_def)

lemma life_frame_set_state [simp]: "life_frame d (set_state vq st d)"
  by (simp add: life_frame_def)

lemma life_frame_report: "life_frame d (report e d)"
  by (auto simp: life_frame_def is_kick_def)

lemma life_frame_drain_end: "life_frame d (drain_end vq d)"
  by (simp add: drain_end_def)

lemma drain_turn_life: "life_frame d (drain_turn vq g d)"
proof -
  let ?d = "set_state vq ((state_of d vq)\<lparr>qs_pending := False\<rparr>) d"
  have "life_frame ?d (suspend vq None ?d)" by (simp add: life_frame_def suspend_def)
  moreover have "life_frame ?d (drain_end vq (report e ?d))" for e
    by (rule life_frame_trans [OF life_frame_report life_frame_drain_end])
  moreover have "life_frame ?d (start_kick vq g ?d)" if "\<not> vd_stopped d"
    using that by (simp add: life_frame_def start_kick_def Let_def suspend_def)
  ultimately have "life_frame ?d (drain_turn vq g d)" by (simp add: drain_turn_def Let_def)
  with life_frame_set_state show ?thesis by (rule life_frame_trans)
qed

lemma drain_life: "life_frame d (drain vq d)"
  using life_frame_trans [OF life_frame_set_state drain_turn_life]
  by (simp add: drain_def Let_def split: option.split)

lemma drain_resume_life: "life_frame d (drain_resume vq w r d)"
proof -
  let ?d = "d\<lparr>vd_suspended := remove1 (vq, w) (vd_suspended d)\<rparr>"
  have d: "life_frame d ?d" by (simp add: life_frame_def)
  note tails = life_frame_drain_end drain_turn_life life_frame_trans [OF life_frame_report life_frame_drain_end]
  note tails [THEN life_frame_trans [OF d]]
  then show ?thesis by (auto simp: drain_resume_def Let_def split: option.split)
qed

lemma settle_life: "life_frame d (settle w r d)"
proof -
  let ?d = "d\<lparr>vd_active := remove1 w (vd_active d), vd_settled := vd_settled d @ [(w, r)]\<rparr>"
  have d: "life_frame d ?d" using set_remove1_subset [of w "vd_active d"] by (auto simp: life_frame_def)
  with life_frame_trans [OF d life_frame_report] show ?thesis
    by (auto simp: settle_def Let_def split: work.split option.split)
qed

lemma shutdown_turn_life:
  assumes "life_inv (d\<lparr>vd_phase := WaitingActive ws g\<rparr>)"
  shows "life_inv (shutdown_turn f d)"
proof (cases "vd_active d = []")
  case True
  have "quiet_after_stop (vd_log d @ [OutClose])"
    using assms by (auto simp: life_inv_def is_kick_def intro!: quiet_append)
  with True assms show ?thesis by (simp add: life_inv_def shutdown_turn_def count_list_0_iff)
next
  case False
  with assms show ?thesis by (simp add: life_inv_def shutdown_turn_def)
qed

lemma shutdown_life:
  assumes "life_inv d"
  shows "life_inv (shutdown f d)"
proof (cases "vd_stopped d")
  case True
  with assms show ?thesis by (simp add: shutdown_def)
next
  case False
  then have run: "vd_phase d = Running" "OutStop \<notin> set (vd_log d)"
    using assms by (simp_all add: life_inv_def count_list_0_iff)
  with assms have "OutClose \<notin> set (vd_log d)" by (simp add: life_inv_def)
  have "quiet_after_stop (vd_log d @ [OutStop])"
    using run(2) by (auto simp: quiet_after_stop_def append_eq_append_conv2 append_eq_Cons_conv Cons_eq_append_conv)
  with run \<open>OutClose \<notin> _\<close> have "life_inv ((emit OutStop (d\<lparr>vd_stopped := True\<rparr>))\<lparr>vd_phase := WaitingActive [] None\<rparr>)"
    by (simp add: life_inv_def count_list_0_iff)
  from shutdown_turn_life [OF this] False show ?thesis by (simp add: shutdown_def)
qed

lemma device_step_life:
  assumes "device_step e d = Some d'" and "life_inv d"
  shows "life_inv d'"
proof (cases "transfer_event e")
  case True
  from transfer_life_frame [OF transfer_event_frame [OF assms(1) this]] assms(2)
  show ?thesis by (rule life_frame_inv)
next
  case False
  have frames: "life_frame d (fst (guest_reset d))" "life_frame d (spawn d)" "life_frame d (disable_queue vq d)"
    "life_frame d (retire_queue vq d)" for vq
    by (simp_all add: life_frame_def guest_reset_def Let_def spawn_def disable_queue_def is_kick_def split: option.split)
  have inst: "life_frame d (install_queue vq irq q (retire_queue vq d))" for vq irq q by (simp add: life_frame_def)
  note all = frames inst drain_resume_life settle_life life_frame_trans [OF inst drain_life]
    life_frame_trans [OF life_frame_set_state drain_life]
  note keep = all [THEN life_frame_inv, OF assms(2)]
  have resume: "life_inv (shutdown_resume ws f d)" if "vd_phase d = WaitingActive ws f" for ws f
    unfolding shutdown_resume_def
    by (rule shutdown_turn_life [where ws = ws and g = f]) (use assms(2) that in \<open>simp add: life_inv_def\<close>)
  have close: "life_inv (close_settled f r d)" if "vd_phase d = Closing f" for f r
    using assms(2) that by (simp add: life_inv_def close_settled_def)
  from False assms show ?thesis
    by (cases e) (auto simp: notify_def enable_queue_def Let_def keep shutdown_life resume close
        split: sum.splits if_splits shutdown_phase.splits)
qed

lemma reachable_life: "reachable d \<Longrightarrow> life_inv d"
proof (induction rule: reachable.induct)
  case attached
  from attached_start [OF this] show ?case by (simp add: life_inv_def quiet_after_stop_def)
qed (rule device_step_life)

section \<open>Notifications are not lost\<close>

text \<open>
  A pending notification of an enabled queue has a \<open>drain\<close> that will see it, unless an error has
  been reported to the machine.
\<close>

definition pending_inv :: "virtio_device \<Rightarrow> bool" where
  "pending_inv d \<longleftrightarrow> vd_reports d \<and>
     ((\<exists>e. OutError e \<in> set (vd_log d)) \<or>
      (\<forall>vq. qs_pending (state_of d vq) \<and> qs_queue (state_of d vq) \<noteq> None \<longrightarrow> qs_notifying (state_of d vq)))"

text \<open>The same for every queue but one.\<close>

definition pending_but :: "nat \<Rightarrow> virtio_device \<Rightarrow> bool" where
  "pending_but vq d \<longleftrightarrow> vd_reports d \<and>
     ((\<exists>e. OutError e \<in> set (vd_log d)) \<or>
      (\<forall>v. v \<noteq> vq \<longrightarrow> qs_pending (state_of d v) \<and> qs_queue (state_of d v) \<noteq> None \<longrightarrow> qs_notifying (state_of d v)))"

lemma pending_inv_but: "pending_inv d \<Longrightarrow> pending_but vq d"
  by (auto simp: pending_inv_def pending_but_def)

lemma pending_but_set_state [simp]: "pending_but vq (set_state vq st d) = pending_but vq d"
  by (auto simp: pending_but_def)

lemma drain_turn_pending: "pending_but vq d \<Longrightarrow> pending_inv (drain_turn vq g d)"
  by (auto simp: pending_but_def pending_inv_def drain_turn_def Let_def suspend_def start_kick_def drain_end_def)

lemma drain_pending:
  assumes "pending_but vq d"
  shows "pending_inv (drain vq d)"
  using assms drain_turn_pending [of vq "set_state vq ((state_of d vq)\<lparr>qs_notifying := True\<rparr>) d"]
  by (simp add: drain_def Let_def split: option.split) (auto simp: pending_but_def pending_inv_def)

lemma drain_end_pending:
  "pending_but vq d \<Longrightarrow> (\<exists>e. OutError e \<in> set (vd_log d)) \<or> \<not> qs_pending (state_of d vq) \<or>
     qs_queue (state_of d vq) = None \<Longrightarrow> pending_inv (drain_end vq d)"
  by (auto simp: pending_but_def pending_inv_def drain_end_def)

lemma drain_resume_pending:
  assumes "pending_inv d"
  shows "pending_inv (drain_resume vq w r d)"
proof -
  let ?d = "d\<lparr>vd_suspended := remove1 (vq, w) (vd_suspended d)\<rparr>"
  have d: "pending_but vq ?d" using pending_inv_but [OF assms, of vq] by (simp add: pending_but_def)
  then have "pending_but vq (report e ?d)" for e by (auto simp: pending_but_def)
  moreover have "vd_reports d" using assms by (simp add: pending_inv_def)
  ultimately show ?thesis
    using d by (auto simp: drain_resume_def Let_def drain_turn_pending intro!: drain_end_pending split: option.split)
qed

definition pending_frame :: "virtio_device \<Rightarrow> virtio_device \<Rightarrow> bool" where
  "pending_frame d d' \<longleftrightarrow> vd_reports d' = vd_reports d \<and> set (vd_log d) \<subseteq> set (vd_log d') \<and>
     (\<forall>vq. qs_pending (state_of d' vq) \<and> qs_queue (state_of d' vq) \<noteq> None \<longrightarrow>
        qs_pending (state_of d vq) \<and> qs_queue (state_of d vq) \<noteq> None) \<and>
     (\<forall>vq. qs_notifying (state_of d' vq) = qs_notifying (state_of d vq))"

lemma pending_frame_inv: "pending_frame d d' \<Longrightarrow> pending_inv d \<Longrightarrow> pending_inv d'"
  unfolding pending_frame_def pending_inv_def by blast

lemma transfer_pending_frame: "transfer_frame d d' \<Longrightarrow> pending_frame d d'"
  by (auto simp: transfer_frame_def pending_frame_def)

lemma enable_queue_pending:
  assumes "pending_inv d"
  shows "pending_inv (fst (enable_queue vq n a irq d))"
proof -
  have r: "pending_inv (retire_queue vq d)" using assms by (simp add: pending_inv_def)
  let ?i = "\<lambda>q. install_queue vq irq q (retire_queue vq d)"
  have "pending_but vq (?i q)" for q using pending_inv_but [OF r, of vq] by (auto simp: pending_but_def)
  moreover have "pending_inv (?i q)" if "\<not> qs_pending (state_of d vq)" for q
    using assms that by (auto simp: pending_inv_def)
  ultimately show ?thesis using r by (auto simp: enable_queue_def Let_def drain_pending split: sum.split)
qed

lemma device_step_pending:
  assumes "device_step e d = Some d'" and "pending_inv d"
  shows "pending_inv d'"
proof (cases "transfer_event e")
  case True
  from transfer_pending_frame [OF transfer_event_frame [OF assms(1) this]] assms(2)
  show ?thesis by (rule pending_frame_inv)
next
  case False
  have reset: "pending_frame d (fst (guest_reset d))"
    by (simp add: pending_frame_def guest_reset_notifying) (auto simp: guest_reset_def Let_def)
  have stop: "pending_frame d (spawn d)" "pending_frame d (settle w r d)" "pending_frame d (shutdown f d)"
    "pending_frame d (shutdown_resume ws f d)" "pending_frame d (close_settled f r d)" for w r f ws
    by (simp_all add: pending_frame_def)
      (auto simp: spawn_def settle_def Let_def shutdown_def shutdown_resume_def shutdown_turn_def close_settled_def
        split: work.split option.split)
  have disable: "pending_frame d (disable_queue vq d)" for vq
    by (auto simp: pending_frame_def disable_queue_def clear_state_def state_of_def [of d] split: option.splits)
  note keep = reset [THEN pending_frame_inv, OF assms(2)] stop [THEN pending_frame_inv, OF assms(2)]
    disable [THEN pending_frame_inv, OF assms(2)]
  have note': "pending_inv (notify vq d)" for vq
    unfolding notify_def by (rule drain_pending) (simp add: pending_inv_but [OF assms(2)])
  from False assms show ?thesis
    by (cases e) (auto simp: keep note' enable_queue_pending drain_resume_pending
        split: if_splits shutdown_phase.splits)
qed

lemma reachable_pending: "reachable d \<Longrightarrow> pending_inv d"
proof (induction rule: reachable.induct)
  case attached
  from attached_start [OF this] show ?case by (simp add: pending_inv_def fresh_states idle_state_def)
qed (rule device_step_pending)

section \<open>Properties\<close>

text \<open>A device with one queue, enabled and notified, for the witnesses.\<close>

definition demo_device :: virtio_device where
  "demo_device = fst (attach False (new_device 1 0 [] False demo_mem))"

definition demo_busy :: virtio_device where
  "demo_busy = the (device_run [EnableQueue 0 2 0 5, Notify 0, Notify 0] demo_device)"

lemma demo_device_reachable: "reachable demo_device"
  by (rule reachable.attached [of False 1 0 "[]" False demo_mem]) (simp add: demo_device_def attach_def new_device_def)

lemmas device_eval = device_run.simps device_step.simps enable_queue_def retire_queue_def install_queue_def
  notify_def drain_def drain_turn_def start_kick_def suspend_def emit_def demo_device_def attach_def new_device_def
  state_of_def known_state_def set_state_def idle_state_def Let_def

lemma demo_busy_run: "device_run [EnableQueue 0 2 0 5, Notify 0, Notify 0] demo_device = Some demo_busy"
  unfolding demo_busy_def by (simp add: device_eval demo_new)

lemma demo_busy_reachable: "reachable demo_busy"
  using demo_device_reachable demo_busy_run by (rule reachable_run)

lemma demo_busy_state:
  "vd_log demo_busy = [OutKick 0 0 0]" "vd_active demo_busy = [KickWork 0]" "vd_stopped demo_busy = False"
  "vd_suspended demo_busy = [(0, Some (KickWork 0))]" "vd_queues demo_busy = 1" "vd_next demo_busy = 1"
  "state_of demo_busy 0 = \<lparr>qs_queue = Some 0, qs_pending = True, qs_notifying = True\<rparr>"
  "length (vd_heap demo_busy) = 1" "qo_vq (vd_heap demo_busy ! 0) = 0"
  unfolding demo_busy_def by (simp_all add: device_eval demo_new)

text \<open>
  C2: kicks on one queue never overlap.  In every run at most one kick of a queue is in flight, and a
  notification that arrives meanwhile starts nothing and is remembered for one follow-up.
\<close>

theorem kicks_exclusive:
  assumes "reachable d" and "OutKick vq g n \<in> set (vd_log d)" and "KickWork n \<in> set (vd_active d)"
  shows "(\<forall>g' m. OutKick vq g' m \<in> set (vd_log d) \<and> KickWork m \<in> set (vd_active d) \<longrightarrow> m = n) \<and>
    vd_active (notify vq d) = vd_active d \<and> vd_log (notify vq d) = vd_log d \<and>
    qs_pending (state_of (notify vq d) vq)"
proof -
  have sus: "(vq, Some (KickWork m)) \<in> set (vd_suspended d)"
    if "OutKick vq g' m \<in> set (vd_log d)" "KickWork m \<in> set (vd_active d)" for g' m
    using reachable_works [OF assms(1)] that unfolding works_inv_def by blast
  have "distinct (map fst (vd_suspended d))" and note': "qs_notifying (state_of d vq)"
    using reachable_drains [OF assms(1)] sus [OF assms(2,3)] by (force simp: drains_inv_def)+
  then have "m = n" if "OutKick vq g' m \<in> set (vd_log d)" "KickWork m \<in> set (vd_active d)" for g' m
    using eq_key_imp_eq_value [OF _ sus [OF that] sus [OF assms(2,3)]] by simp
  with note' show ?thesis by (auto simp: notify_def drain_def Let_def split: option.split)
qed

theorem kicks_exclusive_witness:
  "vd_active (notify 0 demo_busy) = [KickWork 0] \<and> vd_log (notify 0 demo_busy) = [OutKick 0 0 0] \<and>
   qs_pending (state_of (notify 0 demo_busy) 0)"
  using kicks_exclusive [OF demo_busy_reachable, of 0 0 0] by (simp add: demo_busy_state)

text \<open>
  C6: no notification is lost.  While no error has been reported, a notification pending on an enabled
  queue is owned by a suspended \<open>drain\<close>, and when what that \<open>drain\<close> awaits succeeds, the device is
  kicked again with the current queue.
\<close>

theorem pending_notification_kicks:
  assumes "reachable d" and "qs_pending (state_of d vq)" and "qs_queue (state_of d vq) = Some g"
    and "\<forall>e. OutError e \<notin> set (vd_log d)" and "\<not> vd_stopped d" and "vq < vd_queues d"
  shows "\<exists>w. (vq, w) \<in> set (vd_suspended d) \<and>
    vd_log (drain_resume vq w None d) = vd_log d @ [OutKick vq g (vd_next d)] \<and>
    KickWork (vd_next d) \<in> set (vd_active (drain_resume vq w None d)) \<and>
    \<not> qs_pending (state_of (drain_resume vq w None d) vq)"
proof -
  have "qs_notifying (state_of d vq)"
    using reachable_pending [OF assms(1)] assms(2-4) by (auto simp: pending_inv_def)
  then obtain w where "(vq, w) \<in> set (vd_suspended d)"
    using reachable_drains [OF assms(1)] by (auto simp: drains_inv_def)
  with assms(2,3,5,6) show ?thesis
    by (intro exI [of _ w]) (simp add: drain_resume_def drain_turn_def start_kick_def suspend_def Let_def)
qed

theorem pending_notification_kicks_witness:
  "\<exists>w. (0, w) \<in> set (vd_suspended demo_busy) \<and>
    vd_log (drain_resume 0 w None demo_busy) = [OutKick 0 0 0, OutKick 0 0 1]"
  using pending_notification_kicks [OF demo_busy_reachable, of 0 0] by (auto simp: demo_busy_state)

text \<open>
  C7: shutdown is orderly in every run: \<open>stop\<close> and \<open>close\<close> are called at most once, no kick starts after
  \<open>stop\<close>, and from the call of \<open>close\<close> on no kick is in flight.
\<close>

theorem shutdown_orderly:
  assumes "reachable d"
  shows "quiet_after_stop (vd_log d) \<and> count_list (vd_log d) OutStop \<le> 1 \<and>
    count_list (vd_log d) OutClose \<le> 1 \<and>
    (OutClose \<in> set (vd_log d) \<longrightarrow> vd_stopped d \<and> (\<forall>n. KickWork n \<notin> set (vd_active d)))"
  using reachable_life [OF assms]
  by (cases "vd_phase d") (auto simp: life_inv_def count_list_0_iff)

theorem shutdown_orderly_witness:
  "quiet_after_stop (vd_log (shutdown None demo_busy)) \<and> OutClose \<notin> set (vd_log (shutdown None demo_busy))"
proof -
  have "reachable (shutdown None demo_busy)"
    by (rule reachable.step [OF demo_busy_reachable, of "Shutdown None"]) simp
  from shutdown_orderly [OF this] show ?thesis by (auto simp: demo_busy_state)
qed



end
