(* ===== verification/Vsock.thy ===== *)
theory Vsock
  imports Virtio_Device "HOL-Library.AList"
begin

text \<open>
  The vsock device of \<open>packages/kernel/src/virtio/vsock.ts\<close>: stream connections between the host and
  the guest with credit-based flow control.

  Connections live in \<open>vs_conns\<close> and are referred to by index, since the user keeps a connection after
  the device has forgotten its port.  The counters of the protocol are 32-bit words.  The \<open>async\<close>
  functions are cut at their \<open>await\<close>s: a read whose chunk is known but whose continuation has not
  run is in \<open>cn_resumed\<close>, writes wait in line in \<open>cn_writes\<close>, and the first of them is blocked while
  \<open>cn_credit_wait\<close> holds.
\<close>

section \<open>Packets\<close>

definition VsockHeader :: layout where
  "VsockHeader =
     [(''src_cid'', Scalar U64LE), (''dst_cid'', Scalar U64LE), (''src_port'', Scalar U32LE),
      (''dst_port'', Scalar U32LE), (''len'', Scalar U32LE), (''type'', Scalar U16LE), (''op'', Scalar U16LE),
      (''flags'', Scalar U32LE), (''buf_alloc'', Scalar U32LE), (''fwd_cnt'', Scalar U32LE)]"

definition VsockConfig :: layout where "VsockConfig = [(''guest_cid'', Scalar U64LE)]"

definition VT_STREAM :: nat where "VT_STREAM = 1"

definition OP_REQUEST :: nat where "OP_REQUEST = 1"
definition OP_RESPONSE :: nat where "OP_RESPONSE = 2"
definition OP_RST :: nat where "OP_RST = 3"
definition OP_SHUTDOWN :: nat where "OP_SHUTDOWN = 4"
definition OP_RW :: nat where "OP_RW = 5"
definition OP_CREDIT_UPDATE :: nat where "OP_CREDIT_UPDATE = 6"
definition OP_CREDIT_REQUEST :: nat where "OP_CREDIT_REQUEST = 7"

definition SHUTDOWN_RCV :: nat where "SHUTDOWN_RCV = 1"
definition SHUTDOWN_SEND :: nat where "SHUTDOWN_SEND = 2"

definition HOST_CID :: nat where "HOST_CID = 2"
definition DEFAULT_VSOCK_BUF_ALLOC :: nat where "DEFAULT_VSOCK_BUF_ALLOC = 262144"
definition MAX_VSOCK_PAYLOAD :: nat where "MAX_VSOCK_PAYLOAD = 2048"

record vsock_header =
  vh_dst_port :: nat
  vh_src_port :: nat
  vh_len :: nat
  vh_op :: nat
  vh_flags :: nat
  vh_buf_alloc :: nat
  vh_fwd_cnt :: nat

definition read_header :: "bytes \<Rightarrow> vsock_header result" where
  "read_header bs =
     bindE (get_num VsockHeader (whole_view bs) ''dst_port'') (\<lambda>dp.
     bindE (get_num VsockHeader (whole_view bs) ''src_port'') (\<lambda>sp.
     bindE (get_num VsockHeader (whole_view bs) ''len'') (\<lambda>n.
     bindE (get_num VsockHeader (whole_view bs) ''op'') (\<lambda>opc.
     bindE (get_num VsockHeader (whole_view bs) ''flags'') (\<lambda>fl.
     bindE (get_num VsockHeader (whole_view bs) ''buf_alloc'') (\<lambda>ba.
     bindE (get_num VsockHeader (whole_view bs) ''fwd_cnt'') (\<lambda>fc.
     Inr \<lparr>vh_dst_port = dp, vh_src_port = sp, vh_len = n, vh_op = opc, vh_flags = fl,
          vh_buf_alloc = ba, vh_fwd_cnt = fc\<rparr>)))))))"

definition parse_packet :: "bytes \<Rightarrow> (vsock_header \<times> bytes) result" where
  "parse_packet bs =
     bindE (assertE (length bs \<ge> layout_size VsockHeader) ''short vsock header'') (\<lambda>_.
     bindE (read_header bs) (\<lambda>h.
     Inr (h, subarray bs (layout_size VsockHeader) (layout_size VsockHeader + vh_len h))))"

definition read_tx_packet :: "vq_chain \<Rightarrow> (vsock_header \<times> bytes) result" where
  "read_tx_packet ch =
     bindE (assertE (\<not> list_ex vb_writable (ch_buffers ch)) ''vsock tx descriptor must be readable'') (\<lambda>_.
     parse_packet (concat (map vb_array (ch_buffers ch))))"

text \<open>The packet \<open>#send\<close> builds.\<close>

definition encode_packet :: "nat \<Rightarrow> nat \<Rightarrow> nat \<Rightarrow> nat \<Rightarrow> nat \<Rightarrow> bytes \<Rightarrow> 32 word \<Rightarrow> bytes result" where
  "encode_packet guest_cid local_port peer_port opc flags payload fwd_cnt =
     bindE (set_fields VsockHeader (whole_view (replicate (layout_size VsockHeader + length payload) 0))
       [(''src_cid'', Num (int HOST_CID)), (''dst_cid'', Num (int guest_cid)),
        (''src_port'', Num (int local_port)), (''dst_port'', Num (int peer_port)),
        (''len'', Num (int (length payload))), (''type'', Num (int VT_STREAM)), (''op'', Num (int opc)),
        (''flags'', Num (int flags)), (''buf_alloc'', Num (int DEFAULT_VSOCK_BUF_ALLOC)),
        (''fwd_cnt'', Num (uint fwd_cnt))])
     (\<lambda>packet. Inr (overwrite packet (layout_size VsockHeader) payload))"

section \<open>Connections\<close>

text \<open>What a reader does with the chunk it gets: \<open>read\<close>, or \<open>readExactly\<close> with the bytes so far.\<close>

datatype read_task = ReadChunk | ReadExactly nat bytes

record vconn =
  cn_local_port :: nat
  cn_peer_port :: nat
  cn_read_buffer :: "bytes list"
  cn_read_waiters :: "(nat \<times> read_task) list"
  cn_resumed :: "(nat \<times> read_task \<times> bytes) list"
  cn_writes :: "(nat \<times> bytes) list"
  cn_credit_wait :: bool
  cn_closed :: bool
  cn_bytes_read :: "32 word"
  cn_bytes_written :: "32 word"
  cn_last_credit :: "32 word"
  cn_buf_alloc :: "32 word"
  cn_fwd_cnt :: "32 word"

definition new_conn :: "nat \<Rightarrow> nat \<Rightarrow> vconn" where
  "new_conn local_port peer_port =
     \<lparr>cn_local_port = local_port, cn_peer_port = peer_port, cn_read_buffer = [], cn_read_waiters = [],
      cn_resumed = [], cn_writes = [], cn_credit_wait = False, cn_closed = False, cn_bytes_read = 0,
      cn_bytes_written = 0, cn_last_credit = 0, cn_buf_alloc = of_nat DEFAULT_VSOCK_BUF_ALLOC, cn_fwd_cnt = 0\<rparr>"

definition close_from_peer :: "vconn \<Rightarrow> vconn" where
  "close_from_peer c =
     (if cn_closed c then c
      else c\<lparr>cn_closed := True, cn_resumed := cn_resumed c @ map (\<lambda>(w, t). (w, t, [])) (cn_read_waiters c),
             cn_read_waiters := [], cn_credit_wait := False\<rparr>)"

definition update_credit :: "nat \<Rightarrow> nat \<Rightarrow> vconn \<Rightarrow> vconn" where
  "update_credit buf_alloc fwd_cnt c =
     c\<lparr>cn_buf_alloc := of_nat buf_alloc, cn_fwd_cnt := of_nat fwd_cnt, cn_credit_wait := False\<rparr>"

definition enqueue :: "bytes \<Rightarrow> vconn \<Rightarrow> vconn" where
  "enqueue data c =
     (if cn_closed c \<or> data = [] then c
      else case cn_read_waiters c of
        (w, t) # ws \<Rightarrow> c\<lparr>cn_read_waiters := ws, cn_resumed := cn_resumed c @ [(w, t, data)]\<rparr>
      | [] \<Rightarrow> c\<lparr>cn_read_buffer := cn_read_buffer c @ [data]\<rparr>)"

definition read_chunk :: "nat \<Rightarrow> read_task \<Rightarrow> vconn \<Rightarrow> vconn" where
  "read_chunk w t c = (case cn_read_buffer c of
       chunk # rest \<Rightarrow> c\<lparr>cn_read_buffer := rest, cn_resumed := cn_resumed c @ [(w, t, chunk)]\<rparr>
     | [] \<Rightarrow> if cn_closed c then c\<lparr>cn_resumed := cn_resumed c @ [(w, t, [])]\<rparr>
            else c\<lparr>cn_read_waiters := cn_read_waiters c @ [(w, t)]\<rparr>)"

text \<open>\<open>consume\<close>: the new counters, and whether a credit update is due.\<close>

definition consume :: "nat \<Rightarrow> vconn \<Rightarrow> vconn \<times> bool" where
  "consume n c =
     (let read = cn_bytes_read c + of_nat n;
          consumed = unat (read - cn_last_credit c)
      in if consumed \<ge> DEFAULT_VSOCK_BUF_ALLOC div 4
         then (c\<lparr>cn_bytes_read := read, cn_last_credit := read\<rparr>, True)
         else (c\<lparr>cn_bytes_read := read\<rparr>, False))"

definition conn_available :: "vconn \<Rightarrow> nat" where
  "conn_available c = unat (cn_buf_alloc c) - unat (cn_bytes_written c - cn_fwd_cnt c)"

section \<open>The device\<close>

record port_state =
  ps_conn :: nat
  ps_connected :: bool

text \<open>
  Outcomes are recorded: the settled \<open>connect\<close> promises, the finished reads and writes, and the
  receive chains filled for the guest.
\<close>

record vsock =
  vs_guest_cid :: nat
  vs_rx :: "vq_chain rx_queue"
  vs_pending :: "bytes list"
  vs_conns :: "vconn list"
  vs_ports :: "(nat \<times> port_state) list"
  vs_next_port :: nat
  vs_stopped :: bool
  vs_timers :: "nat list"
  vs_promises :: "(nat \<times> unit result) list"
  vs_reads :: "(nat \<times> bytes) list"
  vs_writes :: "(nat \<times> unit result) list"
  vs_delivered :: "(vq_chain \<times> nat) list"
  vs_released :: "vq_chain list"

definition new_vsock :: "nat \<Rightarrow> vsock" where
  "new_vsock guest_cid =
     \<lparr>vs_guest_cid = guest_cid, vs_rx = new_rx, vs_pending = [], vs_conns = [], vs_ports = [],
      vs_next_port = 49152, vs_stopped = False, vs_timers = [], vs_promises = [], vs_reads = [], vs_writes = [],
      vs_delivered = [], vs_released = []\<rparr>"

definition set_conn :: "nat \<Rightarrow> vconn \<Rightarrow> vsock \<Rightarrow> vsock" where
  "set_conn i c vs = vs\<lparr>vs_conns := (vs_conns vs)[i := c]\<rparr>"

definition delete_port :: "nat \<Rightarrow> vsock \<Rightarrow> vsock" where
  "delete_port p vs = vs\<lparr>vs_ports := filter (\<lambda>(k, _). k \<noteq> p) (vs_ports vs)\<rparr>"

text \<open>\<open>resolve\<close> and \<open>reject\<close> of a connection state: the timer is cleared, a promise settles once.\<close>

definition settle_connect :: "nat \<Rightarrow> unit result \<Rightarrow> vsock \<Rightarrow> vsock" where
  "settle_connect i r vs =
     vs\<lparr>vs_timers := removeAll i (vs_timers vs),
        vs_promises := (if i \<in> fst ` set (vs_promises vs) then vs_promises vs else vs_promises vs @ [(i, r)])\<rparr>"

fun allocate_port_loop :: "nat \<Rightarrow> vsock \<Rightarrow> vsock \<times> nat result" where
  "allocate_port_loop 0 vs = (vs, Inl (Error ''no local vsock ports available''))"
| "allocate_port_loop (Suc attempts) vs =
     (let port = vs_next_port vs;
          vs1 = vs\<lparr>vs_next_port := (if port = 65535 then 49152 else port + 1)\<rparr>
      in if port \<notin> fst ` set (vs_ports vs) then (vs1, Inr port) else allocate_port_loop attempts vs1)"

definition allocate_port :: "vsock \<Rightarrow> vsock \<times> nat result" where
  "allocate_port vs = allocate_port_loop (65536 - 49152) vs"

text \<open>The callback of \<open>#flush\<close>: the packet in the single buffer of the chain.\<close>

definition fill_chain :: "bytes \<Rightarrow> vq_chain \<Rightarrow> vq_chain result" where
  "fill_chain packet ch = (case ch_buffers ch of
       [] \<Rightarrow> Inl (Error ''vsock rx buffer must be writable'')
     | b # rest \<Rightarrow>
         if \<not> vb_writable b then Inl (Error ''vsock rx buffer must be writable'')
         else if rest \<noteq> [] then Inl (Error ''vsock rx buffer should be a single descriptor'')
         else if \<not> length (vb_array b) \<ge> length packet then Inl (Error ''vsock rx buffer too small'')
         else Inr (ch\<lparr>ch_buffers := [b\<lparr>vb_array := overwrite (vb_array b) 0 packet\<rparr>]\<rparr>))"

fun flush_packets :: "bytes list \<Rightarrow> vsock \<Rightarrow> vsock \<times> unit result" where
  "flush_packets [] vs = (vs\<lparr>vs_pending := []\<rparr>, Inr ())"
| "flush_packets (p # ps) vs = (case rx_deliver (vs_rx vs) of
       (rx, None) \<Rightarrow> (vs\<lparr>vs_pending := p # ps\<rparr>, Inr ())
     | (rx, Some ch) \<Rightarrow> (case fill_chain p ch of
           Inl e \<Rightarrow> (vs\<lparr>vs_rx := rx, vs_pending := ps\<rparr>, Inl e)
         | Inr ch' \<Rightarrow> flush_packets ps
             (vs\<lparr>vs_rx := rx, vs_delivered := vs_delivered vs @ [(ch', length p)]\<rparr>)))"

definition flush :: "vsock \<Rightarrow> vsock \<times> unit result" where
  "flush vs = flush_packets (vs_pending vs) vs"

definition send :: "vconn \<Rightarrow> nat \<Rightarrow> nat \<Rightarrow> bytes \<Rightarrow> 32 word \<Rightarrow> vsock \<Rightarrow> vsock \<times> unit result" where
  "send c opc flags payload fwd_cnt vs =
     (case encode_packet (vs_guest_cid vs) (cn_local_port c) (cn_peer_port c) opc flags payload fwd_cnt of
        Inl e \<Rightarrow> (vs, Inl e)
      | Inr packet \<Rightarrow> flush (vs\<lparr>vs_pending := vs_pending vs @ [packet]\<rparr>))"

text \<open>The \<open>ops\<close> of a connection: they look the connection up by its port.\<close>

definition port_conn :: "nat \<Rightarrow> vsock \<Rightarrow> vconn option" where
  "port_conn p vs = (case map_of (vs_ports vs) p of
       None \<Rightarrow> None
     | Some ps \<Rightarrow> if ps_conn ps < length (vs_conns vs) then Some (vs_conns vs ! ps_conn ps) else None)"

definition ops_send :: "nat \<Rightarrow> nat \<Rightarrow> nat \<Rightarrow> bytes \<Rightarrow> 32 word \<Rightarrow> vsock \<Rightarrow> vsock \<times> unit result" where
  "ops_send i opc flags payload fwd_cnt vs =
     (if vs_stopped vs then (vs, Inr ())
      else case port_conn (cn_local_port (vs_conns vs ! i)) vs of
        None \<Rightarrow> (vs, Inr ())
      | Some c \<Rightarrow> send c opc flags payload fwd_cnt vs)"

definition ops_close :: "nat \<Rightarrow> vsock \<Rightarrow> vsock \<times> unit result" where
  "ops_close i vs = (case port_conn (cn_local_port (vs_conns vs ! i)) vs of
       None \<Rightarrow> (vs, Inr ())
     | Some c \<Rightarrow> send c OP_SHUTDOWN (SHUTDOWN_RCV OR SHUTDOWN_SEND) [] (cn_bytes_read c) vs)"

section \<open>Reading and writing\<close>

definition consume_at :: "nat \<Rightarrow> nat \<Rightarrow> vsock \<Rightarrow> vsock \<times> unit result" where
  "consume_at i n vs =
     (let (c, due) = consume n (vs_conns vs ! i);
          vs1 = set_conn i c vs
      in if due then ops_send i OP_CREDIT_UPDATE 0 [] (cn_bytes_read c) vs1 else (vs1, Inr ()))"

definition conn_read :: "nat \<Rightarrow> nat \<Rightarrow> vsock \<Rightarrow> vsock" where
  "conn_read i w vs = set_conn i (read_chunk w ReadChunk (vs_conns vs ! i)) vs"

definition finish_read :: "nat \<Rightarrow> bytes \<Rightarrow> vsock \<Rightarrow> vsock" where
  "finish_read w bs vs = vs\<lparr>vs_reads := vs_reads vs @ [(w, bs)]\<rparr>"

text \<open>The loop test of \<open>readExactly\<close>, with the bytes collected so far.\<close>

definition read_exactly_turn :: "nat \<Rightarrow> nat \<Rightarrow> nat \<Rightarrow> bytes \<Rightarrow> vsock \<Rightarrow> vsock" where
  "read_exactly_turn i w n out vs =
     (if length out < n then set_conn i (read_chunk w (ReadExactly n out) (vs_conns vs ! i)) vs
      else finish_read w out vs)"

definition conn_read_exactly :: "nat \<Rightarrow> nat \<Rightarrow> nat \<Rightarrow> vsock \<Rightarrow> vsock" where
  "conn_read_exactly i w n vs = read_exactly_turn i w n [] vs"

text \<open>The continuation of a read, once its chunk is there.\<close>

definition remove_nth :: "nat \<Rightarrow> 'a list \<Rightarrow> 'a list" where
  "remove_nth k xs = take k xs @ drop (Suc k) xs"

definition read_resume :: "nat \<Rightarrow> nat \<Rightarrow> vsock \<Rightarrow> vsock \<times> unit result" where
  "read_resume i k vs0 =
     (let c = vs_conns vs0 ! i;
          (w, t, chunk) = cn_resumed c ! k;
          vs = set_conn i (c\<lparr>cn_resumed := remove_nth k (cn_resumed c)\<rparr>) vs0
      in case t of
           ReadChunk \<Rightarrow> (case consume_at i (length chunk) vs of
               (vs1, Inl e) \<Rightarrow> (vs1, Inl e)
             | (vs1, Inr _) \<Rightarrow> (finish_read w chunk vs1, Inr ()))
         | ReadExactly len out \<Rightarrow>
             if chunk = [] then (finish_read w out vs, Inr ())
             else let n = min (length chunk) (len - length out)
                  in case consume_at i n vs of
                       (vs1, Inl e) \<Rightarrow> (vs1, Inl e)
                     | (vs1, Inr _) \<Rightarrow>
                         let c1 = vs_conns vs1 ! i;
                             vs2 = (if n < length chunk
                                    then set_conn i (c1\<lparr>cn_read_buffer := drop n chunk # cn_read_buffer c1\<rparr>) vs1
                                    else vs1)
                         in (read_exactly_turn i w len (out @ take n chunk) vs2, Inr ()))"

text \<open>\<open>write\<close> joins the line; \<open>write_serialized\<close> runs for its head until it must wait.\<close>

definition conn_write :: "nat \<Rightarrow> nat \<Rightarrow> bytes \<Rightarrow> vsock \<Rightarrow> vsock" where
  "conn_write i w data vs =
     set_conn i ((vs_conns vs ! i)\<lparr>cn_writes := cn_writes (vs_conns vs ! i) @ [(w, data)]\<rparr>) vs"

datatype write_status = WriteDone | WriteBlocked bytes | WriteFailed js_error

definition write_chunk_size :: "vconn \<Rightarrow> bytes \<Rightarrow> nat" where
  "write_chunk_size c data = min MAX_VSOCK_PAYLOAD (min (conn_available c) (length data))"

function write_serialized :: "nat \<Rightarrow> bytes \<Rightarrow> vsock \<Rightarrow> vsock \<times> write_status" where
  "write_serialized i data vs =
     (if data = [] then (vs, WriteDone)
      else let c = vs_conns vs ! i
      in if cn_closed c then (vs, WriteFailed (Error ''vsock connection is closed''))
         else if conn_available c = 0 then (set_conn i (c\<lparr>cn_credit_wait := True\<rparr>) vs, WriteBlocked data)
         else let n = write_chunk_size c data
         in case ops_send i OP_RW 0 (take n data) (cn_bytes_read c) vs of
              (vs1, Inl e) \<Rightarrow> (vs1, WriteFailed e)
            | (vs1, Inr _) \<Rightarrow>
                let c1 = vs_conns vs1 ! i
                in write_serialized i (drop n data)
                     (set_conn i (c1\<lparr>cn_bytes_written := cn_bytes_written c1 + of_nat n\<rparr>) vs1))"
  by pat_completeness auto
termination
  by (relation "measure (\<lambda>(i, data, vs). length data)") (auto simp: write_chunk_size_def MAX_VSOCK_PAYLOAD_def)

declare write_serialized.simps [simp del]

definition write_turn :: "nat \<Rightarrow> vsock \<Rightarrow> vsock" where
  "write_turn i vs0 = (case cn_writes (vs_conns vs0 ! i) of
       [] \<Rightarrow> vs0
     | (w, data) # rest \<Rightarrow>
         if cn_credit_wait (vs_conns vs0 ! i) then vs0
         else case write_serialized i data vs0 of
           (vs, WriteBlocked left) \<Rightarrow> set_conn i ((vs_conns vs ! i)\<lparr>cn_writes := (w, left) # rest\<rparr>) vs
         | (vs, WriteDone) \<Rightarrow>
             (set_conn i ((vs_conns vs ! i)\<lparr>cn_writes := rest\<rparr>) vs)\<lparr>vs_writes := vs_writes vs @ [(w, Inr ())]\<rparr>
         | (vs, WriteFailed e) \<Rightarrow>
             (set_conn i ((vs_conns vs ! i)\<lparr>cn_writes := rest\<rparr>) vs)\<lparr>vs_writes := vs_writes vs @ [(w, Inl e)]\<rparr>)"

definition conn_close :: "nat \<Rightarrow> vsock \<Rightarrow> vsock \<times> unit result" where
  "conn_close i vs =
     (if cn_closed (vs_conns vs ! i) then (vs, Inr ())
      else case ops_close i vs of
        (vs1, Inl e) \<Rightarrow> (vs1, Inl e)
      | (vs1, Inr _) \<Rightarrow> (set_conn i (close_from_peer (vs_conns vs1 ! i)) vs1, Inr ()))"

section \<open>Packets from the guest\<close>

text \<open>The end of a connection the guest has refused, shut down or reset.\<close>

definition drop_connection :: "nat \<Rightarrow> js_error \<Rightarrow> vsock \<Rightarrow> vsock" where
  "drop_connection p e vs = (case map_of (vs_ports vs) p of
       None \<Rightarrow> vs
     | Some ps \<Rightarrow>
         let vs1 = (if ps_connected ps then vs else settle_connect (ps_conn ps) (Inl e) vs)
         in delete_port p (set_conn (ps_conn ps) (close_from_peer (vs_conns vs1 ! ps_conn ps)) vs1))"

definition handle_tx_packet :: "vsock_header \<Rightarrow> bytes \<Rightarrow> vsock \<Rightarrow> vsock \<times> unit result" where
  "handle_tx_packet h payload vs0 =
     (let p = vh_dst_port h
      in case map_of (vs_ports vs0) p of
           None \<Rightarrow> (vs0, Inr ())
         | Some ps \<Rightarrow>
             let i = ps_conn ps;
                 vs = set_conn i (update_credit (vh_buf_alloc h) (vh_fwd_cnt h) (vs_conns vs0 ! i)) vs0;
                 c = vs_conns vs ! i
             in if vh_op h = OP_RESPONSE then
                  (settle_connect i (Inr ()) (vs\<lparr>vs_ports := AList.update p (ps\<lparr>ps_connected := True\<rparr>) (vs_ports vs)\<rparr>), Inr ())
                else if vh_op h = OP_RW then (set_conn i (enqueue payload c) vs, Inr ())
                else if vh_op h = OP_CREDIT_UPDATE then (vs, Inr ())
                else if vh_op h = OP_CREDIT_REQUEST then send c OP_CREDIT_UPDATE 0 [] (cn_bytes_read c) vs
                else if vh_op h = OP_SHUTDOWN then
                  (case send c OP_RST 0 [] (cn_bytes_read c) vs of
                     (vs1, Inl e) \<Rightarrow> (vs1, Inl e)
                   | (vs1, Inr _) \<Rightarrow> (drop_connection p (Error ''guest shut down vsock connection'') vs1, Inr ()))
                else if vh_op h = OP_RST then
                  (drop_connection p (Error ''guest reset vsock connection'') vs, Inr ())
                else (vs, Inr ()))"

definition kick_rx :: "vq_chain list \<Rightarrow> js_error option \<Rightarrow> vsock \<Rightarrow> vsock \<times> unit result" where
  "kick_rx chs err vs = (case rx_post chs err (vs_rx vs) of
       (rx, _, Inl e) \<Rightarrow> (vs\<lparr>vs_rx := rx\<rparr>, Inl e)
     | (rx, _, Inr _) \<Rightarrow> flush (vs\<lparr>vs_rx := rx\<rparr>))"

fun kick_tx :: "vq_chain list \<Rightarrow> vsock \<Rightarrow> vsock \<times> unit result" where
  "kick_tx [] vs = (vs, Inr ())"
| "kick_tx (ch # chs) vs = (case read_tx_packet ch of
       Inl e \<Rightarrow> (vs, Inl e)
     | Inr (h, payload) \<Rightarrow> (case handle_tx_packet h payload vs of
           (vs1, Inl e) \<Rightarrow> (vs1, Inl e)
         | (vs1, Inr _) \<Rightarrow> kick_tx chs (vs1\<lparr>vs_released := vs_released vs1 @ [ch]\<rparr>)))"

section \<open>Life cycle\<close>

fun drop_all :: "(nat \<times> port_state) list \<Rightarrow> js_error \<Rightarrow> vsock \<Rightarrow> vsock" where
  "drop_all [] e vs = vs"
| "drop_all ((p, ps) # rest) e vs =
     (let vs1 = (if ps_connected ps then vs else settle_connect (ps_conn ps) (Inl e) vs)
      in drop_all rest e (set_conn (ps_conn ps) (close_from_peer (vs_conns vs1 ! ps_conn ps)) vs1))"

definition vsock_reset :: "vsock \<Rightarrow> vsock" where
  "vsock_reset vs =
     (drop_all (vs_ports vs) (Error ''vsock device reset while connecting'')
        (vs\<lparr>vs_rx := rx_reset (vs_rx vs), vs_pending := []\<rparr>))\<lparr>vs_ports := []\<rparr>"

fun reset_peers :: "(nat \<times> port_state) list \<Rightarrow> vsock \<Rightarrow> vsock \<times> unit result" where
  "reset_peers [] vs = (vs, Inr ())"
| "reset_peers ((p, ps) # rest) vs =
     (let c = vs_conns vs ! ps_conn ps
      in case send c OP_RST 0 [] (cn_bytes_read c) vs of
           (vs1, Inl e) \<Rightarrow> (vs1, Inl e)
         | (vs1, Inr _) \<Rightarrow>
             reset_peers rest (drop_all [(p, ps)] (Error ''vsock device closed while connecting'') vs1))"

definition vsock_close :: "vsock \<Rightarrow> vsock \<times> unit result" where
  "vsock_close vs = (case reset_peers (vs_ports vs) vs of
       (vs1, Inl e) \<Rightarrow> (vs1, Inl e)
     | (vs1, Inr _) \<Rightarrow> (vs1\<lparr>vs_ports := [], vs_rx := fst (rx_close (vs_rx vs1))\<rparr>, Inr ()))"

definition connect :: "nat \<Rightarrow> vsock \<Rightarrow> vsock \<times> nat result" where
  "connect port vs0 =
     (if vs_stopped vs0 then (vs0, Inl (Error ''vsock device is closed''))
      else case allocate_port vs0 of
        (vs, Inl e) \<Rightarrow> (vs, Inl e)
      | (vs, Inr local_port) \<Rightarrow>
          let i = length (vs_conns vs);
              c = new_conn local_port port;
              vs1 = vs\<lparr>vs_conns := vs_conns vs @ [c], vs_timers := vs_timers vs @ [i],
                       vs_ports := vs_ports vs @ [(local_port, \<lparr>ps_conn = i, ps_connected = False\<rparr>)]\<rparr>
          in case send c OP_REQUEST 0 [] (cn_bytes_read c) vs1 of
               (vs2, Inl e) \<Rightarrow> (vs2, Inl e)
             | (vs2, Inr _) \<Rightarrow> (vs2, Inr i))"

definition connect_timeout :: "nat \<Rightarrow> vsock \<Rightarrow> vsock \<times> unit result" where
  "connect_timeout i vs =
     (let c = vs_conns vs ! i;
          vs0 = vs\<lparr>vs_timers := removeAll i (vs_timers vs)\<rparr>
      in case send c OP_RST 0 [] (cn_bytes_read c) vs0 of
           (vs1, Inl e) \<Rightarrow> (vs1, Inl e)
         | (vs1, Inr _) \<Rightarrow>
             let vs2 = delete_port (cn_local_port c) vs1
             in (settle_connect i (Inl (Error ''timed out connecting to guest vsock port''))
                  (set_conn i (close_from_peer (vs_conns vs2 ! i)) vs2), Inr ()))"

section \<open>Ports\<close>

abbreviation used_ports :: "vsock \<Rightarrow> nat set" where
  "used_ports vs \<equiv> fst ` set (vs_ports vs)"

lemma next_port_cycle:
  "(if 49152 + r mod 16384 = (65535::nat) then 49152 else 49152 + r mod 16384 + 1) = 49152 + Suc r mod 16384"
  by (simp add: mod_Suc)

lemma allocate_port_loop_result:
  assumes "vs_next_port vs = 49152 + r mod 16384"
  shows "(\<exists>k < n. 49152 + (r + k) mod 16384 \<notin> used_ports vs \<and>
      allocate_port_loop n vs =
        (vs\<lparr>vs_next_port := 49152 + Suc (r + k) mod 16384\<rparr>, Inr (49152 + (r + k) mod 16384))) \<or>
    (\<forall>k < n. 49152 + (r + k) mod 16384 \<in> used_ports vs) \<and>
      allocate_port_loop n vs =
        (vs\<lparr>vs_next_port := 49152 + (r + n) mod 16384\<rparr>, Inl (Error ''no local vsock ports available''))"
  using assms
proof (induction n arbitrary: vs r)
  case 0
  then show ?case by simp
next
  case (Suc n)
  let ?vs = "vs\<lparr>vs_next_port := 49152 + Suc r mod 16384\<rparr>"
  show ?case
  proof (cases "49152 + r mod 16384 \<in> used_ports vs")
    case False
    with Suc.prems show ?thesis
      using next_port_cycle [of r] by (intro disjI1 exI [of _ 0]) (auto simp: Let_def)
  next
    case True
    then have step: "allocate_port_loop (Suc n) vs = allocate_port_loop n ?vs"
      using Suc.prems next_port_cycle [of r] by (auto simp: Let_def)
    have "vs_next_port ?vs = 49152 + Suc r mod 16384" by simp
    from Suc.IH [OF this] show ?thesis
    proof (elim disjE exE conjE)
      fix k assume "k < n" "49152 + (Suc r + k) mod 16384 \<notin> used_ports ?vs"
        "allocate_port_loop n ?vs = (?vs\<lparr>vs_next_port := 49152 + Suc (Suc r + k) mod 16384\<rparr>,
           Inr (49152 + (Suc r + k) mod 16384))"
      then show ?thesis by (intro disjI1 exI [of _ "Suc k"]) (simp only: step, simp)
    next
      assume all: "\<forall>k < n. 49152 + (Suc r + k) mod 16384 \<in> used_ports ?vs" and
        res: "allocate_port_loop n ?vs = (?vs\<lparr>vs_next_port := 49152 + (Suc r + n) mod 16384\<rparr>,
          Inl (Error ''no local vsock ports available''))"
      have "49152 + (r + k) mod 16384 \<in> used_ports vs" if "k < Suc n" for k
        using all True that by (cases k) auto
      with res show ?thesis by (intro disjI2) (simp only: step, simp)
    qed
  qed
qed

lemma allocate_port_cases:
  assumes "49152 \<le> vs_next_port vs" and "vs_next_port vs \<le> 65535"
  obtains (found) p q where "allocate_port vs = (vs\<lparr>vs_next_port := q\<rparr>, Inr p)" "p \<notin> used_ports vs"
      "49152 \<le> p" "p \<le> 65535" "49152 \<le> q" "q \<le> 65535"
    | (full) q where "allocate_port vs = (vs\<lparr>vs_next_port := q\<rparr>, Inl (Error ''no local vsock ports available''))"
      "{49152..65535} \<subseteq> used_ports vs" "49152 \<le> q" "q \<le> 65535"
proof -
  define r where "r = vs_next_port vs - 49152"
  have r: "vs_next_port vs = 49152 + r mod 16384" using assms by (simp add: r_def)
  have le: "49152 + x mod 16384 \<le> (65535::nat)" for x
    using mod_less_divisor [of 16384 x] by linarith
  from allocate_port_loop_result [OF r, of 16384] show thesis
  proof (elim disjE exE conjE)
    fix k assume "49152 + (r + k) mod 16384 \<notin> used_ports vs" "allocate_port_loop 16384 vs =
        (vs\<lparr>vs_next_port := 49152 + Suc (r + k) mod 16384\<rparr>, Inr (49152 + (r + k) mod 16384))"
    then show thesis using le by (intro found [of "49152 + Suc (r + k) mod 16384"]) (auto simp: allocate_port_def)
  next
    assume all: "\<forall>k < 16384. 49152 + (r + k) mod 16384 \<in> used_ports vs" and
      res: "allocate_port_loop 16384 vs = (vs\<lparr>vs_next_port := 49152 + (r + 16384) mod 16384\<rparr>,
          Inl (Error ''no local vsock ports available''))"
    have "p \<in> used_ports vs" if "p \<in> {49152..65535}" for p
      using all cyclic_cover [of "p - 49152" 16384 r] that by force
    then show thesis using res le by (intro full [of "49152 + (r + 16384) mod 16384"]) (auto simp: allocate_port_def)
  qed
qed

section \<open>Packets on the wire\<close>

lemma VsockHeader_size [simp]: "layout_size VsockHeader = 44"
  by (simp add: VsockHeader_def)

lemma VsockHeader_fields [simp]:
  "field_at VsockHeader 0 ''src_cid'' = Some (0, Scalar U64LE)"
  "field_at VsockHeader 0 ''dst_cid'' = Some (8, Scalar U64LE)"
  "field_at VsockHeader 0 ''src_port'' = Some (16, Scalar U32LE)"
  "field_at VsockHeader 0 ''dst_port'' = Some (20, Scalar U32LE)"
  "field_at VsockHeader 0 ''len'' = Some (24, Scalar U32LE)"
  "field_at VsockHeader 0 ''type'' = Some (28, Scalar U16LE)"
  "field_at VsockHeader 0 ''op'' = Some (30, Scalar U16LE)"
  "field_at VsockHeader 0 ''flags'' = Some (32, Scalar U32LE)"
  "field_at VsockHeader 0 ''buf_alloc'' = Some (36, Scalar U32LE)"
  "field_at VsockHeader 0 ''fwd_cnt'' = Some (40, Scalar U32LE)"
  by (simp_all add: VsockHeader_def)

definition header_values ::
    "nat \<Rightarrow> nat \<Rightarrow> nat \<Rightarrow> nat \<Rightarrow> nat \<Rightarrow> bytes \<Rightarrow> 32 word \<Rightarrow> (string \<times> val) list" where
  "header_values cid lp pp opc flags payload fwd =
     [(''src_cid'', Num (int HOST_CID)), (''dst_cid'', Num (int cid)),
        (''src_port'', Num (int lp)), (''dst_port'', Num (int pp)),
        (''len'', Num (int (length payload))), (''type'', Num (int VT_STREAM)), (''op'', Num (int opc)),
        (''flags'', Num (int flags)), (''buf_alloc'', Num (int DEFAULT_VSOCK_BUF_ALLOC)),
        (''fwd_cnt'', Num (uint fwd))]"

definition packet_ok :: "nat \<Rightarrow> nat \<Rightarrow> nat \<Rightarrow> nat \<Rightarrow> nat \<Rightarrow> bytes \<Rightarrow> bool" where
  "packet_ok cid lp pp opc flags payload \<longleftrightarrow> cid < 2 ^ 64 \<and> lp < 2 ^ 32 \<and> pp < 2 ^ 32 \<and> opc < 2 ^ 16 \<and>
     flags < 2 ^ 32 \<and> length payload < 2 ^ 32"

lemma uint_32_less: "uint (w :: 32 word) < 4294967296"
  using uint_bounded [of w] by simp

lemma header_values_typed:
  "packet_ok cid lp pp opc flags payload \<Longrightarrow>
     fields_typed VsockHeader (header_values cid lp pp opc flags payload fwd) \<and>
     distinct (map fst (header_values cid lp pp opc flags payload fwd))"
  using uint_32_less [of fwd]
  by (simp add: packet_ok_def header_values_def fields_typed_def scalar_range_def is_bigint_def HOST_CID_def
      VT_STREAM_def DEFAULT_VSOCK_BUF_ALLOC_def)

text \<open>A packet: its length, its payload and every field of its header.\<close>

lemma encode_packet_works:
  assumes "packet_ok cid lp pp opc flags payload"
  shows "\<exists>packet. encode_packet cid lp pp opc flags payload fwd = Inr packet \<and>
    length packet = 44 + length payload \<and> subarray packet 44 (44 + length payload) = payload \<and>
    (\<forall>(k, v) \<in> set (header_values cid lp pp opc flags payload fwd).
       get_field VsockHeader (whole_view packet) k = Inr v)"
proof -
  let ?kvs = "header_values cid lp pp opc flags payload fwd"
  let ?dv = "whole_view (replicate (44 + length payload) 0)"
  have typed: "fields_typed VsockHeader ?kvs" "distinct (map fst ?kvs)"
    using header_values_typed [OF assms] by simp_all
  from set_fields_total [of ?dv VsockHeader ?kvs] typed(1) obtain buf where
    buf: "set_fields VsockHeader ?dv ?kvs = Inr buf" by auto
  have len: "length buf = 44 + length payload"
    using only_writes_length [OF set_fields_only_writes [OF buf]] by simp
  let ?p = "overwrite buf 44 payload"
  have "get_field VsockHeader (whole_view ?p) k = Inr v" if kv: "(k, v) \<in> set ?kvs" for k v
  proof -
    from typed(1) kv obtain off t where at: "field_at VsockHeader 0 k = Some (off, t)" "flat t" "has_type t v"
      by (fastforce simp: fields_typed_def list_all_iff split: option.splits)
    have "same_window (whole_view buf) (whole_view ?p) off (ty_size t)"
      using field_at_bounds [OF at(1)] len
      by (auto simp: same_window_def length_overwrite subarray_overwrite_disjoint)
    from ty_get_local [OF at(2) this] set_fields_reads_back [OF buf whole_view_ok typed(2) kv at] len
    show ?thesis using at(1) by (simp add: get_field_def whole_view_def)
  qed
  then show ?thesis
    using buf len unfolding encode_packet_def header_values_def [symmetric] VsockHeader_size
    by (auto simp: length_overwrite subarray_overwrite_same)
qed

lemma get_num_field: "get_field fs dv k = Inr (Num v) \<Longrightarrow> get_num fs dv k = Inr (nat v)"
  by (simp add: get_num_def)

lemma parse_encoded:
  assumes "packet_ok cid lp pp opc flags payload"
    and "encode_packet cid lp pp opc flags payload fwd = Inr packet"
  shows "parse_packet packet = Inr (\<lparr>vh_dst_port = pp, vh_src_port = lp, vh_len = length payload, vh_op = opc,
    vh_flags = flags, vh_buf_alloc = DEFAULT_VSOCK_BUF_ALLOC, vh_fwd_cnt = unat fwd\<rparr>, payload)"
proof -
  from encode_packet_works [OF assms(1), of fwd] assms(2) have
    p: "length packet = 44 + length payload" "subarray packet 44 (44 + length payload) = payload"
    "\<forall>(k, v) \<in> set (header_values cid lp pp opc flags payload fwd).
       get_field VsockHeader (whole_view packet) k = Inr v" by auto
  then have "get_num VsockHeader (whole_view packet) ''dst_port'' = Inr pp"
    "get_num VsockHeader (whole_view packet) ''src_port'' = Inr lp"
    "get_num VsockHeader (whole_view packet) ''len'' = Inr (length payload)"
    "get_num VsockHeader (whole_view packet) ''op'' = Inr opc"
    "get_num VsockHeader (whole_view packet) ''flags'' = Inr flags"
    "get_num VsockHeader (whole_view packet) ''buf_alloc'' = Inr DEFAULT_VSOCK_BUF_ALLOC"
    "get_num VsockHeader (whole_view packet) ''fwd_cnt'' = Inr (unat fwd)"
    by (simp_all add: header_values_def get_num_field nat_uint_eq)
  with p(1,2) show ?thesis by (simp add: parse_packet_def read_header_def assertE_def)
qed

section \<open>Delivery to the guest\<close>

text \<open>
  What the guest has been sent and will be sent, in order: the packets in filled chains, then the
  pending ones.
\<close>

definition delivered_packet :: "vq_chain \<times> nat \<Rightarrow> bytes" where
  "delivered_packet x = take (snd x) (vb_array (hd (ch_buffers (fst x))))"

definition wire :: "vsock \<Rightarrow> bytes list" where
  "wire vs = map delivered_packet (vs_delivered vs) @ vs_pending vs"

text \<open>Receive buffers as Linux posts them: one writable descriptor, large enough for any packet.\<close>

definition good_chain :: "vq_chain \<Rightarrow> bool" where
  "good_chain ch \<longleftrightarrow> (\<exists>b. ch_buffers ch = [b] \<and> vb_writable b \<and>
     layout_size VsockHeader + MAX_VSOCK_PAYLOAD \<le> length (vb_array b))"

definition rx_good :: "vsock \<Rightarrow> bool" where
  "rx_good vs \<longleftrightarrow> list_all good_chain (rx_chains (vs_rx vs)) \<and>
     list_all (\<lambda>p. length p \<le> layout_size VsockHeader + MAX_VSOCK_PAYLOAD) (vs_pending vs)"

text \<open>The parts of the device that sending leaves alone.\<close>

definition same_conns :: "vsock \<Rightarrow> vsock \<Rightarrow> bool" where
  "same_conns vs vs' \<longleftrightarrow> vs_conns vs' = vs_conns vs \<and> vs_ports vs' = vs_ports vs \<and>
     vs_next_port vs' = vs_next_port vs \<and> vs_stopped vs' = vs_stopped vs \<and> vs_timers vs' = vs_timers vs \<and>
     vs_promises vs' = vs_promises vs \<and> vs_reads vs' = vs_reads vs \<and> vs_writes vs' = vs_writes vs \<and>
     vs_guest_cid vs' = vs_guest_cid vs \<and> vs_released vs' = vs_released vs"

lemma same_conns_refl [simp]: "same_conns vs vs"
  by (simp add: same_conns_def)

lemma same_conns_trans: "same_conns vs vs1 \<Longrightarrow> same_conns vs1 vs2 \<Longrightarrow> same_conns vs vs2"
  by (simp add: same_conns_def)

lemma flush_packets_same: "same_conns vs (fst (flush_packets ps vs))"
proof (induction ps vs rule: flush_packets.induct)
  case (2 p ps vs)
  then show ?case by (auto split: prod.splits option.splits sum.splits simp: same_conns_def)
qed (simp add: same_conns_def)

lemma flush_same: "same_conns vs (fst (flush vs))"
  by (simp add: flush_def flush_packets_same)

lemma send_same: "same_conns vs (fst (send c opc flags payload fwd vs))"
  using flush_same [of "vs\<lparr>vs_pending := p\<rparr>" for p]
  by (auto simp: send_def same_conns_def split: sum.split)

lemma ops_same:
  "same_conns vs (fst (ops_send i opc flags payload fwd vs))" "same_conns vs (fst (ops_close i vs))"
  by (auto simp: ops_send_def ops_close_def send_same split: option.split)

lemma fill_good:
  assumes "good_chain ch" and "length p \<le> layout_size VsockHeader + MAX_VSOCK_PAYLOAD"
  shows "\<exists>ch'. fill_chain p ch = Inr ch' \<and> delivered_packet (ch', length p) = p"
proof -
  from assms(1) obtain b where b: "ch_buffers ch = [b]" "vb_writable b"
    "layout_size VsockHeader + MAX_VSOCK_PAYLOAD \<le> length (vb_array b)" by (auto simp: good_chain_def)
  then have "length p \<le> length (vb_array b)" using assms(2) by simp
  with b show ?thesis by (simp add: fill_chain_def delivered_packet_def overwrite_def)
qed

lemma flush_packets_good:
  assumes "list_all good_chain (rx_chains (vs_rx vs))"
    and "list_all (\<lambda>p. length p \<le> layout_size VsockHeader + MAX_VSOCK_PAYLOAD) ps"
  shows "\<exists>vs'. flush_packets ps vs = (vs', Inr ()) \<and> rx_good vs' \<and>
    wire vs' = map delivered_packet (vs_delivered vs) @ ps"
  using assms
proof (induction ps vs rule: flush_packets.induct)
  case (1 vs)
  then show ?case by (simp add: rx_good_def wire_def)
next
  case (2 p ps vs)
  show ?case
  proof (cases "rx_chains (vs_rx vs)")
    case Nil
    with 2 show ?thesis by (simp add: rx_deliver_def rx_good_def wire_def)
  next
    case (Cons ch chs)
    with 2 obtain ch' where ch': "fill_chain p ch = Inr ch'" "delivered_packet (ch', length p) = p"
      using fill_good [of ch p] by auto
    have d: "rx_deliver (vs_rx vs) = ((vs_rx vs)\<lparr>rx_chains := chs\<rparr>, Some ch)"
      using Cons by (simp add: rx_deliver_def)
    from 2 Cons ch' d show ?thesis by fastforce
  qed
qed

lemma send_good:
  assumes "rx_good vs" and "packet_ok (vs_guest_cid vs) (cn_local_port c) (cn_peer_port c) opc flags payload"
    and "length payload \<le> MAX_VSOCK_PAYLOAD"
  shows "\<exists>vs' packet. send c opc flags payload fwd vs = (vs', Inr ()) \<and> rx_good vs' \<and> same_conns vs vs' \<and>
    encode_packet (vs_guest_cid vs) (cn_local_port c) (cn_peer_port c) opc flags payload fwd = Inr packet \<and>
    wire vs' = wire vs @ [packet]"
proof -
  from encode_packet_works [OF assms(2), of fwd] obtain packet where
    p: "encode_packet (vs_guest_cid vs) (cn_local_port c) (cn_peer_port c) opc flags payload fwd = Inr packet"
    "length packet = 44 + length payload" by blast
  let ?vs = "vs\<lparr>vs_pending := vs_pending vs @ [packet]\<rparr>"
  have "list_all (\<lambda>p. length p \<le> layout_size VsockHeader + MAX_VSOCK_PAYLOAD) (vs_pending ?vs)"
    using assms(1,3) p(2) by (simp add: rx_good_def)
  with flush_packets_good [of ?vs "vs_pending ?vs"] assms(1) obtain vs' where
    f: "flush ?vs = (vs', Inr ())" "rx_good vs'" "wire vs' = wire vs @ [packet]"
    by (auto simp: rx_good_def flush_def wire_def)
  with p(1) have "send c opc flags payload fwd vs = (vs', Inr ())" by (simp add: send_def)
  with f p(1) send_same [of vs c opc flags payload fwd] show ?thesis by auto
qed

section \<open>Registered connections\<close>

text \<open>
  The invariant of the port table: ports are distinct and in the ephemeral range, each refers to a
  connection with that local port, every open connection is the one registered at its port, and a
  running timer belongs to a connection that is registered and not yet connected.
\<close>

definition vs_ok :: "vsock \<Rightarrow> bool" where
  "vs_ok vs \<longleftrightarrow> distinct (map fst (vs_ports vs)) \<and>
     (\<forall>(p, ps) \<in> set (vs_ports vs). 49152 \<le> p \<and> p \<le> 65535 \<and> ps_conn ps < length (vs_conns vs) \<and>
        cn_local_port (vs_conns vs ! ps_conn ps) = p) \<and>
     (\<forall>i < length (vs_conns vs). \<not> cn_closed (vs_conns vs ! i) \<longrightarrow>
        (\<exists>ps. (cn_local_port (vs_conns vs ! i), ps) \<in> set (vs_ports vs) \<and> ps_conn ps = i)) \<and>
     (\<forall>i \<in> set (vs_timers vs). i < length (vs_conns vs) \<and>
        (cn_local_port (vs_conns vs ! i), \<lparr>ps_conn = i, ps_connected = False\<rparr>) \<in> set (vs_ports vs)) \<and>
     49152 \<le> vs_next_port vs \<and> vs_next_port vs \<le> 65535"

lemma vs_okD:
  assumes "vs_ok vs"
  shows "distinct (map fst (vs_ports vs))"
    and "\<And>p ps. (p, ps) \<in> set (vs_ports vs) \<Longrightarrow> 49152 \<le> p \<and> p \<le> 65535 \<and> ps_conn ps < length (vs_conns vs) \<and>
      cn_local_port (vs_conns vs ! ps_conn ps) = p"
    and "\<And>i. i < length (vs_conns vs) \<Longrightarrow> \<not> cn_closed (vs_conns vs ! i) \<Longrightarrow>
      \<exists>ps. (cn_local_port (vs_conns vs ! i), ps) \<in> set (vs_ports vs) \<and> ps_conn ps = i"
    and "\<And>i. i \<in> set (vs_timers vs) \<Longrightarrow> i < length (vs_conns vs) \<and>
      (cn_local_port (vs_conns vs ! i), \<lparr>ps_conn = i, ps_connected = False\<rparr>) \<in> set (vs_ports vs)"
    and "49152 \<le> vs_next_port vs" "vs_next_port vs \<le> 65535"
  using assms unfolding vs_ok_def by blast+

lemma vs_okI:
  assumes "distinct (map fst (vs_ports vs))"
    and "\<And>p ps. (p, ps) \<in> set (vs_ports vs) \<Longrightarrow> 49152 \<le> p \<and> p \<le> 65535 \<and> ps_conn ps < length (vs_conns vs) \<and>
      cn_local_port (vs_conns vs ! ps_conn ps) = p"
    and "\<And>i. i < length (vs_conns vs) \<Longrightarrow> \<not> cn_closed (vs_conns vs ! i) \<Longrightarrow>
      \<exists>ps. (cn_local_port (vs_conns vs ! i), ps) \<in> set (vs_ports vs) \<and> ps_conn ps = i"
    and "\<And>i. i \<in> set (vs_timers vs) \<Longrightarrow> i < length (vs_conns vs) \<and>
      (cn_local_port (vs_conns vs ! i), \<lparr>ps_conn = i, ps_connected = False\<rparr>) \<in> set (vs_ports vs)"
    and "49152 \<le> vs_next_port vs" "vs_next_port vs \<le> 65535"
  shows "vs_ok vs"
  using assms unfolding vs_ok_def by blast

lemma vs_ok_new: "vs_ok (new_vsock cid)"
  by (simp add: vs_ok_def new_vsock_def)

lemma same_conns_ok: "same_conns vs vs' \<Longrightarrow> vs_ok vs' = vs_ok vs"
  by (simp add: same_conns_def vs_ok_def)

lemma vs_ok_frame [simp]:
  "vs_ok (vs\<lparr>vs_rx := rx\<rparr>) = vs_ok vs" "vs_ok (vs\<lparr>vs_pending := ps\<rparr>) = vs_ok vs"
  "vs_ok (vs\<lparr>vs_reads := r\<rparr>) = vs_ok vs" "vs_ok (vs\<lparr>vs_writes := w\<rparr>) = vs_ok vs"
  "vs_ok (vs\<lparr>vs_released := l\<rparr>) = vs_ok vs" "vs_ok (vs\<lparr>vs_stopped := b\<rparr>) = vs_ok vs"
  "vs_ok (vs\<lparr>vs_promises := m\<rparr>) = vs_ok vs"
  by (simp_all add: vs_ok_def)

lemma registered_unique:
  "vs_ok vs \<Longrightarrow> (p, ps) \<in> set (vs_ports vs) \<Longrightarrow> (p, ps') \<in> set (vs_ports vs) \<Longrightarrow> ps' = ps"
  unfolding vs_ok_def by (auto dest: eq_key_imp_eq_value)

lemma registered_map_of: "vs_ok vs \<Longrightarrow> map_of (vs_ports vs) p = Some ps \<longleftrightarrow> (p, ps) \<in> set (vs_ports vs)"
  by (simp add: vs_ok_def)

text \<open>Replacing a connection by one at the same port that is no more open.\<close>

definition conn_frame :: "vconn \<Rightarrow> vconn \<Rightarrow> bool" where
  "conn_frame c c' \<longleftrightarrow> cn_local_port c' = cn_local_port c \<and> (cn_closed c \<longrightarrow> cn_closed c')"

lemma set_conn_ok:
  assumes "vs_ok vs" and "conn_frame (vs_conns vs ! i) c"
  shows "vs_ok (set_conn i c vs)"
proof -
  have loc: "cn_local_port ((vs_conns vs)[i := c] ! j) = cn_local_port (vs_conns vs ! j)"
    if "j < length (vs_conns vs)" for j
    using assms(2) that by (cases "i = j") (auto simp: conn_frame_def)
  have opn: "\<not> cn_closed (vs_conns vs ! j)"
    if "\<not> cn_closed ((vs_conns vs)[i := c] ! j)" "j < length (vs_conns vs)" for j
    using assms(2) that by (cases "i = j") (auto simp: conn_frame_def)
  show ?thesis
  proof (rule vs_okI)
    fix j assume j: "j < length (vs_conns (set_conn i c vs))" "\<not> cn_closed (vs_conns (set_conn i c vs) ! j)"
    then have "j < length (vs_conns vs)" "\<not> cn_closed (vs_conns vs ! j)" using opn by (simp_all add: set_conn_def)
    with vs_okD(3) [OF assms(1)] loc show "\<exists>ps. (cn_local_port (vs_conns (set_conn i c vs) ! j), ps) \<in>
        set (vs_ports (set_conn i c vs)) \<and> ps_conn ps = j" by (simp add: set_conn_def)
  qed (use vs_okD [OF assms(1)] loc in \<open>simp_all add: set_conn_def\<close>)
qed

lemma settle_connect_ok: "vs_ok vs \<Longrightarrow> vs_ok (settle_connect i r vs)"
  by (auto simp: vs_ok_def settle_connect_def)

lemma conn_ops_frame:
  "conn_frame c (close_from_peer c)" "conn_frame c (update_credit a f c)" "conn_frame c (enqueue d c)"
  "conn_frame c (read_chunk w t c)" "conn_frame c (fst (consume n c))"
  "conn_frame c (c\<lparr>cn_resumed := r\<rparr>)" "conn_frame c (c\<lparr>cn_read_buffer := b\<rparr>)" "conn_frame c (c\<lparr>cn_writes := ws\<rparr>)"
  "conn_frame c (c\<lparr>cn_credit_wait := q\<rparr>)" "conn_frame c (c\<lparr>cn_bytes_written := n32\<rparr>)"
  by (auto simp: conn_frame_def close_from_peer_def update_credit_def enqueue_def read_chunk_def consume_def Let_def
      split: list.split)

lemma send_ok: "vs_ok vs \<Longrightarrow> vs_ok (fst (send c opc flags payload fwd vs))"
  by (simp add: same_conns_ok [OF send_same])

lemma ops_ok:
  "vs_ok vs \<Longrightarrow> vs_ok (fst (ops_send i opc flags payload fwd vs))" "vs_ok vs \<Longrightarrow> vs_ok (fst (ops_close i vs))"
  by (simp_all add: same_conns_ok [OF ops_same(1)] same_conns_ok [OF ops_same(2)])

lemma flush_ok: "vs_ok vs \<Longrightarrow> vs_ok (fst (flush vs))"
  by (simp add: same_conns_ok [OF flush_same])

lemma delete_port_ok:
  assumes "vs_ok vs" and "\<And>i. i < length (vs_conns vs) \<Longrightarrow> cn_local_port (vs_conns vs ! i) = p \<Longrightarrow>
      cn_closed (vs_conns vs ! i) \<and> i \<notin> set (vs_timers vs)"
  shows "vs_ok (delete_port p vs)"
proof -
  note D = vs_okD [OF assms(1)]
  have ports: "(q, ps) \<in> set (vs_ports (delete_port p vs)) \<longleftrightarrow> (q, ps) \<in> set (vs_ports vs) \<and> q \<noteq> p" for q ps
    by (auto simp: delete_port_def)
  show ?thesis
  proof (rule vs_okI)
    show "distinct (map fst (vs_ports (delete_port p vs)))"
      using D(1) by (simp add: delete_port_def distinct_map_filter)
    fix i assume "i < length (vs_conns (delete_port p vs))" "\<not> cn_closed (vs_conns (delete_port p vs) ! i)"
    then show "\<exists>ps. (cn_local_port (vs_conns (delete_port p vs) ! i), ps) \<in> set (vs_ports (delete_port p vs)) \<and>
        ps_conn ps = i"
      using D(3) [of i] assms(2) [of i] unfolding ports by (auto simp: delete_port_def)
  next
    fix i assume "i \<in> set (vs_timers (delete_port p vs))"
    then show "i < length (vs_conns (delete_port p vs)) \<and>
        (cn_local_port (vs_conns (delete_port p vs) ! i), \<lparr>ps_conn = i, ps_connected = False\<rparr>) \<in>
          set (vs_ports (delete_port p vs))"
      using D(4) [of i] assms(2) [of i] unfolding ports by (auto simp: delete_port_def)
  qed (use D ports in \<open>auto simp: delete_port_def\<close>)
qed

text \<open>Only the registered connection of a port can be open or have a timer.\<close>

lemma other_conns_done:
  assumes "vs_ok vs" and "(p, ps) \<in> set (vs_ports vs)" and "i < length (vs_conns vs)"
    and "cn_local_port (vs_conns vs ! i) = p" and "i \<noteq> ps_conn ps"
  shows "cn_closed (vs_conns vs ! i) \<and> i \<notin> set (vs_timers vs)"
proof -
  have uniq: "ps' = ps" if "(p, ps') \<in> set (vs_ports vs)" for ps'
    using registered_unique [OF assms(1,2) that] .
  have "cn_closed (vs_conns vs ! i)"
    using vs_okD(3) [OF assms(1,3)] assms(4,5) uniq by auto
  moreover have "i \<notin> set (vs_timers vs)"
  proof
    assume "i \<in> set (vs_timers vs)"
    with vs_okD(4) [OF assms(1)] assms(4) have "(p, \<lparr>ps_conn = i, ps_connected = False\<rparr>) \<in> set (vs_ports vs)" by auto
    from uniq [OF this] assms(5) show False by (cases ps) simp
  qed
  ultimately show ?thesis ..
qed

lemma set_conn_sel [simp]:
  "length (vs_conns (set_conn i c vs)) = length (vs_conns vs)" "vs_ports (set_conn i c vs) = vs_ports vs"
  "vs_timers (set_conn i c vs) = vs_timers vs" "vs_next_port (set_conn i c vs) = vs_next_port vs"
  "vs_conns (set_conn i c vs) = (vs_conns vs)[i := c]" "vs_stopped (set_conn i c vs) = vs_stopped vs"
  "vs_guest_cid (set_conn i c vs) = vs_guest_cid vs" "vs_reads (set_conn i c vs) = vs_reads vs"
  by (simp_all add: set_conn_def)

lemma settle_connect_sel [simp]:
  "vs_conns (settle_connect i r vs) = vs_conns vs" "vs_ports (settle_connect i r vs) = vs_ports vs"
  "vs_timers (settle_connect i r vs) = removeAll i (vs_timers vs)"
  "vs_next_port (settle_connect i r vs) = vs_next_port vs"
  by (simp_all add: settle_connect_def)

lemma close_from_peer_closed [simp]: "cn_closed (close_from_peer c)"
  by (simp add: close_from_peer_def)

lemma close_from_peer_port [simp]: "cn_local_port (close_from_peer c) = cn_local_port c"
  by (simp add: close_from_peer_def)

lemma drop_connection_ok:
  assumes "vs_ok vs"
  shows "vs_ok (drop_connection p e vs)"
proof (cases "map_of (vs_ports vs) p")
  case None
  with assms show ?thesis by (simp add: drop_connection_def)
next
  case (Some ps)
  then have reg: "(p, ps) \<in> set (vs_ports vs)" using registered_map_of [OF assms] by simp
  let ?i = "ps_conn ps"
  define vs1 where "vs1 = (if ps_connected ps then vs else settle_connect ?i (Inl e) vs)"
  have vs1: "vs_ok vs1" "vs_conns vs1 = vs_conns vs" "vs_ports vs1 = vs_ports vs"
    using assms by (simp_all add: vs1_def settle_connect_ok)
  have timer: "?i \<notin> set (vs_timers vs1)"
  proof
    assume "?i \<in> set (vs_timers vs1)"
    then have "ps_connected ps" "?i \<in> set (vs_timers vs)" by (auto simp: vs1_def split: if_splits)
    moreover have "cn_local_port (vs_conns vs ! ?i) = p" using assms reg by (auto simp: vs_ok_def)
    ultimately have "(p, \<lparr>ps_conn = ?i, ps_connected = False\<rparr>) \<in> set (vs_ports vs)"
      using assms by (auto simp: vs_ok_def)
    from registered_unique [OF assms this reg] \<open>ps_connected ps\<close> show False by (cases ps) simp
  qed
  let ?vs2 = "set_conn ?i (close_from_peer (vs_conns vs1 ! ?i)) vs1"
  have ok2: "vs_ok ?vs2" using vs1(1) conn_ops_frame(1) by (rule set_conn_ok)
  have "vs_ok (delete_port p ?vs2)"
  proof (rule delete_port_ok [OF ok2])
    fix j assume j: "j < length (vs_conns ?vs2)" "cn_local_port (vs_conns ?vs2 ! j) = p"
    show "cn_closed (vs_conns ?vs2 ! j) \<and> j \<notin> set (vs_timers ?vs2)"
    proof (cases "j = ?i")
      case True
      with j(1) timer show ?thesis by simp
    next
      case False
      with j have "cn_local_port (vs_conns vs1 ! j) = p" "j < length (vs_conns vs1)" by simp_all
      from other_conns_done [OF vs1(1) _ this(2,1) False] reg vs1(3) False show ?thesis by simp
    qed
  qed
  with Some show ?thesis by (simp add: drop_connection_def Let_def vs1_def)
qed

text \<open>Closing every registered connection, as \<open>reset\<close> and \<open>close\<close> do.\<close>

definition dropped :: "(nat \<times> port_state) list \<Rightarrow> vsock \<Rightarrow> vsock \<Rightarrow> bool" where
  "dropped xs vs vs' \<longleftrightarrow> vs_ports vs' = vs_ports vs \<and> length (vs_conns vs') = length (vs_conns vs) \<and>
     vs_ok vs' \<and> set (vs_timers vs') \<subseteq> set (vs_timers vs) \<and>
     (\<forall>i < length (vs_conns vs). cn_closed (vs_conns vs ! i) \<longrightarrow> cn_closed (vs_conns vs' ! i)) \<and>
     (\<forall>x \<in> set xs. (ps_conn (snd x) < length (vs_conns vs) \<longrightarrow> cn_closed (vs_conns vs' ! ps_conn (snd x))) \<and>
        (\<not> ps_connected (snd x) \<longrightarrow> ps_conn (snd x) \<notin> set (vs_timers vs')))"

lemma dropped_join: "dropped xs vs vs1 \<Longrightarrow> dropped ys vs1 vs2 \<Longrightarrow> dropped (xs @ ys) vs vs2"
  unfolding dropped_def set_append by auto

lemma dropped_one:
  assumes "vs_ok vs"
  shows "dropped [(p, ps)] vs (drop_all [(p, ps)] e vs)"
proof -
  define vs1 where "vs1 = (if ps_connected ps then vs else settle_connect (ps_conn ps) (Inl e) vs)"
  have "vs_ok vs1" using assms by (simp add: vs1_def settle_connect_ok)
  then have "vs_ok (set_conn (ps_conn ps) (close_from_peer (vs_conns vs1 ! ps_conn ps)) vs1)"
    using conn_ops_frame(1) by (rule set_conn_ok)
  moreover have "vs_conns vs1 = vs_conns vs" "vs_ports vs1 = vs_ports vs" "set (vs_timers vs1) \<subseteq> set (vs_timers vs)"
    "\<not> ps_connected ps \<longrightarrow> ps_conn ps \<notin> set (vs_timers vs1)"
    by (auto simp: vs1_def)
  moreover have "cn_closed ((vs_conns vs)[ps_conn ps := close_from_peer c] ! i)"
    if "i < length (vs_conns vs)" "cn_closed (vs_conns vs ! i)" for i c
    using that by (cases "i = ps_conn ps") auto
  ultimately show ?thesis by (simp add: dropped_def vs1_def [symmetric])
qed

lemma drop_all_Cons: "drop_all (x # xs) e vs = drop_all xs e (drop_all [x] e vs)"
  by (cases x) (simp add: Let_def)

lemma dropped_Nil: "vs_ok vs \<Longrightarrow> dropped [] vs vs"
  by (simp add: dropped_def)

lemma dropped_all:
  assumes "vs_ok vs"
  shows "dropped xs vs (drop_all xs e vs)"
  using assms
proof (induction xs arbitrary: vs)
  case Nil
  then show ?case by (simp add: dropped_Nil)
next
  case (Cons x xs)
  have one: "dropped [x] vs (drop_all [x] e vs)" using dropped_one [OF Cons.prems] by (cases x) blast
  then have "vs_ok (drop_all [x] e vs)" by (simp add: dropped_def)
  from dropped_join [OF one Cons.IH [OF this]] show ?case by (simp only: drop_all_Cons [of x xs]) simp
qed

text \<open>When all are dropped, the table can be cleared.\<close>

lemma dropped_clear:
  assumes "vs_ok vs" and "dropped (vs_ports vs) vs vs'"
  shows "vs_ok (vs'\<lparr>vs_ports := []\<rparr>)"
proof (rule vs_okI)
  note D = vs_okD [OF assms(1)]
  have ok': "vs_ok vs'" and ports: "vs_ports vs' = vs_ports vs" and len: "length (vs_conns vs') = length (vs_conns vs)"
    and fin: "\<And>p ps. (p, ps) \<in> set (vs_ports vs) \<Longrightarrow> (ps_conn ps < length (vs_conns vs) \<longrightarrow>
      cn_closed (vs_conns vs' ! ps_conn ps)) \<and> (\<not> ps_connected ps \<longrightarrow> ps_conn ps \<notin> set (vs_timers vs'))"
    using assms(2) by (force simp: dropped_def)+
  note D' = vs_okD [OF ok', unfolded ports]
  show "\<exists>ps. (cn_local_port (vs_conns (vs'\<lparr>vs_ports := []\<rparr>) ! i), ps) \<in> set (vs_ports (vs'\<lparr>vs_ports := []\<rparr>)) \<and>
      ps_conn ps = i"
    if "i < length (vs_conns (vs'\<lparr>vs_ports := []\<rparr>))" "\<not> cn_closed (vs_conns (vs'\<lparr>vs_ports := []\<rparr>) ! i)" for i
    using D'(3) [of i] fin len that by auto
  show "i < length (vs_conns (vs'\<lparr>vs_ports := []\<rparr>)) \<and>
      (cn_local_port (vs_conns (vs'\<lparr>vs_ports := []\<rparr>) ! i), \<lparr>ps_conn = i, ps_connected = False\<rparr>) \<in>
        set (vs_ports (vs'\<lparr>vs_ports := []\<rparr>))" if "i \<in> set (vs_timers (vs'\<lparr>vs_ports := []\<rparr>))" for i
    using D'(4) [of i] fin that by fastforce
qed (use vs_okD [of vs'] assms(2) in \<open>auto simp: dropped_def\<close>)

lemma vsock_reset_ok:
  assumes "vs_ok vs"
  shows "vs_ok (vsock_reset vs)"
proof -
  let ?vs = "vs\<lparr>vs_rx := rx_reset (vs_rx vs), vs_pending := []\<rparr>"
  have "vs_ok ?vs" using assms by simp
  from dropped_clear [OF this] dropped_all [OF this, of "vs_ports vs"] show ?thesis
    by (simp add: vsock_reset_def)
qed

lemma reset_peers_dropped:
  assumes "vs_ok vs"
  shows "vs_ok (fst (reset_peers xs vs)) \<and> (snd (reset_peers xs vs) = Inr () \<longrightarrow> dropped xs vs (fst (reset_peers xs vs)))"
  using assms
proof (induction xs arbitrary: vs)
  case Nil
  then show ?case by (simp add: dropped_Nil)
next
  case (Cons x xs)
  obtain p ps where x: "x = (p, ps)" by fastforce
  let ?c = "vs_conns vs ! ps_conn ps"
  obtain vs1 r where s: "send ?c OP_RST 0 [] (cn_bytes_read ?c) vs = (vs1, r)" by fastforce
  have same: "same_conns vs vs1" using send_same [of vs ?c OP_RST 0 "[]" "cn_bytes_read ?c"] s by simp
  then have ok1: "vs_ok vs1" using Cons.prems same_conns_ok by blast
  let ?vs2 = "drop_all [x] (Error ''vsock device closed while connecting'') vs1"
  have one: "dropped [x] vs1 ?vs2" using dropped_one [OF ok1] x by blast
  have "dropped [x] vs ?vs2" using one same by (auto simp: dropped_def same_conns_def)
  moreover have "vs_ok ?vs2" using one by (simp add: dropped_def)
  note Cons.IH [OF this]
  ultimately show ?case
    using s ok1 x dropped_join [of "[x]" vs ?vs2 xs] by (cases r) (auto simp: Let_def)
qed

lemma vsock_close_ok:
  assumes "vs_ok vs"
  shows "vs_ok (fst (vsock_close vs))"
proof -
  obtain vs1 r where r: "reset_peers (vs_ports vs) vs = (vs1, r)" by fastforce
  with reset_peers_dropped [OF assms, of "vs_ports vs"] have "vs_ok vs1" "r = Inr () \<Longrightarrow> vs_ok (vs1\<lparr>vs_ports := []\<rparr>)"
    using dropped_clear [OF assms, of vs1] by auto
  then show ?thesis using r by (cases r) (simp_all add: vsock_close_def)
qed

lemma set_conn_ops_ok:
  assumes "vs_ok vs"
  shows "vs_ok (set_conn i (close_from_peer (vs_conns vs ! i)) vs)"
    and "vs_ok (set_conn i (read_chunk w t (vs_conns vs ! i)) vs)"
    and "vs_ok (set_conn i (enqueue d (vs_conns vs ! i)) vs)"
    and "vs_ok (set_conn i (update_credit a f (vs_conns vs ! i)) vs)"
    and "vs_ok (set_conn i ((vs_conns vs ! i)\<lparr>cn_writes := ws\<rparr>) vs)"
    and "vs_ok (set_conn i ((vs_conns vs ! i)\<lparr>cn_resumed := r\<rparr>) vs)"
    and "vs_ok (set_conn i ((vs_conns vs ! i)\<lparr>cn_read_buffer := b\<rparr>) vs)"
    and "vs_ok (set_conn i ((vs_conns vs ! i)\<lparr>cn_credit_wait := q\<rparr>) vs)"
    and "vs_ok (set_conn i ((vs_conns vs ! i)\<lparr>cn_bytes_written := n\<rparr>) vs)"
    and "vs_ok (set_conn i (fst (consume k (vs_conns vs ! i))) vs)"
  by (rule set_conn_ok [OF assms], rule conn_ops_frame)+

lemma consume_at_ok: "vs_ok vs \<Longrightarrow> vs_ok (fst (consume_at i n vs))"
  using set_conn_ops_ok(10) [of vs i n] ops_ok(1)
  by (auto simp: consume_at_def Let_def split: prod.split)

lemma read_exactly_turn_ok: "vs_ok vs \<Longrightarrow> vs_ok (read_exactly_turn i w n out vs)"
  by (simp add: read_exactly_turn_def finish_read_def set_conn_ops_ok)

lemma read_resume_ok:
  assumes "vs_ok vs"
  shows "vs_ok (fst (read_resume i k vs))"
proof -
  let ?c = "vs_conns vs ! i"
  obtain w t chunk where r: "cn_resumed ?c ! k = (w, t, chunk)" by (cases "cn_resumed ?c ! k") auto
  let ?vs = "set_conn i (?c\<lparr>cn_resumed := remove_nth k (cn_resumed ?c)\<rparr>) vs"
  have ok: "vs_ok ?vs" using assms by (rule set_conn_ops_ok(6))
  have c: "vs_ok vs1" if "consume_at i n ?vs = (vs1, x)" for n vs1 x
    using consume_at_ok [OF ok, of i n] that by simp
  show ?thesis
    using r ok c by (cases t)
      (auto simp: read_resume_def Let_def finish_read_def set_conn_ops_ok read_exactly_turn_ok split: prod.split sum.split)
qed

lemma write_serialized_ok: "vs_ok vs \<Longrightarrow> vs_ok (fst (write_serialized i data vs))"
proof (induction i data vs rule: write_serialized.induct)
  case (1 i data vs)
  let ?c = "vs_conns vs ! i" and ?n = "write_chunk_size (vs_conns vs ! i) data"
  obtain vs1 r where s: "ops_send i OP_RW 0 (take ?n data) (cn_bytes_read ?c) vs = (vs1, r)" by fastforce
  with ops_ok(1) [OF "1.prems", of i OP_RW 0 "take ?n data" "cn_bytes_read ?c"] have ok1: "vs_ok vs1" by simp
  show ?case
  proof (cases "data = [] \<or> cn_closed ?c \<or> conn_available ?c = 0")
    case True
    with "1.prems" show ?thesis
      by (auto simp: write_serialized.simps [of i data] Let_def set_conn_ops_ok)
  next
    case False
    with s ok1 set_conn_ops_ok(9) [OF ok1, of i] "1.IH" show ?thesis
      by (cases r) (auto simp: write_serialized.simps [of i data] Let_def)
  qed
qed

lemma write_turn_ok:
  assumes "vs_ok vs"
  shows "vs_ok (write_turn i vs)"
proof (cases "cn_writes (vs_conns vs ! i)")
  case Nil
  with assms show ?thesis by (simp add: write_turn_def)
next
  case (Cons x rest)
  obtain w data where x: "x = (w, data)" by fastforce
  obtain vs1 st where s: "write_serialized i data vs = (vs1, st)" by fastforce
  with write_serialized_ok [OF assms, of i data] have "vs_ok vs1" by simp
  with assms Cons x s show ?thesis
    by (cases st) (simp_all add: write_turn_def set_conn_ops_ok)
qed

lemma conn_close_ok: "vs_ok vs \<Longrightarrow> vs_ok (fst (conn_close i vs))"
  using ops_ok(2) [of vs i] by (auto simp: conn_close_def set_conn_ops_ok split: prod.split sum.split)

lemma ports_update_ok:
  assumes "vs_ok vs" and "map_of (vs_ports vs) p = Some ps"
  shows "vs_ok (settle_connect (ps_conn ps) r
    (vs\<lparr>vs_ports := AList.update p (ps\<lparr>ps_connected := True\<rparr>) (vs_ports vs)\<rparr>))"
proof -
  note D = vs_okD [OF assms(1)]
  let ?ps = "ps\<lparr>ps_connected := True\<rparr>" and ?ports = "AList.update p (ps\<lparr>ps_connected := True\<rparr>) (vs_ports vs)"
  have reg: "(p, ps) \<in> set (vs_ports vs)" using assms by (simp add: registered_map_of)
  have dist: "distinct (map fst ?ports)" using D(1) by (rule distinct_update)
  have mem: "(q, x) \<in> set ?ports \<longleftrightarrow> (if q = p then x = ?ps else (q, x) \<in> set (vs_ports vs))" for q x
  proof -
    have "(q, x) \<in> set ?ports \<longleftrightarrow> map_of ?ports q = Some x" using dist by simp
    also have "\<dots> \<longleftrightarrow> (if q = p then x = ?ps else map_of (vs_ports vs) q = Some x)"
      by (auto simp: update_conv)
    finally show ?thesis using D(1) by simp
  qed
  have conn: "ps_conn ps < length (vs_conns vs)" "cn_local_port (vs_conns vs ! ps_conn ps) = p"
    using D(2) [OF reg] by simp_all
  show ?thesis
  proof (rule vs_okI)
    fix i assume i: "i \<in> set (vs_timers (settle_connect (ps_conn ps) r (vs\<lparr>vs_ports := ?ports\<rparr>)))"
    then have "i \<in> set (vs_timers vs)" "i \<noteq> ps_conn ps" by simp_all
    with D(4) [of i] registered_unique [OF assms(1) reg] show "i < length (vs_conns (settle_connect (ps_conn ps) r
        (vs\<lparr>vs_ports := ?ports\<rparr>))) \<and> (cn_local_port (vs_conns (settle_connect (ps_conn ps) r
        (vs\<lparr>vs_ports := ?ports\<rparr>)) ! i), \<lparr>ps_conn = i, ps_connected = False\<rparr>) \<in>
        set (vs_ports (settle_connect (ps_conn ps) r (vs\<lparr>vs_ports := ?ports\<rparr>)))"
      by (cases "cn_local_port (vs_conns vs ! i) = p") (fastforce simp: mem)+
  next
    fix i assume "i < length (vs_conns (settle_connect (ps_conn ps) r (vs\<lparr>vs_ports := ?ports\<rparr>)))"
      "\<not> cn_closed (vs_conns (settle_connect (ps_conn ps) r (vs\<lparr>vs_ports := ?ports\<rparr>)) ! i)"
    with D(3) [of i] registered_unique [OF assms(1) reg] show "\<exists>x. (cn_local_port (vs_conns (settle_connect (ps_conn ps) r
        (vs\<lparr>vs_ports := ?ports\<rparr>)) ! i), x) \<in> set (vs_ports (settle_connect (ps_conn ps) r
        (vs\<lparr>vs_ports := ?ports\<rparr>))) \<and> ps_conn x = i"
      by (cases "cn_local_port (vs_conns vs ! i) = p") (auto simp: mem)
  qed (use D(2,5,6) D(2) [OF reg] dist mem in \<open>auto split: if_splits\<close>)
qed

lemma handle_tx_packet_ok:
  assumes "vs_ok vs"
  shows "vs_ok (fst (handle_tx_packet h payload vs))"
proof (cases "map_of (vs_ports vs) (vh_dst_port h)")
  case None
  with assms show ?thesis by (simp add: handle_tx_packet_def)
next
  case (Some ps)
  let ?i = "ps_conn ps"
  let ?vs = "set_conn ?i (update_credit (vh_buf_alloc h) (vh_fwd_cnt h) (vs_conns vs ! ?i)) vs"
  have ok: "vs_ok ?vs" using assms by (rule set_conn_ops_ok(4))
  have up: "vs_ok (settle_connect ?i r (?vs\<lparr>vs_ports := AList.update (vh_dst_port h) (ps\<lparr>ps_connected := True\<rparr>)
      (vs_ports ?vs)\<rparr>))" for r
    using ports_update_ok [OF ok, of "vh_dst_port h" ps r] Some by simp
  have s: "vs_ok vs1" if "send c opc fl pl fwd ?vs = (vs1, x)" for c opc fl pl fwd vs1 x
    using send_ok [OF ok, of c opc fl pl fwd] that by simp
  show ?thesis
    unfolding handle_tx_packet_def Let_def Some
    using ok up s set_conn_ops_ok(3) [OF ok, of ?i payload]
    by (auto simp: drop_connection_ok send_ok simp del: set_conn_sel(5) split: prod.split sum.split)
qed

lemma kick_tx_ok: "vs_ok vs \<Longrightarrow> vs_ok (fst (kick_tx chs vs))"
proof (induction chs vs rule: kick_tx.induct)
  case (2 ch chs vs)
  show ?case
  proof (cases "read_tx_packet ch")
    case (Inl e)
    with "2.prems" show ?thesis by simp
  next
    case (Inr hp)
    obtain h payload where hp: "hp = (h, payload)" by fastforce
    obtain vs1 r where r: "handle_tx_packet h payload vs = (vs1, r)" by fastforce
    with handle_tx_packet_ok [OF "2.prems", of h payload] have "vs_ok vs1" by simp
    with 2 Inr hp r show ?thesis by (cases r) simp_all
  qed
qed simp

lemma connect_ok:
  assumes "vs_ok vs"
  shows "vs_ok (fst (connect port vs))"
proof (cases "vs_stopped vs")
  case True
  with assms show ?thesis by (simp add: connect_def)
next
  case False
  note D = vs_okD [OF assms]
  from D(5,6) show ?thesis
  proof (cases rule: allocate_port_cases)
    case (full q)
    then have "vs_ok (vs\<lparr>vs_next_port := q\<rparr>)" using assms by (simp add: vs_ok_def)
    with full False show ?thesis by (simp add: connect_def)
  next
    case (found p q)
    let ?i = "length (vs_conns vs)" and ?c = "new_conn p port"
    let ?vs = "vs\<lparr>vs_next_port := q, vs_conns := vs_conns vs @ [?c], vs_timers := vs_timers vs @ [?i],
      vs_ports := vs_ports vs @ [(p, \<lparr>ps_conn = ?i, ps_connected = False\<rparr>)]\<rparr>"
    have port: "cn_local_port ?c = p" by (simp add: new_conn_def)
    have "vs_ok ?vs"
    proof (rule vs_okI)
      show "distinct (map fst (vs_ports ?vs))" using D(1) found(2) by simp
      show "49152 \<le> r \<and> r \<le> 65535 \<and> ps_conn ps < length (vs_conns ?vs) \<and>
          cn_local_port (vs_conns ?vs ! ps_conn ps) = r" if "(r, ps) \<in> set (vs_ports ?vs)" for r ps
        using that D(2) [of r ps] found port by (auto simp: nth_append)
      show "\<exists>ps. (cn_local_port (vs_conns ?vs ! i), ps) \<in> set (vs_ports ?vs) \<and> ps_conn ps = i"
        if "i < length (vs_conns ?vs)" "\<not> cn_closed (vs_conns ?vs ! i)" for i
        using that D(3) [of i] port by (cases "i < ?i") (auto simp: nth_append)
      show "i < length (vs_conns ?vs) \<and> (cn_local_port (vs_conns ?vs ! i),
          \<lparr>ps_conn = i, ps_connected = False\<rparr>) \<in> set (vs_ports ?vs)" if "i \<in> set (vs_timers ?vs)" for i
        using that D(4) [of i] port by (auto simp: nth_append)
    qed (use found in simp_all)
    then show ?thesis
      using found False send_ok [of ?vs ?c OP_REQUEST 0 "[]" "cn_bytes_read ?c"]
      by (auto simp: connect_def Let_def split: prod.split sum.split)
  qed
qed

lemma connect_timeout_ok:
  assumes "vs_ok vs" and "i \<in> set (vs_timers vs)"
  shows "vs_ok (fst (connect_timeout i vs))"
proof -
  let ?c = "vs_conns vs ! i"
  let ?vs0 = "vs\<lparr>vs_timers := removeAll i (vs_timers vs)\<rparr>"
  obtain vs1 r where s: "send ?c OP_RST 0 [] (cn_bytes_read ?c) ?vs0 = (vs1, r)" by fastforce
  have "vs_ok ?vs0" using assms(1) by (auto simp: vs_ok_def)
  with send_ok [OF this, of ?c OP_RST 0 "[]" "cn_bytes_read ?c"] s have ok1: "vs_ok vs1" by simp
  have same: "vs_conns vs1 = vs_conns vs" "vs_ports vs1 = vs_ports vs" "vs_timers vs1 = removeAll i (vs_timers vs)"
    using send_same [of ?vs0 ?c OP_RST 0 "[]" "cn_bytes_read ?c"] s by (simp_all add: same_conns_def)
  have i: "i < length (vs_conns vs)" "(cn_local_port ?c, \<lparr>ps_conn = i, ps_connected = False\<rparr>) \<in> set (vs_ports vs)"
    using vs_okD(4) [OF assms] by simp_all
  let ?p = "cn_local_port ?c"
  let ?vs2 = "set_conn i (close_from_peer (vs_conns vs1 ! i)) vs1"
  have "vs_ok (delete_port ?p ?vs2)"
  proof (rule delete_port_ok [OF set_conn_ops_ok(1) [OF ok1]])
    fix j assume j: "j < length (vs_conns ?vs2)" "cn_local_port (vs_conns ?vs2 ! j) = ?p"
    show "cn_closed (vs_conns ?vs2 ! j) \<and> j \<notin> set (vs_timers ?vs2)"
    proof (cases "j = i")
      case True
      with j same show ?thesis by simp
    next
      case False
      with j same other_conns_done [OF assms(1) i(2), of j] show ?thesis by simp
    qed
  qed
  moreover have "set_conn i (close_from_peer (vs_conns (delete_port ?p vs1) ! i)) (delete_port ?p vs1) =
      delete_port ?p ?vs2"
    by (simp add: set_conn_def delete_port_def)
  ultimately have "vs_ok (settle_connect i e (set_conn i (close_from_peer (vs_conns (delete_port ?p vs1) ! i))
      (delete_port ?p vs1)))" for e
    by (simp only: settle_connect_ok)
  with s ok1 show ?thesis by (cases r) (simp_all add: connect_timeout_def Let_def del: set_conn_sel)
qed

lemma kick_rx_ok: "vs_ok vs \<Longrightarrow> vs_ok (fst (kick_rx chs err vs))"
  using flush_ok [of "vs\<lparr>vs_rx := rx\<rparr>" for rx] by (auto simp: kick_rx_def split: prod.split sum.split)

section \<open>Runs\<close>

text \<open>Everything that can happen to the device; an event about a connection needs it to exist.\<close>

datatype vsock_event =
    Connect nat
  | Timeout nat
  | RxKick "vq_chain list" "js_error option"
  | TxKick "vq_chain list"
  | ConnRead nat nat
  | ConnReadExactly nat nat nat
  | ReadResume nat nat
  | ConnWrite nat nat bytes
  | WriteTurn nat
  | ConnClose nat
  | VsockReset
  | VsockStop
  | VsockClose

fun vsock_step :: "vsock_event \<Rightarrow> vsock \<Rightarrow> vsock option" where
  "vsock_step (Connect port) vs = Some (fst (connect port vs))"
| "vsock_step (Timeout i) vs = guarded (i \<in> set (vs_timers vs)) (fst (connect_timeout i vs))"
| "vsock_step (RxKick chs err) vs = Some (fst (kick_rx chs err vs))"
| "vsock_step (TxKick chs) vs = Some (fst (kick_tx chs vs))"
| "vsock_step (ConnRead i w) vs = guarded (i < length (vs_conns vs)) (conn_read i w vs)"
| "vsock_step (ConnReadExactly i w n) vs = guarded (i < length (vs_conns vs)) (conn_read_exactly i w n vs)"
| "vsock_step (ReadResume i k) vs =
     guarded (i < length (vs_conns vs) \<and> k < length (cn_resumed (vs_conns vs ! i))) (fst (read_resume i k vs))"
| "vsock_step (ConnWrite i w data) vs = guarded (i < length (vs_conns vs)) (conn_write i w data vs)"
| "vsock_step (WriteTurn i) vs = guarded (i < length (vs_conns vs)) (write_turn i vs)"
| "vsock_step (ConnClose i) vs = guarded (i < length (vs_conns vs)) (fst (conn_close i vs))"
| "vsock_step VsockReset vs = Some (vsock_reset vs)"
| "vsock_step VsockStop vs = Some (vs\<lparr>vs_stopped := True\<rparr>)"
| "vsock_step VsockClose vs = Some (fst (vsock_close vs))"

inductive vsock_reachable :: "vsock \<Rightarrow> bool" where
  start: "vsock_reachable (new_vsock cid)"
| step: "vsock_reachable vs \<Longrightarrow> vsock_step e vs = Some vs' \<Longrightarrow> vsock_reachable vs'"

lemma vsock_step_ok: "vsock_step e vs = Some vs' \<Longrightarrow> vs_ok vs \<Longrightarrow> vs_ok vs'"
  by (cases e) (auto simp: connect_ok connect_timeout_ok kick_rx_ok kick_tx_ok conn_read_def set_conn_ops_ok
      conn_read_exactly_def read_exactly_turn_ok read_resume_ok conn_write_def write_turn_ok conn_close_ok
      vsock_reset_ok vsock_close_ok simp del: set_conn_sel)

lemma vsock_reachable_ok: "vsock_reachable vs \<Longrightarrow> vs_ok vs"
  by (induction rule: vsock_reachable.induct) (auto simp: vs_ok_new intro: vsock_step_ok)

section \<open>Writing within the credit\<close>

lemma conn_available_sent:
  assumes "n \<le> conn_available c"
  shows "conn_available (c\<lparr>cn_bytes_written := cn_bytes_written c + of_nat n\<rparr>) = conn_available c - n"
proof (cases "n = 0")
  case False
  let ?used = "cn_bytes_written c - cn_fwd_cnt c"
  have fits: "unat ?used + n \<le> unat (cn_buf_alloc c)" using assms False by (simp add: conn_available_def)
  then have "unat ?used + n < 2 ^ 32" using unsigned_less [of "cn_buf_alloc c", where 'a = nat] by simp
  then have sum: "unat (?used + of_nat n) = unat ?used + n"
    by (simp add: unat_word_ariths unat_of_nat take_bit_eq_mod mod_simps)
  have eq: "cn_bytes_written c + of_nat n - cn_fwd_cnt c = ?used + of_nat n" by (rule add_diff_eq [symmetric, THEN trans]) simp
  show ?thesis unfolding conn_available_def vconn.select_convs vconn.update_convs
    using sum by (simp add: eq)
qed simp

text \<open>A connection that can send: open, on a running device with well-formed receive buffers.\<close>

definition can_send :: "nat \<Rightarrow> vsock \<Rightarrow> bool" where
  "can_send i vs \<longleftrightarrow> vs_ok vs \<and> i < length (vs_conns vs) \<and> \<not> cn_closed (vs_conns vs ! i) \<and> rx_good vs \<and>
     \<not> vs_stopped vs \<and> vs_guest_cid vs < 2 ^ 64 \<and> cn_peer_port (vs_conns vs ! i) < 2 ^ 32"

lemma open_port_conn:
  assumes "vs_ok vs" and "i < length (vs_conns vs)" and "\<not> cn_closed (vs_conns vs ! i)"
  shows "port_conn (cn_local_port (vs_conns vs ! i)) vs = Some (vs_conns vs ! i)"
    and "cn_local_port (vs_conns vs ! i) \<le> 65535"
proof -
  from vs_okD(3) [OF assms] obtain ps where ps: "(cn_local_port (vs_conns vs ! i), ps) \<in> set (vs_ports vs)"
    "ps_conn ps = i" by blast
  have "map_of (vs_ports vs) (cn_local_port (vs_conns vs ! i)) = Some ps"
    using registered_map_of [OF assms(1)] ps(1) by blast
  with ps(2) assms(2) show "port_conn (cn_local_port (vs_conns vs ! i)) vs = Some (vs_conns vs ! i)"
    by (simp add: port_conn_def)
  from vs_okD(2) [OF assms(1) ps(1)] show "cn_local_port (vs_conns vs ! i) \<le> 65535" by simp
qed

text \<open>The packet of one piece of data on a connection.\<close>

definition data_packet :: "vsock \<Rightarrow> nat \<Rightarrow> bytes \<Rightarrow> bytes \<Rightarrow> bool" where
  "data_packet vs i packet chunk \<longleftrightarrow>
     encode_packet (vs_guest_cid vs) (cn_local_port (vs_conns vs ! i)) (cn_peer_port (vs_conns vs ! i)) OP_RW 0 chunk
       (cn_bytes_read (vs_conns vs ! i)) = Inr packet"

lemma data_sent:
  assumes "can_send i vs" and "length chunk \<le> MAX_VSOCK_PAYLOAD"
  shows "\<exists>vs' packet. ops_send i OP_RW 0 chunk (cn_bytes_read (vs_conns vs ! i)) vs = (vs', Inr ()) \<and>
    same_conns vs vs' \<and> rx_good vs' \<and> data_packet vs i packet chunk \<and> wire vs' = wire vs @ [packet]"
proof -
  let ?c = "vs_conns vs ! i"
  have c: "vs_ok vs" "i < length (vs_conns vs)" "\<not> cn_closed ?c" "rx_good vs" "\<not> vs_stopped vs"
    "vs_guest_cid vs < 2 ^ 64" "cn_peer_port ?c < 2 ^ 32"
    using assms(1) by (simp_all add: can_send_def)
  have "packet_ok (vs_guest_cid vs) (cn_local_port ?c) (cn_peer_port ?c) OP_RW 0 chunk"
    using c open_port_conn(2) [OF c(1-3)] assms(2) by (simp add: packet_ok_def OP_RW_def MAX_VSOCK_PAYLOAD_def)
  from send_good [OF c(4) this assms(2), of "cn_bytes_read ?c"] open_port_conn(1) [OF c(1-3)] c(5)
  show ?thesis by (auto simp: ops_send_def data_packet_def)
qed

lemma write_serialized_credit:
  assumes "can_send i vs"
  shows "\<exists>vs' chunks packets.
    write_serialized i data vs = (vs', if length data \<le> conn_available (vs_conns vs ! i) then WriteDone
       else WriteBlocked (drop (conn_available (vs_conns vs ! i)) data)) \<and>
    concat chunks = take (conn_available (vs_conns vs ! i)) data \<and>
    (\<forall>chunk \<in> set chunks. 1 \<le> length chunk \<and> length chunk \<le> MAX_VSOCK_PAYLOAD) \<and>
    list_all2 (data_packet vs i) packets chunks \<and> wire vs' = wire vs @ packets \<and>
    conn_available (vs_conns vs' ! i) = conn_available (vs_conns vs ! i) - length data"
  using assms
proof (induction "length data" arbitrary: data vs rule: less_induct)
  case less
  let ?c = "vs_conns vs ! i" and ?a = "conn_available (vs_conns vs ! i)"
  note simps = write_serialized.simps [of i data vs] Let_def
  have open_c: "\<not> cn_closed ?c" "i < length (vs_conns vs)" using less.prems by (simp_all add: can_send_def)
  consider (empty) "data = []" | (blocked) "data \<noteq> []" "?a = 0" | (more) "data \<noteq> []" "?a \<noteq> 0" by blast
  then show ?case
  proof cases
    case empty
    then show ?thesis by (intro exI [of _ vs] exI [of _ "[]"]) (simp add: write_serialized.simps [of i "[]" vs])
  next
    case blocked
    then show ?thesis
      using open_c by (intro exI [of _ "set_conn i (?c\<lparr>cn_credit_wait := True\<rparr>) vs"] exI [of _ "[]"])
        (simp add: simps wire_def set_conn_def conn_available_def)
  next
    case more
    define n where "n = write_chunk_size ?c data"
    have n: "1 \<le> n" "n \<le> MAX_VSOCK_PAYLOAD" "n \<le> ?a" "n \<le> length data"
      using more by (auto simp: n_def write_chunk_size_def MAX_VSOCK_PAYLOAD_def Suc_le_eq)
    have "length (take n data) \<le> MAX_VSOCK_PAYLOAD" using n(2) by simp
    from data_sent [OF less.prems this] obtain vs1 packet where
      s: "ops_send i OP_RW 0 (take n data) (cn_bytes_read ?c) vs = (vs1, Inr ())" "same_conns vs vs1" "rx_good vs1"
      "data_packet vs i packet (take n data)" "wire vs1 = wire vs @ [packet]"
      by blast
    have conns: "vs_conns vs1 = vs_conns vs" using s(2) by (simp add: same_conns_def)
    let ?c2 = "?c\<lparr>cn_bytes_written := cn_bytes_written ?c + of_nat n\<rparr>"
    let ?vs2 = "set_conn i ?c2 vs1"
    have "vs_ok vs1" using less.prems same_conns_ok [OF s(2)] by (simp add: can_send_def)
    then have "vs_ok ?vs2" using set_conn_ops_ok(9) [of vs1 i] conns by simp
    then have ready: "can_send i ?vs2"
      using less.prems s(2,3) open_c by (simp add: can_send_def same_conns_def rx_good_def set_conn_def)
    have a2: "conn_available (vs_conns ?vs2 ! i) = ?a - n"
      using conn_available_sent [OF n(3)] open_c(2) conns by simp
    have same_packet: "data_packet ?vs2 i = data_packet vs i"
      using s(2) open_c(2) by (simp add: data_packet_def same_conns_def fun_eq_iff)
    have "length (drop n data) < length data" using n more(1) by simp
    from less.hyps [OF this ready] a2 same_packet obtain vs' chunks packets where
      r: "write_serialized i (drop n data) ?vs2 = (vs', if length data - n \<le> ?a - n then WriteDone
         else WriteBlocked (drop (?a - n) (drop n data)))"
      "concat chunks = take (?a - n) (drop n data)"
      "\<forall>chunk \<in> set chunks. 1 \<le> length chunk \<and> length chunk \<le> MAX_VSOCK_PAYLOAD"
      "list_all2 (data_packet vs i) packets chunks" "wire vs' = wire ?vs2 @ packets"
      "conn_available (vs_conns vs' ! i) = ?a - n - (length data - n)"
      by auto
    have "write_serialized i data vs = write_serialized i (drop n data) ?vs2"
      using more open_c s(1) conns by (simp add: simps n_def [symmetric])
    moreover have "wire ?vs2 = wire vs @ [packet]" using s(5) by (simp add: wire_def set_conn_def)
    moreover have "take n data @ take (?a - n) (drop n data) = take ?a data"
      using n(3) by (simp add: take_drop min_def) (metis append_take_drop_id take_take min_absorb1)
    ultimately show ?thesis
      using r s(4) n by (intro exI [of _ vs'] exI [of _ "take n data # chunks"] exI [of _ "packet # packets"])
        (auto simp: drop_drop)
  qed
qed

section \<open>Reading the stream\<close>

text \<open>A device on which sending cannot fail.\<close>

definition vs_sound :: "vsock \<Rightarrow> bool" where
  "vs_sound vs \<longleftrightarrow> vs_ok vs \<and> rx_good vs \<and> vs_guest_cid vs < 2 ^ 64 \<and>
     (\<forall>c \<in> set (vs_conns vs). cn_peer_port c < 2 ^ 32)"

lemma ops_send_sound:
  assumes "vs_sound vs" and "opc < 2 ^ 16" and "flags < 2 ^ 32" and "length payload \<le> MAX_VSOCK_PAYLOAD"
  shows "\<exists>vs'. ops_send i opc flags payload fwd vs = (vs', Inr ()) \<and> same_conns vs vs' \<and> vs_sound vs'"
proof (cases "vs_stopped vs \<or> port_conn (cn_local_port (vs_conns vs ! i)) vs = None")
  case True
  with assms(1) show ?thesis by (auto simp: ops_send_def)
next
  case False
  then obtain c where c: "port_conn (cn_local_port (vs_conns vs ! i)) vs = Some c" and run: "\<not> vs_stopped vs" by auto
  then obtain ps where ps: "(cn_local_port (vs_conns vs ! i), ps) \<in> set (vs_ports vs)"
    "ps_conn ps < length (vs_conns vs)" "c = vs_conns vs ! ps_conn ps"
    by (auto simp: port_conn_def split: option.splits if_splits dest: map_of_SomeD)
  have ok: "vs_ok vs" using assms(1) by (simp add: vs_sound_def)
  have "cn_local_port c \<le> 65535" using vs_okD(2) [OF ok ps(1)] ps(3) by simp
  moreover have "cn_peer_port c < 2 ^ 32" using assms(1) ps by (simp add: vs_sound_def)
  ultimately have "packet_ok (vs_guest_cid vs) (cn_local_port c) (cn_peer_port c) opc flags payload"
    using assms by (simp add: packet_ok_def vs_sound_def MAX_VSOCK_PAYLOAD_def)
  from send_good [OF _ this assms(4), of fwd] assms(1) obtain vs' where
    "send c opc flags payload fwd vs = (vs', Inr ())" "rx_good vs'" "same_conns vs vs'"
    by (auto simp: vs_sound_def)
  moreover from this have "vs_sound vs'"
    using assms(1) same_conns_ok [of vs vs'] by (simp add: vs_sound_def same_conns_def)
  ultimately show ?thesis using c run by (simp add: ops_send_def)
qed

lemma set_conn_sound:
  assumes "vs_sound vs" and "conn_frame (vs_conns vs ! i) c" and "cn_peer_port c = cn_peer_port (vs_conns vs ! i)"
    and "i < length (vs_conns vs)"
  shows "vs_sound (set_conn i c vs)"
proof -
  have "cn_peer_port c' < 2 ^ 32" if "c' \<in> set ((vs_conns vs)[i := c])" for c'
    using that set_update_subset_insert [of "vs_conns vs" i c] assms nth_mem [OF assms(4)] by (auto simp: vs_sound_def)
  moreover have "vs_ok (set_conn i c vs)" using assms set_conn_ok by (simp add: vs_sound_def)
  ultimately show ?thesis using assms(1) by (simp add: vs_sound_def rx_good_def set_conn_def)
qed

lemma consume_at_sound:
  assumes "vs_sound vs" and "i < length (vs_conns vs)"
  shows "\<exists>vs'. consume_at i n vs = (vs', Inr ()) \<and>
    same_conns (set_conn i (fst (consume n (vs_conns vs ! i))) vs) vs' \<and> vs_sound vs'"
proof -
  obtain c due where c: "consume n (vs_conns vs ! i) = (c, due)" by fastforce
  then have "cn_peer_port c = cn_peer_port (vs_conns vs ! i)"
    by (auto simp: consume_def Let_def split: if_splits)
  with set_conn_sound [OF assms(1) conn_ops_frame(5) _ assms(2), of n] c have
    s: "vs_sound (set_conn i c vs)" by simp
  with ops_send_sound [OF s, of OP_CREDIT_UPDATE 0 "[]" i "cn_bytes_read c"] c show ?thesis
    by (cases due) (auto simp: consume_at_def OP_CREDIT_UPDATE_def)
qed

text \<open>The stream buffered on an idle connection.\<close>

definition idle_reader :: "vconn \<Rightarrow> bool" where
  "idle_reader c \<longleftrightarrow> cn_read_waiters c = [] \<and> cn_resumed c = [] \<and> [] \<notin> set (cn_read_buffer c)"

primrec read_run :: "nat \<Rightarrow> nat \<Rightarrow> vsock \<Rightarrow> vsock" where
  "read_run i 0 vs = vs"
| "read_run i (Suc k) vs = read_run i k (fst (read_resume i 0 vs))"

definition read_done :: "nat \<Rightarrow> nat \<Rightarrow> bytes \<Rightarrow> bytes \<Rightarrow> 32 word \<Rightarrow> vsock \<Rightarrow> vsock \<Rightarrow> bool" where
  "read_done i w bs rest n vs vs' \<longleftrightarrow> vs_reads vs' = vs_reads vs @ [(w, bs)] \<and>
     concat (cn_read_buffer (vs_conns vs' ! i)) = rest \<and> idle_reader (vs_conns vs' ! i) \<and>
     cn_bytes_read (vs_conns vs' ! i) = cn_bytes_read (vs_conns vs ! i) + n"

lemma consume_sel [simp]:
  "cn_read_buffer (fst (consume n c)) = cn_read_buffer c" "cn_resumed (fst (consume n c)) = cn_resumed c"
  "cn_read_waiters (fst (consume n c)) = cn_read_waiters c" "cn_closed (fst (consume n c)) = cn_closed c"
  "cn_bytes_read (fst (consume n c)) = cn_bytes_read c + of_nat n"
  "cn_peer_port (fst (consume n c)) = cn_peer_port c"
  by (simp_all add: consume_def Let_def)

text \<open>One round of \<open>readExactly\<close>: the next chunk is taken, and what is too much put back.\<close>

lemma read_exactly_step:
  assumes "vs_sound vs" and "i < length (vs_conns vs)" and "idle_reader (vs_conns vs ! i)"
    and "length out < n" and "cn_read_buffer (vs_conns vs ! i) = chunk # rest"
    and "m = min (length chunk) (n - length out)"
  shows "\<exists>vs'. fst (read_resume i 0 (read_exactly_turn i w n out vs)) =
      read_exactly_turn i w n (out @ take m chunk) vs' \<and>
    vs_sound vs' \<and> vs_reads vs' = vs_reads vs \<and> i < length (vs_conns vs') \<and> idle_reader (vs_conns vs' ! i) \<and>
    cn_read_buffer (vs_conns vs' ! i) = (if m < length chunk then drop m chunk # rest else rest) \<and>
    cn_bytes_read (vs_conns vs' ! i) = cn_bytes_read (vs_conns vs ! i) + of_nat m"
proof -
  let ?c = "vs_conns vs ! i"
  have chunk: "chunk \<noteq> []" "[] \<notin> set rest" "cn_resumed ?c = []" "cn_read_waiters ?c = []"
    using assms(3,5) by (auto simp: idle_reader_def)
  define c0 where "c0 = ?c\<lparr>cn_read_buffer := rest\<rparr>"
  let ?vs0 = "set_conn i c0 vs"
  have s0: "vs_sound ?vs0"
    using assms(1,2) unfolding c0_def by (intro set_conn_sound conn_ops_frame(7)) simp_all
  from consume_at_sound [OF s0, of i m] assms(2) obtain vs1 where
    c1: "consume_at i m ?vs0 = (vs1, Inr ())" "same_conns (set_conn i (fst (consume m c0)) ?vs0) vs1" "vs_sound vs1"
    by auto
  have conn1: "vs_conns vs1 ! i = fst (consume m c0)" "length (vs_conns vs1) = length (vs_conns vs)"
    "vs_reads vs1 = vs_reads vs"
    using c1(2) assms(2) by (simp_all add: same_conns_def)
  let ?vs2 = "if m < length chunk
    then set_conn i ((vs_conns vs1 ! i)\<lparr>cn_read_buffer := drop m chunk # rest\<rparr>) vs1 else vs1"
  have turn: "read_exactly_turn i w n out vs = set_conn i (c0\<lparr>cn_resumed := [(w, ReadExactly n out, chunk)]\<rparr>) vs"
    using assms(4,5) chunk(3) by (simp add: read_exactly_turn_def read_chunk_def c0_def)
  have keep: "c0\<lparr>cn_resumed := []\<rparr> = c0" using chunk(3) by (cases ?c) (simp add: c0_def)
  have "set_conn i (c0\<lparr>cn_resumed := []\<rparr>) (set_conn i (c0\<lparr>cn_resumed := [(w, ReadExactly n out, chunk)]\<rparr>) vs) = ?vs0"
    unfolding keep by (simp add: set_conn_def)
  then have "fst (read_resume i 0 (read_exactly_turn i w n out vs)) = read_exactly_turn i w n (out @ take m chunk) ?vs2"
    using assms(2) chunk(1) c1(1) conn1(1) unfolding turn
    by (simp add: read_resume_def remove_nth_def assms(6) [symmetric] c0_def)
  moreover have "vs_sound ?vs2"
    using c1(3) conn1(2) assms(2) by (auto intro!: set_conn_sound conn_ops_frame(7))
  ultimately show ?thesis
    using conn1 assms(2) chunk by (intro exI [of _ ?vs2]) (simp add: idle_reader_def c0_def)
qed

lemma read_exactly_reads:
  assumes "vs_sound vs" and "i < length (vs_conns vs)" and "idle_reader (vs_conns vs ! i)"
    and "length out \<le> n" and "n - length out \<le> length (concat (cn_read_buffer (vs_conns vs ! i)))"
  shows "\<exists>k. read_done i w (out @ take (n - length out) (concat (cn_read_buffer (vs_conns vs ! i))))
    (drop (n - length out) (concat (cn_read_buffer (vs_conns vs ! i)))) (of_nat (n - length out))
    vs (read_run i k (read_exactly_turn i w n out vs))"
  using assms
proof (induction "n - length out" arbitrary: vs out rule: less_induct)
  case less
  let ?c = "vs_conns vs ! i"
  show ?case
  proof (cases "length out = n")
    case True
    with less.prems show ?thesis
      by (intro exI [of _ 0]) (simp add: read_exactly_turn_def read_done_def finish_read_def)
  next
    case False
    then have more: "length out < n" using less.prems(4) by simp
    with less.prems(5) obtain chunk rest where buf: "cn_read_buffer ?c = chunk # rest"
      by (cases "cn_read_buffer ?c") auto
    define m where "m = min (length chunk) (n - length out)"
    have chunk: "chunk \<noteq> []" using less.prems(3) buf by (auto simp: idle_reader_def)
    from read_exactly_step [OF less.prems(1-3) more buf m_def, of w] obtain vs' where
      r: "fst (read_resume i 0 (read_exactly_turn i w n out vs)) = read_exactly_turn i w n (out @ take m chunk) vs'"
      "vs_sound vs'" "vs_reads vs' = vs_reads vs" "i < length (vs_conns vs')" "idle_reader (vs_conns vs' ! i)"
      "cn_read_buffer (vs_conns vs' ! i) = (if m < length chunk then drop m chunk # rest else rest)"
      "cn_bytes_read (vs_conns vs' ! i) = cn_bytes_read ?c + of_nat m" by blast
    let ?out = "out @ take m chunk" and ?s = "concat (cn_read_buffer ?c)"
    have m: "m \<le> n - length out" "m \<le> length chunk" "0 < m" using chunk more by (auto simp: m_def)
    then have len: "length ?out = length out + m" by simp
    have s': "concat (cn_read_buffer (vs_conns vs' ! i)) = drop m ?s" using r(6) buf m(2) by auto
    have left: "m + (n - length ?out) = n - length out" using len m(1) by linarith
    have "take m chunk = take m ?s" using buf m(2) by simp
    then have split: "take m chunk @ take (n - length ?out) (drop m ?s) = take (n - length out) ?s"
      unfolding left [symmetric] take_add by (simp only:)
    have "n - length ?out < n - length out" "length ?out \<le> n" "n - length ?out \<le> length (drop m ?s)"
      using len m less.prems(5) more by auto
    from less.hyps [OF this(1) r(2,4,5) this(2)] this(3) s' obtain k where
      k: "read_done i w (?out @ take (n - length ?out) (drop m ?s)) (drop (n - length ?out) (drop m ?s))
        (of_nat (n - length ?out)) vs' (read_run i k (read_exactly_turn i w n ?out vs'))" by auto
    have "drop (n - length ?out) (drop m ?s) = drop (n - length out) ?s"
      unfolding drop_drop add.commute [of "n - length ?out"] left ..
    moreover have "m + (n - (length out + m)) = n - length out" "min (length chunk) m = m"
      using m(1,2) by linarith+
    ultimately show ?thesis
      using k r(1,3,7) split
      by (intro exI [of _ "Suc k"]) (simp add: read_done_def add.assoc flip: of_nat_add)
  qed
qed

section \<open>Properties\<close>

text \<open>A device with one connection from port 49152 to port 1234 of guest 3, for the witnesses.\<close>

definition demo_vsock :: vsock where
  "demo_vsock = fst (connect 1234 (new_vsock 3))"

lemma demo_vsock_state:
  "vsock_reachable demo_vsock" "vs_conns demo_vsock = [new_conn 49152 1234]" "vs_stopped demo_vsock = False"
  "vs_guest_cid demo_vsock = 3" "rx_good demo_vsock"
proof -
  show "vsock_reachable demo_vsock"
    by (rule vsock_reachable.step [OF vsock_reachable.start [of 3], of "Connect 1234"]) (simp add: demo_vsock_def)
  have alloc: "allocate_port (new_vsock 3) = ((new_vsock 3)\<lparr>vs_next_port := 49153\<rparr>, Inr 49152)"
    unfolding allocate_port_def by (simp add: new_vsock_def numeral_eq_Suc [of "num.Bit0 num.One"] Let_def
        allocate_port_loop.simps(2) [of 16383, simplified])
  let ?c = "new_conn 49152 1234"
  let ?vs = "(new_vsock 3)\<lparr>vs_next_port := 49153, vs_conns := [?c], vs_timers := [0],
      vs_ports := [(49152, \<lparr>ps_conn = 0, ps_connected = False\<rparr>)]\<rparr>"
  have "packet_ok (vs_guest_cid ?vs) (cn_local_port ?c) (cn_peer_port ?c) OP_REQUEST 0 []"
    by (simp add: packet_ok_def new_vsock_def new_conn_def OP_REQUEST_def)
  moreover have "rx_good ?vs" by (simp add: rx_good_def new_vsock_def new_rx_def)
  ultimately obtain vs' where s: "send ?c OP_REQUEST 0 [] (cn_bytes_read ?c) ?vs = (vs', Inr ())"
    "rx_good vs'" "same_conns ?vs vs'"
    using send_good [of ?vs ?c OP_REQUEST 0 "[]" "cn_bytes_read ?c"] by auto
  have "demo_vsock = vs'"
    using alloc s(1) by (simp add: demo_vsock_def connect_def Let_def) (simp add: new_vsock_def)
  with s(2,3) show "vs_conns demo_vsock = [new_conn 49152 1234]" "vs_stopped demo_vsock = False"
    "vs_guest_cid demo_vsock = 3" "rx_good demo_vsock"
    by (simp_all add: same_conns_def new_vsock_def)
qed

lemma demo_vsock_can_send: "can_send 0 demo_vsock" "vs_sound demo_vsock"
  using vsock_reachable_ok [OF demo_vsock_state(1)] demo_vsock_state
  by (simp_all add: can_send_def vs_sound_def new_conn_def)

text \<open>
  C8: connections never share a port.  In every run an open connection is the one registered at its
  local port, which lies in the ephemeral range, so no two open connections have the same port, and
  a running connect timer always belongs to the connection registered at the port it will free.
\<close>

theorem vsock_ports_unshared:
  assumes "vsock_reachable vs" and "i < length (vs_conns vs)" and "\<not> cn_closed (vs_conns vs ! i)"
  shows "port_conn (cn_local_port (vs_conns vs ! i)) vs = Some (vs_conns vs ! i) \<and>
    49152 \<le> cn_local_port (vs_conns vs ! i) \<and> cn_local_port (vs_conns vs ! i) \<le> 65535 \<and>
    (\<forall>j < length (vs_conns vs). \<not> cn_closed (vs_conns vs ! j) \<and>
       cn_local_port (vs_conns vs ! j) = cn_local_port (vs_conns vs ! i) \<longrightarrow> j = i) \<and>
    (\<forall>t \<in> set (vs_timers vs). cn_local_port (vs_conns vs ! t) = cn_local_port (vs_conns vs ! i) \<longrightarrow> t = i)"
proof -
  have ok: "vs_ok vs" using assms(1) by (rule vsock_reachable_ok)
  from vs_okD(3) [OF ok assms(2,3)] obtain ps where
    ps: "(cn_local_port (vs_conns vs ! i), ps) \<in> set (vs_ports vs)" "ps_conn ps = i" by blast
  have "j = i" if "j < length (vs_conns vs)" "cn_local_port (vs_conns vs ! j) = cn_local_port (vs_conns vs ! i)"
    "\<not> cn_closed (vs_conns vs ! j) \<or> j \<in> set (vs_timers vs)" for j
    using other_conns_done [OF ok ps(1) that(1,2)] that(3) ps(2) by blast
  with vs_okD(2) [OF ok ps(1)] vs_okD(4) [OF ok] open_port_conn(1) [OF ok assms(2,3)] show ?thesis by blast
qed

theorem vsock_ports_unshared_witness:
  "port_conn 49152 demo_vsock = Some (new_conn 49152 1234)"
  using vsock_ports_unshared [OF demo_vsock_state(1), of 0]
  by (simp add: demo_vsock_state new_conn_def)

text \<open>
  port allocation is exact: it returns a free port of the ephemeral range whenever there is one, and
  throws only when all 16384 of them are in use.
\<close>

theorem vsock_allocate_port_exact:
  assumes "vsock_reachable vs"
  shows "(\<exists>p vs'. allocate_port vs = (vs', Inr p) \<and> p \<in> {49152..65535} \<and> p \<notin> fst ` set (vs_ports vs)) \<or>
    {49152..65535} \<subseteq> fst ` set (vs_ports vs) \<and>
      snd (allocate_port vs) = Inl (Error ''no local vsock ports available'')"
proof -
  have "49152 \<le> vs_next_port vs" "vs_next_port vs \<le> 65535"
    using vs_okD(5,6) [OF vsock_reachable_ok [OF assms]] by simp_all
  then show ?thesis by (cases rule: allocate_port_cases) auto
qed

theorem vsock_allocate_port_exact_witness:
  "\<exists>p vs'. allocate_port (new_vsock 3) = (vs', Inr p) \<and> p \<in> {49152..65535}"
proof -
  have "\<not> {49152..65535} \<subseteq> fst ` set (vs_ports (new_vsock 3))" by (simp add: new_vsock_def)
  with vsock_allocate_port_exact [OF vsock_reachable.start [of 3]] show ?thesis by blast
qed

text \<open>
  C3: a write respects the peer's credit and loses nothing.  On an open connection the data goes out as
  packets of at most 2048 bytes, in order, up to the credit the guest has granted and not a byte more,
  with wrap-around of the 32-bit counters accounted for; the write finishes if the credit was enough and
  otherwise waits with exactly the unsent rest.
\<close>

theorem write_within_credit:
  assumes "can_send i vs"
  shows "\<exists>vs' chunks packets.
    write_serialized i data vs = (vs', if length data \<le> conn_available (vs_conns vs ! i) then WriteDone
       else WriteBlocked (drop (conn_available (vs_conns vs ! i)) data)) \<and>
    concat chunks = take (conn_available (vs_conns vs ! i)) data \<and>
    (\<forall>chunk \<in> set chunks. 1 \<le> length chunk \<and> length chunk \<le> MAX_VSOCK_PAYLOAD) \<and>
    list_all2 (data_packet vs i) packets chunks \<and> wire vs' = wire vs @ packets \<and>
    conn_available (vs_conns vs' ! i) = conn_available (vs_conns vs ! i) - length data"
  using assms by (rule write_serialized_credit)

theorem write_within_credit_witness:
  "\<exists>vs'. write_serialized 0 [1, 2, 3] demo_vsock = (vs', WriteDone) \<and> conn_available (vs_conns vs' ! 0) = 262141"
  using write_within_credit [OF demo_vsock_can_send(1), of "[1, 2, 3]"]
  by (auto simp: demo_vsock_state new_conn_def conn_available_def DEFAULT_VSOCK_BUF_ALLOC_def)



text \<open>
  the packets the device sends parse back to their own header fields and payload, so a host and a guest
  that use this layout agree on every byte.
\<close>

theorem vsock_packet_roundtrip:
  assumes "packet_ok cid lp pp opc flags payload"
  shows "\<exists>packet. encode_packet cid lp pp opc flags payload fwd = Inr packet \<and>
    parse_packet packet = Inr (\<lparr>vh_dst_port = pp, vh_src_port = lp, vh_len = length payload, vh_op = opc,
      vh_flags = flags, vh_buf_alloc = DEFAULT_VSOCK_BUF_ALLOC, vh_fwd_cnt = unat fwd\<rparr>, payload)"
  using encode_packet_works [OF assms, of fwd] parse_encoded [OF assms, of fwd] by blast

theorem vsock_packet_roundtrip_witness:
  "\<exists>packet. encode_packet 3 49152 1234 OP_RW 0 [104, 105] 7 = Inr packet \<and>
    parse_packet packet = Inr (\<lparr>vh_dst_port = 1234, vh_src_port = 49152, vh_len = Suc 1, vh_op = OP_RW,
      vh_flags = 0, vh_buf_alloc = 262144, vh_fwd_cnt = 7\<rparr>, [104, 105])"
  using vsock_packet_roundtrip [of 3 49152 1234 OP_RW 0 "[104, 105]" 7]
  by (simp add: packet_ok_def OP_RW_def DEFAULT_VSOCK_BUF_ALLOC_def)

end
