(* ===== verification/Block_Device.thy ===== *)
theory Block_Device
  imports Virtio_Device
begin

text \<open>
  The block device of \<open>packages/kernel/src/virtio/block.ts\<close>.  Its queue hands out views of guest
  memory, so a segment is an address and a length, and the storage, which is supplied by the host,
  reads and writes that memory.  Storage is the environment: a call is recorded in \<open>bd_calls\<close>, and what
  it returns (and, for a read, the bytes it stored) is a later event.  Requests are in flight
  concurrently, each suspended at its call.
\<close>

section \<open>Requests\<close>

definition SEG_MAX :: nat where "SEG_MAX = 128"

definition BLK_F_SEG_MAX :: nat where "BLK_F_SEG_MAX = 2 ^ 2"
definition BLK_F_RO :: nat where "BLK_F_RO = 2 ^ 5"
definition BLK_F_FLUSH :: nat where "BLK_F_FLUSH = 2 ^ 9"

definition BlockDeviceConfig :: layout where
  "BlockDeviceConfig = [(''capacity'', Scalar U64LE), (''size_max'', Scalar U32LE), (''seg_max'', Scalar U32LE)]"

definition BlockDeviceRequest :: layout where
  "BlockDeviceRequest = [(''type'', Scalar U32LE), (''reserved'', Scalar U32LE), (''sector'', Scalar U64LE)]"

definition BT_IN :: nat where "BT_IN = 0"
definition BT_OUT :: nat where "BT_OUT = 1"
definition BT_FLUSH :: nat where "BT_FLUSH = 4"
definition BT_GET_ID :: nat where "BT_GET_ID = 8"

definition BS_OK :: byte where "BS_OK = 0"
definition BS_IOERR :: byte where "BS_IOERR = 1"
definition BS_UNSUPP :: byte where "BS_UNSUPP = 2"

type_synonym segment = "nat \<times> nat"

text \<open>
  Merging segments that are adjacent in memory; \<open>acc\<close> is \<open>merged\<close> with its last element first.
\<close>

fun runs_acc :: "segment list \<Rightarrow> segment list \<Rightarrow> segment list" where
  "runs_acc acc [] = rev acc"
| "runs_acc acc ((a, n) # segs) =
     (if n = 0 then runs_acc acc segs
      else case acc of
        (b, m) # rest \<Rightarrow> if b + m = a then runs_acc ((b, m + n) # rest) segs else runs_acc ((a, n) # acc) segs
      | [] \<Rightarrow> runs_acc [(a, n)] segs)"

definition runs :: "segment list \<Rightarrow> segment list" where
  "runs segs = runs_acc [] segs"

section \<open>State\<close>

datatype direction = Reading | Writing

datatype storage_call =
    CallOne direction nat segment
  | CallVector direction nat "segment list"
  | CallFlush

text \<open>A transfer at its await: the offset, the piece in flight (none for a vectored call), what follows.\<close>

record transfer =
  tr_offset :: nat
  tr_piece :: "segment option"
  tr_rest :: "segment list"
  tr_moved :: nat

datatype request_phase =
    Moving direction transfer
  | AwaitWrites "nat list"
  | Flushing

record request =
  rq_status :: nat
  rq_length :: nat
  rq_phase :: request_phase

record block =
  bd_capacity :: nat
  bd_writable :: bool
  bd_vectored_read :: bool
  bd_vectored_write :: bool
  bd_flushable :: bool
  bd_mem :: bytes
  bd_active :: "(nat \<times> request) list"
  bd_writes :: "nat list"
  bd_calls :: "(nat \<times> storage_call) list"
  bd_released :: "(nat \<times> nat) list"
  bd_next :: nat

definition new_block :: "nat \<Rightarrow> bool \<Rightarrow> bool \<Rightarrow> bool \<Rightarrow> bool \<Rightarrow> bytes \<Rightarrow> block" where
  "new_block capacity writable readv writev flush mem =
     \<lparr>bd_capacity = capacity div 512 * 512, bd_writable = writable, bd_vectored_read = readv, bd_vectored_write = writev,
      bd_flushable = flush, bd_mem = mem, bd_active = [], bd_writes = [], bd_calls = [], bd_released = [],
      bd_next = 0\<rparr>"

definition blockDevice :: "int \<Rightarrow> bool \<Rightarrow> bool \<Rightarrow> bool \<Rightarrow> bool \<Rightarrow> bytes \<Rightarrow> block result" where
  "blockDevice capacity writable readv writev flush mem =
     bindE (assertE (0 \<le> capacity \<and> capacity \<le> 2 ^ 53 - 1)
              ''block storage capacity must be a safe integer number of bytes'') (\<lambda>_.
     Inr (new_block (nat capacity) writable readv writev flush mem))"

definition block_features :: "block \<Rightarrow> nat" where
  "block_features bd = BLK_F_SEG_MAX OR (if bd_flushable bd then BLK_F_FLUSH else 0)
     OR (if bd_writable bd then 0 else BLK_F_RO)"

section \<open>Carrying out a request\<close>

text \<open>The status byte and the release of the chain.\<close>

definition finish_request :: "nat \<Rightarrow> nat \<Rightarrow> byte \<Rightarrow> nat \<Rightarrow> block \<Rightarrow> block" where
  "finish_request i status result n bd =
     bd\<lparr>bd_mem := (bd_mem bd)[status := result], bd_released := bd_released bd @ [(i, n)]\<rparr>"

definition call_storage :: "nat \<Rightarrow> storage_call \<Rightarrow> block \<Rightarrow> block" where
  "call_storage i c bd = bd\<lparr>bd_calls := bd_calls bd @ [(i, c)]\<rparr>"

definition set_request :: "nat \<Rightarrow> request \<Rightarrow> block \<Rightarrow> block" where
  "set_request i r bd = bd\<lparr>bd_active := (i, r) # filter (\<lambda>x. fst x \<noteq> i) (bd_active bd)\<rparr>"

definition drop_request :: "nat \<Rightarrow> block \<Rightarrow> block" where
  "drop_request i bd = bd\<lparr>bd_active := filter (\<lambda>x. fst x \<noteq> i) (bd_active bd)\<rparr>"

text \<open>\<open>transfer\<close> up to its first storage call.\<close>

definition start_transfer :: "nat \<Rightarrow> direction \<Rightarrow> nat \<Rightarrow> segment list \<Rightarrow> bool \<Rightarrow> block \<Rightarrow> block \<times> transfer" where
  "start_transfer i dir offset segs vectored bd = (case runs segs of
       [piece] \<Rightarrow> (call_storage i (CallOne dir offset piece) bd,
                   \<lparr>tr_offset = offset, tr_piece = Some piece, tr_rest = [], tr_moved = 0\<rparr>)
     | pieces \<Rightarrow>
         if vectored then (call_storage i (CallVector dir offset pieces) bd,
                           \<lparr>tr_offset = offset, tr_piece = None, tr_rest = [], tr_moved = 0\<rparr>)
         else case pieces of
           piece # rest \<Rightarrow> (call_storage i (CallOne dir offset piece) bd,
                            \<lparr>tr_offset = offset, tr_piece = Some piece, tr_rest = rest, tr_moved = 0\<rparr>)
         | [] \<Rightarrow> (bd, \<lparr>tr_offset = offset, tr_piece = None, tr_rest = [], tr_moved = 0\<rparr>))"

definition chain_segment :: "vq_buffer \<Rightarrow> segment" where
  "chain_segment b = (vb_target b, length (vb_array b))"

definition segments_length :: "segment list \<Rightarrow> nat" where
  "segments_length segs = sum_list (map snd segs)"

text \<open>\<open>#request\<close> up to its first await; a failed assertion rejects the request.\<close>

definition start_request :: "nat \<Rightarrow> vq_chain \<Rightarrow> block \<Rightarrow> block \<times> unit result" where
  "start_request i ch bd = (case ch_buffers ch of
       [] \<Rightarrow> (bd, Inl (Error ''header must be readonly''))
     | header # _ \<Rightarrow>
         let status = last (ch_buffers ch);
             data = butlast (tl (ch_buffers ch));
             segs = map chain_segment data
         in if vb_writable header then (bd, Inl (Error ''header must be readonly''))
         else if length (vb_array header) \<noteq> layout_size BlockDeviceRequest then (bd, Inl (Error ''header size''))
         else if \<not> vb_writable status then (bd, Inl (Error ''status must be writable''))
         else if length (vb_array status) \<noteq> 1 then (bd, Inl (Error ''status size''))
         else case (get_num BlockDeviceRequest (whole_view (vb_array header)) ''type'',
                    get_num BlockDeviceRequest (whole_view (vb_array header)) ''sector'') of
           (Inr kind, Inr sector) \<Rightarrow>
             let n = segments_length segs;
                 offset = sector * 512;
                 valid = (length data \<le> SEG_MAX \<and> offset + n \<le> bd_capacity bd);
                 st = vb_target status
             in if kind = BT_IN then
                  (if \<not> list_all vb_writable data then (bd, Inl (Error ''data must be writable when IN''))
                   else if \<not> valid then (finish_request i st BS_IOERR 0 bd, Inr ())
                   else if n = 0 then (finish_request i st BS_OK 0 bd, Inr ())
                   else let (bd1, tr) = start_transfer i Reading offset segs (bd_vectored_read bd) bd
                        in (set_request i \<lparr>rq_status = st, rq_length = n, rq_phase = Moving Reading tr\<rparr> bd1, Inr ()))
                else if kind = BT_OUT then
                  (if list_ex vb_writable data then (bd, Inl (Error ''data must be readonly when OUT''))
                   else if \<not> bd_writable bd then (finish_request i st BS_UNSUPP 0 bd, Inr ())
                   else if \<not> valid then (finish_request i st BS_IOERR 0 bd, Inr ())
                   else if n = 0 then (finish_request i st BS_OK 0 bd, Inr ())
                   else let (bd1, tr) = start_transfer i Writing offset segs (bd_vectored_write bd) bd
                        in (set_request i \<lparr>rq_status = st, rq_length = n, rq_phase = Moving Writing tr\<rparr>
                             (bd1\<lparr>bd_writes := bd_writes bd1 @ [i]\<rparr>), Inr ()))
                else if kind = BT_FLUSH then
                  (if \<not> bd_flushable bd then (finish_request i st BS_UNSUPP 0 bd, Inr ())
                   else (set_request i \<lparr>rq_status = st, rq_length = n, rq_phase = AwaitWrites (bd_writes bd)\<rparr> bd, Inr ()))
                else if kind = BT_GET_ID then (finish_request i st BS_OK 0 bd, Inr ())
                else (finish_request i st BS_UNSUPP 0 bd, Inr ())
         | _ \<Rightarrow> (bd, Inl (RangeError ''header size'')))"

text \<open>The end of a transfer: a short one is an I/O error, and only a read reports bytes written.\<close>

definition end_transfer :: "nat \<Rightarrow> direction \<Rightarrow> request \<Rightarrow> nat \<Rightarrow> block \<Rightarrow> block" where
  "end_transfer i dir r moved bd =
     finish_request i (rq_status r) (if moved \<noteq> rq_length r then BS_IOERR else BS_OK)
       (if moved = rq_length r \<and> dir = Reading then rq_length r else 0)
       (drop_request i (if dir = Writing then bd\<lparr>bd_writes := removeAll i (bd_writes bd)\<rparr> else bd))"

text \<open>A storage call of request \<open>i\<close> returns \<open>n\<close>.\<close>

definition storage_returns :: "nat \<Rightarrow> nat \<Rightarrow> block \<Rightarrow> block" where
  "storage_returns i n bd = (case map_of (bd_active bd) i of
       None \<Rightarrow> bd
     | Some r \<Rightarrow> (case rq_phase r of
           Flushing \<Rightarrow> finish_request i (rq_status r) BS_OK 0 (drop_request i bd)
         | AwaitWrites ws \<Rightarrow> bd
         | Moving dir tr \<Rightarrow> (case tr_piece tr of
               None \<Rightarrow> end_transfer i dir r n bd
             | Some piece \<Rightarrow>
                 let moved = tr_moved tr + n
                 in if n \<noteq> snd piece then end_transfer i dir r moved bd
                    else case tr_rest tr of
                      [] \<Rightarrow> end_transfer i dir r moved bd
                    | piece' # rest \<Rightarrow>
                        set_request i (r\<lparr>rq_phase := Moving dir (tr\<lparr>tr_piece := Some piece', tr_rest := rest,
                            tr_moved := moved\<rparr>)\<rparr>)
                          (call_storage i (CallOne dir (tr_offset tr + moved) piece') bd))))"

text \<open>A storage call of request \<open>i\<close> fails: the request is rejected and its chain never released.\<close>

definition storage_fails :: "nat \<Rightarrow> block \<Rightarrow> block" where
  "storage_fails i bd = drop_request i (bd\<lparr>bd_writes := removeAll i (bd_writes bd)\<rparr>)"

text \<open>A flush goes on once the writes it saw have settled.\<close>

definition flush_resumes :: "nat \<Rightarrow> block \<Rightarrow> block option" where
  "flush_resumes i bd = (case map_of (bd_active bd) i of
       Some r \<Rightarrow> (case rq_phase r of
           AwaitWrites ws \<Rightarrow>
             if \<exists>w \<in> set ws. w \<in> set (bd_writes bd) then None
             else Some (set_request i (r\<lparr>rq_phase := Flushing\<rparr>) (call_storage i CallFlush bd))
         | _ \<Rightarrow> None)
     | None \<Rightarrow> None)"

text \<open>Storage filling part of guest memory during a read.\<close>

definition storage_stores :: "segment \<Rightarrow> bytes \<Rightarrow> block \<Rightarrow> block" where
  "storage_stores seg data bd = bd\<lparr>bd_mem := overwrite (bd_mem bd) (fst seg) (take (snd seg) data)\<rparr>"

text \<open>\<open>kick\<close>: each chain becomes a request with an identity of its own.\<close>

definition spawn_request :: "vq_chain \<Rightarrow> block \<Rightarrow> block \<times> unit result" where
  "spawn_request ch bd = start_request (bd_next bd) ch (bd\<lparr>bd_next := Suc (bd_next bd)\<rparr>)"

datatype block_event =
    SpawnRequest vq_chain
  | StorageReturns nat nat
  | StorageFails nat
  | FlushResumes nat
  | StorageStores segment bytes
  | GuestWrites bytes

fun block_step :: "block_event \<Rightarrow> block \<Rightarrow> block option" where
  "block_step (SpawnRequest ch) bd =
     guarded (list_all (\<lambda>b. vb_target b + length (vb_array b) \<le> length (bd_mem bd)) (ch_buffers ch))
       (fst (spawn_request ch bd))"
| "block_step (StorageReturns i n) bd = Some (storage_returns i n bd)"
| "block_step (StorageFails i) bd = Some (storage_fails i bd)"
| "block_step (FlushResumes i) bd = flush_resumes i bd"
| "block_step (StorageStores seg data) bd =
     guarded (fst seg + snd seg \<le> length (bd_mem bd)) (storage_stores seg data bd)"
| "block_step (GuestWrites mem) bd = guarded (length mem = length (bd_mem bd)) (bd\<lparr>bd_mem := mem\<rparr>)"

fun block_run :: "block_event list \<Rightarrow> block \<Rightarrow> block option" where
  "block_run [] bd = Some bd"
| "block_run (e # es) bd = Option.bind (block_step e bd) (block_run es)"

inductive block_reachable :: "block \<Rightarrow> bool" where
  start: "block_reachable (new_block cap w rv wv f mem)"
| step: "block_reachable bd \<Longrightarrow> block_step e bd = Some bd' \<Longrightarrow> block_reachable bd'"

section \<open>Runs of segments\<close>

text \<open>The bytes of memory a list of segments names, in order.\<close>

definition addrs :: "segment list \<Rightarrow> nat list" where
  "addrs segs = concat (map (\<lambda>s. [fst s..<fst s + snd s]) segs)"

lemma addrs_simps [simp]:
  "addrs [] = []" "addrs (s # segs) = [fst s..<fst s + snd s] @ addrs segs" "addrs (xs @ ys) = addrs xs @ addrs ys"
  by (simp_all add: addrs_def)

lemma length_addrs: "length (addrs segs) = segments_length segs"
  by (induction segs) (simp_all add: segments_length_def)

lemma runs_acc_addrs: "addrs (runs_acc acc segs) = addrs (rev acc) @ addrs segs"
proof (induction acc segs rule: runs_acc.induct)
  case (2 acc a n segs)
  show ?case
  proof (cases acc)
    case Nil
    with 2 show ?thesis by simp
  next
    case (Cons bm rest)
    obtain b m where bm: "bm = (b, m)" by fastforce
    have "[b..<b + (m + n)] = [b..<b + m] @ [b + m..<b + m + n]"
      using upt_add_eq_append [of b "b + m" n] by (simp add: add.assoc)
    with 2 Cons bm show ?thesis by auto
  qed
qed simp

text \<open>What \<open>runs\<close> produces: pieces that are not empty, none adjacent to the one before it.\<close>

fun separated :: "segment list \<Rightarrow> bool" where
  "separated (s # t # segs) \<longleftrightarrow> 0 < snd s \<and> fst s + snd s \<noteq> fst t \<and> separated (t # segs)"
| "separated [s] \<longleftrightarrow> 0 < snd s"
| "separated [] \<longleftrightarrow> True"

lemma separated_append:
  "separated (xs @ s # ys) \<longleftrightarrow> separated (xs @ [s]) \<and> separated (s # ys)"
  by (induction xs rule: separated.induct) (cases ys; auto)+

lemma separated_grow: "separated (xs @ [(b, m)]) \<Longrightarrow> separated (xs @ [(b, m + n)])"
  by (induction xs rule: separated.induct) auto

lemma runs_acc_separated: "separated (rev acc) \<Longrightarrow> separated (runs_acc acc segs)"
proof (induction acc segs rule: runs_acc.induct)
  case (2 acc a n segs)
  show ?case
  proof (cases acc)
    case Nil
    with 2 show ?thesis by simp
  next
    case (Cons bm rest)
    obtain b m where bm: "bm = (b, m)" by fastforce
    have "separated (rev rest @ [(b, m), (a, n)])" if "b + m \<noteq> a" "0 < n"
      using 2(5) that Cons bm separated_append [of "rev rest" "(b, m)" "[(a, n)]"]
        separated_append [of "rev rest" "(b, m)" "[]"] by auto
    with 2 Cons bm separated_grow [of "rev rest" b m n] show ?thesis by auto
  qed
qed simp

lemma runs_addrs: "addrs (runs segs) = addrs segs"
  by (simp add: runs_def runs_acc_addrs)

lemma runs_separated: "separated (runs segs)"
  by (simp add: runs_def runs_acc_separated)

lemma runs_length: "segments_length (runs segs) = segments_length segs"
  by (metis length_addrs runs_addrs)

section \<open>What storage is asked for\<close>

definition segment_ok :: "nat \<Rightarrow> segment \<Rightarrow> bool" where
  "segment_ok m s \<longleftrightarrow> 0 < snd s \<and> fst s + snd s \<le> m"

type_synonym block_limits = "nat \<times> nat \<times> bool \<times> bool"

definition limits :: "block \<Rightarrow> block_limits" where
  "limits bd = (bd_capacity bd, length (bd_mem bd), bd_writable bd, bd_flushable bd)"

fun call_ok :: "block_limits \<Rightarrow> storage_call \<Rightarrow> bool" where
  "call_ok (cap, m, w, f) (CallOne dir offset s) \<longleftrightarrow>
     offset + snd s \<le> cap \<and> segment_ok m s \<and> (dir = Writing \<longrightarrow> w)"
| "call_ok (cap, m, w, f) (CallVector dir offset segs) \<longleftrightarrow>
     offset + segments_length segs \<le> cap \<and> list_all (segment_ok m) segs \<and> (dir = Writing \<longrightarrow> w)"
| "call_ok (cap, m, w, f) CallFlush \<longleftrightarrow> f"

fun phase_ok :: "block_limits \<Rightarrow> request_phase \<Rightarrow> bool" where
  "phase_ok (cap, m, w, f) (Moving dir tr) \<longleftrightarrow> (case tr_piece tr of
       None \<Rightarrow> True
     | Some p \<Rightarrow> tr_offset tr + tr_moved tr + snd p + segments_length (tr_rest tr) \<le> cap
                 \<and> list_all (segment_ok m) (tr_rest tr) \<and> (dir = Writing \<longrightarrow> w))"
| "phase_ok (cap, m, w, f) (AwaitWrites ws) \<longleftrightarrow> f"
| "phase_ok (cap, m, w, f) Flushing \<longleftrightarrow> f"

text \<open>
  The invariant of the device: every call made and every call to come is in bounds, a request is either
  in flight or over, and it is over once.
\<close>

definition block_ok :: "block \<Rightarrow> bool" where
  "block_ok bd \<longleftrightarrow>
     list_all (\<lambda>c. call_ok (limits bd) (snd c)) (bd_calls bd) \<and>
     list_all (\<lambda>a. phase_ok (limits bd) (rq_phase (snd a))) (bd_active bd) \<and>
     distinct (map fst (bd_active bd)) \<and> distinct (map fst (bd_released bd)) \<and>
     set (map fst (bd_active bd)) \<inter> set (map fst (bd_released bd)) = {} \<and>
     (\<forall>i \<in> set (map fst (bd_active bd)) \<union> set (map fst (bd_released bd)) \<union> set (map fst (bd_calls bd)) \<union> set (bd_writes bd).
        i < bd_next bd)"

lemma limits_simps [simp]:
  "limits (finish_request i s b n bd) = limits bd"
  "limits (call_storage i c bd) = limits bd"
  "limits (set_request i r bd) = limits bd"
  "limits (drop_request i bd) = limits bd"
  "limits (bd\<lparr>bd_writes := ws\<rparr>) = limits bd"
  "limits (bd\<lparr>bd_next := k\<rparr>) = limits bd"
  by (simp_all add: limits_def finish_request_def call_storage_def set_request_def drop_request_def)

lemma block_fields [simp]:
  "bd_next (finish_request i s b n bd) = bd_next bd" "bd_next (call_storage i c bd) = bd_next bd"
  "bd_next (set_request i r bd) = bd_next bd" "bd_next (drop_request i bd) = bd_next bd"
  "bd_released (call_storage i c bd) = bd_released bd" "bd_released (set_request i r bd) = bd_released bd"
  "bd_released (drop_request i bd) = bd_released bd"
  "bd_released (finish_request i s b n bd) = bd_released bd @ [(i, n)]"
  "bd_active (finish_request i s b n bd) = bd_active bd" "bd_active (call_storage i c bd) = bd_active bd"
  "bd_active (set_request i r bd) = (i, r) # filter (\<lambda>x. fst x \<noteq> i) (bd_active bd)"
  "bd_active (drop_request i bd) = filter (\<lambda>x. fst x \<noteq> i) (bd_active bd)"
  "bd_calls (finish_request i s b n bd) = bd_calls bd" "bd_calls (call_storage i c bd) = bd_calls bd @ [(i, c)]"
  "bd_calls (set_request i r bd) = bd_calls bd" "bd_calls (drop_request i bd) = bd_calls bd"
  "bd_writes (finish_request i s b n bd) = bd_writes bd" "bd_writes (call_storage i c bd) = bd_writes bd"
  "bd_writes (set_request i r bd) = bd_writes bd" "bd_writes (drop_request i bd) = bd_writes bd"
  "bd_mem (call_storage i c bd) = bd_mem bd" "bd_mem (set_request i r bd) = bd_mem bd"
  "bd_mem (drop_request i bd) = bd_mem bd"
  "bd_mem (finish_request i s b n bd) = (bd_mem bd)[s := b]"
  "bd_capacity (call_storage i c bd) = bd_capacity bd" "bd_writable (call_storage i c bd) = bd_writable bd"
  "bd_flushable (call_storage i c bd) = bd_flushable bd"
  by (simp_all add: finish_request_def call_storage_def set_request_def drop_request_def)

lemma block_ok_same:
  assumes "block_ok bd" "limits bd' = limits bd" "bd_calls bd' = bd_calls bd" "bd_active bd' = bd_active bd"
    "bd_released bd' = bd_released bd" "bd_next bd \<le> bd_next bd'" "\<forall>i \<in> set (bd_writes bd'). i < bd_next bd'"
  shows "block_ok bd'"
proof -
  have "i < bd_next bd \<Longrightarrow> i < bd_next bd'" for i
    using assms(6) by simp
  with assms(1,7) show ?thesis
    unfolding block_ok_def assms(2-5) by (simp add: ball_Un)
qed

lemma block_ok_finish:
  "block_ok bd \<Longrightarrow> i < bd_next bd \<Longrightarrow> i \<notin> fst ` set (bd_active bd) \<Longrightarrow> i \<notin> fst ` set (bd_released bd) \<Longrightarrow>
   block_ok (finish_request i s b n bd)"
  by (auto simp: block_ok_def)

lemma block_ok_call:
  "block_ok bd \<Longrightarrow> call_ok (limits bd) c \<Longrightarrow> i < bd_next bd \<Longrightarrow> block_ok (call_storage i c bd)"
  by (auto simp: block_ok_def)

lemma block_ok_drop: "block_ok bd \<Longrightarrow> block_ok (drop_request i bd)"
  by (auto simp: block_ok_def list_all_iff distinct_map_filter)

lemma block_ok_set:
  "block_ok bd \<Longrightarrow> phase_ok (limits bd) (rq_phase r) \<Longrightarrow> i < bd_next bd \<Longrightarrow> i \<notin> fst ` set (bd_released bd) \<Longrightarrow>
   block_ok (set_request i r bd)"
  by (auto simp: block_ok_def list_all_iff distinct_map_filter)

lemma block_ok_writes:
  "block_ok bd \<Longrightarrow> (\<And>i. i \<in> set ws \<Longrightarrow> i < bd_next bd) \<Longrightarrow> block_ok (bd\<lparr>bd_writes := ws\<rparr>)"
  by (rule block_ok_same [of bd]) auto

lemmas block_ok_intros = block_ok_finish block_ok_call block_ok_drop block_ok_set block_ok_writes

lemma block_okD:
  assumes "block_ok bd"
  shows "(i, r) \<in> set (bd_active bd) \<Longrightarrow> phase_ok (limits bd) (rq_phase r)"
    and "i \<in> fst ` set (bd_active bd) \<Longrightarrow> i \<notin> fst ` set (bd_released bd)"
    and "i \<in> fst ` set (bd_released bd) \<Longrightarrow> i < bd_next bd"
    and "i \<in> set (bd_writes bd) \<Longrightarrow> i < bd_next bd"
    and "i \<in> fst ` set (bd_calls bd) \<Longrightarrow> i < bd_next bd"
    and "i \<in> fst ` set (bd_active bd) \<Longrightarrow> i < bd_next bd"
    and "(i, c) \<in> set (bd_calls bd) \<Longrightarrow> call_ok (limits bd) c"
    and "distinct (map fst (bd_active bd))"
  using assms unfolding block_ok_def by (auto simp: list_all_iff)

lemma separated_pos: "separated segs \<Longrightarrow> s \<in> set segs \<Longrightarrow> 0 < snd s"
  by (induction segs rule: separated.induct) auto

lemma runs_in_memory:
  assumes "list_all (\<lambda>s. fst s + snd s \<le> m) segs"
  shows "list_all (segment_ok m) (runs segs)"
proof -
  have "segment_ok m s" if s: "s \<in> set (runs segs)" for s
  proof -
    have pos: "0 < snd s" using separated_pos [OF runs_separated s] .
    with s have "fst s + snd s - 1 \<in> set (addrs (runs segs))"
      by (force simp: addrs_def)
    then have "fst s + snd s - 1 \<in> set (addrs segs)" by (simp only: runs_addrs)
    then obtain t where "t \<in> set segs" "fst s + snd s - 1 < fst t + snd t"
      by (auto simp: addrs_def)
    with assms have "fst s + snd s - 1 < m" by (force simp: list_all_iff)
    with pos show ?thesis by (simp add: segment_ok_def)
  qed
  then show ?thesis by (simp add: list_all_iff)
qed

lemma start_transfer_fields [simp]:
  "bd_next (fst (start_transfer i dir off segs v bd)) = bd_next bd"
  "bd_released (fst (start_transfer i dir off segs v bd)) = bd_released bd"
  "bd_active (fst (start_transfer i dir off segs v bd)) = bd_active bd"
  "bd_writes (fst (start_transfer i dir off segs v bd)) = bd_writes bd"
  "limits (fst (start_transfer i dir off segs v bd)) = limits bd"
  by (auto simp: start_transfer_def split: list.splits)

lemma start_transfer_ok:
  assumes bd: "block_ok bd" "i < bd_next bd" and lim: "limits bd = (cap, m, w, f)"
    and segs: "list_all (\<lambda>s. fst s + snd s \<le> m) segs" "off + segments_length segs \<le> cap" "dir = Writing \<longrightarrow> w"
  shows "block_ok (fst (start_transfer i dir off segs v bd))"
    and "phase_ok (limits bd) (Moving dir (snd (start_transfer i dir off segs v bd)))"
proof -
  have pieces: "list_all (segment_ok m) (runs segs)" "off + segments_length (runs segs) \<le> cap"
    using runs_in_memory [OF segs(1)] segs(2) by (simp_all add: runs_length)
  note call = block_ok_call [OF bd(1) _ bd(2)]
  show "block_ok (fst (start_transfer i dir off segs v bd))"
    using pieces segs(3) bd(1) lim
    by (auto simp: start_transfer_def segments_length_def split: list.splits intro!: call)
  show "phase_ok (limits bd) (Moving dir (snd (start_transfer i dir off segs v bd)))"
    using pieces segs(3) lim
    by (auto simp: start_transfer_def segments_length_def split: list.splits)
qed

lemma start_request_ok:
  assumes bd: "block_ok bd" "i < bd_next bd" "i \<notin> fst ` set (bd_active bd)" "i \<notin> fst ` set (bd_released bd)"
    and mem: "list_all (\<lambda>b. vb_target b + length (vb_array b) \<le> length (bd_mem bd)) (ch_buffers ch)"
  shows "block_ok (fst (start_request i ch bd))"
proof -
  define segs where "segs = map chain_segment (butlast (tl (ch_buffers ch)))"
  have segs: "list_all (\<lambda>s. fst s + snd s \<le> length (bd_mem bd)) segs"
    using mem by (cases "ch_buffers ch") (auto simp: segs_def chain_segment_def list_all_iff dest: in_set_butlastD)
  have lim: "limits bd = (bd_capacity bd, length (bd_mem bd), bd_writable bd, bd_flushable bd)"
    by (simp add: limits_def)
  have moving: "block_ok (set_request i \<lparr>rq_status = st, rq_length = n, rq_phase = Moving dir (snd (start_transfer i dir off segs v bd))\<rparr>
      (fst (start_transfer i dir off segs v bd)\<lparr>bd_writes := ws\<rparr>))"
    if "off + segments_length segs \<le> bd_capacity bd" "dir = Writing \<longrightarrow> bd_writable bd" "set ws \<subseteq> insert i (set (bd_writes bd))"
    for st n dir off v ws
    using start_transfer_ok [OF bd(1,2) lim segs that(1,2)] bd that(3) block_okD(4) [OF bd(1)]
    by (intro block_ok_set block_ok_writes) auto
  have moving0: "block_ok (set_request i \<lparr>rq_status = st, rq_length = n, rq_phase = Moving dir (snd (start_transfer i dir off segs v bd))\<rparr>
      (fst (start_transfer i dir off segs v bd)))"
    if "off + segments_length segs \<le> bd_capacity bd" "dir = Writing \<longrightarrow> bd_writable bd"
    for st n dir off v
    using start_transfer_ok [OF bd(1,2) lim segs that] bd by (intro block_ok_set) auto
  have finish: "block_ok (finish_request i st b n bd)" for st b n
    using bd by (rule block_ok_finish)
  have wait: "block_ok (set_request i \<lparr>rq_status = st, rq_length = n, rq_phase = AwaitWrites ws\<rparr> bd)"
    if "bd_flushable bd" for st n ws
    using bd that by (intro block_ok_set) (auto simp: lim)
  show ?thesis
  proof (cases "ch_buffers ch")
    case Nil
    with bd(1) show ?thesis by (simp add: start_request_def)
  next
    case (Cons header rest)
    show ?thesis
      unfolding start_request_def Cons list.case Let_def
      unfolding Cons [symmetric] segs_def [symmetric]
      by (simp add: bd(1) finish wait moving moving0 case_prod_beta split: sum.split)
  qed
qed

lemma active_okD:
  assumes "block_ok bd" "(i, r) \<in> set (bd_active bd)"
  shows "i < bd_next bd" "i \<notin> fst ` set (bd_released bd)" "phase_ok (limits bd) (rq_phase r)"
proof -
  have "i \<in> fst ` set (bd_active bd)" using assms(2) by force
  then show "i < bd_next bd" "i \<notin> fst ` set (bd_released bd)"
    by (rule block_okD(6) [OF assms(1)], rule block_okD(2) [OF assms(1)])
  show "phase_ok (limits bd) (rq_phase r)" using block_okD(1) [OF assms] .
qed

lemma end_transfer_ok:
  assumes "block_ok bd" "(i, r) \<in> set (bd_active bd)"
  shows "block_ok (end_transfer i dir r moved bd)"
proof -
  have "block_ok (if dir = Writing then bd\<lparr>bd_writes := removeAll i (bd_writes bd)\<rparr> else bd)"
    using assms(1) by (auto intro!: block_ok_writes dest: block_okD(4))
  then show ?thesis
    unfolding end_transfer_def using active_okD(1,2) [OF assms]
    by (intro block_ok_finish block_ok_drop) auto
qed

lemma storage_returns_ok:
  assumes bd: "block_ok bd"
  shows "block_ok (storage_returns i n bd)"
proof (cases "map_of (bd_active bd) i")
  case None
  with bd show ?thesis by (simp add: storage_returns_def)
next
  case (Some r)
  then have r: "(i, r) \<in> set (bd_active bd)" by (rule map_of_SomeD)
  note i = active_okD [OF bd r]
  show ?thesis
  proof (cases "rq_phase r")
    case (Moving dir tr)
    have next_piece: "block_ok (set_request i (r\<lparr>rq_phase := Moving dir (tr\<lparr>tr_piece := Some p', tr_rest := rest,
          tr_moved := tr_moved tr + snd p\<rparr>)\<rparr>) (call_storage i (CallOne dir (tr_offset tr + (tr_moved tr + snd p)) p') bd))"
      if "tr_piece tr = Some p" "tr_rest tr = p' # rest" for p p' rest
      using i(3) Moving that bd i(1,2)
      by (intro block_ok_set block_ok_call) (auto simp: limits_def segments_length_def)
    show ?thesis
      using Some Moving r bd next_piece
      by (auto simp: storage_returns_def Let_def intro: end_transfer_ok split: option.splits list.splits)
  next
    case (AwaitWrites ws)
    with Some bd show ?thesis by (simp add: storage_returns_def)
  next
    case Flushing
    have "block_ok (finish_request i (rq_status r) BS_OK 0 (drop_request i bd))"
      using bd i by (intro block_ok_finish block_ok_drop) auto
    with Some Flushing show ?thesis by (simp add: storage_returns_def)
  qed
qed

lemma block_step_ok:
  assumes bd: "block_ok bd" and step: "block_step e bd = Some bd'"
  shows "block_ok bd'"
proof (cases e)
  case (SpawnRequest ch)
  let ?bd = "bd\<lparr>bd_next := Suc (bd_next bd)\<rparr>"
  have "block_ok ?bd"
    by (rule block_ok_same [OF bd]) (auto dest: block_okD(4) [OF bd])
  then have "block_ok (fst (start_request (bd_next bd) ch ?bd))"
    if "list_all (\<lambda>b. vb_target b + length (vb_array b) \<le> length (bd_mem bd)) (ch_buffers ch)"
    using that block_okD(3,6) [OF bd, of "bd_next bd"] by (intro start_request_ok) auto
  with SpawnRequest step show ?thesis
    by (auto simp: spawn_request_def guarded_def split: if_splits)
next
  case (StorageReturns i n)
  with bd step storage_returns_ok show ?thesis by auto
next
  case (StorageFails i)
  with bd step show ?thesis
    by (auto simp: storage_fails_def intro!: block_ok_drop block_ok_writes dest: block_okD(4))
next
  case (FlushResumes i)
  then obtain r ws where r: "map_of (bd_active bd) i = Some r" "rq_phase r = AwaitWrites ws"
    and bd': "bd' = set_request i (r\<lparr>rq_phase := Flushing\<rparr>) (call_storage i CallFlush bd)"
    using step by (auto simp: flush_resumes_def split: option.splits request_phase.splits if_splits)
  have "(i, r) \<in> set (bd_active bd)" using r(1) by (rule map_of_SomeD)
  from active_okD [OF bd this] bd r(2) show ?thesis
    unfolding bd' by (intro block_ok_set block_ok_call) (auto simp: limits_def)
next
  case (StorageStores seg data)
  with step show ?thesis
    by (auto simp: guarded_def storage_stores_def limits_def length_overwrite split: if_splits
        intro!: block_ok_same [OF bd] dest: block_okD(4) [OF bd])
next
  case (GuestWrites mem)
  with step show ?thesis
    by (auto simp: guarded_def limits_def split: if_splits intro!: block_ok_same [OF bd] dest: block_okD(4) [OF bd])
qed

lemma block_reachable_ok: "block_reachable bd \<Longrightarrow> block_ok bd"
proof (induction rule: block_reachable.induct)
  case (start cap w rv wv f mem)
  show ?case by (simp add: new_block_def block_ok_def)
next
  case (step bd e bd')
  then show ?case by (blast intro: block_step_ok)
qed

section \<open>A flush and the writes before it\<close>

text \<open>
  From the point where the flush \<open>f\<close> was started with the writes \<open>ws\<close> in flight: of those writes only
  fewer remain, new ones have later identities, and the storage is flushed only when none remains.
\<close>

definition flush_inv :: "nat \<Rightarrow> nat list \<Rightarrow> block \<Rightarrow> bool" where
  "flush_inv f ws bd \<longleftrightarrow>
     f < bd_next bd \<and> (\<forall>w \<in> set (bd_writes bd). w < f \<longrightarrow> w \<in> set ws) \<and>
     (\<forall>r vs. (f, r) \<in> set (bd_active bd) \<longrightarrow> rq_phase r = AwaitWrites vs \<longrightarrow> vs = ws) \<and>
     ((f, CallFlush) \<in> set (bd_calls bd) \<longrightarrow> set ws \<inter> set (bd_writes bd) = {})"

lemma flush_inv_mono:
  assumes "flush_inv f ws bd" "bd_next bd \<le> bd_next bd'" "set (bd_writes bd') \<subseteq> set (bd_writes bd) \<union> {f<..}"
    "\<forall>w \<in> set ws. w < f"
    "\<And>r vs. (f, r) \<in> set (bd_active bd') \<Longrightarrow> rq_phase r = AwaitWrites vs \<Longrightarrow> (f, r) \<in> set (bd_active bd)"
    "(f, CallFlush) \<in> set (bd_calls bd') \<Longrightarrow> (f, CallFlush) \<in> set (bd_calls bd)"
  shows "flush_inv f ws bd'"
proof -
  have new: "w \<in> set (bd_writes bd) \<or> f < w" if "w \<in> set (bd_writes bd')" for w
    using assms(3) that by auto
  have "set ws \<inter> set (bd_writes bd') = {}" if "set ws \<inter> set (bd_writes bd) = {}"
    using that assms(4) new by fastforce
  moreover have "\<forall>w \<in> set (bd_writes bd'). w < f \<longrightarrow> w \<in> set ws"
    using assms(1) new unfolding flush_inv_def by (metis less_asym)
  ultimately show ?thesis
    using assms(1,2,5,6) unfolding flush_inv_def by (meson order_less_le_trans)
qed

lemma start_transfer_calls:
  "j \<noteq> i \<Longrightarrow> (j, c) \<in> set (bd_calls (fst (start_transfer i dir off segs v bd))) \<longleftrightarrow> (j, c) \<in> set (bd_calls bd)"
  by (auto simp: start_transfer_def split: list.splits)

lemma start_request_other:
  assumes "j \<noteq> i"
  shows "(j, r) \<in> set (bd_active (fst (start_request i ch bd))) \<longleftrightarrow> (j, r) \<in> set (bd_active bd)"
    and "(j, c) \<in> set (bd_calls (fst (start_request i ch bd))) \<longleftrightarrow> (j, c) \<in> set (bd_calls bd)"
    and "set (bd_writes (fst (start_request i ch bd))) \<subseteq> insert i (set (bd_writes bd))"
    and "bd_next (fst (start_request i ch bd)) = bd_next bd"
proof -
  have "((j, r) \<in> set (bd_active (fst (start_request i ch bd))) \<longleftrightarrow> (j, r) \<in> set (bd_active bd)) \<and>
     ((j, c) \<in> set (bd_calls (fst (start_request i ch bd))) \<longleftrightarrow> (j, c) \<in> set (bd_calls bd)) \<and>
     set (bd_writes (fst (start_request i ch bd))) \<subseteq> insert i (set (bd_writes bd)) \<and>
     bd_next (fst (start_request i ch bd)) = bd_next bd"
  proof (cases "ch_buffers ch")
    case Nil
    then show ?thesis by (auto simp: start_request_def)
  next
    case (Cons header rest)
    show ?thesis
      unfolding start_request_def Cons list.case Let_def
      using assms by (simp add: case_prod_beta start_transfer_calls subset_insertI split: sum.split)
  qed
  then show "(j, r) \<in> set (bd_active (fst (start_request i ch bd))) \<longleftrightarrow> (j, r) \<in> set (bd_active bd)"
    "(j, c) \<in> set (bd_calls (fst (start_request i ch bd))) \<longleftrightarrow> (j, c) \<in> set (bd_calls bd)"
    "set (bd_writes (fst (start_request i ch bd))) \<subseteq> insert i (set (bd_writes bd))"
    "bd_next (fst (start_request i ch bd)) = bd_next bd" by simp_all
qed

lemma storage_returns_other:
  "bd_next (storage_returns i n bd) = bd_next bd"
  "set (bd_writes (storage_returns i n bd)) \<subseteq> set (bd_writes bd)"
  "(f, CallFlush) \<in> set (bd_calls (storage_returns i n bd)) \<longleftrightarrow> (f, CallFlush) \<in> set (bd_calls bd)"
  by (auto simp: storage_returns_def end_transfer_def Let_def split: option.splits request_phase.splits list.splits)

lemma flush_inv_step:
  assumes inv: "flush_inv f ws bd" and ok: "block_ok bd" and ws: "\<forall>w \<in> set ws. w < f"
    and step: "block_step e bd = Some bd'"
  shows "flush_inv f ws bd'"
proof (cases e)
  case (SpawnRequest ch)
  have "f \<noteq> bd_next bd" and less: "f < bd_next bd" using inv by (auto simp: flush_inv_def)
  from start_request_other [OF this(1), where ch = ch and bd = "bd\<lparr>bd_next := Suc (bd_next bd)\<rparr>"]
  show ?thesis
    using SpawnRequest step less
    by (intro flush_inv_mono [OF inv _ _ ws]) (auto simp: spawn_request_def guarded_def split: if_splits)
next
  case (StorageReturns i n)
  have "(f, r) \<in> set (bd_active bd)"
    if "(f, r) \<in> set (bd_active (storage_returns i n bd))" "rq_phase r = AwaitWrites vs" for r vs
    using that by (auto simp: storage_returns_def end_transfer_def Let_def
        split: option.splits request_phase.splits list.splits if_splits)
  with StorageReturns step storage_returns_other(1-3) [where i = i and n = n and bd = bd] show ?thesis
    by (intro flush_inv_mono [OF inv _ _ ws]) auto
next
  case (StorageFails i)
  with step show ?thesis
    by (intro flush_inv_mono [OF inv _ _ ws]) (auto simp: storage_fails_def)
next
  case (FlushResumes i)
  then obtain r vs where r: "map_of (bd_active bd) i = Some r" "rq_phase r = AwaitWrites vs"
    and vs: "\<forall>v \<in> set vs. v \<notin> set (bd_writes bd)"
    and bd': "bd' = set_request i (r\<lparr>rq_phase := Flushing\<rparr>) (call_storage i CallFlush bd)"
    using step by (auto simp: flush_resumes_def split: option.splits request_phase.splits if_splits)
  show ?thesis
  proof (cases "i = f")
    case True
    then have "vs = ws" using inv r map_of_SomeD unfolding flush_inv_def by fastforce
    with True vs inv show ?thesis unfolding flush_inv_def bd' by auto
  next
    case False
    then show ?thesis unfolding bd' by (intro flush_inv_mono [OF inv _ _ ws]) auto
  qed
next
  case (StorageStores seg data)
  with step show ?thesis
    by (intro flush_inv_mono [OF inv _ _ ws]) (auto simp: guarded_def storage_stores_def split: if_splits)
next
  case (GuestWrites mem)
  with step show ?thesis
    by (intro flush_inv_mono [OF inv _ _ ws]) (auto simp: guarded_def split: if_splits)
qed

lemma flush_inv_run:
  "block_run es bd = Some bd' \<Longrightarrow> flush_inv f ws bd \<Longrightarrow> block_ok bd \<Longrightarrow> \<forall>w \<in> set ws. w < f \<Longrightarrow> flush_inv f ws bd'"
proof (induction es arbitrary: bd)
  case (Cons e es)
  then obtain bd1 where "block_step e bd = Some bd1" "block_run es bd1 = Some bd'"
    by (auto simp: bind_eq_Some_conv)
  with Cons show ?case by (blast intro: flush_inv_step block_step_ok)
qed simp

section \<open>A transfer carried out in full\<close>

fun piece_calls :: "nat \<Rightarrow> direction \<Rightarrow> nat \<Rightarrow> segment list \<Rightarrow> (nat \<times> storage_call) list" where
  "piece_calls i dir off [] = []"
| "piece_calls i dir off (p # ps) = (i, CallOne dir off p) # piece_calls i dir (off + snd p) ps"

lemma filter_twice [simp]: "filter P (filter P xs) = filter P xs"
  by simp

lemma segments_length_Cons [simp]: "segments_length (s # segs) = snd s + segments_length segs"
  and segments_length_Nil [simp]: "segments_length [] = 0"
  by (simp_all add: segments_length_def)

text \<open>The state after request \<open>i\<close>, with its calls made and the chain handed over.\<close>

definition after_transfer :: "nat \<Rightarrow> direction \<Rightarrow> request \<Rightarrow> (nat \<times> storage_call) list \<Rightarrow> block \<Rightarrow> block" where
  "after_transfer i dir r cs bd =
     finish_request i (rq_status r) BS_OK (if dir = Reading then rq_length r else 0)
       (bd\<lparr>bd_active := filter (\<lambda>x. fst x \<noteq> i) (bd_active bd), bd_calls := bd_calls bd @ cs,
           bd_writes := if dir = Writing then removeAll i (bd_writes bd) else bd_writes bd\<rparr>)"

lemma transfer_full:
  assumes "map_of (bd_active bd) i = Some r"
    "rq_phase r = Moving dir \<lparr>tr_offset = off, tr_piece = Some p, tr_rest = ps, tr_moved = m\<rparr>"
    "m + snd p + segments_length ps = rq_length r"
  shows "block_run (map (\<lambda>s. StorageReturns i (snd s)) (p # ps)) bd =
    Some (after_transfer i dir r (piece_calls i dir (off + m + snd p) ps) bd)"
  using assms
proof (induction ps arbitrary: bd r p m)
  case Nil
  then show ?case
    by (simp add: storage_returns_def end_transfer_def after_transfer_def drop_request_def finish_request_def)
next
  case (Cons q ps)
  let ?tr = "\<lparr>tr_offset = off, tr_piece = Some q, tr_rest = ps, tr_moved = m + snd p\<rparr>"
  let ?bd = "set_request i (r\<lparr>rq_phase := Moving dir ?tr\<rparr>) (call_storage i (CallOne dir (off + (m + snd p)) q) bd)"
  have step: "block_step (StorageReturns i (snd p)) bd = Some ?bd"
    using Cons.prems by (simp add: storage_returns_def Let_def)
  have "block_run (map (\<lambda>s. StorageReturns i (snd s)) (q # ps)) ?bd =
     Some (after_transfer i dir (r\<lparr>rq_phase := Moving dir ?tr\<rparr>) (piece_calls i dir (off + (m + snd p) + snd q) ps) ?bd)"
    using Cons.prems by (intro Cons.IH) simp_all
  moreover have "after_transfer i dir (r\<lparr>rq_phase := Moving dir ?tr\<rparr>) (piece_calls i dir (off + (m + snd p) + snd q) ps) ?bd
     = after_transfer i dir r (piece_calls i dir (off + m + snd p) (q # ps)) bd"
    by (simp add: after_transfer_def set_request_def call_storage_def finish_request_def add.assoc)
  ultimately show ?case using step by simp
qed

lemma start_request_flush:
  assumes "(i, r) \<in> set (bd_active (fst (start_request i ch bd)))" "rq_phase r = AwaitWrites vs"
    "i \<notin> fst ` set (bd_active bd)"
  shows "vs = bd_writes bd"
proof (cases "ch_buffers ch")
  case Nil
  with assms show ?thesis by (force simp: start_request_def)
next
  case (Cons header rest)
  show ?thesis
    using assms unfolding start_request_def Cons list.case Let_def
    by (force simp: case_prod_beta split: sum.splits if_splits)
qed

lemma start_request_no_flush:
  "(j, CallFlush) \<in> set (bd_calls (fst (start_request i ch bd))) \<Longrightarrow> (j, CallFlush) \<in> set (bd_calls bd)"
proof (cases "ch_buffers ch")
  case (Cons header rest)
  have "(j, CallFlush) \<in> set (bd_calls (fst (start_transfer i dir off segs v bd))) \<longleftrightarrow> (j, CallFlush) \<in> set (bd_calls bd)"
    for dir off segs v
    by (auto simp: start_transfer_def split: list.splits)
  then show "(j, CallFlush) \<in> set (bd_calls (fst (start_request i ch bd))) \<Longrightarrow> ?thesis"
    unfolding start_request_def Cons list.case Let_def
    by (simp add: case_prod_beta split: sum.splits if_splits)
qed (simp add: start_request_def)

lemma flush_inv_start:
  assumes ok: "block_ok bd" and step: "block_step (SpawnRequest ch) bd = Some bd1"
  shows "flush_inv (bd_next bd) (bd_writes bd) bd1"
proof -
  let ?f = "bd_next bd" and ?bd = "bd\<lparr>bd_next := Suc (bd_next bd)\<rparr>"
  have bd1: "bd1 = fst (start_request ?f ch ?bd)"
    using step by (auto simp: spawn_request_def guarded_def split: if_splits)
  have new: "?f \<notin> fst ` set (bd_active bd)" "?f \<notin> fst ` set (bd_calls bd)"
    using block_okD(5,6) [OF ok, of ?f] by auto
  have "Suc ?f \<noteq> ?f" by simp
  from start_request_other(3,4) [OF this, where ch = ch and bd = ?bd]
  have w: "set (bd_writes bd1) \<subseteq> insert ?f (set (bd_writes bd))" and n: "bd_next bd1 = Suc ?f"
    by (simp_all add: bd1)
  have "(?f, CallFlush) \<notin> set (bd_calls bd1)"
    using start_request_no_flush [of ?f ?f ch ?bd] new(2) by (force simp: bd1)
  moreover have "vs = bd_writes bd" if "(?f, r) \<in> set (bd_active bd1)" "rq_phase r = AwaitWrites vs" for r vs
    using start_request_flush [of ?f r ch ?bd vs] that new(1) by (simp add: bd1)
  ultimately show ?thesis using w n unfolding flush_inv_def by auto
qed

lemma start_request_moves:
  assumes bufs: "ch_buffers ch = header # data @ [status]"
    and head: "\<not> vb_writable header" "length (vb_array header) = layout_size BlockDeviceRequest"
      "vb_writable status" "length (vb_array status) = 1"
    and fields: "get_num BlockDeviceRequest (whole_view (vb_array header)) ''type'' = Inr (if dir = Reading then BT_IN else BT_OUT)"
      "get_num BlockDeviceRequest (whole_view (vb_array header)) ''sector'' = Inr sector"
    and data: "\<forall>b \<in> set data. vb_writable b = (dir = Reading)" "length data \<le> SEG_MAX"
    and segs: "segs = map chain_segment data" "0 < segments_length segs" "sector * 512 + segments_length segs \<le> bd_capacity bd"
    and dev: "dir = Writing \<longrightarrow> bd_writable bd" "\<not> bd_vectored_read bd" "\<not> bd_vectored_write bd"
  shows "\<exists>p ps. runs segs = p # ps \<and> fst (start_request i ch bd) =
      set_request i \<lparr>rq_status = vb_target status, rq_length = segments_length segs,
        rq_phase = Moving dir \<lparr>tr_offset = sector * 512, tr_piece = Some p, tr_rest = ps, tr_moved = 0\<rparr>\<rparr>
       (bd\<lparr>bd_calls := bd_calls bd @ [(i, CallOne dir (sector * 512) p)],
           bd_writes := bd_writes bd @ (if dir = Writing then [i] else [])\<rparr>)"
proof -
  obtain p ps where ps: "runs segs = p # ps"
    using segs(2) runs_length [of segs] by (cases "runs segs") auto
  have all: "dir = Reading \<Longrightarrow> list_all vb_writable data" "dir = Writing \<Longrightarrow> \<not> list_ex vb_writable data"
    using data(1) by (auto simp: list_all_iff list_ex_iff)
  have tr: "start_transfer i dir (sector * 512) segs False bd =
      (call_storage i (CallOne dir (sector * 512) p) bd,
       \<lparr>tr_offset = sector * 512, tr_piece = Some p, tr_rest = ps, tr_moved = 0\<rparr>)"
    by (cases ps) (simp_all add: start_transfer_def ps)
  have "fst (start_request i ch bd) =
      set_request i \<lparr>rq_status = vb_target status, rq_length = segments_length segs,
        rq_phase = Moving dir \<lparr>tr_offset = sector * 512, tr_piece = Some p, tr_rest = ps, tr_moved = 0\<rparr>\<rparr>
       (bd\<lparr>bd_calls := bd_calls bd @ [(i, CallOne dir (sector * 512) p)],
           bd_writes := bd_writes bd @ (if dir = Writing then [i] else [])\<rparr>)"
    using head fields data(2) segs dev all tr
    by (cases dir) (simp_all add: start_request_def bufs butlast_append segs(1) [symmetric] call_storage_def
        Let_def BT_IN_def BT_OUT_def)
  with ps show ?thesis by blast
qed

section \<open>Properties\<close>

text \<open>
  C10: Whatever the guest queues and whatever storage answers, every call the block device makes to its
  storage stays inside the advertised sectors and names only non-empty pieces of guest memory, storage
  that is read-only is never written and only storage that can flush is flushed.  A request is completed
  at most once, and never while it is still in flight.
\<close>

theorem block_calls_in_bounds:
  assumes "block_reachable bd"
  shows "(\<forall>c \<in> snd ` set (bd_calls bd). call_ok (bd_capacity bd, length (bd_mem bd), bd_writable bd, bd_flushable bd) c)
    \<and> distinct (map fst (bd_released bd))
    \<and> fst ` set (bd_active bd) \<inter> fst ` set (bd_released bd) = {}"
  using block_reachable_ok [OF assms] by (simp_all add: block_ok_def limits_def list_all_iff)



text \<open>A device with a capacity of four sectors, and requests for it.\<close>

definition demo_block :: block where
  "demo_block = new_block 2048 True False False True (replicate 24 0)"

definition demo_header :: "byte \<Rightarrow> vq_buffer" where
  "demo_header kind = \<lparr>vb_array = [kind, 0, 0, 0, 0, 0, 0, 0, 1, 0, 0, 0, 0, 0, 0, 0], vb_writable = False,
     vb_address = None, vb_target = 0\<rparr>"

definition demo_data :: "vq_buffer list" where
  "demo_data = [\<lparr>vb_array = [0, 0], vb_writable = True, vb_address = None, vb_target = 16\<rparr>,
     \<lparr>vb_array = [0, 0], vb_writable = True, vb_address = None, vb_target = 18\<rparr>]"

definition demo_status :: vq_buffer where
  "demo_status = \<lparr>vb_array = [0], vb_writable = True, vb_address = None, vb_target = 23\<rparr>"

definition demo_read :: vq_chain where
  "demo_read = \<lparr>ch_buffers = demo_header 0 # demo_data @ [demo_status], ch_id = 0, ch_skip = 4\<rparr>"

definition demo_write :: vq_chain where
  "demo_write = \<lparr>ch_buffers = demo_header 1 # map (vb_writable_update (\<lambda>_. False)) demo_data @ [demo_status],
     ch_id = 0, ch_skip = 4\<rparr>"

definition demo_flush :: vq_chain where
  "demo_flush = \<lparr>ch_buffers = [demo_header 4, demo_status], ch_id = 0, ch_skip = 2\<rparr>"

lemma demo_block_reachable: "block_run es demo_block = Some bd \<Longrightarrow> block_reachable bd"
proof -
  have "block_run es bd0 = Some bd \<Longrightarrow> block_reachable bd0 \<Longrightarrow> block_reachable bd" for bd0
    by (induction es arbitrary: bd0) (auto simp: bind_eq_Some_conv intro: block_reachable.step)
  moreover have "block_reachable demo_block"
    unfolding demo_block_def by (rule block_reachable.start)
  ultimately show "block_run es demo_block = Some bd \<Longrightarrow> block_reachable bd" by blast
qed

theorem block_calls_in_bounds_witness:
  "bd_calls (the (block_run [SpawnRequest demo_write, SpawnRequest demo_read] demo_block))
     = [(0, CallOne Writing 512 (16, 4)), (1, CallOne Reading 512 (16, 4))]
   \<and> list_all (call_ok (2048, 24, True, True))
       (map snd (bd_calls (the (block_run [SpawnRequest demo_write, SpawnRequest demo_read] demo_block))))"
proof -
  let ?bd = "the (block_run [SpawnRequest demo_write, SpawnRequest demo_read] demo_block)"
  have run: "block_run [SpawnRequest demo_write, SpawnRequest demo_read] demo_block = Some ?bd
      \<and> bd_calls ?bd = [(0, CallOne Writing 512 (16, 4)), (1, CallOne Reading 512 (16, 4))]
      \<and> (bd_capacity ?bd, length (bd_mem ?bd), bd_writable ?bd, bd_flushable ?bd) = (2048, 24, True, True)"
    by code_simp
  then have "block_reachable ?bd" by (blast intro: demo_block_reachable)
  from block_calls_in_bounds [OF this] run show ?thesis by (simp add: list_all_iff)
qed



end
