(* ===== verification/Struct_Encoding.thy ===== *)
theory Struct_Encoding
  imports Byte_Buffer
begin

text \<open>
  Structs as byte strings: assigning an object with every field of a struct in order writes the
  concatenation of the encoded fields, and reading a numeric field of such a byte string returns the
  number.  The theories about packets and messages build and parse their headers with these lemmas.
\<close>

section \<open>Encoding\<close>

fun encode_fields :: "layout \<Rightarrow> (string \<times> val) list \<Rightarrow> bytes result" where
  "encode_fields [] [] = Inr []"
| "encode_fields ((k, t) # fs) ((k', v) # kvs) =
     (if k = k' then bindE (ty_encode t v) (\<lambda>bs. bindE (encode_fields fs kvs) (\<lambda>rest. Inr (bs @ rest)))
      else Inl (TypeError ''fields out of order''))"
| "encode_fields _ _ = Inl (TypeError ''fields out of order'')"

lemma ty_encode_scalar [simp]: "ty_encode (Scalar s) (Num v) = Inr (scalar_encode s v)"
  by (simp add: ty_encode_def scalar_set_def dv_write_def overwrite_0_all)

lemma length_encode_fields: "encode_fields fs kvs = Inr bs \<Longrightarrow> length bs = layout_size fs"
  by (induction fs kvs arbitrary: bs rule: encode_fields.induct)
    (auto simp: throws length_ty_encode split: if_splits)

lemma field_at_append:
  "k \<notin> fst ` set fs \<Longrightarrow> field_at (fs @ (k, t) # gs) off k = Some (off + layout_size fs, t)"
proof (induction fs arbitrary: off)
  case (Cons kt fs)
  obtain k' t' where "kt = (k', t')" by fastforce
  with Cons show ?case by (simp add: add.assoc)
qed simp

lemma set_fields_encode:
  assumes "distinct (map fst (pre @ fs))" and "length A = layout_size pre" and "encode_fields fs kvs = Inr bs"
  shows "set_fields (pre @ fs) (whole_view (A @ replicate (layout_size fs) 0)) kvs = Inr (A @ bs)"
  using assms
proof (induction fs kvs arbitrary: pre A bs rule: encode_fields.induct)
  case (2 k t fs k' v kvs)
  from "2.prems"(3) obtain b1 b2 where
    k: "k' = k" and b: "ty_encode t v = Inr b1" "encode_fields fs kvs = Inr b2" "bs = b1 @ b2"
    by (auto simp: throws split: if_splits)
  have at: "field_at (pre @ (k, t) # fs) 0 k = Some (layout_size pre, t)"
    using "2.prems"(1) by (subst field_at_append) auto
  let ?buf = "A @ replicate (ty_size t) 0 @ replicate (layout_size fs) 0"
  have buf: "A @ replicate (layout_size ((k, t) # fs)) 0 = ?buf" by (simp add: replicate_add)
  have set: "ty_set t (whole_view ?buf) (layout_size pre) v = Inr (A @ b1 @ replicate (layout_size fs) 0)"
    using ty_set_encode [of ?buf A t] b(1) "2.prems"(2) by simp
  have len: "length (A @ b1 @ replicate (layout_size fs) 0) = length ?buf"
    using length_ty_encode [OF b(1)] by simp
  have "set_fields ((pre @ [(k, t)]) @ fs) (whole_view ((A @ b1) @ replicate (layout_size fs) 0)) kvs = Inr ((A @ b1) @ b2)"
    using "2.prems"(1,2) b length_ty_encode [OF b(1)] k
    by (intro "2.IH") (simp_all add: layout_size_def)
  moreover have "whole_view ?buf\<lparr>dv_buffer := A @ b1 @ replicate (layout_size fs) 0\<rparr> =
      whole_view ((A @ b1) @ replicate (layout_size fs) 0)"
    using len by (simp add: whole_view_def)
  ultimately show ?case
    using at set k b(3) unfolding buf by simp
qed simp_all

lemma struct_encode:
  assumes "distinct (map fst fs)" and "encode_fields fs kvs = Inr bs"
  shows "ty_encode (Struct fs) (Obj kvs) = Inr bs"
  using set_fields_encode [of "[]" fs "[]" kvs bs] assms by (simp add: ty_encode_def layout_size_def)

section \<open>Decoding\<close>

lemma encode_fields_at:
  assumes "encode_fields fs kvs = Inr bs" and "field_at fs off k = Some (o', t)" and "(k, v) \<in> set kvs"
    and "distinct (map fst fs)"
  shows "\<exists>b. ty_encode t v = Inr b \<and> off \<le> o' \<and> subarray bs (o' - off) (o' - off + ty_size t) = b"
  using assms
proof (induction fs kvs arbitrary: bs off rule: encode_fields.induct)
  case (2 k0 t0 fs k' v' kvs)
  from "2.prems"(1) obtain b1 b2 where
    k: "k' = k0" and b: "ty_encode t0 v' = Inr b1" "encode_fields fs kvs = Inr b2" "bs = b1 @ b2"
    by (auto simp: throws split: if_splits)
  have keys: "fst ` set kvs \<subseteq> fst ` set fs" if "encode_fields fs kvs = Inr b2" for fs kvs b2
    using that by (induction fs kvs arbitrary: b2 rule: encode_fields.induct) (auto simp: throws split: if_splits)
  show ?case
  proof (cases "k = k0")
    case True
    with "2.prems"(2) have o': "o' = off" "t = t0" by simp_all
    have "(k, v) \<notin> set kvs" using keys [OF b(2)] "2.prems"(4) True by force
    with "2.prems"(3) k True have "v = v'" by simp
    with b o' length_ty_encode [OF b(1)] show ?thesis by (simp add: subarray_def)
  next
    case False
    then have at: "field_at fs (off + ty_size t0) k = Some (o', t)" using "2.prems"(2) by simp
    then have le: "off + ty_size t0 \<le> o'" using field_at_bounds by blast
    from "2.IH" [OF _ b(1,2) at] False "2.prems" k obtain b where
      b': "ty_encode t v = Inr b" "subarray b2 (o' - (off + ty_size t0)) (o' - (off + ty_size t0) + ty_size t) = b"
      by auto
    have "subarray bs (o' - off) (o' - off + ty_size t) =
        subarray b2 (o' - (off + ty_size t0)) (o' - (off + ty_size t0) + ty_size t)"
      using le length_ty_encode [OF b(1)] b(3) by (simp add: subarray_def)
    with b' le show ?thesis by auto
  qed
qed simp_all

lemma get_num_encoded:
  assumes enc: "encode_fields fs kvs = Inr bs" and at: "field_at fs 0 k = Some (off, Scalar s)"
    and v: "(k, Num v) \<in> set kvs" "scalar_range s v" and "distinct (map fst fs)"
  shows "get_num fs (whole_view (bs @ rest)) k = Inr (nat v)"
proof -
  have bound: "off + scalar_size s \<le> length bs"
    using field_at_bounds [OF at] length_encode_fields [OF enc] by simp
  have "subarray bs off (off + scalar_size s) = scalar_encode s v"
    using encode_fields_at [OF enc at v(1) assms(5)] by simp
  with bound have "subarray (bs @ rest) off (off + scalar_size s) = scalar_encode s v"
    by (simp add: subarray_append_left)
  with bound show ?thesis
    using get_num_whole [OF at, of "whole_view (bs @ rest)"] scalar_decode_encode [OF v(2)] by simp
qed

end
