(* ===== verification/Ethernet.thy ===== *)
theory Ethernet
  imports Virtio_Device "HOL-Library.AList"
begin

text \<open>
  The learning Ethernet switch and the network card of \<open>packages/kernel/src/virtio/net.ts\<close>.

  Ports of a switch are numbered in the order they were added; a port's handler is outside the
  model, so sending returns the ports that receive the frame.  Promises are numbers: a frame that
  is waited for carries the number its sender awaits.
\<close>

section \<open>Frames\<close>

definition EthernetHeader :: layout where
  "EthernetHeader = [(''destination'', FixedArray (Scalar U8) 6), (''source'', FixedArray (Scalar U8) 6),
     (''type'', Scalar U16BE)]"

definition VirtioNetHeader :: layout where
  "VirtioNetHeader = [(''flags'', Scalar U8), (''gso_type'', Scalar U8), (''header_length'', Scalar U16LE),
     (''gso_size'', Scalar U16LE), (''checksum_start'', Scalar U16LE), (''checksum_offset'', Scalar U16LE),
     (''buffer_count'', Scalar U16LE)]"

definition RECEIVE_BACKLOG :: nat where "RECEIVE_BACKLOG = 16"
definition MAX_PENDING_FRAMES :: nat where "MAX_PENDING_FRAMES = 256"

text \<open>An address field of a frame, as numbers.\<close>

definition header_mac :: "bytes \<Rightarrow> string \<Rightarrow> nat list result" where
  "header_mac frame k = bindE (get_field EthernetHeader (whole_view frame) k) (\<lambda>v. case v of
       Arr vs \<Rightarrow> Inr (map (\<lambda>x. case x of Num n \<Rightarrow> nat n | _ \<Rightarrow> 0) vs)
     | _ \<Rightarrow> Inl (TypeError ''not an array''))"

definition hex_digit :: "nat \<Rightarrow> char" where
  "hex_digit n = (if n < 10 then char_of (48 + n) else char_of (87 + n))"

fun hex_digits :: "nat \<Rightarrow> string" where
  "hex_digits n = (if n < 16 then [hex_digit n] else hex_digits (n div 16) @ [hex_digit (n mod 16)])"

declare hex_digits.simps [simp del]

definition pad_start :: "nat \<Rightarrow> char \<Rightarrow> string \<Rightarrow> string" where
  "pad_start n c s = replicate (n - length s) c @ s"

definition mac_key :: "nat list \<Rightarrow> string" where
  "mac_key address = join '':'' (map (\<lambda>b. pad_start 2 (CHR ''0'') (hex_digits b)) address)"

definition is_multicast :: "nat list \<Rightarrow> bool" where
  "is_multicast address \<longleftrightarrow> hd address AND 1 \<noteq> 0"

section \<open>The switch\<close>

record ethernet =
  en_ports :: "nat list"
  en_port_closed :: "bool list"
  en_learned :: "(string \<times> nat) list"
  en_closed :: bool

definition ethernetNetwork :: ethernet where
  "ethernetNetwork = \<lparr>en_ports = [], en_port_closed = [], en_learned = [], en_closed = False\<rparr>"

definition addPort :: "ethernet \<Rightarrow> (ethernet \<times> nat) result" where
  "addPort en =
     bindE (assertE (\<not> en_closed en) ''cannot add a port to a closed Ethernet network'') (\<lambda>_.
     let p = length (en_port_closed en)
     in Inr (en\<lparr>en_ports := en_ports en @ [p], en_port_closed := en_port_closed en @ [False]\<rparr>, p))"

definition recipients :: "nat \<Rightarrow> nat list \<Rightarrow> nat option \<Rightarrow> ethernet \<Rightarrow> nat list" where
  "recipients port dst destination en =
     (let others = filter (\<lambda>c. c \<noteq> port \<and> \<not> en_port_closed en ! c) (en_ports en)
      in case destination of
           Some q \<Rightarrow> if is_multicast dst then others
                     else if q = port \<or> en_port_closed en ! q then [] else [q]
         | None \<Rightarrow> others)"

text \<open>
  \<open>send\<close>: the ports that receive the frame, and whether the sender waits for the one recipient.
\<close>

definition port_send :: "nat \<Rightarrow> bytes \<Rightarrow> ethernet \<Rightarrow> (ethernet \<times> nat list \<times> bool) result" where
  "port_send port frame en =
     (if en_closed en then Inr (en, [], False)
      else
        bindE (assertE (\<not> en_port_closed en ! port) ''cannot send from a closed Ethernet port'') (\<lambda>_.
        bindE (assertE (length frame \<ge> layout_size EthernetHeader) ''Ethernet frame is shorter than its header'') (\<lambda>_.
        bindE (header_mac frame ''source'') (\<lambda>src.
        bindE (header_mac frame ''destination'') (\<lambda>dst.
        let learned = AList.update (mac_key src) port (en_learned en);
            destination = map_of learned (mac_key dst);
            rs = recipients port dst destination en
        in Inr (en\<lparr>en_learned := learned\<rparr>, rs, destination \<noteq> None \<and> length rs = 1))))))"

definition port_close :: "nat \<Rightarrow> ethernet \<Rightarrow> ethernet" where
  "port_close port en =
     (if en_port_closed en ! port then en
      else en\<lparr>en_port_closed := (en_port_closed en)[port := True], en_ports := removeAll port (en_ports en),
              en_learned := filter (\<lambda>(mac, owner). owner \<noteq> port) (en_learned en)\<rparr>)"

definition network_close :: "ethernet \<Rightarrow> ethernet" where
  "network_close en =
     (if en_closed en then en
      else en\<lparr>en_closed := True,
              en_port_closed := foldl (\<lambda>fs p. fs[p := True]) (en_port_closed en) (en_ports en),
              en_ports := [], en_learned := []\<rparr>)"

section \<open>The network card\<close>

record nic =
  nic_rx :: "vq_chain rx_queue"
  nic_pending :: "(bytes \<times> nat option) list"
  nic_stopped :: bool
  nic_delivered :: "(vq_chain \<times> nat) list"
  nic_resolved :: "nat list"
  nic_waiting :: "nat list"
  nic_abandoned :: "nat list"

definition new_nic :: nic where
  "new_nic = \<lparr>nic_rx = new_rx, nic_pending = [], nic_stopped = False, nic_delivered = [], nic_resolved = [],
     nic_waiting = [], nic_abandoned = []\<rparr>"

definition random_mac :: "bytes \<Rightarrow> bytes" where
  "random_mac random = random[0 := (random ! 0 OR 2) AND 254]"

definition net_header_fields :: val where
  "net_header_fields = Obj [(''flags'', Num 0), (''gso_type'', Num 0), (''header_length'', Num 0), (''gso_size'', Num 0),
     (''checksum_start'', Num 0), (''checksum_offset'', Num 0), (''buffer_count'', Num 1)]"

text \<open>The packet \<open>write_frame\<close> builds in a \<open>Bytes\<close> buffer; \<open>None\<close> would be a growth that never ends.\<close>

definition net_packet :: "bytes \<Rightarrow> bytes result option" where
  "net_packet frame =
     Option.bind (bytes_put (new_bytes (layout_size VirtioNetHeader + length frame)) (Struct VirtioNetHeader) net_header_fields)
       (\<lambda>r. case r of
          Inl e \<Rightarrow> Some (Inl e)
        | Inr b \<Rightarrow> map_option (\<lambda>b'. Inr (bytes_array b')) (bytes_append b frame))"

text \<open>The loop over the descriptors: the buffers filled so far, and the bytes left over.\<close>

fun scatter :: "bytes \<Rightarrow> vq_buffer list \<Rightarrow> (vq_buffer list \<times> bytes) result" where
  "scatter bs [] = Inr ([], bs)"
| "scatter bs (b # bufs) =
     (if \<not> vb_writable b then Inl (Error ''virtio-net receive descriptor must be writable'')
      else let n = min (length bs) (length (vb_array b))
           in bindE (scatter (drop n bs) bufs) (\<lambda>(bufs', rest).
                Inr (b\<lparr>vb_array := overwrite (vb_array b) 0 (take n bs)\<rparr> # bufs', rest)))"

definition write_frame :: "vq_chain \<Rightarrow> bytes \<Rightarrow> (vq_chain \<times> nat) result option" where
  "write_frame ch frame = map_option (\<lambda>r.
     bindE r (\<lambda>bs.
     bindE (scatter bs (ch_buffers ch)) (\<lambda>(bufs, rest).
     bindE (assertE (rest = []) ''virtio-net receive buffer is too small'') (\<lambda>_.
     Inr (ch\<lparr>ch_buffers := bufs\<rparr>, length bs))))) (net_packet frame)"

text \<open>\<open>#flush\<close>: a frame whose chain does not take it stays first in line; the chain is gone.\<close>

fun nic_flush_loop :: "(bytes \<times> nat option) list \<Rightarrow> nic \<Rightarrow> (nic \<times> unit result) option" where
  "nic_flush_loop [] nic = Some (nic\<lparr>nic_pending := []\<rparr>, Inr ())"
| "nic_flush_loop ((frame, w) # ps) nic = (case rx_deliver (nic_rx nic) of
       (rx, None) \<Rightarrow> Some (nic\<lparr>nic_pending := (frame, w) # ps\<rparr>, Inr ())
     | (rx, Some ch) \<Rightarrow> (case write_frame ch frame of
           None \<Rightarrow> None
         | Some (Inl e) \<Rightarrow> Some (nic\<lparr>nic_rx := rx, nic_pending := (frame, w) # ps\<rparr>, Inl e)
         | Some (Inr done) \<Rightarrow> nic_flush_loop ps
             (nic\<lparr>nic_rx := rx, nic_delivered := nic_delivered nic @ [done],
                  nic_resolved := nic_resolved nic @ (case w of None \<Rightarrow> [] | Some p \<Rightarrow> [p])\<rparr>)))"

definition nic_flush :: "nic \<Rightarrow> (nic \<times> unit result) option" where
  "nic_flush nic = nic_flush_loop (nic_pending nic) nic"

text \<open>
  \<open>#receive\<close>: whether the frame was taken into the backlog, and whether the caller must wait for the
  promise \<open>w\<close>.  The promise is attached to the frame object only when the caller has to wait; the
  object may have been delivered already, in which case a shorter backlog is seen.
\<close>

definition nic_receive :: "nat \<Rightarrow> bytes \<Rightarrow> nic \<Rightarrow> (nic \<times> bool result) option" where
  "nic_receive w frame nic =
     (if nic_stopped nic \<or> length (nic_pending nic) \<ge> MAX_PENDING_FRAMES then Some (nic, Inr False)
      else case nic_flush (nic\<lparr>nic_pending := nic_pending nic @ [(frame, None)]\<rparr>) of
        None \<Rightarrow> None
      | Some (nic1, Inl e) \<Rightarrow> Some (nic1, Inl e)
      | Some (nic1, Inr _) \<Rightarrow>
          if length (nic_pending nic1) \<le> RECEIVE_BACKLOG then Some (nic1, Inr False)
          else Some (nic1\<lparr>nic_pending := (nic_pending nic1)[length (nic_pending nic1) - 1 := (frame, Some w)]\<rparr>,
                     Inr True))"

definition nic_kick_rx :: "vq_chain list \<Rightarrow> js_error option \<Rightarrow> nic \<Rightarrow> (nic \<times> unit result) option" where
  "nic_kick_rx chs err nic = (case rx_post chs err (nic_rx nic) of
       (rx, _, Inl e) \<Rightarrow> Some (nic\<lparr>nic_rx := rx\<rparr>, Inl e)
     | (rx, _, Inr _) \<Rightarrow> nic_flush (nic\<lparr>nic_rx := rx\<rparr>))"

text \<open>The frame of a transmit chain: its bytes behind the virtio-net header.\<close>

fun skip_append :: "nat \<Rightarrow> bytes list \<Rightarrow> bytebuf \<Rightarrow> bytebuf option" where
  "skip_append off [] b = Some b"
| "skip_append off (chunk # chunks) b =
     (if off \<ge> length chunk then skip_append (off - length chunk) chunks b
      else Option.bind (bytes_append b (drop off chunk)) (skip_append 0 chunks))"

definition transmit_frame :: "vq_chain \<Rightarrow> bytes result option" where
  "transmit_frame ch =
     (if list_ex vb_writable (ch_buffers ch)
      then Some (Inl (Error ''virtio-net transmit descriptor must be readable''))
      else let chunks = map vb_array (ch_buffers ch);
               n = sum_list (map length chunks)
           in if \<not> n \<ge> layout_size VirtioNetHeader then Some (Inl (Error ''short virtio-net transmit header''))
              else map_option (\<lambda>b.
                if bb_length b = bytes_capacity b then Inr (bytes_array b)
                else Inl (Error ''short virtio-net transmit frame''))
              (skip_append (layout_size VirtioNetHeader) chunks (new_bytes (n - layout_size VirtioNetHeader))))"

text \<open>
  A transmit in progress waits for the switch under its own number; abandoning it makes the race
  return first, and the chain is not released.
\<close>

definition transmit_begin :: "nat \<Rightarrow> nic \<Rightarrow> nic" where
  "transmit_begin w nic = nic\<lparr>nic_waiting := nic_waiting nic @ [w]\<rparr>"

definition transmit_end :: "nat \<Rightarrow> nic \<Rightarrow> nic \<times> bool" where
  "transmit_end w nic = (nic\<lparr>nic_waiting := removeAll w (nic_waiting nic)\<rparr>, w \<notin> set (nic_abandoned nic))"

definition abandon_transmits :: "nic \<Rightarrow> nic" where
  "abandon_transmits nic = nic\<lparr>nic_abandoned := nic_abandoned nic @ nic_waiting nic, nic_waiting := []\<rparr>"

definition nic_reset :: "nic \<Rightarrow> nic" where
  "nic_reset nic = abandon_transmits (nic\<lparr>nic_rx := rx_reset (nic_rx nic)\<rparr>)"

definition nic_stop :: "nic \<Rightarrow> nic" where
  "nic_stop nic =
     (let nic1 = abandon_transmits nic
      in nic1\<lparr>nic_stopped := True, nic_rx := fst (rx_close (nic_rx nic1)), nic_pending := [],
              nic_resolved := nic_resolved nic1 @ List.map_filter snd (nic_pending nic1)\<rparr>)"

section \<open>Addresses\<close>

lemma EthernetHeader_size [simp]: "layout_size EthernetHeader = 14"
  by (simp add: EthernetHeader_def)

lemma VirtioNetHeader_size [simp]: "layout_size VirtioNetHeader = 12"
  by (simp add: VirtioNetHeader_def)

lemma get_elems_bytes:
  "off + n \<le> length frame \<Longrightarrow> get_elems (Scalar U8) n (whole_view frame) off =
     Inr (map (\<lambda>b. Num (int (unat b))) (subarray frame off (off + n)))"
proof (induction n arbitrary: off)
  case 0
  then show ?case by simp
next
  case (Suc n)
  have "subarray frame off (off + Suc n) = frame ! off # subarray frame (Suc off) (Suc off + n)"
    using Suc.prems by (simp add: subarray_def Cons_nth_drop_Suc [symmetric])
  moreover have "subarray frame off (Suc off) = [frame ! off]"
    using Suc.prems by (simp add: subarray_def Cons_nth_drop_Suc [symmetric])
  ultimately show ?case
    using Suc by (simp add: scalar_get_def dv_read_def)
qed

lemma header_mac_source:
  "14 \<le> length frame \<Longrightarrow> header_mac frame ''source'' = Inr (map unat (subarray frame 6 12))"
  by (simp add: header_mac_def get_field_def EthernetHeader_def get_elems_bytes comp_def)

lemma header_mac_destination:
  "14 \<le> length frame \<Longrightarrow> header_mac frame ''destination'' = Inr (map unat (subarray frame 0 6))"
  by (simp add: header_mac_def get_field_def EthernetHeader_def get_elems_bytes comp_def)

lemma hex_digit_code: "n < 16 \<Longrightarrow> of_char (hex_digit n) = (if n < 10 then 48 + n else 87 + n)"
  by (simp add: hex_digit_def)

lemma hex_digit_inject:
  assumes "hex_digit m = hex_digit n" and "m < 16" and "n < 16"
  shows "m = n"
proof -
  have "(if m < 10 then 48 + m else 87 + m) = (if n < 10 then 48 + n else 87 + n)"
    using hex_digit_code [OF assms(2)] hex_digit_code [OF assms(3)] assms(1) by simp
  with assms(2,3) show ?thesis by (simp split: if_splits)
qed

lemma padded_hex:
  assumes "n < 256"
  shows "pad_start 2 (CHR ''0'') (hex_digits n) = [hex_digit (n div 16), hex_digit (n mod 16)]"
proof (cases "n < 16")
  case True
  have "hex_digit 0 = CHR ''0''" by code_simp
  with True show ?thesis by (simp add: hex_digits.simps [of n] pad_start_def)
next
  case False
  have "n div 16 < 16" using assms by (simp add: less_mult_imp_div_less)
  with False show ?thesis by (simp add: hex_digits.simps [of n] hex_digits.simps [of "n div 16"] pad_start_def)
qed

lemma padded_hex_inject:
  assumes "pad_start 2 (CHR ''0'') (hex_digits m) = pad_start 2 (CHR ''0'') (hex_digits n)" and "m < 256" and "n < 256"
  shows "m = n"
proof -
  have "m div 16 = n div 16" "m mod 16 = n mod 16"
    using assms by (auto simp: padded_hex less_mult_imp_div_less dest!: hex_digit_inject)
  then show ?thesis by (metis div_mult_mod_eq)
qed

lemma mac_key_inject:
  "mac_key xs = mac_key ys \<Longrightarrow> length xs = length ys \<Longrightarrow> list_all (\<lambda>b. b < 256) xs \<Longrightarrow>
     list_all (\<lambda>b. b < 256) ys \<Longrightarrow> xs = ys"
proof (induction xs arbitrary: ys)
  case Nil
  then show ?case by simp
next
  case (Cons x xs)
  obtain y ys' where ys: "ys = y # ys'" using Cons.prems(2) by (cases ys) auto
  let ?h = "\<lambda>b. pad_start 2 (CHR ''0'') (hex_digits b)"
  have two: "length (?h x) = length (?h y)" using Cons.prems ys by (simp add: padded_hex)
  show ?case
  proof (cases xs)
    case Nil
    with Cons.prems ys show ?thesis by (auto simp: mac_key_def dest: padded_hex_inject)
  next
    case (Cons x' xs')
    then obtain y' ys'' where ys': "ys' = y' # ys''" using Cons.prems(2) ys by (cases ys') auto
    have "?h x @ '':'' @ mac_key xs = ?h y @ '':'' @ mac_key ys'"
      using Cons.prems(1) unfolding ys ys' Cons by (simp add: mac_key_def)
    with two have "?h x = ?h y" "mac_key xs = mac_key ys'" by simp_all
    with Cons.IH [of ys'] Cons.prems ys show ?thesis by (auto dest: padded_hex_inject)
  qed
qed

section \<open>Switching\<close>

text \<open>
  The ports in the set are the open ones, and every learned address belongs to one of them.
\<close>

definition en_inv :: "ethernet \<Rightarrow> bool" where
  "en_inv en \<longleftrightarrow> distinct (en_ports en) \<and>
     (\<forall>p. p \<in> set (en_ports en) \<longleftrightarrow> p < length (en_port_closed en) \<and> \<not> en_port_closed en ! p) \<and>
     (\<forall>x \<in> set (en_learned en). snd x < length (en_port_closed en) \<and> \<not> en_port_closed en ! snd x) \<and>
     distinct (map fst (en_learned en)) \<and>
     (en_closed en \<longrightarrow> en_ports en = [])"

inductive en_reachable :: "ethernet \<Rightarrow> bool" where
  fresh: "en_reachable ethernetNetwork"
| added: "en_reachable en \<Longrightarrow> addPort en = Inr (en', p) \<Longrightarrow> en_reachable en'"
| sent: "en_reachable en \<Longrightarrow> port < length (en_port_closed en) \<Longrightarrow> port_send port frame en = Inr (en', rs, w) \<Longrightarrow>
     en_reachable en'"
| port_closed: "en_reachable en \<Longrightarrow> port < length (en_port_closed en) \<Longrightarrow> en_reachable (port_close port en)"
| network_closed: "en_reachable en \<Longrightarrow> en_reachable (network_close en)"

lemma addPort_inv: "addPort en = Inr (en', p) \<Longrightarrow> en_inv en \<Longrightarrow> en_inv en'"
  by (fastforce simp: addPort_def throws Let_def en_inv_def nth_append less_Suc_eq)

lemma learned_update: "set (AList.update k v al) \<subseteq> insert (k, v) (set al)"
  by (induction al) auto

text \<open>The addresses of a frame, as the switch sees them.\<close>

definition source_key :: "bytes \<Rightarrow> string" where
  "source_key frame = mac_key (map unat (subarray frame 6 12))"

definition destination_mac :: "bytes \<Rightarrow> nat list" where
  "destination_mac frame = map unat (subarray frame 0 6)"

lemma port_send_open:
  assumes "\<not> en_closed en" and "\<not> en_port_closed en ! port" and "14 \<le> length frame"
  shows "port_send port frame en =
    (let learned = AList.update (source_key frame) port (en_learned en);
         destination = map_of learned (mac_key (destination_mac frame));
         rs = recipients port (destination_mac frame) destination en
     in Inr (en\<lparr>en_learned := learned\<rparr>, rs, destination \<noteq> None \<and> length rs = 1))"
  using assms by (simp add: port_send_def assertE_def header_mac_source header_mac_destination Let_def
      source_key_def destination_mac_def)

lemma port_send_InrE:
  assumes "port_send port frame en = Inr (en', rs, w)"
  obtains "en_closed en" "en' = en" "rs = []"
  | "\<not> en_closed en" "\<not> en_port_closed en ! port" "14 \<le> length frame"
proof (cases "en_closed en")
  case True
  then have "en' = en" "rs = []" using assms by (simp_all add: port_send_def)
  with True that(1) show thesis by blast
next
  case False
  have "port_send port frame en = Inl (Error ''cannot send from a closed Ethernet port'')" if "en_port_closed en ! port"
    using that False by (simp add: port_send_def assertE_def)
  moreover have "port_send port frame en = Inl (Error ''Ethernet frame is shorter than its header'')"
    if "\<not> en_port_closed en ! port" "\<not> 14 \<le> length frame"
    using that False by (simp add: port_send_def assertE_def)
  ultimately show thesis using False assms that(2) by fastforce
qed

lemma port_send_inv:
  assumes "port_send port frame en = Inr (en', rs, w)" and "en_inv en" and "port < length (en_port_closed en)"
  shows "en_inv en'"
  using assms(1)
proof (cases rule: port_send_InrE)
  case 1
  with assms(2) show ?thesis by simp
next
  case 2
  with assms(1) have "en' = en\<lparr>en_learned := AList.update (source_key frame) port (en_learned en)\<rparr>"
    by (simp add: port_send_open Let_def)
  with learned_update [of "source_key frame" port "en_learned en"] assms(2,3) 2(2) show ?thesis
    by (auto simp: en_inv_def distinct_update)
qed

lemma port_close_inv: "en_inv en \<Longrightarrow> port < length (en_port_closed en) \<Longrightarrow> en_inv (port_close port en)"
  by (auto simp: en_inv_def port_close_def nth_list_update distinct_removeAll distinct_map_filter)

lemma close_flags:
  "length (foldl (\<lambda>fs p. fs[p := True]) fs ps) = length fs \<and>
   (\<forall>i < length fs. foldl (\<lambda>fs p. fs[p := True]) fs ps ! i \<longleftrightarrow> fs ! i \<or> i \<in> set ps)"
proof (induction ps arbitrary: fs)
  case (Cons p ps)
  have "fs[p := True] ! i \<longleftrightarrow> fs ! i \<or> i = p" if "i < length fs" for i
    using that by (cases "i = p") auto
  with Cons.IH [of "fs[p := True]"] show ?case by auto
qed simp

lemma network_close_inv: "en_inv en \<Longrightarrow> en_inv (network_close en)"
  using close_flags [of "en_port_closed en" "en_ports en"] by (auto simp: en_inv_def network_close_def)

lemma en_reachable_inv: "en_reachable en \<Longrightarrow> en_inv en"
proof (induction rule: en_reachable.induct)
  case fresh
  then show ?case by (simp add: en_inv_def ethernetNetwork_def)
qed (simp_all add: addPort_inv port_send_inv port_close_inv network_close_inv)

section \<open>Frames through the card\<close>

definition net_header :: bytes where
  "net_header = [0, 0, 0, 0, 0, 0, 0, 0, 0, 0, 1, 0]"

lemma net_header_encode: "ty_encode (Struct VirtioNetHeader) net_header_fields = Inr net_header"
  by code_simp

lemma net_packet_eq: "net_packet frame = Some (Inr (net_header @ frame))"
proof -
  have "growable (new_bytes (12 + length frame))" by (simp add: new_bytes_growable)
  from bytes_put_works [OF this net_header_encode] obtain b where
    b: "bytes_put (new_bytes (12 + length frame)) (Struct VirtioNetHeader) net_header_fields = Some (Inr b)"
    "growable b" "bytes_array b = net_header" by auto
  from buffer_sink.add_ready [OF b(2), of frame] b(3) obtain b' where
    "bytes_append b frame = Some b'" "bytes_array b' = net_header @ frame" by auto
  with b(1) show ?thesis by (simp add: net_packet_def)
qed

text \<open>
  Scattering a packet over the descriptors of a chain: it fills them from the front, changes no
  length, and leaves over what does not fit.
\<close>

definition payload_room :: "vq_buffer list \<Rightarrow> nat" where
  "payload_room bufs = sum_list (map (length \<circ> vb_array) bufs)"

lemma payload_room_concat: "payload_room bufs = length (concat (map vb_array bufs))"
  by (simp add: payload_room_def length_concat comp_def)

lemma scatter_works:
  assumes "list_all vb_writable bufs"
  shows "\<exists>bufs'. scatter bs bufs = Inr (bufs', drop (payload_room bufs) bs) \<and>
    concat (map vb_array bufs') = overwrite (concat (map vb_array bufs)) 0 (take (payload_room bufs) bs) \<and>
    map (length \<circ> vb_array) bufs' = map (length \<circ> vb_array) bufs"
  using assms
proof (induction bufs arbitrary: bs)
  case Nil
  then show ?case by (simp add: payload_room_def overwrite_def)
next
  case (Cons b bufs)
  define n where "n = min (length bs) (length (vb_array b))"
  have "list_all vb_writable bufs" using Cons.prems by simp
  from Cons.IH [OF this, of "drop n bs"] obtain bufs' where
    IH: "scatter (drop n bs) bufs = Inr (bufs', drop (payload_room bufs) (drop n bs))"
    "concat (map vb_array bufs') = overwrite (concat (map vb_array bufs)) 0 (take (payload_room bufs) (drop n bs))"
    "map (length \<circ> vb_array) bufs' = map (length \<circ> vb_array) bufs" by blast
  let ?b = "b\<lparr>vb_array := overwrite (vb_array b) 0 (take n bs)\<rparr>"
  have n: "n \<le> length (vb_array b)" "n \<le> length bs" "n = length (vb_array b) \<or> n = length bs"
    by (auto simp: n_def min_def)
  have room: "payload_room (b # bufs) = length (vb_array b) + payload_room bufs" by (simp add: payload_room_def)
  have "scatter bs (b # bufs) = Inr (?b # bufs', drop (payload_room bufs) (drop n bs))"
    using IH(1) Cons.prems by (simp add: n_def [symmetric])
  moreover have "drop (payload_room bufs) (drop n bs) = drop (payload_room (b # bufs)) bs"
    using n room by (auto simp: add.commute)
  moreover have "concat (map vb_array (?b # bufs')) =
      overwrite (concat (map vb_array (b # bufs))) 0 (take (payload_room (b # bufs)) bs)"
    using n(3)
  proof
    assume full: "n = length (vb_array b)"
    then have "overwrite (vb_array b) 0 (take n bs) = take n bs" using n by (simp add: overwrite_def)
    with full IH(2) room n show ?thesis by (simp add: overwrite_def take_add min_def)
  next
    assume "n = length bs"
    with IH(2) room n show ?thesis by (simp add: overwrite_def)
  qed
  moreover have "length (overwrite (vb_array b) 0 (take n bs)) = length (vb_array b)"
    using n by (simp add: length_overwrite)
  ultimately show ?case using IH(3) by (auto simp: comp_def)
qed

lemma scatter_readonly: "\<not> list_all vb_writable bufs \<Longrightarrow> \<exists>e. scatter bs bufs = Inl e"
proof (induction bufs arbitrary: bs)
  case (Cons b bufs)
  then show ?case
    by (cases "vb_writable b") (auto simp: Let_def bindE_eq_Inl dest!: Cons.IH [of "drop n bs" for n])
qed simp

lemma write_frame_cases:
  obtains (written) ch' where "write_frame ch frame = Some (Inr (ch', 12 + length frame))"
      "list_all vb_writable (ch_buffers ch)" "12 + length frame \<le> payload_room (ch_buffers ch)"
      "take (12 + length frame) (concat (map vb_array (ch_buffers ch'))) = net_header @ frame"
    | (refused) e where "write_frame ch frame = Some (Inl e)"
      "\<not> (list_all vb_writable (ch_buffers ch) \<and> 12 + length frame \<le> payload_room (ch_buffers ch))"
proof (cases "list_all vb_writable (ch_buffers ch)")
  case False
  from scatter_readonly [OF this, of "net_header @ frame"] refused False show thesis
    by (auto simp: write_frame_def net_packet_eq)
next
  case True
  have len: "length (net_header @ frame) = 12 + length frame" by (simp add: net_header_def)
  from scatter_works [OF True, of "net_header @ frame"] obtain bufs' where
    s: "scatter (net_header @ frame) (ch_buffers ch) =
        Inr (bufs', drop (payload_room (ch_buffers ch)) (net_header @ frame))"
    "concat (map vb_array bufs') = overwrite (concat (map vb_array (ch_buffers ch))) 0
        (take (payload_room (ch_buffers ch)) (net_header @ frame))" by blast
  show thesis
  proof (cases "12 + length frame \<le> payload_room (ch_buffers ch)")
    case room: True
    then have all: "take (payload_room (ch_buffers ch)) (net_header @ frame) = net_header @ frame"
      "drop (payload_room (ch_buffers ch)) (net_header @ frame) = []" using len by simp_all
    have "take (12 + length frame) (concat (map vb_array bufs')) = net_header @ frame"
      unfolding s(2) all(1) using len by (simp add: overwrite_def)
    with s(1) all(2) room True len show thesis
      by (intro written [of "ch\<lparr>ch_buffers := bufs'\<rparr>"]) (simp_all add: write_frame_def net_packet_eq assertE_def)
  next
    case False
    then have "drop (payload_room (ch_buffers ch)) (net_header @ frame) \<noteq> []"
      using len by (simp del: length_append drop_append add: length_append [symmetric])
    with s(1) False show thesis
      by (intro refused) (simp_all add: write_frame_def net_packet_eq assertE_def)
  qed
qed

text \<open>Appending within the capacity leaves the capacity alone, also when it is zero.\<close>

lemma bytes_append_fits:
  assumes "bytes_ok b" and "bb_length b + length bs \<le> bytes_capacity b"
  shows "\<exists>b'. bytes_append b bs = Some b' \<and> bytes_ok b' \<and> bytes_array b' = bytes_array b @ bs \<and>
    bytes_capacity b' = bytes_capacity b \<and> bb_length b' = bb_length b + length bs"
proof -
  let ?k = "bytes_capacity b - bb_length b - length bs"
  let ?b = "b\<lparr>bb_array := overwrite (bb_array b) (bb_length b) bs, bb_length := bb_length b + length bs\<rparr>"
  have "bb_array b = bytes_array b @ replicate (length bs) 0 @ replicate ?k 0"
    using bytes_ok_split [OF assms(1)] assms(2) by (simp add: bytes_capacity_def replicate_add [symmetric])
  then have arr: "bb_array ?b = (bytes_array b @ bs) @ replicate ?k 0"
    using length_bytes_array [OF assms(1)] by (simp add: overwrite_def)
  have "bytes_ok ?b" "bytes_array ?b = bytes_array b @ bs"
    by (rule bytes_okI [OF arr], use length_bytes_array [OF assms(1)] in simp)+
  moreover have "bytes_append b bs = Some ?b"
    using assms(2) by (simp add: bytes_append_def bytes_bump_def ensure_capacity_def bytes_capacity_def)
  moreover have "bytes_capacity ?b = bytes_capacity b"
    using assms(2) by (simp add: bytes_capacity_def length_overwrite)
  ultimately show ?thesis by simp
qed

lemma skip_append_works:
  assumes "bytes_ok b" and "bb_length b + length (drop off (concat chunks)) \<le> bytes_capacity b"
  shows "\<exists>b'. skip_append off chunks b = Some b' \<and> bytes_array b' = bytes_array b @ drop off (concat chunks) \<and>
    bytes_capacity b' = bytes_capacity b \<and> bb_length b' = bb_length b + length (drop off (concat chunks))"
  using assms
proof (induction off chunks b rule: skip_append.induct)
  case (1 off b)
  then show ?case by simp
next
  case (2 off chunk chunks b)
  show ?case
  proof (cases "off \<ge> length chunk")
    case True
    with 2 show ?thesis by simp
  next
    case False
    have "bb_length b + length (drop off chunk) \<le> bytes_capacity b" using "2.prems"(2) False by simp
    from bytes_append_fits [OF "2.prems"(1) this] obtain b1 where
      b1: "bytes_append b (drop off chunk) = Some b1" "bytes_ok b1" "bytes_array b1 = bytes_array b @ drop off chunk"
      "bytes_capacity b1 = bytes_capacity b" "bb_length b1 = bb_length b + length (drop off chunk)" by blast
    with "2.IH"(2) [OF False b1(1,2)] "2.prems"(2) False show ?thesis by (auto simp: add.assoc)
  qed
qed

lemma transmit_frame_eq:
  assumes "\<not> list_ex vb_writable (ch_buffers ch)" and "12 \<le> length (concat (map vb_array (ch_buffers ch)))"
  shows "transmit_frame ch = Some (Inr (drop 12 (concat (map vb_array (ch_buffers ch)))))"
proof -
  let ?cs = "map vb_array (ch_buffers ch)"
  have n: "sum_list (map length ?cs) = length (concat ?cs)" by (simp add: length_concat)
  have "bytes_capacity (new_bytes k) = k" "bb_length (new_bytes k) = 0" for k
    by (simp_all add: bytes_capacity_def new_bytes_def)
  with skip_append_works [of "new_bytes (length (concat ?cs) - 12)" 12 ?cs] obtain b where
    "skip_append 12 ?cs (new_bytes (length (concat ?cs) - 12)) = Some b" "bytes_array b = drop 12 (concat ?cs)"
    "bb_length b = bytes_capacity b" by auto
  with assms n show ?thesis by (simp add: transmit_frame_def Let_def)
qed

section \<open>The backlog\<close>

text \<open>The frames the card has accepted, in order: those in filled chains, then the pending ones.\<close>

definition delivered_frame :: "vq_chain \<times> nat \<Rightarrow> bytes" where
  "delivered_frame x = drop 12 (take (snd x) (concat (map vb_array (ch_buffers (fst x)))))"

definition accepted :: "nic \<Rightarrow> bytes list" where
  "accepted nic = map delivered_frame (nic_delivered nic) @ map fst (nic_pending nic)"

text \<open>The promises of the frames that are waited for.\<close>

definition promises :: "nic \<Rightarrow> nat list" where
  "promises nic = nic_resolved nic @ List.map_filter snd (nic_pending nic)"

lemma nic_flush_loop_keeps:
  "\<exists>nic' r. nic_flush_loop ps nic = Some (nic', r) \<and>
     accepted nic' = map delivered_frame (nic_delivered nic) @ map fst ps \<and>
     promises nic' = nic_resolved nic @ List.map_filter snd ps \<and>
     length (nic_pending nic') \<le> length ps \<and> (\<exists>us. ps = us @ nic_pending nic') \<and>
     nic_stopped nic' = nic_stopped nic \<and> (r = Inr () \<longrightarrow> nic_pending nic' = [] \<or> rx_chains (nic_rx nic') = [])"
proof (induction ps arbitrary: nic)
  case Nil
  then show ?case by (simp add: accepted_def promises_def)
next
  case (Cons p ps)
  obtain frame w where p: "p = (frame, w)" by fastforce
  show ?case
  proof (cases "rx_chains (nic_rx nic)")
    case Nil
    then show ?thesis by (simp add: p rx_deliver_def accepted_def promises_def)
  next
    case chains: (Cons ch chs)
    let ?rx = "(nic_rx nic)\<lparr>rx_chains := chs\<rparr>"
    have d: "rx_deliver (nic_rx nic) = (?rx, Some ch)" using chains by (simp add: rx_deliver_def)
    show ?thesis
    proof (cases rule: write_frame_cases [of ch frame])
      case (refused e)
      with d p show ?thesis by (simp add: accepted_def promises_def)
    next
      case (written ch')
      let ?nic = "nic\<lparr>nic_rx := ?rx, nic_delivered := nic_delivered nic @ [(ch', 12 + length frame)],
          nic_resolved := nic_resolved nic @ (case w of None \<Rightarrow> [] | Some q \<Rightarrow> [q])\<rparr>"
      have "delivered_frame (ch', 12 + length frame) = frame"
        using written(4) by (simp add: delivered_frame_def net_header_def)
      moreover have "nic_flush_loop (p # ps) nic = nic_flush_loop ps ?nic" using d p written(1) by simp
      moreover have "List.map_filter snd (p # ps) = (case w of None \<Rightarrow> [] | Some q \<Rightarrow> [q]) @ List.map_filter snd ps"
        by (simp add: p List.map_filter_simps split: option.split)
      ultimately show ?thesis
        using Cons.IH [of ?nic] p by (auto simp: le_Suc_eq)
    qed
  qed
qed

definition nic_ok :: "nic \<Rightarrow> bool" where
  "nic_ok nic \<longleftrightarrow> length (nic_pending nic) \<le> MAX_PENDING_FRAMES"

lemma nic_flush_keeps:
  "\<exists>nic' r. nic_flush nic = Some (nic', r) \<and> accepted nic' = accepted nic \<and> promises nic' = promises nic \<and>
     (\<exists>us. nic_pending nic = us @ nic_pending nic') \<and> nic_stopped nic' = nic_stopped nic \<and>
     (r = Inr () \<longrightarrow> nic_pending nic' = [] \<or> rx_chains (nic_rx nic') = [])"
  using nic_flush_loop_keeps [of "nic_pending nic" nic]
  by (fastforce simp: nic_flush_def accepted_def [of nic] promises_def [of nic])

section \<open>Properties\<close>

text \<open>A switch with three ports, and one that has learned an address, for the witnesses.\<close>

definition demo_switch :: ethernet where
  "demo_switch = \<lparr>en_ports = [0, 1, 2], en_port_closed = [False, False, False], en_learned = [], en_closed = False\<rparr>"

definition demo_frame :: bytes where
  "demo_frame = [2, 0, 0, 0, 0, 2] @ [2, 0, 0, 0, 0, 1] @ [8, 0, 42]"

lemma demo_switch_reachable: "en_reachable demo_switch"
proof -
  have step: "en_reachable en \<Longrightarrow> \<not> en_closed en \<Longrightarrow> en_reachable
      (en\<lparr>en_ports := en_ports en @ [length (en_port_closed en)], en_port_closed := en_port_closed en @ [False]\<rparr>)" for en
    by (rule en_reachable.added [of en _ "length (en_port_closed en)"]) (simp_all add: addPort_def assertE_def Let_def)
  from step [OF step [OF step [OF en_reachable.fresh]]] show ?thesis
    by (simp add: ethernetNetwork_def demo_switch_def numeral_2_eq_2)
qed

text \<open>
  C9: the switch delivers correctly from every reachable state.  A frame never returns to its sender or
  goes to a closed port; an unknown or multicast destination reaches every other open port exactly once;
  a known unicast destination reaches exactly the port that owns the address, or nobody if that is the
  sender's own port.
\<close>

theorem switch_delivers:
  assumes "en_reachable en" and "port \<in> set (en_ports en)" and "14 \<le> length frame"
  shows "\<exists>en' rs wait. port_send port frame en = Inr (en', rs, wait) \<and> distinct rs \<and> port \<notin> set rs \<and>
    set rs \<subseteq> set (en_ports en) \<and>
    (case map_of (en_learned en') (mac_key (destination_mac frame)) of
       Some q \<Rightarrow> if is_multicast (destination_mac frame) then set rs = set (en_ports en) - {port}
                 else rs = (if q = port then [] else [q])
     | None \<Rightarrow> set rs = set (en_ports en) - {port})"
proof -
  have inv: "en_inv en" using assms(1) by (rule en_reachable_inv)
  then have "\<not> en_closed en" and flag: "\<not> en_port_closed en ! port" and len: "port < length (en_port_closed en)"
    using assms(2) by (auto simp: en_inv_def)
  then have sent: "port_send port frame en =
    (let learned = AList.update (source_key frame) port (en_learned en);
         destination = map_of learned (mac_key (destination_mac frame));
         rs = recipients port (destination_mac frame) destination en
     in Inr (en\<lparr>en_learned := learned\<rparr>, rs, destination \<noteq> None \<and> length rs = 1))"
    using assms(3) by (simp add: port_send_open)
  have others: "set (filter (\<lambda>c. c \<noteq> port \<and> \<not> en_port_closed en ! c) (en_ports en)) = set (en_ports en) - {port}"
    using inv by (auto simp: en_inv_def)
  have owner: "q \<in> set (en_ports en) \<and> \<not> en_port_closed en ! q"
    if "map_of (AList.update (source_key frame) port (en_learned en)) k = Some q" for k q
  proof -
    have "(k, q) \<in> insert (source_key frame, port) (set (en_learned en))"
      using map_of_SomeD [OF that] learned_update [of "source_key frame" port "en_learned en"] by blast
    with inv flag len show ?thesis by (force simp: en_inv_def)
  qed
  have "distinct (filter P (en_ports en))" for P using inv by (simp add: en_inv_def)
  then show ?thesis
    unfolding sent Let_def using others owner
    by (auto simp: recipients_def Let_def split: option.splits)
qed

theorem switch_delivers_witness:
  "\<exists>en' rs wait. port_send 0 demo_frame demo_switch = Inr (en', rs, wait) \<and> distinct rs \<and> set rs \<subseteq> {0, 1, 2}"
  using switch_delivers [OF demo_switch_reachable, of 0 demo_frame] by (auto simp: demo_switch_def demo_frame_def)

text \<open>
  the switch learns.  After a station has sent a frame from a port, a unicast frame to that station's
  address from any other open port goes to that port alone, and what was known about every other address
  is unchanged.
\<close>

theorem switch_learns:
  assumes "en_reachable en" and "port \<in> set (en_ports en)" and "14 \<le> length frame"
    and "port_send port frame en = Inr (en', rs, wait)"
    and "port' \<in> set (en_ports en)" and "port' \<noteq> port" and "14 \<le> length reply"
    and "subarray reply 0 6 = subarray frame 6 12" and "subarray reply 6 12 \<noteq> subarray frame 6 12"
    and "\<not> is_multicast (destination_mac reply)"
  shows "(\<exists>en'' w. port_send port' reply en' = Inr (en'', [port], w)) \<and>
    (\<forall>mac. length mac = 6 \<and> list_all (\<lambda>b. b < 256) mac \<and> mac \<noteq> destination_mac reply \<longrightarrow>
       map_of (en_learned en') (mac_key mac) = map_of (en_learned en) (mac_key mac))"
proof -
  have inv: "en_inv en" using assms(1) by (rule en_reachable_inv)
  have opn: "\<not> en_closed en" "\<not> en_port_closed en ! port" "\<not> en_port_closed en ! port'"
    using inv assms(2,5) by (auto simp: en_inv_def)
  then have en': "en' = en\<lparr>en_learned := AList.update (source_key frame) port (en_learned en)\<rparr>"
    using assms(3,4) by (simp add: port_send_open Let_def)
  have len6: "length (subarray bs a (a + 6)) = 6" if "14 \<le> length bs" "a \<le> 6" for bs :: bytes and a
    using that by (simp add: subarray_def)
  have key: "source_key frame = mac_key (destination_mac reply)"
    using assms(8) by (simp add: source_key_def destination_mac_def)
  have bytes: "list_all (\<lambda>b. b < 256) (map unat (bs :: bytes))" for bs
    by (simp add: list_all_iff unat_byte_less)
  have lens: "length (destination_mac reply) = 6" "length (map unat (subarray reply 6 12)) = 6"
    using len6 [of reply 0] len6 [of reply 6] assms(7) by (simp_all add: destination_mac_def)
  have "source_key reply \<noteq> mac_key (destination_mac reply)"
  proof
    assume "source_key reply = mac_key (destination_mac reply)"
    then have "map unat (subarray reply 6 12) = destination_mac reply"
      unfolding source_key_def using lens bytes by (intro mac_key_inject) (simp_all add: destination_mac_def)
    then have "subarray reply 6 12 = subarray reply 0 6"
      by (simp add: destination_mac_def)
    with assms(8,9) show False by simp
  qed
  then have found: "map_of (AList.update (source_key reply) port' (en_learned en')) (mac_key (destination_mac reply)) =
      Some port"
    by (simp add: en' key update_conv)
  have "map_of (en_learned en') (mac_key mac) = map_of (en_learned en) (mac_key mac)"
    if "length mac = 6" "list_all (\<lambda>b. b < 256) mac" "mac \<noteq> destination_mac reply" for mac
  proof -
    have "mac_key mac \<noteq> source_key frame"
      using mac_key_inject [of mac "destination_mac reply"] that lens(1) bytes key
      by (auto simp: destination_mac_def)
    then show ?thesis by (simp add: en' update_conv)
  qed
  moreover have "port_send port' reply en' = Inr (en'\<lparr>en_learned := AList.update (source_key reply) port' (en_learned en')\<rparr>,
      [port], True)"
    using opn assms(6,7,10) found by (simp add: port_send_open Let_def recipients_def en')
  ultimately show ?thesis by blast
qed

definition demo_reply :: bytes where
  "demo_reply = [2, 0, 0, 0, 0, 1] @ [2, 0, 0, 0, 0, 2] @ [8, 0, 43]"

theorem switch_learns_witness:
  "\<exists>en' rs w en'' w'. port_send 0 demo_frame demo_switch = Inr (en', rs, w) \<and>
     port_send 1 demo_reply en' = Inr (en'', [0], w')"
proof -
  have "\<not> is_multicast (destination_mac demo_reply)" by code_simp
  moreover obtain en' rs w where sent: "port_send 0 demo_frame demo_switch = Inr (en', rs, w)"
    using port_send_open [of demo_switch 0 demo_frame] by (auto simp: demo_switch_def demo_frame_def Let_def)
  ultimately have "\<exists>en'' w. port_send 1 demo_reply en' = Inr (en'', [0], w)"
    using switch_learns [OF demo_switch_reachable _ _ sent, of 1 demo_reply]
    by (simp add: demo_switch_def demo_frame_def demo_reply_def subarray_def)
  with sent show ?thesis by blast
qed



text \<open>
  A frame survives the passage through two cards.  Writing a frame into a receive chain that is
  writable and large enough succeeds, however the guest split it into descriptors, and any transmit chain
  that carries the bytes written yields the same frame again.
\<close>

theorem frame_survives_cards:
  assumes "list_all vb_writable (ch_buffers ch)" and "12 + length frame \<le> payload_room (ch_buffers ch)"
  shows "\<exists>ch' n. write_frame ch frame = Some (Inr (ch', n)) \<and>
    (\<forall>tx. \<not> list_ex vb_writable (ch_buffers tx) \<and>
       concat (map vb_array (ch_buffers tx)) = take n (concat (map vb_array (ch_buffers ch'))) \<longrightarrow>
       transmit_frame tx = Some (Inr frame))"
proof (cases rule: write_frame_cases [of ch frame])
  case (refused e)
  with assms show ?thesis by blast
next
  case (written ch')
  have "transmit_frame tx = Some (Inr frame)"
    if "\<not> list_ex vb_writable (ch_buffers tx)" "concat (map vb_array (ch_buffers tx)) = net_header @ frame" for tx
    using transmit_frame_eq [OF that(1)] that(2) by (simp add: net_header_def)
  with written show ?thesis by auto
qed

theorem frame_survives_cards_witness:
  "\<exists>ch' n. write_frame (demo_chain\<lparr>ch_buffers := [\<lparr>vb_array = replicate 20 0, vb_writable = True, vb_address = None,
       vb_target = 0\<rparr>, \<lparr>vb_array = replicate 20 0, vb_writable = True, vb_address = None, vb_target = 64\<rparr>]\<rparr>) demo_frame =
     Some (Inr (ch', n))"
  using frame_survives_cards [of "demo_chain\<lparr>ch_buffers := [\<lparr>vb_array = replicate 20 0, vb_writable = True,
       vb_address = None, vb_target = 0\<rparr>, \<lparr>vb_array = replicate 20 0, vb_writable = True, vb_address = None,
       vb_target = 64\<rparr>]\<rparr>" demo_frame]
  by (auto simp: payload_room_def demo_frame_def)

end
