(* ===== verification/Ip_Packet.thy ===== *)
theory Ip_Packet
  imports Struct_Encoding Ethernet
begin

text \<open>
  Addresses, checksums and the packet formats of the user-mode network stack
  (\<open>packages/linux-guest/src/network.ts\<close>): IPv4, TCP, UDP, ARP and DNS, as they are built and parsed.

  A function of the sources that grows a \<open>Bytes\<close> buffer may fail to return, so it has the type
  \<open>'a result option\<close>; the lemmas show that none of them does.
\<close>

section \<open>Constants and layouts\<close>

definition GATEWAY_ADDRESS :: string where "GATEWAY_ADDRESS = ''192.0.2.1''"
definition GATEWAY_MAC :: bytes where "GATEWAY_MAC = [2, 0, 0, 0, 0, 1]"
definition TCP_MSS :: nat where "TCP_MSS = 1200"
definition TCP_RECEIVE_WINDOW :: nat where "TCP_RECEIVE_WINDOW = 65535"
definition UDP_READABLE_QUEUE_CAP :: nat where "UDP_READABLE_QUEUE_CAP = 64"
definition ETHERNET_MTU :: nat where "ETHERNET_MTU = 1500"
definition MAX_IP_REASSEMBLIES :: nat where "MAX_IP_REASSEMBLIES = 64"
definition MAX_IP_FRAGMENTS :: nat where "MAX_IP_FRAGMENTS = 64"

definition ET_IPv4 :: nat where "ET_IPv4 = 2048"
definition ET_ARP :: nat where "ET_ARP = 2054"
definition IP_ICMP :: nat where "IP_ICMP = 1"
definition IP_TCP :: nat where "IP_TCP = 6"
definition IP_UDP :: nat where "IP_UDP = 17"
definition TCP_FIN :: nat where "TCP_FIN = 1"
definition TCP_SYN :: nat where "TCP_SYN = 2"
definition TCP_RST :: nat where "TCP_RST = 4"
definition TCP_PSH :: nat where "TCP_PSH = 8"
definition TCP_ACK :: nat where "TCP_ACK = 16"

abbreviation Mac :: ty where "Mac \<equiv> FixedArray (Scalar U8) 6"

definition ArpPacket :: layout where
  "ArpPacket = [(''hardware_type'', Scalar U16BE), (''protocol_type'', Scalar U16BE), (''hardware_length'', Scalar U8),
     (''protocol_length'', Scalar U8), (''operation'', Scalar U16BE), (''sender_mac'', Mac), (''sender_ip'', Scalar U32BE),
     (''target_mac'', Mac), (''target_ip'', Scalar U32BE)]"

definition Ipv4Header :: layout where
  "Ipv4Header = [(''version_and_header_length'', Scalar U8), (''type_of_service'', Scalar U8), (''total_length'', Scalar U16BE),
     (''identification'', Scalar U16BE), (''flags_and_fragment_offset'', Scalar U16BE), (''time_to_live'', Scalar U8),
     (''protocol'', Scalar U8), (''header_checksum'', Scalar U16BE), (''source'', Scalar U32BE), (''destination'', Scalar U32BE)]"

definition MAX_IP_PAYLOAD :: nat where "MAX_IP_PAYLOAD = 65535 - layout_size Ipv4Header"
definition IP_FRAGMENT_PAYLOAD :: nat where
  "IP_FRAGMENT_PAYLOAD = (ETHERNET_MTU - layout_size Ipv4Header) div 8 * 8"

definition TcpHeader :: layout where
  "TcpHeader = [(''source_port'', Scalar U16BE), (''destination_port'', Scalar U16BE), (''sequence'', Scalar U32BE),
     (''acknowledgement'', Scalar U32BE), (''data_offset'', Scalar U8), (''flags'', Scalar U8), (''window'', Scalar U16BE),
     (''header_checksum'', Scalar U16BE), (''urgent_pointer'', Scalar U16BE)]"

definition TcpPseudoHeader :: layout where
  "TcpPseudoHeader = [(''source'', Scalar U32BE), (''destination'', Scalar U32BE), (''zero'', Scalar U8),
     (''protocol'', Scalar U8), (''length'', Scalar U16BE)]"

definition UdpHeader :: layout where
  "UdpHeader = [(''source_port'', Scalar U16BE), (''destination_port'', Scalar U16BE), (''length'', Scalar U16BE),
     (''header_checksum'', Scalar U16BE)]"

definition DnsHeader :: layout where
  "DnsHeader = [(''id'', Scalar U16BE), (''flags'', Scalar U16BE), (''question_count'', Scalar U16BE),
     (''answer_count'', Scalar U16BE), (''authority_count'', Scalar U16BE), (''additional_count'', Scalar U16BE)]"

definition DnsQuestionFooter :: layout where
  "DnsQuestionFooter = [(''type'', Scalar U16BE), (''klass'', Scalar U16BE)]"

definition DnsIpv4Answer :: layout where
  "DnsIpv4Answer = [(''name'', Scalar U16BE), (''type'', Scalar U16BE), (''klass'', Scalar U16BE), (''ttl'', Scalar U32BE),
     (''length'', Scalar U16BE), (''address'', Scalar U32BE)]"

section \<open>Addresses\<close>

fun split_on :: "char \<Rightarrow> string \<Rightarrow> string list" where
  "split_on c [] = [[]]"
| "split_on c (x # xs) =
     (if x = c then [] # split_on c xs
      else case split_on c xs of p # ps \<Rightarrow> (x # p) # ps | [] \<Rightarrow> [[x]])"

text \<open>
  The test of one part: \<open>Number(part)\<close> is an integer from 0 to 255 whose \<open>String\<close> is the part again.
  Since \<open>Number(String(b))\<close> is \<open>b\<close>, these are exactly the decimal notations of the numbers up to 255.
\<close>

definition octet :: "string \<Rightarrow> nat option" where
  "octet part = find (\<lambda>b. decimal b = part) [0..<256]"

fun octets_number :: "string list \<Rightarrow> nat \<Rightarrow> nat result" where
  "octets_number [] r = Inr r"
| "octets_number (part # parts) r = (case octet part of
       None \<Rightarrow> Inl (TypeError ''invalid IPv4 address'')
     | Some b \<Rightarrow> octets_number parts (take_bit 32 (push_bit 8 r) OR b))"

definition ipv4_number :: "string \<Rightarrow> nat result" where
  "ipv4_number address =
     (let parts = split_on (CHR ''.'') address
      in if length parts \<noteq> 4 then Inl (TypeError ''invalid IPv4 address'') else octets_number parts 0)"

definition ipv4_string :: "nat \<Rightarrow> string" where
  "ipv4_string a = join ''.'' (map decimal
     [drop_bit 24 a, drop_bit 16 a AND 255, drop_bit 8 a AND 255, a AND 255])"

definition GATEWAY_IP :: nat where
  "GATEWAY_IP = (case ipv4_number GATEWAY_ADDRESS of Inr n \<Rightarrow> n | Inl _ \<Rightarrow> 0)"

definition valid_port :: "int \<Rightarrow> bool" where
  "valid_port port \<longleftrightarrow> 0 < port \<and> port \<le> 65535"

definition sequence_add :: "32 word \<Rightarrow> nat \<Rightarrow> 32 word" where
  "sequence_add s n = s + of_nat n"

section \<open>Checksums\<close>

text \<open>
  The sum over the 16-bit words of the concatenated parts, with the high byte of a word that
  crosses two parts carried along; then the carries are folded in until the sum fits.
\<close>

fun sum_bytes :: "bytes \<Rightarrow> nat \<times> nat option \<Rightarrow> nat \<times> nat option" where
  "sum_bytes [] st = st"
| "sum_bytes (b # bs) (s, None) = sum_bytes bs (s, Some (unat b))"
| "sum_bytes (b # bs) (s, Some high) = sum_bytes bs (s + (push_bit 8 high OR unat b), None)"

function fold_sum :: "nat \<Rightarrow> nat" where
  "fold_sum s =
     (if drop_bit 16 (take_bit 32 s) \<noteq> 0 then fold_sum (take_bit 16 s + drop_bit 16 (take_bit 32 s)) else s)"
  by auto
termination
proof (relation "measure id")
  fix s :: nat
  assume "drop_bit 16 (take_bit 32 s) \<noteq> 0"
  then have "0 < (s mod 2 ^ 32) div 65536" by (simp add: drop_bit_eq_div take_bit_eq_mod)
  moreover have "s mod 65536 = (s mod 2 ^ 32) mod 65536" by (simp add: mod_mod_cancel)
  moreover have "s mod 2 ^ 32 = 65536 * ((s mod 2 ^ 32) div 65536) + (s mod 2 ^ 32) mod 65536" by simp
  moreover have "s mod 2 ^ 32 \<le> s" by simp
  ultimately have "s mod 65536 + (s mod 2 ^ 32) div 65536 < s" by linarith
  then show "(take_bit 16 s + drop_bit 16 (take_bit 32 s), s) \<in> measure id"
    by (simp add: drop_bit_eq_div take_bit_eq_mod)
qed simp

declare fold_sum.simps [simp del]

definition checksum :: "bytes list \<Rightarrow> nat" where
  "checksum parts =
     (let (s, high) = foldl (\<lambda>st part. sum_bytes part st) (0, None) parts;
          total_length = (case high of None \<Rightarrow> s | Some h \<Rightarrow> s + push_bit 8 h)
      in 65535 - take_bit 16 (fold_sum total_length))"

section \<open>Parsing\<close>

record ip_fragment =
  if_source :: nat
  if_destination :: nat
  if_protocol :: nat
  if_payload :: bytes
  if_identification :: nat
  if_header_length :: nat
  if_offset :: nat
  if_more :: bool

record ip_datagram =
  id_source :: nat
  id_destination :: nat
  id_protocol :: nat
  id_payload :: bytes

record tcp_segment =
  ts_source_port :: nat
  ts_destination_port :: nat
  ts_sequence :: "32 word"
  ts_acknowledgement :: "32 word"
  ts_flags :: nat
  ts_window :: nat
  ts_payload :: bytes

record udp_datagram =
  ud_source_port :: nat
  ud_destination_port :: nat
  ud_payload :: bytes

definition parse_ip :: "bytes \<Rightarrow> ip_fragment option result" where
  "parse_ip frame =
     (if length frame < layout_size EthernetHeader + layout_size Ipv4Header then Inr None
      else
        bindE (get_num EthernetHeader (whole_view frame) ''type'') (\<lambda>type.
        if type \<noteq> ET_IPv4 then Inr None
        else
          let bs = drop (layout_size EthernetHeader) frame; field = get_num Ipv4Header (whole_view bs)
          in bindE (field ''version_and_header_length'') (\<lambda>vhl.
             let header_length = (vhl AND 15) * 4
             in if drop_bit 4 vhl \<noteq> 4 \<or> header_length < layout_size Ipv4Header \<or> header_length > length bs then Inr None
             else bindE (field ''total_length'') (\<lambda>total_length.
             if total_length < header_length \<or> total_length > length bs then Inr None
             else bindE (field ''flags_and_fragment_offset'') (\<lambda>ffo.
             let payload = subarray bs header_length total_length;
                 offset = (ffo AND 8191) * 8;
                 more = (ffo AND 8192 \<noteq> 0)
             in if (offset \<noteq> 0 \<or> more) \<and> length payload = 0 then Inr None
             else if more \<and> length payload mod 8 \<noteq> 0 then Inr None
             else if offset + length payload > MAX_IP_PAYLOAD then Inr None
             else
               bindE (field ''source'') (\<lambda>source.
               bindE (field ''destination'') (\<lambda>destination.
               bindE (field ''protocol'') (\<lambda>protocol.
               bindE (field ''identification'') (\<lambda>identification.
               Inr (Some \<lparr>if_source = source, if_destination = destination, if_protocol = protocol, if_payload = payload,
                 if_identification = identification, if_header_length = header_length, if_offset = offset,
                 if_more = more\<rparr>))))))))))"

definition parse_tcp :: "bytes \<Rightarrow> tcp_segment option result" where
  "parse_tcp payload =
     (if length payload < layout_size TcpHeader then Inr None
      else
        let field = get_num TcpHeader (whole_view payload)
        in bindE (field ''data_offset'') (\<lambda>data_offset.
           let header_length = drop_bit 4 data_offset * 4
           in if header_length < layout_size TcpHeader \<or> header_length > length payload then Inr None
           else
             bindE (field ''source_port'') (\<lambda>source_port.
             bindE (field ''destination_port'') (\<lambda>destination_port.
             bindE (field ''sequence'') (\<lambda>sequence.
             bindE (field ''acknowledgement'') (\<lambda>acknowledgement.
             bindE (field ''flags'') (\<lambda>flags.
             bindE (field ''window'') (\<lambda>window.
             Inr (Some \<lparr>ts_source_port = source_port, ts_destination_port = destination_port,
               ts_sequence = of_nat sequence, ts_acknowledgement = of_nat acknowledgement, ts_flags = flags,
               ts_window = window, ts_payload = drop header_length payload\<rparr>)))))))))"

definition parse_udp :: "bytes \<Rightarrow> udp_datagram option result" where
  "parse_udp payload =
     (if length payload < layout_size UdpHeader then Inr None
      else
        let field = get_num UdpHeader (whole_view payload)
        in bindE (field ''length'') (\<lambda>len.
           if len < layout_size UdpHeader \<or> len > length payload then Inr None
           else
             bindE (field ''source_port'') (\<lambda>source_port.
             bindE (field ''destination_port'') (\<lambda>destination_port.
             Inr (Some \<lparr>ud_source_port = source_port, ud_destination_port = destination_port,
               ud_payload = subarray payload (layout_size UdpHeader) len\<rparr>)))))"

section \<open>Building\<close>

definition mac_value :: "bytes \<Rightarrow> val" where
  "mac_value mac = Arr (map (\<lambda>b. Num (uint b)) mac)"

definition ethernet_fields :: "bytes \<Rightarrow> bytes \<Rightarrow> nat \<Rightarrow> val" where
  "ethernet_fields destination source type =
     Obj [(''destination'', mac_value destination), (''source'', mac_value source), (''type'', Num (int type))]"

definition ip_fields :: "nat \<Rightarrow> nat \<Rightarrow> nat \<Rightarrow> nat \<Rightarrow> nat \<Rightarrow> nat \<Rightarrow> nat \<Rightarrow> (string \<times> val) list" where
  "ip_fields total_length identification flags_and_fragment_offset protocol header_checksum source destination =
     [(''version_and_header_length'', Num 69), (''type_of_service'', Num 0), (''total_length'', Num (int total_length)),
      (''identification'', Num (int identification)), (''flags_and_fragment_offset'', Num (int flags_and_fragment_offset)),
      (''time_to_live'', Num 64), (''protocol'', Num (int protocol)), (''header_checksum'', Num (int header_checksum)),
      (''source'', Num (int source)), (''destination'', Num (int destination))]"

definition ip_packet :: "bytes \<Rightarrow> nat \<Rightarrow> nat \<Rightarrow> nat \<Rightarrow> bytes \<Rightarrow> nat \<Rightarrow> nat \<Rightarrow> bytes result option" where
  "ip_packet dst_mac source_ip destination_ip protocol payload identification flags_and_fragment_offset =
     bindR (bytes_put (new_bytes (layout_size EthernetHeader + layout_size Ipv4Header + length payload))
              (Struct EthernetHeader) (ethernet_fields dst_mac GATEWAY_MAC ET_IPv4)) (\<lambda>b1.
     bindR (bytes_put b1 (Struct Ipv4Header)
              (Obj (ip_fields (layout_size Ipv4Header + length payload) identification flags_and_fragment_offset
                 protocol 0 source_ip destination_ip))) (\<lambda>b2.
     bindR (Some (alloc_set_field b2 Ipv4Header (layout_size EthernetHeader) ''header_checksum''
              (Num (int (checksum [subarray (bytes_array b2) (layout_size EthernetHeader)
                 (layout_size EthernetHeader + layout_size Ipv4Header)]))))) (\<lambda>b3.
     bindR (append_bytes b3 payload) (\<lambda>b4. Some (Inr (bytes_array b4))))))"

text \<open>\<open>send_ip\<close>: the frames that go out for one payload, in order, under one identification.\<close>

function fragment_offsets :: "nat \<Rightarrow> nat \<Rightarrow> (nat \<times> nat) list" where
  "fragment_offsets offset n =
     (if offset < n then (offset, min (offset + IP_FRAGMENT_PAYLOAD) n) # fragment_offsets (offset + IP_FRAGMENT_PAYLOAD) n
      else [])"
  by auto
termination
  by (relation "measure (\<lambda>(offset, n). n - offset)")
    (auto simp: IP_FRAGMENT_PAYLOAD_def ETHERNET_MTU_def Ipv4Header_def)

declare fragment_offsets.simps [simp del]

fun traverse :: "('a \<Rightarrow> 'b result option) \<Rightarrow> 'a list \<Rightarrow> 'b list result option" where
  "traverse f [] = Some (Inr [])"
| "traverse f (x # xs) = bindR (f x) (\<lambda>y. bindR (traverse f xs) (\<lambda>ys. Some (Inr (y # ys))))"

definition send_ip :: "bytes \<Rightarrow> nat \<Rightarrow> nat \<Rightarrow> nat \<Rightarrow> bytes \<Rightarrow> nat \<Rightarrow> bytes list result option" where
  "send_ip dst_mac source_ip destination_ip protocol payload ip_identifier =
     (if length payload > MAX_IP_PAYLOAD then Some (Inl (RangeError ''IPv4 payload is too large''))
      else
        let identification = ip_identifier AND 65535;
            packet = ip_packet dst_mac source_ip destination_ip protocol
        in if length payload \<le> IP_FRAGMENT_PAYLOAD then
             bindR (packet payload identification 16384) (\<lambda>frame. Some (Inr [frame]))
           else
             traverse (\<lambda>(offset, end). packet (subarray payload offset end) identification
               ((if end < length payload then 8192 else 0) OR offset div 8)) (fragment_offsets 0 (length payload)))"

definition tcp_fields ::
    "nat \<Rightarrow> nat \<Rightarrow> 32 word \<Rightarrow> 32 word \<Rightarrow> nat \<Rightarrow> nat \<Rightarrow> nat \<Rightarrow> (string \<times> val) list" where
  "tcp_fields source_port destination_port sequence acknowledgement flags window header_checksum =
     [(''source_port'', Num (int source_port)), (''destination_port'', Num (int destination_port)),
      (''sequence'', Num (uint sequence)), (''acknowledgement'', Num (uint acknowledgement)), (''data_offset'', Num 80),
      (''flags'', Num (int flags)), (''window'', Num (int window)), (''header_checksum'', Num (int header_checksum)),
      (''urgent_pointer'', Num 0)]"

definition pseudo_fields :: "nat \<Rightarrow> nat \<Rightarrow> nat \<Rightarrow> (string \<times> val) list" where
  "pseudo_fields source_ip destination_ip len =
     [(''source'', Num (int source_ip)), (''destination'', Num (int destination_ip)), (''zero'', Num 0),
      (''protocol'', Num (int IP_TCP)), (''length'', Num (int len))]"

definition tcp_segment_bytes ::
    "nat \<Rightarrow> nat \<Rightarrow> nat \<Rightarrow> nat \<Rightarrow> 32 word \<Rightarrow> 32 word \<Rightarrow> nat \<Rightarrow> bytes \<Rightarrow> nat \<Rightarrow> bytes result option" where
  "tcp_segment_bytes source_ip destination_ip source_port destination_port sequence acknowledgement flags payload window =
     bindR (bytes_put (new_bytes (layout_size TcpPseudoHeader)) (Struct TcpPseudoHeader)
              (Obj (pseudo_fields source_ip destination_ip (layout_size TcpHeader + length payload)))) (\<lambda>pseudo.
     bindR (bytes_put (new_bytes (layout_size TcpHeader + length payload)) (Struct TcpHeader)
              (Obj (tcp_fields source_port destination_port sequence acknowledgement flags window 0))) (\<lambda>b1.
     bindR (append_bytes b1 payload) (\<lambda>b2.
     bindR (Some (alloc_set_field b2 TcpHeader 0 ''header_checksum''
              (Num (int (checksum [bytes_array pseudo, bytes_array b2]))))) (\<lambda>b3.
     Some (Inr (bytes_array b3))))))"

definition udp_fields :: "nat \<Rightarrow> nat \<Rightarrow> nat \<Rightarrow> (string \<times> val) list" where
  "udp_fields source_port destination_port len =
     [(''source_port'', Num (int source_port)), (''destination_port'', Num (int destination_port)),
      (''length'', Num (int len)), (''header_checksum'', Num 0)]"

definition udp_datagram_bytes :: "nat \<Rightarrow> nat \<Rightarrow> bytes \<Rightarrow> bytes result option" where
  "udp_datagram_bytes source_port destination_port payload =
     bindR (bytes_put (new_bytes (layout_size UdpHeader + length payload)) (Struct UdpHeader)
              (Obj (udp_fields source_port destination_port (layout_size UdpHeader + length payload)))) (\<lambda>b1.
     bindR (append_bytes b1 payload) (\<lambda>b2. Some (Inr (bytes_array b2))))"

section \<open>DNS\<close>

text \<open>
  \<open>new TextDecoder().decode(bytes)\<close>: every maximal ill-formed part of the input becomes U+FFFD.  The
  decoder remembers how many continuation bytes it needs, the bounds of the next one and the bytes
  of the sequence so far; an unexpected byte ends the sequence and is read again.
\<close>

definition replacement :: ustring where "replacement = [239, 191, 189]"

function utf8_lossy_run :: "nat \<Rightarrow> byte \<Rightarrow> byte \<Rightarrow> bytes \<Rightarrow> bytes \<Rightarrow> ustring" where
  "utf8_lossy_run needed lower upper seen [] = (if needed = 0 then [] else replacement)"
| "utf8_lossy_run needed lower upper seen (b # bs) =
     (if needed = 0 then
        (if b < 128 then b # utf8_lossy_run 0 128 191 [] bs
         else if 194 \<le> b \<and> b \<le> 223 then utf8_lossy_run 1 128 191 [b] bs
         else if 224 \<le> b \<and> b \<le> 239 then
           utf8_lossy_run 2 (if b = 224 then 160 else 128) (if b = 237 then 159 else 191) [b] bs
         else if 240 \<le> b \<and> b \<le> 244 then
           utf8_lossy_run 3 (if b = 240 then 144 else 128) (if b = 244 then 143 else 191) [b] bs
         else replacement @ utf8_lossy_run 0 128 191 [] bs)
      else if \<not> (lower \<le> b \<and> b \<le> upper) then replacement @ utf8_lossy_run 0 128 191 [] (b # bs)
      else if needed = 1 then (seen @ [b]) @ utf8_lossy_run 0 128 191 [] bs
      else utf8_lossy_run (needed - 1) 128 191 (seen @ [b]) bs)"
  by pat_completeness auto
termination
  by (relation "measure (\<lambda>(needed, lower, upper, seen, bs). 2 * length bs + (if needed = 0 then 0 else 1))") auto

declare utf8_lossy_run.simps(2) [simp del]

definition text_decode :: "bytes \<Rightarrow> ustring" where
  "text_decode bs = utf8_lossy_run 0 128 191 [] (strip_bom bs)"

fun join_bytes :: "bytes \<Rightarrow> bytes list \<Rightarrow> bytes" where
  "join_bytes sep [] = []"
| "join_bytes sep [x] = x"
| "join_bytes sep (x # y # xs) = x @ sep @ join_bytes sep (y # xs)"

function dns_labels :: "bytes \<Rightarrow> nat \<Rightarrow> ustring list \<Rightarrow> (ustring list \<times> nat) result" where
  "dns_labels packet offset labels =
     (if length packet \<le> offset then Inl (Error ''truncated DNS name'')
      else
        let len = unat (packet ! offset); start = offset + 1
        in if len = 0 then Inr (labels, start)
           else if len AND 192 \<noteq> 0 \<or> start + len > length packet then Inl (Error ''unsupported DNS name'')
           else dns_labels packet (start + len) (labels @ [text_decode (subarray packet start (start + len))]))"
  by auto
termination
  by (relation "measure (\<lambda>(packet, offset, labels). length packet - offset)") auto

declare dns_labels.simps [simp del]

definition decode_dns_name :: "bytes \<Rightarrow> nat \<Rightarrow> (ustring \<times> nat) result" where
  "decode_dns_name packet offset =
     bindE (dns_labels packet offset []) (\<lambda>(labels, end). Inr (join_bytes [46] labels, end))"

fun dns_answers :: "string list \<Rightarrow> bytebuf \<Rightarrow> bytebuf result option" where
  "dns_answers [] b = Some (Inr b)"
| "dns_answers (address # addresses) b =
     (case bytes_alloc b (Struct DnsIpv4Answer) of
        None \<Rightarrow> None
      | Some (off, b1) \<Rightarrow>
          bindR (Some (ipv4_number address)) (\<lambda>n.
          bindR (Some (alloc_set b1 (Struct DnsIpv4Answer) off
                   (Obj [(''name'', Num 49164), (''type'', Num 1), (''klass'', Num 1), (''ttl'', Num 60),
                         (''length'', Num 4), (''address'', Num (int n))]))) (\<lambda>b2.
          dns_answers addresses b2)))"

definition dns_response :: "bytes \<Rightarrow> string list \<Rightarrow> bytes result option" where
  "dns_response query addresses =
     (if length query < layout_size DnsHeader then Some (Inl (Error ''short DNS query''))
      else
        bindR (Some (get_num DnsHeader (whole_view query) ''question_count'')) (\<lambda>questions.
        if questions \<noteq> 1 then Some (Inl (Error ''DNS query must have one question''))
        else
          bindR (Some (decode_dns_name query (layout_size DnsHeader))) (\<lambda>(_, end).
          if end + layout_size DnsQuestionFooter > length query then Some (Inl (Error ''truncated DNS question''))
          else
            let question_end = end + layout_size DnsQuestionFooter; question = whole_view (drop end query)
            in bindR (Some (get_num DnsQuestionFooter question ''type'')) (\<lambda>type.
               bindR (Some (get_num DnsQuestionFooter question ''klass'')) (\<lambda>klass.
               let answers = (if type = 1 \<and> klass = 1 then addresses else [])
               in case bytes_alloc (new_bytes (question_end + length answers * layout_size DnsIpv4Answer)) (Struct DnsHeader) of
                    None \<Rightarrow> None
                  | Some (off, b1) \<Rightarrow>
                      bindR (append_bytes b1 (subarray query (layout_size DnsHeader) question_end)) (\<lambda>b2.
                      bindR (Some (get_num DnsHeader (whole_view query) ''id'')) (\<lambda>id.
                      bindR (Some (alloc_set b2 (Struct DnsHeader) off
                               (Obj [(''id'', Num (int id)), (''flags'', Num 33152), (''question_count'', Num 1),
                                     (''answer_count'', Num (int (length answers))), (''authority_count'', Num 0),
                                     (''additional_count'', Num 0)]))) (\<lambda>b3.
                      bindR (dns_answers answers b3) (\<lambda>b4. Some (Inr (bytes_array b4)))))))))))"

section \<open>ARP\<close>

definition arp_fields :: "nat \<Rightarrow> val \<Rightarrow> nat \<Rightarrow> val \<Rightarrow> nat \<Rightarrow> val" where
  "arp_fields operation sender_mac sender_ip target_mac target_ip =
     Obj [(''hardware_type'', Num 1), (''protocol_type'', Num (int ET_IPv4)), (''hardware_length'', Num (int (ty_size Mac))),
          (''protocol_length'', Num 4), (''operation'', Num (int operation)), (''sender_mac'', sender_mac),
          (''sender_ip'', Num (int sender_ip)), (''target_mac'', target_mac), (''target_ip'', Num (int target_ip))]"

definition receive_arp :: "bytes \<Rightarrow> bytes option result option" where
  "receive_arp frame =
     (if length frame < layout_size EthernetHeader + layout_size ArpPacket then Some (Inr None)
      else
        let request = whole_view (drop (layout_size EthernetHeader) frame); field = get_num ArpPacket request
        in bindR (Some (get_num EthernetHeader (whole_view frame) ''type'')) (\<lambda>type.
           bindR (Some (field ''hardware_type'')) (\<lambda>hardware_type.
           bindR (Some (field ''protocol_type'')) (\<lambda>protocol_type.
           bindR (Some (field ''hardware_length'')) (\<lambda>hardware_length.
           bindR (Some (field ''protocol_length'')) (\<lambda>protocol_length.
           bindR (Some (field ''operation'')) (\<lambda>operation.
           bindR (Some (field ''target_ip'')) (\<lambda>target_ip.
           if type \<noteq> ET_ARP \<or> hardware_type \<noteq> 1 \<or> protocol_type \<noteq> ET_IPv4 \<or> hardware_length \<noteq> ty_size Mac
              \<or> protocol_length \<noteq> 4 \<or> operation \<noteq> 1 \<or> target_ip \<noteq> GATEWAY_IP then Some (Inr None)
           else
             bindR (Some (get_field ArpPacket request ''sender_mac'')) (\<lambda>sender_mac.
             bindR (Some (field ''sender_ip'')) (\<lambda>sender_ip.
             bindR (bytes_put (new_bytes (layout_size EthernetHeader + layout_size ArpPacket)) (Struct EthernetHeader)
                      (Obj [(''destination'', sender_mac), (''source'', mac_value GATEWAY_MAC),
                            (''type'', Num (int ET_ARP))])) (\<lambda>b1.
             bindR (bytes_put b1 (Struct ArpPacket)
                      (arp_fields 2 (mac_value GATEWAY_MAC) GATEWAY_IP sender_mac sender_ip)) (\<lambda>b2.
             Some (Inr (Some (bytes_array b2)))))))))))))))"

section \<open>Addresses and their notation\<close>

definition undecimal :: "string \<Rightarrow> nat" where
  "undecimal s = foldl (\<lambda>n c. n * 10 + (of_char c - 48)) 0 s"

lemma undecimal_decimal: "undecimal (decimal n) = n"
proof (induction n rule: decimal.induct)
  case (1 n)
  show ?case
  proof (cases "n < 10")
    case True
    then show ?thesis by (simp add: undecimal_def decimal.simps [of n])
  next
    case False
    with 1 have "undecimal (decimal n) = n div 10 * 10 + n mod 10"
      by (subst decimal.simps) (simp add: undecimal_def)
    then show ?thesis by simp
  qed
qed

lemma decimal_inject [simp]: "decimal m = decimal n \<longleftrightarrow> m = n"
  by (metis undecimal_decimal)

lemma decimal_digits: "c \<in> set (decimal n) \<Longrightarrow> of_char c \<in> {48..57 :: nat}"
proof (induction n rule: decimal.induct)
  case (1 n)
  then show ?case by (subst (asm) (2) decimal.simps) (auto split: if_splits)
qed

lemma decimal_no_dot: "CHR ''.'' \<notin> set (decimal b)"
  using decimal_digits by fastforce

lemma octet_Some: "octet part = Some b \<longleftrightarrow> b < 256 \<and> part = decimal b"
proof
  assume "octet part = Some b"
  then show "b < 256 \<and> part = decimal b"
    by (auto simp: octet_def find_Some_iff simp del: upt.simps)
next
  assume b: "b < 256 \<and> part = decimal b"
  then show "octet part = Some b"
    unfolding octet_def by (intro find_Some_iff [THEN iffD2] exI [of _ b]) (auto simp del: upt.simps)
qed

lemma split_on_prefix: "c \<notin> set p \<Longrightarrow> split_on c (p @ c # s) = p # split_on c s"
  by (induction p) auto

lemma split_on_last: "c \<notin> set p \<Longrightarrow> split_on c p = [p]"
  by (induction p) auto

lemma split_on_join:
  "ps \<noteq> [] \<Longrightarrow> \<forall>p \<in> set ps. c \<notin> set p \<Longrightarrow> split_on c (join [c] ps) = ps"
  by (induction "[c]" ps rule: join.induct) (auto simp: split_on_prefix split_on_last)

lemma join_split_on: "join [c] (split_on c s) = s"
proof (induction s)
  case (Cons x s)
  obtain p ps where ps: "split_on c s = p # ps"
    by (cases "split_on c s") (cases s; simp split: list.splits if_splits)+
  with Cons show ?case by (cases ps) auto
qed simp

lemma octet_shift:
  assumes "r < 2 ^ 24" "b < 256"
  shows "take_bit 32 (push_bit 8 r) OR b = r * 256 + (b :: nat)"
proof -
  have "take_bit 32 (push_bit 8 r) = push_bit 8 r"
    using assms(1) by (simp add: take_bit_eq_mod push_bit_eq_mult)
  moreover have "push_bit 8 r OR b = push_bit 8 r + b"
  proof (rule disjunctive_add [symmetric])
    fix n
    have "bit b n \<Longrightarrow> n < 8"
      using assms(2) bit_take_bit_iff [of 8 b n] by (simp add: take_bit_eq_mod)
    then show "\<not> bit (push_bit 8 r) n \<or> \<not> bit b n" by (auto simp: bit_push_bit_iff)
  qed
  ultimately show ?thesis by (simp add: push_bit_eq_mult)
qed

lemma octets_number_four:
  assumes "a < 256" "b < 256" "c < 256" "d < 256"
  shows "octets_number (map decimal [a, b, c, d]) 0 = Inr (((a * 256 + b) * 256 + c) * 256 + d)"
proof -
  have oct: "octet (decimal n) = Some n" if "n < 256" for n using that octet_Some by blast
  have 1: "take_bit 32 (push_bit 8 0) OR a = a" by simp
  have 2: "take_bit 32 (push_bit 8 a) OR b = a * 256 + b" using assms by (intro octet_shift) auto
  have 3: "take_bit 32 (push_bit 8 (a * 256 + b)) OR c = (a * 256 + b) * 256 + c"
    using assms by (intro octet_shift) auto
  have 4: "take_bit 32 (push_bit 8 ((a * 256 + b) * 256 + c)) OR d = ((a * 256 + b) * 256 + c) * 256 + d"
    using assms by (intro octet_shift) auto
  show ?thesis
    unfolding list.map octets_number.simps oct [OF assms(1)] oct [OF assms(2)] oct [OF assms(3)] oct [OF assms(4)]
      option.case 1 2 3 4 ..
qed

lemma four_octets:
  assumes "a < 256" "b < 256" "c < 256" "d < 256"
  shows "ipv4_number (join ''.'' (map decimal [a, b, c, d])) = Inr (((a * 256 + b) * 256 + c) * 256 + d)"
proof -
  have "split_on (CHR ''.'') (join ''.'' (map decimal [a, b, c, d])) = map decimal [a, b, c, d]"
    by (intro split_on_join) (auto simp: decimal_no_dot)
  with octets_number_four [OF assms] show ?thesis by (simp add: ipv4_number_def)
qed

lemma octet_mask: "n AND 255 = n mod (256 :: nat)"
  using take_bit_eq_mask [of 8 n] by (simp add: mask_eq_exp_minus_1 take_bit_eq_mod)

lemma ipv4_number_string:
  assumes "a < 2 ^ 32"
  shows "ipv4_number (ipv4_string a) = Inr a"
proof -
  have "a div 16777216 < 256" using assms by simp
  then have "ipv4_number (join ''.'' (map decimal [a div 16777216, a div 65536 mod 256, a div 256 mod 256, a mod 256])) =
      Inr (((a div 16777216 * 256 + a div 65536 mod 256) * 256 + a div 256 mod 256) * 256 + a mod 256)"
    by (intro four_octets) simp_all
  moreover have "ipv4_string a = join ''.'' (map decimal [a div 16777216, a div 65536 mod 256, a div 256 mod 256, a mod 256])"
    by (simp add: ipv4_string_def octet_mask drop_bit_eq_div)
  moreover have "((a div 16777216 * 256 + a div 65536 mod 256) * 256 + a div 256 mod 256) * 256 + a mod 256 = a"
    using div_mult2_eq [of a 256 256] div_mult2_eq [of a 65536 256]
    by (metis (no_types) div_mult_mod_eq numeral_times_numeral semiring_norm(11-16) mult_numeral_1_right)
  ultimately show ?thesis by simp
qed


lemma octet_div_mod: "d < 256 \<Longrightarrow> (m * 256 + d) div 256 = (m :: nat)" "d < 256 \<Longrightarrow> (m * 256 + d) mod 256 = d"
  by simp_all

lemma ipv4_string_octets:
  assumes "a < 256" "b < 256" "c < 256" "d < 256"
  shows "ipv4_string (((a * 256 + b) * 256 + c) * 256 + d) = join ''.'' (map decimal [a, b, c, d])"
proof -
  let ?n = "((a * 256 + b) * 256 + c) * 256 + d"
  have "?n div 16777216 = ?n div 256 div 256 div 256" "?n div 65536 = ?n div 256 div 256"
    by (simp_all add: div_mult2_eq [symmetric])
  with assms octet_div_mod have "?n div 16777216 = a" "?n div 65536 mod 256 = b" "?n div 256 mod 256 = c" "?n mod 256 = d"
    by metis+
  then show ?thesis by (simp add: ipv4_string_def octet_mask drop_bit_eq_div)
qed

lemma ipv4_string_number:
  assumes "ipv4_number s = Inr n"
  shows "ipv4_string n = s \<and> n < 2 ^ 32"
proof -
  have len: "length (split_on (CHR ''.'') s) = 4" and num: "octets_number (split_on (CHR ''.'') s) 0 = Inr n"
    using assms by (auto simp: ipv4_number_def Let_def split: if_splits)
  from len obtain p q r t where parts: "split_on (CHR ''.'') s = [p, q, r, t]"
    by (auto simp: numeral_eq_Suc length_Suc_conv)
  from num obtain a b c d where oct: "octet p = Some a" "octet q = Some b" "octet r = Some c" "octet t = Some d"
    by (auto simp: parts split: option.splits)
  then have abcd: "a < 256" "b < 256" "c < 256" "d < 256" and split: "split_on (CHR ''.'') s = map decimal [a, b, c, d]"
    by (simp_all add: octet_Some parts)
  from num octets_number_four [OF abcd] have n: "n = ((a * 256 + b) * 256 + c) * 256 + d"
    unfolding split by simp
  have "s = join ''.'' (map decimal [a, b, c, d])"
    using join_split_on [of "CHR ''.''" s] split by simp
  with n ipv4_string_octets [OF abcd] abcd show ?thesis by simp
qed

section \<open>Checksums verify\<close>

fun word_sum :: "bytes \<Rightarrow> nat" where
  "word_sum [] = 0"
| "word_sum [b] = 256 * unat b"
| "word_sum (a # b # bs) = 256 * unat a + unat b + word_sum bs"

lemma byte_pair: "push_bit 8 (unat (a :: byte)) OR unat (b :: byte) = 256 * unat a + unat b"
  using octet_shift [of "unat a" "unat b"] unat_byte_less [of a] unat_byte_less [of b]
  by (simp add: take_bit_nat_eq_self push_bit_eq_mult)

lemma sum_bytes_total:
  "(case sum_bytes bs (s, None) of (s', None) \<Rightarrow> s' | (s', Some h) \<Rightarrow> s' + push_bit 8 h) = s + word_sum bs"
proof (induction bs arbitrary: s rule: word_sum.induct)
  case (3 a b bs)
  then show ?case by (simp add: byte_pair)
qed (simp_all add: push_bit_eq_mult)

lemma sum_bytes_append: "sum_bytes (xs @ ys) st = sum_bytes ys (sum_bytes xs st)"
  by (induction xs st rule: sum_bytes.induct) simp_all

lemma foldl_sum_bytes: "foldl (\<lambda>st part. sum_bytes part st) st parts = sum_bytes (concat parts) st"
  by (induction parts arbitrary: st) (simp_all add: sum_bytes_append)

lemma fold_sum_spec:
  assumes "s < 2 ^ 32"
  shows "fold_sum s < 65536 \<and> fold_sum s mod 65535 = s mod 65535 \<and> (fold_sum s = 0 \<longleftrightarrow> s = 0)"
  using assms
proof (induction s rule: less_induct)
  case (less s)
  have split: "s = 65536 * (s div 65536) + s mod 65536" by simp
  show ?case
  proof (cases "s div 65536 = 0")
    case True
    then have "s < 65536" by (simp add: div_eq_0_iff)
    with True less.prems show ?thesis
      by (subst (1 2 3) fold_sum.simps) (simp add: drop_bit_eq_div take_bit_eq_mod)
  next
    case False
    let ?s = "s mod 65536 + s div 65536"
    have fold: "fold_sum s = fold_sum ?s"
      using False less.prems by (subst fold_sum.simps) (simp add: drop_bit_eq_div take_bit_eq_mod)
    have "?s < s" using False split by linarith
    moreover have "s = ?s + 65535 * (s div 65536)" using split by linarith
    then have "s mod 65535 = ?s mod 65535" by (metis mod_mult_self2)
    moreover have "0 < ?s" "0 < s" using False by auto
    ultimately show ?thesis using less.IH [of ?s] less.prems fold by auto
  qed
qed

lemma word_sum_bound: "2 * word_sum bs \<le> 65535 * (length bs + 1)"
proof (induction bs rule: word_sum.induct)
  case (2 b)
  then show ?case using unat_byte_less [of b] by simp
next
  case (3 a b bs)
  then show ?case using unat_byte_less [of a] unat_byte_less [of b] by simp
qed simp

lemma checksum_word_sum:
  assumes "length (concat parts) \<le> 65547"
  shows "checksum parts = 65535 - fold_sum (word_sum (concat parts))"
proof -
  have "word_sum (concat parts) < 2 ^ 32" using word_sum_bound [of "concat parts"] assms by simp
  then have "take_bit 16 (fold_sum (word_sum (concat parts))) = fold_sum (word_sum (concat parts))"
    using fold_sum_spec by (simp add: take_bit_nat_eq_self)
  moreover have "checksum parts = 65535 - take_bit 16 (fold_sum (word_sum (concat parts)))"
    using sum_bytes_total [of "concat parts" 0]
    by (auto simp: checksum_def foldl_sum_bytes Let_def split: prod.splits option.splits)
  ultimately show ?thesis by simp
qed

lemma word_sum_append: "even (length xs) \<Longrightarrow> word_sum (xs @ ys) = word_sum xs + word_sum ys"
  by (induction xs rule: word_sum.induct) simp_all

lemma be_bytes_2: "be_bytes 2 c = [of_nat (c div 256), of_nat c]"
  by (simp add: be_bytes_def numeral_2_eq_2)

lemma word_sum_be_bytes: "c < 65536 \<Longrightarrow> word_sum (be_bytes 2 c @ ys) = c + word_sum ys"
  by (simp add: be_bytes_2 unat_byte_of_nat)

text \<open>
  A checksum stored where the summed bytes had zeros makes the checksum of the whole zero, which is
  the receiver's test.
\<close>

lemma checksum_verifies:
  assumes "even (length A)" and "length A + length B + 2 \<le> 65547" and "concat parts = A @ [0, 0] @ B"
    and "concat parts' = A @ be_bytes 2 (checksum parts) @ B"
  shows "checksum parts' = 0"
proof -
  define s where "s = word_sum A + word_sum B"
  have len: "length (concat parts) \<le> 65547" "length (concat parts') \<le> 65547" using assms by simp_all
  have s: "word_sum (concat parts) = s" using assms(1,3) by (simp add: word_sum_append s_def)
  have bound: "s + 65536 < 2 ^ 32" using word_sum_bound [of "concat parts"] len(1) s by simp
  define f where "f = fold_sum s"
  have f: "f < 65536" "f mod 65535 = s mod 65535" "f = 0 \<longleftrightarrow> s = 0"
    using fold_sum_spec [of s] bound by (simp_all add: f_def)
  have c: "checksum parts = 65535 - f" using checksum_word_sum [OF len(1)] s by (simp add: f_def)
  have s': "word_sum (concat parts') = s + (65535 - f)"
    using assms(1,4) c word_sum_be_bytes [of "65535 - f" B] f(1) by (simp add: word_sum_append s_def)
  have "(s + (65535 - f)) mod 65535 = 0"
  proof -
    have "(s + (65535 - f)) mod 65535 = (s mod 65535 + (65535 - f)) mod 65535" by (simp add: mod_add_left_eq)
    also have "\<dots> = (f mod 65535 + (65535 - f)) mod 65535" using f(2) by simp
    also have "\<dots> = (f + (65535 - f)) mod 65535" by (simp add: mod_add_left_eq)
    also have "\<dots> = 0" using f(1) by simp
    finally show ?thesis .
  qed
  moreover have "0 < s + (65535 - f)" using f(3) by (cases "f = 65535") auto
  ultimately have g: "fold_sum (s + (65535 - f)) < 65536" "fold_sum (s + (65535 - f)) mod 65535 = 0"
    "0 < fold_sum (s + (65535 - f))"
    using fold_sum_spec [of "s + (65535 - f)"] bound by auto
  then obtain k where "fold_sum (s + (65535 - f)) = 65535 * k" by (auto simp: mod_eq_0_iff_dvd dvd_def)
  with g have "fold_sum (s + (65535 - f)) = 65535" by (cases k) auto
  then show ?thesis using checksum_word_sum [OF len(2)] s' by simp
qed

section \<open>Packets are built and parsed\<close>

lemma set_u8_elems:
  "length vs = n \<Longrightarrow> set_elems (Scalar U8) n (whole_view (A @ replicate n 0)) (length A) (map (\<lambda>b. Num (uint b)) vs)
     = Inr (A @ (vs :: bytes))"
proof (induction vs arbitrary: A n)
  case (Cons v vs)
  have enc: "scalar_encode U8 (uint v) = [v]"
    using uint_bounded [of v] by (simp add: scalar_encode_def big_endian_def)
  have "overwrite (A @ replicate (Suc (length vs)) 0) (length A) [v] = (A @ [v]) @ replicate (length vs) 0"
    by (simp add: overwrite_def)
  with Cons.IH [of "length vs" "A @ [v]"] Cons.prems enc show ?case
    by (auto simp: scalar_set_def dv_write_def whole_view_def)
qed (simp add: whole_view_def)

lemma ty_encode_mac [simp]: "length mac = 6 \<Longrightarrow> ty_encode Mac (mac_value mac) = Inr mac"
  using set_u8_elems [of mac 6 "[]"] by (simp add: ty_encode_def mac_value_def)

lemma encode_u16: "n < 65536 \<Longrightarrow> scalar_encode U16BE (int n) = be_bytes 2 n"
  by (simp add: scalar_encode_def big_endian_def)

lemma overwrite_append_left: "off + length bs \<le> length xs \<Longrightarrow> overwrite (xs @ ys) off bs = overwrite xs off bs @ ys"
  by (simp add: overwrite_def)

lemma bytes_array_overwrite:
  assumes "growable b" and "off + length bs \<le> bb_length b"
  shows "growable (b\<lparr>bb_array := overwrite (bb_array b) off bs\<rparr>)"
    and "bytes_array (b\<lparr>bb_array := overwrite (bb_array b) off bs\<rparr>) = overwrite (bytes_array b) off bs"
proof -
  have ok: "bytes_ok b" "0 < bytes_capacity b" using assms(1) by (simp_all add: growable_def)
  have len: "off + length bs \<le> length (bytes_array b)" using assms(2) length_bytes_array [OF ok(1)] by simp
  have arr: "overwrite (bb_array b) off bs = overwrite (bytes_array b) off bs @ replicate (length (bb_array b) - bb_length b) 0"
    by (subst bytes_ok_split [OF ok(1)]) (rule overwrite_append_left [OF len])
  let ?b = "b\<lparr>bb_array := overwrite (bb_array b) off bs\<rparr>"
  have "bb_array ?b = overwrite (bytes_array b) off bs @ replicate (length (bb_array b) - bb_length b) 0"
    "bb_length ?b = length (overwrite (bytes_array b) off bs)"
    using arr len length_bytes_array [OF ok(1)] by (simp_all add: length_overwrite)
  note parts = bytes_okI [OF this]
  have "length (overwrite (bb_array b) off bs) = length (bb_array b)"
    using len length_bytes_array [OF ok(1)] ok(1) by (simp add: length_overwrite bytes_ok_def)
  with ok(2) parts(1) show "growable ?b" by (simp add: growable_def bytes_capacity_def)
  show "bytes_array ?b = overwrite (bytes_array b) off bs" by (rule parts(2))
qed

lemma alloc_set_field_scalar:
  assumes "growable b" and at: "field_at fs 0 k = Some (o', Scalar s)" and "off + o' + scalar_size s \<le> bb_length b"
  shows "alloc_set_field b fs off k (Num v) =
    Inr (b\<lparr>bb_array := overwrite (bb_array b) (off + o') (scalar_encode s v)\<rparr>)"
proof -
  have "off + o' + scalar_size s \<le> length (bb_array b)"
    using assms by (simp add: growable_def bytes_ok_def)
  then have "off \<le> length (bb_array b)" "o' + scalar_size s \<le> length (bb_array b) - off"
    "o' + scalar_size s \<le> length (bb_array b)" by linarith+
  then show ?thesis
    using at by (simp add: alloc_set_field_def alloc_set_def tail_view_def scalar_set_def dv_write_def)
qed

text \<open>The header bytes, with the stored checksum as a parameter.\<close>

definition ethernet_bytes :: "bytes \<Rightarrow> nat \<Rightarrow> bytes" where
  "ethernet_bytes mac type = mac @ GATEWAY_MAC @ be_bytes 2 type"

definition ip_header :: "nat \<Rightarrow> nat \<Rightarrow> nat \<Rightarrow> nat \<Rightarrow> nat \<Rightarrow> nat \<Rightarrow> nat \<Rightarrow> bytes" where
  "ip_header total_length ident ffo protocol c source destination =
     scalar_encode U8 69 @ scalar_encode U8 0 @ scalar_encode U16BE (int total_length) @ scalar_encode U16BE (int ident) @
     scalar_encode U16BE (int ffo) @ scalar_encode U8 64 @ scalar_encode U8 (int protocol) @ scalar_encode U16BE (int c) @
     scalar_encode U32BE (int source) @ scalar_encode U32BE (int destination)"

lemma length_ip_header [simp]: "length (ip_header total_length ident ffo protocol c source destination) = 20"
  by (simp add: ip_header_def)

lemma layout_sizes [simp]:
  "layout_size EthernetHeader = 14" "layout_size Ipv4Header = 20" "layout_size TcpHeader = 20"
  "layout_size TcpPseudoHeader = 12" "layout_size UdpHeader = 8" "layout_size DnsHeader = 12"
  "layout_size DnsQuestionFooter = 4" "layout_size DnsIpv4Answer = 16" "layout_size ArpPacket = 28"
  by (simp_all add: EthernetHeader_def Ipv4Header_def TcpHeader_def TcpPseudoHeader_def UdpHeader_def DnsHeader_def
      DnsQuestionFooter_def DnsIpv4Answer_def ArpPacket_def)

lemma layouts_distinct [simp]:
  "distinct (map fst EthernetHeader)" "distinct (map fst Ipv4Header)" "distinct (map fst TcpHeader)"
  "distinct (map fst TcpPseudoHeader)" "distinct (map fst UdpHeader)" "distinct (map fst DnsHeader)"
  "distinct (map fst DnsIpv4Answer)" "distinct (map fst ArpPacket)" "distinct (map fst DnsQuestionFooter)"
  by (simp_all add: EthernetHeader_def Ipv4Header_def TcpHeader_def TcpPseudoHeader_def UdpHeader_def DnsHeader_def
      DnsIpv4Answer_def ArpPacket_def DnsQuestionFooter_def)

lemma ip_fields_encode:
  "encode_fields Ipv4Header (ip_fields total_length ident ffo protocol c source destination) =
     Inr (ip_header total_length ident ffo protocol c source destination)"
  by (simp add: Ipv4Header_def ip_fields_def ip_header_def)

lemma ethernet_fields_encode:
  "length mac = 6 \<Longrightarrow> type < 65536 \<Longrightarrow> ty_encode (Struct EthernetHeader) (ethernet_fields mac GATEWAY_MAC type) =
     Inr (ethernet_bytes mac type)"
  unfolding ethernet_fields_def
  by (rule struct_encode)
    (simp_all add: EthernetHeader_def ethernet_bytes_def encode_u16 GATEWAY_MAC_def del: One_nat_def)

lemma ip_header_checksum_at:
  "ip_header t i f p c s d =
     (scalar_encode U8 69 @ scalar_encode U8 0 @ scalar_encode U16BE (int t) @ scalar_encode U16BE (int i) @
      scalar_encode U16BE (int f) @ scalar_encode U8 64 @ scalar_encode U8 (int p)) @
     scalar_encode U16BE (int c) @ scalar_encode U32BE (int s) @ scalar_encode U32BE (int d)"
  by (simp add: ip_header_def)

lemma overwrite_mid: "length xs = off \<Longrightarrow> length ys = length bs \<Longrightarrow> overwrite (xs @ ys @ zs) off bs = xs @ bs @ zs"
  by (simp add: overwrite_def)

text \<open>What \<open>ip_packet\<close> builds.\<close>

definition ip_frame :: "bytes \<Rightarrow> nat \<Rightarrow> nat \<Rightarrow> nat \<Rightarrow> bytes \<Rightarrow> nat \<Rightarrow> nat \<Rightarrow> bytes" where
  "ip_frame mac src dst protocol payload ident ffo =
     (let h = (\<lambda>c. ip_header (20 + length payload) ident ffo protocol c src dst)
      in ethernet_bytes mac ET_IPv4 @ h (checksum [h 0]) @ payload)"

lemma ip_packet_frame:
  assumes mac: "length mac = 6"
  shows "ip_packet mac src dst protocol payload ident ffo = Some (Inr (ip_frame mac src dst protocol payload ident ffo))"
proof -
  define h where "h = (\<lambda>c. ip_header (20 + length payload) ident ffo protocol c src dst)"
  have eth: "length (ethernet_bytes mac ET_IPv4) = 14" using mac by (simp add: ethernet_bytes_def GATEWAY_MAC_def)
  have "growable (new_bytes (14 + 20 + length payload))" by (simp add: new_bytes_growable)
  from bytes_put_works [OF this ethernet_fields_encode [OF mac, of ET_IPv4]] obtain b1 where
    b1: "bytes_put (new_bytes (14 + 20 + length payload)) (Struct EthernetHeader) (ethernet_fields mac GATEWAY_MAC ET_IPv4) = Some (Inr b1)"
    "growable b1" "bytes_array b1 = ethernet_bytes mac ET_IPv4" by (auto simp: ET_IPv4_def)
  have "ty_encode (Struct Ipv4Header) (Obj (ip_fields (20 + length payload) ident ffo protocol 0 src dst)) = Inr (h 0)"
    by (rule struct_encode) (simp_all add: ip_fields_encode h_def)
  from bytes_put_works [OF b1(2) this] obtain b2 where
    b2: "bytes_put b1 (Struct Ipv4Header) (Obj (ip_fields (20 + length payload) ident ffo protocol 0 src dst)) = Some (Inr b2)"
    "growable b2" "bytes_array b2 = ethernet_bytes mac ET_IPv4 @ h 0" using b1(3) by auto
  have len2: "bb_length b2 = 34"
    using length_bytes_array [of b2] b2(2,3) eth by (simp add: growable_def h_def)
  have sub: "subarray (bytes_array b2) 14 34 = h 0" using b2(3) eth by (simp add: subarray_def h_def)
  define c where "c = checksum [h 0]"
  let ?b3 = "b2\<lparr>bb_array := overwrite (bb_array b2) (14 + 10) (scalar_encode U16BE (int c))\<rparr>"
  have b3: "alloc_set_field b2 Ipv4Header 14 ''header_checksum'' (Num (int c)) = Inr ?b3"
    using len2 by (intro alloc_set_field_scalar b2(2)) (simp_all add: Ipv4Header_def)
  have "bytes_array ?b3 = overwrite (ethernet_bytes mac ET_IPv4 @ h 0) (14 + 10) (scalar_encode U16BE (int c))"
    using bytes_array_overwrite(2) [OF b2(2), of "14 + 10" "scalar_encode U16BE (int c)"] len2 b2(3) by simp
  also have "\<dots> = ethernet_bytes mac ET_IPv4 @ h c"
    unfolding h_def ip_header_checksum_at append_assoc [symmetric, of "ethernet_bytes mac ET_IPv4"]
    by (subst overwrite_mid) (simp_all add: eth)
  finally have arr3: "bytes_array ?b3 = ethernet_bytes mac ET_IPv4 @ h c" .
  have "growable ?b3" using bytes_array_overwrite(1) [OF b2(2), of "14 + 10" "scalar_encode U16BE (int c)"] len2 by simp
  from append_bytes_works [OF this, of payload] obtain b4 where
    b4: "append_bytes ?b3 payload = Some (Inr b4)" "bytes_array b4 = (ethernet_bytes mac ET_IPv4 @ h c) @ payload"
    using arr3 by auto
  show ?thesis
    using b1(1) b2(1) b3 b4 sub by (simp add: ip_packet_def ip_frame_def h_def [symmetric] c_def [symmetric] Let_def)
qed

lemma ip_header_get:
  assumes "(k, Num v) \<in> set (ip_fields t i f p c s d)" "field_at Ipv4Header 0 k = Some (off, Scalar sc)" "scalar_range sc v"
  shows "get_num Ipv4Header (whole_view (ip_header t i f p c s d @ rest)) k = Inr (nat v)"
  using assms by (intro get_num_encoded [OF ip_fields_encode]) simp_all

lemma ethernet_type:
  assumes "length mac = 6" "type < 65536"
  shows "get_num EthernetHeader (whole_view (ethernet_bytes mac type @ rest)) ''type'' = Inr type"
proof -
  have "encode_fields EthernetHeader [(''destination'', mac_value mac), (''source'', mac_value GATEWAY_MAC), (''type'', Num (int type))]
      = Inr (ethernet_bytes mac type)"
    using assms by (simp add: EthernetHeader_def ethernet_bytes_def encode_u16 GATEWAY_MAC_def del: One_nat_def)
  from get_num_encoded [OF this, of "''type''" 12 U16BE "int type" rest] assms show ?thesis
    by (simp add: EthernetHeader_def scalar_range_def)
qed

lemma version_and_length: "(69::nat) AND 15 = 5" "drop_bit 4 (69::nat) = 4" "drop_bit 4 (80::nat) = 5"
  by code_simp+

lemma parse_ip_frame:
  assumes mac: "length mac = 6" and len: "length payload \<le> 65515"
    and range: "src < 2 ^ 32" "dst < 2 ^ 32" "protocol < 256" "ident < 65536" "ffo < 65536"
    and frag: "(ffo AND 8191) * 8 \<noteq> 0 \<or> ffo AND 8192 \<noteq> 0 \<longrightarrow> payload \<noteq> []"
      "ffo AND 8192 \<noteq> 0 \<longrightarrow> length payload mod 8 = 0" "(ffo AND 8191) * 8 + length payload \<le> MAX_IP_PAYLOAD"
  shows "parse_ip (ip_frame mac src dst protocol payload ident ffo) =
    Inr (Some \<lparr>if_source = src, if_destination = dst, if_protocol = protocol, if_payload = payload,
      if_identification = ident, if_header_length = 20, if_offset = (ffo AND 8191) * 8, if_more = (ffo AND 8192 \<noteq> 0)\<rparr>)"
proof -
  define c where "c = checksum [ip_header (20 + length payload) ident ffo protocol 0 src dst]"
  define h where "h = ip_header (20 + length payload) ident ffo protocol c src dst"
  have frame: "ip_frame mac src dst protocol payload ident ffo = ethernet_bytes mac ET_IPv4 @ h @ payload"
    by (simp add: ip_frame_def h_def c_def Let_def)
  have eth: "length (ethernet_bytes mac ET_IPv4) = 14" using mac by (simp add: ethernet_bytes_def GATEWAY_MAC_def)
  have type: "get_num EthernetHeader (whole_view (ethernet_bytes mac ET_IPv4 @ h @ payload)) ''type'' = Inr ET_IPv4"
    using mac by (intro ethernet_type) (simp_all add: ET_IPv4_def)
  note get = ip_header_get [where t = "20 + length payload" and i = ident and f = ffo and p = protocol and c = c
      and s = src and d = dst and rest = payload, folded h_def, unfolded ip_fields_def]
  have f0: "get_num Ipv4Header (whole_view (h @ payload)) ''version_and_header_length'' = Inr 69"
    using get [of "''version_and_header_length''" "69" 0 U8]  by (simp add: Ipv4Header_def scalar_range_def nat_add_distrib)
  have f1: "get_num Ipv4Header (whole_view (h @ payload)) ''total_length'' = Inr (20 + length payload)"
    using get [of "''total_length''" "int (20 + length payload)" 2 U16BE] len by (simp add: Ipv4Header_def scalar_range_def nat_add_distrib)
  have f2: "get_num Ipv4Header (whole_view (h @ payload)) ''flags_and_fragment_offset'' = Inr ffo"
    using get [of "''flags_and_fragment_offset''" "int ffo" 6 U16BE] range(5) by (simp add: Ipv4Header_def scalar_range_def nat_add_distrib)
  have f3: "get_num Ipv4Header (whole_view (h @ payload)) ''source'' = Inr src"
    using get [of "''source''" "int src" 12 U32BE] range(1) by (simp add: Ipv4Header_def scalar_range_def nat_add_distrib)
  have f4: "get_num Ipv4Header (whole_view (h @ payload)) ''destination'' = Inr dst"
    using get [of "''destination''" "int dst" 16 U32BE] range(2) by (simp add: Ipv4Header_def scalar_range_def nat_add_distrib)
  have f5: "get_num Ipv4Header (whole_view (h @ payload)) ''protocol'' = Inr protocol"
    using get [of "''protocol''" "int protocol" 9 U8] range(3) by (simp add: Ipv4Header_def scalar_range_def nat_add_distrib)
  have f6: "get_num Ipv4Header (whole_view (h @ payload)) ''identification'' = Inr ident"
    using get [of "''identification''" "int ident" 4 U16BE] range(4) by (simp add: Ipv4Header_def scalar_range_def nat_add_distrib)
  note fields = f0 f1 f2 f3 f4 f5 f6
  have "length h = 20" by (simp add: h_def)
  then have sub: "subarray (h @ payload) 20 (20 + length payload) = payload" by (simp add: subarray_def)
  show ?thesis
    unfolding frame parse_ip_def
    using frag len eth \<open>length h = 20\<close>
    by (auto simp add: type fields version_and_length sub Let_def)
qed

section \<open>Transport\<close>

definition tcp_header :: "nat \<Rightarrow> nat \<Rightarrow> 32 word \<Rightarrow> 32 word \<Rightarrow> nat \<Rightarrow> nat \<Rightarrow> nat \<Rightarrow> bytes" where
  "tcp_header sp dp seq ack flags window c =
     (scalar_encode U16BE (int sp) @ scalar_encode U16BE (int dp) @ scalar_encode U32BE (uint seq) @ scalar_encode U32BE (uint ack) @
      scalar_encode U8 80 @ scalar_encode U8 (int flags) @ scalar_encode U16BE (int window)) @
     scalar_encode U16BE (int c) @ scalar_encode U16BE 0"

definition pseudo_header :: "nat \<Rightarrow> nat \<Rightarrow> nat \<Rightarrow> bytes" where
  "pseudo_header src dst len = scalar_encode U32BE (int src) @ scalar_encode U32BE (int dst) @ scalar_encode U8 0 @
     scalar_encode U8 (int IP_TCP) @ scalar_encode U16BE (int len)"

lemma length_tcp_header [simp]: "length (tcp_header sp dp seq ack flags window c) = 20"
  by (simp add: tcp_header_def)

lemma length_pseudo_header [simp]: "length (pseudo_header src dst len) = 12"
  by (simp add: pseudo_header_def)

lemma tcp_fields_encode:
  "encode_fields TcpHeader (tcp_fields sp dp seq ack flags window c) = Inr (tcp_header sp dp seq ack flags window c)"
  by (simp add: TcpHeader_def tcp_fields_def tcp_header_def)

lemma pseudo_fields_encode: "encode_fields TcpPseudoHeader (pseudo_fields src dst len) = Inr (pseudo_header src dst len)"
  by (simp add: TcpPseudoHeader_def pseudo_fields_def pseudo_header_def)

lemma udp_fields_encode:
  "encode_fields UdpHeader (udp_fields sp dp len) =
     Inr (scalar_encode U16BE (int sp) @ scalar_encode U16BE (int dp) @ scalar_encode U16BE (int len) @ scalar_encode U16BE 0)"
  by (simp add: UdpHeader_def udp_fields_def)

definition tcp_bytes :: "nat \<Rightarrow> nat \<Rightarrow> nat \<Rightarrow> nat \<Rightarrow> 32 word \<Rightarrow> 32 word \<Rightarrow> nat \<Rightarrow> bytes \<Rightarrow> nat \<Rightarrow> bytes" where
  "tcp_bytes src dst sp dp seq ack flags payload window =
     (let h = tcp_header sp dp seq ack flags window
      in h (checksum [pseudo_header src dst (20 + length payload), h 0 @ payload]) @ payload)"

lemma tcp_segment_bytes_eq:
  "tcp_segment_bytes src dst sp dp seq ack flags payload window =
     Some (Inr (tcp_bytes src dst sp dp seq ack flags payload window))"
proof -
  let ?h = "tcp_header sp dp seq ack flags window" and ?ps = "pseudo_header src dst (20 + length payload)"
  have "growable (new_bytes 12)" by (simp add: new_bytes_growable)
  from bytes_put_works [OF this struct_encode [OF _ pseudo_fields_encode [of src dst "20 + length payload"]]] obtain pseudo where
    ps: "bytes_put (new_bytes 12) (Struct TcpPseudoHeader) (Obj (pseudo_fields src dst (20 + length payload))) = Some (Inr pseudo)"
    "bytes_array pseudo = ?ps" by auto
  have "growable (new_bytes (20 + length payload))" by (simp add: new_bytes_growable)
  from bytes_put_works [OF this struct_encode [OF _ tcp_fields_encode [of sp dp seq ack flags window 0]]] obtain b1 where
    b1: "bytes_put (new_bytes (20 + length payload)) (Struct TcpHeader) (Obj (tcp_fields sp dp seq ack flags window 0)) = Some (Inr b1)"
    "growable b1" "bytes_array b1 = ?h 0" by auto
  from append_bytes_works [OF b1(2), of payload] obtain b2 where
    b2: "append_bytes b1 payload = Some (Inr b2)" "growable b2" "bytes_array b2 = ?h 0 @ payload" using b1(3) by auto
  have len: "bb_length b2 = 20 + length payload" using length_bytes_array [of b2] b2(2,3) by (simp add: growable_def)
  define c where "c = checksum [?ps, ?h 0 @ payload]"
  let ?b3 = "b2\<lparr>bb_array := overwrite (bb_array b2) (0 + 16) (scalar_encode U16BE (int c))\<rparr>"
  have b3: "alloc_set_field b2 TcpHeader 0 ''header_checksum'' (Num (int c)) = Inr ?b3"
    using len by (intro alloc_set_field_scalar b2(2)) (simp_all add: TcpHeader_def)
  have "bytes_array ?b3 = overwrite (?h 0 @ payload) (0 + 16) (scalar_encode U16BE (int c))"
    using bytes_array_overwrite(2) [OF b2(2), of "0 + 16" "scalar_encode U16BE (int c)"] len b2(3) by simp
  also have "\<dots> = ?h c @ payload"
    unfolding tcp_header_def append_assoc by (simp add: overwrite_def)
  finally have "bytes_array ?b3 = ?h c @ payload" .
  with ps b1(1) b2 b3 show ?thesis
    by (simp add: tcp_segment_bytes_def tcp_bytes_def Let_def c_def [symmetric])
qed

lemma parse_tcp_bytes:
  assumes "sp < 65536" "dp < 65536" "flags < 256" "window < 65536"
  shows "parse_tcp (tcp_bytes src dst sp dp seq ack flags payload window) =
    Inr (Some \<lparr>ts_source_port = sp, ts_destination_port = dp, ts_sequence = seq, ts_acknowledgement = ack,
      ts_flags = flags, ts_window = window, ts_payload = payload\<rparr>)"
proof -
  define c where "c = checksum [pseudo_header src dst (20 + length payload), tcp_header sp dp seq ack flags window 0 @ payload]"
  define h where "h = tcp_header sp dp seq ack flags window c"
  have seg: "tcp_bytes src dst sp dp seq ack flags payload window = h @ payload"
    by (simp add: tcp_bytes_def h_def c_def Let_def)
  have get: "get_num TcpHeader (whole_view (h @ payload)) k = Inr (nat v)"
    if "(k, Num v) \<in> set (tcp_fields sp dp seq ack flags window c)" "field_at TcpHeader 0 k = Some (off, Scalar sc)"
      "scalar_range sc v" for k v off sc
    unfolding h_def using that by (intro get_num_encoded [OF tcp_fields_encode]) simp_all
  note get = get [unfolded tcp_fields_def]
  have range: "uint seq < 4294967296" "uint ack < 4294967296"
    using uint_bounded [of seq] uint_bounded [of ack] by simp_all
  have f0: "get_num TcpHeader (whole_view (h @ payload)) ''data_offset'' = Inr 80"
    using get [of "''data_offset''" "80" 12 U8]  by (simp add: TcpHeader_def scalar_range_def nat_uint_eq)
  have f1: "get_num TcpHeader (whole_view (h @ payload)) ''source_port'' = Inr sp"
    using get [of "''source_port''" "int sp" 0 U16BE] assms(1) by (simp add: TcpHeader_def scalar_range_def nat_uint_eq)
  have f2: "get_num TcpHeader (whole_view (h @ payload)) ''destination_port'' = Inr dp"
    using get [of "''destination_port''" "int dp" 2 U16BE] assms(2) by (simp add: TcpHeader_def scalar_range_def nat_uint_eq)
  have f3: "get_num TcpHeader (whole_view (h @ payload)) ''sequence'' = Inr (unat seq)"
    using get [of "''sequence''" "uint seq" 4 U32BE] range(1) by (simp add: TcpHeader_def scalar_range_def nat_uint_eq)
  have f4: "get_num TcpHeader (whole_view (h @ payload)) ''acknowledgement'' = Inr (unat ack)"
    using get [of "''acknowledgement''" "uint ack" 8 U32BE] range(2) by (simp add: TcpHeader_def scalar_range_def nat_uint_eq)
  have f5: "get_num TcpHeader (whole_view (h @ payload)) ''flags'' = Inr flags"
    using get [of "''flags''" "int flags" 13 U8] assms(3) by (simp add: TcpHeader_def scalar_range_def nat_uint_eq)
  have f6: "get_num TcpHeader (whole_view (h @ payload)) ''window'' = Inr window"
    using get [of "''window''" "int window" 14 U16BE] assms(4) by (simp add: TcpHeader_def scalar_range_def nat_uint_eq)
  note fields = f0 f1 f2 f3 f4 f5 f6
  have "length h = 20" by (simp add: h_def)
  then show ?thesis unfolding seg parse_tcp_def by (simp add: fields version_and_length Let_def)
qed

lemma checksum_less: "checksum parts < 65536"
proof -
  have "65535 - x < 65536" for x :: nat by linarith
  then show ?thesis by (simp only: checksum_def Let_def case_prod_beta)
qed

lemma tcp_bytes_verifies:
  assumes "length payload \<le> 65515"
  shows "checksum [pseudo_header src dst (20 + length payload), tcp_bytes src dst sp dp seq ack flags payload window] = 0"
proof -
  let ?ps = "pseudo_header src dst (20 + length payload)"
  let ?A = "?ps @ scalar_encode U16BE (int sp) @ scalar_encode U16BE (int dp) @ scalar_encode U32BE (uint seq) @
     scalar_encode U32BE (uint ack) @ scalar_encode U8 80 @ scalar_encode U8 (int flags) @ scalar_encode U16BE (int window)"
  let ?B = "scalar_encode U16BE 0 @ payload"
  let ?h = "tcp_header sp dp seq ack flags window"
  show ?thesis
  proof (rule checksum_verifies [of ?A ?B "[?ps, ?h 0 @ payload]"])
    show "concat [?ps, ?h 0 @ payload] = ?A @ [0, 0] @ ?B"
      using encode_u16 [of 0] by (simp add: tcp_header_def be_bytes_2)
    show "concat [?ps, tcp_bytes src dst sp dp seq ack flags payload window] =
        ?A @ be_bytes 2 (checksum [?ps, ?h 0 @ payload]) @ ?B"
      by (simp add: tcp_bytes_def tcp_header_def Let_def encode_u16 [OF checksum_less])
  qed (use assms in simp_all)
qed

lemma ip_header_verifies:
  "checksum [ip_header t i f p (checksum [ip_header t i f p 0 s d]) s d] = 0"
proof -
  let ?A = "scalar_encode U8 69 @ scalar_encode U8 0 @ scalar_encode U16BE (int t) @ scalar_encode U16BE (int i) @
      scalar_encode U16BE (int f) @ scalar_encode U8 64 @ scalar_encode U8 (int p)"
  let ?B = "scalar_encode U32BE (int s) @ scalar_encode U32BE (int d)"
  show ?thesis
  proof (rule checksum_verifies [of ?A ?B "[ip_header t i f p 0 s d]"])
    show "concat [ip_header t i f p 0 s d] = ?A @ [0, 0] @ ?B"
      using encode_u16 [of 0] by (simp add: ip_header_def be_bytes_2)
    show "concat [ip_header t i f p (checksum [ip_header t i f p 0 s d]) s d] =
        ?A @ be_bytes 2 (checksum [ip_header t i f p 0 s d]) @ ?B"
      by (simp add: ip_header_def encode_u16 [OF checksum_less])
  qed simp_all
qed

definition udp_bytes :: "nat \<Rightarrow> nat \<Rightarrow> bytes \<Rightarrow> bytes" where
  "udp_bytes sp dp payload = scalar_encode U16BE (int sp) @ scalar_encode U16BE (int dp) @
     scalar_encode U16BE (int (8 + length payload)) @ scalar_encode U16BE 0 @ payload"

lemma udp_datagram_bytes_eq: "udp_datagram_bytes sp dp payload = Some (Inr (udp_bytes sp dp payload))"
proof -
  have "growable (new_bytes (8 + length payload))" by (simp add: new_bytes_growable)
  from bytes_put_works [OF this struct_encode [OF _ udp_fields_encode [of sp dp "8 + length payload"]]] obtain b1 where
    b1: "bytes_put (new_bytes (8 + length payload)) (Struct UdpHeader) (Obj (udp_fields sp dp (8 + length payload))) = Some (Inr b1)"
    "growable b1" "bytes_array b1 = scalar_encode U16BE (int sp) @ scalar_encode U16BE (int dp) @
       scalar_encode U16BE (int (8 + length payload)) @ scalar_encode U16BE 0" by auto
  from append_bytes_works [OF b1(2), of payload] b1(1,3) show ?thesis
    by (auto simp: udp_datagram_bytes_def udp_bytes_def)
qed

lemma parse_udp_bytes:
  assumes "sp < 65536" "dp < 65536" "length payload \<le> 65527"
  shows "parse_udp (udp_bytes sp dp payload) =
    Inr (Some \<lparr>ud_source_port = sp, ud_destination_port = dp, ud_payload = payload\<rparr>)"
proof -
  define h where "h = scalar_encode U16BE (int sp) @ scalar_encode U16BE (int dp) @
     scalar_encode U16BE (int (8 + length payload)) @ scalar_encode U16BE 0"
  have bs: "udp_bytes sp dp payload = h @ payload" and len: "length h = 8" by (simp_all add: udp_bytes_def h_def)
  have get: "get_num UdpHeader (whole_view (h @ payload)) k = Inr (nat v)"
    if "(k, Num v) \<in> set (udp_fields sp dp (8 + length payload))" "field_at UdpHeader 0 k = Some (off, Scalar sc)"
      "scalar_range sc v" for k v off sc
    unfolding h_def using that by (intro get_num_encoded [OF udp_fields_encode]) simp_all
  note get = get [unfolded udp_fields_def]
  have fields:
    "get_num UdpHeader (whole_view (h @ payload)) ''length'' = Inr (8 + length payload)"
    "get_num UdpHeader (whole_view (h @ payload)) ''source_port'' = Inr sp"
    "get_num UdpHeader (whole_view (h @ payload)) ''destination_port'' = Inr dp"
    using get [of "''length''" "int (8 + length payload)" 4 U16BE] get [of "''source_port''" "int sp" 0 U16BE]
      get [of "''destination_port''" "int dp" 2 U16BE] assms
    by (simp_all add: UdpHeader_def scalar_range_def nat_add_distrib)
  from len show ?thesis unfolding bs parse_udp_def by (simp add: fields Let_def subarray_def)
qed

section \<open>Fragments\<close>

lemma fragment_payload [simp]: "IP_FRAGMENT_PAYLOAD = 1480" "MAX_IP_PAYLOAD = 65515"
  by (simp_all add: IP_FRAGMENT_PAYLOAD_def MAX_IP_PAYLOAD_def ETHERNET_MTU_def)

lemma fragment_offsets_ranges:
  "(a, e) \<in> set (fragment_offsets off n) \<Longrightarrow>
     off \<le> a \<and> a < e \<and> e \<le> n \<and> e \<le> a + 1480 \<and> (e < n \<longrightarrow> e = a + 1480) \<and> (8 dvd off \<longrightarrow> 8 dvd a)"
proof (induction off n rule: fragment_offsets.induct)
  case (1 off n)
  show ?case
  proof (cases "off < n")
    case True
    with "1.prems" consider "a = off" "e = min (off + 1480) n" | "(a, e) \<in> set (fragment_offsets (off + 1480) n)"
      by (subst (asm) fragment_offsets.simps) auto
    then show ?thesis
    proof cases
      case 2
      from "1.IH" [OF True] 2 show ?thesis by (auto simp: dvd_add)
    qed (use True in \<open>auto simp: min_def\<close>)
  next
    case False
    with "1.prems" show ?thesis by (subst (asm) fragment_offsets.simps) simp
  qed
qed

lemma fragment_offsets_tile:
  "n = length p \<Longrightarrow> concat (map (\<lambda>(a, e). subarray p a e) (fragment_offsets off n)) = drop off p"
proof (induction off n rule: fragment_offsets.induct)
  case (1 off n)
  show ?case
  proof (cases "off < n")
    case True
    have "subarray p off (min (off + 1480) n) @ drop (off + 1480) p = drop off p"
      using True "1.prems" by (simp add: subarray_def min_def)
        (metis append_take_drop_id drop_drop add.commute)
    with "1.IH" [OF True] "1.prems" True show ?thesis
      by (subst fragment_offsets.simps) simp
  next
    case False
    with "1.prems" show ?thesis by (subst fragment_offsets.simps) simp
  qed
qed

lemma fragment_flags:
  assumes "x < 8192"
  shows "((if m then 8192 else 0) OR x) AND 8191 = x" "((if m then 8192 else 0) OR x) AND 8192 \<noteq> 0 \<longleftrightarrow> m"
    "((if m then 8192 else 0) OR x) < (65536 :: nat)"
proof -
  have mask: "n AND 8191 = take_bit 13 n" for n :: nat
    using take_bit_eq_mask [of 13 n] by (simp add: mask_eq_exp_minus_1)
  have x: "take_bit 13 x = x" using assms by (simp add: take_bit_nat_eq_self)
  show "((if m then 8192 else 0) OR x) AND 8191 = x"
    using x by (simp add: mask take_bit_or take_bit_eq_mod [of 13 8192])
  have "\<not> bit x 13" using x by (metis bit_take_bit_iff less_irrefl_nat)
  have "bit ((if m then 8192 else 0) OR x) 13 \<longleftrightarrow> m"
  proof -
    have "bit (8192 :: nat) 13" by (simp add: bit_iff_odd)
    with \<open>\<not> bit x 13\<close> show ?thesis by (cases m) (simp_all add: bit_or_iff)
  qed
  moreover have "n AND 8192 \<noteq> 0 \<longleftrightarrow> bit n 13" for n :: nat
    using and_exp_eq_0_iff_not_bit [of n 13] by simp
  ultimately show "((if m then 8192 else 0) OR x) AND 8192 \<noteq> 0 \<longleftrightarrow> m" by simp
  have "take_bit 16 ((if m then 8192 else 0) OR x) = ((if m then 8192 else 0) OR x)"
    using assms by (simp add: take_bit_or take_bit_nat_eq_self)
  then show "((if m then 8192 else 0) OR x) < (65536 :: nat)"
    using take_bit_nat_less_exp [of 16 "(if m then 8192 else 0) OR x"] by simp
qed

lemma traverse_map: "(\<And>x. x \<in> set xs \<Longrightarrow> f x = Some (Inr (g x))) \<Longrightarrow> traverse f xs = Some (Inr (map g xs))"
  by (induction xs) simp_all

text \<open>
  The pieces a payload is sent in: start, end and the flags word, one unfragmented piece when it fits.
\<close>

definition pieces :: "bytes \<Rightarrow> (nat \<times> nat \<times> nat) list" where
  "pieces payload =
     (if length payload \<le> 1480 then [(0, length payload, 16384)]
      else map (\<lambda>(a, e). (a, e, (if e < length payload then 8192 else 0) OR a div 8)) (fragment_offsets 0 (length payload)))"

lemma send_ip_pieces:
  assumes "length mac = 6" and "length payload \<le> 65515"
  shows "send_ip mac src dst protocol payload identifier =
    Some (Inr (map (\<lambda>(a, e, ffo). ip_frame mac src dst protocol (subarray payload a e) (identifier AND 65535) ffo) (pieces payload)))"
proof (cases "length payload \<le> 1480")
  case True
  with assms show ?thesis by (simp add: send_ip_def pieces_def ip_packet_frame Let_def)
next
  case False
  let ?g = "\<lambda>(a, e). ip_frame mac src dst protocol (subarray payload a e) (identifier AND 65535)
      ((if e < length payload then 8192 else 0) OR a div 8)"
  have "traverse (\<lambda>(offset, end). ip_packet mac src dst protocol (subarray payload offset end) (identifier AND 65535)
      ((if end < length payload then 8192 else 0) OR offset div 8)) (fragment_offsets 0 (length payload)) =
    Some (Inr (map ?g (fragment_offsets 0 (length payload))))"
    by (rule traverse_map) (auto simp: ip_packet_frame assms(1))
  moreover have "map (\<lambda>(a, e, ffo). ip_frame mac src dst protocol (subarray payload a e) (identifier AND 65535) ffo) (pieces payload)
      = map ?g (fragment_offsets 0 (length payload))"
    using False by (auto simp: pieces_def)
  ultimately show ?thesis using False assms(2) by (simp add: send_ip_def Let_def)
qed

section \<open>DNS messages\<close>

lemma utf8_lossy_ascii: "b < 128 \<Longrightarrow> utf8_lossy_run 0 128 191 [] (b # bs) = b # utf8_lossy_run 0 128 191 [] bs"
  by (subst utf8_lossy_run.simps(2)) simp

lemma utf8_lossy_lead:
  "\<not> b < 128 \<Longrightarrow> 194 \<le> b \<Longrightarrow> b \<le> 223 \<Longrightarrow> utf8_lossy_run 0 128 191 [] (b # bs) = utf8_lossy_run 1 128 191 [b] bs"
  "\<not> b < 128 \<Longrightarrow> \<not> (194 \<le> b \<and> b \<le> 223) \<Longrightarrow> 224 \<le> b \<Longrightarrow> b \<le> 239 \<Longrightarrow> utf8_lossy_run 0 128 191 [] (b # bs) =
     utf8_lossy_run 2 (if b = 224 then 160 else 128) (if b = 237 then 159 else 191) [b] bs"
  "\<not> b < 128 \<Longrightarrow> \<not> (194 \<le> b \<and> b \<le> 223) \<Longrightarrow> \<not> (224 \<le> b \<and> b \<le> 239) \<Longrightarrow> 240 \<le> b \<Longrightarrow> b \<le> 244 \<Longrightarrow>
     utf8_lossy_run 0 128 191 [] (b # bs) =
     utf8_lossy_run 3 (if b = 240 then 144 else 128) (if b = 244 then 143 else 191) [b] bs"
  by (subst utf8_lossy_run.simps(2), simp only: if_True if_False simp_thms)+

lemma utf8_lossy_next:
  "lower \<le> b \<Longrightarrow> b \<le> upper \<Longrightarrow> utf8_lossy_run 1 lower upper seen (b # bs) = (seen @ [b]) @ utf8_lossy_run 0 128 191 [] bs"
  "lower \<le> b \<Longrightarrow> b \<le> upper \<Longrightarrow> utf8_lossy_run 2 lower upper seen (b # bs) = utf8_lossy_run 1 128 191 (seen @ [b]) bs"
  "lower \<le> b \<Longrightarrow> b \<le> upper \<Longrightarrow> utf8_lossy_run 3 lower upper seen (b # bs) = utf8_lossy_run 2 128 191 (seen @ [b]) bs"
  by (subst utf8_lossy_run.simps(2), simp)+

lemma utf8_lossy_valid: "utf8_valid bs \<Longrightarrow> utf8_lossy_run 0 128 191 [] bs = bs"
proof (induction bs rule: utf8_valid.induct)
  case (2 a bs)
  have "a < 128 \<or> (194 \<le> a \<and> a \<le> 223) \<or> (224 \<le> a \<and> a \<le> 239) \<or> (240 \<le> a \<and> a \<le> 244)"
  proof (rule ccontr)
    assume none: "\<not> ?thesis"
    have "\<not> utf8_valid (a # bs)" unfolding utf8_valid.simps(2) using none by (simp only: if_False de_Morgan_disj not_False_eq_True)
    with "2.prems" show False by blast
  qed
  then consider "a < 128" | "\<not> a < 128" "194 \<le> a" "a \<le> 223" | "\<not> a < 128" "224 \<le> a" "a \<le> 239"
    | "\<not> a < 128" "240 \<le> a" "a \<le> 244"
    by blast
  then show ?case
  proof cases
    case 1
    with 2 show ?thesis by (simp add: utf8_lossy_ascii)
  next
    case 2
    then obtain b r where bs: "bs = b # r" "utf8_cont b" "utf8_valid r"
      using "2.prems" by (auto split: list.splits)
    then have "utf8_lossy_run 0 128 191 [] r = r" using "2.IH"(2) 2 by auto
    with 2 bs show ?thesis by (simp add: utf8_cont_def utf8_lossy_lead(1) utf8_lossy_next(1) [unfolded One_nat_def])
  next
    case 3
    then have not: "\<not> (194 \<le> a \<and> a \<le> 223)" by (auto simp: word_le_nat_alt)
    with 3 "2.prems" obtain b c r where bs: "bs = b # c # r" "utf8_cont c" "utf8_valid r"
      and b: "if a = 224 then 160 \<le> b \<and> b \<le> 191 else if a = 237 then 128 \<le> b \<and> b \<le> 159 else utf8_cont b"
      by (auto split: list.splits if_splits)
    then have "utf8_lossy_run 0 128 191 [] r = r" using "2.IH"(3) 3 not by auto
    with 3 not bs b show ?thesis 
      by (cases "a = 224"; cases "a = 237")
        (simp_all add: utf8_cont_def utf8_lossy_lead(2) utf8_lossy_next [unfolded One_nat_def])
  next
    case 4
    then have not: "\<not> (194 \<le> a \<and> a \<le> 223)" "\<not> (224 \<le> a \<and> a \<le> 239)" by (auto simp: word_le_nat_alt)
    with 4 "2.prems" obtain b c d r where bs: "bs = b # c # d # r" "utf8_cont c" "utf8_cont d" "utf8_valid r"
      and b: "if a = 240 then 144 \<le> b \<and> b \<le> 191 else if a = 244 then 128 \<le> b \<and> b \<le> 143 else utf8_cont b"
      by (auto split: list.splits if_splits)
    then have "utf8_lossy_run 0 128 191 [] r = r" using "2.IH"(4) 4 not by auto
    with 4 not bs b show ?thesis 
      by (cases "a = 240"; cases "a = 244")
        (simp_all add: utf8_cont_def utf8_lossy_lead(3) utf8_lossy_next [unfolded One_nat_def])
  qed
qed simp

lemma text_decode_valid: "utf8_valid bs \<Longrightarrow> take 3 bs \<noteq> [239, 187, 191] \<Longrightarrow> text_decode bs = bs"
  by (simp add: text_decode_def strip_bom_def utf8_lossy_valid)

definition dns_name :: "bytes list \<Rightarrow> bytes" where
  "dns_name labels = concat (map (\<lambda>l. of_nat (length l) # l) labels) @ [0]"

definition label_ok :: "bytes \<Rightarrow> bool" where
  "label_ok l \<longleftrightarrow> 0 < length l \<and> length l < 64"

lemma label_bits: "list_all (\<lambda>n :: nat. n AND 192 = 0) [0..<64]"
  by code_simp

lemma label_length: "label_ok l \<Longrightarrow> unat (of_nat (length l) :: byte) = length l \<and> length l AND 192 = 0"
  using label_bits by (simp add: label_ok_def unat_byte_of_nat list_all_iff del: upt.simps)

lemma dns_labels_name:
  "\<forall>l \<in> set labels. label_ok l \<Longrightarrow> packet = pre @ dns_name labels @ post \<Longrightarrow>
   dns_labels packet (length pre) acc = Inr (acc @ map text_decode labels, length pre + length (dns_name labels))"
proof (induction labels arbitrary: pre acc)
  case Nil
  then show ?case by (subst dns_labels.simps) (simp add: dns_name_def)
next
  case (Cons l labels)
  let ?pre = "pre @ (of_nat (length l) # l)"
  have packet: "packet = ?pre @ dns_name labels @ post" using Cons.prems(2) by (simp add: dns_name_def)
  have len: "unat (of_nat (length l) :: byte) = length l" "length l AND 192 = 0" "0 < length l"
    using label_length [of l] Cons.prems(1) by (simp_all add: label_ok_def)
  have at: "packet ! length pre = of_nat (length l)" "length pre < length packet"
    "length pre + 1 + length l \<le> length packet" using packet by (simp_all add: nth_append)
  have sub: "subarray packet (length pre + 1) (length pre + 1 + length l) = l" using packet by (simp add: subarray_def)
  have "dns_labels packet (length pre) acc = dns_labels packet (length ?pre) (acc @ [text_decode l])"
    using len at sub by (subst dns_labels.simps) (simp add: Let_def)
  also have "\<dots> = Inr ((acc @ [text_decode l]) @ map text_decode labels, length ?pre + length (dns_name labels))"
    using Cons.prems(1) packet by (intro Cons.IH) simp_all
  finally show ?case by (simp add: dns_name_def)
qed

lemma decode_dns_name_name:
  assumes "\<forall>l \<in> set labels. label_ok l"
  shows "decode_dns_name (pre @ dns_name labels @ post) (length pre) =
    Inr (join_bytes [46] (map text_decode labels), length pre + length (dns_name labels))"
  using dns_labels_name [OF assms refl, of pre post "[]"] by (simp add: decode_dns_name_def)

lemma alloc_set_encode:
  assumes "bb_array b = A @ replicate (ty_size t) 0 @ B" and "ty_encode t v = Inr bs"
  shows "alloc_set b t (length A) v = Inr (b\<lparr>bb_array := A @ bs @ B\<rparr>)"
  using ty_set_encode [OF assms(1) refl, of v] assms(2) by (simp add: alloc_set_def)

definition dns_answer :: "nat \<Rightarrow> bytes" where
  "dns_answer n = scalar_encode U16BE 49164 @ scalar_encode U16BE 1 @ scalar_encode U16BE 1 @ scalar_encode U32BE 60 @
     scalar_encode U16BE 4 @ scalar_encode U32BE (int n)"

lemma dns_answers_append:
  "growable b \<Longrightarrow> list_all2 (\<lambda>a n. ipv4_number a = Inr n) addresses ns \<Longrightarrow>
   \<exists>b'. dns_answers addresses b = Some (Inr b') \<and> bytes_array b' = bytes_array b @ concat (map dns_answer ns)"
proof (induction addresses arbitrary: b ns)
  case (Cons a addresses)
  then obtain n ms where ns: "ns = n # ms" "ipv4_number a = Inr n" "list_all2 (\<lambda>a n. ipv4_number a = Inr n) addresses ms"
    by (auto simp: list_all2_Cons1)
  let ?v = "Obj [(''name'', Num 49164), (''type'', Num 1), (''klass'', Num 1), (''ttl'', Num 60), (''length'', Num 4),
     (''address'', Num (int n))]"
  have "ty_encode (Struct DnsIpv4Answer) ?v = Inr (dns_answer n)"
    by (rule struct_encode) (simp_all, simp add: DnsIpv4Answer_def dns_answer_def)
  from bytes_put_works [OF Cons.prems(1) this] obtain b1 where
    b1: "bytes_put b (Struct DnsIpv4Answer) ?v = Some (Inr b1)" "growable b1" "bytes_array b1 = bytes_array b @ dns_answer n"
    by blast
  have "dns_answers (a # addresses) b = bindR (bytes_put b (Struct DnsIpv4Answer) ?v) (dns_answers addresses)"
    using ns(2) by (auto simp: bytes_put_def split: option.split)
  with Cons.IH [OF b1(2) ns(3)] b1 ns(1) show ?case by auto
qed auto

lemma dns_answers_invalid:
  "growable b \<Longrightarrow> a \<in> set addresses \<Longrightarrow> ipv4_number a = Inl e \<Longrightarrow>
   \<exists>e'. dns_answers addresses b = Some (Inl e')"
proof (induction addresses arbitrary: b)
  case (Cons a' addresses)
  obtain b1 where b1: "bytes_alloc b (Struct DnsIpv4Answer) = Some (bb_length b, b1)"
    using bytes_bump_works [of b "ty_size (Struct DnsIpv4Answer)"] Cons.prems(1)
    by (auto simp: bytes_alloc_def growable_def)
  show ?case
  proof (cases "ipv4_number a'")
    case (Inl e1)
    with b1 show ?thesis by simp
  next
    case (Inr n)
    let ?v = "Obj [(''name'', Num 49164), (''type'', Num 1), (''klass'', Num 1), (''ttl'', Num 60), (''length'', Num 4),
       (''address'', Num (int n))]"
    have "ty_encode (Struct DnsIpv4Answer) ?v = Inr (dns_answer n)"
      by (rule struct_encode) (simp_all, simp add: DnsIpv4Answer_def dns_answer_def)
    from bytes_put_works [OF Cons.prems(1) this] obtain b2 where
      b2: "bytes_put b (Struct DnsIpv4Answer) ?v = Some (Inr b2)" "growable b2" by blast
    have "dns_answers (a' # addresses) b = bindR (bytes_put b (Struct DnsIpv4Answer) ?v) (dns_answers addresses)"
      using Inr by (auto simp: bytes_put_def split: option.split)
    moreover have "a \<in> set addresses" using Cons.prems(2,3) Inr by auto
    ultimately show ?thesis using Cons.IH [OF b2(2)] Cons.prems(3) b2(1) by simp
  qed
qed simp

definition dns_head :: "nat \<Rightarrow> nat \<Rightarrow> bytes" where
  "dns_head ident n = scalar_encode U16BE (int ident) @ scalar_encode U16BE 33152 @ scalar_encode U16BE 1 @
     scalar_encode U16BE (int n) @ scalar_encode U16BE 0 @ scalar_encode U16BE 0"

lemma dns_head_encode:
  "ty_encode (Struct DnsHeader) (Obj [(''id'', Num (int ident)), (''flags'', Num 33152), (''question_count'', Num 1),
     (''answer_count'', Num (int n)), (''authority_count'', Num 0), (''additional_count'', Num 0)]) = Inr (dns_head ident n)"
  by (rule struct_encode) (simp_all, simp add: DnsHeader_def dns_head_def)

text \<open>The reply to a well-formed query: the same question, and one answer per address of an A query.\<close>

lemma dns_response_works:
  assumes query: "query = hdr @ dns_name labels @ footer @ rest" "length hdr = 12" "length footer = 4"
    and labels: "\<forall>l \<in> set labels. label_ok l"
    and head: "get_num DnsHeader (whole_view query) ''question_count'' = Inr 1"
      "get_num DnsHeader (whole_view query) ''id'' = Inr ident"
    and foot: "get_num DnsQuestionFooter (whole_view (footer @ rest)) ''type'' = Inr type"
      "get_num DnsQuestionFooter (whole_view (footer @ rest)) ''klass'' = Inr klass"
    and ns: "list_all2 (\<lambda>a n. ipv4_number a = Inr n) (if type = 1 \<and> klass = 1 then addresses else []) ns"
  shows "dns_response query addresses =
    Some (Inr (dns_head ident (length ns) @ dns_name labels @ footer @ concat (map dns_answer ns)))"
proof -
  let ?as = "if type = 1 \<and> klass = 1 then addresses else []" and ?q = "dns_name labels @ footer"
  let ?stop = "12 + length (dns_name labels)"
  have name: "decode_dns_name query 12 = Inr (join_bytes [46] (map text_decode labels), ?stop)"
    using decode_dns_name_name [OF labels, of hdr "footer @ rest"] query by simp
  have drop: "drop ?stop query = footer @ rest" using query by simp
  have sub: "subarray query 12 (?stop + 4) = ?q" using query by (simp add: subarray_def)
  have cap: "growable (new_bytes (?stop + 4 + length ?as * 16))" by (simp add: new_bytes_growable)
  have "bytes_ok (new_bytes (?stop + 4 + length ?as * 16))" "0 < bytes_capacity (new_bytes (?stop + 4 + length ?as * 16))"
    using cap by (simp_all add: growable_def)
  from bytes_bump_works [OF this(1), of 12] this(2) obtain b1 m where
    b1: "bytes_bump (new_bytes (?stop + 4 + length ?as * 16)) 12 = Some (0, b1)" "bb_length b1 = 12"
    "bb_array b1 = replicate 12 0 @ replicate m 0" "bytes_capacity (new_bytes (?stop + 4 + length ?as * 16)) \<le> bytes_capacity b1"
    by (auto simp: new_bytes_def bytes_array_def)
  have "growable b1"
    using bytes_okI(1) [of b1 "replicate 12 0" m] b1 cap by (simp add: growable_def)
  moreover have arr1: "bytes_array b1 = replicate 12 0" using b1 by (simp add: bytes_array_def)
  ultimately obtain b2 where
    b2: "append_bytes b1 ?q = Some (Inr b2)" "growable b2" "bytes_array b2 = replicate 12 0 @ ?q"
    using append_bytes_works [of b1 ?q] by auto
  let ?tail = "?q @ replicate (length (bb_array b2) - bb_length b2) 0"
  have dns12: "ty_size (Struct DnsHeader) = 12" using layout_sizes(6) by (simp only: layout_size_def)
  have arr2: "bb_array b2 = [] @ replicate (ty_size (Struct DnsHeader)) 0 @ ?tail"
    unfolding dns12 using bytes_ok_split [of b2] b2(2,3) by (simp add: growable_def)
  let ?b3 = "b2\<lparr>bb_array := dns_head ident (length ?as) @ ?tail\<rparr>"
  have b3: "alloc_set b2 (Struct DnsHeader) 0 (Obj [(''id'', Num (int ident)), (''flags'', Num 33152), (''question_count'', Num 1),
     (''answer_count'', Num (int (length ?as))), (''authority_count'', Num 0), (''additional_count'', Num 0)]) = Inr ?b3"
    using alloc_set_encode [OF arr2 dns_head_encode] by simp
  have "bb_length b2 = 12 + length ?q" using length_bytes_array [of b2] b2(2,3) by (simp add: growable_def)
  then have parts: "bytes_ok ?b3" "bytes_array ?b3 = dns_head ident (length ?as) @ ?q"
    by (intro bytes_okI(1) [where xs = "dns_head ident (length ?as) @ ?q"]
        bytes_okI(2) [where xs = "dns_head ident (length ?as) @ ?q"]; simp add: dns_head_def)+
  then have "growable ?b3" by (simp add: growable_def bytes_capacity_def dns_head_def)
  from dns_answers_append [OF this ns] obtain b4 where
    b4: "dns_answers ?as ?b3 = Some (Inr b4)" "bytes_array b4 = (dns_head ident (length ?as) @ ?q) @ concat (map dns_answer ns)"
    using parts(2) by auto
  have "length ?as = length ns" using ns by (rule list_all2_lengthD)
  with b1(1) b2(1) b3 b4 head foot name drop sub show ?thesis
    unfolding dns_response_def using query
    by (simp add: bytes_alloc_def dns12 Let_def del: ty_size.simps)
qed

section \<open>Properties\<close>

text \<open>
  The dotted notation of IPv4 addresses is exact in both directions: every 32-bit address is read back
  from its notation, and an accepted string is the notation of the address it denotes, so no two strings
  name the same address.
\<close>

theorem ipv4_notation:
  assumes "a < 2 ^ 32"
  shows "ipv4_number (ipv4_string a) = Inr a \<and> (ipv4_number s = Inr a \<longrightarrow> s = ipv4_string a)"
  using ipv4_number_string [OF assms] ipv4_string_number by blast

theorem ipv4_notation_witness: "ipv4_number (ipv4_string 3221225985) = Inr 3221225985 \<and> ipv4_string 3221225985 = ''192.0.2.1''"
proof -
  have "ipv4_number ''192.0.2.1'' = Inr 3221225985"
    using four_octets [of 192 0 2 1] by (simp add: decimal.simps char_of_def bit_0)
  with ipv4_notation [of 3221225985 "''192.0.2.1''"] show ?thesis by simp
qed

text \<open>
  C26: a TCP segment the network builds always exists, passes the receiver's checksum test over the pseudo
  header, and is parsed back to the same ports, sequence numbers, flags, window and payload; the same holds
  of a UDP datagram, which carries no checksum.
\<close>

theorem transport_roundtrip:
  assumes "sp < 65536" "dp < 65536" "flags < 256" "window < 65536" "length payload \<le> 65495"
  shows "\<exists>segment datagram.
    tcp_segment_bytes src dst sp dp seq ack flags payload window = Some (Inr segment) \<and>
    checksum [pseudo_header src dst (length segment), segment] = 0 \<and>
    parse_tcp segment = Inr (Some \<lparr>ts_source_port = sp, ts_destination_port = dp, ts_sequence = seq,
      ts_acknowledgement = ack, ts_flags = flags, ts_window = window, ts_payload = payload\<rparr>) \<and>
    udp_datagram_bytes sp dp payload = Some (Inr datagram) \<and>
    parse_udp datagram = Inr (Some \<lparr>ud_source_port = sp, ud_destination_port = dp, ud_payload = payload\<rparr>)"
proof -
  have "length (tcp_bytes src dst sp dp seq ack flags payload window) = 20 + length payload"
    by (simp add: tcp_bytes_def Let_def)
  with assms show ?thesis
    by (simp add: tcp_segment_bytes_eq udp_datagram_bytes_eq parse_tcp_bytes parse_udp_bytes tcp_bytes_verifies)
qed

theorem transport_roundtrip_witness:
  "\<exists>segment. tcp_segment_bytes GATEWAY_IP 3221225986 80 49152 7 9 TCP_ACK [1, 2, 3] 65535 = Some (Inr segment) \<and>
     checksum [pseudo_header GATEWAY_IP 3221225986 (length segment), segment] = 0"
  using transport_roundtrip [of 80 49152 TCP_ACK 65535 "[1, 2, 3]" GATEWAY_IP 3221225986 7 9]
  by (auto simp: TCP_ACK_def)

text \<open>
  A well-formed DNS query with one question is always answered: the reply carries the query's
  identifier and question, and for an A query of the Internet class one answer record per address, in
  order; an address that is not a dotted IPv4 address makes the reply fail instead of being sent.
\<close>

theorem dns_reply:
  assumes "query = hdr @ dns_name labels @ footer @ rest" "length hdr = 12" "length footer = 4"
    and "\<forall>l \<in> set labels. label_ok l"
    and "get_num DnsHeader (whole_view query) ''question_count'' = Inr 1"
    and "get_num DnsHeader (whole_view query) ''id'' = Inr ident"
    and "get_num DnsQuestionFooter (whole_view (footer @ rest)) ''type'' = Inr type"
    and "get_num DnsQuestionFooter (whole_view (footer @ rest)) ''klass'' = Inr klass"
    and "list_all2 (\<lambda>a n. ipv4_number a = Inr n) (if type = 1 \<and> klass = 1 then addresses else []) ns"
  shows "decode_dns_name query 12 = Inr (join_bytes [46] (map text_decode labels), 12 + length (dns_name labels)) \<and>
    dns_response query addresses =
      Some (Inr (dns_head ident (length ns) @ dns_name labels @ footer @ concat (map dns_answer ns)))"
  using dns_response_works [OF assms] decode_dns_name_name [OF assms(4), of hdr "footer @ rest"] assms(1,2) by simp

definition demo_query :: bytes where
  "demo_query = [18, 52, 1, 0, 0, 1, 0, 0, 0, 0, 0, 0] @ dns_name [[97, 98], [99]] @ [0, 1, 0, 1] @ []"

theorem dns_reply_witness:
  "decode_dns_name demo_query 12 = Inr ([97, 98, 46, 99], 18) \<and>
   (\<exists>reply. dns_response demo_query [ipv4_string 3221225985] = Some (Inr reply) \<and> length reply = 38)"
proof -
  have ev: "\<forall>l \<in> set [[97, 98], [99 :: byte]]. label_ok l"
    "get_num DnsHeader (whole_view demo_query) ''question_count'' = Inr 1"
    "get_num DnsHeader (whole_view demo_query) ''id'' = Inr 4660"
    "get_num DnsQuestionFooter (whole_view ([0, 1, 0, 1] @ [])) ''type'' = Inr 1"
    "get_num DnsQuestionFooter (whole_view ([0, 1, 0, 1] @ [])) ''klass'' = Inr 1"
    "map text_decode [[97, 98], [99]] = [[97, 98], [99]]"
    by code_simp+
  have "list_all2 (\<lambda>a n. ipv4_number a = Inr n) (if (1::nat) = 1 \<and> (1::nat) = 1 then [ipv4_string 3221225985] else []) [3221225985]"
    by (simp add: ipv4_number_string)
  from dns_reply [OF demo_query_def _ _ ev(1-5) this] ev(6) show ?thesis
    by (simp add: dns_name_def dns_head_def dns_answer_def)
qed

end
