(* ===== verification/Ip_Reassembly.thy ===== *)
theory Ip_Reassembly
  imports Ip_Packet
begin

text \<open>
  The reassembly of IPv4 fragments in \<open>packages/linux-guest/src/network.ts\<close>.  The map of partial
  datagrams keeps its insertion order, because the oldest one is given up when 64 are open.  Every
  open reassembly has a running timer, which expires as \<open>discard_ip_reassembly\<close> of its key.
\<close>

section \<open>State and operations\<close>

type_synonym piece = "nat \<times> bytes"

record ip_reassembly =
  ra_source :: nat
  ra_destination :: nat
  ra_protocol :: nat
  ra_fragments :: "piece list"
  ra_total_length :: "nat option"

type_synonym reassemblies = "(string \<times> ip_reassembly) list"

definition ip_reassembly_key :: "ip_fragment \<Rightarrow> string" where
  "ip_reassembly_key f = join '':'' (map decimal [if_source f, if_destination f, if_protocol f, if_identification f])"

definition discard_ip_reassembly :: "string \<Rightarrow> reassemblies \<Rightarrow> reassemblies" where
  "discard_ip_reassembly key rs = filter (\<lambda>x. fst x \<noteq> key) rs"

definition as_datagram :: "ip_fragment \<Rightarrow> ip_datagram" where
  "as_datagram f = \<lparr>id_source = if_source f, id_destination = if_destination f, id_protocol = if_protocol f,
     id_payload = if_payload f\<rparr>"

definition new_reassembly :: "ip_fragment \<Rightarrow> ip_reassembly" where
  "new_reassembly f = \<lparr>ra_source = if_source f, ra_destination = if_destination f, ra_protocol = if_protocol f,
     ra_fragments = [], ra_total_length = None\<rparr>"

text \<open>The entry of a fragment: the one there is, or a new one, for which the oldest may have to go.\<close>

definition open_reassembly :: "ip_fragment \<Rightarrow> reassemblies \<Rightarrow> ip_reassembly \<times> reassemblies" where
  "open_reassembly f rs = (case map_of rs (ip_reassembly_key f) of
       Some r \<Rightarrow> (r, rs)
     | None \<Rightarrow>
         let rs1 = (if length rs = MAX_IP_REASSEMBLIES then discard_ip_reassembly (fst (hd rs)) rs else rs)
         in (new_reassembly f, rs1 @ [(ip_reassembly_key f, new_reassembly f)]))"

fun find_index :: "('a \<Rightarrow> bool) \<Rightarrow> 'a list \<Rightarrow> nat option" where
  "find_index P [] = None"
| "find_index P (x # xs) = (if P x then Some 0 else map_option Suc (find_index P xs))"

definition piece_end :: "piece \<Rightarrow> nat" where
  "piece_end p = fst p + length (snd p)"

datatype insertion = Overlaps | Duplicate | Inserted "piece list"

text \<open>Where a fragment goes among those that are there, which are sorted and do not overlap.\<close>

definition insert_piece :: "piece \<Rightarrow> piece list \<Rightarrow> insertion" where
  "insert_piece p ps =
     (let i = find_index (\<lambda>c. fst p < piece_end c) ps;
          next = (case i of None \<Rightarrow> None | Some n \<Rightarrow> Some (ps ! n));
          previous = (case i of
              None \<Rightarrow> (if ps = [] then None else Some (last ps))
            | Some n \<Rightarrow> (if n = 0 then None else Some (ps ! (n - 1))))
      in if (case previous of None \<Rightarrow> False | Some q \<Rightarrow> fst p < piece_end q)
            \<or> (case next of None \<Rightarrow> False | Some q \<Rightarrow> piece_end p > fst q)
         then (case find (\<lambda>c. fst c = fst p \<and> length (snd c) = length (snd p)) ps of
                 Some q \<Rightarrow> if snd q = snd p then Duplicate else Overlaps
               | None \<Rightarrow> Overlaps)
         else let n = (case i of None \<Rightarrow> length ps | Some n \<Rightarrow> n) in Inserted (take n ps @ [p] @ drop n ps))"

text \<open>The length covered from zero without a gap, if there is none.\<close>

fun contiguous :: "nat \<Rightarrow> piece list \<Rightarrow> nat option" where
  "contiguous n [] = Some n"
| "contiguous n (p # ps) = (if fst p \<noteq> n then None else contiguous (n + length (snd p)) ps)"

definition assemble :: "nat \<Rightarrow> piece list \<Rightarrow> bytes" where
  "assemble n ps = foldl (\<lambda>bs p. overwrite bs (fst p) (snd p)) (replicate n 0) ps"

definition reassemble_ip :: "ip_fragment \<Rightarrow> reassemblies \<Rightarrow> reassemblies \<times> ip_datagram option" where
  "reassemble_ip f rs0 =
     (let key = ip_reassembly_key f
      in if if_offset f = 0 \<and> \<not> if_more f then (discard_ip_reassembly key rs0, Some (as_datagram f))
         else
           let (r, rs) = open_reassembly f rs0;
               end = if_offset f + length (if_payload f);
               dropped = (discard_ip_reassembly key rs, None)
           in if (if_offset f = 0 \<and> end + if_header_length f > 65535)
                 \<or> (case ra_total_length r of None \<Rightarrow> False | Some t \<Rightarrow> end > t) then dropped
              else case insert_piece (if_offset f, if_payload f) (ra_fragments r) of
                Duplicate \<Rightarrow> (rs, None)
              | Overlaps \<Rightarrow> dropped
              | Inserted ps \<Rightarrow>
                  if length (ra_fragments r) = MAX_IP_FRAGMENTS then dropped
                  else if \<not> if_more f \<and> (case ra_total_length r of None \<Rightarrow> False | Some t \<Rightarrow> t \<noteq> end) then dropped
                  else if \<not> if_more f \<and> list_ex (\<lambda>c. fst c \<ge> end) ps then dropped
                  else
                    let t = (if if_more f then ra_total_length r else Some end);
                        rs1 = AList.update key (r\<lparr>ra_fragments := ps, ra_total_length := t\<rparr>) rs
                    in case t of
                         None \<Rightarrow> (rs1, None)
                       | Some n \<Rightarrow>
                           if contiguous 0 ps = Some n then
                             (discard_ip_reassembly key rs1,
                              Some \<lparr>id_source = ra_source r, id_destination = ra_destination r,
                                    id_protocol = ra_protocol r, id_payload = assemble n ps\<rparr>)
                           else (rs1, None))"

text \<open>The way of a frame to a datagram: the first half of \<open>receive_frame\<close>.\<close>

definition ip_input :: "bytes \<Rightarrow> reassemblies \<Rightarrow> reassemblies \<times> ip_datagram option" where
  "ip_input frame rs = (case parse_ip frame of
       Inr (Some f) \<Rightarrow> reassemble_ip f rs
     | _ \<Rightarrow> (rs, None))"

section \<open>Sorted pieces\<close>

fun tiled :: "nat \<Rightarrow> piece list \<Rightarrow> bool" where
  "tiled n [] \<longleftrightarrow> True"
| "tiled n (p # ps) \<longleftrightarrow> fst p = n \<and> snd p \<noteq> [] \<and> tiled (piece_end p) ps"

definition covered :: "piece list \<Rightarrow> nat" where
  "covered ps = sum_list (map (length \<circ> snd) ps)"

lemma covered_simps [simp]:
  "covered [] = 0" "covered (p # ps) = length (snd p) + covered ps" "covered (xs @ ys) = covered xs + covered ys"
  by (simp_all add: covered_def)

lemma tiled_append: "tiled n (xs @ ys) \<longleftrightarrow> tiled n xs \<and> tiled (n + covered xs) ys"
  by (induction xs arbitrary: n) (auto simp: piece_end_def add.assoc)

lemma tiled_bounds: "tiled n ps \<Longrightarrow> p \<in> set ps \<Longrightarrow> n \<le> fst p \<and> fst p < piece_end p \<and> piece_end p \<le> n + covered ps"
  by (induction ps arbitrary: n) (fastforce simp: piece_end_def)+

lemma tiled_around:
  assumes "tiled n (xs @ p # ys)"
  shows "q \<in> set xs \<Longrightarrow> piece_end q \<le> fst p" "q \<in> set ys \<Longrightarrow> piece_end p \<le> fst q"
  using assms tiled_bounds [of n xs q] tiled_bounds [of "n + covered xs + length (snd p)" ys q]
  by (auto simp: tiled_append piece_end_def)

lemma find_index_none: "(\<And>x. x \<in> set xs \<Longrightarrow> \<not> P x) \<Longrightarrow> find_index P (xs @ ys) = map_option ((+) (length xs)) (find_index P ys)"
  by (induction xs) (cases "find_index P ys"; simp add: option.map_ident)+

lemma insert_piece_new:
  assumes xs: "\<And>q. q \<in> set xs \<Longrightarrow> piece_end q \<le> fst p"
    and ys: "\<And>q. q \<in> set ys \<Longrightarrow> piece_end p \<le> fst q \<and> fst q < piece_end q" and p: "fst p < piece_end p"
  shows "insert_piece p (xs @ ys) = Inserted (xs @ p # ys)"
proof -
  have skip: "find_index (\<lambda>c. fst p < piece_end c) (xs @ ys) =
      map_option ((+) (length xs)) (find_index (\<lambda>c. fst p < piece_end c) ys)"
    using xs by (intro find_index_none) (simp add: not_less)
  have prev: "\<not> fst p < piece_end (last xs)" if "xs \<noteq> []" using xs [of "last xs"] that by (simp add: not_less)
  show ?thesis
  proof (cases ys)
    case Nil
    with skip prev show ?thesis by (auto simp: insert_piece_def Let_def)
  next
    case (Cons q qs)
    with ys [of q] p have q: "fst p < piece_end q" "\<not> piece_end p > fst q" by (auto simp del: length_greater_0_conv)
    have "(xs @ ys) ! (length xs - 1) = last xs" if "xs \<noteq> []"
      using that by (simp add: nth_append last_conv_nth)
    with skip q prev Cons show ?thesis
      by (auto simp: insert_piece_def Let_def nth_append)
  qed
qed

lemma insert_piece_old:
  assumes xs: "\<And>q. q \<in> set xs \<Longrightarrow> piece_end q \<le> fst p \<and> fst q < piece_end q" and p: "fst p < piece_end p"
  shows "insert_piece p (xs @ p # ys) = Duplicate"
proof -
  have skip: "find_index (\<lambda>c. fst p < piece_end c) (xs @ p # ys) = Some (length xs)"
    using xs p by (subst find_index_none) (auto simp: not_less)
  have "find (\<lambda>c. fst c = fst p \<and> length (snd c) = length (snd p)) (xs @ p # ys) = Some p"
    using xs by (induction xs) fastforce+
  with skip p show ?thesis by (simp add: insert_piece_def Let_def)
qed

lemma contiguous_tiled: "tiled n ps \<Longrightarrow> contiguous n ps = Some (n + covered ps)"
  by (induction ps arbitrary: n) (simp_all add: piece_end_def add.assoc)

lemma contiguous_covered: "contiguous n ps = Some m \<Longrightarrow> m = n + covered ps"
  by (induction ps arbitrary: n) (fastforce split: if_splits)+

lemma covered_filter:
  "\<forall>p \<in> set ps. snd (g p) \<noteq> [] \<Longrightarrow> covered (map g (filter S ps)) = covered (map g ps) \<Longrightarrow> filter S ps = ps"
proof (induction ps)
  case (Cons p ps)
  have "covered (map g (filter S ps)) \<le> covered (map g ps)" by (induction ps) auto
  with Cons show ?case by (auto split: if_splits)
qed simp

lemma assemble_tiled:
  assumes "tiled 0 ps"
  shows "assemble (covered ps) ps = concat (map snd ps)"
proof -
  have "tiled (length bs) ps \<Longrightarrow> foldl (\<lambda>bs p. overwrite bs (fst p) (snd p)) (bs @ replicate (covered ps) 0) ps = bs @ concat (map snd ps)"
    for bs
  proof (induction ps arbitrary: bs)
    case (Cons p ps)
    have "overwrite (bs @ replicate (covered (p # ps)) 0) (fst p) (snd p) = (bs @ snd p) @ replicate (covered ps) 0"
      using Cons.prems by (simp add: overwrite_def)
    with Cons.IH [of "bs @ snd p"] Cons.prems show ?case by (auto simp: piece_end_def)
  qed simp
  from this [of "[]"] assms show ?thesis by (simp add: assemble_def)
qed

lemma length_concat_covered: "length (concat (map snd ps)) = covered ps"
  by (induction ps) simp_all

section \<open>The fragments of one datagram\<close>

definition piece_of :: "ip_fragment \<Rightarrow> piece" where
  "piece_of f = (if_offset f, if_payload f)"

definition fragment_of :: "ip_datagram \<Rightarrow> nat \<Rightarrow> ip_fragment \<Rightarrow> bool" where
  "fragment_of d ident f \<longleftrightarrow> if_source f = id_source d \<and> if_destination f = id_destination d \<and>
     if_protocol f = id_protocol d \<and> if_identification f = ident \<and>
     (if_more f \<longleftrightarrow> piece_end (piece_of f) < length (id_payload d)) \<and>
     (if_offset f = 0 \<longrightarrow> piece_end (piece_of f) + if_header_length f \<le> 65535)"

text \<open>A datagram cut into at least two fragments, in order.\<close>

definition cut_of :: "ip_datagram \<Rightarrow> nat \<Rightarrow> ip_fragment list \<Rightarrow> bool" where
  "cut_of d ident fs \<longleftrightarrow> tiled 0 (map piece_of fs) \<and> concat (map if_payload fs) = id_payload d \<and>
     list_all (fragment_of d ident) fs \<and> 2 \<le> length fs \<and> length fs \<le> MAX_IP_FRAGMENTS"

definition key_of :: "ip_datagram \<Rightarrow> nat \<Rightarrow> string" where
  "key_of d ident = join '':'' (map decimal [id_source d, id_destination d, id_protocol d, ident])"

lemma cut_key: "cut_of d ident fs \<Longrightarrow> f \<in> set fs \<Longrightarrow> ip_reassembly_key f = key_of d ident"
  by (simp add: cut_of_def list_all_iff fragment_of_def ip_reassembly_key_def key_of_def)

lemma cut_covered: "cut_of d ident fs \<Longrightarrow> covered (map piece_of fs) = length (id_payload d)"
  using length_concat_covered [of "map piece_of fs"] by (simp add: cut_of_def comp_def piece_of_def)

lemma cut_around:
  assumes cut: "cut_of d ident (xs @ f # ys)"
  shows "g \<in> set xs \<Longrightarrow> piece_end (piece_of g) \<le> if_offset f \<and> if_offset g < piece_end (piece_of g)"
    and "g \<in> set ys \<Longrightarrow> piece_end (piece_of f) \<le> if_offset g \<and> if_offset g < piece_end (piece_of g)"
    and "if_offset f < piece_end (piece_of f)" "piece_end (piece_of f) \<le> length (id_payload d)"
    and "f \<notin> set xs" "f \<notin> set ys"
proof -
  have tiled: "tiled 0 (map piece_of xs @ piece_of f # map piece_of ys)" using cut by (simp add: cut_of_def)
  have bounds: "if_offset h < piece_end (piece_of h) \<and> piece_end (piece_of h) \<le> length (id_payload d)"
    if "h \<in> set (xs @ f # ys)" for h
    using tiled_bounds [OF tiled, of "piece_of h"] that cut_covered [OF cut] by (auto simp: piece_of_def)
  then show 1: "if_offset f < piece_end (piece_of f)" and "piece_end (piece_of f) \<le> length (id_payload d)" by simp_all
  show 2: "g \<in> set xs \<Longrightarrow> piece_end (piece_of g) \<le> if_offset f \<and> if_offset g < piece_end (piece_of g)" for g
    using tiled_around(1) [OF tiled, of "piece_of g"] bounds [of g] by (auto simp: piece_of_def)
  show 3: "g \<in> set ys \<Longrightarrow> piece_end (piece_of f) \<le> if_offset g \<and> if_offset g < piece_end (piece_of g)" for g
    using tiled_around(2) [OF tiled, of "piece_of g"] bounds [of g] by (auto simp: piece_of_def)
  show "f \<notin> set xs" "f \<notin> set ys" using 1 2 [of f] 3 [of f] by auto
qed

lemma cut_more:
  assumes cut: "cut_of d ident (xs @ f # ys)"
  shows "if_more f \<longleftrightarrow> ys \<noteq> []" "\<not> (if_offset f = 0 \<and> \<not> if_more f)"
proof -
  have more: "if_more f \<longleftrightarrow> piece_end (piece_of f) < length (id_payload d)"
    using cut by (simp add: cut_of_def fragment_of_def)
  have tiled: "tiled 0 (map piece_of xs @ piece_of f # map piece_of ys)" using cut by (simp add: cut_of_def)
  then have at: "if_offset f = covered (map piece_of xs)" by (simp add: tiled_append piece_of_def)
  have total: "length (id_payload d) = piece_end (piece_of f) + covered (map piece_of ys)"
    using cut_covered [OF cut] at by (simp add: piece_end_def piece_of_def)
  have pos: "0 < covered (map piece_of zs)" if "zs \<noteq> []" "set zs \<subseteq> set (xs @ f # ys)" for zs
  proof -
    obtain z zs' where z: "zs = z # zs'" using \<open>zs \<noteq> []\<close> by (cases zs) auto
    have "piece_of z \<in> set (map piece_of xs @ piece_of f # map piece_of ys)" using that z by auto
    from tiled_bounds [OF tiled this] show ?thesis by (simp add: z piece_end_def)
  qed
  show last: "if_more f \<longleftrightarrow> ys \<noteq> []" using more total pos [of ys] by auto
  show "\<not> (if_offset f = 0 \<and> \<not> if_more f)"
  proof
    assume first: "if_offset f = 0 \<and> \<not> if_more f"
    with last have "ys = []" by simp
    moreover have "xs = []" using first at pos [of xs] by auto
    ultimately show False using cut by (simp add: cut_of_def)
  qed
qed

text \<open>The entry of the datagram after the fragments in \<open>seen\<close> have arrived.\<close>

definition entry_of :: "ip_datagram \<Rightarrow> ip_fragment list \<Rightarrow> ip_fragment set \<Rightarrow> ip_reassembly \<Rightarrow> bool" where
  "entry_of d fs seen r \<longleftrightarrow> ra_source r = id_source d \<and> ra_destination r = id_destination d \<and> ra_protocol r = id_protocol d \<and>
     ra_fragments r = map piece_of (filter (\<lambda>f. f \<in> seen) fs) \<and>
     ra_total_length r = (if last fs \<in> seen then Some (length (id_payload d)) else None)"

definition collecting :: "ip_datagram \<Rightarrow> nat \<Rightarrow> ip_fragment list \<Rightarrow> ip_fragment set \<Rightarrow> reassemblies \<Rightarrow> bool" where
  "collecting d ident fs seen rs \<longleftrightarrow> seen \<subseteq> set fs \<and> seen \<noteq> set fs \<and>
     (case map_of rs (key_of d ident) of None \<Rightarrow> seen = {} | Some r \<Rightarrow> entry_of d fs seen r)"

lemma open_collecting:
  assumes cut: "cut_of d ident fs" and f: "f \<in> set fs" and col: "collecting d ident fs seen rs"
  shows "\<exists>r rs1. open_reassembly f rs = (r, rs1) \<and> map_of rs1 (key_of d ident) = Some r \<and> entry_of d fs seen r"
proof (cases "map_of rs (key_of d ident)")
  case (Some r)
  with col cut_key [OF cut f] show ?thesis by (simp add: open_reassembly_def collecting_def)
next
  case None
  let ?rs = "if length rs = MAX_IP_REASSEMBLIES then discard_ip_reassembly (fst (hd rs)) rs else rs"
  have "map_of ?rs (key_of d ident) = None"
    using None by (auto simp: discard_ip_reassembly_def map_of_eq_None_iff)
  moreover have "entry_of d fs {} (new_reassembly f)"
    using cut f by (simp add: cut_of_def list_all_iff fragment_of_def entry_of_def new_reassembly_def)
  ultimately show ?thesis
    using None col cut_key [OF cut f] by (auto simp: open_reassembly_def collecting_def Let_def map_add_Some_iff)
qed

lemma filter_insert_split:
  "f \<notin> set xs \<Longrightarrow> f \<notin> set ys \<Longrightarrow>
   filter (\<lambda>g. g \<in> insert f seen) (xs @ f # ys) = filter (\<lambda>g. g \<in> seen) xs @ f # filter (\<lambda>g. g \<in> seen) ys"
proof -
  assume "f \<notin> set xs" "f \<notin> set ys"
  then have "filter (\<lambda>g. g \<in> insert f seen) xs = filter (\<lambda>g. g \<in> seen) xs"
    "filter (\<lambda>g. g \<in> insert f seen) ys = filter (\<lambda>g. g \<in> seen) ys" by (auto intro!: filter_cong)
  then show ?thesis by simp
qed

text \<open>What the reassembly does with a fragment, once the entry is found.\<close>

lemma insert_seen:
  assumes cut: "cut_of d ident (xs @ f # ys)" and old: "f \<in> seen"
  shows "insert_piece (piece_of f) (map piece_of (filter (\<lambda>g. g \<in> seen) (xs @ f # ys))) = Duplicate"
proof -
  let ?A = "map piece_of (filter (\<lambda>g. g \<in> seen) xs)" and ?B = "map piece_of (filter (\<lambda>g. g \<in> seen) ys)"
  have "insert_piece (piece_of f) (?A @ piece_of f # ?B) = Duplicate"
    using cut_around(1) [OF cut] cut_around(3) [OF cut]
    by (intro insert_piece_old) (auto simp: piece_of_def)
  with old show ?thesis by simp
qed

lemma insert_unseen:
  assumes cut: "cut_of d ident (xs @ f # ys)" and new: "f \<notin> seen"
  shows "insert_piece (piece_of f) (map piece_of (filter (\<lambda>g. g \<in> seen) (xs @ f # ys))) =
    Inserted (map piece_of (filter (\<lambda>g. g \<in> insert f seen) (xs @ f # ys)))"
proof -
  let ?A = "map piece_of (filter (\<lambda>g. g \<in> seen) xs)" and ?B = "map piece_of (filter (\<lambda>g. g \<in> seen) ys)"
  have "insert_piece (piece_of f) (?A @ ?B) = Inserted (?A @ piece_of f # ?B)"
    using cut_around(1) [OF cut] cut_around(2) [OF cut] cut_around(3) [OF cut]
    by (intro insert_piece_new) (auto simp: piece_of_def)
  with new show ?thesis
    by (simp only: filter_insert_split [OF cut_around(5,6) [OF cut]]) simp
qed

lemma complete_iff:
  assumes cut: "cut_of d ident fs" and seen: "seen \<subseteq> set fs"
  shows "contiguous 0 (map piece_of (filter (\<lambda>g. g \<in> seen) fs)) = Some (length (id_payload d)) \<longleftrightarrow> seen = set fs"
proof
  assume "seen = set fs"
  moreover have "filter (\<lambda>g. g \<in> set fs) fs = fs" by simp
  moreover have "contiguous 0 (map piece_of fs) = Some (length (id_payload d))"
    using contiguous_tiled [of 0 "map piece_of fs"] cut cut_covered [OF cut] by (simp add: cut_of_def)
  ultimately show "contiguous 0 (map piece_of (filter (\<lambda>g. g \<in> seen) fs)) = Some (length (id_payload d))" by simp
next
  assume "contiguous 0 (map piece_of (filter (\<lambda>g. g \<in> seen) fs)) = Some (length (id_payload d))"
  from contiguous_covered [OF this] have "covered (map piece_of (filter (\<lambda>g. g \<in> seen) fs)) = covered (map piece_of fs)"
    using cut_covered [OF cut] by simp
  moreover have "\<forall>f \<in> set fs. snd (piece_of f) \<noteq> []"
    using cut tiled_bounds [of 0 "map piece_of fs"] by (fastforce simp: cut_of_def piece_end_def)
  ultimately have "filter (\<lambda>g. g \<in> seen) fs = fs" by (intro covered_filter)
  with seen show "seen = set fs" by (auto simp: filter_id_conv)
qed

lemma few_seen:
  assumes cut: "cut_of d ident fs" and seen: "seen \<subseteq> set fs" "seen \<noteq> set fs"
  shows "length (filter (\<lambda>g. g \<in> seen) fs) \<noteq> MAX_IP_FRAGMENTS"
proof
  assume "length (filter (\<lambda>g. g \<in> seen) fs) = MAX_IP_FRAGMENTS"
  then have "length fs \<le> length (filter (\<lambda>g. g \<in> seen) fs)" using cut by (simp add: cut_of_def)
  then have "\<forall>g \<in> set fs. g \<in> seen" using length_filter_less [of _ fs "\<lambda>g. g \<in> seen"] by fastforce
  with seen show False by blast
qed

lemma fits_entry:
  assumes cut: "cut_of d ident (xs @ f # ys)" and r: "entry_of d (xs @ f # ys) seen r"
  shows "\<not> ((if_offset f = 0 \<and> if_offset f + length (if_payload f) + if_header_length f > 65535) \<or>
      (case ra_total_length r of None \<Rightarrow> False | Some t \<Rightarrow> if_offset f + length (if_payload f) > t))"
  using r cut cut_around(4) [OF cut]
  by (auto simp: entry_of_def cut_of_def fragment_of_def piece_end_def piece_of_def split: if_splits)

lemma total_known:
  assumes cut: "cut_of d ident (xs @ f # ys)" and more: "\<not> if_more f"
  shows "if_offset f + length (if_payload f) = length (id_payload d)"
  using more cut cut_around(4) [OF cut]
  by (auto simp: cut_of_def fragment_of_def piece_end_def piece_of_def)

lemma none_beyond:
  assumes cut: "cut_of d ident (xs @ f # ys)" and more: "\<not> if_more f"
  shows "\<not> list_ex (\<lambda>c. fst c \<ge> if_offset f + length (if_payload f)) (map piece_of (filter S (xs @ f # ys)))"
proof -
  have ys: "ys = []" using cut_more(1) [OF cut] more by simp
  have "if_offset g < if_offset f + length (if_payload f)" if "g \<in> set (xs @ f # ys)" for g
    using cut_around(1) [OF cut, of g] cut_around(3) [OF cut] that ys
    by (auto simp: piece_end_def piece_of_def simp flip: length_greater_0_conv)
  moreover have "\<not> list_ex (\<lambda>c. fst c \<ge> n) (map piece_of zs)" if "\<And>g. g \<in> set zs \<Longrightarrow> if_offset g < n" for n zs
    using that by (fastforce simp: list_ex_iff piece_of_def)
  ultimately show ?thesis by (metis filter_is_subset in_mono)
qed

lemma total_after:
  assumes cut: "cut_of d ident (xs @ f # ys)" and r: "entry_of d (xs @ f # ys) seen r"
  shows "(if if_more f then ra_total_length r else Some (if_offset f + length (if_payload f))) =
    (if last (xs @ f # ys) \<in> insert f seen then Some (length (id_payload d)) else None)"
proof -
  have "last (xs @ f # ys) = f \<longleftrightarrow> ys = []" using cut_around(6) [OF cut] by auto
  with r total_known [OF cut] cut_more(1) [OF cut] show ?thesis by (auto simp: entry_of_def)
qed

text \<open>The two outcomes of a fragment whose entry is there.\<close>

definition with_piece :: "ip_datagram \<Rightarrow> ip_fragment list \<Rightarrow> ip_fragment set \<Rightarrow> ip_reassembly \<Rightarrow> ip_reassembly" where
  "with_piece d fs seen r = r\<lparr>ra_fragments := map piece_of (filter (\<lambda>g. g \<in> seen) fs),
     ra_total_length := (if last fs \<in> seen then Some (length (id_payload d)) else None)\<rparr>"

lemma reassemble_known:
  assumes cut: "cut_of d ident fs" and f: "f \<in> set fs" and seen: "seen \<subseteq> set fs" "seen \<noteq> set fs"
    and opened: "open_reassembly f rs = (r, rs1)" and r: "entry_of d fs seen r"
  shows "reassemble_ip f rs =
    (if f \<in> seen then (rs1, None)
     else let rs2 = AList.update (key_of d ident) (with_piece d fs (insert f seen) r) rs1
          in if insert f seen = set fs then (discard_ip_reassembly (key_of d ident) rs2, Some d) else (rs2, None))"
proof -
  obtain xs ys where fs: "fs = xs @ f # ys" using f by (auto simp: in_set_conv_decomp)
  note cut' = cut [unfolded fs] and r' = r [unfolded fs]
  let ?ps = "map piece_of (filter (\<lambda>g. g \<in> insert f seen) fs)"
  note start = reassemble_ip_def cut_key [OF cut f] cut_more(2) [OF cut'] opened fits_entry [OF cut' r']
  have frags: "ra_fragments r = map piece_of (filter (\<lambda>g. g \<in> seen) (xs @ f # ys))" using r' by (simp add: entry_of_def)
  show ?thesis
  proof (cases "f \<in> seen")
    case True
    have "insert_piece (if_offset f, if_payload f) (ra_fragments r) = Duplicate"
      using insert_seen [OF cut' True] frags by (simp add: piece_of_def)
    with True show ?thesis by (simp only: start Let_def prod.case if_False if_True insertion.case)
  next
    case False
    have placed: "insert_piece (if_offset f, if_payload f) (ra_fragments r) = Inserted ?ps"
      using insert_unseen [OF cut' False] frags by (simp add: piece_of_def fs)
    have few: "length (ra_fragments r) \<noteq> MAX_IP_FRAGMENTS"
      using few_seen [OF cut seen] frags fs by simp
    have agree: "\<not> (\<not> if_more f \<and> (case ra_total_length r of None \<Rightarrow> False | Some t \<Rightarrow> t \<noteq> if_offset f + length (if_payload f)))"
      using r total_known [OF cut'] by (cases "if_more f") (auto simp: entry_of_def split: if_splits)
    have beyond: "\<not> (\<not> if_more f \<and> list_ex (\<lambda>c. fst c \<ge> if_offset f + length (if_payload f)) ?ps)"
      using none_beyond [OF cut'] fs by blast
    note complete = complete_iff [OF cut, of "insert f seen"]
    have whole: "\<lparr>id_source = ra_source r, id_destination = ra_destination r, id_protocol = ra_protocol r,
        id_payload = assemble (length (id_payload d)) (map piece_of fs)\<rparr> = d"
      using r cut assemble_tiled [of "map piece_of fs"] cut_covered [OF cut]
      by (simp add: entry_of_def cut_of_def piece_of_def comp_def)
    have "reassemble_ip f rs = (let t = (if last fs \<in> insert f seen then Some (length (id_payload d)) else None);
        rs2 = AList.update (key_of d ident) (with_piece d fs (insert f seen) r) rs1
      in case t of None \<Rightarrow> (rs2, None) | Some n \<Rightarrow> if contiguous 0 ?ps = Some n
        then (discard_ip_reassembly (key_of d ident) rs2, Some \<lparr>id_source = ra_source r, id_destination = ra_destination r,
          id_protocol = ra_protocol r, id_payload = assemble n ?ps\<rparr>) else (rs2, None))"
      by (simp only: start Let_def prod.case if_False placed insertion.case few agree beyond
          total_after [OF cut' r', folded fs] with_piece_def)
    moreover have "last fs \<in> set fs" using f by (cases fs) auto
    ultimately show ?thesis
      using False seen f whole complete by (cases "insert f seen = set fs") (simp_all add: Let_def split: if_split)
  qed
qed

lemma reassemble_step:
  assumes cut: "cut_of d ident fs" and f: "f \<in> set fs" and col: "collecting d ident fs seen rs"
  shows "insert f seen \<noteq> set fs \<Longrightarrow> \<exists>rs'. reassemble_ip f rs = (rs', None) \<and> collecting d ident fs (insert f seen) rs'"
    and "insert f seen = set fs \<Longrightarrow> \<exists>rs'. reassemble_ip f rs = (rs', Some d) \<and> map_of rs' (key_of d ident) = None"
proof -
  from open_collecting [OF cut f col] obtain r rs1 where
    opened: "open_reassembly f rs = (r, rs1)" and at: "map_of rs1 (key_of d ident) = Some r" and r: "entry_of d fs seen r" by blast
  have seen: "seen \<subseteq> set fs" "seen \<noteq> set fs" using col by (auto simp: collecting_def)
  note known = reassemble_known [OF cut f seen opened r]
  have entry: "entry_of d fs (insert f seen) (with_piece d fs (insert f seen) r)"
    using r by (simp add: entry_of_def with_piece_def)
  show "\<exists>rs'. reassemble_ip f rs = (rs', None) \<and> collecting d ident fs (insert f seen) rs'" if "insert f seen \<noteq> set fs"
  proof (cases "f \<in> seen")
    case True
    then have "insert f seen = seen" by blast
    with known True at r seen show ?thesis by (simp add: collecting_def)
  next
    case False
    with known entry that f seen show ?thesis by (simp add: Let_def collecting_def update_conv')
  qed
  show "\<exists>rs'. reassemble_ip f rs = (rs', Some d) \<and> map_of rs' (key_of d ident) = None" if "insert f seen = set fs"
  proof -
    have "f \<notin> seen" using that seen by (metis insert_absorb)
    moreover have "map_of (discard_ip_reassembly k zs) k = None" for k zs
      by (auto simp: discard_ip_reassembly_def map_of_eq_None_iff)
    ultimately show ?thesis using known that by (simp add: Let_def)
  qed
qed

text \<open>Fragments that arrive one after the other.\<close>

fun reassemble_all :: "ip_fragment list \<Rightarrow> reassemblies \<Rightarrow> reassemblies \<times> ip_datagram option list" where
  "reassemble_all [] rs = (rs, [])"
| "reassemble_all (f # fs) rs =
     (let (rs1, r) = reassemble_ip f rs; (rs2, out) = reassemble_all fs rs1 in (rs2, r # out))"

lemma reassemble_all_append:
  "reassemble_all (xs @ ys) rs =
    (let (rs1, a) = reassemble_all xs rs; (rs2, b) = reassemble_all ys rs1 in (rs2, a @ b))"
  by (induction xs arbitrary: rs) (auto simp: Let_def split: prod.splits)

lemma reassemble_partial:
  assumes cut: "cut_of d ident fs"
  shows "set xs \<subseteq> set fs \<Longrightarrow> seen \<union> set xs \<noteq> set fs \<Longrightarrow> collecting d ident fs seen rs \<Longrightarrow>
    \<exists>rs'. reassemble_all xs rs = (rs', replicate (length xs) None) \<and> collecting d ident fs (seen \<union> set xs) rs'"
proof (induction xs arbitrary: seen rs)
  case (Cons f xs)
  have "insert f seen \<noteq> set fs" using Cons.prems by auto
  from reassemble_step(1) [OF cut _ Cons.prems(3) this] obtain rs1 where
    1: "reassemble_ip f rs = (rs1, None)" "collecting d ident fs (insert f seen) rs1" using Cons.prems by auto
  with Cons.IH [of "insert f seen" rs1] Cons.prems show ?case by (auto simp: Let_def)
qed simp

lemma reassemble_run:
  assumes cut: "cut_of d ident fs" and xs: "insert f (set xs) = set fs" "f \<notin> set xs"
    and fresh: "map_of rs (key_of d ident) = None"
  shows "\<exists>rs'. reassemble_all (xs @ [f]) rs = (rs', replicate (length xs) None @ [Some d]) \<and>
    map_of rs' (key_of d ident) = None"
proof -
  have "collecting d ident fs {} rs" using fresh xs by (auto simp: collecting_def)
  from reassemble_partial [OF cut _ _ this, of xs] xs obtain rs1 where
    1: "reassemble_all xs rs = (rs1, replicate (length xs) None)" "collecting d ident fs (set xs) rs1" by auto
  have "f \<in> set fs" using xs by blast
  with reassemble_step(2) [OF cut _ 1(2), of f] xs 1 show ?thesis by (auto simp: reassemble_all_append Let_def)
qed

section \<open>The frames of one datagram\<close>

lemma fragment_offsets_tiled:
  "n = length p \<Longrightarrow> tiled off (map (\<lambda>(a, e). (a, subarray p a e)) (fragment_offsets off n))"
proof (induction off n rule: fragment_offsets.induct)
  case (1 off n)
  show ?case
  proof (cases "off < n")
    case True
    then have "piece_end (off, subarray p off (min (off + 1480) n)) = min (off + 1480) n" "subarray p off (min (off + 1480) n) \<noteq> []"
      using "1.prems" by (auto simp: piece_end_def subarray_def)
    moreover have "fragment_offsets (off + 1480) n = []" if "\<not> off + 1480 < n"
      using that by (subst fragment_offsets.simps) simp
    ultimately show ?thesis using "1.IH" [OF True] "1.prems" True
      by (subst fragment_offsets.simps) (cases "off + 1480 < n"; simp add: min_def)
  next
    case False
    then show ?thesis by (subst fragment_offsets.simps) simp
  qed
qed

lemma fragment_offsets_count:
  "1480 * length (fragment_offsets off n) \<le> n - off + 1479" "off + 1480 < n \<Longrightarrow> 2 \<le> length (fragment_offsets off n)"
proof (induction off n rule: fragment_offsets.induct)
  case (1 off n)
  { case 1
    show ?case
    proof (cases "off < n")
      case True
      moreover have "fragment_offsets (off + 1480) n = []" if "\<not> off + 1480 < n"
        using that by (subst fragment_offsets.simps) simp
      ultimately show ?thesis using "1.IH"(1) [OF True]
        by (subst fragment_offsets.simps) (cases "off + 1480 < n"; simp)
    qed (subst fragment_offsets.simps, simp) }
  { case 2
    then have "off < n" by simp
    have "fragment_offsets (off + 1480) n \<noteq> []" using 2 by (subst fragment_offsets.simps) simp
    then have "1 \<le> length (fragment_offsets (off + 1480) n)" by (simp add: Suc_le_eq)
    with \<open>off < n\<close> show ?case by (subst fragment_offsets.simps) simp }
qed

text \<open>The fragment that is read from the frame of a piece.\<close>

definition fragment_at :: "nat \<Rightarrow> nat \<Rightarrow> nat \<Rightarrow> bytes \<Rightarrow> nat \<Rightarrow> nat \<times> nat \<Rightarrow> ip_fragment" where
  "fragment_at src dst protocol payload ident = (\<lambda>(a, e).
     \<lparr>if_source = src, if_destination = dst, if_protocol = protocol, if_payload = subarray payload a e,
      if_identification = ident, if_header_length = 20, if_offset = a, if_more = (e < length payload)\<rparr>)"

lemma cut_of_datagram:
  assumes len: "1480 < length payload" "length payload \<le> 65515"
  shows "cut_of \<lparr>id_source = src, id_destination = dst, id_protocol = protocol, id_payload = payload\<rparr> ident
    (map (fragment_at src dst protocol payload ident) (fragment_offsets 0 (length payload)))"
    (is "cut_of ?d ident (map ?f ?os)")
proof -
  have count: "2 \<le> length ?os" "length ?os \<le> 64"
    using fragment_offsets_count [where off = 0 and n = "length payload"] len by simp_all
  have pieces: "map piece_of (map ?f ?os) = map (\<lambda>(a, e). (a, subarray payload a e)) ?os"
    by (simp add: piece_of_def fragment_at_def split_def)
  have content: "concat (map if_payload (map ?f ?os)) = payload"
    using fragment_offsets_tile [where off = 0 and p = payload] by (simp add: fragment_at_def split_def comp_def)
  have "fragment_of ?d ident (?f (a, e))" if "(a, e) \<in> set ?os" for a e
  proof -
    have "piece_end (piece_of (?f (a, e))) = e"
      using fragment_offsets_ranges [OF that] by (auto simp: piece_end_def piece_of_def fragment_at_def subarray_def min_def)
    with fragment_offsets_ranges [OF that] len show ?thesis by (auto simp: fragment_of_def fragment_at_def)
  qed
  then have "list_all (fragment_of ?d ident) (map ?f ?os)" by (auto simp: list_all_iff)
  with count pieces content fragment_offsets_tiled [where off = 0 and p = payload] show ?thesis
    by (simp add: cut_of_def MAX_IP_FRAGMENTS_def del: map_map)
qed

lemma parse_piece:
  assumes mac: "length mac = 6" and len: "1480 < length payload" "length payload \<le> 65515"
    and range: "src < 2 ^ 32" "dst < 2 ^ 32" "protocol < 256" "ident < 65536"
    and piece: "(a, e) \<in> set (fragment_offsets 0 (length payload))"
  shows "parse_ip (ip_frame mac src dst protocol (subarray payload a e) ident
      ((if e < length payload then 8192 else 0) OR a div 8)) =
    Inr (Some (fragment_at src dst protocol payload ident (a, e)))"
proof -
  note bounds = fragment_offsets_ranges [OF piece]
  have a: "8 dvd a" "a div 8 < 8192" using bounds len by auto
  then have at: "a div 8 * 8 = a" by simp
  have "length (subarray payload a e) = e - a" using bounds by (auto simp: subarray_def)
  with bounds len at fragment_flags [OF a(2), of "e < length payload"] show ?thesis
    by (subst parse_ip_frame [OF mac _ range]) (auto simp: fragment_at_def)
qed

text \<open>The frames of a datagram, handed over one after the other.\<close>

fun ip_input_all :: "bytes list \<Rightarrow> reassemblies \<Rightarrow> reassemblies \<times> ip_datagram option list" where
  "ip_input_all [] rs = (rs, [])"
| "ip_input_all (f # fs) rs =
     (let (rs1, r) = ip_input f rs; (rs2, out) = ip_input_all fs rs1 in (rs2, r # out))"

lemma ip_input_all_parsed:
  "(\<And>f. f \<in> set fs \<Longrightarrow> parse_ip f = Inr (Some (g f))) \<Longrightarrow> ip_input_all fs rs = reassemble_all (map g fs) rs"
  by (induction fs arbitrary: rs) (simp_all add: ip_input_def Let_def split: prod.split)

lemma identification_less: "n AND 65535 < (65536 :: nat)"
proof -
  have "n AND 65535 = n mod 65536" using take_bit_eq_mask [of 16 n] by (simp add: mask_eq_exp_minus_1 take_bit_eq_mod)
  then show ?thesis by simp
qed

lemma fragmented_survives:
  assumes mac: "length mac = 6" and len: "1480 < length payload" "length payload \<le> 65515"
    and range: "src < 2 ^ 32" "dst < 2 ^ 32" "protocol < 256"
    and sent: "send_ip mac src dst protocol payload identifier = Some (Inr frames)"
    and xs: "insert f (set xs) = set frames" "f \<notin> set xs"
    and d: "d = \<lparr>id_source = src, id_destination = dst, id_protocol = protocol, id_payload = payload\<rparr>"
    and fresh: "map_of rs (key_of d (identifier AND 65535)) = None"
  shows "\<exists>rs'. ip_input_all (xs @ [f]) rs = (rs', replicate (length xs) None @ [Some d]) \<and>
    map_of rs' (key_of d (identifier AND 65535)) = None"
proof -
  define ident os fr fg where "ident = identifier AND 65535" and "os = fragment_offsets 0 (length payload)"
    and "fr = (\<lambda>(a, e). ip_frame mac src dst protocol (subarray payload a e) ident
      ((if e < length payload then 8192 else 0) OR a div 8))"
    and "fg = fragment_at src dst protocol payload ident"
  have ident: "ident < 65536" by (simp add: ident_def identification_less)
  have frames: "frames = map fr os"
    using sent send_ip_pieces [OF mac len(2)] len(1) by (auto simp: pieces_def fr_def os_def ident_def)
  have parsed: "parse_ip (fr p) = Inr (Some (fg p))" if "p \<in> set os" for p
    using parse_piece [OF mac len range ident, of "fst p" "snd p"] that by (cases p) (simp add: os_def fr_def fg_def)
  define g where "g b = (case parse_ip b of Inr (Some x) \<Rightarrow> x)" for b
  have g: "g (fr p) = fg p" if "p \<in> set os" for p using parsed [OF that] by (simp add: g_def)
  have inj: "p = q" if "p \<in> set os" "q \<in> set os" "fg p = fg q" for p q
  proof -
    have same: "fst p = fst q" using that(3) by (simp add: fg_def fragment_at_def split: prod.splits)
    have "snd p = min (fst p + 1480) (length payload)" "snd q = min (fst q + 1480) (length payload)"
      using that(1,2) fragment_offsets_ranges [of "fst p" "snd p" 0 "length payload"]
        fragment_offsets_ranges [of "fst q" "snd q" 0 "length payload"] by (auto simp: os_def)
    with same show ?thesis by (simp add: prod_eq_iff)
  qed
  have among: "set (xs @ [f]) \<subseteq> fr ` set os" using xs(1) frames by auto
  have step: "parse_ip b = Inr (Some (g b))" if "b \<in> set (xs @ [f])" for b
    using among that parsed g by (metis (no_types, lifting) imageE subsetD)
  have all: "insert (g f) (set (map g xs)) = set (map fg os)"
  proof -
    have "g ` fr ` set os = fg ` set os" using g by (simp add: image_image)
    with xs(1) frames show ?thesis by (metis image_insert image_set list.set_map)
  qed
  have "g f \<notin> set (map g xs)"
  proof
    assume "g f \<in> set (map g xs)"
    then obtain x where x: "x \<in> set xs" "g x = g f" by auto
    obtain p q where "p \<in> set os" "q \<in> set os" "f = fr p" "x = fr q" using among x(1) by (auto simp: image_iff)
    with g inj x xs(2) show False by metis
  qed
  from reassemble_run [OF cut_of_datagram [OF len, of src dst protocol ident, folded d os_def fg_def] all this]
  show ?thesis using fresh ip_input_all_parsed [of "xs @ [f]" g, OF step] by (simp add: ident_def)
qed

section \<open>Properties\<close>

text \<open>
  C27: A payload of up to 65515 bytes that \<open>send_ip\<close> has cut into frames comes back from the reassembly as it
  was, in whatever order its frames arrive and however often each is repeated: every frame before the last
  missing one gives nothing, that one gives the datagram with exactly the payload, and the entry is gone.
\<close>

theorem datagram_survives:
  assumes "length mac = 6" and "length payload \<le> 65515"
    and "src < 2 ^ 32" "dst < 2 ^ 32" "protocol < 256"
    and "send_ip mac src dst protocol payload identifier = Some (Inr frames)"
    and "insert f (set xs) = set frames" "f \<notin> set xs"
    and "d = \<lparr>id_source = src, id_destination = dst, id_protocol = protocol, id_payload = payload\<rparr>"
    and "map_of rs (key_of d (identifier AND 65535)) = None"
  shows "\<exists>rs'. ip_input_all (xs @ [f]) rs = (rs', replicate (length xs) None @ [Some d]) \<and>
    map_of rs' (key_of d (identifier AND 65535)) = None"
proof (cases "length payload \<le> 1480")
  case False
  with fragmented_survives assms show ?thesis by simp
next
  case True
  let ?i = "identifier AND 65535"
  have frames: "frames = [ip_frame mac src dst protocol payload ?i 16384]"
    using assms(6) send_ip_pieces [OF assms(1,2)] True by (simp add: pieces_def subarray_def)
  then have "xs = []" "f = ip_frame mac src dst protocol payload ?i 16384" using assms(7,8) by (cases xs; auto)+
  moreover have "(16384 :: nat) AND 8191 = 0" "(16384 :: nat) AND 8192 = 0" by simp_all
  moreover have "?i < 65536" by (rule identification_less)
  ultimately show ?thesis using assms
    by (auto simp: ip_input_def parse_ip_frame reassemble_ip_def as_datagram_def discard_ip_reassembly_def map_of_eq_None_iff Let_def)
qed

theorem datagram_survives_witness:
  "\<exists>a b rs'. send_ip [2, 0, 0, 0, 0, 9] 2 1 17 (replicate 1500 7) 65541 = Some (Inr [a, b]) \<and>
     ip_input_all [b, b, a] [] =
       (rs', [None, None, Some \<lparr>id_source = 2, id_destination = 1, id_protocol = 17,
          id_payload = replicate 1500 7\<rparr>]) \<and>
     map_of rs' ''2:1:17:5'' = None"
proof -
  define p where "p = (replicate 1500 7 :: bytes)"
  have len: "length p = 1500" unfolding p_def by (rule length_replicate)
  let ?mac = "[2, 0, 0, 0, 0, 9] :: bytes"
  define a b where "a = ip_frame ?mac 2 1 17 (subarray p 0 1480) 5 8192"
    and "b = ip_frame ?mac 2 1 17 (subarray p 1480 1500) 5 185"
  have two: "fragment_offsets 0 1500 = [(0, 1480), (1480, 1500)]"
    by (simp add: fragment_offsets.simps)
  have sent: "send_ip ?mac 2 1 17 p 65541 = Some (Inr [a, b])"
    by (subst send_ip_pieces) (simp_all add: pieces_def two a_def b_def len)
  have "length a \<noteq> length b"
    by (simp add: a_def b_def ip_frame_def ip_header_def subarray_def Let_def len)
  then have ab: "a \<noteq> b" by blast
  let ?d = "\<lparr>id_source = 2, id_destination = 1, id_protocol = 17, id_payload = p\<rparr>"
  have key: "key_of ?d (65541 AND 65535) = ''2:1:17:5''"
    by (simp add: key_of_def) code_simp
  show ?thesis unfolding p_def [symmetric]
    using datagram_survives [OF _ _ _ _ _ sent, of a "[b, b]" ?d "[]"] sent ab key len by auto
qed

end
