(* ===== verification/Host_Stream.thy ===== *)
theory Host_Stream
  imports Prelude
begin

text \<open>
  What the sources use of a \<open>ReadableStream\<close> with a default controller, as the streams standard defines it:
  the queue and its desired size, the pending read requests, the calls of the source's \<open>pull\<close> (never two
  at once; a request during one is remembered), closing and erroring.  The stream shows what was handed to
  its reader in \<open>rs_out\<close>.  An operation that leads to a call of \<open>pull\<close> says so, because the controller makes
  that call before the operation returns.
\<close>

datatype stream_state = Readable | Closed | Errored js_error

record rstream =
  rs_state :: stream_state
  rs_close_requested :: bool
  rs_started :: bool
  rs_queue :: "bytes list"
  rs_reads :: nat
  rs_pulling :: bool
  rs_pull_again :: bool
  rs_high :: nat
  rs_by_length :: bool
  rs_out :: "bytes list"

definition new_stream :: "nat \<Rightarrow> bool \<Rightarrow> rstream" where
  "new_stream high by_length = \<lparr>rs_state = Readable, rs_close_requested = False, rs_started = False, rs_queue = [],
     rs_reads = 0, rs_pulling = False, rs_pull_again = False, rs_high = high, rs_by_length = by_length, rs_out = []\<rparr>"

definition queue_size :: "rstream \<Rightarrow> nat" where
  "queue_size s = (if rs_by_length s then sum_list (map length (rs_queue s)) else length (rs_queue s))"

definition desired_size :: "rstream \<Rightarrow> int option" where
  "desired_size s = (case rs_state s of
       Errored _ \<Rightarrow> None
     | Closed \<Rightarrow> Some 0
     | Readable \<Rightarrow> Some (int (rs_high s) - int (queue_size s)))"

definition can_enqueue :: "rstream \<Rightarrow> bool" where
  "can_enqueue s \<longleftrightarrow> rs_state s = Readable \<and> \<not> rs_close_requested s"

definition should_pull :: "rstream \<Rightarrow> bool" where
  "should_pull s \<longleftrightarrow> can_enqueue s \<and> rs_started s \<and> (0 < rs_reads s \<or> queue_size s < rs_high s)"

text \<open>The second component: \<open>pull\<close> is called now.\<close>

definition pull_if_needed :: "rstream \<Rightarrow> rstream \<times> bool" where
  "pull_if_needed s =
     (if \<not> should_pull s then (s, False)
      else if rs_pulling s then (s\<lparr>rs_pull_again := True\<rparr>, False)
      else (s\<lparr>rs_pulling := True\<rparr>, True))"

definition stream_started :: "rstream \<Rightarrow> rstream \<times> bool" where
  "stream_started s = (if rs_started s then (s, False) else pull_if_needed (s\<lparr>rs_started := True\<rparr>))"

definition put_chunk :: "bytes \<Rightarrow> rstream \<Rightarrow> rstream" where
  "put_chunk chunk s =
     (if 0 < rs_reads s then s\<lparr>rs_reads := rs_reads s - 1, rs_out := rs_out s @ [chunk]\<rparr>
      else s\<lparr>rs_queue := rs_queue s @ [chunk]\<rparr>)"

definition stream_enqueue :: "bytes \<Rightarrow> rstream \<Rightarrow> (rstream \<times> bool) result" where
  "stream_enqueue chunk s =
     (if \<not> can_enqueue s then Inl (TypeError ''Invalid state: Controller is already closed'')
      else Inr (pull_if_needed (put_chunk chunk s)))"

definition end_stream :: "rstream \<Rightarrow> rstream" where
  "end_stream s = s\<lparr>rs_state := Closed, rs_reads := 0\<rparr>"

definition stream_close :: "rstream \<Rightarrow> rstream result" where
  "stream_close s =
     (if \<not> can_enqueue s then Inl (TypeError ''Invalid state: Controller is already closed'')
      else let s1 = s\<lparr>rs_close_requested := True\<rparr>
           in Inr (if rs_queue s = [] then end_stream s1 else s1))"

definition stream_error :: "js_error \<Rightarrow> rstream \<Rightarrow> rstream" where
  "stream_error e s = (if rs_state s = Readable then s\<lparr>rs_state := Errored e, rs_queue := [], rs_reads := 0\<rparr> else s)"

text \<open>A read by the consumer: a chunk, the end, or a request that waits.\<close>

definition stream_read :: "rstream \<Rightarrow> rstream \<times> bool" where
  "stream_read s =
     (if rs_state s \<noteq> Readable then (s, False)
      else case rs_queue s of
        [] \<Rightarrow> pull_if_needed (s\<lparr>rs_reads := rs_reads s + 1\<rparr>)
      | c # cs \<Rightarrow>
          let s1 = s\<lparr>rs_queue := cs, rs_out := rs_out s @ [c]\<rparr>
          in if rs_close_requested s \<and> cs = [] then (end_stream s1, False) else pull_if_needed s1)"

text \<open>The promise of \<open>pull\<close> has settled.\<close>

definition stream_pulled :: "unit result \<Rightarrow> rstream \<Rightarrow> rstream \<times> bool" where
  "stream_pulled r s = (case r of
       Inl e \<Rightarrow> (stream_error e s, False)
     | Inr _ \<Rightarrow>
         let s1 = s\<lparr>rs_pulling := False, rs_pull_again := False\<rparr>
         in if rs_pull_again s then pull_if_needed s1 else (s1, False))"

text \<open>The consumer's \<open>cancel\<close>; the second component: the source's \<open>cancel\<close> is called.\<close>

definition stream_cancel :: "rstream \<Rightarrow> rstream \<times> bool" where
  "stream_cancel s = (if rs_state s = Readable then ((end_stream s)\<lparr>rs_queue := []\<rparr>, True) else (s, False))"

section \<open>What has been put into a stream\<close>

definition stream_content :: "rstream \<Rightarrow> bytes" where
  "stream_content s = concat (rs_out s @ rs_queue s)"

lemma pull_if_needed_keeps [simp]:
  "stream_content (fst (pull_if_needed s)) = stream_content s"
  "rs_state (fst (pull_if_needed s)) = rs_state s"
  "rs_queue (fst (pull_if_needed s)) = rs_queue s"
  "rs_out (fst (pull_if_needed s)) = rs_out s"
  "rs_reads (fst (pull_if_needed s)) = rs_reads s"
  "rs_high (fst (pull_if_needed s)) = rs_high s"
  "rs_by_length (fst (pull_if_needed s)) = rs_by_length s"
  "rs_close_requested (fst (pull_if_needed s)) = rs_close_requested s"
  "queue_size (fst (pull_if_needed s)) = queue_size s"
  by (simp_all add: pull_if_needed_def stream_content_def queue_size_def)

text \<open>
  A stream that is not broken off: requests wait only at an empty queue, and a closed stream has been
  read to its end.
\<close>

definition stream_ok :: "rstream \<Rightarrow> bool" where
  "stream_ok s \<longleftrightarrow> (0 < rs_reads s \<longrightarrow> rs_queue s = [] \<and> rs_state s = Readable) \<and> (rs_state s \<noteq> Readable \<longrightarrow> rs_queue s = []) \<and>
     (rs_close_requested s \<and> rs_queue s = [] \<longrightarrow> rs_state s \<noteq> Readable)"

lemma stream_ok_new [simp]: "stream_ok (new_stream h b)"
  by (simp add: stream_ok_def new_stream_def)

lemma stream_ok_pull [simp]: "stream_ok (fst (pull_if_needed s)) = stream_ok s"
  by (simp add: stream_ok_def)

lemma stream_ok_started: "stream_ok s \<Longrightarrow> stream_ok (fst (stream_started s))"
  by (simp add: stream_started_def) (simp add: stream_ok_def)

lemma enqueue_put:
  "stream_enqueue c s = Inr (s', p) \<Longrightarrow> can_enqueue s \<and> s' = fst (pull_if_needed (put_chunk c s))"
  by (cases "pull_if_needed (put_chunk c s)") (simp add: stream_enqueue_def split: if_splits)

lemma stream_ok_enqueue:
  assumes ok: "stream_ok s" and r: "stream_enqueue c s = Inr (s', p)"
  shows "stream_ok s'"
proof -
  have "stream_ok (put_chunk c s)"
    using ok enqueue_put [OF r] by (auto simp: stream_ok_def put_chunk_def can_enqueue_def)
  with enqueue_put [OF r] show ?thesis by simp
qed

lemma enqueue_content:
  assumes ok: "stream_ok s" and r: "stream_enqueue c s = Inr (s', p)"
  shows "stream_content s' = stream_content s @ c" and "rs_state s' = Readable" and "\<not> rs_close_requested s'"
    and "queue_size s' \<le> queue_size s + (if rs_by_length s then length c else 1)"
    and "rs_high s' = rs_high s" and "rs_by_length s' = rs_by_length s"
proof -
  have s': "s' = fst (pull_if_needed (put_chunk c s))" and can: "can_enqueue s" using enqueue_put [OF r] by simp_all
  show "stream_content s' = stream_content s @ c"
    unfolding s' using ok by (simp add: stream_content_def stream_ok_def put_chunk_def)
  show "rs_state s' = Readable" "\<not> rs_close_requested s'" "rs_high s' = rs_high s" "rs_by_length s' = rs_by_length s"
    unfolding s' using can by (simp_all add: can_enqueue_def put_chunk_def)
  show "queue_size s' \<le> queue_size s + (if rs_by_length s then length c else 1)"
    unfolding s' by (simp add: queue_size_def put_chunk_def)
qed

end
