(* ===== verification/Network.thy ===== *)
theory Network
  imports Ip_Reassembly Host_Stream
begin

text \<open>
  The user-mode TCP/IP endpoint of \<open>packages/linux-guest/src/network.ts\<close> (\<open>createNetwork\<close>): flows, their
  waiters and streams, connections to and from guests, DNS and UDP, attachments and shutdown.

  Flows are objects that outlive their entry in the map of open flows, so they live in a store and the map
  holds their index.  An \<open>async\<close> function is cut at its awaits: what follows an \<open>await\<close> is a \<open>cont\<close>, and a
  suspended call is a task, which waits for \<open>gateway.send\<close>, for a promise or for the resolver, or is ready
  to run with a known result.  \<open>receive_tail\<close> is the list of jobs chained to it.  Frames handed to
  \<open>gateway.send\<close> are in \<open>nw_out\<close>; when and with what outcome such a call settles is up to the switch.
\<close>

section \<open>State\<close>

record guest =
  g_ip :: nat
  g_mac :: bytes

datatype tail_job = Process tcp_segment | Update_Window

record tcp_flow =
  tf_key :: string
  tf_guest :: guest
  tf_guest_port :: nat
  tf_peer_ip :: nat
  tf_peer_port :: nat
  tf_send_sequence :: "32 word"
  tf_receive_sequence :: "32 word"
  tf_established :: bool
  tf_local_ended :: bool
  tf_remote_ended :: bool
  tf_closed :: bool
  tf_ack_waiters :: "(nat \<times> 32 word) list"
  tf_window_waiters :: "nat list"
  tf_tail :: "tail_job list"
  tf_busy :: bool
  tf_advertised_window :: nat
  tf_peer_window :: nat
  tf_handshake :: "nat option"
  tf_handshake_timer :: bool
  tf_readable :: "rstream option"
  tf_activation :: "nat option"
  tf_activation_waiter :: "nat option"
  tf_abort :: "bool option"
  tf_receive_demand :: bool
  tf_external_abort :: bool

record udp_flow =
  uf_key :: string
  uf_guest :: guest
  uf_guest_port :: nat
  uf_host_port :: nat
  uf_readable :: rstream
  uf_closed :: bool

text \<open>Who waits for \<open>send_tcp_data\<close> and \<open>send_tcp_fin\<close>: a call of the stream, or the end of the TCP handler.\<close>

datatype origin = By_Call nat | By_Handler nat

datatype sender = Data_Sender bytes origin | Fin_Sender origin

datatype cont =
    K_Done
  | K_Call nat
  | K_Close_On_Error nat
  | K_Handshake nat
  | K_Replied nat
  | K_Accepted nat
  | K_Tail nat
  | K_Window_Wait nat sender
  | K_Window nat sender nat
  | K_Data_Sent nat nat "32 word" bytes origin
  | K_Data_Acked nat bytes origin
  | K_Fin_Sent nat nat "32 word" origin
  | K_Fin_Acked nat origin
  | K_Activate_Sent nat nat nat
  | K_Activated nat
  | K_Write nat bytes nat
  | K_Close nat nat
  | K_Pull nat
  | K_Pulled nat

datatype task =
    Sending "bytes list" cont
  | Awaiting nat cont
  | Ready "unit result" cont
  | Resolving guest udp_datagram ustring

record network =
  nw_attachments :: "(nat \<times> guest) list"
  nw_flows :: "tcp_flow list"
  nw_tcp_flows :: "(string \<times> nat) list"
  nw_udps :: "udp_flow list"
  nw_udp_flows :: "(string \<times> nat) list"
  nw_ip_reassemblies :: reassemblies
  nw_next_address :: nat
  nw_next_port :: nat
  nw_ip_identifier :: nat
  nw_closed :: bool
  nw_gateway_closed :: bool
  nw_out :: "bytes list"
  nw_next_promise :: nat
  nw_settled :: "nat \<Rightarrow> unit result option"
  nw_next_task :: nat
  nw_tasks :: "(nat \<times> task) list"
  nw_results :: "(nat \<times> unit result) list"
  nw_networked_agents :: "nat list"

definition createNetwork :: network where
  "createNetwork = \<lparr>nw_attachments = [], nw_flows = [], nw_tcp_flows = [], nw_udps = [], nw_udp_flows = [],
     nw_ip_reassemblies = [], nw_next_address = 2, nw_next_port = 49152, nw_ip_identifier = 0, nw_closed = False,
     nw_gateway_closed = False, nw_out = [], nw_next_promise = 0, nw_settled = Map.empty, nw_next_task = 0,
     nw_tasks = [], nw_results = [], nw_networked_agents = []\<rparr>"

abbreviation flow :: "nat \<Rightarrow> network \<Rightarrow> tcp_flow" where
  "flow i nw \<equiv> nw_flows nw ! i"

definition on_flow :: "nat \<Rightarrow> (tcp_flow \<Rightarrow> tcp_flow) \<Rightarrow> network \<Rightarrow> network" where
  "on_flow i g nw = nw\<lparr>nw_flows := (nw_flows nw)[i := g (flow i nw)]\<rparr>"

definition on_udp :: "nat \<Rightarrow> (udp_flow \<Rightarrow> udp_flow) \<Rightarrow> network \<Rightarrow> network" where
  "on_udp i g nw = nw\<lparr>nw_udps := (nw_udps nw)[i := g (nw_udps nw ! i)]\<rparr>"

definition tcp_key :: "nat \<Rightarrow> nat \<Rightarrow> nat \<Rightarrow> nat \<Rightarrow> string" where
  "tcp_key guest_ip guest_port peer_ip peer_port = join '':'' (map decimal [guest_ip, guest_port, peer_ip, peer_port])"

definition udp_key :: "nat \<Rightarrow> nat \<Rightarrow> nat \<Rightarrow> string" where
  "udp_key guest_ip guest_port host_port = join '':'' (map decimal [guest_ip, guest_port, host_port])"

section \<open>Promises and tasks\<close>

definition new_promise :: "network \<Rightarrow> network \<times> nat" where
  "new_promise nw = (nw\<lparr>nw_next_promise := Suc (nw_next_promise nw)\<rparr>, nw_next_promise nw)"

definition settle_promise :: "nat \<Rightarrow> unit result \<Rightarrow> network \<Rightarrow> network" where
  "settle_promise p r nw = (if nw_settled nw p = None then nw\<lparr>nw_settled := (nw_settled nw)(p \<mapsto> r)\<rparr> else nw)"

fun settle_all :: "nat list \<Rightarrow> unit result \<Rightarrow> network \<Rightarrow> network" where
  "settle_all [] r nw = nw"
| "settle_all (p # ps) r nw = settle_all ps r (settle_promise p r nw)"

definition spawn_task :: "task \<Rightarrow> network \<Rightarrow> network" where
  "spawn_task t nw = nw\<lparr>nw_tasks := nw_tasks nw @ [(nw_next_task nw, t)], nw_next_task := Suc (nw_next_task nw)\<rparr>"

definition end_call :: "nat \<Rightarrow> unit result \<Rightarrow> network \<Rightarrow> network" where
  "end_call c r nw = nw\<lparr>nw_results := nw_results nw @ [(c, r)]\<rparr>"

text \<open>The byte layouts never fail to grow here (\<open>tcp_segment_bytes_eq\<close>, \<open>send_ip_pieces\<close>).\<close>

definition returned :: "'a result option \<Rightarrow> 'a result" where
  "returned r = (case r of Some x \<Rightarrow> x | None \<Rightarrow> Inl (Error ''does not return''))"

section \<open>Ports\<close>

fun port_attempts :: "nat \<Rightarrow> (nat \<Rightarrow> bool) \<Rightarrow> network \<Rightarrow> network \<times> nat result" where
  "port_attempts 0 in_use nw = (nw, Inl (Error ''no network ports available''))"
| "port_attempts (Suc n) in_use nw =
     (let port = nw_next_port nw;
          nw1 = nw\<lparr>nw_next_port := (if port = 65535 then 49152 else port + 1)\<rparr>
      in if \<not> in_use port then (nw1, Inr port) else port_attempts n in_use nw1)"

definition network_allocate_port :: "(nat \<Rightarrow> bool) \<Rightarrow> network \<Rightarrow> network \<times> nat result" where
  "network_allocate_port in_use nw = port_attempts (65535 - 49152) in_use nw"

section \<open>Sending\<close>

definition network_send_ip :: "bytes \<Rightarrow> nat \<Rightarrow> nat \<Rightarrow> nat \<Rightarrow> bytes \<Rightarrow> cont \<Rightarrow> network \<Rightarrow> network" where
  "network_send_ip mac source_ip destination_ip protocol payload k nw =
     (case returned (send_ip mac source_ip destination_ip protocol payload (nw_ip_identifier nw)) of
        Inl e \<Rightarrow> spawn_task (Ready (Inl e) k) nw
      | Inr frames \<Rightarrow>
          let nw1 = nw\<lparr>nw_ip_identifier := Suc (nw_ip_identifier nw)\<rparr>
          in case frames of
               [] \<Rightarrow> spawn_task (Ready (Inr ()) k) nw1
             | frame # rest \<Rightarrow> spawn_task (Sending rest k) (nw1\<lparr>nw_out := nw_out nw @ [frame]\<rparr>))"

definition tcp_receive_window :: "tcp_flow \<Rightarrow> nat" where
  "tcp_receive_window f = (case tf_readable f of
       None \<Rightarrow> TCP_RECEIVE_WINDOW
     | Some s \<Rightarrow>
         if tf_activation f \<noteq> None then (if tf_receive_demand f then TCP_RECEIVE_WINDOW else 0)
         else nat (max 0 (min (int TCP_RECEIVE_WINDOW) (case desired_size s of None \<Rightarrow> 0 | Some n \<Rightarrow> n))))"

definition send_tcp :: "nat \<Rightarrow> nat \<Rightarrow> bytes \<Rightarrow> cont \<Rightarrow> network \<Rightarrow> network" where
  "send_tcp i flags payload k nw =
     (let f = flow i nw; window = tcp_receive_window f
      in case returned (tcp_segment_bytes (tf_peer_ip f) (g_ip (tf_guest f)) (tf_peer_port f) (tf_guest_port f)
           (tf_send_sequence f) (tf_receive_sequence f) flags payload window) of
        Inl e \<Rightarrow> spawn_task (Ready (Inl e) k) nw
      | Inr segment \<Rightarrow>
          network_send_ip (g_mac (tf_guest f)) (tf_peer_ip f) (g_ip (tf_guest f)) IP_TCP segment k
            (on_flow i (\<lambda>f. f\<lparr>tf_advertised_window := window\<rparr>) nw))"

definition update_tcp_window :: "nat \<Rightarrow> network \<Rightarrow> network" where
  "update_tcp_window i = on_flow i (\<lambda>f. f\<lparr>tf_tail := tf_tail f @ [Update_Window]\<rparr>)"

definition wait_for_ack :: "nat \<Rightarrow> 32 word \<Rightarrow> network \<Rightarrow> network \<times> nat" where
  "wait_for_ack i acknowledgement nw =
     (let (nw1, p) = new_promise nw
      in (on_flow i (\<lambda>f. f\<lparr>tf_ack_waiters := tf_ack_waiters f @ [(p, acknowledgement)]\<rparr>) nw1, p))"

definition ack_timeout :: "nat \<Rightarrow> nat \<Rightarrow> network \<Rightarrow> network" where
  "ack_timeout i p nw =
     settle_promise p (Inl (Error ''timed out waiting for guest TCP acknowledgement''))
       (on_flow i (\<lambda>f. f\<lparr>tf_ack_waiters := filter (\<lambda>w. fst w \<noteq> p) (tf_ack_waiters f)\<rparr>) nw)"

definition acknowledge_waiters :: "nat \<Rightarrow> 32 word \<Rightarrow> network \<Rightarrow> network" where
  "acknowledge_waiters i acknowledgement nw =
     (let ws = tf_ack_waiters (flow i nw)
      in settle_all (map fst (filter (\<lambda>w. snd w = acknowledgement) ws)) (Inr ())
           (on_flow i (\<lambda>f. f\<lparr>tf_ack_waiters := filter (\<lambda>w. snd w \<noteq> acknowledgement) ws\<rparr>) nw))"

definition update_peer_window :: "nat \<Rightarrow> nat \<Rightarrow> network \<Rightarrow> network" where
  "update_peer_window i window nw =
     (let nw1 = on_flow i (\<lambda>f. f\<lparr>tf_peer_window := window\<rparr>) nw
      in if window = 0 then nw1
         else settle_all (tf_window_waiters (flow i nw)) (Inr ()) (on_flow i (\<lambda>f. f\<lparr>tf_window_waiters := []\<rparr>) nw1))"

section \<open>Closing a flow\<close>

text \<open>\<open>flow.readable?.error(error)\<close> or \<open>flow.readable?.close()\<close>, whose exception is swallowed.\<close>

definition end_readable :: "js_error option \<Rightarrow> rstream \<Rightarrow> rstream" where
  "end_readable error s = (case error of
       Some e \<Rightarrow> stream_error e s
     | None \<Rightarrow> (case stream_close s of Inl _ \<Rightarrow> s | Inr s' \<Rightarrow> s'))"

definition connection_closed :: js_error where
  "connection_closed = Error ''TCP connection closed''"

definition close_tcp_flow :: "nat \<Rightarrow> js_error option \<Rightarrow> network \<Rightarrow> network" where
  "close_tcp_flow i error nw =
     (let f = flow i nw
      in if length (nw_flows nw) \<le> i \<or> tf_closed f then nw
         else
           let reason = Inl (case error of Some e \<Rightarrow> e | None \<Rightarrow> connection_closed);
               nw1 = nw\<lparr>nw_tcp_flows := filter (\<lambda>x. fst x \<noteq> tf_key f) (nw_tcp_flows nw)\<rparr>;
               nw2 = settle_all (map fst (tf_ack_waiters f) @ tf_window_waiters f) reason nw1;
               nw3 = (case tf_activation_waiter f of None \<Rightarrow> nw2 | Some p \<Rightarrow> settle_promise p reason nw2);
               nw4 = (case (error, tf_handshake f) of (Some e, Some p) \<Rightarrow> settle_promise p (Inl e) nw3 | _ \<Rightarrow> nw3)
           in on_flow i (\<lambda>f. f\<lparr>tf_closed := True, tf_handshake_timer := False, tf_ack_waiters := [], tf_window_waiters := [],
                tf_external_abort := False, tf_activation_waiter := None, tf_abort := map_option (\<lambda>_. True) (tf_abort f),
                tf_readable := map_option (end_readable error) (tf_readable f)\<rparr>) nw4)"

definition abort_tcp_flow :: "nat \<Rightarrow> js_error option \<Rightarrow> network \<Rightarrow> network" where
  "abort_tcp_flow i error nw =
     (if tf_closed (flow i nw) then nw else close_tcp_flow i error (send_tcp i (TCP_RST + TCP_ACK) [] K_Done nw))"

definition handshake_timeout :: "nat \<Rightarrow> js_error \<Rightarrow> network \<Rightarrow> network" where
  "handshake_timeout i e nw = (if tf_handshake_timer (flow i nw) then abort_tcp_flow i (Some e) nw else nw)"

definition establish_tcp_flow :: "nat \<Rightarrow> network \<Rightarrow> network" where
  "establish_tcp_flow i nw =
     (let nw1 = (case tf_activation_waiter (flow i nw) of None \<Rightarrow> nw | Some p \<Rightarrow> settle_promise p (Inr ()) nw)
      in on_flow i (\<lambda>f. f\<lparr>tf_established := True, tf_activation_waiter := None, tf_handshake_timer := False\<rparr>) nw1)"

section \<open>Sending data and the end of the stream\<close>

definition tcp_closed :: js_error where
  "tcp_closed = Error ''TCP connection is closed''"

text \<open>The loop of \<open>wait_for_peer_window\<close> up to its await, or its return to the caller.\<close>

definition wait_for_peer_window :: "nat \<Rightarrow> sender \<Rightarrow> network \<Rightarrow> network" where
  "wait_for_peer_window i job nw =
     (let f = flow i nw
      in if \<not> tf_closed f \<and> tf_peer_window f = 0 then
           let (nw1, p) = new_promise nw
           in spawn_task (Awaiting p (K_Window_Wait i job))
                (on_flow i (\<lambda>f. f\<lparr>tf_window_waiters := tf_window_waiters f @ [p]\<rparr>) nw1)
         else if tf_closed f \<or> tf_local_ended f then spawn_task (Ready (Inl tcp_closed) (K_Window i job 0)) nw
         else spawn_task (Ready (Inr ()) (K_Window i job (tf_peer_window f))) nw)"

definition finish :: "origin \<Rightarrow> unit result \<Rightarrow> network \<Rightarrow> network" where
  "finish who r nw = (case who of
       By_Call c \<Rightarrow> end_call c r nw
     | By_Handler i \<Rightarrow> (case r of Inl e \<Rightarrow> abort_tcp_flow i (Some e) nw | Inr _ \<Rightarrow> nw))"

text \<open>The head of the loop of \<open>send_tcp_data\<close>, with the data that is left.\<close>

definition send_tcp_data :: "nat \<Rightarrow> bytes \<Rightarrow> origin \<Rightarrow> network \<Rightarrow> network" where
  "send_tcp_data i data who nw =
     (if data = [] then finish who (Inr ()) nw
      else if tf_closed (flow i nw) \<or> tf_local_ended (flow i nw) then finish who (Inl tcp_closed) nw
      else wait_for_peer_window i (Data_Sender data who) nw)"

definition send_tcp_fin :: "nat \<Rightarrow> origin \<Rightarrow> network \<Rightarrow> network" where
  "send_tcp_fin i who nw =
     (if tf_closed (flow i nw) \<or> tf_local_ended (flow i nw) then finish who (Inr ()) nw
      else wait_for_peer_window i (Fin_Sender who) nw)"

text \<open>What follows the await of \<open>wait_for_peer_window\<close>: one segment goes out.\<close>

definition send_with_window :: "nat \<Rightarrow> sender \<Rightarrow> nat \<Rightarrow> network \<Rightarrow> network" where
  "send_with_window i job peer_window nw = (case job of
       Data_Sender data who \<Rightarrow>
         let n = min TCP_MSS (min peer_window (length data)); payload = take n data;
             acknowledgement = sequence_add (tf_send_sequence (flow i nw)) (length payload);
             (nw1, acked) = wait_for_ack i acknowledgement nw
         in send_tcp i (TCP_ACK + TCP_PSH) payload (K_Data_Sent i acked acknowledgement (drop n data) who) nw1
     | Fin_Sender who \<Rightarrow>
         let nw1 = on_flow i (\<lambda>f. f\<lparr>tf_local_ended := True\<rparr>) nw;
             acknowledgement = sequence_add (tf_send_sequence (flow i nw1)) 1;
             (nw2, acked) = wait_for_ack i acknowledgement nw1
         in send_tcp i (TCP_ACK + TCP_FIN) [] (K_Fin_Sent i acked acknowledgement who) nw2)"

definition sender_origin :: "sender \<Rightarrow> origin" where
  "sender_origin job = (case job of Data_Sender _ who \<Rightarrow> who | Fin_Sender who \<Rightarrow> who)"

section \<open>The streams of a connection\<close>

definition activate :: "nat \<Rightarrow> network \<Rightarrow> network \<times> nat" where
  "activate i nw = (case tf_activation (flow i nw) of
       Some p \<Rightarrow> (nw, p)
     | None \<Rightarrow>
         let (nw1, p) = new_promise nw; (nw2, waiter) = new_promise nw1;
             nw3 = on_flow i (\<lambda>f. f\<lparr>tf_activation_waiter := Some waiter\<rparr>) nw2;
             nw4 = send_tcp i (TCP_SYN + TCP_ACK) [] (K_Activate_Sent i p waiter) nw3
         in (on_flow i (\<lambda>f. f\<lparr>tf_activation := Some p\<rparr>) nw4, p))"

text \<open>\<open>await activate?.()\<close>: the connections a guest opens have one, those to a guest do not.\<close>

definition await_activation :: "nat \<Rightarrow> cont \<Rightarrow> network \<Rightarrow> network" where
  "await_activation i k nw =
     (if tf_abort (flow i nw) = None then spawn_task (Ready (Inr ()) k) nw
      else let (nw1, p) = activate i nw in spawn_task (Awaiting p k) nw1)"

definition stream_pull :: "nat \<Rightarrow> network \<Rightarrow> network" where
  "stream_pull i nw = await_activation i (K_Pull i) (on_flow i (\<lambda>f. f\<lparr>tf_receive_demand := True\<rparr>) nw)"

definition on_readable :: "nat \<Rightarrow> (rstream \<Rightarrow> rstream \<times> bool) \<Rightarrow> network \<Rightarrow> network" where
  "on_readable i operation nw = (case tf_readable (flow i nw) of
       None \<Rightarrow> nw
     | Some s \<Rightarrow>
         let (s', pull) = operation s; nw1 = on_flow i (\<lambda>f. f\<lparr>tf_readable := Some s'\<rparr>) nw
         in if pull then stream_pull i nw1 else nw1)"

definition host_tcp_connection :: "nat \<Rightarrow> network \<Rightarrow> network" where
  "host_tcp_connection i = on_flow i (\<lambda>f. f\<lparr>tf_readable :=
     Some (new_stream (if tf_abort f = None then TCP_RECEIVE_WINDOW else 0) True)\<rparr>)"

definition stream_write :: "nat \<Rightarrow> bytes \<Rightarrow> nat \<Rightarrow> network \<Rightarrow> network" where
  "stream_write i chunk c = await_activation i (K_Write i chunk c)"

definition stream_end :: "nat \<Rightarrow> nat \<Rightarrow> network \<Rightarrow> network" where
  "stream_end i c = await_activation i (K_Close i c)"

definition readable_cancel :: "nat \<Rightarrow> js_error option \<Rightarrow> network \<Rightarrow> network" where
  "readable_cancel i reason nw = (case tf_readable (flow i nw) of
       None \<Rightarrow> nw
     | Some s \<Rightarrow>
         let (s', called) = stream_cancel s; nw1 = on_flow i (\<lambda>f. f\<lparr>tf_readable := Some s'\<rparr>) nw
         in if called then abort_tcp_flow i reason nw1 else nw1)"

section \<open>Connections a guest opens\<close>

definition reject_outbound_tcp :: "nat \<Rightarrow> js_error \<Rightarrow> network \<Rightarrow> network" where
  "reject_outbound_tcp i error nw =
     (let f = flow i nw
      in case returned (tcp_segment_bytes (tf_peer_ip f) (g_ip (tf_guest f)) (tf_peer_port f) (tf_guest_port f) 0
           (tf_receive_sequence f) (TCP_RST + TCP_ACK) [] TCP_RECEIVE_WINDOW) of
        Inl e \<Rightarrow> nw
      | Inr rst \<Rightarrow> close_tcp_flow i (Some error)
          (network_send_ip (g_mac (tf_guest f)) (tf_peer_ip f) (g_ip (tf_guest f)) IP_TCP rst K_Done nw))"

definition new_flow ::
    "string \<Rightarrow> guest \<Rightarrow> nat \<Rightarrow> nat \<Rightarrow> nat \<Rightarrow> 32 word \<Rightarrow> 32 word \<Rightarrow> nat \<Rightarrow> nat option \<Rightarrow> tcp_flow" where
  "new_flow key guest guest_port peer_ip peer_port send_sequence receive_sequence peer_window handshake =
     \<lparr>tf_key = key, tf_guest = guest, tf_guest_port = guest_port, tf_peer_ip = peer_ip, tf_peer_port = peer_port,
      tf_send_sequence = send_sequence, tf_receive_sequence = receive_sequence, tf_established = False,
      tf_local_ended = False, tf_remote_ended = False, tf_closed = False, tf_ack_waiters = [], tf_window_waiters = [],
      tf_tail = [], tf_busy = False, tf_advertised_window = TCP_RECEIVE_WINDOW, tf_peer_window = peer_window,
      tf_handshake = handshake, tf_handshake_timer = True, tf_readable = None, tf_activation = None,
      tf_activation_waiter = None, tf_abort = None, tf_receive_demand = False, tf_external_abort = False\<rparr>"

definition add_flow :: "tcp_flow \<Rightarrow> network \<Rightarrow> network" where
  "add_flow f nw = nw\<lparr>nw_flows := nw_flows nw @ [f],
     nw_tcp_flows := AList.update (tf_key f) (length (nw_flows nw)) (nw_tcp_flows nw)\<rparr>"

definition start_outbound_tcp :: "guest \<Rightarrow> ip_datagram \<Rightarrow> tcp_segment \<Rightarrow> 32 word \<Rightarrow> network \<Rightarrow> network" where
  "start_outbound_tcp guest ip seg initial nw =
     (let key = tcp_key (id_source ip) (ts_source_port seg) (id_destination ip) (ts_destination_port seg)
      in if map_of (nw_tcp_flows nw) key \<noteq> None then nw
         else host_tcp_connection (length (nw_flows nw)) (add_flow ((new_flow key guest (ts_source_port seg)
           (id_destination ip) (ts_destination_port seg) initial (sequence_add (ts_sequence seg) 1) (ts_window seg)
           None)\<lparr>tf_abort := Some False\<rparr>) nw))"

text \<open>The promise of \<open>connectTcp(session)\<close> has settled.\<close>

definition handler_done :: "nat \<Rightarrow> unit result \<Rightarrow> network \<Rightarrow> network" where
  "handler_done i r nw =
     (if tf_closed (flow i nw) then nw
      else case r of
        Inr _ \<Rightarrow>
          if tf_activation (flow i nw) = None
          then reject_outbound_tcp i (Error ''TCP handler completed without using the session'') nw
          else send_tcp_fin i (By_Handler i) nw
      | Inl e \<Rightarrow>
          if tf_activation (flow i nw) \<noteq> None then abort_tcp_flow i (Some e) nw
          else reject_outbound_tcp i e nw)"

section \<open>Segments from a guest\<close>

definition reply :: "nat \<Rightarrow> cont \<Rightarrow> network \<Rightarrow> network" where
  "reply i k nw = send_tcp i TCP_ACK [] k (on_flow i (\<lambda>f. f\<lparr>tf_busy := True\<rparr>) nw)"

definition take_payload :: "nat \<Rightarrow> bytes \<Rightarrow> network \<Rightarrow> network result" where
  "take_payload i payload nw =
     (let took = on_flow i (\<lambda>f. f\<lparr>tf_receive_demand := False,
            tf_receive_sequence := sequence_add (tf_receive_sequence f) (length payload)\<rparr>)
      in if payload = [] then Inr nw
         else case tf_readable (flow i nw) of
           None \<Rightarrow> Inr (took nw)
         | Some s \<Rightarrow> bindE (stream_enqueue payload s) (\<lambda>r. Inr (took (on_readable i (\<lambda>_. r) nw))))"

definition take_fin :: "nat \<Rightarrow> network \<Rightarrow> network \<times> js_error option" where
  "take_fin i nw =
     (let nw1 = on_flow i (\<lambda>f. f\<lparr>tf_receive_sequence := sequence_add (tf_receive_sequence f) 1, tf_remote_ended := True\<rparr>) nw
      in case tf_readable (flow i nw1) of
           None \<Rightarrow> (nw1, None)
         | Some s \<Rightarrow> (case stream_close s of
             Inl e \<Rightarrow> (nw1, Some e)
           | Inr s' \<Rightarrow> (on_flow i (\<lambda>f. f\<lparr>tf_readable := Some s'\<rparr>) nw1, None)))"

definition has_tcp_flag :: "nat \<Rightarrow> tcp_segment \<Rightarrow> bool" where
  "has_tcp_flag flag seg \<longleftrightarrow> ts_flags seg AND flag \<noteq> 0"

definition fail_tail :: "nat \<Rightarrow> js_error \<Rightarrow> network \<Rightarrow> network" where
  "fail_tail i e nw = spawn_task (Ready (Inl e) (K_Tail i)) (on_flow i (\<lambda>f. f\<lparr>tf_busy := True\<rparr>) nw)"

definition accept_segment :: "nat \<Rightarrow> tcp_segment \<Rightarrow> network \<Rightarrow> network" where
  "accept_segment i seg nw = (case take_payload i (ts_payload seg) nw of
       Inl e \<Rightarrow> fail_tail i e nw
     | Inr nw1 \<Rightarrow> (case (if has_tcp_flag TCP_FIN seg then take_fin i nw1 else (nw1, None)) of
         (nw2, Some e) \<Rightarrow> fail_tail i e nw2
       | (nw2, None) \<Rightarrow> reply i (K_Accepted i) nw2))"

definition process_tcp :: "nat \<Rightarrow> tcp_segment \<Rightarrow> network \<Rightarrow> network" where
  "process_tcp i seg nw =
     (if tf_closed (flow i nw) then nw
      else if has_tcp_flag TCP_RST seg then close_tcp_flow i (Some (Error ''guest reset TCP connection'')) nw
      else
        let nw1 = (if has_tcp_flag TCP_ACK seg
              then acknowledge_waiters i (ts_acknowledgement seg) (update_peer_window i (ts_window seg) nw) else nw);
            f = flow i nw1
        in if \<not> tf_established f then
             if tf_handshake f \<noteq> None then
               if ts_flags seg AND (TCP_SYN + TCP_ACK) \<noteq> TCP_SYN + TCP_ACK \<or> ts_acknowledgement seg \<noteq> tf_send_sequence f then nw1
               else reply i (K_Handshake i)
                 (establish_tcp_flow i (on_flow i (\<lambda>f. f\<lparr>tf_receive_sequence := sequence_add (ts_sequence seg) 1\<rparr>) nw1))
             else if has_tcp_flag TCP_ACK seg \<and> ts_acknowledgement seg = tf_send_sequence f then establish_tcp_flow i nw1
             else nw1
           else if ts_payload seg = [] \<and> \<not> has_tcp_flag TCP_FIN seg then nw1
           else if ts_sequence seg \<noteq> tf_receive_sequence f then reply i (K_Replied i) nw1
           else if ts_payload seg \<noteq> [] \<and> length (ts_payload seg) > tcp_receive_window f then reply i (K_Replied i) nw1
           else accept_segment i seg nw1)"

text \<open>The next job chained to \<open>receive_tail\<close> starts when the one before it is done.\<close>

definition run_tail :: "nat \<Rightarrow> network \<Rightarrow> network" where
  "run_tail i nw =
     (let f = flow i nw
      in if tf_busy f then nw
         else case tf_tail f of
           [] \<Rightarrow> nw
         | job # jobs \<Rightarrow>
             let nw1 = on_flow i (\<lambda>f. f\<lparr>tf_tail := jobs\<rparr>) nw
             in case job of
                  Process seg \<Rightarrow> process_tcp i seg nw1
                | Update_Window \<Rightarrow>
                    if \<not> tf_closed f \<and> tf_established f \<and> tcp_receive_window f > tf_advertised_window f
                    then reply i (K_Tail i) nw1 else nw1)"

definition tail_done :: "nat \<Rightarrow> unit result \<Rightarrow> network \<Rightarrow> network" where
  "tail_done i r nw =
     (let nw1 = on_flow i (\<lambda>f. f\<lparr>tf_busy := False\<rparr>) nw
      in case r of Inl e \<Rightarrow> abort_tcp_flow i (Some e) nw1 | Inr _ \<Rightarrow> nw1)"

section \<open>After an await\<close>

fun run_cont :: "cont \<Rightarrow> unit result \<Rightarrow> network \<Rightarrow> network" where
  "run_cont K_Done r nw = nw"
| "run_cont (K_Call c) r nw = end_call c r nw"
| "run_cont (K_Close_On_Error i) r nw = (case r of Inl e \<Rightarrow> close_tcp_flow i (Some e) nw | Inr _ \<Rightarrow> nw)"
| "run_cont (K_Handshake i) r nw = (case r of
       Inl e \<Rightarrow> tail_done i r nw
     | Inr _ \<Rightarrow>
         let nw1 = host_tcp_connection i nw;
             nw2 = (case tf_handshake (flow i nw) of None \<Rightarrow> nw1 | Some p \<Rightarrow> settle_promise p (Inr ()) nw1)
         in tail_done i r (on_flow i (\<lambda>f. f\<lparr>tf_handshake := None\<rparr>) nw2))"
| "run_cont (K_Replied i) r nw = tail_done i r nw"
| "run_cont (K_Accepted i) r nw =
     tail_done i r
       (if is_ok r \<and> tf_local_ended (flow i nw) \<and> tf_remote_ended (flow i nw) \<and> tf_ack_waiters (flow i nw) = []
        then close_tcp_flow i None nw else nw)"
| "run_cont (K_Tail i) r nw = tail_done i r nw"
| "run_cont (K_Window_Wait i job) r nw = (case r of
       Inl e \<Rightarrow> spawn_task (Ready (Inl e) (K_Window i job 0)) nw
     | Inr _ \<Rightarrow> wait_for_peer_window i job nw)"
| "run_cont (K_Window i job w) r nw = (case r of
       Inl e \<Rightarrow> finish (sender_origin job) r nw
     | Inr _ \<Rightarrow> send_with_window i job w nw)"
| "run_cont (K_Data_Sent i acked acknowledgement rest who) r nw = (case r of
       Inl e \<Rightarrow> finish who r nw
     | Inr _ \<Rightarrow> spawn_task (Awaiting acked (K_Data_Acked i rest who))
         (on_flow i (\<lambda>f. f\<lparr>tf_send_sequence := acknowledgement\<rparr>) nw))"
| "run_cont (K_Data_Acked i rest who) r nw = (case r of
       Inl e \<Rightarrow> finish who r nw
     | Inr _ \<Rightarrow> send_tcp_data i rest who nw)"
| "run_cont (K_Fin_Sent i acked acknowledgement who) r nw = (case r of
       Inl e \<Rightarrow> finish who r nw
     | Inr _ \<Rightarrow> spawn_task (Awaiting acked (K_Fin_Acked i who))
         (on_flow i (\<lambda>f. f\<lparr>tf_send_sequence := acknowledgement\<rparr>) nw))"
| "run_cont (K_Fin_Acked i who) r nw = (case r of
       Inl e \<Rightarrow> finish who r nw
     | Inr _ \<Rightarrow> finish who r (if tf_remote_ended (flow i nw) then close_tcp_flow i None nw else nw))"
| "run_cont (K_Activate_Sent i p waiter) r nw = (case r of
       Inl e \<Rightarrow> settle_promise p r nw
     | Inr _ \<Rightarrow> spawn_task (Awaiting waiter (K_Activated p))
         (on_flow i (\<lambda>f. f\<lparr>tf_send_sequence := sequence_add (tf_send_sequence f) 1\<rparr>) nw))"
| "run_cont (K_Activated p) r nw = settle_promise p r nw"
| "run_cont (K_Write i chunk c) r nw = (case r of
       Inl e \<Rightarrow> end_call c r nw
     | Inr _ \<Rightarrow> send_tcp_data i chunk (By_Call c) nw)"
| "run_cont (K_Close i c) r nw = (case r of
       Inl e \<Rightarrow> end_call c r nw
     | Inr _ \<Rightarrow> send_tcp_fin i (By_Call c) nw)"
| "run_cont (K_Pull i) r nw =
     spawn_task (Ready r (K_Pulled i)) (case r of Inl e \<Rightarrow> nw | Inr _ \<Rightarrow> update_tcp_window i nw)"
| "run_cont (K_Pulled i) r nw = on_readable i (stream_pulled r) nw"

definition drop_task :: "nat \<Rightarrow> network \<Rightarrow> network" where
  "drop_task t nw = nw\<lparr>nw_tasks := filter (\<lambda>x. fst x \<noteq> t) (nw_tasks nw)\<rparr>"

text \<open>A call of \<open>gateway.send\<close> has settled: the next fragment goes out, or \<open>send_ip\<close> is done.\<close>

definition task_sent :: "nat \<Rightarrow> unit result \<Rightarrow> network \<Rightarrow> network" where
  "task_sent t r nw = (case map_of (nw_tasks nw) t of
       Some (Sending rest k) \<Rightarrow> (case (r, rest) of
           (Inr _, frame # frames) \<Rightarrow>
             nw\<lparr>nw_out := nw_out nw @ [frame], nw_tasks := AList.update t (Sending frames k) (nw_tasks nw)\<rparr>
         | _ \<Rightarrow> run_cont k r (drop_task t nw))
     | _ \<Rightarrow> nw)"

definition task_resume :: "nat \<Rightarrow> network \<Rightarrow> network" where
  "task_resume t nw = (case map_of (nw_tasks nw) t of
       Some (Ready r k) \<Rightarrow> run_cont k r (drop_task t nw)
     | Some (Awaiting p k) \<Rightarrow> (case nw_settled nw p of
           None \<Rightarrow> nw
         | Some r \<Rightarrow> run_cont k r (drop_task t nw))
     | _ \<Rightarrow> nw)"

section \<open>Frames from the switch\<close>

definition receive_tcp :: "ip_datagram \<Rightarrow> nat list \<Rightarrow> 32 word \<Rightarrow> network \<Rightarrow> network" where
  "receive_tcp ip source_mac initial nw = (case parse_tcp (id_payload ip) of
       Inr (Some seg) \<Rightarrow> (case map_of (nw_attachments nw) (id_source ip) of
           None \<Rightarrow> nw
         | Some guest \<Rightarrow>
             if source_mac \<noteq> map unat (g_mac guest) then nw
             else case map_of (nw_tcp_flows nw) (tcp_key (id_source ip) (ts_source_port seg) (id_destination ip) (ts_destination_port seg)) of
               None \<Rightarrow> if has_tcp_flag TCP_SYN seg \<and> \<not> has_tcp_flag TCP_ACK seg then start_outbound_tcp guest ip seg initial nw else nw
             | Some i \<Rightarrow> on_flow i (\<lambda>f. f\<lparr>tf_tail := tf_tail f @ [Process seg]\<rparr>) nw)
     | _ \<Rightarrow> nw)"

definition receive_dns :: "guest \<Rightarrow> udp_datagram \<Rightarrow> network \<Rightarrow> network" where
  "receive_dns guest datagram nw = (case decode_dns_name (ud_payload datagram) 12 of
       Inl e \<Rightarrow> nw
     | Inr (hostname, _) \<Rightarrow> spawn_task (Resolving guest datagram hostname) nw)"

text \<open>The promise of \<open>resolveDns(hostname)\<close> has settled.\<close>

definition dns_resolved :: "nat \<Rightarrow> string list result \<Rightarrow> network \<Rightarrow> network" where
  "dns_resolved t answer nw = (case map_of (nw_tasks nw) t of
       Some (Resolving guest datagram _) \<Rightarrow>
         (case bindE answer (\<lambda>addresses.
            bindE (returned (dns_response (ud_payload datagram) addresses)) (\<lambda>response.
            returned (udp_datagram_bytes 53 (ud_source_port datagram) response))) of
            Inl e \<Rightarrow> drop_task t nw
          | Inr udp \<Rightarrow> network_send_ip (g_mac guest) GATEWAY_IP (g_ip guest) IP_UDP udp K_Done (drop_task t nw))
     | _ \<Rightarrow> nw)"

definition receive_udp :: "ip_datagram \<Rightarrow> network \<Rightarrow> network" where
  "receive_udp ip nw = (case parse_udp (id_payload ip) of
       Inr (Some datagram) \<Rightarrow> (case map_of (nw_attachments nw) (id_source ip) of
           None \<Rightarrow> nw
         | Some guest \<Rightarrow>
             if id_destination ip = GATEWAY_IP \<and> ud_destination_port datagram = 53 then receive_dns guest datagram nw
             else if id_destination ip \<noteq> GATEWAY_IP then nw
             else case map_of (nw_udp_flows nw) (udp_key (id_source ip) (ud_source_port datagram) (ud_destination_port datagram)) of
               None \<Rightarrow> nw
             | Some u \<Rightarrow>
                 if (case desired_size (uf_readable (nw_udps nw ! u)) of None \<Rightarrow> 0 | Some n \<Rightarrow> n) > 0
                 then case stream_enqueue (ud_payload datagram) (uf_readable (nw_udps nw ! u)) of
                        Inl e \<Rightarrow> nw
                      | Inr (s, _) \<Rightarrow> on_udp u (\<lambda>f. f\<lparr>uf_readable := s\<rparr>) nw
                 else nw)
     | _ \<Rightarrow> nw)"

definition receive_frame :: "bytes \<Rightarrow> 32 word \<Rightarrow> network \<Rightarrow> network" where
  "receive_frame frame initial nw = (case returned (receive_arp frame) of
       Inl e \<Rightarrow> nw
     | Inr arp \<Rightarrow>
         let nw1 = (case arp of None \<Rightarrow> nw | Some answer \<Rightarrow> nw\<lparr>nw_out := nw_out nw @ [answer]\<rparr>);
             (rs, datagram) = ip_input frame (nw_ip_reassemblies nw1); nw2 = nw1\<lparr>nw_ip_reassemblies := rs\<rparr>
         in case datagram of
              None \<Rightarrow> nw2
            | Some ip \<Rightarrow> (case header_mac frame ''source'' of
                  Inl e \<Rightarrow> nw2
                | Inr source_mac \<Rightarrow>
                    if id_protocol ip = IP_TCP then receive_tcp ip source_mac initial nw2
                    else if id_protocol ip = IP_UDP then receive_udp ip nw2
                    else nw2))"

definition reassembly_timeout :: "string \<Rightarrow> network \<Rightarrow> network" where
  "reassembly_timeout key nw = nw\<lparr>nw_ip_reassemblies := discard_ip_reassembly key (nw_ip_reassemblies nw)\<rparr>"

section \<open>Connections the host opens\<close>

datatype abort_signal = No_Signal | Live_Signal | Aborted_Signal js_error

definition guest_named :: "string \<Rightarrow> network \<Rightarrow> guest result" where
  "guest_named hostname nw = bindE (ipv4_number hostname) (\<lambda>address.
     case map_of (nw_attachments nw) address of
       None \<Rightarrow> Inl (Error (hostname @ '' is not attached to this network''))
     | Some guest \<Rightarrow> Inr guest)"

definition open_tcp :: "guest \<Rightarrow> nat \<Rightarrow> nat \<Rightarrow> bool \<Rightarrow> 32 word \<Rightarrow> network \<Rightarrow> network \<times> nat result" where
  "open_tcp guest port local signal initial nw =
     (let (nw1, handshake) = new_promise nw; i = length (nw_flows nw1);
          nw2 = add_flow ((new_flow (tcp_key (g_ip guest) port GATEWAY_IP local) guest port GATEWAY_IP local
            (sequence_add initial 1) 0 0 (Some handshake))\<lparr>tf_external_abort := signal\<rparr>) nw1
      in case returned (tcp_segment_bytes GATEWAY_IP (g_ip guest) local port initial 0 TCP_SYN [] TCP_RECEIVE_WINDOW) of
           Inl e \<Rightarrow> (nw2, Inl e)
         | Inr syn \<Rightarrow>
             (network_send_ip (g_mac guest) GATEWAY_IP (g_ip guest) IP_TCP syn (K_Close_On_Error i) nw2, Inr handshake))"

definition connect_tcp :: "string \<Rightarrow> int \<Rightarrow> abort_signal \<Rightarrow> 32 word \<Rightarrow> network \<Rightarrow> network \<times> nat result" where
  "connect_tcp hostname port signal initial nw = (case signal of
       Aborted_Signal e \<Rightarrow> (nw, Inl e)
     | _ \<Rightarrow>
         if nw_closed nw then (nw, Inl (Error ''network is closed''))
         else if \<not> valid_port port then (nw, Inl (TypeError ''invalid TCP port''))
         else case guest_named hostname nw of
           Inl e \<Rightarrow> (nw, Inl e)
         | Inr guest \<Rightarrow>
             (case network_allocate_port (\<lambda>candidate.
                 map_of (nw_tcp_flows nw) (tcp_key (g_ip guest) (nat port) GATEWAY_IP candidate) \<noteq> None) nw of
                (nw1, Inl e) \<Rightarrow> (nw1, Inl e)
              | (nw1, Inr local) \<Rightarrow> open_tcp guest (nat port) local (signal = Live_Signal) initial nw1))"

definition external_abort :: "nat \<Rightarrow> js_error \<Rightarrow> network \<Rightarrow> network" where
  "external_abort i e nw = (if tf_external_abort (flow i nw) then abort_tcp_flow i (Some e) nw else nw)"

definition connect_udp :: "string \<Rightarrow> int \<Rightarrow> network \<Rightarrow> network \<times> nat result" where
  "connect_udp hostname port nw =
     (if nw_closed nw then (nw, Inl (Error ''network is closed''))
      else if \<not> valid_port port then (nw, Inl (TypeError ''invalid UDP port''))
      else case guest_named hostname nw of
        Inl e \<Rightarrow> (nw, Inl e)
      | Inr guest \<Rightarrow>
          (case network_allocate_port (\<lambda>candidate.
              map_of (nw_udp_flows nw) (udp_key (g_ip guest) (nat port) candidate) \<noteq> None) nw of
             (nw1, Inl e) \<Rightarrow> (nw1, Inl e)
           | (nw1, Inr local) \<Rightarrow>
               let u = length (nw_udps nw1); key = udp_key (g_ip guest) (nat port) local;
                   f = \<lparr>uf_key = key, uf_guest = guest, uf_guest_port = nat port, uf_host_port = local,
                     uf_readable = new_stream UDP_READABLE_QUEUE_CAP False, uf_closed = False\<rparr>
               in (nw1\<lparr>nw_udps := nw_udps nw1 @ [f], nw_udp_flows := AList.update key u (nw_udp_flows nw1)\<rparr>, Inr u)))"

definition udp_write :: "nat \<Rightarrow> bytes \<Rightarrow> nat \<Rightarrow> network \<Rightarrow> network" where
  "udp_write u payload c nw =
     (let f = nw_udps nw ! u
      in if uf_closed f then end_call c (Inl (Error ''UDP connection is closed'')) nw
         else case returned (udp_datagram_bytes (uf_host_port f) (uf_guest_port f) payload) of
           Inl e \<Rightarrow> end_call c (Inl e) nw
         | Inr datagram \<Rightarrow>
             network_send_ip (g_mac (uf_guest f)) GATEWAY_IP (g_ip (uf_guest f)) IP_UDP datagram (K_Call c) nw)"

definition udp_close :: "nat \<Rightarrow> network \<Rightarrow> network" where
  "udp_close u nw =
     (let f = nw_udps nw ! u
      in if uf_closed f then nw
         else (on_udp u (\<lambda>f. f\<lparr>uf_closed := True, uf_readable := end_readable None (uf_readable f)\<rparr>) nw)
           \<lparr>nw_udp_flows := filter (\<lambda>x. fst x \<noteq> uf_key f) (nw_udp_flows nw)\<rparr>)"

definition udp_cancel :: "nat \<Rightarrow> network \<Rightarrow> network" where
  "udp_cancel u nw =
     (let (s, called) = stream_cancel (uf_readable (nw_udps nw ! u)); nw1 = on_udp u (\<lambda>f. f\<lparr>uf_readable := s\<rparr>) nw
      in if called then udp_close u nw1 else nw1)"

section \<open>Guests come and go\<close>

definition guest_address :: "nat \<Rightarrow> string" where
  "guest_address suffix = ''192.0.2.'' @ decimal suffix"

definition do_attach_guest :: "network \<Rightarrow> network \<times> guest result" where
  "do_attach_guest nw =
     (if nw_closed nw then (nw, Inl (Error ''network is closed''))
      else if nw_next_address nw > 254 then (nw, Inl (Error ''network has no guest addresses left''))
      else
        let suffix = nw_next_address nw; nw1 = nw\<lparr>nw_next_address := Suc suffix\<rparr>
        in case ipv4_number (guest_address suffix) of
             Inl e \<Rightarrow> (nw1, Inl e)
           | Inr ip \<Rightarrow>
               let guest = \<lparr>g_ip = ip, g_mac = [2, 0, 0, 0, 0, word_of_nat suffix]\<rparr>
               in (nw1\<lparr>nw_attachments := AList.update ip guest (nw_attachments nw1)\<rparr>, Inr guest))"

definition attach_guest :: "nat \<Rightarrow> network \<Rightarrow> network \<times> guest result" where
  "attach_guest agent nw =
     (if agent \<in> set (nw_networked_agents nw) then (nw, Inl (Error ''guest agent already has a network attachment''))
      else case do_attach_guest nw of
        (nw1, Inl e) \<Rightarrow> (nw1, Inl e)
      | (nw1, Inr guest) \<Rightarrow> (nw1\<lparr>nw_networked_agents := agent # nw_networked_agents nw1\<rparr>, Inr guest))"

fun abort_flows :: "nat list \<Rightarrow> js_error \<Rightarrow> network \<Rightarrow> network" where
  "abort_flows [] e nw = nw"
| "abort_flows (i # js) e nw = abort_flows js e (abort_tcp_flow i (Some e) nw)"

text \<open>A UDP flow whose stream cannot be closed ends the loop with an exception.\<close>

fun close_udps :: "bool \<Rightarrow> nat list \<Rightarrow> network \<Rightarrow> network \<times> unit result" where
  "close_udps forget [] nw = (nw, Inr ())"
| "close_udps forget (u # us) nw =
     (let f = nw_udps nw ! u; nw1 = on_udp u (\<lambda>f. f\<lparr>uf_closed := True\<rparr>) nw;
          nw2 = (if forget then nw1\<lparr>nw_udp_flows := filter (\<lambda>x. fst x \<noteq> uf_key f) (nw_udp_flows nw1)\<rparr> else nw1)
      in case stream_close (uf_readable f) of
           Inl e \<Rightarrow> (nw2, Inl e)
         | Inr s \<Rightarrow> close_udps forget us (on_udp u (\<lambda>f. f\<lparr>uf_readable := s\<rparr>) nw2))"

definition udps_of_guest :: "nat \<Rightarrow> network \<Rightarrow> nat list" where
  "udps_of_guest ip nw = filter (\<lambda>u. g_ip (uf_guest (nw_udps nw ! u)) = ip) (map snd (nw_udp_flows nw))"

definition attachment_close :: "nat \<Rightarrow> network \<Rightarrow> network \<times> unit result" where
  "attachment_close ip nw =
     (if map_of (nw_attachments nw) ip = None then (nw, Inr ())
      else
        let nw1 = nw\<lparr>nw_attachments := filter (\<lambda>x. fst x \<noteq> ip) (nw_attachments nw)\<rparr>;
            nw2 = abort_flows (filter (\<lambda>i. g_ip (tf_guest (flow i nw1)) = ip) (map snd (nw_tcp_flows nw1)))
              (Error ''guest detached from network'') nw1;
            (nw3, r) = close_udps True (udps_of_guest ip nw2) nw2
        in (case r of Inl e \<Rightarrow> nw3
            | Inr _ \<Rightarrow> nw3\<lparr>nw_ip_reassemblies := filter (\<lambda>x. ra_source (snd x) \<noteq> ip) (nw_ip_reassemblies nw3)\<rparr>, r))"

definition net_close :: "network \<Rightarrow> network \<times> unit result" where
  "net_close nw =
     (if nw_closed nw then (nw, Inr ())
      else
        let nw1 = abort_flows (map snd (nw_tcp_flows nw)) (Error ''network closed'') (nw\<lparr>nw_closed := True\<rparr>);
            (nw2, r) = close_udps False (map snd (nw_udp_flows nw1)) nw1
        in (case r of
              Inl e \<Rightarrow> nw2
            | Inr _ \<Rightarrow> nw2\<lparr>nw_tcp_flows := [], nw_udp_flows := [], nw_ip_reassemblies := [], nw_attachments := [],
                nw_gateway_closed := True\<rparr>, r))"

section \<open>Everything that can happen\<close>

datatype net_event =
    E_Frame bytes "32 word"
  | E_Sent nat "unit result"
  | E_Resume nat
  | E_Resolved nat "string list result"
  | E_Tail nat
  | E_Ack_Timeout nat nat
  | E_Handshake_Timeout nat js_error
  | E_Reassembly_Timeout string
  | E_External_Abort nat js_error
  | E_Handler_Done nat "unit result"
  | E_Connect_Tcp string int abort_signal "32 word"
  | E_Connect_Udp string int
  | E_Started nat
  | E_Read nat
  | E_Cancel nat "js_error option"
  | E_Write nat bytes nat
  | E_End nat nat
  | E_Abort nat "js_error option"
  | E_Udp_Read nat
  | E_Udp_Write nat bytes nat
  | E_Udp_Close nat
  | E_Udp_Cancel nat
  | E_Attach nat
  | E_Detach nat
  | E_Close

text \<open>Events of a flow need the flow, and timers need to be running.\<close>

fun enabled :: "net_event \<Rightarrow> network \<Rightarrow> bool" where
  "enabled (E_Tail i) nw = (i < length (nw_flows nw))"
| "enabled (E_Ack_Timeout i p) nw = (i < length (nw_flows nw) \<and> p \<in> fst ` set (tf_ack_waiters (flow i nw)))"
| "enabled (E_Handshake_Timeout i e) nw = (i < length (nw_flows nw))"
| "enabled (E_External_Abort i e) nw = (i < length (nw_flows nw))"
| "enabled (E_Handler_Done i r) nw = (i < length (nw_flows nw) \<and> tf_abort (flow i nw) \<noteq> None)"
| "enabled (E_Started i) nw = (i < length (nw_flows nw))"
| "enabled (E_Read i) nw = (i < length (nw_flows nw))"
| "enabled (E_Cancel i reason) nw = (i < length (nw_flows nw))"
| "enabled (E_Write i chunk c) nw = (i < length (nw_flows nw) \<and> tf_readable (flow i nw) \<noteq> None)"
| "enabled (E_End i c) nw = (i < length (nw_flows nw) \<and> tf_readable (flow i nw) \<noteq> None)"
| "enabled (E_Abort i reason) nw = (i < length (nw_flows nw) \<and> tf_readable (flow i nw) \<noteq> None)"
| "enabled (E_Udp_Read u) nw = (u < length (nw_udps nw))"
| "enabled (E_Udp_Write u payload c) nw = (u < length (nw_udps nw))"
| "enabled (E_Udp_Close u) nw = (u < length (nw_udps nw))"
| "enabled (E_Udp_Cancel u) nw = (u < length (nw_udps nw))"
| "enabled _ nw = True"

fun perform :: "net_event \<Rightarrow> network \<Rightarrow> network" where
  "perform (E_Frame frame initial) nw = receive_frame frame initial nw"
| "perform (E_Sent t r) nw = task_sent t r nw"
| "perform (E_Resume t) nw = task_resume t nw"
| "perform (E_Resolved t answer) nw = dns_resolved t answer nw"
| "perform (E_Tail i) nw = run_tail i nw"
| "perform (E_Ack_Timeout i p) nw = ack_timeout i p nw"
| "perform (E_Handshake_Timeout i e) nw = handshake_timeout i e nw"
| "perform (E_Reassembly_Timeout key) nw = reassembly_timeout key nw"
| "perform (E_External_Abort i e) nw = external_abort i e nw"
| "perform (E_Handler_Done i r) nw = handler_done i r nw"
| "perform (E_Connect_Tcp hostname port signal initial) nw = fst (connect_tcp hostname port signal initial nw)"
| "perform (E_Connect_Udp hostname port) nw = fst (connect_udp hostname port nw)"
| "perform (E_Started i) nw = on_readable i stream_started nw"
| "perform (E_Read i) nw = on_readable i stream_read nw"
| "perform (E_Cancel i reason) nw = readable_cancel i reason nw"
| "perform (E_Write i chunk c) nw = stream_write i chunk c nw"
| "perform (E_End i c) nw = stream_end i c nw"
| "perform (E_Abort i reason) nw = abort_tcp_flow i reason nw"
| "perform (E_Udp_Read u) nw = on_udp u (\<lambda>f. f\<lparr>uf_readable := fst (stream_read (uf_readable f))\<rparr>) nw"
| "perform (E_Udp_Write u payload c) nw = udp_write u payload c nw"
| "perform (E_Udp_Close u) nw = udp_close u nw"
| "perform (E_Udp_Cancel u) nw = udp_cancel u nw"
| "perform (E_Attach agent) nw = fst (attach_guest agent nw)"
| "perform (E_Detach ip) nw = fst (attachment_close ip nw)"
| "perform E_Close nw = fst (net_close nw)"

inductive net_reachable :: "network \<Rightarrow> bool" where
  start: "net_reachable createNetwork"
| step: "net_reachable nw \<Longrightarrow> enabled e nw \<Longrightarrow> net_reachable (perform e nw)"

section \<open>What an operation leaves alone\<close>

definition content :: "tcp_flow \<Rightarrow> bytes" where
  "content f = (case tf_readable f of None \<Rightarrow> [] | Some s \<Rightarrow> stream_content s)"

definition live :: "tcp_flow \<Rightarrow> bool" where
  "live f \<longleftrightarrow> \<not> tf_closed f \<and> (case tf_readable f of Some s \<Rightarrow> (case rs_state s of Errored _ \<Rightarrow> False | _ \<Rightarrow> True) | None \<Rightarrow> True)"

text \<open>The readable side: what is buffered fits the window, and demand without buffering is for a waiting read.\<close>

definition flow_ok :: "tcp_flow \<Rightarrow> bool" where
  "flow_ok f \<longleftrightarrow> (tf_activation f \<noteq> None \<longrightarrow> tf_abort f \<noteq> None) \<and>
     (case tf_readable f of None \<Rightarrow> True | Some s \<Rightarrow>
        stream_ok s \<and> rs_by_length s \<and> queue_size s \<le> TCP_RECEIVE_WINDOW \<and>
        rs_high s = (if tf_abort f = None then TCP_RECEIVE_WINDOW else 0) \<and>
        (tf_abort f \<noteq> None \<and> tf_receive_demand f \<longrightarrow> rs_queue s = []))"

definition keeps_flow :: "tcp_flow \<Rightarrow> tcp_flow \<Rightarrow> bool" where
  "keeps_flow f f' \<longleftrightarrow> tf_key f' = tf_key f \<and> (tf_closed f \<longrightarrow> tf_closed f') \<and> (tf_established f \<longrightarrow> tf_established f') \<and>
     tf_handshake f' = tf_handshake f \<and> (tf_abort f' = None \<longleftrightarrow> tf_abort f = None) \<and>
     (tf_readable f' = None \<longleftrightarrow> tf_readable f = None) \<and>
     (flow_ok f \<longrightarrow> flow_ok f' \<and>
       (live f' \<longrightarrow> live f \<and> tf_remote_ended f' = tf_remote_ended f \<and> tf_receive_sequence f' = tf_receive_sequence f \<and>
          content f' = content f))"

fun task_cont :: "task \<Rightarrow> cont option" where
  "task_cont (Sending _ k) = Some k"
| "task_cont (Awaiting _ k) = Some k"
| "task_cont (Ready _ k) = Some k"
| "task_cont (Resolving _ _ _) = None"

fun handshake_of :: "cont option \<Rightarrow> nat list" where
  "handshake_of (Some (K_Handshake i)) = [i]"
| "handshake_of _ = []"

definition handshakes :: "network \<Rightarrow> nat list" where
  "handshakes nw = concat (map (\<lambda>x. handshake_of (task_cont (snd x))) (nw_tasks nw))"

text \<open>A flow that is not closed is the one the map has under its key.\<close>

definition linked :: "network \<Rightarrow> bool" where
  "linked nw \<longleftrightarrow> (\<forall>i < length (nw_flows nw). \<not> tf_closed (flow i nw) \<longrightarrow> map_of (nw_tcp_flows nw) (tf_key (flow i nw)) = Some i)"

definition keeps :: "network \<Rightarrow> network \<Rightarrow> bool" where
  "keeps nw nw' \<longleftrightarrow> length (nw_flows nw') = length (nw_flows nw) \<and> handshakes nw' = handshakes nw \<and> (linked nw \<longrightarrow> linked nw') \<and>
     (\<forall>j < length (nw_flows nw). keeps_flow (flow j nw) (flow j nw'))"

named_theorems kept

lemma keeps_flow_refl [simp, intro]: "keeps_flow f f"
  by (simp add: keeps_flow_def)

lemma keeps_flow_trans: "keeps_flow f g \<Longrightarrow> keeps_flow g h \<Longrightarrow> keeps_flow f h"
  by (simp add: keeps_flow_def)

lemma keeps_refl [simp, intro]: "keeps nw nw"
  by (simp add: keeps_def)

lemma keeps_trans [trans]: "keeps a b \<Longrightarrow> keeps b c \<Longrightarrow> keeps a c"
  using keeps_flow_trans by (fastforce simp: keeps_def)

lemma on_flow_flows: "nw_flows (on_flow i g nw) = (nw_flows nw)[i := g (flow i nw)]"
  by (simp add: on_flow_def)

lemma flow_on_flow: "j < length (nw_flows nw) \<Longrightarrow> flow j (on_flow i g nw) = (if j = i then g (flow i nw) else flow j nw)"
  by (auto simp: on_flow_flows nth_list_update)

lemma keeps_on_flow:
  "keeps a nw \<Longrightarrow> (i < length (nw_flows nw) \<Longrightarrow> keeps_flow (flow i nw) (g (flow i nw))) \<Longrightarrow> keeps a (on_flow i g nw)"
proof (rule keeps_trans, assumption)
  assume "i < length (nw_flows nw) \<Longrightarrow> keeps_flow (flow i nw) (g (flow i nw))"
  then have "keeps_flow (flow j nw) (flow j (on_flow i g nw))" if "j < length (nw_flows nw)" for j
    using that by (simp add: flow_on_flow)
  moreover from this have "linked nw \<Longrightarrow> linked (on_flow i g nw)"
    by (auto simp: linked_def on_flow_flows keeps_flow_def) (auto simp: on_flow_def)
  ultimately show "keeps nw (on_flow i g nw)" by (simp add: keeps_def handshakes_def on_flow_def)
qed

lemma keeps_update:
  assumes "keeps a nw" and "nw_flows nw' = nw_flows nw" "nw_tasks nw' = nw_tasks nw" "nw_tcp_flows nw' = nw_tcp_flows nw"
  shows "keeps a nw'"
  using assms by (simp add: keeps_def handshakes_def linked_def)

lemma keeps_spawn: "keeps a nw \<Longrightarrow> handshake_of (task_cont t) = [] \<Longrightarrow> keeps a (spawn_task t nw)"
  by (simp add: keeps_def handshakes_def spawn_task_def linked_def)

lemma settle_simps [simp]:
  "nw_flows (settle_promise p r nw) = nw_flows nw" "nw_tasks (settle_promise p r nw) = nw_tasks nw"
  "nw_tcp_flows (settle_promise p r nw) = nw_tcp_flows nw"
  by (simp_all add: settle_promise_def)

lemma settle_all_simps [simp]:
  "nw_flows (settle_all ps r nw) = nw_flows nw" "nw_tasks (settle_all ps r nw) = nw_tasks nw"
  "nw_tcp_flows (settle_all ps r nw) = nw_tcp_flows nw"
  by (induction ps arbitrary: nw) simp_all

lemma new_promise_simps [simp]:
  "nw_flows (fst (new_promise nw)) = nw_flows nw" "nw_tasks (fst (new_promise nw)) = nw_tasks nw"
  "nw_tcp_flows (fst (new_promise nw)) = nw_tcp_flows nw"
  by (simp_all add: new_promise_def)

lemma keeps_fields [simp]:
  "keeps a (nw\<lparr>nw_udp_flows := x1\<rparr>) = keeps a nw"
  "keeps a (nw\<lparr>nw_udps := x2\<rparr>) = keeps a nw" "keeps a (nw\<lparr>nw_ip_reassemblies := x3\<rparr>) = keeps a nw"
  "keeps a (nw\<lparr>nw_next_port := x4\<rparr>) = keeps a nw" "keeps a (nw\<lparr>nw_out := x5\<rparr>) = keeps a nw"
  "keeps a (nw\<lparr>nw_closed := x6\<rparr>) = keeps a nw" "keeps a (nw\<lparr>nw_gateway_closed := x6\<rparr>) = keeps a nw"
  "keeps a (nw\<lparr>nw_next_address := x4\<rparr>) = keeps a nw" "keeps a (nw\<lparr>nw_attachments := x7\<rparr>) = keeps a nw"
  "keeps a (nw\<lparr>nw_networked_agents := x8\<rparr>) = keeps a nw"
  by (simp_all add: keeps_def handshakes_def linked_def)

lemma keeps_settle [kept]: "keeps a nw \<Longrightarrow> keeps a (settle_promise p r nw)"
  by (rule keeps_update) simp_all

lemma keeps_settle_all [kept]: "keeps a nw \<Longrightarrow> keeps a (settle_all ps r nw)"
  by (rule keeps_update) simp_all

lemma keeps_new_promise [kept]: "keeps a nw \<Longrightarrow> keeps a (fst (new_promise nw))"
  by (rule keeps_update) simp_all

lemma keeps_end_call [kept]: "keeps a nw \<Longrightarrow> keeps a (end_call c r nw)"
  by (rule keeps_update) (simp_all add: end_call_def)

lemma keeps_ip [kept]:
  "keeps a nw \<Longrightarrow> handshake_of (Some k) = [] \<Longrightarrow> keeps a (network_send_ip mac s d protocol payload k nw)"
  by (simp add: network_send_ip_def Let_def keeps_def handshakes_def linked_def spawn_task_def split: sum.split list.split)

text \<open>Updates of the sending side of a flow.\<close>

lemma keeps_flow_cong:
  assumes "tf_key f' = tf_key f" "tf_activation f' = tf_activation f" "tf_abort f' = tf_abort f" "tf_readable f' = tf_readable f"
    "tf_receive_demand f' = tf_receive_demand f" "tf_handshake f' = tf_handshake f" "tf_remote_ended f' = tf_remote_ended f"
    "tf_receive_sequence f' = tf_receive_sequence f" "tf_closed f' = tf_closed f" "tf_established f \<longrightarrow> tf_established f'"
  shows "keeps_flow f f'"
proof -
  have "flow_ok f' = flow_ok f" "live f' = live f" "content f' = content f"
    unfolding flow_ok_def live_def content_def assms by simp_all
  with assms show ?thesis by (simp add: keeps_flow_def)
qed

lemma keeps_flow_sending [simp]:
  "keeps_flow f (f\<lparr>tf_advertised_window := w\<rparr>)" "keeps_flow f (f\<lparr>tf_tail := t\<rparr>)" "keeps_flow f (f\<lparr>tf_busy := b\<rparr>)"
  "keeps_flow f (f\<lparr>tf_ack_waiters := ws\<rparr>)" "keeps_flow f (f\<lparr>tf_window_waiters := vs\<rparr>)" "keeps_flow f (f\<lparr>tf_peer_window := w\<rparr>)"
  "keeps_flow f (f\<lparr>tf_send_sequence := q\<rparr>)" "keeps_flow f (f\<lparr>tf_local_ended := b\<rparr>)" "keeps_flow f (f\<lparr>tf_activation_waiter := p\<rparr>)"
  "keeps_flow f (f\<lparr>tf_established := True, tf_activation_waiter := None, tf_handshake_timer := False\<rparr>)"
  by (rule keeps_flow_cong; simp)+

lemma keeps_send_tcp [kept]:
  "keeps a nw \<Longrightarrow> handshake_of (Some k) = [] \<Longrightarrow> keeps a (send_tcp i flags payload k nw)"
  by (auto simp: send_tcp_def Let_def split: sum.split intro!: keeps_spawn keeps_ip keeps_on_flow)

definition stream_shrinks :: "rstream \<Rightarrow> rstream \<Rightarrow> bool" where
  "stream_shrinks s s' \<longleftrightarrow> (stream_ok s \<longrightarrow> stream_ok s') \<and> queue_size s' \<le> queue_size s \<and> rs_by_length s' = rs_by_length s \<and>
     rs_high s' = rs_high s \<and> (rs_queue s = [] \<longrightarrow> rs_queue s' = [])"

lemma stream_shrinks_refl [simp]: "stream_shrinks s s"
  by (simp add: stream_shrinks_def)

lemma stream_error_shrinks [simp]: "stream_shrinks s (stream_error e s)"
  by (simp add: stream_shrinks_def stream_error_def queue_size_def stream_ok_def)

lemma stream_close_shrinks: "stream_close s = Inr s' \<Longrightarrow> stream_shrinks s s'"
  by (cases "rs_queue s = []")
    (auto simp: stream_shrinks_def stream_close_def end_stream_def queue_size_def stream_ok_def Let_def split: if_splits)

lemma end_readable_shrinks: "stream_shrinks s (end_readable e s)"
  by (cases e; cases "stream_close s") (simp_all add: end_readable_def stream_close_shrinks)

lemma keeps_flow_closed:
  assumes "tf_closed f'" "tf_key f' = tf_key f" "tf_activation f' = tf_activation f" "tf_abort f' = None \<longleftrightarrow> tf_abort f = None"
    "tf_readable f' = map_option (end_readable e) (tf_readable f)" "tf_receive_demand f' = tf_receive_demand f"
    "tf_handshake f' = tf_handshake f" "tf_established f' = tf_established f"
  shows "keeps_flow f f'"
proof -
  have "flow_ok f \<Longrightarrow> flow_ok f'"
    using assms end_readable_shrinks [of "the (tf_readable f)" e]
    by (cases "tf_readable f") (auto simp: flow_ok_def stream_shrinks_def)
  with assms show ?thesis by (simp add: keeps_flow_def live_def)
qed

definition closing :: "js_error option \<Rightarrow> tcp_flow \<Rightarrow> tcp_flow" where
  "closing error f = f\<lparr>tf_closed := True, tf_handshake_timer := False, tf_ack_waiters := [], tf_window_waiters := [],
      tf_external_abort := False, tf_activation_waiter := None, tf_abort := map_option (\<lambda>_. True) (tf_abort f),
      tf_readable := map_option (end_readable error) (tf_readable f)\<rparr>"

lemma keeps_closing: "keeps_flow f (closing error f)"
  by (rule keeps_flow_closed [where e = error]) (simp_all add: closing_def)

lemma close_tcp_flow_parts:
  assumes "i < length (nw_flows nw)" "\<not> tf_closed (flow i nw)"
  shows "nw_flows (close_tcp_flow i error nw) = (nw_flows nw)[i := closing error (flow i nw)]"
    "nw_tasks (close_tcp_flow i error nw) = nw_tasks nw"
    "nw_tcp_flows (close_tcp_flow i error nw) = filter (\<lambda>x. fst x \<noteq> tf_key (flow i nw)) (nw_tcp_flows nw)"
  using assms by (simp_all add: close_tcp_flow_def Let_def on_flow_def closing_def split: option.split)

lemma map_of_filter_key: "map_of (filter (\<lambda>x. fst x \<noteq> k) xs) j = (if j = k then None else map_of xs j)"
  by (induction xs) auto

lemma keeps_close [kept]: "keeps a nw \<Longrightarrow> keeps a (close_tcp_flow i error nw)"
proof (cases "i < length (nw_flows nw) \<and> \<not> tf_closed (flow i nw)")
  case True
  then have i: "i < length (nw_flows nw)" and open_flow: "\<not> tf_closed (flow i nw)" by simp_all
  note parts = close_tcp_flow_parts [OF i open_flow, of error]
  have flows: "flow j (close_tcp_flow i error nw) = (if j = i then closing error (flow i nw) else flow j nw)"
    if "j < length (nw_flows nw)" for j
    using that by (auto simp: parts nth_list_update)
  have len: "length (nw_flows (close_tcp_flow i error nw)) = length (nw_flows nw)" by (simp add: parts)
  have "linked (close_tcp_flow i error nw)" if "linked nw"
    unfolding linked_def len
  proof (intro allI impI)
    fix j assume j: "j < length (nw_flows nw)" and live: "\<not> tf_closed (flow j (close_tcp_flow i error nw))"
    then have ji: "j \<noteq> i" "\<not> tf_closed (flow j nw)" using flows [OF j] by (auto simp: closing_def split: if_splits)
    have at: "map_of (nw_tcp_flows nw) (tf_key (flow j nw)) = Some j" using that j ji by (simp add: linked_def)
    have "tf_key (flow j nw) \<noteq> tf_key (flow i nw)"
      using \<open>linked nw\<close> i open_flow at ji by (auto simp: linked_def)
    then show "map_of (nw_tcp_flows (close_tcp_flow i error nw)) (tf_key (flow j (close_tcp_flow i error nw))) = Some j"
      using flows [OF j] ji at by (simp add: parts map_of_filter_key)
  qed
  moreover have "keeps_flow (flow j nw) (flow j (close_tcp_flow i error nw))" if "j < length (nw_flows nw)" for j
    unfolding flows [OF that] using keeps_closing by simp
  moreover have "handshakes (close_tcp_flow i error nw) = handshakes nw" by (simp add: handshakes_def parts)
  ultimately have "keeps nw (close_tcp_flow i error nw)" using len by (simp add: keeps_def)
  then show "keeps a nw \<Longrightarrow> ?thesis" using keeps_trans by blast
qed (auto simp: close_tcp_flow_def)

lemma keeps_abort [kept]: "keeps a nw \<Longrightarrow> keeps a (abort_tcp_flow i error nw)"
  by (simp add: abort_tcp_flow_def kept)

lemma keeps_finish [kept]: "keeps a nw \<Longrightarrow> keeps a (finish who r nw)"
  by (simp add: finish_def kept split: origin.split sum.split)

lemma keeps_wait_ack [kept]: "keeps a nw \<Longrightarrow> keeps a (fst (wait_for_ack i q nw))"
  by (auto simp: wait_for_ack_def Let_def split_def intro!: keeps_on_flow kept)

lemma keeps_wait_window [kept]: "keeps a nw \<Longrightarrow> keeps a (wait_for_peer_window i job nw)"
  by (auto simp: wait_for_peer_window_def Let_def split_def intro!: keeps_spawn keeps_on_flow kept)

lemma keeps_data [kept]: "keeps a nw \<Longrightarrow> keeps a (send_tcp_data i bs who nw)"
  by (simp add: send_tcp_data_def kept)

lemma keeps_fin [kept]: "keeps a nw \<Longrightarrow> keeps a (send_tcp_fin i who nw)"
  by (simp add: send_tcp_fin_def kept)

lemma keeps_with_window [kept]: "keeps a nw \<Longrightarrow> keeps a (send_with_window i job w nw)"
  by (auto simp: send_with_window_def Let_def split_def split: sender.split intro!: keeps_on_flow kept)

lemma keeps_establish [kept]: "keeps a nw \<Longrightarrow> keeps a (establish_tcp_flow i nw)"
  by (auto simp: establish_tcp_flow_def Let_def split: option.split intro!: keeps_on_flow kept)

lemma keeps_peer [kept]:
  "keeps a nw \<Longrightarrow> keeps a (acknowledge_waiters i q nw)" "keeps a nw \<Longrightarrow> keeps a (update_peer_window i w nw)"
  "keeps a nw \<Longrightarrow> keeps a (ack_timeout i p nw)" "keeps a nw \<Longrightarrow> keeps a (update_tcp_window i nw)"
  by (auto simp: acknowledge_waiters_def update_peer_window_def ack_timeout_def update_tcp_window_def Let_def
      intro!: keeps_on_flow kept)

lemma keeps_activate [kept]: "keeps a nw \<Longrightarrow> tf_abort (flow i nw) \<noteq> None \<Longrightarrow> keeps a (fst (activate i nw))"
proof (cases "tf_activation (flow i nw)")
  case None
  assume a: "keeps a nw" and out: "tf_abort (flow i nw) \<noteq> None"
  define nw4 where "nw4 = send_tcp i (TCP_SYN + TCP_ACK) [] (K_Activate_Sent i (snd (new_promise nw)) (snd (new_promise (fst (new_promise nw)))))
    (on_flow i (\<lambda>f. f\<lparr>tf_activation_waiter := Some (snd (new_promise (fst (new_promise nw))))\<rparr>) (fst (new_promise (fst (new_promise nw)))))"
  have nw4: "keeps nw nw4" unfolding nw4_def by (auto intro!: keeps_on_flow kept)
  have "keeps nw (on_flow i (\<lambda>f. f\<lparr>tf_activation := Some (snd (new_promise nw))\<rparr>) nw4)"
  proof (rule keeps_on_flow [OF nw4])
    assume "i < length (nw_flows nw4)"
    then have "tf_abort (flow i nw4) \<noteq> None" using nw4 out by (auto simp: keeps_def keeps_flow_def)
    then show "keeps_flow (flow i nw4) ((flow i nw4)\<lparr>tf_activation := Some (snd (new_promise nw))\<rparr>)"
      by (auto simp: keeps_flow_def flow_ok_def live_def content_def split: option.split)
  qed
  with a show ?thesis unfolding nw4_def using None by (auto simp: activate_def Let_def split_def intro: keeps_trans)
qed (simp add: activate_def)

lemma keeps_await [kept]:
  "keeps a nw \<Longrightarrow> handshake_of (Some k) = [] \<Longrightarrow> keeps a (await_activation i k nw)"
  by (auto simp: await_activation_def Let_def split_def intro!: keeps_spawn kept)

section \<open>The readable side\<close>

definition errored :: "rstream \<Rightarrow> bool" where
  "errored s \<longleftrightarrow> (case rs_state s of Errored _ \<Rightarrow> True | _ \<Rightarrow> False)"

definition stream_quiet :: "rstream \<Rightarrow> rstream \<times> bool \<Rightarrow> bool" where
  "stream_quiet s r \<longleftrightarrow> stream_shrinks s (fst r) \<and>
     (stream_ok s \<longrightarrow> (\<not> errored (fst r) \<longrightarrow> \<not> errored s \<and> stream_content (fst r) = stream_content s) \<and>
       (snd r \<and> rs_high s = 0 \<longrightarrow> rs_queue (fst r) = []))"

lemma live_alt: "live f \<longleftrightarrow> \<not> tf_closed f \<and> (case tf_readable f of Some s \<Rightarrow> \<not> errored s | None \<Rightarrow> True)"
  by (simp add: live_def errored_def split: option.split stream_state.split)

lemma pull_quiet:
  assumes "stream_shrinks s s'" "stream_content s' = stream_content s" "rs_state s' = rs_state s"
  shows "stream_quiet s (pull_if_needed s')"
proof -
  have "rs_queue s' = []" if "snd (pull_if_needed s')" "rs_high s = 0" "stream_ok s"
    using that assms(1) by (auto simp: pull_if_needed_def should_pull_def stream_shrinks_def stream_ok_def split: if_splits)
  with assms show ?thesis by (simp add: stream_quiet_def stream_shrinks_def errored_def)
qed

lemma stream_started_quiet: "stream_quiet s (stream_started s)"
proof (cases "rs_started s")
  case False
  have "stream_quiet s (pull_if_needed (s\<lparr>rs_started := True\<rparr>))"
    by (rule pull_quiet) (simp_all add: stream_shrinks_def stream_content_def queue_size_def stream_ok_def)
  with False show ?thesis by (simp add: stream_started_def)
qed (simp add: stream_started_def stream_quiet_def)

lemma stream_read_quiet: "stream_quiet s (stream_read s)"
proof (cases "rs_state s = Readable")
  case True
  show ?thesis
  proof (cases "rs_queue s")
    case Nil
    have "stream_quiet s (pull_if_needed (s\<lparr>rs_reads := rs_reads s + 1\<rparr>))"
      using Nil True by (intro pull_quiet) (simp_all add: stream_shrinks_def stream_content_def queue_size_def stream_ok_def)
    with Nil True show ?thesis by (simp add: stream_read_def)
  next
    case (Cons c cs)
    let ?s = "s\<lparr>rs_queue := cs, rs_out := rs_out s @ [c]\<rparr>"
    have size: "queue_size ?s \<le> queue_size s" using Cons by (simp add: queue_size_def)
    show ?thesis
    proof (cases "rs_close_requested s \<and> cs = []")
      case True
      with Cons size \<open>rs_state s = Readable\<close> show ?thesis
        by (auto simp: stream_read_def stream_quiet_def stream_shrinks_def end_stream_def stream_ok_def stream_content_def
            errored_def queue_size_def)
    next
      case False
      have "stream_quiet s (pull_if_needed ?s)"
        using Cons size True False by (intro pull_quiet) (auto simp: stream_shrinks_def stream_content_def stream_ok_def)
      with Cons True False show ?thesis by (auto simp: stream_read_def Let_def)
    qed
  qed
qed (simp add: stream_read_def stream_quiet_def)

lemma stream_pulled_quiet: "stream_quiet s (stream_pulled r s)"
proof (cases r)
  case (Inl e)
  have "errored (stream_error e s) \<or> stream_error e s = s" by (simp add: stream_error_def errored_def)
  with Inl show ?thesis by (auto simp: stream_pulled_def stream_quiet_def)
next
  case (Inr _)
  let ?s = "s\<lparr>rs_pulling := False, rs_pull_again := False\<rparr>"
  have s: "stream_shrinks s ?s" "stream_content ?s = stream_content s" "rs_state ?s = rs_state s"
    by (simp_all add: stream_shrinks_def stream_content_def queue_size_def stream_ok_def)
  with Inr pull_quiet [OF s] show ?thesis by (auto simp: stream_pulled_def stream_quiet_def Let_def errored_def)
qed

lemma on_flow_twice: "on_flow i g (on_flow i h nw) = on_flow i (g \<circ> h) nw"
  by (cases "i < length (nw_flows nw)") (simp_all add: on_flow_def list_update_beyond)

lemma keeps_flow_quiet:
  assumes s: "tf_readable f = Some s" and q: "stream_quiet s (s', p)"
  shows "keeps_flow f (f\<lparr>tf_readable := Some s'\<rparr>)"
    and "p \<Longrightarrow> keeps_flow f (f\<lparr>tf_readable := Some s', tf_receive_demand := True\<rparr>)"
  using assms by (auto simp: keeps_flow_def flow_ok_def live_alt content_def stream_quiet_def stream_shrinks_def)

lemma keeps_on_readable [kept]:
  assumes a: "keeps a nw" and q: "\<And>s. tf_readable (flow i nw) = Some s \<Longrightarrow> stream_quiet s (operation s)"
  shows "keeps a (on_readable i operation nw)"
proof (cases "tf_readable (flow i nw)")
  case (Some s)
  obtain s' p where r: "operation s = (s', p)" by fastforce
  have quiet: "stream_quiet s (s', p)" using q [OF Some] r by simp
  show ?thesis
  proof (cases p)
    case True
    have "keeps a (on_flow i (\<lambda>f. f\<lparr>tf_readable := Some s', tf_receive_demand := True\<rparr>) nw)"
      using keeps_flow_quiet(2) [OF Some quiet True] by (intro keeps_on_flow [OF a]) simp
    with Some r True show ?thesis
      by (auto simp: on_readable_def stream_pull_def on_flow_twice comp_def intro!: kept)
  next
    case False
    with Some r show ?thesis
      using keeps_flow_quiet(1) [OF Some quiet] by (auto simp: on_readable_def intro!: keeps_on_flow [OF a])
  qed
qed (simp add: on_readable_def a)

lemma close_closes: "i < length (nw_flows nw) \<Longrightarrow> tf_closed (flow i (close_tcp_flow i e nw))"
  by (simp add: close_tcp_flow_def Let_def on_flow_flows split: option.split)

lemma keeps_length: "keeps a b \<Longrightarrow> length (nw_flows b) = length (nw_flows a)"
  by (simp add: keeps_def)

lemma abort_closes:
  assumes i: "i < length (nw_flows nw)"
  shows "tf_closed (flow i (abort_tcp_flow i e nw))"
proof -
  have "keeps nw (send_tcp i (TCP_RST + TCP_ACK) [] K_Done nw)" by (intro keeps_send_tcp) simp_all
  with i show ?thesis by (simp add: abort_tcp_flow_def close_closes keeps_length)
qed

lemma keeps_cancel [kept]:
  assumes a: "keeps a nw" and i: "i < length (nw_flows nw)"
  shows "keeps a (readable_cancel i reason nw)"
proof (cases "tf_readable (flow i nw)")
  case (Some s)
  show ?thesis
  proof (cases "rs_state s = Readable")
    case True
    let ?s = "(end_stream s)\<lparr>rs_queue := []\<rparr>"
    define nw1 where "nw1 = on_flow i (\<lambda>f. f\<lparr>tf_readable := Some ?s\<rparr>) nw"
    have s: "stream_shrinks s ?s" by (simp add: stream_shrinks_def end_stream_def stream_ok_def queue_size_def)
    define nw2 where "nw2 = abort_tcp_flow i reason nw1"
    have 12: "keeps nw1 nw2" unfolding nw2_def by (intro kept keeps_refl)
    have closed: "tf_closed (flow i nw2)" unfolding nw2_def using i by (intro abort_closes) (simp add: nw1_def on_flow_flows)
    have "keeps_flow (flow j nw) (flow j nw2)" if j: "j < length (nw_flows nw)" for j
    proof (cases "j = i")
      case True
      have "keeps_flow ((flow i nw)\<lparr>tf_readable := Some ?s\<rparr>) (flow i nw2)"
        using 12 i by (auto simp: keeps_def nw1_def on_flow_flows)
      with True closed s Some show ?thesis
        by (auto simp: keeps_flow_def live_def flow_ok_def stream_shrinks_def)
    qed (use 12 j in \<open>auto simp: keeps_def nw1_def on_flow_flows\<close>)
    moreover have "linked nw \<longrightarrow> linked nw1"
      using i by (auto simp: linked_def nw1_def on_flow_def nth_list_update)
    ultimately have "keeps nw nw2" using 12 by (simp add: keeps_def) (simp add: nw1_def on_flow_def handshakes_def)
    with a have "keeps a nw2" by (rule keeps_trans)
    with Some True show ?thesis by (simp add: readable_cancel_def stream_cancel_def nw2_def nw1_def)
  next
    case False
    have "keeps a (on_flow i (\<lambda>f. f\<lparr>tf_readable := Some s\<rparr>) nw)"
      by (rule keeps_on_flow [OF a], rule keeps_flow_cong) (simp_all add: Some)
    with Some False show ?thesis by (simp add: readable_cancel_def stream_cancel_def)
  qed
qed (simp add: readable_cancel_def a)

lemma keeps_reject [kept]: "keeps a nw \<Longrightarrow> keeps a (reject_outbound_tcp i e nw)"
  by (auto simp: reject_outbound_tcp_def Let_def intro!: kept split: sum.split)

lemma keeps_handler [kept]: "keeps a nw \<Longrightarrow> keeps a (handler_done i r nw)"
  by (auto simp: handler_done_def intro!: kept split: sum.split)

lemma keeps_tail_done [kept]: "keeps a nw \<Longrightarrow> keeps a (tail_done i r nw)"
  by (auto simp: tail_done_def Let_def intro!: keeps_on_flow kept split: sum.split)

lemma keeps_reply [kept]: "keeps a nw \<Longrightarrow> handshake_of (Some k) = [] \<Longrightarrow> keeps a (reply i k nw)"
  by (auto simp: reply_def intro!: keeps_on_flow kept)

lemma keeps_abort_flows [kept]: "keeps a nw \<Longrightarrow> keeps a (abort_flows js e nw)"
  by (induction js arbitrary: nw) (simp_all add: kept)

lemma keeps_udp [simp]: "keeps a (on_udp u g nw) = keeps a nw"
  by (simp add: on_udp_def)

lemma keeps_close_udps [kept]: "keeps a nw \<Longrightarrow> keeps a (fst (close_udps b us nw))"
  by (induction us arbitrary: nw) (auto simp: Let_def split: sum.split)

lemma keeps_run_cont:
  assumes "keeps a nw" and "handshake_of (Some k) = []"
  shows "keeps a (run_cont k r nw)"
proof (cases k)
  case (K_Handshake i)
  with assms show ?thesis by simp
qed (use assms in \<open>auto intro!: keeps_spawn keeps_on_flow kept stream_pulled_quiet split: sum.split option.split\<close>)

section \<open>Taking a segment\<close>

definition grows :: "bytes \<Rightarrow> nat \<Rightarrow> bool \<Rightarrow> tcp_flow \<Rightarrow> tcp_flow \<Rightarrow> bool" where
  "grows p n fin f f' \<longleftrightarrow> tf_key f' = tf_key f \<and> (tf_closed f \<longrightarrow> tf_closed f') \<and> (tf_established f \<longrightarrow> tf_established f') \<and>
     tf_handshake f' = tf_handshake f \<and> (tf_abort f' = None \<longleftrightarrow> tf_abort f = None) \<and>
     (tf_readable f' = None \<longleftrightarrow> tf_readable f = None) \<and>
     (flow_ok f \<longrightarrow> flow_ok f' \<and>
       (live f' \<longrightarrow> live f \<and> tf_remote_ended f' = (tf_remote_ended f \<or> fin) \<and>
          tf_receive_sequence f' = sequence_add (tf_receive_sequence f) n \<and>
          (tf_readable f \<noteq> None \<longrightarrow> content f' = content f @ p)))"

definition advances :: "nat \<Rightarrow> bytes \<Rightarrow> nat \<Rightarrow> bool \<Rightarrow> network \<Rightarrow> network \<Rightarrow> bool" where
  "advances i p n fin nw nw' \<longleftrightarrow> length (nw_flows nw') = length (nw_flows nw) \<and> handshakes nw' = handshakes nw \<and>
     (linked nw \<longrightarrow> linked nw') \<and>
     (\<forall>j < length (nw_flows nw). if j = i then grows p n fin (flow j nw) (flow j nw') else keeps_flow (flow j nw) (flow j nw'))"

lemma advancesD:
  assumes "advances i p n b x y" "j < length (nw_flows x)"
  shows "j = i \<Longrightarrow> grows p n b (flow j x) (flow j y)" "j \<noteq> i \<Longrightarrow> keeps_flow (flow j x) (flow j y)"
  using assms by (auto simp: advances_def)

lemma keeps_flow_grows: "keeps_flow f f' \<longleftrightarrow> grows [] 0 False f f'"
  by (auto simp: keeps_flow_def grows_def sequence_add_def content_def)

lemma keeps_advances: "keeps a b \<Longrightarrow> advances i [] 0 False a b"
  by (simp add: keeps_def advances_def keeps_flow_grows)

lemma grows_trans: "grows p n b f g \<Longrightarrow> grows q m d g h \<Longrightarrow> grows (p @ q) (n + m) (b \<or> d) f h"
  by (auto simp: grows_def sequence_add_def)

lemma advances_trans: "advances i p n b x y \<Longrightarrow> advances i q m d y z \<Longrightarrow> advances i (p @ q) (n + m) (b \<or> d) x z"
  using grows_trans keeps_flow_trans by (fastforce simp: advances_def)

lemma advances_keeps: "advances i p n b x y \<Longrightarrow> keeps y z \<Longrightarrow> advances i p n b x z"
  using advances_trans [of i p n b x y "[]" 0 False z] keeps_advances [of y z i] by simp

lemma keeps_then_advances: "keeps x y \<Longrightarrow> advances i p n b y z \<Longrightarrow> advances i p n b x z"
  using advances_trans [of i "[]" 0 False x y p n b z] keeps_advances [of x y i] by simp

lemma advances_on_flow:
  assumes i: "i < length (nw_flows nw)" and g: "grows p n b (flow i nw) (g (flow i nw))"
  shows "advances i p n b nw (on_flow i g nw)"
proof -
  have "linked nw \<Longrightarrow> linked (on_flow i g nw)"
    using i g by (auto simp: linked_def on_flow_def nth_list_update grows_def)
  with i g show ?thesis by (auto simp: advances_def on_flow_flows handshakes_def) (simp_all add: on_flow_def)
qed

text \<open>A payload that fits the window fits the buffer.\<close>

lemma window_room:
  assumes ok: "flow_ok f" and s: "tf_readable f = Some s" and p: "p \<noteq> []" "length p \<le> tcp_receive_window f"
  shows "queue_size s + length p \<le> TCP_RECEIVE_WINDOW"
proof (cases "tf_activation f = None")
  case True
  have "length p > 0" using p(1) by simp
  with ok s p True show ?thesis
    by (auto simp: flow_ok_def tcp_receive_window_def desired_size_def split: stream_state.splits if_splits)
next
  case False
  with ok s p have "rs_queue s = []" "length p \<le> TCP_RECEIVE_WINDOW"
    by (auto simp: flow_ok_def tcp_receive_window_def split: if_splits)
  then show ?thesis by (simp add: queue_size_def)
qed

lemma enqueue_grows:
  assumes s: "tf_readable f = Some s" and r: "stream_enqueue p s = Inr (s', pull)"
    and fits: "p \<noteq> []" "length p \<le> tcp_receive_window f"
  shows "grows p n False f (f\<lparr>tf_readable := Some s', tf_receive_demand := False,
      tf_receive_sequence := sequence_add (tf_receive_sequence f) n\<rparr>)"
    and "pull \<Longrightarrow> grows p 0 False f (f\<lparr>tf_readable := Some s', tf_receive_demand := True\<rparr>)"
proof -
  have put: "can_enqueue s" using enqueue_put [OF r] by simp
  have facts: "stream_ok s' \<and> stream_content s' = stream_content s @ p \<and> rs_high s' = rs_high s \<and>
      rs_by_length s' = rs_by_length s \<and> queue_size s' \<le> TCP_RECEIVE_WINDOW" if "flow_ok f"
  proof -
    have "stream_ok s" "rs_by_length s" using that s by (auto simp: flow_ok_def)
    with enqueue_content [OF _ r] stream_ok_enqueue [OF _ r] window_room [OF that s fits] show ?thesis by fastforce
  qed
  have state: "rs_state s = Readable" using put by (simp add: can_enqueue_def)
  show "grows p n False f (f\<lparr>tf_readable := Some s', tf_receive_demand := False,
      tf_receive_sequence := sequence_add (tf_receive_sequence f) n\<rparr>)"
    using facts s state by (auto simp: grows_def flow_ok_def live_def content_def)
  have "rs_queue s' = []" if "pull" "flow_ok f" "tf_abort f \<noteq> None"
  proof -
    have "should_pull (put_chunk p s)"
      using r that by (auto simp: stream_enqueue_def pull_if_needed_def split: if_splits)
    moreover have "rs_high s = 0" using that s by (simp add: flow_ok_def)
    ultimately have "0 < rs_reads (put_chunk p s)" by (auto simp: should_pull_def put_chunk_def split: if_splits)
    then have "0 < rs_reads s'" using enqueue_put [OF r] by simp
    with facts [OF that(2)] show ?thesis by (simp add: stream_ok_def)
  qed
  with facts s state show "pull \<Longrightarrow> grows p 0 False f (f\<lparr>tf_readable := Some s', tf_receive_demand := True\<rparr>)"
    by (auto simp: grows_def flow_ok_def live_def content_def sequence_add_def)
qed

lemma take_payload_advances:
  assumes i: "i < length (nw_flows nw)"
    and fits: "p \<noteq> [] \<longrightarrow> length p \<le> tcp_receive_window (flow i nw)"
    and took: "take_payload i p nw = Inr nw'"
  shows "advances i p (length p) False nw nw'"
proof (cases "p = []")
  case True
  with took show ?thesis using keeps_advances [of nw nw i] by (simp add: take_payload_def)
next
  case False
  have g: "grows [] (length p) False f (f\<lparr>tf_receive_demand := False, tf_receive_sequence := sequence_add (tf_receive_sequence f) (length p)\<rparr>)"
    for f :: tcp_flow
    by (auto simp: grows_def flow_ok_def live_def content_def split: option.split)
  have none: ?thesis if none: "tf_readable (flow i nw) = None"
  proof -
    have "grows p (length p) False (flow i nw)
        ((flow i nw)\<lparr>tf_receive_demand := False, tf_receive_sequence := sequence_add (tf_receive_sequence (flow i nw)) (length p)\<rparr>)"
      using g [of "flow i nw"] none by (simp add: grows_def)
    with took False none show ?thesis by (auto simp: take_payload_def Let_def intro!: advances_on_flow [OF i])
  qed
  let ?g = "\<lambda>f. f\<lparr>tf_receive_demand := False, tf_receive_sequence := sequence_add (tf_receive_sequence f) (length p)\<rparr>"
  show ?thesis
  proof (cases "tf_readable (flow i nw)")
    case (Some s)
    note s = Some
    with False took obtain s' pull where r: "stream_enqueue p s = Inr (s', pull)"
      and nw': "nw' = on_flow i ?g (on_readable i (\<lambda>_. (s', pull)) nw)"
      by (auto simp: take_payload_def Let_def bindE_eq_Inr)
    have fits: "length p \<le> tcp_receive_window (flow i nw)" using fits False by simp
    show ?thesis
    proof (cases pull)
      case True
      define nw1 where "nw1 = on_flow i (\<lambda>f. f\<lparr>tf_readable := Some s', tf_receive_demand := True\<rparr>) nw"
      have 1: "advances i p 0 False nw nw1"
        unfolding nw1_def using enqueue_grows(2) [OF s r False fits True] by (intro advances_on_flow [OF i]) simp
      have on: "on_readable i (\<lambda>_. (s', pull)) nw = await_activation i (K_Pull i) nw1"
        using s True by (simp add: on_readable_def stream_pull_def on_flow_twice comp_def nw1_def)
      have "keeps nw1 (await_activation i (K_Pull i) nw1)" by (intro kept) simp_all
      with 1 have 2: "advances i p 0 False nw (await_activation i (K_Pull i) nw1)" by (rule advances_keeps)
      from 2 i have "advances i [] (length p) False (await_activation i (K_Pull i) nw1) nw'"
        unfolding nw' on by (intro advances_on_flow g) (auto simp: advances_def)
      with advances_trans [OF 2 this] show ?thesis by simp
    next
      case no: False
      have "nw' = on_flow i (\<lambda>f. f\<lparr>tf_readable := Some s', tf_receive_demand := False,
          tf_receive_sequence := sequence_add (tf_receive_sequence f) (length p)\<rparr>) nw"
        using s no by (simp add: nw' on_readable_def on_flow_twice comp_def)
      with enqueue_grows(1) [OF s r False fits] show ?thesis by (simp add: advances_on_flow [OF i])
    qed
  qed (rule none)
qed

lemma take_fin_advances:
  assumes i: "i < length (nw_flows nw)"
  shows "advances i [] 1 True nw (fst (take_fin i nw))"
proof -
  let ?g = "\<lambda>f. f\<lparr>tf_receive_sequence := sequence_add (tf_receive_sequence f) 1, tf_remote_ended := True\<rparr>"
  have g: "grows [] 1 True f (?g f)" for f :: tcp_flow
    by (auto simp: grows_def flow_ok_def live_def content_def split: option.split)
  have 1: "advances i [] 1 True nw (on_flow i ?g nw)" using g by (intro advances_on_flow [OF i]) simp
  show ?thesis
  proof (cases "tf_readable (flow i nw)")
    case (Some s)
    show ?thesis
    proof (cases "stream_close s")
      case (Inr s')
      have "keeps (on_flow i ?g nw) (on_flow i (\<lambda>f. f\<lparr>tf_readable := Some s'\<rparr>) (on_flow i ?g nw))"
      proof (rule keeps_on_flow)
        have "stream_quiet s (s', False)"
          using stream_close_shrinks [OF Inr] Inr
          by (auto simp: stream_quiet_def stream_close_def end_stream_def stream_content_def errored_def Let_def can_enqueue_def
              split: if_splits)
        with Some i show "keeps_flow (flow i (on_flow i ?g nw)) ((flow i (on_flow i ?g nw))\<lparr>tf_readable := Some s'\<rparr>)"
          by (intro keeps_flow_quiet(1)) (simp_all add: on_flow_flows)
      qed simp
      with 1 Some i Inr show ?thesis by (simp add: take_fin_def on_flow_flows Let_def advances_keeps)
    qed (use 1 Some i in \<open>simp add: take_fin_def on_flow_flows Let_def\<close>)
  qed (use 1 i in \<open>simp add: take_fin_def on_flow_flows Let_def\<close>)
qed

lemma keeps_fail_tail [kept]: "keeps a nw \<Longrightarrow> keeps a (fail_tail i e nw)"
  by (auto simp: fail_tail_def intro!: keeps_spawn keeps_on_flow)

definition fin_length :: "tcp_segment \<Rightarrow> nat" where
  "fin_length seg = (if has_tcp_flag TCP_FIN seg then 1 else 0)"

lemma accept_segment_cases:
  assumes i: "i < length (nw_flows nw)"
    and fits: "ts_payload seg \<noteq> [] \<longrightarrow> length (ts_payload seg) \<le> tcp_receive_window (flow i nw)"
  shows "keeps nw (accept_segment i seg nw) \<or>
    advances i (ts_payload seg) (length (ts_payload seg) + fin_length seg) (has_tcp_flag TCP_FIN seg) nw (accept_segment i seg nw)"
proof (cases "take_payload i (ts_payload seg) nw")
  case (Inl e)
  then show ?thesis by (simp add: accept_segment_def kept)
next
  case (Inr nw1)
  note 1 = take_payload_advances [OF i fits Inr]
  define r where "r = (if has_tcp_flag TCP_FIN seg then take_fin i nw1 else (nw1, None))"
  have i1: "i < length (nw_flows nw1)" using 1 i by (simp add: advances_def)
  have "advances i [] (fin_length seg) (has_tcp_flag TCP_FIN seg) nw1 (fst r)"
    using take_fin_advances [OF i1] keeps_advances [of nw1 nw1 i] by (simp add: r_def fin_length_def)
  from advances_trans [OF 1 this] have 2: "advances i (ts_payload seg) (length (ts_payload seg) + fin_length seg) (has_tcp_flag TCP_FIN seg) nw (fst r)"
    by simp
  have "keeps (fst r) (accept_segment i seg nw)"
    unfolding accept_segment_def Inr using r_def [symmetric]
    by (cases r; cases "snd r") (auto intro!: kept)
  with 2 show ?thesis using advances_keeps by blast
qed

text \<open>The network after the acknowledgement of a segment has been taken.\<close>

definition acknowledged :: "nat \<Rightarrow> tcp_segment \<Rightarrow> network \<Rightarrow> network" where
  "acknowledged i seg nw = (if has_tcp_flag TCP_ACK seg
     then acknowledge_waiters i (ts_acknowledgement seg) (update_peer_window i (ts_window seg) nw) else nw)"

lemma keeps_acknowledged [kept]: "keeps a nw \<Longrightarrow> keeps a (acknowledged i seg nw)"
  by (simp add: acknowledged_def kept)

lemma acknowledged_flow:
  assumes "i < length (nw_flows nw)"
  shows "tf_readable (flow i (acknowledged i seg nw)) = tf_readable (flow i nw)"
    "tf_established (flow i (acknowledged i seg nw)) = tf_established (flow i nw)"
    "tf_handshake (flow i (acknowledged i seg nw)) = tf_handshake (flow i nw)"
    "tf_receive_sequence (flow i (acknowledged i seg nw)) = tf_receive_sequence (flow i nw)"
  using assms by (simp_all add: acknowledged_def acknowledge_waiters_def update_peer_window_def Let_def on_flow_flows)

definition shaken :: "nat \<Rightarrow> tcp_segment \<Rightarrow> network \<Rightarrow> network" where
  "shaken i seg nw = reply i (K_Handshake i)
     (establish_tcp_flow i (on_flow i (\<lambda>f. f\<lparr>tf_receive_sequence := sequence_add (ts_sequence seg) 1\<rparr>) nw))"

lemma process_tcp_cases:
  assumes i: "i < length (nw_flows nw)"
  obtains (quiet) "keeps nw (process_tcp i seg nw)"
  | (shook) "tf_handshake (flow i nw) \<noteq> None" "\<not> tf_established (flow i nw)"
      "process_tcp i seg nw = shaken i seg (acknowledged i seg nw)"
  | (took) "tf_established (flow i nw)" "ts_sequence seg = tf_receive_sequence (flow i (acknowledged i seg nw))"
      "ts_payload seg \<noteq> [] \<longrightarrow> length (ts_payload seg) \<le> tcp_receive_window (flow i (acknowledged i seg nw))"
      "process_tcp i seg nw = accept_segment i seg (acknowledged i seg nw)"
proof (cases "tf_closed (flow i nw) \<or> has_tcp_flag TCP_RST seg")
  case True
  then have "keeps nw (process_tcp i seg nw)" by (auto simp: process_tcp_def kept)
  then show thesis by (rule quiet)
next
  case False
  let ?nw = "acknowledged i seg nw"
  note same = acknowledged_flow [OF i, of seg]
  have at: "process_tcp i seg nw =
    (if \<not> tf_established (flow i nw) then
       if tf_handshake (flow i nw) \<noteq> None then
         if ts_flags seg AND (TCP_SYN + TCP_ACK) \<noteq> TCP_SYN + TCP_ACK \<or> ts_acknowledgement seg \<noteq> tf_send_sequence (flow i ?nw) then ?nw
         else shaken i seg ?nw
       else if has_tcp_flag TCP_ACK seg \<and> ts_acknowledgement seg = tf_send_sequence (flow i ?nw) then establish_tcp_flow i ?nw
       else ?nw
     else if ts_payload seg = [] \<and> \<not> has_tcp_flag TCP_FIN seg then ?nw
     else if ts_sequence seg \<noteq> tf_receive_sequence (flow i ?nw) then reply i (K_Replied i) ?nw
     else if ts_payload seg \<noteq> [] \<and> length (ts_payload seg) > tcp_receive_window (flow i ?nw) then reply i (K_Replied i) ?nw
     else accept_segment i seg ?nw)"
    using False unfolding process_tcp_def acknowledged_def [symmetric] Let_def same by (simp add: shaken_def)
  have "keeps nw ?nw" "keeps nw (establish_tcp_flow i ?nw)" "keeps nw (reply i (K_Replied i) ?nw)"
    by (intro kept keeps_refl; simp)+
  with at quiet shook took show thesis by (auto split: if_splits)
qed

section \<open>The invariant\<close>

definition net_ok :: "network \<Rightarrow> bool" where
  "net_ok nw \<longleftrightarrow> (\<forall>j < length (nw_flows nw). flow_ok (flow j nw) \<and> (tf_handshake (flow j nw) \<noteq> None \<longrightarrow> tf_readable (flow j nw) = None)) \<and>
     distinct (handshakes nw) \<and> linked nw \<and>
     (\<forall>i \<in> set (handshakes nw). i < length (nw_flows nw) \<and> tf_established (flow i nw) \<and> tf_readable (flow i nw) = None)"

lemma net_ok_advances: "net_ok a \<Longrightarrow> advances i p n b a c \<Longrightarrow> net_ok c"
proof -
  assume a: "net_ok a" and c: "advances i p n b a c"
  have step: "(tf_established (flow j a) \<longrightarrow> tf_established (flow j c)) \<and> tf_handshake (flow j c) = tf_handshake (flow j a) \<and>
      (tf_readable (flow j c) = None \<longleftrightarrow> tf_readable (flow j a) = None) \<and> (flow_ok (flow j a) \<longrightarrow> flow_ok (flow j c))"
    if "j < length (nw_flows a)" for j
    using advancesD [OF c that] by (cases "j = i") (simp_all add: keeps_flow_grows grows_def)
  have "length (nw_flows c) = length (nw_flows a)" "handshakes c = handshakes a" "linked a \<longrightarrow> linked c" using c by (simp_all add: advances_def)
  with a step show ?thesis by (simp add: net_ok_def)
qed

lemma net_ok_keeps: "net_ok a \<Longrightarrow> keeps a c \<Longrightarrow> net_ok c"
  using net_ok_advances keeps_advances by blast

lemma net_ok_start: "net_ok createNetwork"
  by (simp add: net_ok_def createNetwork_def handshakes_def linked_def)

lemma handshakes_spawn: "handshakes (spawn_task t nw) = handshakes nw @ handshake_of (task_cont t)"
  by (simp add: handshakes_def spawn_task_def)

lemma handshakes_drop: "set (handshakes (drop_task t nw)) \<subseteq> set (handshakes nw)" "distinct (handshakes nw) \<Longrightarrow> distinct (handshakes (drop_task t nw))"
proof -
  have "set (concat (map h (filter P xs))) \<subseteq> set (concat (map h xs))" for h :: "nat \<times> task \<Rightarrow> nat list" and P xs by auto
  then show "set (handshakes (drop_task t nw)) \<subseteq> set (handshakes nw)" by (simp add: handshakes_def drop_task_def)
  have "distinct (concat (map h xs)) \<Longrightarrow> distinct (concat (map h (filter P xs)))" for h :: "nat \<times> task \<Rightarrow> nat list" and P xs
    by (induction xs) auto
  then show "distinct (handshakes nw) \<Longrightarrow> distinct (handshakes (drop_task t nw))" by (simp add: handshakes_def drop_task_def)
qed

lemma handshakes_dropped:
  assumes "map_of (nw_tasks nw) t = Some x" "handshake_of (task_cont x) = [i]" "distinct (handshakes nw)"
  shows "i \<in> set (handshakes nw)" "i \<notin> set (handshakes (drop_task t nw))"
proof -
  have *: "i \<in> set (concat (map (\<lambda>x. handshake_of (task_cont (snd x))) xs)) \<and>
      i \<notin> set (concat (map (\<lambda>x. handshake_of (task_cont (snd x))) (filter (\<lambda>x. fst x \<noteq> t) xs)))"
    if "map_of xs t = Some x" "distinct (concat (map (\<lambda>x. handshake_of (task_cont (snd x))) xs))" for xs
    using that by (induction xs) (auto simp: assms(2) split: if_splits)
  from * [OF assms(1)] assms(3) show "i \<in> set (handshakes nw)" "i \<notin> set (handshakes (drop_task t nw))"
    by (simp_all add: handshakes_def drop_task_def)
qed

lemma drop_task_flows [simp]: "nw_flows (drop_task t nw) = nw_flows nw"
  by (simp add: drop_task_def)

lemma net_ok_drop: "net_ok nw \<Longrightarrow> net_ok (drop_task t nw)"
  using handshakes_drop [where t = t and nw = nw] by (auto simp: net_ok_def linked_def) (simp add: drop_task_def)

text \<open>Every handshake ends with a fresh stream for its flow.\<close>

definition opened :: "nat \<Rightarrow> network \<Rightarrow> network" where
  "opened i nw = on_flow i (\<lambda>f. f\<lparr>tf_handshake := None\<rparr>) (host_tcp_connection i nw)"

lemma new_stream_flow_ok:
  "flow_ok f \<Longrightarrow> flow_ok (f\<lparr>tf_readable := Some (new_stream (if tf_abort f = None then TCP_RECEIVE_WINDOW else 0) True), tf_handshake := h\<rparr>)"
  by (auto simp: flow_ok_def new_stream_def queue_size_def stream_ok_def)

lemma net_ok_opened:
  assumes ok: "net_ok nw" and i: "i \<notin> set (handshakes nw)"
  shows "net_ok (opened i nw)"
proof -
  define f where "f = (flow i nw)\<lparr>tf_readable := Some (new_stream (if tf_abort (flow i nw) = None then TCP_RECEIVE_WINDOW else 0) True),
      tf_handshake := None\<rparr>"
  have flows: "flow j (opened i nw) = (if j = i then f else flow j nw)" if "j < length (nw_flows nw)" for j
    using that by (simp add: opened_def host_tcp_connection_def on_flow_twice flow_on_flow f_def)
  have f: "flow_ok f" if "i < length (nw_flows nw)" using ok that unfolding f_def by (intro new_stream_flow_ok) (simp add: net_ok_def)
  have h: "tf_handshake f = None" "tf_key f = tf_key (flow i nw)" "tf_closed f = tf_closed (flow i nw)" by (simp_all add: f_def)
  have "handshakes (opened i nw) = handshakes nw" "length (nw_flows (opened i nw)) = length (nw_flows nw)"
    "nw_tcp_flows (opened i nw) = nw_tcp_flows nw"
    by (simp_all add: opened_def host_tcp_connection_def on_flow_def handshakes_def)
  with ok i flows f h show ?thesis by (auto simp: net_ok_def linked_def)
qed

lemma keeps_handshake_ok: "run_cont (K_Handshake i) (Inr ()) nw =
    tail_done i (Inr ()) (on_flow i (\<lambda>f. f\<lparr>tf_handshake := None\<rparr>)
      (case tf_handshake (flow i nw) of None \<Rightarrow> host_tcp_connection i nw | Some p \<Rightarrow> settle_promise p (Inr ()) (host_tcp_connection i nw)))"
  by (simp add: Let_def)

lemma on_flow_settle: "on_flow i g (settle_promise p r nw) = settle_promise p r (on_flow i g nw)"
  by (simp add: on_flow_def settle_promise_def)

lemma net_ok_cont:
  assumes ok: "net_ok nw" and k: "\<And>i. k = K_Handshake i \<Longrightarrow> i \<notin> set (handshakes nw)"
  shows "net_ok (run_cont k r nw)"
proof (cases "handshake_of (Some k) = []")
  case True
  then show ?thesis using net_ok_keeps [OF ok keeps_run_cont [OF keeps_refl]] by simp
next
  case False
  then obtain i where k': "k = K_Handshake i" by (cases k) auto
  show ?thesis
  proof (cases r)
    case (Inl e)
    then show ?thesis using net_ok_keeps [OF ok] by (simp add: k' kept)
  next
    case (Inr u)
    have "keeps (opened i nw) (run_cont k r nw)"
      unfolding k' Inr keeps_handshake_ok [of i nw, simplified]
      by (auto simp: Let_def on_flow_settle opened_def intro!: kept split: option.split)
    with net_ok_opened [OF ok k [OF k']] show ?thesis using net_ok_keeps by blast
  qed
qed

section \<open>Steps\<close>

definition steady :: "network \<Rightarrow> network \<Rightarrow> bool" where
  "steady nw nw' \<longleftrightarrow> length (nw_flows nw) \<le> length (nw_flows nw') \<and>
     (\<forall>j < length (nw_flows nw). tf_readable (flow j nw) \<noteq> None \<longrightarrow> keeps_flow (flow j nw) (flow j nw'))"

definition ok_step :: "network \<Rightarrow> network \<Rightarrow> bool" where
  "ok_step nw nw' \<longleftrightarrow> (net_ok nw \<longrightarrow> net_ok nw' \<and> steady nw nw')"

lemma steady_refl [simp]: "steady nw nw"
  by (simp add: steady_def)

lemma ok_step_keeps: "keeps a b \<Longrightarrow> ok_step a b"
  using net_ok_keeps by (auto simp: ok_step_def steady_def keeps_def)

lemma steady_trans: "steady a b \<Longrightarrow> steady b c \<Longrightarrow> steady a c"
  unfolding steady_def
proof (intro conjI allI impI; elim conjE)
  fix j assume ab: "length (nw_flows a) \<le> length (nw_flows b)"
    "\<forall>j < length (nw_flows a). tf_readable (flow j a) \<noteq> None \<longrightarrow> keeps_flow (flow j a) (flow j b)"
    and bc: "\<forall>j < length (nw_flows b). tf_readable (flow j b) \<noteq> None \<longrightarrow> keeps_flow (flow j b) (flow j c)"
    and j: "j < length (nw_flows a)" "tf_readable (flow j a) \<noteq> None"
  then have "keeps_flow (flow j a) (flow j b)" by blast
  moreover from this j have "tf_readable (flow j b) \<noteq> None" by (simp add: keeps_flow_def)
  ultimately show "keeps_flow (flow j a) (flow j c)" using ab(1) bc j(1) keeps_flow_trans by (metis order_less_le_trans)
qed simp

lemma ok_step_trans: "ok_step a b \<Longrightarrow> ok_step b c \<Longrightarrow> ok_step a c"
  using steady_trans by (auto simp: ok_step_def)

lemma ok_step_opened:
  assumes i: "net_ok nw \<longrightarrow> i \<notin> set (handshakes nw)" and none: "net_ok nw \<longrightarrow> tf_readable (flow i nw) = None"
  shows "ok_step nw (opened i nw)"
proof -
  have "flow j (opened i nw) = flow j nw" if "j < length (nw_flows nw)" "j \<noteq> i" for j
    using that by (simp add: opened_def host_tcp_connection_def on_flow_twice flow_on_flow)
  moreover have "length (nw_flows (opened i nw)) = length (nw_flows nw)"
    by (simp add: opened_def host_tcp_connection_def on_flow_flows)
  ultimately have "steady nw (opened i nw)" if "net_ok nw"
    using that none by (auto simp: steady_def) (metis keeps_flow_refl option.distinct(1))
  with net_ok_opened i show ?thesis by (auto simp: ok_step_def)
qed

lemma ok_step_cont:
  assumes ok: "net_ok nw" and t: "map_of (nw_tasks nw) t = Some x" "task_cont x = Some k"
  shows "ok_step nw (run_cont k r (drop_task t nw))"
proof -
  have drop: "ok_step nw (drop_task t nw)" using net_ok_drop by (auto simp: ok_step_def steady_def)
  show ?thesis
  proof (cases "handshake_of (Some k) = []")
    case True
    then show ?thesis using ok_step_trans [OF drop ok_step_keeps [OF keeps_run_cont [OF keeps_refl]]] by blast
  next
    case False
    then obtain i where k: "k = K_Handshake i" by (cases k) auto
    have "distinct (handshakes nw)" using ok by (simp add: net_ok_def)
    note out = handshakes_dropped [OF t(1) _ this, of i, unfolded t(2), simplified k]
    have none: "tf_readable (flow i (drop_task t nw)) = None" using ok out(1) by (auto simp: net_ok_def)
    show ?thesis
    proof (cases r)
      case (Inl e)
      have "keeps (drop_task t nw) (run_cont k r (drop_task t nw))" by (simp add: k Inl kept)
      then show ?thesis using ok_step_trans [OF drop ok_step_keeps] by blast
    next
      case (Inr u)
      have "keeps (opened i (drop_task t nw)) (run_cont k r (drop_task t nw))"
        unfolding k Inr by (auto simp: Let_def on_flow_settle opened_def intro!: kept split: option.split)
      moreover have "ok_step (drop_task t nw) (opened i (drop_task t nw))" using out(2) none by (intro ok_step_opened) auto
      ultimately show ?thesis using ok_step_trans ok_step_keeps drop by blast
    qed
  qed
qed

lemma ok_step_sent: "ok_step nw (task_sent t r nw)"
proof (cases "net_ok nw")
  case True
  show ?thesis
  proof (cases "map_of (nw_tasks nw) t")
    case (Some x)
    show ?thesis
    proof (cases x)
      case (Sending rest k)
      show ?thesis
      proof (cases "is_ok r \<and> rest \<noteq> []")
        case True
        then obtain u frame frames where r: "r = Inr u" "rest = frame # frames" by (cases r; cases rest) (auto simp: is_ok_def)
        have "map_of xs t = Some (Sending rest k) \<Longrightarrow> concat (map (\<lambda>x. handshake_of (task_cont (snd x))) (AList.update t (Sending frames k) xs)) =
            concat (map (\<lambda>x. handshake_of (task_cont (snd x))) xs)" for xs
          by (induction xs) (auto split: if_splits)
        with Some Sending r show ?thesis
          by (intro ok_step_keeps) (auto simp: task_sent_def keeps_def handshakes_def linked_def)
      next
        case False
        then have "task_sent t r nw = run_cont k r (drop_task t nw)"
          using Some Sending by (auto simp: task_sent_def is_ok_def split: sum.split list.split)
        with ok_step_cont [OF True Some] Sending show ?thesis by simp
      qed
    qed (use Some in \<open>simp_all add: task_sent_def ok_step_keeps\<close>)
  qed (simp add: task_sent_def ok_step_keeps)
qed (simp add: ok_step_def)

lemma ok_step_resume: "ok_step nw (task_resume t nw)"
proof (cases "net_ok nw")
  case True
  show ?thesis
    by (auto simp: task_resume_def ok_step_keeps intro!: ok_step_cont [OF True] split: option.split task.split)
qed (simp add: ok_step_def)

lemma net_ok_add:
  assumes ok: "net_ok nw" and f: "flow_ok f" "tf_handshake f \<noteq> None \<longrightarrow> tf_readable f = None"
    and new: "map_of (nw_tcp_flows nw) (tf_key f) = None"
  shows "net_ok (add_flow f nw)"
proof -
  have "linked (add_flow f nw)"
    using ok new by (auto simp: net_ok_def linked_def add_flow_def nth_append less_Suc_eq update_conv')
  with ok f show ?thesis by (auto simp: net_ok_def add_flow_def handshakes_def nth_append less_Suc_eq)
qed

lemma steady_add: "steady nw (add_flow f nw)"
  by (simp add: steady_def add_flow_def nth_append)

lemma new_flow_ok [simp]: "flow_ok (new_flow k g gp pi pp s r w h)" "tf_readable (new_flow k g gp pi pp s r w h) = None"
  "tf_handshake (new_flow k g gp pi pp s r w h) = h" "tf_abort (new_flow k g gp pi pp s r w h) = None"
  "tf_key (new_flow k g gp pi pp s r w h) = k"
  by (simp_all add: flow_ok_def new_flow_def)

lemma host_connection_new:
  "host_tcp_connection (length (nw_flows nw)) (add_flow f nw) =
     add_flow (f\<lparr>tf_readable := Some (new_stream (if tf_abort f = None then TCP_RECEIVE_WINDOW else 0) True)\<rparr>) nw"
  by (simp add: host_tcp_connection_def on_flow_def add_flow_def)

lemma ok_step_outbound: "ok_step nw (start_outbound_tcp guest ip seg initial nw)"
proof -
  have "flow_ok ((new_flow k g gp pi pp s r w None)\<lparr>tf_abort := Some False, tf_readable := Some (new_stream 0 True)\<rparr>)" for k g gp pi pp s r w
    by (simp add: flow_ok_def new_flow_def new_stream_def queue_size_def stream_ok_def)
  then show ?thesis
    by (auto simp: start_outbound_tcp_def Let_def host_connection_new ok_step_keeps ok_step_def steady_add intro!: net_ok_add)
qed

lemma ok_step_receive_tcp: "ok_step nw (receive_tcp ip mac initial nw)"
  by (auto simp: receive_tcp_def split: sum.split option.split
      intro!: ok_step_outbound ok_step_keeps keeps_on_flow)

lemma keeps_receive_udp: "keeps a nw \<Longrightarrow> keeps a (receive_udp ip nw)"
  by (auto simp: receive_udp_def receive_dns_def Let_def split: sum.split option.split intro!: keeps_spawn)

lemma ok_step_frame: "ok_step nw (receive_frame frame initial nw)"
proof -
  define nw1 where "nw1 arp = (case arp of None \<Rightarrow> nw | Some answer \<Rightarrow> nw\<lparr>nw_out := nw_out nw @ [answer]\<rparr>)" for arp
  define nw2 where "nw2 arp = (nw1 arp)\<lparr>nw_ip_reassemblies := fst (ip_input frame (nw_ip_reassemblies (nw1 arp)))\<rparr>" for arp
  have 2: "keeps nw (nw2 arp)" for arp by (auto simp: nw2_def nw1_def split: option.split)
  have "ok_step nw (nw2 arp)" "ok_step nw (receive_tcp ip mac initial (nw2 arp))" "ok_step nw (receive_udp ip (nw2 arp))" for arp ip mac
    using 2 ok_step_keeps ok_step_trans ok_step_receive_tcp keeps_receive_udp by blast+
  then show ?thesis
    unfolding receive_frame_def nw1_def [symmetric] Let_def split_def nw2_def [symmetric]
    by (auto simp: ok_step_keeps split: sum.split option.split)
qed

lemma keeps_port [kept]: "keeps a nw \<Longrightarrow> keeps a (fst (network_allocate_port P nw))"
proof -
  have "keeps a nw \<Longrightarrow> keeps a (fst (port_attempts n P nw))" for n
    by (induction n arbitrary: nw) (simp_all add: Let_def)
  then show "keeps a nw \<Longrightarrow> keeps a (fst (network_allocate_port P nw))" by (simp add: network_allocate_port_def)
qed

lemma ok_step_open:
  assumes new: "map_of (nw_tcp_flows nw) (tcp_key (g_ip guest) port GATEWAY_IP local) = None"
  shows "ok_step nw (fst (open_tcp guest port local signal initial nw))"
proof -
  define nw2 where "nw2 = add_flow ((new_flow (tcp_key (g_ip guest) port GATEWAY_IP local) guest port GATEWAY_IP local
    (sequence_add initial 1) 0 0 (Some (snd (new_promise nw))))\<lparr>tf_external_abort := signal\<rparr>) (fst (new_promise nw))"
  have "ok_step (fst (new_promise nw)) nw2"
    unfolding ok_step_def nw2_def using new by (auto simp: steady_add flow_ok_def new_flow_def intro!: net_ok_add)
  moreover have "ok_step nw (fst (new_promise nw))" by (intro ok_step_keeps kept keeps_refl)
  ultimately have flow: "ok_step nw nw2" using ok_step_trans by blast
  have "ok_step nw (network_send_ip mac s d pr bs (K_Close_On_Error i) nw2)" for mac s d pr bs i
    using ok_step_trans [OF flow ok_step_keeps [OF keeps_ip [OF keeps_refl]]] by simp
  with flow show ?thesis
    unfolding open_tcp_def Let_def split_def nw2_def [symmetric] by (auto split: sum.split)
qed

lemma port_attempts_free: "port_attempts n P nw = (nw1, Inr p) \<Longrightarrow> \<not> P p"
  by (induction n arbitrary: nw) (auto simp: Let_def split: if_splits)

lemma port_attempts_flows: "port_attempts n P nw = (nw1, x) \<Longrightarrow> nw_tcp_flows nw1 = nw_tcp_flows nw"
  by (induction n arbitrary: nw) (force simp: Let_def split: if_splits)+

lemma ok_step_allocated:
  "network_allocate_port P nw = (nw1, x) \<Longrightarrow> ok_step nw1 nw2 \<Longrightarrow> ok_step nw nw2"
  using keeps_port [OF keeps_refl, where P = P, of nw] ok_step_trans ok_step_keeps by (metis fst_conv)

lemma ok_step_connect: "ok_step nw (fst (connect_tcp hostname port signal initial nw))"
proof -
  have "ok_step nw (fst (open_tcp guest (nat port) local b initial nw1))"
    if "network_allocate_port (\<lambda>c. map_of (nw_tcp_flows nw) (tcp_key (g_ip guest) (nat port) GATEWAY_IP c) \<noteq> None) nw = (nw1, Inr local)"
    for guest local b nw1
    using port_attempts_free port_attempts_flows that
    by (intro ok_step_allocated [OF that] ok_step_open) (fastforce simp: network_allocate_port_def)
  then show ?thesis
    by (auto simp: connect_tcp_def ok_step_keeps split: abort_signal.split sum.split prod.split elim!: ok_step_allocated)
qed

lemma keeps_attach: "keeps nw (fst (attach_guest agent nw))"
  by (auto simp: attach_guest_def do_attach_guest_def Let_def split: sum.split)

lemma keeps_connect_udp: "keeps nw (fst (connect_udp hostname port nw))"
proof -
  have "keeps nw nw1" if "network_allocate_port P nw = (nw1, x)" for P nw1 x
    using keeps_port [OF keeps_refl, where P = P, of nw] that by simp
  then show ?thesis by (auto simp: connect_udp_def Let_def split: sum.split prod.split)
qed

lemma keeps_detach: "keeps nw (fst (attachment_close ip nw))"
  by (auto simp: attachment_close_def Let_def split_def split: sum.split intro!: kept)

lemma abort_flows_closed:
  "i \<in> set js \<Longrightarrow> i < length (nw_flows nw) \<Longrightarrow> tf_closed (flow i (abort_flows js e nw))"
proof (induction js arbitrary: nw)
  case (Cons j js)
  have k: "keeps nw (abort_tcp_flow j (Some e) nw)" by (intro kept keeps_refl)
  show ?case
  proof (cases "i \<in> set js")
    case True
    with Cons k show ?thesis by (simp add: keeps_length)
  next
    case False
    with Cons.prems have "tf_closed (flow i (abort_tcp_flow j (Some e) nw))" using abort_closes by auto
    moreover have "keeps (abort_tcp_flow j (Some e) nw) (abort_flows js e (abort_tcp_flow j (Some e) nw))" by (intro kept keeps_refl)
    ultimately show ?thesis using Cons.prems(2) keeps_length [OF k] by (auto simp: keeps_def keeps_flow_def)
  qed
qed simp

lemma net_close_closes:
  assumes ok: "net_ok nw" and running: "\<not> nw_closed nw" and i: "i < length (nw_flows nw)"
  shows "tf_closed (flow i (fst (net_close nw)))"
proof -
  define nw1 where "nw1 = abort_flows (map snd (nw_tcp_flows nw)) (Error ''network closed'') (nw\<lparr>nw_closed := True\<rparr>)"
  define nw2 where "nw2 = fst (close_udps False (map snd (nw_udp_flows nw1)) nw1)"
  have 1: "keeps nw nw1" unfolding nw1_def by (intro kept) simp
  have 2: "keeps nw1 nw2" unfolding nw2_def by (intro kept keeps_refl)
  have "tf_closed (flow i nw1)"
  proof (cases "tf_closed (flow i nw)")
    case True
    with 1 i show ?thesis by (simp add: keeps_def keeps_flow_def)
  next
    case False
    with ok i have "map_of (nw_tcp_flows nw) (tf_key (flow i nw)) = Some i" by (simp add: net_ok_def linked_def)
    then have "i \<in> set (map snd (nw_tcp_flows nw))" by (force dest: map_of_SomeD)
    with i show ?thesis unfolding nw1_def by (intro abort_flows_closed) simp_all
  qed
  with 2 i keeps_length [OF 1] have "tf_closed (flow i nw2)" by (simp add: keeps_def keeps_flow_def)
  moreover have "nw_flows (fst (net_close nw)) = nw_flows nw2"
    using running by (simp add: net_close_def Let_def split_def nw1_def [symmetric] nw2_def split: sum.split)
  ultimately show ?thesis by simp
qed

lemma ok_step_net_close: "ok_step nw (fst (net_close nw))"
proof (cases "nw_closed nw")
  case False
  define nw1 where "nw1 = abort_flows (map snd (nw_tcp_flows nw)) (Error ''network closed'') (nw\<lparr>nw_closed := True\<rparr>)"
  define nw2 where "nw2 = fst (close_udps False (map snd (nw_udp_flows nw1)) nw1)"
  have 2: "keeps nw nw2" unfolding nw2_def nw1_def by (intro kept) simp
  have same: "nw_flows (fst (net_close nw)) = nw_flows nw2" "nw_tasks (fst (net_close nw)) = nw_tasks nw2"
    using False by (simp_all add: net_close_def Let_def split_def nw1_def [symmetric] nw2_def split: sum.split)
  have "linked (fst (net_close nw))" if "net_ok nw"
    using net_close_closes [OF that False] same keeps_length [OF 2] by (simp add: linked_def)
  with ok_step_keeps [OF 2] show ?thesis
    by (auto simp: ok_step_def net_ok_def steady_def same handshakes_def)
qed (simp add: net_close_def ok_step_keeps)

lemma ok_step_dns: "ok_step nw (dns_resolved t answer nw)"
proof -
  have drop: "ok_step nw (drop_task t nw)" using net_ok_drop by (auto simp: ok_step_def steady_def)
  have "ok_step nw (network_send_ip mac s d pr bs K_Done (drop_task t nw))" for mac s d pr bs
    using ok_step_trans [OF drop ok_step_keeps [OF keeps_ip [OF keeps_refl]]] by simp
  with drop show ?thesis by (auto simp: dns_resolved_def ok_step_keeps split: option.split task.split sum.split)
qed

lemma send_tcp_handshakes: "handshakes (send_tcp i flags payload k nw) = handshakes nw @ handshake_of (Some k)"
  by (simp add: send_tcp_def network_send_ip_def Let_def handshakes_def spawn_task_def on_flow_def split: sum.split list.split)

lemma send_tcp_flows: "nw_flows (send_tcp i flags payload k nw) = nw_flows (send_tcp i flags payload K_Done nw)"
  by (simp add: send_tcp_def network_send_ip_def Let_def spawn_task_def on_flow_def split: sum.split list.split)

lemma send_tcp_flows_map: "nw_tcp_flows (send_tcp i flags payload k nw) = nw_tcp_flows nw"
  by (simp add: send_tcp_def network_send_ip_def Let_def spawn_task_def on_flow_def split: sum.split list.split)

lemma net_ok_shaken:
  assumes ok: "net_ok nw" and i: "i < length (nw_flows nw)" and new: "\<not> tf_established (flow i nw)"
    and h: "tf_handshake (flow i nw) \<noteq> None"
  shows "net_ok (shaken i seg nw) \<and> steady nw (shaken i seg nw)"
proof -
  define nw1 where "nw1 = on_flow i (\<lambda>f. f\<lparr>tf_receive_sequence := sequence_add (ts_sequence seg) 1\<rparr>) nw"
  define nw2 where "nw2 = on_flow i (\<lambda>f. f\<lparr>tf_busy := True\<rparr>) (establish_tcp_flow i nw1)"
  define nw3 where "nw3 = shaken i seg nw"
  have 2: "keeps nw1 nw2" unfolding nw2_def by (intro keeps_on_flow kept keeps_refl) simp
  have "keeps nw2 (send_tcp i TCP_ACK [] K_Done nw2)" by (intro kept keeps_refl) simp
  then have 3: "length (nw_flows nw3) = length (nw_flows nw2)" "\<And>j. j < length (nw_flows nw2) \<Longrightarrow> keeps_flow (flow j nw2) (flow j nw3)"
    unfolding nw3_def shaken_def reply_def nw1_def [symmetric] nw2_def [symmetric]
    using send_tcp_flows [of i TCP_ACK "[]" "K_Handshake i" nw2] by (simp_all add: keeps_def)
  have hs: "handshakes nw3 = handshakes nw @ [i]"
    unfolding nw3_def shaken_def reply_def nw1_def [symmetric] nw2_def [symmetric]
    using 2 by (simp add: send_tcp_handshakes keeps_def) (simp add: nw1_def handshakes_def on_flow_def)
  have len: "length (nw_flows nw3) = length (nw_flows nw)" using 2 3(1) by (simp add: keeps_def nw1_def on_flow_flows)
  have other: "keeps_flow (flow j nw) (flow j nw3)" if "j < length (nw_flows nw)" "j \<noteq> i" for j
    using 2 3 that keeps_flow_trans by (fastforce simp: keeps_def nw1_def on_flow_flows)
  have mid: "keeps_flow (flow i nw1) (flow i nw3)"
    using 2 3 i keeps_flow_trans by (fastforce simp: keeps_def nw1_def on_flow_flows)
  have at1: "flow i nw1 = (flow i nw)\<lparr>tf_receive_sequence := sequence_add (ts_sequence seg) 1\<rparr>"
    using i by (simp add: nw1_def on_flow_flows)
  have established: "tf_established (flow i nw3)"
  proof -
    have "tf_established (flow i nw2)" using i by (simp add: nw2_def establish_tcp_flow_def Let_def on_flow_flows nw1_def split: option.split)
    moreover have "i < length (nw_flows nw2)" using i 2 by (simp add: keeps_def nw1_def on_flow_flows)
    ultimately show ?thesis using 3(2) [of i] by (simp add: keeps_flow_def)
  qed
  have none: "tf_readable (flow i nw) = None" "flow_ok (flow i nw)" using ok i h by (auto simp: net_ok_def)
  have i3: "flow_ok (flow i nw3)" "tf_readable (flow i nw3) = None" using mid none by (auto simp: at1 keeps_flow_def flow_ok_def)
  have "nw_tcp_flows nw3 = nw_tcp_flows nw"
    by (simp add: nw3_def shaken_def reply_def send_tcp_flows_map establish_tcp_flow_def on_flow_def Let_def split: option.split)
  moreover have all: "tf_key (flow j nw3) = tf_key (flow j nw) \<and> (tf_closed (flow j nw) \<longrightarrow> tf_closed (flow j nw3)) \<and>
      (tf_readable (flow j nw3) = None \<longleftrightarrow> tf_readable (flow j nw) = None) \<and>
      tf_handshake (flow j nw3) = tf_handshake (flow j nw) \<and> flow_ok (flow j nw3) \<and>
      (tf_established (flow j nw) \<longrightarrow> tf_established (flow j nw3))" if "j < length (nw_flows nw)" for j
    using other [OF that] mid at1 i3 established none ok that by (cases "j = i") (auto simp: keeps_flow_def net_ok_def)
  ultimately have "linked nw3" using ok len by (simp add: net_ok_def linked_def) blast
  moreover have "i \<notin> set (handshakes nw)" using ok new by (auto simp: net_ok_def)
  ultimately have "net_ok nw3" using ok len hs all established none(1) i by (simp add: net_ok_def)
  moreover have "steady nw nw3" using other none len by (auto simp: steady_def) (metis option.distinct(1))
  ultimately show ?thesis by (simp add: nw3_def)
qed

text \<open>Everything but a segment taken by \<open>process_tcp\<close> leaves what a connected flow has received alone.\<close>

lemma run_tail_cases:
  assumes i: "i < length (nw_flows nw)" and ok: "net_ok nw"
  obtains (steady) "net_ok (run_tail i nw)" "steady nw (run_tail i nw)"
  | (took) seg jobs where "tf_tail (flow i nw) = Process seg # jobs" "\<not> tf_busy (flow i nw)" "tf_established (flow i nw)"
      "ts_sequence seg = tf_receive_sequence (flow i nw)" "net_ok (run_tail i nw)"
      "advances i (ts_payload seg) (length (ts_payload seg) + fin_length seg) (has_tcp_flag TCP_FIN seg) nw (run_tail i nw)"
proof -
  have quiet: thesis if "keeps nw (run_tail i nw)"
    using ok_step_keeps [OF that] ok steady by (auto simp: ok_step_def)
  show thesis
  proof (cases "tf_busy (flow i nw) \<or> tf_tail (flow i nw) = []")
    case True
    then show thesis by (intro quiet) (auto simp: run_tail_def Let_def)
  next
    case False
    then obtain job jobs where tail: "tf_tail (flow i nw) = job # jobs" by (cases "tf_tail (flow i nw)") auto
    define nw1 where "nw1 = on_flow i (\<lambda>f. f\<lparr>tf_tail := jobs\<rparr>) nw"
    have 1: "keeps nw nw1" unfolding nw1_def by (intro keeps_on_flow) simp_all
    have same: "flow i nw1 = (flow i nw)\<lparr>tf_tail := jobs\<rparr>" "length (nw_flows nw1) = length (nw_flows nw)"
      using i by (simp_all add: nw1_def on_flow_flows)
    show thesis
    proof (cases job)
      case Update_Window
      have "keeps nw1 (run_tail i nw)"
        using False tail Update_Window by (auto simp: run_tail_def Let_def nw1_def [symmetric] intro!: kept)
      with 1 show thesis by (intro quiet) (rule keeps_trans)
    next
      case (Process seg)
      have run: "run_tail i nw = process_tcp i seg nw1" using False tail Process by (simp add: run_tail_def Let_def nw1_def)
      have i1: "i < length (nw_flows nw1)" using i same by simp
      note ack = acknowledged_flow [OF i1, of seg]
      let ?nw = "acknowledged i seg nw1"
      have k: "keeps nw ?nw" using 1 by (intro kept)
      have len: "i < length (nw_flows ?nw)" using i k by (simp add: keeps_def)
      from i1 show thesis
      proof (cases rule: process_tcp_cases [where seg = seg])
        case quiet
        then show thesis using 1 run by (intro \<open>keeps nw (run_tail i nw) \<Longrightarrow> thesis\<close>) (simp add: keeps_trans)
      next
        case shook
        have "net_ok (shaken i seg ?nw) \<and> steady ?nw (shaken i seg ?nw)"
          using shook len ack by (intro net_ok_shaken net_ok_keeps [OF ok k]) simp_all
        moreover have "steady nw ?nw" using ok_step_keeps [OF k] ok by (simp add: ok_step_def)
        ultimately show thesis using shook(3) run steady_trans by (intro steady) auto
      next
        case taken: took
        from accept_segment_cases [OF len taken(3)] show thesis
        proof
          assume "keeps ?nw (accept_segment i seg ?nw)"
          with k show thesis using taken(4) run by (intro quiet) (simp add: keeps_trans)
        next
          assume a: "advances i (ts_payload seg) (length (ts_payload seg) + fin_length seg) (has_tcp_flag TCP_FIN seg) ?nw (accept_segment i seg ?nw)"
          have "tf_established (flow i nw)" "ts_sequence seg = tf_receive_sequence (flow i nw)" using taken ack same by simp_all
          with keeps_then_advances [OF k a] show thesis
            using tail Process False taken(4) run net_ok_advances [OF ok] by (intro took [of seg jobs]) auto
        qed
      qed
    qed
  qed
qed

lemma perform_ok_step:
  assumes "enabled e nw" and tail: "\<And>i. e \<noteq> E_Tail i"
  shows "ok_step nw (perform e nw)"
proof (cases e)
  case (E_Tail i)
  with tail [of i] show ?thesis by blast
qed (use assms in \<open>auto simp: ok_step_frame ok_step_sent ok_step_resume ok_step_dns ok_step_connect ok_step_net_close stream_write_def stream_end_def
      handshake_timeout_def external_abort_def reassembly_timeout_def udp_write_def udp_close_def udp_cancel_def Let_def
      split: sum.split prod.split
      intro!: ok_step_keeps kept keeps_attach keeps_connect_udp keeps_detach stream_started_quiet stream_read_quiet\<close>)

lemma net_ok_perform: "net_ok nw \<Longrightarrow> enabled e nw \<Longrightarrow> net_ok (perform e nw)"
proof (cases "\<exists>i. e = E_Tail i")
  case True
  assume ok: "net_ok nw" and e: "enabled e nw"
  from True obtain i where i: "e = E_Tail i" by blast
  have "i < length (nw_flows nw)" using e i by simp
  from this ok show ?thesis by (cases rule: run_tail_cases) (simp_all add: i)
next
  case False
  assume "net_ok nw" "enabled e nw"
  with False perform_ok_step [of e nw] show ?thesis by (auto simp: ok_step_def)
qed

lemma reachable_ok: "net_reachable nw \<Longrightarrow> net_ok nw"
  by (induction rule: net_reachable.induct) (simp_all add: net_ok_start net_ok_perform)

section \<open>Waiters of a closed flow\<close>

definition waiters :: "tcp_flow \<Rightarrow> nat list" where
  "waiters f = map fst (tf_ack_waiters f) @ tf_window_waiters f"

definition is_settled :: "network \<Rightarrow> nat \<Rightarrow> bool" where
  "is_settled nw p \<longleftrightarrow> nw_settled nw p \<noteq> None"

definition settles_more :: "network \<Rightarrow> network \<Rightarrow> bool" where
  "settles_more nw nw' \<longleftrightarrow> (\<forall>p. is_settled nw p \<longrightarrow> is_settled nw' p)"

lemma settles_more_trans: "settles_more a b \<Longrightarrow> settles_more b c \<Longrightarrow> settles_more a c"
  by (simp add: settles_more_def)

lemma is_settled_settle [simp]: "is_settled (settle_promise p r nw) q \<longleftrightarrow> q = p \<or> is_settled nw q"
  by (auto simp: settle_promise_def is_settled_def)

lemma is_settled_all [simp]: "is_settled (settle_all ps r nw) q \<longleftrightarrow> q \<in> set ps \<or> is_settled nw q"
  by (induction ps arbitrary: nw) auto

lemma is_settled_fields [simp]:
  "is_settled (on_flow i g nw) = is_settled nw" "is_settled (nw\<lparr>nw_tcp_flows := x\<rparr>) = is_settled nw"
  "is_settled (send_tcp i flags payload k nw) = is_settled nw"
  by (simp_all add: is_settled_def fun_eq_iff on_flow_def send_tcp_def network_send_ip_def Let_def spawn_task_def
      split: sum.split list.split)

lemma close_settled:
  "is_settled nw p \<or> i < length (nw_flows nw) \<and> \<not> tf_closed (flow i nw) \<and> p \<in> set (waiters (flow i nw)) \<Longrightarrow>
   is_settled (close_tcp_flow i e nw) p"
  unfolding close_tcp_flow_def Let_def waiters_def by (auto split: option.split)

lemma send_tcp_eq:
  "send_tcp i flags payload k nw =
     (let f = flow i nw; w = tcp_receive_window f
      in network_send_ip (g_mac (tf_guest f)) (tf_peer_ip f) (g_ip (tf_guest f)) IP_TCP
           (tcp_bytes (tf_peer_ip f) (g_ip (tf_guest f)) (tf_peer_port f) (tf_guest_port f) (tf_send_sequence f)
              (tf_receive_sequence f) flags payload w) k
           (on_flow i (\<lambda>f. f\<lparr>tf_advertised_window := w\<rparr>) nw))"
  by (simp add: send_tcp_def tcp_segment_bytes_eq returned_def Let_def)

lemma send_ip_flows [simp]: "nw_flows (network_send_ip mac s d pr bs k nw) = nw_flows nw"
  by (simp add: network_send_ip_def Let_def spawn_task_def split: sum.split list.split)

lemma send_tcp_flow:
  assumes "j < length (nw_flows nw)"
  shows "flow j (send_tcp i flags payload k nw) =
    (if j = i then (flow i nw)\<lparr>tf_advertised_window := tcp_receive_window (flow i nw)\<rparr> else flow j nw)"
  using assms by (simp add: send_tcp_eq Let_def flow_on_flow)

lemma abort_settled:
  assumes "is_settled nw p \<or> i < length (nw_flows nw) \<and> \<not> tf_closed (flow i nw) \<and> p \<in> set (waiters (flow i nw))"
  shows "is_settled (abort_tcp_flow i e nw) p"
proof -
  let ?nw = "send_tcp i (TCP_RST + TCP_ACK) [] K_Done nw"
  have "keeps nw ?nw" by (intro kept keeps_refl) simp
  then have "length (nw_flows ?nw) = length (nw_flows nw)" by (rule keeps_length)
  moreover have "tf_closed (flow i ?nw) = tf_closed (flow i nw)" "waiters (flow i ?nw) = waiters (flow i nw)"
    if "i < length (nw_flows nw)" using that by (simp_all add: send_tcp_flow waiters_def)
  ultimately have "is_settled (close_tcp_flow i e ?nw) p" using assms by (intro close_settled) auto
  with assms show ?thesis by (auto simp: abort_tcp_flow_def)
qed

lemma abort_other:
  assumes "j \<noteq> i" "j < length (nw_flows nw)"
  shows "flow j (abort_tcp_flow i e nw) = flow j nw"
proof -
  have "flow j (close_tcp_flow i e nw') = flow j nw'" for nw'
    using assms by (simp add: close_tcp_flow_def Let_def on_flow_def split: option.split)
  with assms show ?thesis by (simp add: abort_tcp_flow_def send_tcp_flow)
qed

lemma abort_flows_settled:
  "is_settled nw p \<or> i \<in> set js \<and> i < length (nw_flows nw) \<and> \<not> tf_closed (flow i nw) \<and> p \<in> set (waiters (flow i nw)) \<Longrightarrow>
   is_settled (abort_flows js e nw) p"
proof (induction js arbitrary: nw)
  case (Cons j js)
  have "keeps nw (abort_tcp_flow j (Some e) nw)" by (intro kept keeps_refl)
  then have "length (nw_flows (abort_tcp_flow j (Some e) nw)) = length (nw_flows nw)" by (rule keeps_length)
  note len = this
  show ?case
  proof (cases "is_settled nw p \<or> j = i")
    case True
    then have "is_settled (abort_tcp_flow j (Some e) nw) p" using Cons.prems by (intro abort_settled) auto
    then show ?thesis using Cons.IH by simp
  next
    case False
    with Cons.prems have "i \<in> set js \<and> i < length (nw_flows nw) \<and> \<not> tf_closed (flow i nw) \<and> p \<in> set (waiters (flow i nw))" by auto
    with False len show ?thesis using Cons.IH [of "abort_tcp_flow j (Some e) nw"] by (simp add: abort_other)
  qed
qed simp

lemma close_udps_settled: "is_settled (fst (close_udps b us nw)) = is_settled nw"
proof -
  have "nw_settled (fst (close_udps b us nw)) = nw_settled nw"
    by (cases b; induction us arbitrary: nw) (simp_all add: Let_def on_udp_def split: sum.split)
  then show ?thesis by (simp add: is_settled_def fun_eq_iff)
qed

section \<open>Ports that are tried\<close>

lemma port_attempts_result:
  assumes "r < 16384"
  shows "(\<exists>k < n. \<not> P (49152 + (r + k) mod 16384) \<and>
      snd (port_attempts n P (nw\<lparr>nw_next_port := 49152 + r\<rparr>)) = Inr (49152 + (r + k) mod 16384)) \<or>
    ((\<forall>k < n. P (49152 + (r + k) mod 16384)) \<and>
      snd (port_attempts n P (nw\<lparr>nw_next_port := 49152 + r\<rparr>)) = Inl (Error ''no network ports available''))"
  using assms
proof (induction n arbitrary: r)
  case (Suc n)
  have next_port: "(if 49152 + r = 65535 then 49152 else 49152 + r + 1) = 49152 + Suc r mod 16384" using Suc.prems by auto
  have shift: "(Suc r mod 16384 + k) mod 16384 = (r + Suc k) mod 16384" for k by (simp add: mod_simps)
  show ?case
  proof (cases "P (49152 + r)")
    case False
    with Suc.prems show ?thesis by (intro disjI1 exI [of _ 0]) (simp add: Let_def)
  next
    case True
    have step: "port_attempts (Suc n) P (nw\<lparr>nw_next_port := 49152 + r\<rparr>) =
        port_attempts n P (nw\<lparr>nw_next_port := 49152 + Suc r mod 16384\<rparr>)"
      using True next_port by (simp add: Let_def)
    have "Suc r mod 16384 < 16384" by simp
    from Suc.IH [OF this, unfolded shift] show ?thesis
    proof
      assume "\<exists>k < n. \<not> P (49152 + (r + Suc k) mod 16384) \<and> snd (port_attempts n P (nw\<lparr>nw_next_port := 49152 + Suc r mod 16384\<rparr>)) = Inr (49152 + (r + Suc k) mod 16384)"
      then show ?thesis unfolding step by blast
    next
      assume "(\<forall>k < n. P (49152 + (r + Suc k) mod 16384)) \<and>
        snd (port_attempts n P (nw\<lparr>nw_next_port := 49152 + Suc r mod 16384\<rparr>)) = Inl (Error ''no network ports available'')"
      with True Suc.prems show ?thesis unfolding step by (auto simp: less_Suc_eq_0_disj)
    qed
  qed
qed simp

section \<open>The stream of one sender\<close>

text \<open>A segment of a sender whose bytes from sequence number \<open>r\<close> on are \<open>S\<close>.\<close>

definition sent_from :: "bytes \<Rightarrow> 32 word \<Rightarrow> tcp_segment \<Rightarrow> bool" where
  "sent_from S r seg \<longleftrightarrow> (\<exists>k \<le> length S. ts_sequence seg = sequence_add r k \<and>
     ts_payload seg = take (length (ts_payload seg)) (drop k S) \<and>
     (has_tcp_flag TCP_FIN seg \<longrightarrow> k + length (ts_payload seg) = length S))"

fun job_from :: "bytes \<Rightarrow> 32 word \<Rightarrow> tail_job \<Rightarrow> bool" where
  "job_from S r (Process seg) = sent_from S r seg"
| "job_from S r Update_Window = True"

inductive tcp_run :: "bytes \<Rightarrow> 32 word \<Rightarrow> nat \<Rightarrow> network \<Rightarrow> network \<Rightarrow> bool" for S r i nw0 where
  origin: "tcp_run S r i nw0 nw0"
| run: "tcp_run S r i nw0 nw \<Longrightarrow> list_all (job_from S r) (tf_tail (flow i nw)) \<Longrightarrow> enabled e nw \<Longrightarrow>
    tcp_run S r i nw0 (perform e nw)"

definition received :: "bytes \<Rightarrow> 32 word \<Rightarrow> bytes \<Rightarrow> tcp_flow \<Rightarrow> bool" where
  "received S r c f \<longleftrightarrow> (\<exists>n \<le> length S. content f = c @ take n S \<and>
     tf_receive_sequence f = sequence_add r (if tf_remote_ended f then Suc n else n) \<and> (tf_remote_ended f \<longrightarrow> n = length S))"

lemma received_keeps: "keeps_flow f f' \<Longrightarrow> flow_ok f \<Longrightarrow> (live f \<Longrightarrow> received S r c f) \<Longrightarrow> live f' \<Longrightarrow> received S r c f'"
  by (auto simp: keeps_flow_def received_def)

lemma sequence_add_inj:
  assumes "sequence_add r m = sequence_add r n" "m < 2 ^ 32" "n < 2 ^ 32"
  shows "m = n"
proof -
  have "unat (of_nat m :: 32 word) = unat (of_nat n :: 32 word)" using assms(1) by (simp add: sequence_add_def)
  then show ?thesis using assms(2,3) by (simp add: unat_of_nat)
qed

lemma received_grows:
  assumes g: "grows (ts_payload seg) (length (ts_payload seg) + fin_length seg) (has_tcp_flag TCP_FIN seg) f f'"
    and ok: "flow_ok f" and before: "live f \<Longrightarrow> received S r c f" and live: "live f'" and connected: "tf_readable f \<noteq> None"
    and at: "ts_sequence seg = tf_receive_sequence f" and sent: "sent_from S r seg" and short: "length S < 2 ^ 32 - 1"
  shows "received S r c f'"
proof -
  let ?p = "ts_payload seg"
  have after: "live f" "tf_remote_ended f' = (tf_remote_ended f \<or> has_tcp_flag TCP_FIN seg)" "content f' = content f @ ?p"
    "tf_receive_sequence f' = sequence_add (tf_receive_sequence f) (length ?p + fin_length seg)"
    using g ok live connected by (simp_all add: grows_def)
  from before [OF after(1)] obtain n where n: "n \<le> length S" "content f = c @ take n S"
    "tf_receive_sequence f = sequence_add r (if tf_remote_ended f then Suc n else n)" "tf_remote_ended f \<longrightarrow> n = length S"
    by (auto simp: received_def)
  from sent obtain k where k: "k \<le> length S" "ts_sequence seg = sequence_add r k" "?p = take (length ?p) (drop k S)"
    "has_tcp_flag TCP_FIN seg \<longrightarrow> k + length ?p = length S" by (auto simp: sent_from_def)
  have "k = (if tf_remote_ended f then Suc n else n)"
    using at k(1,2) n(1,3) short by (intro sequence_add_inj [of r]) auto
  with k(1) n(4) have kn: "k = n" "\<not> tf_remote_ended f" by (auto split: if_splits)
  have fits: "length ?p \<le> length S - n" using k(3) kn by (metis length_drop length_take min.cobounded1 min.commute)
  have "content f' = c @ take (n + length ?p) S"
    using after(3) n(2) k(3) kn(1) by (simp add: take_add)
  moreover have "tf_receive_sequence f' = sequence_add r (n + length ?p + fin_length seg)"
    using after(4) n(3) kn(2) by (simp add: sequence_add_def)
  ultimately show ?thesis
    unfolding received_def using fits n(1) k(4) kn after(2)
    by (intro exI [of _ "n + length ?p"]) (auto simp: fin_length_def)
qed

lemma received_step:
  assumes ok: "net_ok nw" and e: "enabled e nw" and j: "j < length (nw_flows nw)" and connected: "tf_readable (flow j nw) \<noteq> None"
    and sent: "list_all (job_from S r) (tf_tail (flow j nw))" and short: "length S < 2 ^ 32 - 1"
    and before: "live (flow j nw) \<Longrightarrow> received S r c (flow j nw)"
  shows "j < length (nw_flows (perform e nw)) \<and> tf_readable (flow j (perform e nw)) \<noteq> None \<and>
    (live (flow j (perform e nw)) \<longrightarrow> received S r c (flow j (perform e nw)))"
proof -
  have fok: "flow_ok (flow j nw)" using ok j by (simp add: net_ok_def)
  have quiet: ?thesis if "steady nw (perform e nw)"
  proof -
    have k: "keeps_flow (flow j nw) (flow j (perform e nw))" using that j connected by (simp add: steady_def)
    then have "tf_readable (flow j (perform e nw)) \<noteq> None" using connected by (simp add: keeps_flow_def)
    moreover have "j < length (nw_flows (perform e nw))" using that j by (simp add: steady_def)
    ultimately show ?thesis using received_keeps [OF k fok before] by blast
  qed
  show ?thesis
  proof (cases "\<exists>i. e = E_Tail i")
    case False
    with ok e perform_ok_step [of e nw] quiet show ?thesis by (auto simp: ok_step_def)
  next
    case True
    then obtain i where i: "e = E_Tail i" by blast
    have len: "i < length (nw_flows nw)" using e i by simp
    from len ok show ?thesis
    proof (cases rule: run_tail_cases)
      case steady
      then show ?thesis using quiet i by simp
    next
      case (took seg jobs)
      note a = took(6)
      have j': "j < length (nw_flows (perform e nw))" using a j i by (simp add: advances_def)
      show ?thesis
      proof (cases "j = i")
        case True
        note g = advancesD(1) [OF a j True]
        have "sent_from S r seg" using sent took(1) True by simp
        then have "live (flow j (run_tail i nw)) \<longrightarrow> received S r c (flow j (run_tail i nw))"
          using received_grows [OF g fok before _ connected _ _ short] took(4) True by simp
        moreover have "tf_readable (flow j (run_tail i nw)) \<noteq> None" using g connected by (simp add: grows_def)
        ultimately show ?thesis using j' i by simp
      next
        case False
        note k = advancesD(2) [OF a j False]
        have "tf_readable (flow j (run_tail i nw)) \<noteq> None" using k connected by (simp add: keeps_flow_def)
        with received_keeps [OF k fok before] j' i show ?thesis by simp
      qed
    qed
  qed
qed

lemma received_run:
  assumes run: "tcp_run S r i nw0 nw" and ok: "net_ok nw0" and i: "i < length (nw_flows nw0)" "tf_readable (flow i nw0) \<noteq> None"
    and start: "received S r c (flow i nw0)" and short: "length S < 2 ^ 32 - 1"
  shows "net_ok nw \<and> i < length (nw_flows nw) \<and> tf_readable (flow i nw) \<noteq> None \<and> (live (flow i nw) \<longrightarrow> received S r c (flow i nw))"
  using run
proof induction
  case origin
  with ok i start show ?case by simp
next
  case (run nw e)
  with received_step [of nw e i S r c] short net_ok_perform show ?case by blast
qed

section \<open>One segment accepted\<close>

lemma acknowledged_same:
  assumes "i < length (nw_flows nw)"
  shows "\<exists>ws vs w. flow i (acknowledged i seg nw) = (flow i nw)\<lparr>tf_ack_waiters := ws, tf_window_waiters := vs, tf_peer_window := w\<rparr>"
proof (cases "has_tcp_flag TCP_ACK seg")
  case True
  let ?f = "flow i nw"
  have "flow i (acknowledged i seg nw) = ?f\<lparr>tf_ack_waiters := filter (\<lambda>w. snd w \<noteq> ts_acknowledgement seg) (tf_ack_waiters ?f),
      tf_window_waiters := (if ts_window seg = 0 then tf_window_waiters ?f else []), tf_peer_window := ts_window seg\<rparr>"
    using assms True by (simp add: acknowledged_def acknowledge_waiters_def update_peer_window_def Let_def on_flow_flows)
  then show ?thesis by blast
next
  case False
  then have "flow i (acknowledged i seg nw) = (flow i nw)\<lparr>tf_ack_waiters := tf_ack_waiters (flow i nw),
      tf_window_waiters := tf_window_waiters (flow i nw), tf_peer_window := tf_peer_window (flow i nw)\<rparr>"
    by (simp add: acknowledged_def)
  then show ?thesis by blast
qed

lemma tcp_receive_window_cong:
  assumes "tf_readable f = tf_readable g" "tf_activation f = tf_activation g" "tf_receive_demand f = tf_receive_demand g"
  shows "tcp_receive_window f = tcp_receive_window g"
  unfolding tcp_receive_window_def assms by simp

lemma await_flows:
  "tf_abort (flow i nw) = None \<or> tf_activation (flow i nw) \<noteq> None \<Longrightarrow> nw_flows (await_activation i k nw) = nw_flows nw"
  by (auto simp: await_activation_def activate_def spawn_task_def)

lemma accepted_flow:
  assumes i: "i < length (nw_flows nw)" and f: "\<not> tf_closed (flow i nw)" "tf_established (flow i nw)" "\<not> tf_busy (flow i nw)"
    and tail: "tf_tail (flow i nw) = Process seg # jobs"
    and seg: "\<not> has_tcp_flag TCP_RST seg" "\<not> has_tcp_flag TCP_FIN seg" "ts_sequence seg = tf_receive_sequence (flow i nw)"
      "ts_payload seg \<noteq> []" "length (ts_payload seg) \<le> tcp_receive_window (flow i nw)"
    and s: "tf_readable (flow i nw) = Some s" and r: "stream_enqueue (ts_payload seg) s = Inr (s', pull)"
    and active: "tf_abort (flow i nw) = None \<or> tf_activation (flow i nw) \<noteq> None"
  shows "\<exists>f'. flow i (run_tail i nw) = f' \<and> \<not> tf_closed f' \<and> tf_readable f' = Some s' \<and> \<not> tf_receive_demand f' \<and>
    tf_remote_ended f' = tf_remote_ended (flow i nw) \<and> tf_activation f' = tf_activation (flow i nw) \<and>
    tf_advertised_window f' = tcp_receive_window f' \<and>
    tf_receive_sequence f' = sequence_add (tf_receive_sequence (flow i nw)) (length (ts_payload seg))"
proof -
  define nw1 where "nw1 = on_flow i (\<lambda>f. f\<lparr>tf_tail := jobs\<rparr>) nw"
  have i1: "i < length (nw_flows nw1)" and at1: "flow i nw1 = (flow i nw)\<lparr>tf_tail := jobs\<rparr>" using i by (simp_all add: nw1_def on_flow_flows)
  obtain ws vs w where at2: "flow i (acknowledged i seg nw1) = (flow i nw)\<lparr>tf_tail := jobs, tf_ack_waiters := ws, tf_window_waiters := vs, tf_peer_window := w\<rparr>"
    using acknowledged_same [OF i1, of seg] at1 by auto
  define nw2 where "nw2 = acknowledged i seg nw1"
  have "keeps nw1 nw2" unfolding nw2_def by (intro kept keeps_refl)
  then have i2: "i < length (nw_flows nw2)" using i1 by (simp add: keeps_length)
  note at2 = at2 [folded nw2_def]
  have window: "tcp_receive_window (flow i nw2) = tcp_receive_window (flow i nw)"
    by (rule tcp_receive_window_cong) (simp_all add: at2)
  have "run_tail i nw = process_tcp i seg nw1" using f(3) tail by (simp add: run_tail_def Let_def nw1_def)
  also have "\<dots> = accept_segment i seg nw2"
    using f seg window unfolding process_tcp_def acknowledged_def [symmetric] nw2_def [symmetric] Let_def by (simp add: at1 at2)
  finally have run: "run_tail i nw = accept_segment i seg nw2" .
  define nw3 where "nw3 = on_readable i (\<lambda>_. (s', pull)) nw2"
  have i3: "i < length (nw_flows nw3)" and at3: "\<exists>d. flow i nw3 = (flow i nw2)\<lparr>tf_readable := Some s', tf_receive_demand := d\<rparr>"
  proof -
    let ?nw = "on_flow i (\<lambda>f. f\<lparr>tf_readable := Some s', tf_receive_demand := True\<rparr>) nw2"
    have "nw_flows (await_activation i (K_Pull i) ?nw) = nw_flows ?nw"
      using active i2 at2 by (intro await_flows) (auto simp: on_flow_flows)
    then have "nw_flows nw3 = nw_flows (if pull then ?nw else on_flow i (\<lambda>f. f\<lparr>tf_readable := Some s'\<rparr>) nw2)"
      using at2 s by (simp add: nw3_def on_readable_def stream_pull_def on_flow_twice comp_def)
    with i2 show "i < length (nw_flows nw3)" "\<exists>d. flow i nw3 = (flow i nw2)\<lparr>tf_readable := Some s', tf_receive_demand := d\<rparr>"
      by (auto simp: on_flow_flows intro: exI [of _ True] exI [of _ "tf_receive_demand (flow i nw2)"])
  qed
  define nw4 where "nw4 = on_flow i (\<lambda>f. f\<lparr>tf_receive_demand := False,
      tf_receive_sequence := sequence_add (tf_receive_sequence f) (length (ts_payload seg))\<rparr>) nw3"
  have "take_payload i (ts_payload seg) nw2 = Inr nw4"
    using seg(4) s at2 r by (simp add: take_payload_def Let_def nw4_def nw3_def)
  then have "accept_segment i seg nw2 = reply i (K_Accepted i) nw4" using seg(2) by (simp add: accept_segment_def)
  moreover have "i < length (nw_flows nw4)" using i3 by (simp add: nw4_def on_flow_flows)
  ultimately have "flow i (run_tail i nw) = (flow i nw4)\<lparr>tf_busy := True, tf_advertised_window := tcp_receive_window (flow i nw4)\<rparr>"
    by (simp add: run reply_def send_tcp_flow on_flow_flows cong: tcp_receive_window_cong)
  moreover have "tcp_receive_window (g\<lparr>tf_busy := True, tf_advertised_window := w'\<rparr>) = tcp_receive_window g" for g w'
    by (rule tcp_receive_window_cong) simp_all
  ultimately show ?thesis using at3 i3 at2 f by (auto simp: nw4_def on_flow_flows)
qed

section \<open>Properties\<close>

definition demo_flow :: "rstream \<Rightarrow> tail_job list \<Rightarrow> tcp_flow" where
  "demo_flow s jobs = (new_flow ''k'' \<lparr>g_ip = 2, g_mac = [2, 0, 0, 0, 0, 2]\<rparr> 80 1 90 5 9 100 None)
     \<lparr>tf_established := True, tf_readable := Some s, tf_tail := jobs\<rparr>"

definition demo_network :: "tcp_flow \<Rightarrow> network" where
  "demo_network f = add_flow f createNetwork"

definition demo_segment :: "32 word \<Rightarrow> bytes \<Rightarrow> tcp_segment" where
  "demo_segment seq payload = \<lparr>ts_source_port = 80, ts_destination_port = 90, ts_sequence = seq, ts_acknowledgement = 5,
     ts_flags = 16, ts_window = 100, ts_payload = payload\<rparr>"

text \<open>
  C28: What a connected TCP flow hands to its reader is the guest's byte stream in order, with nothing lost,
  repeated or reordered: in every run from a state with the invariant in which the segments chained to the flow are
  segments of a sender of \<open>S\<close>, in any order and with any repetitions, and whatever else happens in between,
  a flow that is not closed or errored has received a prefix of \<open>S\<close>, acknowledges exactly that prefix, and
  takes the end of the stream only after all of \<open>S\<close>.  At no time are more bytes buffered than the window.
\<close>

theorem tcp_stream_in_order:
  assumes "net_ok nw0" and "i < length (nw_flows nw0)"
    and "tf_readable (flow i nw0) \<noteq> None" "\<not> tf_remote_ended (flow i nw0)" "length S < 2 ^ 32 - 1"
    and "tcp_run S (tf_receive_sequence (flow i nw0)) i nw0 nw"
  shows "(live (flow i nw) \<longrightarrow> (\<exists>n \<le> length S. content (flow i nw) = content (flow i nw0) @ take n S \<and>
       tf_receive_sequence (flow i nw) =
         sequence_add (tf_receive_sequence (flow i nw0)) (if tf_remote_ended (flow i nw) then Suc n else n) \<and>
       (tf_remote_ended (flow i nw) \<longrightarrow> n = length S))) \<and>
    (case tf_readable (flow i nw) of None \<Rightarrow> False | Some s \<Rightarrow> queue_size s \<le> TCP_RECEIVE_WINDOW)"
proof -
  have "received S (tf_receive_sequence (flow i nw0)) (content (flow i nw0)) (flow i nw0)"
    using assms(4) by (auto simp: received_def sequence_add_def)
  from received_run [OF assms(6,1,2,3) this assms(5)] show ?thesis
    by (auto simp: received_def net_ok_def flow_ok_def split: option.splits)
qed

lemma demo_first: "flow 0 (demo_network f) = f" "length (nw_flows (demo_network f)) = 1"
  by (simp_all add: demo_network_def add_flow_def createNetwork_def)

lemma demo_network_ok: "flow_ok f \<Longrightarrow> tf_handshake f = None \<Longrightarrow> net_ok (demo_network f)"
  unfolding demo_network_def by (rule net_ok_add [OF net_ok_start]) (simp_all add: createNetwork_def)

lemma demo_flow_fields:
  "flow_ok (demo_flow (new_stream 65535 True) jobs)" "tf_handshake (demo_flow s jobs) = None"
  "\<not> tf_closed (demo_flow s jobs)" "tf_established (demo_flow s jobs)" "\<not> tf_busy (demo_flow s jobs)"
  "tf_tail (demo_flow s jobs) = jobs" "tf_receive_sequence (demo_flow s jobs) = 9" "tf_readable (demo_flow s jobs) = Some s"
  "tf_abort (demo_flow s jobs) = None" "tf_activation (demo_flow s jobs) = None" "\<not> tf_remote_ended (demo_flow s jobs)"
  by (simp_all add: flow_ok_def demo_flow_def new_flow_def new_stream_def stream_ok_def queue_size_def TCP_RECEIVE_WINDOW_def)

lemma demo_segment_fields [simp]: "\<not> has_tcp_flag TCP_RST (demo_segment q p)" "\<not> has_tcp_flag TCP_FIN (demo_segment q p)"
  "ts_sequence (demo_segment q p) = q" "ts_payload (demo_segment q p) = p"
  by (simp_all add: has_tcp_flag_def demo_segment_def TCP_RST_def TCP_FIN_def)

theorem tcp_stream_in_order_witness:
  "\<exists>nw. tcp_run [1, 2, 3] 9 0 (demo_network (demo_flow (new_stream 65535 True) [Process (demo_segment 9 [1, 2])])) nw \<and>
     (\<exists>n \<le> 3. content (flow 0 nw) = take n [1, 2, 3]) \<and> content (flow 0 nw) = [1, 2]"
proof -
  let ?s = "new_stream 65535 True" and ?nw0 = "demo_network (demo_flow (new_stream 65535 True) [Process (demo_segment 9 [1, 2])])"
  define nw where "nw = perform (E_Tail 0) ?nw0"
  have "sent_from [1, 2, 3] 9 (demo_segment 9 [1, 2])" unfolding sent_from_def by (intro exI [of _ 0]) (simp add: sequence_add_def)
  then have run: "tcp_run [1, 2, 3] 9 0 ?nw0 nw"
    unfolding nw_def by (intro tcp_run.intros) (simp_all add: demo_first demo_flow_fields)
  have put: "stream_enqueue [1, 2] ?s = Inr (?s\<lparr>rs_queue := [[1, 2]]\<rparr>, False)"
    by (simp add: stream_enqueue_def new_stream_def can_enqueue_def put_chunk_def pull_if_needed_def should_pull_def)
  have "tcp_receive_window (demo_flow ?s jobs) = 65535" for jobs
    by (simp add: tcp_receive_window_def demo_flow_fields desired_size_def new_stream_def queue_size_def TCP_RECEIVE_WINDOW_def)
  then have "\<not> tf_closed (flow 0 nw) \<and> tf_readable (flow 0 nw) = Some (?s\<lparr>rs_queue := [[1, 2]]\<rparr>)"
    using accepted_flow [where i = 0 and nw = ?nw0 and seg = "demo_segment 9 [1, 2]" and jobs = "[]" and s = ?s
        and s' = "?s\<lparr>rs_queue := [[1, 2]]\<rparr>" and pull = False] put
    by (simp add: nw_def demo_first demo_flow_fields)
  then have live: "live (flow 0 nw)" "content (flow 0 nw) = [1, 2]" by (simp_all add: live_def content_def new_stream_def stream_content_def)
  have "content (flow 0 ?nw0) = []" by (simp add: demo_first content_def demo_flow_fields new_stream_def stream_content_def)
  moreover have "net_ok ?nw0" by (intro demo_network_ok) (simp_all add: demo_flow_fields)
  ultimately have "\<exists>n \<le> 3. content (flow 0 nw) = take n [1, 2, 3]"
    using tcp_stream_in_order [of ?nw0 0 "[1, 2, 3]" nw] run live(1)
    by (auto simp: demo_first demo_flow_fields numeral_3_eq_3)
  with run live show ?thesis by blast
qed

text \<open>
  Of the 16384 ports from 49152 on, \<open>allocate_port\<close> tries all but the one just before the next: it
  returns a port in the range that is not in use, and otherwise fails although that last port may be free.
\<close>

theorem network_ports_tried:
  assumes "r < 16384" and "nw_next_port nw = 49152 + r"
  shows "((\<exists>p. snd (network_allocate_port in_use nw) = Inr p \<and> 49152 \<le> p \<and> p \<le> 65535 \<and> \<not> in_use p) \<or>
      snd (network_allocate_port in_use nw) = Inl (Error ''no network ports available'')) \<and>
    (snd (network_allocate_port in_use nw) = Inl (Error ''no network ports available'') \<longleftrightarrow>
      (\<forall>k < 16383. in_use (49152 + (r + k) mod 16384)))"
proof -
  have "nw = nw\<lparr>nw_next_port := 49152 + r\<rparr>" using assms(2) by simp
  with port_attempts_result [OF assms(1), of 16383 in_use nw]
  have "(\<exists>k < 16383. \<not> in_use (49152 + (r + k) mod 16384) \<and>
      snd (network_allocate_port in_use nw) = Inr (49152 + (r + k) mod 16384)) \<or>
    ((\<forall>k < 16383. in_use (49152 + (r + k) mod 16384)) \<and>
      snd (network_allocate_port in_use nw) = Inl (Error ''no network ports available''))"
    by (simp add: network_allocate_port_def)
  moreover have "49152 + (r + k) mod 16384 \<le> 65535" for k using mod_less_divisor [of 16384 "r + k"] by linarith
  ultimately show ?thesis by auto
qed

theorem network_ports_tried_witness:
  "snd (network_allocate_port (\<lambda>p. p \<noteq> 65535) createNetwork) = Inl (Error ''no network ports available'')"
proof -
  have "(0 + k) mod 16384 \<noteq> 16383" if "k < 16383" for k :: nat using that by simp
  with network_ports_tried [of 0 createNetwork "\<lambda>p. p \<noteq> 65535"] show ?thesis by (simp add: createNetwork_def)
qed

text \<open>
  A data segment for a session a guest opened, taken while two or more reads are waiting, leaves a read
  waiting with a receive window of zero: the controller calls \<open>pull\<close> again from inside \<open>enqueue\<close>, and the
  demand it announces is cleared right after.  The guest is told to stop although the reader wants more.
\<close>

theorem demand_of_waiting_read_lost:
  assumes "i < length (nw_flows nw)" "\<not> tf_closed (flow i nw)" "tf_established (flow i nw)" "\<not> tf_busy (flow i nw)"
    and "tf_tail (flow i nw) = Process seg # jobs" "\<not> has_tcp_flag TCP_RST seg" "\<not> has_tcp_flag TCP_FIN seg"
    and "ts_sequence seg = tf_receive_sequence (flow i nw)" "ts_payload seg \<noteq> []" "length (ts_payload seg) \<le> TCP_RECEIVE_WINDOW"
    and "tf_readable (flow i nw) = Some s" "tf_activation (flow i nw) \<noteq> None" "tf_receive_demand (flow i nw)"
    and "rs_state s = Readable" "\<not> rs_close_requested s" "2 \<le> rs_reads s"
  shows "\<exists>s'. tf_readable (flow i (perform (E_Tail i) nw)) = Some s' \<and> 1 \<le> rs_reads s' \<and> can_enqueue s' \<and>
    rs_out s' = rs_out s @ [ts_payload seg] \<and>
    tcp_receive_window (flow i (perform (E_Tail i) nw)) = 0 \<and> tf_advertised_window (flow i (perform (E_Tail i) nw)) = 0"
proof -
  obtain s' pull where put: "pull_if_needed (put_chunk (ts_payload seg) s) = (s', pull)" by fastforce
  have r: "stream_enqueue (ts_payload seg) s = Inr (s', pull)" using assms put by (simp add: stream_enqueue_def can_enqueue_def)
  have s': "rs_reads s' = rs_reads s - 1" "can_enqueue s'" "rs_out s' = rs_out s @ [ts_payload seg]"
  proof -
    have "s' = fst (pull_if_needed (put_chunk (ts_payload seg) s))" using put by simp
    then show "rs_reads s' = rs_reads s - 1" "can_enqueue s'" "rs_out s' = rs_out s @ [ts_payload seg]"
      using assms(14-16) by (simp_all add: put_chunk_def can_enqueue_def)
  qed
  have window: "tcp_receive_window (flow i nw) = TCP_RECEIVE_WINDOW" using assms by (simp add: tcp_receive_window_def)
  have "tcp_receive_window f = 0" if "tf_readable f = Some s'" "tf_activation f \<noteq> None" "\<not> tf_receive_demand f" for f
    using that by (simp add: tcp_receive_window_def)
  with accepted_flow [where i = i and nw = nw and seg = seg and jobs = jobs and s = s and s' = s' and pull = pull] assms r s' window
  show ?thesis by auto
qed

theorem demand_of_waiting_read_lost_witness:
  "\<exists>nw s'. tf_readable (flow 0 (perform (E_Tail 0) nw)) = Some s' \<and> 1 \<le> rs_reads s' \<and>
     tcp_receive_window (flow 0 (perform (E_Tail 0) nw)) = 0"
proof -
  let ?s = "(new_stream 0 True)\<lparr>rs_started := True, rs_reads := 2\<rparr>"
  let ?nw = "demo_network ((demo_flow ?s [Process (demo_segment 9 [1, 2])])\<lparr>tf_activation := Some 0, tf_receive_demand := True, tf_abort := Some False\<rparr>)"
  have "\<exists>s'. tf_readable (flow 0 (perform (E_Tail 0) ?nw)) = Some s' \<and> 1 \<le> rs_reads s' \<and> can_enqueue s' \<and>
      rs_out s' = rs_out ?s @ [ts_payload (demo_segment 9 [1, 2])] \<and>
      tcp_receive_window (flow 0 (perform (E_Tail 0) ?nw)) = 0 \<and> tf_advertised_window (flow 0 (perform (E_Tail 0) ?nw)) = 0"
    by (rule demand_of_waiting_read_lost [where jobs = "[]"])
      (simp_all add: demo_first demo_flow_fields new_stream_def TCP_RECEIVE_WINDOW_def)
  then show ?thesis by blast
qed



end
