(* ===== verification/Wasm_Binary.thy ===== *)
theory Wasm_Binary
  imports Byte_Buffer
begin

text \<open>
  The reader of WebAssembly binaries in \<open>packages/kernel/src/wasm_binary.ts\<close>: the cursor with its LEB128
  numbers and length-prefixed spans, the memory imports and definitions of a module, and the signatures of
  its function imports.  A \<open>Cursor\<close> is its offset, which errors report, and the bytes from there to its end.
\<close>

unbundle bit_operations_syntax

section \<open>The cursor\<close>

record cursor =
  cu_offset :: nat
  cu_view :: bytes

definition cursor_done :: "cursor \<Rightarrow> bool" where
  "cursor_done c \<longleftrightarrow> cu_view c = []"

definition cursor_fail :: "string \<Rightarrow> cursor \<Rightarrow> 'a result" where
  "cursor_fail message c = Inl (WasmParseError message (cu_offset c))"

definition cursor_byte :: "cursor \<Rightarrow> (byte \<times> cursor) result" where
  "cursor_byte c = (case cu_view c of
       [] \<Rightarrow> cursor_fail ''unexpected end of module'' c
     | b # bs \<Rightarrow> Inr (b, \<lparr>cu_offset = Suc (cu_offset c), cu_view = bs\<rparr>))"

text \<open>The loop of \<open>#unsigned\<close>, with the number of bytes that may still follow.\<close>

fun unsigned_loop :: "nat \<Rightarrow> nat \<Rightarrow> nat \<Rightarrow> nat \<Rightarrow> cursor \<Rightarrow> (nat \<times> cursor) result" where
  "unsigned_loop bits 0 i value c = cursor_fail (''u'' @ decimal bits @ '' LEB128 is too long'') c"
| "unsigned_loop bits (Suc n) i value c =
     bindE (cursor_byte c) (\<lambda>(b, c1).
       let payload = unat (b AND 127); remaining = bits - i * 7; value1 = value OR push_bit (i * 7) payload
       in if remaining < 7 \<and> 2 ^ remaining \<le> payload then cursor_fail (''u'' @ decimal bits @ '' LEB128 overflows'') c1
          else if b AND 128 = 0 then Inr (value1, c1)
          else unsigned_loop bits n (Suc i) value1 c1)"

definition cursor_unsigned :: "nat \<Rightarrow> cursor \<Rightarrow> (nat \<times> cursor) result" where
  "cursor_unsigned bits c = unsigned_loop bits ((bits + 6) div 7) 0 0 c"

definition cursor_u32 :: "cursor \<Rightarrow> (nat \<times> cursor) result" where
  "cursor_u32 = cursor_unsigned 32"

definition cursor_u64 :: "cursor \<Rightarrow> (nat \<times> cursor) result" where
  "cursor_u64 = cursor_unsigned 64"

text \<open>\<open>signed33\<close>, from the byte \<open>b\<close> that is the \<open>i\<close>-th of the number.\<close>

fun signed33_loop :: "nat \<Rightarrow> nat \<Rightarrow> byte \<Rightarrow> cursor \<Rightarrow> cursor result" where
  "signed33_loop 0 i b c = Inr c"
| "signed33_loop (Suc n) i b c =
     (let payload = b AND 127; remaining = 33 - i * 7
      in if b AND 128 = 0 then
           if remaining < 7 then
             let used = 2 ^ remaining - 1; unused = 127 XOR used; sign = 2 ^ (remaining - 1);
                 extension = (if payload AND sign \<noteq> 0 then unused else 0)
             in if payload AND unused \<noteq> extension then cursor_fail ''s33 LEB128 overflows'' c else Inr c
           else Inr c
         else if i = 4 then cursor_fail ''s33 LEB128 is too long'' c
         else bindE (cursor_byte c) (\<lambda>(b1, c1). signed33_loop n (Suc i) b1 c1))"

definition signed33 :: "byte \<Rightarrow> cursor \<Rightarrow> cursor result" where
  "signed33 first c = signed33_loop 5 0 first c"

definition cursor_span :: "cursor \<Rightarrow> (cursor \<times> cursor) result" where
  "cursor_span c = bindE (cursor_u32 c) (\<lambda>(n, c1).
     if n > length (cu_view c1) then cursor_fail ''span extends past its section'' c1
     else Inr (\<lparr>cu_offset = cu_offset c1, cu_view = take n (cu_view c1)\<rparr>,
               \<lparr>cu_offset = cu_offset c1 + n, cu_view = drop n (cu_view c1)\<rparr>))"

definition cursor_text :: "cursor \<Rightarrow> ustring result" where
  "cursor_text c = (case utf8_decode_fatal (cu_view c) of
       Some s \<Rightarrow> Inr s
     | None \<Rightarrow> cursor_fail ''name is not valid UTF-8'' c)"

definition text_span :: "cursor \<Rightarrow> (ustring \<times> cursor) result" where
  "text_span c = bindE (cursor_span c) (\<lambda>(s, c1). bindE (cursor_text s) (\<lambda>t. Inr (t, c1)))"

definition expect_done :: "string \<Rightarrow> cursor \<Rightarrow> unit result" where
  "expect_done what c = (if cursor_done c then Inr () else cursor_fail (''trailing bytes in '' @ what) c)"

section \<open>Memory types and imports\<close>

datatype address_type = I32 | I64

record memory_type =
  mt_address :: address_type
  mt_minimum :: nat
  mt_maximum :: "nat option"
  mt_shared :: bool

record memory_import =
  mi_module :: ustring
  mi_name :: ustring
  mi_type :: memory_type

record wasm_memories =
  wm_imports :: "memory_import list"
  wm_definitions :: "memory_type list"

definition read_memory_type :: "cursor \<Rightarrow> (memory_type \<times> cursor) result" where
  "read_memory_type c = bindE (cursor_byte c) (\<lambda>(flags, c1).
     if flags AND NOT 7 \<noteq> 0 then cursor_fail ''unknown memory limits flags'' c1
     else
       let has_maximum = (flags AND 1 \<noteq> 0); shared = (flags AND 2 \<noteq> 0); address = (if flags AND 4 \<noteq> 0 then I64 else I32);
           read_limit = (if address = I64 then cursor_u64 else cursor_u32)
       in bindE (read_limit c1) (\<lambda>(minimum, c2).
          if has_maximum then
            bindE (read_limit c2) (\<lambda>(maximum, c3).
              Inr (\<lparr>mt_address = address, mt_minimum = minimum, mt_maximum = Some maximum, mt_shared = shared\<rparr>, c3))
          else Inr (\<lparr>mt_address = address, mt_minimum = minimum, mt_maximum = None, mt_shared = shared\<rparr>, c2)))"

definition heap_type :: "byte \<Rightarrow> string \<Rightarrow> cursor \<Rightarrow> cursor result" where
  "heap_type type message c =
     (if type = 99 \<or> type = 100 then bindE (cursor_byte c) (\<lambda>(b, c1). signed33 b c1)
      else if type < 105 \<or> type > 116 then cursor_fail message c
      else Inr c)"

definition skip_reference_type :: "cursor \<Rightarrow> cursor result" where
  "skip_reference_type c = bindE (cursor_byte c) (\<lambda>(type, c1). heap_type type ''invalid reference type'' c1)"

definition skip_value_type :: "cursor \<Rightarrow> cursor result" where
  "skip_value_type c = bindE (cursor_byte c) (\<lambda>(type, c1).
     if 123 \<le> type \<and> type \<le> 127 then Inr c1 else heap_type type ''invalid value type'' c1)"

definition skip_limits :: "cursor \<Rightarrow> cursor result" where
  "skip_limits c = bindE (cursor_byte c) (\<lambda>(flags, c1).
     if flags AND NOT 5 \<noteq> 0 then cursor_fail ''unknown limits flags'' c1
     else
       let read_limit = (if flags AND 4 \<noteq> 0 then cursor_u64 else cursor_u32)
       in bindE (read_limit c1) (\<lambda>(_, c2).
          if flags AND 1 \<noteq> 0 then bindE (read_limit c2) (\<lambda>(_, c3). Inr c3) else Inr c2))"

text \<open>What both readers of an import section skip: tables, globals and tags.\<close>

definition skip_other_import :: "byte \<Rightarrow> cursor \<Rightarrow> cursor result" where
  "skip_other_import kind c =
     (if kind = 1 then bindE (skip_reference_type c) skip_limits
      else if kind = 3 then
        bindE (skip_value_type c) (\<lambda>c1. bindE (cursor_byte c1) (\<lambda>(b, c2).
          if b > 1 then cursor_fail ''invalid global mutability'' c2 else Inr c2))
      else if kind = 4 then
        bindE (cursor_byte c) (\<lambda>(b, c1).
          if b \<noteq> 0 then cursor_fail ''unknown tag attribute'' c1 else bindE (cursor_u32 c1) (\<lambda>(_, c2). Inr c2))
      else cursor_fail ''unknown import type'' c)"

definition read_import :: "cursor \<Rightarrow> (memory_import list \<times> cursor) result" where
  "read_import c =
     bindE (cursor_span c) (\<lambda>(module, c1). bindE (cursor_span c1) (\<lambda>(name, c2). bindE (cursor_byte c2) (\<lambda>(kind, c3).
       if kind = 0 then bindE (cursor_u32 c3) (\<lambda>(_, c4). Inr ([], c4))
       else if kind = 2 then
         bindE (cursor_text module) (\<lambda>m. bindE (cursor_text name) (\<lambda>n. bindE (read_memory_type c3) (\<lambda>(t, c4).
           Inr ([\<lparr>mi_module = m, mi_name = n, mi_type = t\<rparr>], c4))))
       else bindE (skip_other_import kind c3) (\<lambda>c4. Inr ([], c4)))))"

fun import_entries :: "nat \<Rightarrow> cursor \<Rightarrow> (memory_import list \<times> cursor) result" where
  "import_entries 0 c = Inr ([], c)"
| "import_entries (Suc n) c =
     bindE (read_import c) (\<lambda>(xs, c1). bindE (import_entries n c1) (\<lambda>(ys, c2). Inr (xs @ ys, c2)))"

definition read_imports :: "cursor \<Rightarrow> memory_import list result" where
  "read_imports c = bindE (cursor_u32 c) (\<lambda>(count, c1). bindE (import_entries count c1) (\<lambda>(xs, c2).
     bindE (expect_done ''import section'' c2) (\<lambda>_. Inr xs)))"

fun definition_entries :: "nat \<Rightarrow> cursor \<Rightarrow> (memory_type list \<times> cursor) result" where
  "definition_entries 0 c = Inr ([], c)"
| "definition_entries (Suc n) c =
     bindE (read_memory_type c) (\<lambda>(t, c1). bindE (definition_entries n c1) (\<lambda>(ts, c2). Inr (t # ts, c2)))"

definition read_definitions :: "cursor \<Rightarrow> memory_type list result" where
  "read_definitions c = bindE (cursor_u32 c) (\<lambda>(count, c1). bindE (definition_entries count c1) (\<lambda>(ts, c2).
     bindE (expect_done ''memory section'' c2) (\<lambda>_. Inr ts)))"

definition wasm_header :: bytes where
  "wasm_header = [0, 97, 115, 109, 1, 0, 0, 0]"

fun header_bytes :: "bytes \<Rightarrow> cursor \<Rightarrow> cursor result" where
  "header_bytes [] c = Inr c"
| "header_bytes (e # es) c = bindE (cursor_byte c) (\<lambda>(b, c1).
     if b \<noteq> e then cursor_fail ''invalid WebAssembly header'' c1 else header_bytes es c1)"

definition read_wasm_header :: "bytes \<Rightarrow> cursor result" where
  "read_wasm_header module = header_bytes wasm_header \<lparr>cu_offset = 0, cu_view = module\<rparr>"

lemma cursor_byte_shorter: "cursor_byte c = Inr (b, c') \<Longrightarrow> length (cu_view c') < length (cu_view c)"
  by (auto simp: cursor_byte_def cursor_fail_def split: list.splits)

lemma unsigned_loop_shorter: "unsigned_loop bits n i v c = Inr (x, c') \<Longrightarrow> length (cu_view c') < length (cu_view c)"
  by (induction bits n i v c rule: unsigned_loop.induct)
    (fastforce simp: cursor_fail_def bindE_eq_Inr Let_def dest: cursor_byte_shorter split: if_splits)+

lemma cursor_span_shorter: "cursor_span c = Inr (s, c') \<Longrightarrow> length (cu_view c') < length (cu_view c)"
  by (fastforce simp: cursor_span_def cursor_u32_def cursor_unsigned_def cursor_fail_def bindE_eq_Inr
      dest: unsigned_loop_shorter split: if_splits)

text \<open>The loop over the sections; the two flags say which sections have been seen.\<close>

function memory_sections :: "bool \<Rightarrow> bool \<Rightarrow> wasm_memories \<Rightarrow> cursor \<Rightarrow> wasm_memories result" where
  "memory_sections saw_imports saw_definitions memories c =
     (if cursor_done c then Inr memories
      else bindE (cursor_byte c) (\<lambda>(id, c1). bindE (cursor_span c1) (\<lambda>(section, c2).
        if id = 2 then
          if saw_imports then cursor_fail ''duplicate import section'' c2
          else bindE (read_imports section) (\<lambda>xs.
            memory_sections True saw_definitions (memories\<lparr>wm_imports := wm_imports memories @ xs\<rparr>) c2)
        else if id = 5 then
          if saw_definitions then cursor_fail ''duplicate memory section'' c2
          else bindE (read_definitions section) (\<lambda>ts.
            memory_sections saw_imports True (memories\<lparr>wm_definitions := wm_definitions memories @ ts\<rparr>) c2)
        else memory_sections saw_imports saw_definitions memories c2)))"
  by auto
termination
  by (relation "measure (\<lambda>(_, _, _, c). length (cu_view c))")
    (auto dest!: cursor_byte_shorter cursor_span_shorter)

declare memory_sections.simps [simp del]

definition read_wasm_memories :: "bytes \<Rightarrow> wasm_memories result" where
  "read_wasm_memories module = bindE (read_wasm_header module)
     (memory_sections False False \<lparr>wm_imports = [], wm_definitions = []\<rparr>)"

section \<open>Function imports\<close>

record function_import =
  fi_module :: ustring
  fi_name :: ustring
  fi_type :: "string option"

fun value_type_names :: "nat \<Rightarrow> string option" where
  "value_type_names n = (if n = 127 then Some ''i32'' else if n = 126 then Some ''i64'' else if n = 125 then Some ''f32''
     else if n = 124 then Some ''f64'' else if n = 123 then Some ''v128'' else None)"

definition read_value_type :: "cursor \<Rightarrow> (string \<times> cursor) result" where
  "read_value_type c = bindE (cursor_byte c) (\<lambda>(type, c1). case value_type_names (unat type) of
       Some name \<Rightarrow> Inr (name, c1)
     | None \<Rightarrow> bindE (heap_type type ''invalid value type'' c1) (\<lambda>c2. Inr (''ref'', c2)))"

text \<open>\<open>bytes.view()[0]\<close> is one of the given bytes, which is then consumed.\<close>

definition optional_byte :: "byte list \<Rightarrow> cursor \<Rightarrow> (bool \<times> cursor) result" where
  "optional_byte bs c = (case cu_view c of
       b # _ \<Rightarrow> if b \<in> set bs then bindE (cursor_byte c) (\<lambda>(_, c1). Inr (True, c1)) else Inr (False, c)
     | [] \<Rightarrow> Inr (False, c))"

definition read_storage_type :: "cursor \<Rightarrow> cursor result" where
  "read_storage_type c = bindE (optional_byte [120, 119] c) (\<lambda>(packed, c1).
     bindE (if packed then Inr c1 else bindE (read_value_type c1) (\<lambda>(_, c2). Inr c2)) (\<lambda>c2.
     bindE (cursor_byte c2) (\<lambda>(b, c3). if b > 1 then cursor_fail ''invalid field mutability'' c3 else Inr c3)))"

fun value_types :: "nat \<Rightarrow> cursor \<Rightarrow> (string list \<times> cursor) result" where
  "value_types 0 c = Inr ([], c)"
| "value_types (Suc n) c =
     bindE (read_value_type c) (\<lambda>(t, c1). bindE (value_types n c1) (\<lambda>(ts, c2). Inr (t # ts, c2)))"

fun storage_types :: "nat \<Rightarrow> cursor \<Rightarrow> cursor result" where
  "storage_types 0 c = Inr c"
| "storage_types (Suc n) c = bindE (read_storage_type c) (storage_types n)"

definition read_composite_type :: "cursor \<Rightarrow> (string option \<times> cursor) result" where
  "read_composite_type c = bindE (cursor_byte c) (\<lambda>(form, c1).
     if form = 96 then
       bindE (cursor_u32 c1) (\<lambda>(n, c2). bindE (value_types n c2) (\<lambda>(params, c3).
       bindE (cursor_u32 c3) (\<lambda>(m, c4). bindE (value_types m c4) (\<lambda>(results, c5).
         Inr (Some (join '','' params @ ''->'' @ join '','' results), c5)))))
     else if form = 95 then
       bindE (cursor_u32 c1) (\<lambda>(n, c2). bindE (storage_types n c2) (\<lambda>c3. Inr (None, c3)))
     else if form = 94 then bindE (read_storage_type c1) (\<lambda>c2. Inr (None, c2))
     else cursor_fail ''unknown composite type'' c1)"

fun skip_u32s :: "nat \<Rightarrow> cursor \<Rightarrow> cursor result" where
  "skip_u32s 0 c = Inr c"
| "skip_u32s (Suc n) c = bindE (cursor_u32 c) (\<lambda>(_, c1). skip_u32s n c1)"

definition read_sub_type :: "cursor \<Rightarrow> (string option \<times> cursor) result" where
  "read_sub_type c = bindE (optional_byte [80, 79] c) (\<lambda>(sub, c1).
     bindE (if sub then bindE (cursor_u32 c1) (\<lambda>(n, c2). skip_u32s n c2) else Inr c1) read_composite_type)"

fun sub_types :: "nat \<Rightarrow> cursor \<Rightarrow> (string option list \<times> cursor) result" where
  "sub_types 0 c = Inr ([], c)"
| "sub_types (Suc n) c =
     bindE (read_sub_type c) (\<lambda>(t, c1). bindE (sub_types n c1) (\<lambda>(ts, c2). Inr (t # ts, c2)))"

fun type_entries :: "nat \<Rightarrow> cursor \<Rightarrow> (string option list \<times> cursor) result" where
  "type_entries 0 c = Inr ([], c)"
| "type_entries (Suc n) c =
     bindE (bindE (optional_byte [78] c) (\<lambda>(group, c1).
         if group then bindE (cursor_u32 c1) (\<lambda>(members, c2). sub_types members c2)
         else bindE (read_sub_type c1) (\<lambda>(t, c2). Inr ([t], c2))))
       (\<lambda>(ts, c1). bindE (type_entries n c1) (\<lambda>(us, c2). Inr (ts @ us, c2)))"

definition read_types :: "cursor \<Rightarrow> string option list result" where
  "read_types c = bindE (cursor_u32 c) (\<lambda>(count, c1). bindE (type_entries count c1) (\<lambda>(ts, c2).
     bindE (expect_done ''type section'' c2) (\<lambda>_. Inr ts)))"

definition read_function_import :: "string option list \<Rightarrow> cursor \<Rightarrow> (function_import list \<times> cursor) result" where
  "read_function_import types c =
     bindE (text_span c) (\<lambda>(module, c1). bindE (text_span c1) (\<lambda>(name, c2). bindE (cursor_byte c2) (\<lambda>(kind, c3).
       if kind = 0 then bindE (cursor_u32 c3) (\<lambda>(index, c4).
         Inr ([\<lparr>fi_module = module, fi_name = name, fi_type = (if index < length types then types ! index else None)\<rparr>], c4))
       else if kind = 2 then bindE (read_memory_type c3) (\<lambda>(_, c4). Inr ([], c4))
       else bindE (skip_other_import kind c3) (\<lambda>c4. Inr ([], c4)))))"

fun function_entries :: "string option list \<Rightarrow> nat \<Rightarrow> cursor \<Rightarrow> (function_import list \<times> cursor) result" where
  "function_entries types 0 c = Inr ([], c)"
| "function_entries types (Suc n) c =
     bindE (read_function_import types c) (\<lambda>(xs, c1). bindE (function_entries types n c1) (\<lambda>(ys, c2). Inr (xs @ ys, c2)))"

function function_sections :: "string option list \<Rightarrow> cursor \<Rightarrow> function_import list result" where
  "function_sections types c =
     (if cursor_done c then Inr []
      else bindE (cursor_byte c) (\<lambda>(id, c1). bindE (cursor_span c1) (\<lambda>(section, c2).
        if id = 1 then bindE (read_types section) (\<lambda>ts. function_sections (types @ ts) c2)
        else if id = 2 then
          bindE (cursor_u32 section) (\<lambda>(count, s1). bindE (function_entries types count s1) (\<lambda>(xs, s2).
            bindE (expect_done ''import section'' s2) (\<lambda>_. Inr xs)))
        else function_sections types c2)))"
  by auto
termination
  by (relation "measure (\<lambda>(_, c). length (cu_view c))")
    (auto dest!: cursor_byte_shorter cursor_span_shorter)

declare function_sections.simps [simp del]

definition read_wasm_function_imports :: "bytes \<Rightarrow> function_import list result" where
  "read_wasm_function_imports module = bindE (read_wasm_header module) (function_sections [])"

section \<open>Numbers\<close>

text \<open>The shortest LEB128 encodings.\<close>

fun uleb :: "nat \<Rightarrow> bytes" where
  "uleb n = (if n < 128 then [of_nat n] else of_nat (128 + n mod 128) # uleb (n div 128))"

declare uleb.simps [simp del]

abbreviation at :: "nat \<Rightarrow> bytes \<Rightarrow> cursor" where
  "at offset bs \<equiv> \<lparr>cu_offset = offset, cu_view = bs\<rparr>"

lemma cursor_byte_at [simp]: "cursor_byte (at k (b # bs)) = Inr (b, at (Suc k) bs)"
  by (simp add: cursor_byte_def)

lemma byte_parts: "unat (b AND 127) = unat b mod 128" "b AND 128 = 0 \<longleftrightarrow> unat b < 128" for b :: byte
proof -
  have "b AND 127 = take_bit 7 b" by (simp add: take_bit_eq_mask mask_eq_exp_minus_1)
  then show "unat (b AND 127) = unat b mod 128" by (simp add: take_bit_eq_mod unat_mod)
  have "b AND 2 ^ 7 = 0 \<longleftrightarrow> \<not> bit b 7" by (rule and_exp_eq_0_iff_not_bit)
  moreover have "bit b 7 \<longleftrightarrow> bit (unat b) 7" by (simp add: bit_unsigned_iff)
  moreover have "bit (unat b) 7 \<longleftrightarrow> \<not> unat b < 128"
  proof -
    have "unat b < 256" by (rule unat_byte_less)
    then have "unat b div 128 = (if unat b < 128 then 0 else 1)" by (auto intro!: div_nat_eqI)
    then show ?thesis by (simp add: bit_iff_odd)
  qed
  ultimately show "b AND 128 = 0 \<longleftrightarrow> unat b < 128" by simp
qed

lemma or_shifted:
  fixes v :: nat
  assumes "v < 2 ^ n"
  shows "v OR push_bit n p = v + p * 2 ^ n"
proof -
  have "v + push_bit n p = v OR push_bit n p"
  proof (rule disjunctive_add)
    fix k
    have "bit v k \<Longrightarrow> k < n" using assms bit_take_bit_iff [of n v k] by (simp add: take_bit_eq_mod)
    then show "\<not> bit v k \<or> \<not> bit (push_bit n p) k" by (auto simp: bit_push_bit_iff)
  qed
  then show ?thesis by (simp add: push_bit_eq_mult)
qed

lemma unsigned_loop_uleb:
  "n < 2 ^ (bits - 7 * i) \<Longrightarrow> v < 2 ^ (7 * i) \<Longrightarrow> 7 * i < bits \<Longrightarrow> bits \<le> 7 * (i + k) \<Longrightarrow>
   unsigned_loop bits k i v (at off (uleb n @ rest)) = Inr (v + n * 2 ^ (7 * i), at (off + length (uleb n)) rest)"
proof (induction n arbitrary: i v k off rule: uleb.induct)
  case (1 n)
  obtain m where k: "k = Suc m" using "1.prems"(3,4) by (cases k) auto
  have "n mod 128 < 2 ^ (bits - 7 * i)" using "1.prems"(1) mod_less_eq_dividend [of n 128] by linarith
  then have fits: "\<not> (bits - i * 7 < 7 \<and> 2 ^ (bits - i * 7) \<le> n mod 128)" by (simp add: mult.commute)
  have or: "v OR push_bit (i * 7) p = v + p * 2 ^ (7 * i)" for p
    using or_shifted [of v "7 * i" p] "1.prems"(2) by (simp add: mult.commute)
  show ?case
  proof (cases "n < 128")
    case True
    have u: "uleb n = [of_nat n]" using True by (simp add: uleb.simps)
    have b: "unat (of_nat n :: byte) = n" using True by (simp add: unat_byte_of_nat)
    show ?thesis using True fits by (auto simp: u k byte_parts b or Let_def)
  next
    case False
    define w where "w = (of_nat (128 + n mod 128) :: byte)"
    have u: "uleb n = w # uleb (n div 128)" using False by (simp add: uleb.simps w_def)
    have b: "unat w = 128 + n mod 128" unfolding w_def by (subst unat_byte_of_nat) simp
    have long: "7 * Suc i < bits"
    proof (rule ccontr)
      assume "\<not> 7 * Suc i < bits"
      then have "(2 :: nat) ^ (bits - 7 * i) \<le> 2 ^ 7" by (intro power_increasing) simp_all
      with "1.prems"(1) False show False by simp
    qed
    then have "bits - 7 * i = (bits - 7 * Suc i) + 7" by simp
    then have "(2 :: nat) ^ (bits - 7 * i) = 2 ^ (bits - 7 * Suc i) * 128" by (simp only: power_add) simp
    then have small: "n div 128 < 2 ^ (bits - 7 * Suc i)" using "1.prems"(1) by (simp add: less_mult_imp_div_less)
    have "v + n mod 128 * 2 ^ (7 * i) < 2 ^ (7 * i) + 127 * 2 ^ (7 * i)"
      using "1.prems"(2) mod_less_divisor [of 128 n] by (intro add_less_le_mono mult_right_mono) auto
    then have acc: "v + n mod 128 * 2 ^ (7 * i) < 2 ^ (7 * Suc i)" by (simp add: power_add)
    have "unsigned_loop bits m (Suc i) (v + n mod 128 * 2 ^ (7 * i)) (at (Suc off) (uleb (n div 128) @ rest)) =
        Inr (v + n mod 128 * 2 ^ (7 * i) + n div 128 * 2 ^ (7 * Suc i), at (Suc off + length (uleb (n div 128))) rest)"
      using False small acc long "1.prems"(4) k by (intro "1.IH") auto
    moreover have "n mod 128 * 2 ^ (7 * i) + n div 128 * 2 ^ (7 * Suc i) = n * 2 ^ (7 * i)"
      using div_mult_mod_eq [of n 128] by (simp add: power_add flip: distrib_right mult.assoc)
    ultimately show ?thesis using fits by (auto simp: u k byte_parts b or Let_def add.assoc)
  qed
qed

lemma cursor_unsigned_uleb:
  assumes "n < 2 ^ bits" "0 < bits"
  shows "cursor_unsigned bits (at off (uleb n @ rest)) = Inr (n, at (off + length (uleb n)) rest)"
  using assms unsigned_loop_uleb [of n bits 0 0 "(bits + 6) div 7" off rest] by (simp add: cursor_unsigned_def)

lemmas cursor_uleb = cursor_unsigned_uleb [of _ 32, folded cursor_u32_def, simplified]
  cursor_unsigned_uleb [of _ 64, folded cursor_u64_def, simplified]

text \<open>A type index as a signed number, and an abstract heap type, which is one byte.\<close>

fun sleb :: "nat \<Rightarrow> bytes" where
  "sleb n = (if n < 64 then [of_nat n] else of_nat (128 + n mod 128) # sleb (n div 128))"

declare sleb.simps [simp del]

lemma last_payload: "n < 16 \<Longrightarrow> signed33_loop (Suc m) 4 (of_nat n) c = Inr c"
proof -
  assume "n < 16"
  then have "n \<in> set [0..<16]" by simp
  then show ?thesis by (simp add: upt_rec) (elim disjE; simp)
qed

lemma signed33_loop_sleb:
  "n < 2 ^ (32 - 7 * i) \<Longrightarrow> i \<le> 4 \<Longrightarrow> k + i = 5 \<Longrightarrow>
   \<exists>b bs. sleb n = b # bs \<and> signed33_loop k i b (at off (bs @ rest)) = Inr (at (off + length bs) rest)"
proof (induction n arbitrary: i k off rule: sleb.induct)
  case (1 n)
  obtain m where k: "k = Suc m" using "1.prems" by (cases k) auto
  show ?case
  proof (cases "n < 64")
    case True
    have s: "sleb n = [of_nat n]" using True by (simp add: sleb.simps)
    have b: "unat (of_nat n :: byte) = n" using True by (simp add: unat_byte_of_nat)
    have "signed33_loop k i (of_nat n) (at off rest) = Inr (at off rest)"
    proof (cases "i = 4")
      case True
      have "n < 16" using "1.prems"(1) True by simp
      then show ?thesis using last_payload [of n m] True by (simp add: k)
    next
      case False
      then have "\<not> 33 - i * 7 < 7" using "1.prems"(2) by simp
      then show ?thesis using \<open>n < 64\<close> by (simp add: k byte_parts b Let_def)
    qed
    with s show ?thesis by simp
  next
    case False
    define w where "w = (of_nat (128 + n mod 128) :: byte)"
    have s: "sleb n = w # sleb (n div 128)" using False by (simp add: sleb.simps w_def)
    have b: "unat w = 128 + n mod 128" unfolding w_def by (subst unat_byte_of_nat) simp
    have i: "i < 4" using "1.prems"(1,2) False by (cases "i = 4") auto
    have "32 - 7 * i = (32 - 7 * Suc i) + 7" using i by simp
    then have "(2 :: nat) ^ (32 - 7 * i) = 2 ^ (32 - 7 * Suc i) * 128" by (simp only: power_add) simp
    then have "n div 128 < 2 ^ (32 - 7 * Suc i)" using "1.prems"(1) by (simp add: less_mult_imp_div_less)
    with "1.IH" [OF False, of "Suc i" m "Suc off"] i "1.prems"(3) k obtain b1 bs1 where
      "sleb (n div 128) = b1 # bs1" "signed33_loop m (Suc i) b1 (at (Suc off) (bs1 @ rest)) = Inr (at (Suc off + length bs1) rest)"
      by auto
    with s i show ?thesis by (simp add: k byte_parts b Let_def)
  qed
qed

datatype heap = Type_Index nat | Abstract_Heap byte

fun heap_bytes :: "heap \<Rightarrow> bytes" where
  "heap_bytes (Type_Index n) = sleb n"
| "heap_bytes (Abstract_Heap b) = [b]"

fun heap_valid :: "heap \<Rightarrow> bool" where
  "heap_valid (Type_Index n) = (n < 2 ^ 32)"
| "heap_valid (Abstract_Heap b) = (unat b < 128)"

lemma heap_read:
  assumes "heap_valid h"
  shows "\<exists>b bs. heap_bytes h = b # bs \<and> signed33 b (at off (bs @ rest)) = Inr (at (off + length bs) rest)"
proof (cases h)
  case (Type_Index n)
  with assms signed33_loop_sleb [of n 0 5 off rest] show ?thesis by (simp add: signed33_def)
next
  case (Abstract_Heap b)
  with assms show ?thesis by (simp add: signed33_def byte_parts eval_nat_numeral Let_def)
qed

section \<open>The binary format\<close>

text \<open>What the reader understands, as the WebAssembly specification writes it.\<close>

datatype ref_type = Short_Ref byte | Long_Ref bool heap

datatype val_type = Num_Type byte | Ref_Type ref_type

datatype import_desc =
    Func_Import nat
  | Table_Import ref_type bool nat "nat option"
  | Memory_Import memory_type
  | Global_Import val_type bool
  | Tag_Import nat

datatype import_entry = Import_Entry ustring ustring import_desc

datatype wasm_section =
    Import_Section "import_entry list"
  | Memory_Section "memory_type list"
  | Other_Section byte bytes

fun limit_fits :: "bool \<Rightarrow> nat \<Rightarrow> nat option \<Rightarrow> bool" where
  "limit_fits wide minimum maximum =
     (let bound = (if wide then 2 ^ 64 else 2 ^ 32) in minimum < bound \<and> (\<forall>m \<in> set_option maximum. m < bound))"

definition limit_bytes :: "nat \<Rightarrow> nat option \<Rightarrow> bytes" where
  "limit_bytes minimum maximum = uleb minimum @ (case maximum of Some m \<Rightarrow> uleb m | None \<Rightarrow> [])"

definition limit_flags :: "bool \<Rightarrow> bool \<Rightarrow> nat option \<Rightarrow> byte" where
  "limit_flags wide shared maximum =
     (if wide then 4 else 0) + (if shared then 2 else 0) + (if maximum = None then 0 else 1)"

definition memory_type_bytes :: "memory_type \<Rightarrow> bytes" where
  "memory_type_bytes t = limit_flags (mt_address t = I64) (mt_shared t) (mt_maximum t) # limit_bytes (mt_minimum t) (mt_maximum t)"

definition memory_type_valid :: "memory_type \<Rightarrow> bool" where
  "memory_type_valid t \<longleftrightarrow> limit_fits (mt_address t = I64) (mt_minimum t) (mt_maximum t)"

fun ref_bytes :: "ref_type \<Rightarrow> bytes" where
  "ref_bytes (Short_Ref b) = [b]"
| "ref_bytes (Long_Ref null h) = (if null then 99 else 100) # heap_bytes h"

fun ref_valid :: "ref_type \<Rightarrow> bool" where
  "ref_valid (Short_Ref b) = (105 \<le> b \<and> b \<le> 116)"
| "ref_valid (Long_Ref null h) = heap_valid h"

fun val_bytes :: "val_type \<Rightarrow> bytes" where
  "val_bytes (Num_Type b) = [b]"
| "val_bytes (Ref_Type r) = ref_bytes r"

fun val_valid :: "val_type \<Rightarrow> bool" where
  "val_valid (Num_Type b) = (123 \<le> b \<and> b \<le> 127)"
| "val_valid (Ref_Type r) = ref_valid r"

fun desc_bytes :: "import_desc \<Rightarrow> bytes" where
  "desc_bytes (Func_Import i) = 0 # uleb i"
| "desc_bytes (Table_Import r wide n m) = 1 # ref_bytes r @ limit_flags wide False m # limit_bytes n m"
| "desc_bytes (Memory_Import t) = 2 # memory_type_bytes t"
| "desc_bytes (Global_Import v mutable) = 3 # val_bytes v @ [if mutable then 1 else 0]"
| "desc_bytes (Tag_Import i) = 4 # 0 # uleb i"

fun desc_valid :: "import_desc \<Rightarrow> bool" where
  "desc_valid (Func_Import i) = (i < 2 ^ 32)"
| "desc_valid (Table_Import r wide n m) = (ref_valid r \<and> limit_fits wide n m)"
| "desc_valid (Memory_Import t) = memory_type_valid t"
| "desc_valid (Global_Import v mutable) = val_valid v"
| "desc_valid (Tag_Import i) = (i < 2 ^ 32)"

definition span_bytes :: "bytes \<Rightarrow> bytes" where
  "span_bytes bs = uleb (length bs) @ bs"

definition name_valid :: "ustring \<Rightarrow> bool" where
  "name_valid n \<longleftrightarrow> utf8_decode_fatal n = Some n \<and> length n < 2 ^ 32"

fun entry_bytes :: "import_entry \<Rightarrow> bytes" where
  "entry_bytes (Import_Entry m n d) = span_bytes m @ span_bytes n @ desc_bytes d"

fun entry_valid :: "import_entry \<Rightarrow> bool" where
  "entry_valid (Import_Entry m n d) = (name_valid m \<and> name_valid n \<and> desc_valid d)"

fun entry_memories :: "import_entry \<Rightarrow> memory_import list" where
  "entry_memories (Import_Entry m n (Memory_Import t)) = [\<lparr>mi_module = m, mi_name = n, mi_type = t\<rparr>]"
| "entry_memories _ = []"

fun section_body :: "wasm_section \<Rightarrow> bytes" where
  "section_body (Import_Section es) = uleb (length es) @ concat (map entry_bytes es)"
| "section_body (Memory_Section ts) = uleb (length ts) @ concat (map memory_type_bytes ts)"
| "section_body (Other_Section i bs) = bs"

fun section_id :: "wasm_section \<Rightarrow> byte" where
  "section_id (Import_Section es) = 2"
| "section_id (Memory_Section ts) = 5"
| "section_id (Other_Section i bs) = i"

definition section_bytes :: "wasm_section \<Rightarrow> bytes" where
  "section_bytes s = section_id s # span_bytes (section_body s)"

fun section_valid :: "wasm_section \<Rightarrow> bool" where
  "section_valid (Import_Section es) = (list_all entry_valid es \<and> length es < 2 ^ 32)"
| "section_valid (Memory_Section ts) = (list_all memory_type_valid ts \<and> length ts < 2 ^ 32)"
| "section_valid (Other_Section i bs) = (i \<noteq> 2 \<and> i \<noteq> 5)"

fun section_imports :: "wasm_section \<Rightarrow> memory_import list" where
  "section_imports (Import_Section es) = concat (map entry_memories es)"
| "section_imports _ = []"

fun section_definitions :: "wasm_section \<Rightarrow> memory_type list" where
  "section_definitions (Memory_Section ts) = ts"
| "section_definitions _ = []"

definition module_bytes :: "wasm_section list \<Rightarrow> bytes" where
  "module_bytes ss = wasm_header @ concat (map section_bytes ss)"

definition module_valid :: "wasm_section list \<Rightarrow> bool" where
  "module_valid ss \<longleftrightarrow> list_all (\<lambda>s. section_valid s \<and> length (section_body s) < 2 ^ 32) ss \<and>
     length (filter (\<lambda>s. section_id s = 2) ss) \<le> 1 \<and> length (filter (\<lambda>s. section_id s = 5) ss) \<le> 1"

lemma cursor_span_bytes:
  "length bs < 2 ^ 32 \<Longrightarrow> cursor_span (at off (span_bytes bs @ rest)) =
     Inr (at (off + length (uleb (length bs))) bs, at (off + length (span_bytes bs)) rest)"
  by (simp add: cursor_span_def span_bytes_def cursor_uleb)

lemma limit_flag_bits:
  "limit_flags wide shared m AND - 8 = 0"
  "limit_flags wide shared m AND 1 \<noteq> 0 \<longleftrightarrow> m \<noteq> None"
  "limit_flags wide shared m AND 2 \<noteq> 0 \<longleftrightarrow> shared"
  "limit_flags wide shared m AND 4 \<noteq> 0 \<longleftrightarrow> wide"
  "limit_flags wide False m AND - 6 = 0"
  by (simp_all add: limit_flags_def)

lemma read_memory_type_bytes:
  assumes "memory_type_valid t"
  shows "read_memory_type (at off (memory_type_bytes t @ rest)) = Inr (t, at (off + length (memory_type_bytes t)) rest)"
proof -
  obtain a n m s where t: "t = \<lparr>mt_address = a, mt_minimum = n, mt_maximum = m, mt_shared = s\<rparr>" by (cases t)
  show ?thesis using assms
    by (cases a; cases m) (simp_all add: t read_memory_type_def memory_type_bytes_def memory_type_valid_def limit_bytes_def
        limit_flag_bits cursor_uleb Let_def)
qed

lemma skip_limits_bytes:
  "limit_fits wide n m \<Longrightarrow> skip_limits (at off (limit_flags wide False m # limit_bytes n m @ rest)) =
     Inr (at (off + Suc (length (limit_bytes n m))) rest)"
  by (cases wide; cases m) (simp_all add: skip_limits_def limit_bytes_def limit_flag_bits cursor_uleb Let_def)
lemma heap_type_bytes:
  assumes "ref_valid r"
  shows "\<exists>b bs. ref_bytes r = b # bs \<and> b \<le> 116 \<and> heap_type b e (at off (bs @ rest)) = Inr (at (off + length bs) rest)"
proof (cases r)
  case (Short_Ref b)
  then have b: "105 \<le> b" "b \<le> 116" using assms by simp_all
  then have "b \<noteq> 99" "b \<noteq> 100" "\<not> b < 105" "\<not> 116 < b" by (auto simp: not_less)
  with b Short_Ref show ?thesis by (simp add: heap_type_def)
next
  case (Long_Ref null h)
  with assms heap_read [of h "Suc off" rest] show ?thesis by (auto simp: heap_type_def)
qed

lemma skip_reference_type_bytes:
  "ref_valid r \<Longrightarrow> skip_reference_type (at off (ref_bytes r @ rest)) = Inr (at (off + length (ref_bytes r)) rest)"
  using heap_type_bytes [of r "''invalid reference type''" "Suc off" rest] by (auto simp: skip_reference_type_def)

lemma skip_value_type_bytes:
  assumes "val_valid v"
  shows "skip_value_type (at off (val_bytes v @ rest)) = Inr (at (off + length (val_bytes v)) rest)"
proof (cases v)
  case (Num_Type b)
  with assms show ?thesis by (simp add: skip_value_type_def)
next
  case (Ref_Type r)
  with assms obtain b bs where r: "ref_bytes r = b # bs" "b \<le> 116"
    "heap_type b ''invalid value type'' (at (Suc off) (bs @ rest)) = Inr (at (Suc off + length bs) rest)"
    using heap_type_bytes [of r "''invalid value type''" "Suc off" rest] by auto
  then have "\<not> 123 \<le> b" by (auto dest: order_trans)
  with r Ref_Type show ?thesis by (simp add: skip_value_type_def)
qed

lemma read_import_bytes:
  assumes "entry_valid e"
  shows "read_import (at off (entry_bytes e @ rest)) = Inr (entry_memories e, at (off + length (entry_bytes e)) rest)"
proof (cases e)
  case (Import_Entry m n d)
  have names: "name_valid m" "name_valid n" "desc_valid d" using assms Import_Entry by simp_all
  then have decoded: "cursor_text (at k m) = Inr m" "cursor_text (at k n) = Inr n" for k
    by (simp_all add: cursor_text_def name_valid_def)
  show ?thesis
  proof (cases d)
    case (Table_Import r wide n m)
    with names show ?thesis
      by (simp add: Import_Entry read_import_def skip_other_import_def cursor_span_bytes name_valid_def skip_reference_type_bytes
          skip_limits_bytes)
  qed (use names in \<open>simp_all add: Import_Entry read_import_def skip_other_import_def cursor_span_bytes name_valid_def decoded cursor_uleb
      skip_value_type_bytes read_memory_type_bytes\<close>)
qed

lemma import_entries_bytes:
  "list_all entry_valid es \<Longrightarrow> import_entries (length es) (at off (concat (map entry_bytes es) @ rest)) =
     Inr (concat (map entry_memories es), at (off + length (concat (map entry_bytes es))) rest)"
  by (induction es arbitrary: off) (simp_all add: read_import_bytes add.assoc)

lemma definition_entries_bytes:
  "list_all memory_type_valid ts \<Longrightarrow> definition_entries (length ts) (at off (concat (map memory_type_bytes ts) @ rest)) =
     Inr (ts, at (off + length (concat (map memory_type_bytes ts))) rest)"
  by (induction ts arbitrary: off) (simp_all add: read_memory_type_bytes add.assoc)

lemma read_imports_bytes:
  "section_valid (Import_Section es) \<Longrightarrow>
   read_imports (at off (section_body (Import_Section es))) = Inr (section_imports (Import_Section es))"
  using import_entries_bytes [of es "off + length (uleb (length es))" "[]"]
  by (simp add: read_imports_def cursor_uleb expect_done_def cursor_done_def)

lemma read_definitions_bytes:
  "section_valid (Memory_Section ts) \<Longrightarrow> read_definitions (at off (section_body (Memory_Section ts))) = Inr ts"
  using definition_entries_bytes [of ts "off + length (uleb (length ts))" "[]"]
  by (simp add: read_definitions_def cursor_uleb expect_done_def cursor_done_def)

lemma memory_sections_bytes:
  "list_all (\<lambda>s. section_valid s \<and> length (section_body s) < 2 ^ 32) ss \<Longrightarrow>
   length (filter (\<lambda>s. section_id s = 2) ss) + (if i then 1 else 0) \<le> 1 \<Longrightarrow>
   length (filter (\<lambda>s. section_id s = 5) ss) + (if d then 1 else 0) \<le> 1 \<Longrightarrow>
   memory_sections i d acc (at off (concat (map section_bytes ss))) =
     Inr \<lparr>wm_imports = wm_imports acc @ concat (map section_imports ss),
          wm_definitions = wm_definitions acc @ concat (map section_definitions ss)\<rparr>"
proof (induction ss arbitrary: i d acc off)
  case Nil
  then show ?case by (simp add: memory_sections.simps cursor_done_def)
next
  case (Cons s ss)
  have span: "cursor_span (at (Suc off) (span_bytes (section_body s) @ rest)) =
    Inr (at (Suc off + length (uleb (length (section_body s)))) (section_body s), at (Suc off + length (span_bytes (section_body s))) rest)"
    for rest using Cons.prems(1) by (intro cursor_span_bytes) simp
  have head: "concat (map section_bytes (s # ss)) = section_id s # span_bytes (section_body s) @ concat (map section_bytes ss)"
    by (simp add: section_bytes_def)
  have "memory_sections i d acc (at off (section_id s # span_bytes (section_body s) @ concat (map section_bytes ss))) =
     Inr \<lparr>wm_imports = wm_imports acc @ concat (map section_imports (s # ss)),
          wm_definitions = wm_definitions acc @ concat (map section_definitions (s # ss))\<rparr>"
  proof (cases s)
    case (Import_Section es)
    then have "\<not> i" "filter (\<lambda>s. section_id s = 2) ss = []" using Cons.prems(2) by (auto split: if_splits)
    then show ?thesis using Import_Section Cons.prems span Cons.IH read_imports_bytes [of es]
      by (subst memory_sections.simps) (simp add: cursor_done_def del: section_body.simps section_imports.simps)
  next
    case (Memory_Section ts)
    then have "\<not> d" "filter (\<lambda>s. section_id s = 5) ss = []" using Cons.prems(3) by (auto split: if_splits)
    then show ?thesis using Memory_Section Cons.prems span Cons.IH read_definitions_bytes [of ts]
      by (subst memory_sections.simps) (simp add: cursor_done_def del: section_body.simps)
  next
    case (Other_Section id bs)
    then show ?thesis using Cons.prems span Cons.IH
      by (subst memory_sections.simps) (simp add: cursor_done_def)
  qed
  then show ?case by (simp only: head)
qed

lemma read_header_module: "read_wasm_header (wasm_header @ bs) = Inr (at 8 bs)"
  by (simp add: read_wasm_header_def wasm_header_def)

section \<open>Properties\<close>

text \<open>
  C31: Parsing a module gives back its memories.  For every module written in the binary format - any sections, in any
  order, with at most one import section and one memory section, any mixture of function, table, memory, global and tag
  imports - \<open>readWasmMemories\<close> returns exactly the memory imports, in order and with their names and limits, and exactly the
  memory definitions, and skips everything else without losing its place.
\<close>
theorem wasm_memories_roundtrip:
  assumes "module_valid ss"
  shows "read_wasm_memories (module_bytes ss) =
    Inr \<lparr>wm_imports = concat (map section_imports ss), wm_definitions = concat (map section_definitions ss)\<rparr>"
  using assms memory_sections_bytes [of ss False False]
  by (simp add: read_wasm_memories_def module_bytes_def module_valid_def read_header_module)

theorem wasm_memories_roundtrip_witness:
  "let t = \<lparr>mt_address = I32, mt_minimum = 300, mt_maximum = Some 65536, mt_shared = True\<rparr>;
       ss = [Other_Section 0 [1, 2], Import_Section [Import_Entry [101, 110, 118] [102] (Func_Import 200),
               Import_Entry [101, 110, 118] [116] (Table_Import (Long_Ref True (Type_Index 100)) False 1 None),
               Import_Entry [101, 110, 118] [109] (Memory_Import t)]]
   in module_valid ss \<and> read_wasm_memories (module_bytes ss) =
        Inr \<lparr>wm_imports = [\<lparr>mi_module = [101, 110, 118], mi_name = [109], mi_type = t\<rparr>], wm_definitions = []\<rparr>"
proof -
  define t where "t = \<lparr>mt_address = I32, mt_minimum = 300, mt_maximum = Some 65536, mt_shared = True\<rparr>"
  define ss where "ss = [Other_Section 0 [1, 2], Import_Section [Import_Entry [101, 110, 118] [102] (Func_Import 200),
               Import_Entry [101, 110, 118] [116] (Table_Import (Long_Ref True (Type_Index 100)) False 1 None),
               Import_Entry [101, 110, 118] [109] (Memory_Import t)]]"
  have v: "module_valid ss"
    by (simp add: ss_def t_def module_valid_def memory_type_valid_def name_valid_def utf8_decode_fatal_def strip_bom_def 
        memory_type_bytes_def limit_bytes_def span_bytes_def uleb.simps sleb.simps)
  show ?thesis using v wasm_memories_roundtrip [OF v] by (simp add: Let_def flip: t_def) (simp add: ss_def)
qed
end
