(* ===== verification/Console.thy ===== *)
theory Console
  imports Rx_Queue
begin

text \<open>
  The console of \<open>packages/kernel/src/virtio/console.ts\<close> and the entropy source of \<open>packages/kernel/src/virtio/entropy.ts\<close>.

  The host stream, the host writer and the random source are the environment.  \<open>#pump\<close> is a coroutine: its state says at
  which \<open>await\<close> it stands, and the chunk it holds.  Promises are numbers; \<open>cn_resolved\<close> are the resolved ones.  What the
  host stream has handed over and what the guest has been given are recorded in \<open>cn_reads\<close> and \<open>cn_delivered\<close>.
\<close>

section \<open>State\<close>

datatype pump =
    Pump_Waits nat
  | Pump_Resumes bool
  | Pump_Reads
  | Pump_Ended "js_error option"
  | Pump_None

datatype transmit =
    Tx_Next
  | Tx_Write vq_chain "vq_buffer list" nat
  | Tx_Done "js_error option"

definition CONSOLE_F_SIZE :: nat where "CONSOLE_F_SIZE = 2 ^ 0"

definition ConsoleConfig :: layout where
  "ConsoleConfig = [(''columns'', Scalar U16LE), (''rows'', Scalar U16LE)]"

record console =
  cn_reader :: bool
  cn_writer :: bool
  cn_config :: bytes
  cn_rx :: "vq_chain rx_queue"
  cn_opened :: nat
  cn_resolved :: "nat list"
  cn_next :: nat
  cn_guest_ready :: bool
  cn_stopped :: bool
  cn_pump :: pump
  cn_chunk :: "bytes option"
  cn_transmits :: "transmit list"
  cn_cancelled :: bool
  cn_aborted :: bool
  cn_updates :: nat
  cn_reads :: "bytes list"
  cn_delivered :: "(vq_chain \<times> nat) list"
  cn_written :: "bytes list"
  cn_released :: "(vq_chain \<times> nat) list"

definition resolve :: "nat list \<Rightarrow> console \<Rightarrow> console" where
  "resolve ps c = c\<lparr>cn_resolved := cn_resolved c @ ps\<rparr>"

section \<open>Input\<close>

text \<open>
  \<open>#receivable\<close> from the head of its loop: it returns, or awaits \<open>#rx.ready()\<close> or \<open>#opened\<close>.  A promise that is resolved
  already still suspends the loop.
\<close>

definition receivable :: "console \<Rightarrow> console" where
  "receivable c =
     (if \<not> cn_stopped c \<and> \<not> (cn_guest_ready c \<and> rx_available (cn_rx c) > 0) then
        if cn_guest_ready c then
          let (rx, now) = rx_ready (cn_next c) (cn_rx c); c1 = c\<lparr>cn_rx := rx, cn_next := Suc (cn_next c), cn_pump := Pump_Waits (cn_next c)\<rparr>
          in if now then resolve [cn_next c] c1 else c1
        else c\<lparr>cn_pump := Pump_Waits (cn_opened c)\<rparr>
      else c\<lparr>cn_pump := Pump_Resumes (\<not> cn_stopped c)\<rparr>)"

text \<open>The callback of \<open>deliver\<close>: the chain with its descriptor filled, and the bytes taken.\<close>

definition console_fill :: "bytes \<Rightarrow> vq_chain \<Rightarrow> (vq_chain \<times> nat) result" where
  "console_fill pending ch = (case ch_buffers ch of
       [] \<Rightarrow> Inl (Error ''receiver must be writable'')
     | desc # trailing \<Rightarrow>
         if \<not> vb_writable desc then Inl (Error ''receiver must be writable'')
         else if trailing \<noteq> [] then Inl (Error ''too many descriptors'')
         else let n = min (length pending) (length (vb_array desc))
              in Inr (ch\<lparr>ch_buffers := [desc\<lparr>vb_array := overwrite (vb_array desc) 0 (take n pending)\<rparr>]\<rparr>, n))"

definition pump_deliver :: "bytes \<Rightarrow> console \<Rightarrow> console" where
  "pump_deliver pending c = (case rx_deliver (cn_rx c) of
       (rx, None) \<Rightarrow> receivable (c\<lparr>cn_rx := rx, cn_chunk := (if 0 < length pending then Some pending else None)\<rparr>)
     | (rx, Some ch) \<Rightarrow> (case console_fill pending ch of
           Inl e \<Rightarrow> c\<lparr>cn_rx := rx, cn_pump := Pump_Ended (Some e)\<rparr>
         | Inr (ch', n) \<Rightarrow> receivable (c\<lparr>cn_rx := rx, cn_delivered := cn_delivered c @ [(ch', n)],
             cn_chunk := (if n < length pending then Some (drop n pending) else None)\<rparr>)))"

text \<open>The body of the loop of \<open>#pump\<close>, once \<open>#receivable\<close> has answered.\<close>

definition pump_turn :: "bool \<Rightarrow> console \<Rightarrow> console" where
  "pump_turn go c =
     (if \<not> go then c\<lparr>cn_pump := Pump_Ended None\<rparr>
      else case cn_chunk c of
        None \<Rightarrow> c\<lparr>cn_pump := Pump_Reads\<rparr>
      | Some pending \<Rightarrow> pump_deliver pending c)"

text \<open>What \<open>reader.read()\<close> returns: \<open>None\<close> is the end of the stream.\<close>

definition pump_read :: "bytes option \<Rightarrow> console \<Rightarrow> console" where
  "pump_read r c = (case r of
       None \<Rightarrow> c\<lparr>cn_pump := Pump_Ended None\<rparr>
     | Some bs \<Rightarrow> receivable (c\<lparr>cn_reads := cn_reads c @ [bs], cn_chunk := (if 0 < length bs then Some bs else cn_chunk c)\<rparr>))"

definition pump_fails :: "js_error \<Rightarrow> console \<Rightarrow> console" where
  "pump_fails e c = c\<lparr>cn_pump := Pump_Ended (Some e)\<rparr>"

section \<open>Construction\<close>

definition console_config :: bytes where
  "console_config = scalar_encode U16LE 80 @ scalar_encode U16LE 24"

definition new_console :: "bool \<Rightarrow> bool \<Rightarrow> console" where
  "new_console input out =
     (let c = \<lparr>cn_reader = input, cn_writer = out, cn_config = console_config, cn_rx = new_rx, cn_opened = 0, cn_resolved = [],
        cn_next = 1, cn_guest_ready = False, cn_stopped = False, cn_pump = Pump_None, cn_chunk = None, cn_transmits = [],
        cn_cancelled = False, cn_aborted = False, cn_updates = 0, cn_reads = [], cn_delivered = [], cn_written = [], cn_released = []\<rparr>
      in if input then receivable c else c)"

section \<open>Kicks\<close>

text \<open>Queue 0: the chains the iteration yields are posted, if there is input at all.\<close>

definition kick_receive :: "vq_chain list \<Rightarrow> js_error option \<Rightarrow> console \<Rightarrow> console \<times> unit result" where
  "kick_receive chs err c =
     (if cn_reader c then
        let (rx, ws, r) = rx_post chs err (cn_rx c) in (resolve ws (c\<lparr>cn_rx := rx\<rparr>), r)
      else (c, Inr ()))"

text \<open>\<open>#transmit\<close>, up to its first await: the first transmit tells that the guest's console is ready.\<close>

definition transmit_start :: "console \<Rightarrow> console" where
  "transmit_start c =
     (let c1 = (if cn_guest_ready c then c else resolve [cn_opened c] (c\<lparr>cn_guest_ready := True\<rparr>))
      in c1\<lparr>cn_transmits := cn_transmits c1 @ [Tx_Next]\<rparr>)"

text \<open>The loop over the descriptors of a chain, from one of them: the next write, or the release.\<close>

definition transmit_buffers :: "nat \<Rightarrow> vq_chain \<Rightarrow> vq_buffer list \<Rightarrow> nat \<Rightarrow> console \<Rightarrow> console" where
  "transmit_buffers i ch bufs n c = (case bufs of
       [] \<Rightarrow> c\<lparr>cn_released := cn_released c @ [(ch, n)], cn_transmits := (cn_transmits c)[i := Tx_Next]\<rparr>
     | b # bs \<Rightarrow>
         if vb_writable b then c\<lparr>cn_transmits := (cn_transmits c)[i := Tx_Done (Some (Error ''transmitter must be readable''))]\<rparr>
         else c\<lparr>cn_written := cn_written c @ (if cn_writer c then [vb_array b] else []),
                cn_transmits := (cn_transmits c)[i := Tx_Write ch bufs n]\<rparr>)"

text \<open>The queue's iterator answers with the next chain, the end, or an exception.\<close>

definition transmit_next :: "nat \<Rightarrow> vq_chain option result \<Rightarrow> console \<Rightarrow> console" where
  "transmit_next i r c = (case r of
       Inl e \<Rightarrow> c\<lparr>cn_transmits := (cn_transmits c)[i := Tx_Done (Some e)]\<rparr>
     | Inr None \<Rightarrow> c\<lparr>cn_transmits := (cn_transmits c)[i := Tx_Done None]\<rparr>
     | Inr (Some ch) \<Rightarrow> transmit_buffers i ch (ch_buffers ch) 0 c)"

definition transmit_resume :: "nat \<Rightarrow> unit result \<Rightarrow> console \<Rightarrow> console" where
  "transmit_resume i r c = (case cn_transmits c ! i of
       Tx_Write ch (b # bs) n \<Rightarrow> (case r of
           Inl e \<Rightarrow> c\<lparr>cn_transmits := (cn_transmits c)[i := Tx_Done (Some e)]\<rparr>
         | Inr _ \<Rightarrow> transmit_buffers i ch bs (n + length (vb_array b)) c)
     | _ \<Rightarrow> c)"

section \<open>Reset, stop, close and resize\<close>

definition console_reset :: "console \<Rightarrow> console" where
  "console_reset c =
     (let c1 = resolve [cn_opened c] (c\<lparr>cn_rx := rx_reset (cn_rx c), cn_guest_ready := False\<rparr>)
      in c1\<lparr>cn_opened := cn_next c1, cn_next := Suc (cn_next c1)\<rparr>)"

definition console_stop :: "console \<Rightarrow> console" where
  "console_stop c =
     (let (rx, ws) = rx_close (cn_rx c); c1 = resolve (ws @ [cn_opened c]) (c\<lparr>cn_stopped := True, cn_rx := rx\<rparr>)
      in c1\<lparr>cn_cancelled := cn_cancelled c1 \<or> cn_reader c1, cn_aborted := cn_aborted c1 \<or> cn_writer c1\<rparr>)"

text \<open>\<open>close\<close>, from how the cancellation and the abortion settled.\<close>

definition console_close :: "unit result \<Rightarrow> unit result \<Rightarrow> unit result" where
  "console_close cancellation abortion = (case cancellation of
       Inl e \<Rightarrow> Inl e
     | Inr _ \<Rightarrow> (case abortion of Inl e \<Rightarrow> Inl e | Inr _ \<Rightarrow> Inr ()))"

text \<open>\<open>resize\<close>: an argument that is no integer is \<open>None\<close>.\<close>

definition valid_dimension :: "int option \<Rightarrow> bool" where
  "valid_dimension d = (case d of None \<Rightarrow> False | Some n \<Rightarrow> 0 < n \<and> n \<le> 0xffff)"

definition resize :: "int option \<Rightarrow> int option \<Rightarrow> console \<Rightarrow> console \<times> unit result" where
  "resize columns rows c =
     (if \<not> valid_dimension columns then (c, Inl (Error ''console columns must be a positive 16-bit integer''))
      else if \<not> valid_dimension rows then (c, Inl (Error ''console rows must be a positive 16-bit integer''))
      else
        let dv = whole_view (cn_config c)
        in if get_num ConsoleConfig dv ''columns'' = Inr (nat (the columns)) \<and> get_num ConsoleConfig dv ''rows'' = Inr (nat (the rows))
           then (c, Inr ())
           else case set_fields ConsoleConfig dv [(''columns'', Num (the columns)), (''rows'', Num (the rows))] of
             Inl e \<Rightarrow> (c, Inl e)
           | Inr bs \<Rightarrow> (c\<lparr>cn_config := bs, cn_updates := Suc (cn_updates c)\<rparr>, Inr ()))"

section \<open>The event loop\<close>

datatype console_event =
    Pump_Wakes
  | Pump_Goes
  | Host_Reads "bytes option"
  | Host_Fails js_error
  | Kick_Receive "vq_chain list" "js_error option"
  | Kick_Transmit
  | Tx_Takes nat "vq_chain option result"
  | Tx_Written nat "unit result"
  | Reset_Console
  | Stop_Console
  | Resize "int option" "int option"

fun console_step :: "console_event \<Rightarrow> console \<Rightarrow> console option" where
  "console_step Pump_Wakes c = (case cn_pump c of Pump_Waits p \<Rightarrow> if p \<in> set (cn_resolved c) then Some (receivable c) else None | _ \<Rightarrow> None)"
| "console_step Pump_Goes c = (case cn_pump c of Pump_Resumes go \<Rightarrow> Some (pump_turn go c) | _ \<Rightarrow> None)"
| "console_step (Host_Reads r) c = (if cn_pump c = Pump_Reads then Some (pump_read r c) else None)"
| "console_step (Host_Fails e) c = (if cn_pump c = Pump_Reads then Some (pump_fails e c) else None)"
| "console_step (Kick_Receive chs err) c = (if cn_stopped c then None else Some (fst (kick_receive chs err c)))"
| "console_step Kick_Transmit c = (if cn_stopped c then None else Some (transmit_start c))"
| "console_step (Tx_Takes i r) c = (if i < length (cn_transmits c) \<and> cn_transmits c ! i = Tx_Next then Some (transmit_next i r c) else None)"
| "console_step (Tx_Written i r) c = (if i < length (cn_transmits c) then Some (transmit_resume i r c) else None)"
| "console_step Reset_Console c = (if cn_stopped c then None else Some (console_reset c))"
| "console_step Stop_Console c = (if cn_stopped c then None else Some (console_stop c))"
| "console_step (Resize columns rows) c = Some (fst (resize columns rows c))"

inductive console_reachable :: "bool \<Rightarrow> bool \<Rightarrow> console \<Rightarrow> bool" for input out where
  start: "console_reachable input out (new_console input out)"
| step: "console_reachable input out c \<Longrightarrow> console_step ev c = Some c' \<Longrightarrow> console_reachable input out c'"

section \<open>The input of the console\<close>

definition given :: "vq_chain \<times> nat \<Rightarrow> bytes" where
  "given d = (case d of (ch, n) \<Rightarrow> take n (vb_array (hd (ch_buffers ch))))"

definition held :: "console \<Rightarrow> bytes" where
  "held c = (case cn_chunk c of None \<Rightarrow> [] | Some bs \<Rightarrow> bs)"

text \<open>What only depends on the input side of the console.\<close>

definition input_inv :: "console \<Rightarrow> bool" where
  "input_inv c \<longleftrightarrow> concat (map given (cn_delivered c)) @ held c = concat (cn_reads c) \<and> (cn_pump c = Pump_Reads \<longrightarrow> cn_chunk c = None)"

definition wake_inv :: "console \<Rightarrow> bool" where
  "wake_inv c \<longleftrightarrow> (\<forall>p. cn_pump c = Pump_Waits p \<and> p \<notin> set (cn_resolved c) \<longrightarrow>
     \<not> cn_stopped c \<and> (p = cn_opened c \<and> \<not> cn_guest_ready c \<or> p \<in> set (rx_waiters (cn_rx c))))"

definition same_input :: "console \<Rightarrow> console \<Rightarrow> bool" where
  "same_input c c' \<longleftrightarrow> cn_delivered c' = cn_delivered c \<and> cn_chunk c' = cn_chunk c \<and> cn_reads c' = cn_reads c"

lemma resolve_fields [simp]:
  "cn_delivered (resolve ps c) = cn_delivered c" "cn_chunk (resolve ps c) = cn_chunk c" "cn_reads (resolve ps c) = cn_reads c"
  "cn_pump (resolve ps c) = cn_pump c" "cn_rx (resolve ps c) = cn_rx c" "cn_opened (resolve ps c) = cn_opened c"
  "cn_guest_ready (resolve ps c) = cn_guest_ready c" "cn_stopped (resolve ps c) = cn_stopped c" "cn_next (resolve ps c) = cn_next c"
  "cn_resolved (resolve ps c) = cn_resolved c @ ps"
  by (simp_all add: resolve_def)

lemma receivable_input: "same_input c (receivable c)" "cn_pump (receivable c) \<noteq> Pump_Reads" "wake_inv (receivable c)"
  by (auto simp: receivable_def same_input_def wake_inv_def rx_ready_def Let_def split: if_splits prod.splits)

lemma receivable_inv:
  assumes "concat (map given (cn_delivered c)) @ held c = concat (cn_reads c)"
  shows "input_inv (receivable c) \<and> wake_inv (receivable c)"
  using assms receivable_input [of c] by (simp add: input_inv_def same_input_def held_def)

lemma console_fill_given:
  assumes "console_fill pending ch = Inr (ch', n)"
  shows "given (ch', n) = take n pending" "n \<le> length pending"
  using assms by (auto simp: console_fill_def given_def overwrite_def Let_def split: list.splits if_splits)

lemma pump_deliver_inv:
  assumes "concat (map given (cn_delivered c)) @ pending = concat (cn_reads c)" "cn_chunk c = Some pending"
  shows "input_inv (pump_deliver pending c) \<and> wake_inv (pump_deliver pending c)"
proof (cases "rx_deliver (cn_rx c)")
  case (Pair rx r)
  show ?thesis
  proof (cases r)
    case None
    with Pair assms show ?thesis by (auto simp: pump_deliver_def held_def intro!: receivable_inv)
  next
    case (Some ch)
    show ?thesis
    proof (cases "console_fill pending ch")
      case (Inl e)
      with Pair Some assms show ?thesis by (simp add: pump_deliver_def input_inv_def wake_inv_def held_def)
    next
      case (Inr d)
      obtain ch' n where d: "d = (ch', n)" by (cases d)
      have "given (ch', n) = take n pending" "n \<le> length pending" using console_fill_given Inr d by auto
      with Pair Some Inr d assms(1) show ?thesis
        by (auto simp: pump_deliver_def held_def intro!: receivable_inv simp flip: assms(1))
    qed
  qed
qed

lemma console_inv_by_fields:
  "input_inv c \<Longrightarrow> same_input c c' \<Longrightarrow> cn_pump c' = cn_pump c \<Longrightarrow> input_inv c'"
  by (simp add: input_inv_def same_input_def held_def)

lemma transmit_fields:
  "same_input c (transmit_buffers i ch bufs n c)" "cn_pump (transmit_buffers i ch bufs n c) = cn_pump c"
  "wake_inv (transmit_buffers i ch bufs n c) = wake_inv c"
  by (simp_all add: transmit_buffers_def same_input_def wake_inv_def split: list.splits)

lemma console_step_inv:
  assumes "input_inv c \<and> wake_inv c" "console_step ev c = Some c'"
  shows "input_inv c' \<and> wake_inv c'"
proof -
  have other: ?thesis if "same_input c c'" "cn_pump c' = cn_pump c" "wake_inv c'" using that assms(1) console_inv_by_fields by blast
  show ?thesis
  proof (cases ev)
    case Pump_Wakes
    with assms receivable_inv [of c] show ?thesis by (auto simp: input_inv_def split: pump.splits if_splits)
  next
    case Pump_Goes
    with assms(2) obtain go where c': "c' = pump_turn go c" by (auto split: pump.splits)
    show ?thesis
    proof (cases "go \<and> cn_chunk c \<noteq> None")
      case True
      with assms(1) c' pump_deliver_inv show ?thesis by (auto simp: pump_turn_def input_inv_def held_def)
    next
      case False
      with assms(1) c' show ?thesis by (auto simp: pump_turn_def input_inv_def wake_inv_def held_def split: option.splits)
    qed
  next
    case (Host_Reads r)
    with assms have "cn_chunk c = None" "concat (map given (cn_delivered c)) = concat (cn_reads c)" "c' = pump_read r c"
      by (auto simp: input_inv_def held_def split: if_splits)
    then show ?thesis
    proof (cases r)
      case None
      with \<open>c' = pump_read r c\<close> assms(1) show ?thesis by (simp add: pump_read_def input_inv_def wake_inv_def held_def)
    next
      case (Some bs)
      with \<open>c' = pump_read r c\<close> \<open>cn_chunk c = None\<close> \<open>concat (map given (cn_delivered c)) = concat (cn_reads c)\<close> show ?thesis
        unfolding pump_read_def by (simp only: option.case) (rule receivable_inv, simp add: held_def)
    qed
  next
    case (Host_Fails e)
    with assms show ?thesis by (auto simp: pump_fails_def input_inv_def wake_inv_def held_def split: if_splits)
  next
    case (Kick_Receive chs err)
    have "wake_inv (fst (kick_receive chs err c))" using assms(1)
      by (auto simp: kick_receive_def wake_inv_def rx_post_def rx_wake_def Let_def split: option.splits)
    with Kick_Receive assms show ?thesis
      by (intro other) (auto simp: kick_receive_def same_input_def split: prod.splits if_splits)
  next
    case Kick_Transmit
    with assms show ?thesis
      by (intro other) (auto simp: transmit_start_def same_input_def wake_inv_def Let_def split: if_splits)
  next
    case (Tx_Takes i r)
    then have "c' = transmit_next i r c" using assms(2) by (auto split: if_splits)
    then show ?thesis using assms(1) transmit_fields
      by (intro other) (auto simp: transmit_next_def same_input_def wake_inv_def split: sum.splits option.splits)
  next
    case (Tx_Written i r)
    then have "c' = transmit_resume i r c" using assms(2) by (auto split: if_splits)
    then show ?thesis using assms(1) transmit_fields
      by (intro other) (auto simp: transmit_resume_def same_input_def wake_inv_def split: sum.splits transmit.splits list.splits)
  next
    case Reset_Console
    with assms show ?thesis
      by (intro other) (auto simp: console_reset_def same_input_def wake_inv_def rx_reset_def Let_def split: if_splits)
  next
    case Stop_Console
    with assms show ?thesis
      by (intro other) (auto simp: console_stop_def same_input_def wake_inv_def rx_close_def rx_wake_def Let_def split: if_splits)
  next
    case (Resize columns rows)
    with assms show ?thesis
      by (intro other) (auto simp: resize_def same_input_def wake_inv_def Let_def split: if_splits sum.splits)
  qed
qed

lemma console_reachable_inv: "console_reachable input out c \<Longrightarrow> input_inv c \<and> wake_inv c"
proof (induction rule: console_reachable.induct)
  case start
  show ?case
  proof (cases input)
    case True
    then show ?thesis by (auto simp: new_console_def held_def Let_def intro!: receivable_inv)
  next
    case False
    then show ?thesis by (simp add: new_console_def input_inv_def wake_inv_def held_def Let_def)
  qed
next
  case (step c ev c')
  then show ?case using console_step_inv by blast
qed
fun console_run :: "console_event list \<Rightarrow> console \<Rightarrow> console option" where
  "console_run [] c = Some c"
| "console_run (ev # evs) c = Option.bind (console_step ev c) (console_run evs)"

lemma console_run_reachable: "console_reachable input out c \<Longrightarrow> console_run evs c = Some c' \<Longrightarrow> console_reachable input out c'"
  by (induction evs arbitrary: c) (auto simp: Option.bind_eq_Some_conv intro: console_reachable.step)

section \<open>The entropy source\<close>

text \<open>
  One kick of the entropy device over the chains the iteration yields.  \<open>random i\<close> is the \<open>i\<close>-th random byte, \<open>k\<close> how many were used;
  \<open>crypto.getRandomValues\<close> refuses more than 65536 bytes at once.
\<close>

fun fill_random :: "(nat \<Rightarrow> byte) \<Rightarrow> nat \<Rightarrow> vq_buffer list \<Rightarrow> (vq_buffer list \<times> nat) result" where
  "fill_random random k [] = Inr ([], 0)"
| "fill_random random k (b # bs) =
     (if \<not> vb_writable b then Inl (Error ''Assertation failed'')
      else if length (vb_array b) > 65536 then Inl (Error ''QuotaExceededError'')
      else bindE (fill_random random (k + length (vb_array b)) bs) (\<lambda>(bs', n).
        Inr (b\<lparr>vb_array := map random [k..<k + length (vb_array b)]\<rparr> # bs', length (vb_array b) + n)))"

fun entropy_chains :: "(nat \<Rightarrow> byte) \<Rightarrow> nat \<Rightarrow> vq_chain list \<Rightarrow> js_error option \<Rightarrow> (vq_chain \<times> nat) list \<times> unit result" where
  "entropy_chains random k [] err = ([], case err of None \<Rightarrow> Inr () | Some e \<Rightarrow> Inl e)"
| "entropy_chains random k (ch # chs) err = (case fill_random random k (ch_buffers ch) of
       Inl e \<Rightarrow> ([], Inl e)
     | Inr (bufs, n) \<Rightarrow> (case entropy_chains random (k + n) chs err of (out, r) \<Rightarrow> ((ch\<lparr>ch_buffers := bufs\<rparr>, n) # out, r)))"

lemma fill_random_lengths:
  "fill_random random k bs = Inr (bs', n) \<Longrightarrow> map (length \<circ> vb_array) bs' = map (length \<circ> vb_array) bs \<and> n = sum_list (map (length \<circ> vb_array) bs)"
  by (induction bs arbitrary: k bs' n) (auto simp: throws split: if_splits)

text \<open>Every released chain is filled completely: as many bytes are announced as its buffers hold, none shared with another.\<close>

lemma entropy_chains_filled:
  "entropy_chains random k chs err = (out, r) \<Longrightarrow>
   (\<forall>(ch, n) \<in> set out. n = sum_list (map (length \<circ> vb_array) (ch_buffers ch))) \<and> map (ch_id \<circ> fst) out = map ch_id (take (length out) chs)"
proof (induction random k chs err arbitrary: out r rule: entropy_chains.induct)
  case (2 random k ch chs err)
  show ?case
  proof (cases "fill_random random k (ch_buffers ch)")
    case (Inl e)
    with 2 show ?thesis by simp
  next
    case (Inr d)
    obtain bufs n where d: "d = (bufs, n)" by (cases d)
    obtain out' r' where rest: "entropy_chains random (k + n) chs err = (out', r')" by fastforce
    have "sum_list (map (length \<circ> vb_array) bufs) = n" using fill_random_lengths [of random k "ch_buffers ch" bufs n] Inr d by simp
    with "2.IH" [OF Inr d [symmetric] rest] "2.prems" Inr d rest show ?thesis by (auto simp: o_def)
  qed
qed simp

section \<open>Properties\<close>

text \<open>
  C32: Console input reaches the guest in order and complete.  In every reachable state, across any interleaving of host reads,
  kicks, resets and shutdown, the bytes given to the guest followed by the one chunk held back are exactly the bytes
  read from the host stream; and the pump sleeps only for a reason that will wake it: either the guest has not shown yet
  that its console is ready, or the pump is registered with the receive queue.
\<close>
theorem console_input_in_order:
  assumes "console_reachable input out c"
  shows "concat (map given (cn_delivered c)) @ held c = concat (cn_reads c) \<and>
    (\<forall>p. cn_pump c = Pump_Waits p \<and> p \<notin> set (cn_resolved c) \<longrightarrow>
       \<not> cn_stopped c \<and> (p = cn_opened c \<and> \<not> cn_guest_ready c \<or> p \<in> set (rx_waiters (cn_rx c))))"
  using console_reachable_inv [OF assms] unfolding input_inv_def wake_inv_def by blast

theorem console_input_in_order_witness:
  "let b = \<lparr>vb_array = [0, 0], vb_writable = True, vb_address = None, vb_target = 0\<rparr>;
       ch = \<lparr>ch_buffers = [b], ch_id = 7, ch_skip = 1\<rparr>;
       c = the (console_run [Kick_Transmit, Pump_Wakes, Kick_Receive [ch] None, Pump_Wakes, Pump_Goes, Host_Reads (Some [1, 2, 3]), Pump_Goes]
             (new_console True True))
   in console_reachable True True c \<and> concat (map given (cn_delivered c)) = [1, 2] \<and> held c = [3] \<and>
      concat (map given (cn_delivered c)) @ held c = concat (cn_reads c)"
proof -
  define ch where "ch = \<lparr>ch_buffers = [\<lparr>vb_array = [0, 0], vb_writable = True, vb_address = None, vb_target = 0\<rparr>], ch_id = 7, ch_skip = 1\<rparr>"
  define run where "run = console_run [Kick_Transmit, Pump_Wakes, Kick_Receive [ch] None, Pump_Wakes, Pump_Goes, Host_Reads (Some [1, 2, 3]), Pump_Goes]
    (new_console True True)"
  have facts: "run \<noteq> None \<and> map given (cn_delivered (the run)) = [[1, 2]] \<and> held (the run) = [3]"
    unfolding run_def ch_def by code_simp
  then obtain c where c: "run = Some c" by auto
  have r: "console_reachable True True c"
    using c unfolding run_def by (rule console_run_reachable [OF console_reachable.start])
  show ?thesis
    using console_input_in_order [OF r] facts r c unfolding Let_def run_def [symmetric] ch_def [symmetric] by simp
qed
end
