(* ===== verification/Buffer_Logic.thy ===== *)
theory Buffer_Logic
  imports Struct_Encoding
begin

text \<open>
  Reasoning about code that fills a \<open>Bytes\<close> buffer: \<open>gives m P\<close> says that a computation returns and its result satisfies \<open>P\<close>, \<open>holds bs b\<close>
  that a growable buffer contains \<open>bs\<close>.  The rules follow the operations of the buffer, so that a program of several steps is
  verified step by step.
\<close>

section \<open>Computations and contents\<close>

definition gives :: "'a result option \<Rightarrow> ('a \<Rightarrow> bool) \<Rightarrow> bool" where
  "gives m P \<longleftrightarrow> (\<exists>x. m = Some (Inr x) \<and> P x)"

lemma gives_bind: "gives m P \<Longrightarrow> (\<And>x. P x \<Longrightarrow> gives (f x) Q) \<Longrightarrow> gives (bindR m f) Q"
  by (auto simp: gives_def)

lemma gives_return [simp]: "gives (Some (Inr x)) P \<longleftrightarrow> P x"
  by (simp add: gives_def)

lemma gives_assert [intro]: "c \<Longrightarrow> gives (Some (assertE c msg)) (\<lambda>_. True)"
  by (simp add: gives_def)

lemma gives_mono: "gives m P \<Longrightarrow> (\<And>x. P x \<Longrightarrow> Q x) \<Longrightarrow> gives m Q"
  by (auto simp: gives_def)

definition holds :: "bytes \<Rightarrow> bytebuf \<Rightarrow> bool" where
  "holds bs b \<longleftrightarrow> growable b \<and> bytes_array b = bs"

lemma holds_length: "holds bs b \<Longrightarrow> bb_length b = length bs"
  by (auto simp: holds_def growable_def length_bytes_array)

lemma put_holds: "holds bs b \<Longrightarrow> ty_encode t v = Inr xs \<Longrightarrow> gives (bytes_put b t v) (holds (bs @ xs))"
  using bytes_put_works [of b t v xs] by (auto simp: holds_def gives_def)

lemma append_holds: "holds bs b \<Longrightarrow> gives (append_bytes b xs) (holds (bs @ xs))"
  using append_bytes_works [of b xs] by (auto simp: holds_def gives_def)

lemma alloc_holds:
  assumes "holds bs b"
  shows "gives (map_option Inr (bytes_alloc b t)) (\<lambda>(off, b'). off = length bs \<and> holds (bs @ replicate (ty_size t) 0) b')"
proof -
  have ok: "bytes_ok b" "0 < bytes_capacity b" "bytes_array b = bs" using assms by (auto simp: holds_def growable_def)
  obtain b' m where b': "bytes_bump b (ty_size t) = Some (bb_length b, b')" "bb_length b' = bb_length b + ty_size t"
    "bb_array b' = (bs @ replicate (ty_size t) 0) @ replicate m 0" "bytes_capacity b \<le> bytes_capacity b'"
    using bytes_bump_works [OF ok(1), of "ty_size t"] ok by auto
  have "bb_length b' = length (bs @ replicate (ty_size t) 0)" using b'(2) holds_length [OF assms] by simp
  from bytes_okI [OF b'(3) this] b' ok holds_length [OF assms] show ?thesis
    by (auto simp: gives_def bytes_alloc_def holds_def growable_def)
qed

lemma alloc_set_field_step:
  assumes "field_at fs 0 k = Some (d, Scalar s)" "off + d + scalar_size s \<le> length (bb_array b)"
  shows "alloc_set b (Struct fs) off (Obj ((k, Num v) # kvs)) =
    alloc_set (b\<lparr>bb_array := overwrite (bb_array b) (off + d) (scalar_encode s v)\<rparr>) (Struct fs) off (Obj kvs)"
  using assms by (auto simp: alloc_set_def scalar_set_def dv_write_def tail_view_def whole_view_def length_overwrite)

lemma holds_overwrite:
  assumes "holds bs b" "off + length xs \<le> length bs"
  shows "holds (overwrite bs off xs) (b\<lparr>bb_array := overwrite (bb_array b) off xs\<rparr>)"
proof -
  have b: "bb_array b = bs @ replicate (length (bb_array b) - bb_length b) 0" "bytes_ok b"
    using assms(1) bytes_ok_split [of b] by (auto simp: holds_def growable_def)
  let ?b = "b\<lparr>bb_array := overwrite (bb_array b) off xs\<rparr>"
  have "bb_array ?b = overwrite bs off xs @ replicate (length (bb_array b) - bb_length b) 0"
    by (subst b(1)) (use assms(2) in \<open>simp add: overwrite_def\<close>)
  moreover have "bb_length ?b = length (overwrite bs off xs)" using assms holds_length [of bs b] by (simp add: length_overwrite)
  ultimately have "bytes_ok ?b" "bytes_array ?b = overwrite bs off xs" by (rule bytes_okI)+
  moreover have "bytes_capacity ?b = bytes_capacity b"
    using assms holds_length [of bs b] b by (simp add: bytes_capacity_def length_overwrite bytes_ok_def)
  ultimately show ?thesis using assms(1) by (simp add: holds_def growable_def)
qed

lemma set_field_holds:
  assumes "holds bs b" "field_at fs 0 k = Some (d, Scalar s)" "off + d + scalar_size s \<le> length bs"
  shows "gives (Some (alloc_set_field b fs off k (Num v))) (holds (overwrite bs (off + d) (scalar_encode s v)))"
proof -
  have "length bs \<le> length (bb_array b)"
    using holds_length [OF assms(1)] assms(1) by (simp add: holds_def growable_def bytes_ok_def)
  with assms have "alloc_set_field b fs off k (Num v) = Inr (b\<lparr>bb_array := overwrite (bb_array b) (off + d) (scalar_encode s v)\<rparr>)"
    by (simp add: alloc_set_field_def alloc_set_field_step [where v = v and kvs = "[]"])
      (simp add: alloc_set_def tail_view_def whole_view_def length_overwrite)
  then show ?thesis using holds_overwrite [OF assms(1), of "off + d" "scalar_encode s v"] assms(3) by simp
qed
text \<open>Arrays of elements of equal width.\<close>

lemma overwrite_element:
  assumes "i < length vs" "\<And>v. length (enc v) = w"
  shows "overwrite (pre @ concat (map enc vs) @ post) (length pre + w * i) (enc v) = pre @ concat (map enc (vs[i := v])) @ post"
  using assms(1)
proof (induction vs arbitrary: i pre)
  case (Cons x vs)
  show ?case
  proof (cases i)
    case 0
    then show ?thesis by (simp add: overwrite_def assms(2))
  next
    case (Suc j)
    then show ?thesis using Cons.IH [of j "pre @ enc x"] Cons.prems by (simp add: assms(2) add.assoc)
  qed
qed simp

end
