(* ===== verification/Device_Tree.thy ===== *)
theory Device_Tree
  imports Buffer_Logic
begin

text \<open>
  The flattened device tree of \<open>packages/kernel/src/devicetree.ts\<close>.  \<open>generate_devicetree\<close> writes into a \<open>Bytes\<close> buffer
  and goes back to patch what it did not know yet: the length of a property, the offset of its name in the strings
  block, and the header.  The theory models that program on the buffer and shows that it writes exactly the blob of the
  specification, which is a pure function of the tree.

  A typed array or an \<open>ArrayBuffer\<close> is the bytes of its \<open>buffer\<close>; an object is the list of its entries, in the order of
  \<open>Object.entries\<close>.
\<close>

section \<open>Trees\<close>

datatype dt_value =
    DT_Number int
  | DT_BigInt int
  | DT_String ustring
  | DT_Buffer bytes
  | DT_Array "int list"
  | DT_Undefined

datatype dt_item = DT_Prop dt_value | DT_Node "(ustring \<times> dt_item) list"

type_synonym dt_entries = "(ustring \<times> dt_item) list"

definition FDT_MAGIC :: int where "FDT_MAGIC = 0xd00dfeed"
definition FDT_BEGIN_NODE :: int where "FDT_BEGIN_NODE = 1"
definition FDT_END_NODE :: int where "FDT_END_NODE = 2"
definition FDT_PROP :: int where "FDT_PROP = 3"
definition FDT_END :: int where "FDT_END = 9"
definition NODE_NAME_MAX_LEN :: nat where "NODE_NAME_MAX_LEN = 31"
definition PROPERTY_NAME_MAX_LEN :: nat where "PROPERTY_NAME_MAX_LEN = 31"

definition FdtHeader :: layout where
  "FdtHeader = [(''magic'', Scalar U32BE), (''totalsize'', Scalar U32BE), (''off_dt_struct'', Scalar U32BE),
     (''off_dt_strings'', Scalar U32BE), (''off_mem_rsvmap'', Scalar U32BE), (''version'', Scalar U32BE),
     (''last_comp_version'', Scalar U32BE), (''boot_cpuid_phys'', Scalar U32BE), (''size_dt_strings'', Scalar U32BE),
     (''size_dt_struct'', Scalar U32BE)]"

definition FdtReserveEntry :: layout where
  "FdtReserveEntry = [(''address'', Scalar U64BE), (''size'', Scalar U64BE)]"

definition Property :: layout where
  "Property = [(''len'', Scalar U32BE), (''nameoff'', Scalar U32BE)]"

section \<open>Objects used as dictionaries\<close>

text \<open>
  \<open>strings\<close> is an object literal: reading the name of a member of \<open>Object.prototype\<close> finds that member, which has no
  \<open>push\<close>, and \<open>Object.entries\<close> lists the array indices first, in ascending order, and the other keys as they were added.
\<close>

definition object_prototype :: "ustring list" where
  "object_prototype = map ascii [''constructor'', ''__defineGetter__'', ''__defineSetter__'', ''hasOwnProperty'',
     ''__lookupGetter__'', ''__lookupSetter__'', ''isPrototypeOf'', ''propertyIsEnumerable'', ''toString'', ''valueOf'',
     ''__proto__'', ''toLocaleString'']"

definition index_key :: "ustring \<Rightarrow> nat option" where
  "index_key k = (let n = foldl (\<lambda>n b. n * 10 + (unat b - 48)) 0 k
     in if k \<noteq> [] \<and> list_all (\<lambda>b. 48 \<le> b \<and> b \<le> 57) k \<and> (hd k \<noteq> 48 \<or> k = [48]) \<and> n < 2 ^ 32 - 1 then Some n else None)"

definition object_entries :: "(ustring \<times> 'a) list \<Rightarrow> (ustring \<times> 'a) list" where
  "object_entries kvs = sort_key (\<lambda>kv. the (index_key (fst kv))) (filter (\<lambda>kv. index_key (fst kv) \<noteq> None) kvs) @
     filter (\<lambda>kv. index_key (fst kv) = None) kvs"

text \<open>\<open>(strings[name] ??= []).push(property)\<close>.\<close>

type_synonym fdt_strings = "(ustring \<times> nat list) list"

fun push_own :: "ustring \<Rightarrow> nat \<Rightarrow> fdt_strings \<Rightarrow> fdt_strings" where
  "push_own name ref [] = [(name, [ref])]"
| "push_own name ref ((k, refs) # kvs) = (if k = name then (k, refs @ [ref]) # kvs else (k, refs) # push_own name ref kvs)"

definition push_string :: "ustring \<Rightarrow> nat \<Rightarrow> fdt_strings \<Rightarrow> fdt_strings result" where
  "push_string name ref strings =
     (if name \<in> set object_prototype then Inl (TypeError ''push is not a function'') else Inr (push_own name ref strings))"

section \<open>generate_devicetree\<close>

fun alloc_zeros :: "nat \<Rightarrow> bytebuf \<Rightarrow> bytebuf result option" where
  "alloc_zeros 0 b = Some (Inr b)"
| "alloc_zeros (Suc n) b = bindR (map_option (\<lambda>(_, b1). Inr b1) (bytes_alloc b (Scalar U8))) (alloc_zeros n)"

definition align :: "nat \<Rightarrow> bytebuf \<Rightarrow> bytebuf result option" where
  "align alignment b = (let offset = bb_length b mod alignment
     in if offset \<noteq> 0 then alloc_zeros (alignment - offset) b else Some (Inr b))"

definition put_u32 :: "int \<Rightarrow> bytebuf \<Rightarrow> bytebuf result option" where
  "put_u32 v b = bytes_put b (Scalar U32BE) (Num v)"

fun property_value :: "dt_value \<Rightarrow> bytes" where
  "property_value (DT_Number n) = scalar_encode U32BE n"
| "property_value (DT_BigInt n) = scalar_encode U64BE n"
| "property_value (DT_String s) = s @ [0]"
| "property_value (DT_Buffer bs) = bs"
| "property_value (DT_Array ns) = concat (map (scalar_encode U32BE) ns)"
| "property_value DT_Undefined = []"

text \<open>One property: the walk carries the buffer and \<open>strings\<close>.\<close>

definition write_property :: "ustring \<Rightarrow> dt_value \<Rightarrow> bytebuf \<times> fdt_strings \<Rightarrow> (bytebuf \<times> fdt_strings) result option" where
  "write_property name prop st = (case st of (b, strings) \<Rightarrow>
     bindR (align 4 b) (\<lambda>b1.
     bindR (put_u32 FDT_PROP b1) (\<lambda>b2.
     bindR (map_option Inr (bytes_alloc b2 (Struct Property))) (\<lambda>(property, b3).
     bindR (Some (assertE (length name \<le> PROPERTY_NAME_MAX_LEN) (''property name too long: '' @ js_text name))) (\<lambda>_.
     bindR (Some (push_string name property strings)) (\<lambda>strings1.
     bindR (Some (alloc_set_field b3 Property property ''len'' (Num (int (length (property_value prop)))))) (\<lambda>b4.
     bindR (append_bytes b4 (property_value prop)) (\<lambda>b5.
     bindR (align 4 b5) (\<lambda>b6. Some (Inr (b6, strings1)))))))))))"

definition open_node :: "ustring \<Rightarrow> bytebuf \<Rightarrow> bytebuf result option" where
  "open_node name b =
     bindR (align 4 b) (\<lambda>b1.
     bindR (put_u32 FDT_BEGIN_NODE b1) (\<lambda>b2.
     bindR (Some (assertE (length name \<le> NODE_NAME_MAX_LEN) (''property name too long: '' @ js_text name))) (\<lambda>_.
     bindR (append_bytes b2 name) (\<lambda>b3.
     bindR (bytes_put b3 (Scalar U8) (Num 0)) (align 4)))))"

fun write_properties :: "dt_entries \<Rightarrow> bytebuf \<times> fdt_strings \<Rightarrow> (bytebuf \<times> fdt_strings) result option" where
  "write_properties [] st = Some (Inr st)"
| "write_properties ((name, DT_Prop p) # es) st = bindR (write_property name p st) (write_properties es)"
| "write_properties ((name, DT_Node _) # es) st = write_properties es st"

fun walk_tree :: "dt_entries \<Rightarrow> ustring \<Rightarrow> bytebuf \<times> fdt_strings \<Rightarrow> (bytebuf \<times> fdt_strings) result option"
  and walk_children :: "dt_entries \<Rightarrow> bytebuf \<times> fdt_strings \<Rightarrow> (bytebuf \<times> fdt_strings) result option" where
  "walk_tree node name st =
     bindR (open_node name (fst st)) (\<lambda>b1.
     bindR (write_properties node (b1, snd st)) (\<lambda>st2.
     bindR (walk_children node st2) (\<lambda>(b3, strings3).
     bindR (align 4 b3) (\<lambda>b4.
     bindR (put_u32 FDT_END_NODE b4) (\<lambda>b5. Some (Inr (b5, strings3)))))))"
| "walk_children [] st = Some (Inr st)"
| "walk_children ((name, DT_Node child) # es) st = bindR (walk_tree child name st) (walk_children es)"
| "walk_children ((name, DT_Prop _) # es) st = walk_children es st"

fun put_reservations :: "(int \<times> int) list \<Rightarrow> bytebuf \<Rightarrow> bytebuf result option" where
  "put_reservations [] b = Some (Inr b)"
| "put_reservations ((address, len) # rs) b =
     bindR (bytes_put b (Struct FdtReserveEntry) (Obj [(''address'', Num address), (''size'', Num len)])) (put_reservations rs)"

fun patch_refs :: "nat list \<Rightarrow> nat \<Rightarrow> bytebuf \<Rightarrow> bytebuf result option" where
  "patch_refs [] offset b = Some (Inr b)"
| "patch_refs (ref # refs) offset b =
     bindR (Some (alloc_set_field b Property ref ''nameoff'' (Num (int offset)))) (patch_refs refs offset)"

fun write_strings :: "nat \<Rightarrow> fdt_strings \<Rightarrow> bytebuf \<Rightarrow> bytebuf result option" where
  "write_strings start [] b = Some (Inr b)"
| "write_strings start ((str, refs) # kvs) b =
     bindR (append_bytes b str) (\<lambda>b1.
     bindR (bytes_put b1 (Scalar U8) (Num 0)) (\<lambda>b2.
     bindR (patch_refs refs (bb_length b - start) b2) (write_strings start kvs)))"

definition set_header :: "nat \<Rightarrow> string \<Rightarrow> nat \<Rightarrow> bytebuf \<Rightarrow> bytebuf result option" where
  "set_header header k v b = Some (alloc_set_field b FdtHeader header k (Num (int v)))"

definition generate_devicetree :: "dt_entries \<Rightarrow> (int \<times> int) list \<Rightarrow> int \<Rightarrow> bytes result option" where
  "generate_devicetree tree memory_reservations boot_cpu_id =
     bindR (map_option Inr (bytes_alloc (new_bytes 1024) (Struct FdtHeader))) (\<lambda>(header, b0).
     bindR (Some (alloc_set b0 (Struct FdtHeader) header (Obj [(''magic'', Num FDT_MAGIC), (''version'', Num 17),
              (''last_comp_version'', Num 16), (''boot_cpuid_phys'', Num boot_cpu_id)]))) (\<lambda>b1.
     bindR (align 8 b1) (\<lambda>b2.
     bindR (set_header header ''off_mem_rsvmap'' (bb_length b2) b2) (\<lambda>b3.
     bindR (put_reservations memory_reservations b3) (\<lambda>b4.
     bindR (bytes_put b4 (Struct FdtReserveEntry) (Obj [(''address'', Num 0), (''size'', Num 0)])) (\<lambda>b5.
     bindR (set_header header ''off_dt_struct'' (bb_length b5) b5) (\<lambda>b6.
     bindR (walk_tree tree [] (b6, [])) (\<lambda>(b7, strings).
     bindR (put_u32 FDT_END b7) (\<lambda>b8.
     bindR (set_header header ''size_dt_struct'' (bb_length b8 - bb_length b6) b8) (\<lambda>b9.
     bindR (set_header header ''off_dt_strings'' (bb_length b9) b9) (\<lambda>b10.
     bindR (write_strings (bb_length b10) (object_entries strings) b10) (\<lambda>b11.
     bindR (set_header header ''size_dt_strings'' (bb_length b11 - bb_length b10) b11) (\<lambda>b12.
     bindR (set_header header ''totalsize'' (bb_length b12) b12) (\<lambda>b13.
     Some (Inr (bytes_array b13))))))))))))))))"

section \<open>The specified blob\<close>

abbreviation u32 :: "int \<Rightarrow> bytes" where
  "u32 v \<equiv> scalar_encode U32BE v"

definition padding :: "nat \<Rightarrow> nat \<Rightarrow> bytes" where
  "padding a n = replicate ((a - n mod a) mod a) 0"

text \<open>The structure block, given the offset \<open>f name\<close> of every property name in the strings block.\<close>

definition property_block :: "(ustring \<Rightarrow> nat) \<Rightarrow> ustring \<Rightarrow> dt_value \<Rightarrow> bytes" where
  "property_block f name prop = u32 FDT_PROP @ u32 (int (length (property_value prop))) @ u32 (int (f name)) @
     property_value prop @ padding 4 (length (property_value prop))"

fun properties_block :: "(ustring \<Rightarrow> nat) \<Rightarrow> dt_entries \<Rightarrow> bytes" where
  "properties_block f [] = []"
| "properties_block f ((name, DT_Prop p) # es) = property_block f name p @ properties_block f es"
| "properties_block f ((name, DT_Node _) # es) = properties_block f es"

definition node_name_block :: "ustring \<Rightarrow> bytes" where
  "node_name_block name = u32 FDT_BEGIN_NODE @ (name @ [0]) @ padding 4 (Suc (length name))"

fun node_block :: "(ustring \<Rightarrow> nat) \<Rightarrow> dt_entries \<Rightarrow> ustring \<Rightarrow> bytes"
  and children_block :: "(ustring \<Rightarrow> nat) \<Rightarrow> dt_entries \<Rightarrow> bytes" where
  "node_block f es name = node_name_block name @ properties_block f es @ children_block f es @ u32 FDT_END_NODE"
| "children_block f [] = []"
| "children_block f ((name, DT_Node child) # es) = node_block f child name @ children_block f es"
| "children_block f ((name, DT_Prop _) # es) = children_block f es"

text \<open>The property names in the order of the structure block, and the strings block they make.\<close>

fun property_names :: "dt_entries \<Rightarrow> ustring list" where
  "property_names [] = []"
| "property_names ((name, DT_Prop _) # es) = name # property_names es"
| "property_names ((_, DT_Node _) # es) = property_names es"

fun node_names :: "dt_entries \<Rightarrow> ustring list"
  and children_names :: "dt_entries \<Rightarrow> ustring list" where
  "node_names es = property_names es @ children_names es"
| "children_names [] = []"
| "children_names ((_, DT_Node child) # es) = node_names child @ children_names es"
| "children_names ((_, DT_Prop _) # es) = children_names es"

definition key_order :: "ustring list \<Rightarrow> ustring list" where
  "key_order ks = map fst (object_entries (map (\<lambda>k. (k, ())) (rev (remdups (rev ks)))))"

fun name_offsets :: "nat \<Rightarrow> ustring list \<Rightarrow> (ustring \<Rightarrow> nat) \<Rightarrow> ustring \<Rightarrow> nat" where
  "name_offsets n [] f = f"
| "name_offsets n (k # ks) f = name_offsets (n + Suc (length k)) ks (f(k := n))"

definition strings_block :: "ustring list \<Rightarrow> bytes" where
  "strings_block ks = concat (map (\<lambda>k. k @ [0]) ks)"

definition reservations_block :: "(int \<times> int) list \<Rightarrow> bytes" where
  "reservations_block rs = concat (map (\<lambda>(address, len). scalar_encode U64BE address @ scalar_encode U64BE len) (rs @ [(0, 0)]))"

definition fdt_blob :: "dt_entries \<Rightarrow> (int \<times> int) list \<Rightarrow> int \<Rightarrow> bytes" where
  "fdt_blob tree rs boot_cpu_id =
     (let ks = key_order (node_names tree);
          structs = node_block (name_offsets 0 ks (\<lambda>_. 0)) tree [] @ u32 FDT_END;
          strs = strings_block ks;
          off_struct = 40 + length (reservations_block rs);
          off_strings = off_struct + length structs
      in concat (map u32 [FDT_MAGIC, int (off_strings + length strs), int off_struct, int off_strings, 40, 17, 16, boot_cpu_id,
           int (length strs), int (length structs)])
         @ reservations_block rs @ structs @ strs)"

fun entries_valid :: "dt_entries \<Rightarrow> bool" where
  "entries_valid [] = True"
| "entries_valid ((name, DT_Prop _) # es) = (length name \<le> PROPERTY_NAME_MAX_LEN \<and> name \<notin> set object_prototype \<and> entries_valid es)"
| "entries_valid ((name, DT_Node child) # es) = (length name \<le> NODE_NAME_MAX_LEN \<and> entries_valid child \<and> entries_valid es)"

section \<open>What the steps leave in the buffer\<close>

lemma put_u32_holds: "holds bs b \<Longrightarrow> gives (put_u32 v b) (holds (bs @ u32 v))"
  by (simp add: put_u32_def put_holds)

lemma alloc_zeros_holds: "holds bs b \<Longrightarrow> gives (alloc_zeros n b) (holds (bs @ replicate n 0))"
proof (induction n arbitrary: bs b)
  case (Suc n)
  have "gives (map_option (\<lambda>(_, b1). Inr b1) (bytes_alloc b (Scalar U8))) (holds (bs @ [0]))"
    using alloc_holds [OF Suc.prems, of "Scalar U8"] by (auto simp: gives_def)
  then show ?case
    using Suc.IH [of "bs @ [0]"] by (auto intro!: gives_bind)
qed simp

lemma align_holds: "0 < a \<Longrightarrow> holds bs b \<Longrightarrow> gives (align a b) (holds (bs @ padding a (length bs)))"
  using alloc_zeros_holds [of bs b "a - length bs mod a"] holds_length [of bs b]
  by (auto simp: align_def padding_def Let_def)

section \<open>The walk\<close>

text \<open>Where the properties of a tree stand: their names and the offsets of their \<open>Property\<close> structs.\<close>

fun property_sites :: "nat \<Rightarrow> dt_entries \<Rightarrow> (ustring \<times> nat) list" where
  "property_sites k [] = []"
| "property_sites k ((name, DT_Prop p) # es) =
     (name, k + 4) # property_sites (k + length (property_block (\<lambda>_. 0) name p)) es"
| "property_sites k ((name, DT_Node _) # es) = property_sites k es"

fun node_sites :: "nat \<Rightarrow> dt_entries \<Rightarrow> ustring \<Rightarrow> (ustring \<times> nat) list"
  and children_sites :: "nat \<Rightarrow> dt_entries \<Rightarrow> (ustring \<times> nat) list" where
  "node_sites k es name = property_sites (k + length (node_name_block name)) es @
     children_sites (k + length (node_name_block name) + length (properties_block (\<lambda>_. 0) es)) es"
| "children_sites k [] = []"
| "children_sites k ((name, DT_Node child) # es) =
     node_sites k child name @ children_sites (k + length (node_block (\<lambda>_. 0) child name)) es"
| "children_sites k ((name, DT_Prop _) # es) = children_sites k es"

definition push_all :: "(ustring \<times> nat) list \<Rightarrow> fdt_strings \<Rightarrow> fdt_strings" where
  "push_all sites strings = fold (\<lambda>(name, ref). push_own name ref) sites strings"

lemma push_all_simps [simp]:
  "push_all [] s = s" "push_all ((n, r) # xs) s = push_all xs (push_own n r s)" "push_all (xs @ ys) s = push_all ys (push_all xs s)"
  by (simp_all add: push_all_def)

lemma length_property_block: "length (property_block f n p) = length (property_block (\<lambda>_. 0) n p)"
  by (simp add: property_block_def)

lemma length_properties_block: "length (properties_block f es) = length (properties_block (\<lambda>_. 0) es)"
  using length_property_block by (induction f es rule: properties_block.induct) simp_all

lemma length_node_block:
  "length (node_block f es name) = length (node_block (\<lambda>_. 0) es name)"
  "length (children_block f es) = length (children_block (\<lambda>_. 0) es)"
  using length_properties_block by (induction f es name and f es rule: node_block_children_block.induct) simp_all

lemma padding_aligns: "0 < a \<Longrightarrow> a dvd n + length (padding a n)"
proof -
  assume "0 < a"
  then have "n mod a < a" by simp
  have "a dvd n + (a - n mod a)"
  proof -
    have "n + (a - n mod a) = a * (n div a) + a" using mult_div_mod_eq [of a n] \<open>n mod a < a\<close> by linarith
    then show ?thesis by simp
  qed
  then show ?thesis by (simp add: padding_def mod_eq_0_iff_dvd [symmetric] mod_add_right_eq)
qed

lemma padding_none: "a dvd n \<Longrightarrow> padding a n = []"
  by (simp add: padding_def)

lemma padding_shift: "a dvd m \<Longrightarrow> padding a (m + n) = padding a n"
  by (auto simp: padding_def elim!: dvdE)

lemma property_block_aligned: "4 dvd length (property_block f n p)"
  using padding_aligns [of 4 "length (property_value p)"] by (simp add: property_block_def)

lemma properties_block_aligned: "4 dvd length (properties_block f es)"
  using property_block_aligned by (induction f es rule: properties_block.induct) simp_all

lemma node_name_block_aligned: "4 dvd length (node_name_block n)"
  using dvd_add [OF dvd_refl padding_aligns [of 4 "Suc (length n)"]] by (simp add: node_name_block_def)

lemma node_block_aligned: "4 dvd length (node_block f es name)" "4 dvd length (children_block f es)"
proof (induction f es name and f es rule: node_block_children_block.induct)
  case (1 f es name)
  then show ?case using properties_block_aligned node_name_block_aligned by simp
next
  case (3 f name child es)
  then show ?case by (simp only: children_block.simps length_append dvd_add)
qed simp_all

lemma zeros_u32: "replicate 4 0 = u32 0"
  by code_simp

lemma write_property_holds:
  assumes "holds bs b" "4 dvd length bs" "length name \<le> PROPERTY_NAME_MAX_LEN" "name \<notin> set object_prototype"
  shows "gives (write_property name prop (b, s))
    (\<lambda>(b', s'). holds (bs @ property_block (\<lambda>_. 0) name prop) b' \<and> s' = push_own name (length bs + 4) s)"
proof -
  let ?v = "property_value prop" and ?h = "bs @ u32 FDT_PROP"
  have len: "field_at Property 0 ''len'' = Some (0, Scalar U32BE)" by (simp add: Property_def)
  have size: "ty_size (Struct Property) = 8" by (simp add: Property_def)
  have patched: "overwrite (?h @ replicate 8 0) (length ?h) (u32 n) = ?h @ u32 n @ u32 0" for n
    by (simp add: overwrite_def flip: zeros_u32)
  have tail: "(?h @ u32 n @ u32 0 @ ?v) @ padding 4 (length (?h @ u32 n @ u32 0 @ ?v)) = bs @ u32 FDT_PROP @ u32 n @ u32 0 @ ?v @ padding 4 (length ?v)"
    for n using padding_shift [of 4 "length bs + 12" "length ?v"] assms(2) by (simp add: algebra_simps)
  have "gives (put_u32 FDT_PROP b1) (holds ?h)" if "holds (bs @ padding 4 (length bs)) b1" for b1
    using put_u32_holds that assms(2) by (simp add: padding_none)
  moreover have "gives (map_option Inr (bytes_alloc b2 (Struct Property))) (\<lambda>(off, b'). off = length ?h \<and> holds (?h @ replicate 8 0) b')"
    if "holds ?h b2" for b2 using alloc_holds [OF that, of "Struct Property"] size by simp
  moreover have "gives (Some (alloc_set_field b3 Property (length ?h) ''len'' (Num (int (length ?v))))) (holds (?h @ u32 (int (length ?v)) @ u32 0))"
    if "holds (?h @ replicate 8 0) b3" for b3
    using set_field_holds [OF that len, of "length ?h" "int (length ?v)"] patched by simp
  moreover have "gives (append_bytes b4 ?v) (holds (?h @ u32 (int (length ?v)) @ u32 0 @ ?v))"
    if "holds (?h @ u32 (int (length ?v)) @ u32 0) b4" for b4 using append_holds [OF that] by simp
  moreover have "gives (align 4 b5) (holds (bs @ property_block (\<lambda>_. 0) name prop))"
    if "holds (?h @ u32 (int (length ?v)) @ u32 0 @ ?v) b5" for b5
    using align_holds [OF _ that, of 4] tail by (simp add: property_block_def)
  ultimately show ?thesis
    using assms align_holds [OF _ assms(1), of 4]
    by (auto simp: write_property_def push_string_def intro!: gives_bind [OF align_holds] gives_bind [where P = "\<lambda>(off, b'). P off b'" for P] gives_bind)
qed
lemma open_node_holds:
  assumes "holds bs b" "4 dvd length bs" "length name \<le> NODE_NAME_MAX_LEN"
  shows "gives (open_node name b) (holds (bs @ node_name_block name))"
proof -
  have put: "gives (put_u32 FDT_BEGIN_NODE b1) (holds (bs @ u32 FDT_BEGIN_NODE))" if "holds (bs @ padding 4 (length bs)) b1" for b1
    using put_u32_holds that assms(2) by (simp add: padding_none)
  have app: "gives (append_bytes b2 name) (holds (bs @ u32 FDT_BEGIN_NODE @ name))" if "holds (bs @ u32 FDT_BEGIN_NODE) b2" for b2
    using append_holds [OF that] by simp
  have nul: "gives (bytes_put b3 (Scalar U8) (Num 0)) (holds (bs @ u32 FDT_BEGIN_NODE @ name @ [0]))"
    if "holds (bs @ u32 FDT_BEGIN_NODE @ name) b3" for b3
  proof -
    have "scalar_encode U8 0 = [0]" by code_simp
    then show ?thesis using put_holds [OF that, of "Scalar U8" "Num 0"] by simp
  qed
  have pad: "gives (align 4 b4) (holds (bs @ node_name_block name))" if "holds (bs @ u32 FDT_BEGIN_NODE @ name @ [0]) b4" for b4
    using align_holds [OF _ that, of 4] padding_shift [of 4 "length bs + 4" "Suc (length name)"] assms(2)
    by (simp add: node_name_block_def algebra_simps)
  show ?thesis unfolding open_node_def using assms(3)
    by (intro gives_bind [OF align_holds [OF _ assms(1)]] gives_bind [OF put] gives_bind [OF gives_assert] gives_bind [OF app]
        gives_bind [OF nul] pad) simp_all
qed

lemma write_properties_holds:
  "holds bs b \<Longrightarrow> 4 dvd length bs \<Longrightarrow> entries_valid es \<Longrightarrow> gives (write_properties es (b, s))
    (\<lambda>(b', s'). holds (bs @ properties_block (\<lambda>_. 0) es) b' \<and> s' = push_all (property_sites (length bs) es) s)"
proof (induction es arbitrary: bs b s rule: entries_valid.induct)
  case (2 name p es)
  have "gives (write_properties es (b', s')) (\<lambda>(b', s'').
      holds ((bs @ property_block (\<lambda>_. 0) name p) @ properties_block (\<lambda>_. 0) es) b' \<and>
      s'' = push_all (property_sites (length (bs @ property_block (\<lambda>_. 0) name p)) es) s')"
    if "holds (bs @ property_block (\<lambda>_. 0) name p) b'" for b' s'
    using 2 that property_block_aligned by (intro "2.IH") auto
  then show ?case
    using 2 by (auto intro!: gives_bind [OF write_property_holds])
qed auto

lemma walk_holds:
  "entries_valid es \<Longrightarrow> length name \<le> NODE_NAME_MAX_LEN \<Longrightarrow> holds bs b \<Longrightarrow> 4 dvd length bs \<Longrightarrow>
   gives (walk_tree es name (b, s))
     (\<lambda>(b', s'). holds (bs @ node_block (\<lambda>_. 0) es name) b' \<and> s' = push_all (node_sites (length bs) es name) s)"
  "entries_valid es \<Longrightarrow> holds bs b \<Longrightarrow> 4 dvd length bs \<Longrightarrow>
   gives (walk_children es (b, s))
     (\<lambda>(b', s'). holds (bs @ children_block (\<lambda>_. 0) es) b' \<and> s' = push_all (children_sites (length bs) es) s)"
proof (induction "\<lambda>_ :: ustring. 0 :: nat" es name and "\<lambda>_ :: ustring. 0 :: nat" es
    arbitrary: bs b s and bs b s rule: node_block_children_block.induct)
  case (1 es name)
  let ?a = "bs @ node_name_block name" and ?z = "\<lambda>_. 0 :: nat"
  let ?c = "?a @ properties_block ?z es" let ?d = "?c @ children_block ?z es"
  have dvd: "4 dvd length ?a" "4 dvd length ?c" "4 dvd length ?d"
    using 1 node_name_block_aligned properties_block_aligned node_block_aligned by (simp_all add: dvd_add)
  have props: "gives (write_properties es (b1, s)) (\<lambda>(b', s'). holds ?c b' \<and> s' = push_all (property_sites (length ?a) es) s)"
    if "holds ?a b1" for b1 using write_properties_holds [OF that dvd(1) "1.prems"(1)] by simp
  have children: "gives (walk_children es st) (\<lambda>(b', s'). holds ?d b' \<and> s' = push_all (children_sites (length ?c) es) (snd st))"
    if "holds ?c (fst st)" for st using "1.hyps" [OF "1.prems"(1) that dvd(2), of "snd st"] by simp
  have close: "gives (put_u32 FDT_END_NODE b4) (holds (?d @ u32 FDT_END_NODE))" if "holds (?d @ padding 4 (length ?d)) b4" for b4
    using put_u32_holds [OF that] dvd(3) by (simp add: padding_none)
  have rest: "gives (bindR (align 4 b3) (\<lambda>b4. bindR (put_u32 FDT_END_NODE b4) (\<lambda>b5. Some (Inr (b5, s3)))))
      (\<lambda>(b', s'). holds (?d @ u32 FDT_END_NODE) b' \<and> s' = s3)" if "holds ?d b3" for b3 s3
    using that by (intro gives_bind [OF align_holds [of 4 ?d]] gives_bind [OF close]) (simp_all del: append_assoc length_append)
  have opened: "gives (open_node name b) (holds ?a)" by (rule open_node_holds [OF "1.prems"(3,4,2)])
  show ?case unfolding walk_tree.simps fst_conv snd_conv
    by (rule gives_bind [OF opened], rule gives_bind [OF props], assumption, rule gives_bind [OF children])
      (auto simp: add.assoc intro!: rest [simplified])
next
  case (3 name child es)
  let ?a = "bs @ node_block (\<lambda>_. 0) child name"
  have dvd: "4 dvd length ?a" using "3.prems"(3) node_block_aligned(1) by (simp only: length_append dvd_add)
  have v: "entries_valid child" "length name \<le> NODE_NAME_MAX_LEN" "entries_valid es" using "3.prems"(1) by simp_all
  have children: "gives (walk_children es st) (\<lambda>(b', s'). holds (?a @ children_block (\<lambda>_. 0) es) b' \<and>
      s' = push_all (children_sites (length ?a) es) (snd st))" if "holds ?a (fst st)" for st
    using "3.hyps"(2) [OF v(3) that dvd, of "snd st"] by simp
  show ?case unfolding walk_children.simps
    by (rule gives_bind [OF "3.hyps"(1) [OF v(1,2) "3.prems"(2,3)]])
      (use children in \<open>fastforce intro: gives_mono simp del: node_block.simps node_sites.simps simp: add.assoc\<close>)
qed simp_all
section \<open>The strings block\<close>

definition sites_of :: "ustring \<Rightarrow> (ustring \<times> nat) list \<Rightarrow> nat list" where
  "sites_of n sites = map snd (filter (\<lambda>p. fst p = n) sites)"

lemma sites_of_simps [simp]:
  "sites_of n [] = []" "sites_of n (p # xs) = (if fst p = n then snd p # sites_of n xs else sites_of n xs)"
  "sites_of n (xs @ ys) = sites_of n xs @ sites_of n ys"
  by (simp_all add: sites_of_def)

definition patch :: "nat \<Rightarrow> nat list \<Rightarrow> bytes \<Rightarrow> bytes" where
  "patch x refs bs = fold (\<lambda>ref bs. overwrite bs (ref + 4) (u32 (int x))) refs bs"

lemma patch_simps [simp]:
  "patch x [] bs = bs" "patch x (r # rs) bs = patch x rs (overwrite bs (r + 4) (u32 (int x)))"
  "patch x (rs @ rs') bs = patch x rs' (patch x rs bs)"
  by (simp_all add: patch_def)

definition retargets :: "ustring \<Rightarrow> nat \<Rightarrow> (ustring \<Rightarrow> nat) \<Rightarrow> (ustring \<Rightarrow> nat) \<Rightarrow> bool" where
  "retargets n x f g \<longleftrightarrow> g = f(n := x)"

lemma patch_property:
  "retargets n x f g \<Longrightarrow>
   overwrite (pre @ property_block f n p @ post) (length pre + 8) (u32 (int x)) = pre @ property_block g n p @ post"
  by (simp add: property_block_def overwrite_def retargets_def)

lemma property_block_other: "retargets n x f g \<Longrightarrow> name \<noteq> n \<Longrightarrow> property_block g name p = property_block f name p"
  by (simp add: property_block_def retargets_def)

lemma patch_properties:
  "retargets n x f g \<Longrightarrow> patch x (sites_of n (property_sites (length pre) es)) (pre @ properties_block f es @ post) =
     pre @ properties_block g es @ post"
proof (induction es arbitrary: pre rule: entries_valid.induct)
  case (2 name p es)
  have l: "length (property_block g name p) = length (property_block (\<lambda>_. 0) name p)" by (rule length_property_block)
  show ?case
    using "2.IH" [of "pre @ property_block g name p"] l patch_property [of n x f g pre p] property_block_other [of n x f g name p] "2.prems"
    by (cases "name = n") (simp_all add: add.assoc)
qed simp_all

lemma patch_nodes:
  "retargets n x f g \<Longrightarrow> patch x (sites_of n (node_sites (length pre) es name)) (pre @ node_block f es name @ post) =
     pre @ node_block g es name @ post"
  "retargets n x f g \<Longrightarrow> patch x (sites_of n (children_sites (length pre) es)) (pre @ children_block f es @ post) =
     pre @ children_block g es @ post"
proof (induction f es name and f es arbitrary: pre post and pre post rule: node_block_children_block.induct)
  case (1 f es name)
  let ?a = "pre @ node_name_block name"
  have l: "length (properties_block g es) = length (properties_block (\<lambda>_. 0) es)" by (rule length_properties_block)
  show ?case
    using patch_properties [of n x f g ?a es "children_block f es @ u32 FDT_END_NODE @ post"]
      "1.IH" [of "?a @ properties_block g es" "u32 FDT_END_NODE @ post"] l "1.prems"
    by (simp add: add.assoc)
next
  case (3 f name child es)
  have l: "length (node_block g child name) = length (node_block (\<lambda>_. 0) child name)" by (rule length_node_block)
  show ?case
    using "3.IH"(1) [of pre "children_block f es @ post"] "3.IH"(2) [of "pre @ node_block g child name" post] l "3.prems"
    by (simp del: node_block.simps node_sites.simps)
qed simp_all

lemma property_sites_bound:
  "(n, r) \<in> set (property_sites k es) \<Longrightarrow> r + 8 \<le> k + length (properties_block (\<lambda>_. 0) es)"
proof (induction es arbitrary: k rule: entries_valid.induct)
  case (2 name p es)
  have "12 \<le> length (property_block (\<lambda>_. 0) name p)" by (simp add: property_block_def)
  with 2 show ?case by fastforce
qed simp_all

lemma node_sites_bound:
  "(n, r) \<in> set (node_sites k es name) \<Longrightarrow> r + 8 \<le> k + length (node_block f es name)"
  "(n, r) \<in> set (children_sites k es) \<Longrightarrow> r + 8 \<le> k + length (children_block f es)"
proof (induction f es name and f es arbitrary: k and k rule: node_block_children_block.induct)
  case (1 f es name)
  then show ?case
    using property_sites_bound [of n r "k + length (node_name_block name)" es] length_properties_block [of f es] by fastforce
next
  case (3 f name child es)
  then show ?case using length_node_block(1) [of f child name]
    by (fastforce simp del: node_block.simps node_sites.simps)
qed simp_all

lemma node_sites_names: "map fst (node_sites k es name) = node_names es" "map fst (children_sites k es) = children_names es"
proof -
  have p: "map fst (property_sites k es) = property_names es" for k es
    by (induction es arbitrary: k rule: entries_valid.induct) simp_all
  show "map fst (node_sites k es name) = node_names es" "map fst (children_sites k es) = children_names es"
    by (induction k es name and k es rule: node_sites_children_sites.induct) (simp_all add: p)
qed

lemma patch_refs_holds:
  "holds bs b \<Longrightarrow> (\<And>r. r \<in> set refs \<Longrightarrow> r + 8 \<le> length bs) \<Longrightarrow> gives (patch_refs refs x b) (holds (patch x refs bs))"
proof (induction refs arbitrary: bs b)
  case (Cons r refs)
  have f: "field_at Property 0 ''nameoff'' = Some (4, Scalar U32BE)" by (simp add: Property_def)
  have r: "r + 8 \<le> length bs" using Cons.prems(2) by simp
  have "gives (patch_refs refs x b') (holds (patch x (r # refs) bs))" if "holds (overwrite bs (r + 4) (u32 (int x))) b'" for b'
    using Cons.IH [OF that] Cons.prems(2) r by (simp add: length_overwrite)
  moreover have "gives (Some (alloc_set_field b Property r ''nameoff'' (Num (int x)))) (holds (overwrite bs (r + 4) (u32 (int x))))"
    using set_field_holds [OF Cons.prems(1) f, of r "int x"] r by simp
  ultimately show ?case unfolding patch_refs.simps by (blast intro: gives_bind)
qed simp

lemma write_strings_holds:
  assumes "\<And>k refs. (k, refs) \<in> set kvs \<Longrightarrow> refs = sites_of k (node_sites (length pre) es name)"
    and "holds (pre @ node_block f es name @ post) b" "start \<le> length (pre @ node_block f es name @ post)"
  shows "gives (write_strings start kvs b) (holds (pre @
    node_block (name_offsets (length (pre @ node_block f es name @ post) - start) (map fst kvs) f) es name @ post @ strings_block (map fst kvs)))"
  using assms
proof (induction kvs arbitrary: f post b)
  case Nil
  then show ?case by (simp add: strings_block_def)
next
  case (Cons kv kvs)
  obtain k refs where kv: "kv = (k, refs)" by (cases kv)
  let ?n = "node_block f es name" and ?m = "length (pre @ node_block f es name @ post) - start"
  define g where "g = f(k := ?m)"
  have refs: "refs = sites_of k (node_sites (length pre) es name)" using Cons.prems(1) kv by simp
  have l: "length (node_block g es name) = length ?n" using length_node_block(1) by metis
  have app: "gives (append_bytes b k) (holds (pre @ ?n @ post @ k))" using append_holds [OF Cons.prems(2), of k] by simp
  have nul: "gives (bytes_put b1 (Scalar U8) (Num 0)) (holds (pre @ ?n @ post @ k @ [0]))" if "holds (pre @ ?n @ post @ k) b1" for b1
  proof -
    have "scalar_encode U8 0 = [0]" by code_simp
    then show ?thesis using put_holds [OF that, of "Scalar U8" "Num 0"] by (simp del: node_block.simps)
  qed
  have pat: "gives (patch_refs refs ?m b2) (holds (pre @ node_block g es name @ post @ k @ [0]))"
    if "holds (pre @ ?n @ post @ k @ [0]) b2" for b2
  proof -
    have "r + 8 \<le> length (pre @ ?n @ post @ k @ [0])" if "r \<in> set refs" for r
      using that node_sites_bound(1) [of k r "length pre" es name f] by (auto simp: refs sites_of_def simp del: node_block.simps node_sites.simps)
    then show ?thesis using patch_refs_holds [OF that, of refs ?m] patch_nodes(1) [of k ?m f g pre es name] by (simp only: refs retargets_def g_def)
  qed
  have rest: "gives (write_strings start kvs b3) (holds (pre @
    node_block (name_offsets ?m (map fst (kv # kvs)) f) es name @ post @ strings_block (map fst (kv # kvs))))"
    if "holds (pre @ node_block g es name @ post @ k @ [0]) b3" for b3
  proof -
    let ?x = "pre @ node_block g es name @ post @ k @ [0]"
    have len: "length ?x - start = ?m + Suc (length k)" using Cons.prems(3) l by (simp del: node_block.simps)
    have "gives (write_strings start kvs b3) (holds (pre @ node_block (name_offsets (length ?x - start) (map fst kvs) g) es name @
        (post @ k @ [0]) @ strings_block (map fst kvs)))"
      using Cons.prems(1,3) l that by (intro Cons.IH) (simp_all del: node_block.simps node_sites.simps)
    then show ?thesis unfolding len by (simp add: kv strings_block_def g_def del: node_block.simps)
  qed
  have "bb_length b = length (pre @ ?n @ post)" by (rule holds_length [OF Cons.prems(2)])
  then show ?case
    unfolding kv write_strings.simps
    by (simp only:) (intro gives_bind [OF app] gives_bind [OF nul] gives_bind [OF pat] rest [unfolded kv])
qed
lemma object_entries_keys:
  "map fst (object_entries kvs) = sort_key (\<lambda>k. the (index_key k)) (filter (\<lambda>k. index_key k \<noteq> None) (map fst kvs)) @
     filter (\<lambda>k. index_key k = None) (map fst kvs)"
proof -
  have insort: "map fst (insort_key (\<lambda>kv. f (fst kv)) x xs) = insort_key f (fst x) (map fst xs)" for f :: "ustring \<Rightarrow> nat" and x :: "ustring \<times> 'a" and xs
    by (induction xs) auto
  have "map fst (sort_key (\<lambda>kv. f (fst kv)) xs) = sort_key f (map fst xs)" for f :: "ustring \<Rightarrow> nat" and xs :: "(ustring \<times> 'a) list"
    by (induction xs) (simp_all add: insort)
  then show ?thesis by (simp add: object_entries_def filter_map o_def)
qed

lemma object_entries_set: "set (object_entries kvs) = set kvs"
  by (auto simp: object_entries_def)

lemma push_own_keys: "map fst (push_own n r s) = (if n \<in> fst ` set s then map fst s else map fst s @ [n])"
  by (induction n r s rule: push_own.induct) auto

lemma push_own_entry:
  "distinct (map fst s) \<Longrightarrow> (k, refs) \<in> set (push_own n r s) \<Longrightarrow>
   k \<noteq> n \<and> (k, refs) \<in> set s \<or> k = n \<and> (\<exists>old. (n, old) \<in> set s \<and> refs = old @ [r]) \<or> k = n \<and> n \<notin> fst ` set s \<and> refs = [r]"
proof (induction n r s rule: push_own.induct)
  case (2 name ref k' refs' kvs)
  show ?case
  proof (cases "k' = name")
    case True
    then have "name \<notin> fst ` set kvs" using "2.prems"(1) by auto
    with True "2.prems"(2) show ?thesis by (auto simp: image_iff)
  next
    case False
    with 2 show ?thesis by auto
  qed
qed simp

lemma push_all_entries:
  "map fst (push_all sites []) = rev (remdups (rev (map fst sites)))"
  "(k, refs) \<in> set (push_all sites []) \<Longrightarrow> refs = sites_of k sites"
proof (induction sites arbitrary: k refs rule: rev_induct)
  case (snoc p sites)
  obtain n r where p: "p = (n, r)" by (cases p)
  let ?s = "push_all sites []"
  have keys: "fst ` set ?s = fst ` set sites" using arg_cong [OF snoc.IH(1), of set] by simp
  {
    case 1
    show ?case using snoc.IH(1) keys by (simp add: p push_own_keys image_iff)
  next
    case 2
    have "distinct (map fst ?s)" using snoc.IH(1) by simp
    with 2 have "k \<noteq> n \<and> (k, refs) \<in> set ?s \<or> k = n \<and> (\<exists>old. (n, old) \<in> set ?s \<and> refs = old @ [r]) \<or>
        k = n \<and> n \<notin> fst ` set sites \<and> refs = [r]"
      using push_own_entry [of ?s k refs n r] keys by (simp add: p)
    moreover have "sites_of n sites = []" if "n \<notin> fst ` set sites"
      using that by (auto simp: sites_of_def filter_empty_conv image_iff)
    ultimately show ?case using snoc.IH(2) by (auto simp: p)
  }
qed simp_all

lemma strings_keys: "map fst (object_entries (push_all sites [])) = key_order (map fst sites)"
proof -
  have "map fst (map (\<lambda>k. (k, ())) ks) = ks" for ks :: "ustring list" by (simp add: o_def)
  then show ?thesis unfolding key_order_def object_entries_keys push_all_entries(1) by simp
qed

text \<open>The offsets of the specification lead to the names.\<close>

lemma name_offsets_other: "k \<notin> set ks \<Longrightarrow> name_offsets n ks f k = f k"
  by (induction n ks f rule: name_offsets.induct) auto

lemma name_offset_finds:
  "distinct ks \<Longrightarrow> k \<in> set ks \<Longrightarrow> \<exists>rest. drop (name_offsets n ks f k - n) (strings_block ks) = k @ 0 # rest \<and> n \<le> name_offsets n ks f k"
proof (induction n ks f rule: name_offsets.induct)
  case (2 n k' ks f)
  show ?case
  proof (cases "k = k'")
    case True
    then show ?thesis using "2.prems" by (simp add: name_offsets_other strings_block_def)
  next
    case False
    with 2 obtain rest where r: "drop (name_offsets (n + Suc (length k')) ks (f(k' := n)) k - (n + Suc (length k'))) (strings_block ks) = k @ 0 # rest"
      "n + Suc (length k') \<le> name_offsets (n + Suc (length k')) ks (f(k' := n)) k" by (auto simp: fun_upd_def)
    then obtain m where "name_offsets (n + Suc (length k')) ks (f(k' := n)) k = n + Suc (length k') + m" by (metis le_iff_add)
    with r have "drop (name_offsets n (k' # ks) f k - n) (strings_block (k' # ks)) = k @ 0 # rest"
      by (simp add: strings_block_def)
    with r(2) show ?thesis by auto
  qed
qed simp

section \<open>The header\<close>

definition words :: "int list \<Rightarrow> bytes" where
  "words ws = concat (map u32 ws)"

lemma length_words [simp]: "length (words ws) = 4 * length ws"
  by (induction ws) (simp_all add: words_def)

lemma words_update: "i < length ws \<Longrightarrow> overwrite (words ws @ rest) (4 * i) (u32 v) = words (ws[i := v]) @ rest"
  using overwrite_element [of i ws u32 4 "[]" rest v] by (simp add: words_def)

lemma set_header_holds:
  assumes "holds (words ws @ rest) b" "length ws = 10" "field_at FdtHeader 0 k = Some (4 * i, Scalar U32BE)" "i < 10"
  shows "gives (set_header 0 k v b) (holds (words (ws[i := int v]) @ rest))"
  using set_field_holds [OF assms(1,3), of 0 "int v"] assms(2,4) words_update [of i ws rest "int v"] by (simp add: set_header_def)

lemma put_reservations_holds:
  "holds bs b \<Longrightarrow> gives (put_reservations rs b)
     (holds (bs @ concat (map (\<lambda>(address, len). scalar_encode U64BE address @ scalar_encode U64BE len) rs)))"
proof (induction rs arbitrary: bs b)
  case (Cons r rs)
  obtain a l where r: "r = (a, l)" by (cases r)
  have e: "ty_encode (Struct FdtReserveEntry) (Obj [(''address'', Num a), (''size'', Num l)]) =
      Inr (scalar_encode U64BE a @ scalar_encode U64BE l)"
    by (simp add: struct_encode FdtReserveEntry_def)
  have "gives (put_reservations rs b') (holds ((bs @ scalar_encode U64BE a @ scalar_encode U64BE l) @
      concat (map (\<lambda>(address, len). scalar_encode U64BE address @ scalar_encode U64BE len) rs)))"
    if "holds (bs @ scalar_encode U64BE a @ scalar_encode U64BE l) b'" for b' by (rule Cons.IH [OF that])
  with put_holds [OF Cons.prems e] show ?case unfolding r put_reservations.simps
    by (auto intro!: gives_bind)
qed simp
lemma assign_holds:
  assumes "holds (words ws @ rest) b" "length ws = 10" "field_at FdtHeader 0 k = Some (4 * i, Scalar U32BE)" "i < 10"
    and "\<And>b'. holds (words (ws[i := v]) @ rest) b' \<Longrightarrow> gives (Some (alloc_set b' (Struct FdtHeader) 0 (Obj kvs))) Q"
  shows "gives (Some (alloc_set b (Struct FdtHeader) 0 (Obj ((k, Num v) # kvs)))) Q"
proof -
  have "length (words ws @ rest) \<le> length (bb_array b)"
    using holds_length [OF assms(1)] assms(1) by (simp add: holds_def growable_def bytes_ok_def)
  then have "alloc_set b (Struct FdtHeader) 0 (Obj ((k, Num v) # kvs)) =
      alloc_set (b\<lparr>bb_array := overwrite (bb_array b) (0 + 4 * i) (u32 v)\<rparr>) (Struct FdtHeader) 0 (Obj kvs)"
    using assms by (intro alloc_set_field_step) simp_all
  moreover have "holds (words (ws[i := v]) @ rest) (b\<lparr>bb_array := overwrite (bb_array b) (0 + 4 * i) (u32 v)\<rparr>)"
    using holds_overwrite [OF assms(1), of "4 * i" "u32 v"] assms(2,4) words_update [of i ws rest v] by simp
  ultimately show ?thesis using assms(5) by simp
qed

lemma assign_done: "holds bs b \<Longrightarrow> gives (Some (alloc_set b (Struct fs) 0 (Obj []))) (holds bs)"
  by (simp add: alloc_set_def whole_view_def)

lemma fdt_header_fields:
  "field_at FdtHeader 0 ''magic'' = Some (4 * 0, Scalar U32BE)"
  "field_at FdtHeader 0 ''totalsize'' = Some (4 * 1, Scalar U32BE)"
  "field_at FdtHeader 0 ''off_dt_struct'' = Some (4 * 2, Scalar U32BE)"
  "field_at FdtHeader 0 ''off_dt_strings'' = Some (4 * 3, Scalar U32BE)"
  "field_at FdtHeader 0 ''off_mem_rsvmap'' = Some (4 * 4, Scalar U32BE)"
  "field_at FdtHeader 0 ''version'' = Some (4 * 5, Scalar U32BE)"
  "field_at FdtHeader 0 ''last_comp_version'' = Some (4 * 6, Scalar U32BE)"
  "field_at FdtHeader 0 ''boot_cpuid_phys'' = Some (4 * 7, Scalar U32BE)"
  "field_at FdtHeader 0 ''size_dt_strings'' = Some (4 * 8, Scalar U32BE)"
  "field_at FdtHeader 0 ''size_dt_struct'' = Some (4 * 9, Scalar U32BE)"
  by (simp_all add: FdtHeader_def)

lemma fresh_header_holds:
  "gives (map_option Inr (bytes_alloc (new_bytes 1024) (Struct FdtHeader))) (\<lambda>(off, b). off = 0 \<and> holds (words (replicate 10 0) @ []) b)"
proof -
  have h: "holds [] (new_bytes 1024)" by (simp add: holds_def new_bytes_growable)
  have "replicate n (0 :: byte) @ replicate m 0 = replicate (n + m) 0" for n m by (simp add: replicate_add)
  then have "words (replicate 10 0) = replicate 40 0" by (simp add: words_def eval_nat_numeral(3) zeros_u32 [symmetric] numeral_eq_Suc)
  then show ?thesis using alloc_holds [OF h, of "Struct FdtHeader"] by (simp add: FdtHeader_def)
qed

lemma header_assigned:
  assumes "holds (words (replicate 10 0) @ []) b"
  shows "gives (Some (alloc_set b (Struct FdtHeader) 0 (Obj [(''magic'', Num FDT_MAGIC), (''version'', Num 17),
      (''last_comp_version'', Num 16), (''boot_cpuid_phys'', Num cpu)])))
    (holds (words [FDT_MAGIC, 0, 0, 0, 0, 17, 16, cpu, 0, 0] @ []))"
  by (rule assign_holds [OF assms _ fdt_header_fields(1)], simp, simp, rule assign_holds [OF _ _ fdt_header_fields(6)], assumption,
      simp, simp, rule assign_holds [OF _ _ fdt_header_fields(7)], assumption, simp, simp,
      rule assign_holds [OF _ _ fdt_header_fields(8)], assumption, simp, simp, rule assign_done)
    (simp add: numeral_eq_Suc)
text \<open>The two halves of the program: up to the structure block, and from there to the end.\<close>

lemma reservations_holds:
  assumes "holds (words [FDT_MAGIC, 0, 0, 0, 0, 17, 16, cpu, 0, 0] @ []) b1"
    and k: "\<And>b5. holds (words [FDT_MAGIC, 0, 0, 0, 40, 17, 16, cpu, 0, 0] @ reservations_block rs) b5 \<Longrightarrow> gives (k b5) Q"
  shows "gives (bindR (align 8 b1) (\<lambda>b2. bindR (set_header 0 ''off_mem_rsvmap'' (bb_length b2) b2) (\<lambda>b3.
      bindR (put_reservations rs b3) (\<lambda>b4.
      bindR (bytes_put b4 (Struct FdtReserveEntry) (Obj [(''address'', Num 0), (''size'', Num 0)])) k)))) Q"
proof -
  let ?w = "words [FDT_MAGIC, 0, 0, 0, 0, 17, 16, cpu, 0, 0]" and ?v = "words [FDT_MAGIC, 0, 0, 0, 40, 17, 16, cpu, 0, 0]"
  let ?r = "concat (map (\<lambda>(address, len). scalar_encode U64BE address @ scalar_encode U64BE len) rs)"
  have a: "gives (align 8 b1) (holds (?w @ []))" using align_holds [OF _ assms(1), of 8] by (simp add: padding_none)
  have h: "gives (set_header 0 ''off_mem_rsvmap'' (bb_length b2) b2) (holds ?v)" if "holds (?w @ []) b2" for b2
    using set_header_holds [OF that _ fdt_header_fields(5), of "bb_length b2"] holds_length [OF that] by (simp add: numeral_eq_Suc)
  have e: "ty_encode (Struct FdtReserveEntry) (Obj [(''address'', Num 0), (''size'', Num 0)]) =
      Inr (scalar_encode U64BE 0 @ scalar_encode U64BE 0)"
    by (simp add: struct_encode FdtReserveEntry_def)
  have z: "gives (bytes_put b4 (Struct FdtReserveEntry) (Obj [(''address'', Num 0), (''size'', Num 0)])) (holds (?v @ reservations_block rs))"
    if "holds (?v @ ?r) b4" for b4 using put_holds [OF that e] by (simp add: reservations_block_def)
  show ?thesis by (intro gives_bind [OF a] gives_bind [OF h] gives_bind [OF put_reservations_holds] gives_bind [OF z] k)
qed

lemma strings_holds:
  fixes rs tree cpu
  defines "r \<equiv> reservations_block rs" and "sites \<equiv> node_sites (40 + length (reservations_block rs)) tree []"
  defines "z \<equiv> node_block (\<lambda>_. 0) tree [] @ u32 FDT_END"
  assumes "holds (words [FDT_MAGIC, 0, int n, 0, 40, 17, 16, cpu, 0, 0] @ r @ z) b8" "n = 40 + length r"
  shows "gives (bindR (set_header 0 ''size_dt_struct'' (bb_length b8 - n) b8) (\<lambda>b9.
     bindR (set_header 0 ''off_dt_strings'' (bb_length b9) b9) (\<lambda>b10.
     bindR (write_strings (bb_length b10) (object_entries (push_all sites [])) b10) (\<lambda>b11.
     bindR (set_header 0 ''size_dt_strings'' (bb_length b11 - bb_length b10) b11) (\<lambda>b12.
     bindR (set_header 0 ''totalsize'' (bb_length b12) b12) (\<lambda>b13. Some (Inr (bytes_array b13))))))))
    (\<lambda>bs. bs = fdt_blob tree rs cpu)"
proof -
  let ?m = "n + length z"
  define ks where "ks = key_order (node_names tree)"
  define f where "f = name_offsets 0 ks (\<lambda>_. 0)"
  define s where "s = node_block f tree [] @ u32 FDT_END"
  define w where "w = (\<lambda>total strings size_strings size_struct. words [FDT_MAGIC, total, int n, strings, 40, 17, 16, cpu, size_strings, size_struct])"
  have len: "length s = length z" using length_node_block(1) [of f tree "[]"] by (simp add: z_def s_def del: node_block.simps)
  have lw: "length (w a b c d) = 40" for a b c d by (simp add: w_def)
  have p1: "gives (set_header 0 ''size_dt_struct'' (bb_length b8 - n) b8) (holds (w 0 0 0 (int (length z)) @ r @ z))"
    using set_header_holds [OF assms(4) _ fdt_header_fields(10), of "bb_length b8 - n"] holds_length [OF assms(4)] assms(5)
    by (simp add: numeral_eq_Suc w_def)
  have p2: "gives (set_header 0 ''off_dt_strings'' (bb_length b9) b9) (holds (w 0 (int ?m) 0 (int (length z)) @ r @ z))"
    if "holds (w 0 0 0 (int (length z)) @ r @ z) b9" for b9
    using set_header_holds [OF that [unfolded w_def] _ fdt_header_fields(4), of "bb_length b9"] holds_length [OF that] assms(5)
    by (simp add: numeral_eq_Suc w_def)
  have p3: "gives (write_strings (bb_length b10) (object_entries (push_all sites [])) b10)
      (holds (w 0 (int ?m) 0 (int (length z)) @ r @ s @ strings_block ks))" (is ?strings)
    and l3: "bb_length b10 = ?m" if "holds (w 0 (int ?m) 0 (int (length z)) @ r @ z) b10" for b10
  proof -
    let ?pre = "w 0 (int ?m) 0 (int (length z)) @ r"
    have sites: "sites = node_sites (length ?pre) tree []" by (simp add: sites_def r_def lw)
    have keys: "map fst (object_entries (push_all sites [])) = ks"
      unfolding strings_keys sites_def node_sites_names ks_def ..
    show l: "bb_length b10 = ?m" using holds_length [OF that] by (simp add: lw assms(5))
    let ?os = "object_entries (push_all sites [])" and ?x = "?pre @ node_block (\<lambda>_. 0) tree [] @ u32 FDT_END"
    have h: "holds ?x b10" using that by (simp only: z_def append_assoc)
    have refs: "refs = sites_of k (node_sites (length ?pre) tree [])" if "(k, refs) \<in> set ?os" for k refs
      using push_all_entries(2) that unfolding object_entries_set sites by blast
    have "gives (write_strings (bb_length b10) ?os b10) (holds (?pre @
        node_block (name_offsets (length ?x - bb_length b10) (map fst ?os) (\<lambda>_. 0)) tree [] @ u32 FDT_END @ strings_block (map fst ?os)))"
      by (rule write_strings_holds [OF refs h]) (simp_all only: holds_length [OF h] le_refl)
    then show ?strings unfolding keys s_def f_def by (simp only: holds_length [OF h] diff_self_eq_0 append_assoc)
  qed
  have p4: "gives (set_header 0 ''size_dt_strings'' (bb_length b11 - bb_length b10) b11)
      (holds (w 0 (int ?m) (int (length (strings_block ks))) (int (length z)) @ r @ s @ strings_block ks))"
    if "holds (w 0 (int ?m) 0 (int (length z)) @ r @ s @ strings_block ks) b11" "bb_length b10 = ?m" for b10 b11
    using set_header_holds [OF that(1) [unfolded w_def] _ fdt_header_fields(9), of "bb_length b11 - bb_length b10"]
      holds_length [OF that(1)] that(2) assms(5) len
    by (simp add: numeral_eq_Suc w_def del: node_block.simps)
  have blob: "fdt_blob tree rs cpu = words [FDT_MAGIC, int (n + length s + length (strings_block ks)), int n, int (n + length s),
      40, 17, 16, cpu, int (length (strings_block ks)), int (length s)] @ r @ s @ strings_block ks"
    unfolding fdt_blob_def Let_def words_def assms(5) r_def by (simp only: s_def [symmetric] f_def [symmetric] ks_def [symmetric] append_assoc)
  have p5: "gives (set_header 0 ''totalsize'' (bb_length b12) b12) (holds (fdt_blob tree rs cpu))"
    if "holds (w 0 (int ?m) (int (length (strings_block ks))) (int (length z)) @ r @ s @ strings_block ks) b12" for b12
    using set_header_holds [OF that [unfolded w_def] _ fdt_header_fields(2), of "bb_length b12"] holds_length [OF that] assms(5) len
    by (simp add: numeral_eq_Suc w_def blob add.assoc)
  show ?thesis
    by (rule gives_bind [OF p1], rule gives_bind [OF p2], assumption, rule gives_bind [OF p3], assumption,
        rule gives_bind [OF p4], assumption, erule l3, rule gives_bind [OF p5], assumption) (simp add: holds_def)
qed
lemma generate_devicetree_blob:
  assumes "entries_valid tree"
  shows "generate_devicetree tree rs cpu = Some (Inr (fdt_blob tree rs cpu))"
proof -
  let ?w = "\<lambda>n. words [FDT_MAGIC, 0, int n, 0, 40, 17, 16, cpu, 0, 0]" and ?r = "reservations_block rs"
  let ?n = "40 + length ?r"
  have offset: "gives (set_header 0 ''off_dt_struct'' (bb_length b5) b5) (holds (?w ?n @ ?r))" if "holds (?w 0 @ ?r) b5" for b5
    using set_header_holds [OF that _ fdt_header_fields(3), of "bb_length b5"] holds_length [OF that] by (simp add: numeral_eq_Suc)
  have aligned: "4 dvd length (?w ?n @ ?r)"
    by (simp add: reservations_block_def length_concat o_def case_prod_beta sum_list_triv)
  have walked: "gives (walk_tree tree [] (b6, [])) (\<lambda>(b7, strings). holds (?w ?n @ ?r @ node_block (\<lambda>_. 0) tree []) b7 \<and>
      strings = push_all (node_sites ?n tree []) [])" if "holds (?w ?n @ ?r) b6" for b6
    using walk_holds(1) [OF assms _ that aligned, of "[]" "[]"] by (simp del: node_block.simps node_sites.simps)
  have len: "length (?w ?n @ ?r) = ?n" by simp
  have finish: "gives (put_u32 FDT_END b7) (holds (?w ?n @ ?r @ node_block (\<lambda>_. 0) tree [] @ u32 FDT_END))"
    if "holds (?w ?n @ ?r @ node_block (\<lambda>_. 0) tree []) b7" for b7
    using put_u32_holds [OF that] by (simp del: node_block.simps)
  have "gives (generate_devicetree tree rs cpu) (\<lambda>bs. bs = fdt_blob tree rs cpu)"
    unfolding generate_devicetree_def
    by (rule gives_bind [OF fresh_header_holds], clarify, rule gives_bind [OF header_assigned], assumption,
        rule reservations_holds, assumption, rule gives_bind [OF offset], simp, rule gives_bind [OF walked], assumption, clarify,
        rule gives_bind [OF finish], assumption, simp only: holds_length [of "?w ?n @ ?r"] len) (rule strings_holds; simp only:)
  then show ?thesis by (simp add: gives_def)
qed
section \<open>Properties\<close>

text \<open>
  C30: The generated device tree is the specified one.  For every tree whose names the format allows, \<open>generate_devicetree\<close>
  returns, and the bytes it has assembled by appending, aligning and patching are exactly the blob that the pure
  specification gives for the tree: the header with every offset and size, the reservations, the structure block in which
  every property carries the offset of its name, and the strings block with every name once.
\<close>
theorem devicetree_refines_specification:
  assumes "entries_valid tree"
  shows "generate_devicetree tree rs cpu = Some (Inr (fdt_blob tree rs cpu))"
  using assms by (rule generate_devicetree_blob)

theorem devicetree_refines_specification_witness:
  "let tree = [([114, 101, 103], DT_Prop (DT_Array [1, 2])), ([99, 104], DT_Node [([114, 101, 103], DT_Prop (DT_String [104, 105]))])]
   in entries_valid tree \<and> generate_devicetree tree [] 0 = Some (Inr (fdt_blob tree [] 0))"
proof -
  have "entries_valid [([114, 101, 103], DT_Prop (DT_Array [1, 2])), ([99, 104], DT_Node [([114, 101, 103], DT_Prop (DT_String [104, 105]))])]"
    by code_simp
  then show ?thesis using devicetree_refines_specification by (simp only: Let_def)
qed
end
