(* ===== verification/Bus.thy ===== *)
theory Bus
  imports Virtio_Device Device_Tree
begin

text \<open>
  The bus of \<open>packages/kernel/src/virtio/bus.ts\<close>: the devices of a machine in device-tree order, their description for the
  kernel, and the import table through which the kernel reaches them.  A device is its virtio id and its state.
\<close>

section \<open>Description\<close>

type_synonym bus = "(nat \<times> virtio_device) list"

definition virtio_node :: "nat \<Rightarrow> nat \<times> virtio_device \<Rightarrow> ustring \<times> dt_item" where
  "virtio_node i dev = (case dev of (vid, d) \<Rightarrow> (ascii (''virtio'' @ decimal i), DT_Node
     [(ascii ''compatible'', DT_Prop (DT_String (ascii ''virtio,wasm''))),
      (ascii ''host-id'', DT_Prop (DT_Number (int i))),
      (ascii ''virtio-device-id'', DT_Prop (DT_Number (int vid))),
      (ascii ''features'', DT_Prop (DT_BigInt (int (vd_features d)))),
      (ascii ''config'', DT_Prop (DT_Buffer (vd_config d)))]))"

definition describe :: "bus \<Rightarrow> dt_entries" where
  "describe devices = map (\<lambda>(i, dev). virtio_node i dev) (enumerate 0 devices)"

section \<open>The import table\<close>

text \<open>\<open>attach\<close> connects the devices in order; one that refuses ends it.\<close>

fun bus_attach :: "bus \<Rightarrow> bus \<times> unit result" where
  "bus_attach [] = ([], Inr ())"
| "bus_attach ((vid, d) # devices) = (case attach False d of
       (d', Inl e) \<Rightarrow> ((vid, d') # devices, Inl e)
     | (d', Inr _) \<Rightarrow> (case bus_attach devices of (devices', r) \<Rightarrow> ((vid, d') # devices', r)))"

definition bus_at :: "nat \<Rightarrow> bus \<Rightarrow> (nat \<times> virtio_device) result" where
  "bus_at dev devices = (if dev < length devices then Inr (devices ! dev) else Inl (Error (''no virtio device '' @ decimal dev)))"

definition bus_call :: "nat \<Rightarrow> (virtio_device \<Rightarrow> virtio_device \<times> 'r result) \<Rightarrow> bus \<Rightarrow> bus \<times> 'r result" where
  "bus_call dev f devices = (case bus_at dev devices of
       Inl e \<Rightarrow> (devices, Inl e)
     | Inr (vid, d) \<Rightarrow> (case f d of (d', r) \<Rightarrow> (devices[dev := (vid, d')], r)))"

text \<open>\<open>n >>> 0\<close>.\<close>

definition to_uint32 :: "int \<Rightarrow> nat" where
  "to_uint32 n = nat (n mod 2 ^ 32)"

definition bus_set_features :: "nat \<Rightarrow> nat \<Rightarrow> bus \<Rightarrow> bus \<times> unit result" where
  "bus_set_features dev features = bus_call dev (set_features features)"

definition bus_setup :: "nat \<Rightarrow> nat \<Rightarrow> int \<Rightarrow> int \<Rightarrow> bus \<Rightarrow> bus \<times> unit result" where
  "bus_setup dev config_irq config_addr config_len = bus_call dev (setup_config config_irq (to_uint32 config_addr) (to_uint32 config_len))"

definition bus_enable_vring :: "nat \<Rightarrow> nat \<Rightarrow> nat \<Rightarrow> int \<Rightarrow> nat \<Rightarrow> bus \<Rightarrow> bus \<times> unit result" where
  "bus_enable_vring dev vq n desc_addr irq = bus_call dev (enable_queue vq n (to_uint32 desc_addr) irq)"

definition bus_disable_vring :: "nat \<Rightarrow> nat \<Rightarrow> bus \<Rightarrow> bus \<times> unit result" where
  "bus_disable_vring dev vq = bus_call dev (\<lambda>d. (disable_queue vq d, Inr ()))"

definition bus_notify :: "nat \<Rightarrow> nat \<Rightarrow> bus \<Rightarrow> bus \<times> unit result" where
  "bus_notify dev vq = bus_call dev (\<lambda>d. (notify vq d, Inr ()))"

text \<open>\<open>reset\<close>: the work the device's promise waits for.  When it has settled, the word the guest sleeps on is set.\<close>

definition bus_reset :: "nat \<Rightarrow> bus \<Rightarrow> bus \<times> work list result" where
  "bus_reset dev = bus_call dev (\<lambda>d. case guest_reset d of (d', ws) \<Rightarrow> (d', Inr ws))"

definition reset_finished :: "int \<Rightarrow> bytes \<Rightarrow> bytes result" where
  "reset_finished done_addr mem =
     (if done_addr = 0 then Inr mem
      else if to_uint32 done_addr mod 4 \<noteq> 0 then Inl (RangeError ''start offset of Int32Array should be a multiple of 4'')
      else if to_uint32 done_addr + 4 > length mem then Inl (RangeError ''invalid typed array length'')
      else Inr (overwrite mem (to_uint32 done_addr) (le_bytes 4 1)))"

text \<open>\<open>close\<close>, from how the shutdowns of the devices settled.\<close>

fun bus_close :: "unit result list \<Rightarrow> unit result" where
  "bus_close [] = Inr ()"
| "bus_close (Inl e # rs) = Inl e"
| "bus_close (Inr _ # rs) = bus_close rs"

section \<open>Facts\<close>

lemma decimal_length: "n < 10 ^ Suc k \<Longrightarrow> length (decimal n) \<le> Suc k"
proof (induction n arbitrary: k rule: decimal.induct)
  case (1 n)
  show ?case
  proof (cases "n < 10")
    case True
    then show ?thesis by (simp add: decimal.simps)
  next
    case False
    then obtain k' where k: "k = Suc k'" using "1.prems" by (cases k) auto
    then have "n div 10 < 10 ^ Suc k'" using "1.prems" by (simp add: less_mult_imp_div_less mult.commute)
    with "1.IH" [OF False] k show ?thesis using False by (simp add: decimal.simps [of n])
  qed
qed

lemma virtio_node_valid: "i < 10 ^ 25 \<Longrightarrow> entries_valid (virtio_node i dev # es) \<longleftrightarrow> entries_valid es"
proof -
  assume "i < 10 ^ 25"
  then have "length (decimal i) \<le> 25" using decimal_length [of i 24] by simp
  moreover have "entries_valid [(ascii ''compatible'', DT_Prop a), (ascii ''host-id'', DT_Prop b), (ascii ''virtio-device-id'', DT_Prop c),
      (ascii ''features'', DT_Prop d), (ascii ''config'', DT_Prop e)]" for a b c d e
    unfolding entries_valid.simps by code_simp
  ultimately show ?thesis by (simp add: virtio_node_def ascii_def NODE_NAME_MAX_LEN_def split: prod.splits)
qed

lemma describe_valid: "k + length devices < 10 ^ 25 \<Longrightarrow> entries_valid (map (\<lambda>(i, dev). virtio_node i dev) (enumerate k devices))"
proof (induction devices arbitrary: k)
  case (Cons dev devices)
  then show ?case using virtio_node_valid [of k dev] by simp
qed simp

text \<open>Whatever devices a machine has, their description makes a device tree.\<close>

lemma described_bus_generates:
  "length devices < 10 ^ 25 \<Longrightarrow> generate_devicetree (describe devices) rs cpu = Some (Inr (fdt_blob (describe devices) rs cpu))"
  using describe_valid [of 0 devices] by (intro generate_devicetree_blob) (simp add: describe_def)

lemma bus_call_other: "bus_call dev f devices = (devices', r) \<Longrightarrow> i \<noteq> dev \<Longrightarrow> devices' ! i = devices ! i"
  by (auto simp: bus_call_def bus_at_def split: if_splits prod.splits)

lemma bus_call_ids: "bus_call dev f devices = (devices', r) \<Longrightarrow> map fst devices' = map fst devices"
  by (auto simp: bus_call_def bus_at_def map_update split: if_splits prod.splits) (metis fst_conv list_update_id map_update nth_map)

end
