(* ===== verification/Guest_Abi.thy ===== *)
theory Guest_Abi
  imports Struct_Encoding
begin

text \<open>
  The kernel ABI of the guest, \<open>packages/linux-guest/src/abi.ts\<close>: the constant tables with the checks generated from them, the
  layouts of \<open>struct stat64\<close> and \<open>struct linux_dirent64\<close>, wait statuses, errors and the parser of \<open>getdents64\<close> buffers.
  A table is the list of its entries; a wait status is the 32-bit word the bitwise operators work on.
\<close>

unbundle bit_operations_syntax

section \<open>Check tables\<close>

record scalar_check =
  sc_c :: string
  sc_value :: int

record field_check =
  fc_c :: string
  fc_offset :: nat
  fc_size :: "nat option"

record struct_check =
  st_c :: string
  st_sizeof :: "nat option"
  st_fields :: "field_check list"

type_synonym table = "(string \<times> int) list"

definition scalar_group :: "string \<Rightarrow> table \<Rightarrow> scalar_check list" where
  "scalar_group prefix entries = map (\<lambda>(key, v). \<lparr>sc_c = prefix @ key, sc_value = v\<rparr>) entries"

text \<open>The loop of \<open>define_struct\<close>: the fields from one on, and the offset behind the last.\<close>

fun field_checks :: "layout \<Rightarrow> nat \<Rightarrow> field_check list \<times> nat" where
  "field_checks [] offset = ([], offset)"
| "field_checks ((key, t) # fs) offset = (case field_checks fs (offset + ty_size t) of
     (checks, n) \<Rightarrow> (\<lparr>fc_c = key, fc_offset = offset, fc_size = Some (ty_size t)\<rparr> # checks, n))"

definition define_struct :: "string \<Rightarrow> layout \<Rightarrow> bool \<Rightarrow> struct_check \<times> nat" where
  "define_struct c_type fs assert_sizeof = (case field_checks fs 0 of
     (checks, n) \<Rightarrow> (\<lparr>st_c = c_type, st_sizeof = (if assert_sizeof then Some n else None), st_fields = checks\<rparr>, n))"

section \<open>Constants\<close>

definition NR :: table where
  "NR = [(''umount2'', 39), (''mount'', 40), (''openat'', 56), (''close'', 57), (''read'', 63), (''write'', 64), (''llseek'', 62),
     (''fstatat64'', 79), (''ftruncate64'', 46), (''fsync'', 82), (''getdents64'', 61), (''mkdirat'', 34), (''unlinkat'', 35),
     (''renameat'', 38), (''symlinkat'', 36), (''readlinkat'', 78), (''fchmodat'', 53), (''fchownat'', 54), (''kill'', 129),
     (''getpid'', 172)]"

definition O_flags :: table where
  "O_flags = [(''RDONLY'', 0), (''WRONLY'', 1), (''RDWR'', 2), (''CREAT'', 64), (''EXCL'', 128), (''TRUNC'', 512), (''APPEND'', 1024),
     (''NONBLOCK'', 2048), (''DIRECTORY'', 65536), (''CLOEXEC'', 524288), (''PATH'', 2097152)]"

definition AT_flags :: table where
  "AT_flags = [(''FDCWD'', - 100), (''SYMLINK_NOFOLLOW'', 256), (''REMOVEDIR'', 512)]"

definition MountFlags :: table where
  "MountFlags = [(''RDONLY'', 1), (''BIND'', 4096), (''REC'', 16384)]"

definition UnmountFlags :: table where
  "UnmountFlags = [(''FORCE'', 1), (''DETACH'', 2)]"

definition S_IF :: table where
  "S_IF = [(''MT'', 61440), (''REG'', 32768), (''DIR'', 16384), (''LNK'', 40960)]"

definition DT :: table where
  "DT = [(''REG'', 8), (''DIR'', 4), (''LNK'', 10)]"

definition E_numbers :: table where
  "E_numbers = [(''PERM'', 1), (''NOENT'', 2), (''SRCH'', 3), (''INTR'', 4), (''IO'', 5), (''2BIG'', 7), (''BADF'', 9), (''AGAIN'', 11),
     (''NOMEM'', 12), (''ACCES'', 13), (''BUSY'', 16), (''EXIST'', 17), (''XDEV'', 18), (''NOTDIR'', 20), (''ISDIR'', 21), (''INVAL'', 22),
     (''NOSPC'', 28), (''ROFS'', 30), (''PIPE'', 32), (''NAMETOOLONG'', 36), (''NOSYS'', 38), (''NOTEMPTY'', 39), (''LOOP'', 40),
     (''PROTO'', 71), (''OVERFLOW'', 75), (''CONNRESET'', 104), (''ALREADY'', 114)]"

definition SIG :: table where
  "SIG = [(''HUP'', 1), (''INT'', 2), (''QUIT'', 3), (''KILL'', 9), (''USR1'', 10), (''USR2'', 12), (''TERM'', 15)]"

text \<open>\<open>table.key\<close>, for the keys of the table.\<close>

definition entry :: "table \<Rightarrow> string \<Rightarrow> int" where
  "entry t k = the (map_of t k)"

text \<open>\<open>errno_names.get\<close>: \<open>new Map\<close> keeps the last of equal keys.\<close>

definition errno_name :: "int \<Rightarrow> string option" where
  "errno_name errno = map_option (\<lambda>n. ''E'' @ n) (map_of (map (\<lambda>(n, v). (v, n)) (rev E_numbers)) errno)"

section \<open>Errors\<close>

record system_error =
  se_message :: string
  se_code :: "string option"

definition signed_decimal :: "int \<Rightarrow> string" where
  "signed_decimal n = (if n < 0 then ''-'' @ decimal (nat (- n)) else decimal (nat n))"

definition SystemError :: "int \<Rightarrow> system_error" where
  "SystemError errno = \<lparr>se_message = (case errno_name errno of Some code \<Rightarrow> code | None \<Rightarrow> ''E'' @ signed_decimal errno),
     se_code = errno_name errno\<rparr>"

section \<open>Layouts\<close>

definition Stat :: layout where
  "Stat = [(''st_dev'', Scalar U64LE), (''st_ino'', Scalar U64LE), (''st_mode'', Scalar U32LE), (''st_nlink'', Scalar U32LE),
     (''st_uid'', Scalar U32LE), (''st_gid'', Scalar U32LE), (''st_rdev'', Scalar U64LE), (''__pad1'', Scalar U64LE),
     (''st_size'', Scalar I64LE), (''st_blksize'', Scalar I32LE), (''__pad2'', Scalar I32LE), (''st_blocks'', Scalar I64LE),
     (''st_atime'', Scalar I32LE), (''st_atime_nsec'', Scalar U32LE), (''st_mtime'', Scalar I32LE), (''st_mtime_nsec'', Scalar U32LE),
     (''st_ctime'', Scalar I32LE), (''st_ctime_nsec'', Scalar U32LE), (''__unused4'', Scalar U32LE), (''__unused5'', Scalar U32LE)]"

definition stat_check :: "struct_check \<times> nat" where
  "stat_check = define_struct ''struct stat64'' Stat True"

definition stat_size :: nat where
  "stat_size = snd stat_check"

definition Dirent :: layout where
  "Dirent = [(''d_ino'', Scalar U64LE), (''d_off'', Scalar I64LE), (''d_reclen'', Scalar U16LE), (''d_type'', Scalar U8)]"

definition dirent_name_offset :: nat where
  "dirent_name_offset = snd (define_struct ''struct dirent'' Dirent False)"

definition dirent_check :: struct_check where
  "dirent_check = (let check = fst (define_struct ''struct dirent'' Dirent False)
     in check\<lparr>st_fields := st_fields check @ [\<lparr>fc_c = ''d_name'', fc_offset = dirent_name_offset, fc_size = None\<rparr>]\<rparr>)"

section \<open>Wait statuses\<close>

definition WIFEXITED :: "32 word \<Rightarrow> bool" where
  "WIFEXITED status \<longleftrightarrow> status AND 0x7f = 0"

definition WEXITSTATUS :: "32 word \<Rightarrow> 32 word" where
  "WEXITSTATUS status = drop_bit 8 (status AND 0xff00)"

definition WIFSIGNALED :: "32 word \<Rightarrow> bool" where
  "WIFSIGNALED status \<longleftrightarrow> (status AND 0xffff) - 1 < 0xff"

definition WTERMSIG :: "32 word \<Rightarrow> 32 word" where
  "WTERMSIG status = status AND 0x7f"

section \<open>Directory entries\<close>

text \<open>The walk from an offset; the entries found before an error are dropped with it.\<close>

lemma dirent_name_offset_eq [simp]: "dirent_name_offset = 19"
  by (simp add: dirent_name_offset_def define_struct_def Dirent_def)

function parse_dirents_from :: "bytes \<Rightarrow> nat \<Rightarrow> (ustring \<times> nat) list result" where
  "parse_dirents_from buf offset =
     (if offset + dirent_name_offset \<le> length buf then
        let header = whole_view (drop offset buf)
        in bindE (get_num Dirent header ''d_reclen'') (\<lambda>reclen.
           if reclen < dirent_name_offset \<or> offset + reclen > length buf then Inl (ProtocolError ''malformed getdents64 record'')
           else
             bindE (get_num Dirent header ''d_type'') (\<lambda>dtype.
             case utf8_decode_fatal (takeWhile (\<lambda>b. b \<noteq> 0) (subarray buf (offset + dirent_name_offset) (offset + reclen))) of
               None \<Rightarrow> Inl (TypeError ''the encoded data was not valid'')
             | Some name \<Rightarrow>
                 bindE (parse_dirents_from buf (offset + reclen)) (\<lambda>rest.
                 Inr (if name \<noteq> [46] \<and> name \<noteq> [46, 46] then (name, dtype) # rest else rest))))
      else Inr [])"
  by auto
termination
  by (relation "measure (\<lambda>(buf, offset). length buf - offset)") auto

declare parse_dirents_from.simps [simp del]

definition parse_dirents :: "bytes \<Rightarrow> (ustring \<times> nat) list result" where
  "parse_dirents buf = parse_dirents_from buf 0"

section \<open>The aggregate schema\<close>

definition abi_scalars :: "scalar_check list" where
  "abi_scalars = scalar_group ''__NR_'' NR @ scalar_group ''O_'' O_flags @ scalar_group ''AT_'' AT_flags @ scalar_group ''MS_'' MountFlags @
     scalar_group ''MNT_'' UnmountFlags @ scalar_group ''S_IF'' S_IF @ scalar_group ''DT_'' DT @ scalar_group ''E'' E_numbers @
     scalar_group ''SIG'' SIG"

definition abi_structs :: "struct_check list" where
  "abi_structs = [fst stat_check, dirent_check]"

section \<open>The checks describe the layouts\<close>

lemma field_checks_total: "snd (field_checks fs offset) = offset + layout_size fs"
  by (induction fs arbitrary: offset) (auto split: prod.splits simp: case_prod_beta)

lemma field_checks_at:
  "distinct (map fst fs) \<Longrightarrow> ck \<in> set (fst (field_checks fs offset)) \<longleftrightarrow>
     (\<exists>t. field_at fs offset (fc_c ck) = Some (fc_offset ck, t) \<and> fc_size ck = Some (ty_size t))"
proof (induction fs arbitrary: offset)
  case (Cons f fs)
  obtain k t where f: "f = (k, t)" by (cases f)
  have none: "field_at fs off k' = None" if "k' \<notin> fst ` set fs" for off k'
    using that by (induction fs arbitrary: off) auto
  have "ck \<in> set (fst (field_checks (f # fs) offset)) \<longleftrightarrow>
      ck = \<lparr>fc_c = k, fc_offset = offset, fc_size = Some (ty_size t)\<rparr> \<or> ck \<in> set (fst (field_checks fs (offset + ty_size t)))"
    by (simp add: f case_prod_beta)
  also have "\<dots> \<longleftrightarrow> (\<exists>t'. field_at (f # fs) offset (fc_c ck) = Some (fc_offset ck, t') \<and> fc_size ck = Some (ty_size t'))"
    using Cons none [of k "offset + ty_size t"] by (cases ck) (auto simp: f)
  finally show ?case .
qed simp

text \<open>The numbers the guest toolchain asserts are the offsets and sizes the reader uses.\<close>

lemma struct_checks_exact:
  "ck \<in> set (st_fields (fst (define_struct c fs b))) \<longleftrightarrow>
     (\<exists>t. field_at fs 0 (fc_c ck) = Some (fc_offset ck, t) \<and> fc_size ck = Some (ty_size t))"
  "snd (define_struct c fs b) = layout_size fs" if "distinct (map fst fs)"
  using field_checks_at [OF that] field_checks_total [of fs 0] by (simp_all add: define_struct_def case_prod_beta)

lemma stat_layout: "stat_size = 104" "field_at Stat 0 ''st_size'' = Some (48, Scalar I64LE)"
  by (simp_all add: stat_size_def stat_check_def define_struct_def Stat_def)

text \<open>Every errno of the table has its own name.\<close>

lemma errno_name_table: "list_all (\<lambda>(n, v). errno_name v = Some (''E'' @ n)) E_numbers"
  by code_simp

section \<open>Wait statuses\<close>

lemma unat_take_bit_mod: "unat (take_bit n w) = unat w mod 2 ^ n" for w :: "'a :: len word"
  by (simp only: unsigned_take_bit_eq) (simp only: take_bit_eq_mod)

lemma wait_status_numbers:
  "WIFEXITED status \<longleftrightarrow> unat status mod 128 = 0"
  "unat (WEXITSTATUS status) = unat status div 256 mod 256"
  "WIFSIGNALED status \<longleftrightarrow> 0 < unat status mod 65536 \<and> unat status mod 65536 < 256"
  "unat (WTERMSIG status) = unat status mod 128"
proof -
  have m7: "status AND 0x7f = take_bit 7 status" by (simp add: take_bit_eq_mask mask_eq_exp_minus_1)
  have m16: "status AND 0xffff = take_bit 16 status" by (simp add: take_bit_eq_mask mask_eq_exp_minus_1)
  show "unat (WTERMSIG status) = unat status mod 128" by (simp add: WTERMSIG_def m7 unat_take_bit_mod)
  have "WIFEXITED status \<longleftrightarrow> unat (take_bit 7 status) = 0" unfolding WIFEXITED_def m7 by (simp only: unat_eq_zero)
  then show "WIFEXITED status \<longleftrightarrow> unat status mod 128 = 0" by (simp add: unat_take_bit_mod)
  have "drop_bit 8 (status AND 0xff00) = take_bit 8 (drop_bit 8 status)"
    by (simp add: drop_bit_and take_bit_eq_mask mask_eq_exp_minus_1)
  then show "unat (WEXITSTATUS status) = unat status div 256 mod 256"
    by (simp only: WEXITSTATUS_def unat_take_bit_mod unat_drop_bit_eq) (simp add: drop_bit_eq_div)
  define l where "l = take_bit 16 status"
  have l: "unat l = unat status mod 65536" by (simp add: l_def unat_take_bit_mod)
  have "unat l < 65536" using l by simp
  have "l - 1 < 0xff \<longleftrightarrow> 0 < unat l \<and> unat l < 256"
  proof (cases "l = 0")
    case False
    then have "unat (l - 1) = unat l - 1" by (simp add: unat_minus_one)
    moreover have "0 < unat l" using False by (simp add: unat_gt_0)
    ultimately show ?thesis by (auto simp: word_less_nat_alt)
  qed simp
  then show "WIFSIGNALED status \<longleftrightarrow> 0 < unat status mod 65536 \<and> unat status mod 65536 < 256"
    by (simp add: WIFSIGNALED_def m16 l_def [symmetric] l)
qed

text \<open>A status is an exit, a death by signal, or neither (stopped or continued), never two of them.\<close>

lemma wait_status_exclusive: "\<not> (WIFEXITED status \<and> WIFSIGNALED status \<and> WTERMSIG status \<noteq> 0)"
  by (auto simp: WIFEXITED_def WTERMSIG_def)

section \<open>Directory entries\<close>

text \<open>A record as \<open>getdents64\<close> writes it, with \<open>pad\<close> bytes behind the terminated name.\<close>

record dir_entry =
  de_ino :: nat
  de_off :: int
  de_type :: nat
  de_name :: ustring
  de_pad :: bytes

definition dirent_length :: "dir_entry \<Rightarrow> nat" where
  "dirent_length d = 20 + length (de_name d) + length (de_pad d)"

definition dirent_header :: "dir_entry \<Rightarrow> bytes" where
  "dirent_header d = scalar_encode U64LE (int (de_ino d)) @ scalar_encode I64LE (de_off d) @
     scalar_encode U16LE (int (dirent_length d)) @ scalar_encode U8 (int (de_type d))"

definition dirent_bytes :: "dir_entry \<Rightarrow> bytes" where
  "dirent_bytes d = dirent_header d @ de_name d @ 0 # de_pad d"

definition dirent_valid :: "dir_entry \<Rightarrow> bool" where
  "dirent_valid d \<longleftrightarrow> de_type d < 256 \<and> 0 \<notin> set (de_name d) \<and> utf8_decode_fatal (de_name d) = Some (de_name d) \<and> dirent_length d < 65536"

definition visible :: "dir_entry \<Rightarrow> bool" where
  "visible d \<longleftrightarrow> de_name d \<noteq> [46] \<and> de_name d \<noteq> [46, 46]"

lemma dirent_header_fields:
  "encode_fields Dirent [(''d_ino'', Num (int (de_ino d))), (''d_off'', Num (de_off d)), (''d_reclen'', Num (int (dirent_length d))),
     (''d_type'', Num (int (de_type d)))] = Inr (dirent_header d)"
  by (simp add: Dirent_def dirent_header_def)

lemma length_dirent_header [simp]: "length (dirent_header d) = 19"
  by (simp add: dirent_header_def)

lemma dirent_reads:
  assumes "dirent_valid d"
  shows "get_num Dirent (whole_view (dirent_header d @ rest)) ''d_reclen'' = Inr (dirent_length d)"
    and "get_num Dirent (whole_view (dirent_header d @ rest)) ''d_type'' = Inr (de_type d)"
proof -
  have "field_at Dirent 0 ''d_reclen'' = Some (16, Scalar U16LE)" "field_at Dirent 0 ''d_type'' = Some (18, Scalar U8)"
    "distinct (map fst Dirent)" by (simp_all add: Dirent_def)
  with assms show "get_num Dirent (whole_view (dirent_header d @ rest)) ''d_reclen'' = Inr (dirent_length d)"
    "get_num Dirent (whole_view (dirent_header d @ rest)) ''d_type'' = Inr (de_type d)"
    using get_num_encoded [OF dirent_header_fields] by (simp_all add: scalar_range_def dirent_valid_def)
qed

lemma parse_dirents_from_bytes:
  "list_all dirent_valid ds \<Longrightarrow> parse_dirents_from (pre @ concat (map dirent_bytes ds)) (length pre) =
     Inr (map (\<lambda>d. (de_name d, de_type d)) (filter visible ds))"
proof (induction ds arbitrary: pre)
  case Nil
  then show ?case by (simp add: parse_dirents_from.simps)
next
  case (Cons d ds)
  define buf where "buf = pre @ concat (map dirent_bytes (d # ds))"
  have v: "dirent_valid d" using Cons.prems by simp
  have len: "length (dirent_bytes d) = dirent_length d" by (simp add: dirent_bytes_def dirent_length_def)
  have name: "takeWhile (\<lambda>b. b \<noteq> 0) (subarray buf (length pre + 19) (length pre + dirent_length d)) = de_name d"
  proof -
    have "\<forall>b \<in> set (de_name d). b \<noteq> 0" using v by (auto simp: dirent_valid_def)
    then show ?thesis by (simp add: buf_def subarray_def dirent_bytes_def dirent_length_def takeWhile_append2 takeWhile_tail)
  qed
  have rest: "parse_dirents_from buf (length pre + dirent_length d) = Inr (map (\<lambda>d. (de_name d, de_type d)) (filter visible ds))"
    using Cons.IH [of "pre @ dirent_bytes d"] Cons.prems len by (simp add: buf_def)
  have "drop (length pre) buf = dirent_header d @ (de_name d @ 0 # de_pad d) @ concat (map dirent_bytes ds)"
    by (simp add: buf_def dirent_bytes_def)
  moreover have "length pre + 19 \<le> length buf" "length pre + dirent_length d \<le> length buf" "19 \<le> dirent_length d"
    using len by (simp_all add: buf_def dirent_length_def)
  moreover have "utf8_decode_fatal (de_name d) = Some (de_name d)" using v by (simp add: dirent_valid_def)
  ultimately have "parse_dirents_from buf (length pre) = Inr (map (\<lambda>d. (de_name d, de_type d)) (filter visible (d # ds)))"
    using v by (subst parse_dirents_from.simps) (simp add: dirent_reads name rest visible_def Let_def)
  then show ?case by (simp only: buf_def)
qed

section \<open>Properties\<close>

text \<open>
  The bit tests on a wait status agree with its definition.  Read as numbers, \<open>WIFEXITED\<close> holds when the low seven bits are zero,
  \<open>WEXITSTATUS\<close> is the second byte, \<open>WIFSIGNALED\<close> holds when the low half word is between 1 and 255, whose subtraction in the source
  relies on the wrap-around at zero, and \<open>WTERMSIG\<close> is the low seven bits.
\<close>
theorem wait_status_equivalence:
  "WIFEXITED status = (unat status mod 128 = 0) \<and> unat (WEXITSTATUS status) = unat status div 256 mod 256 \<and>
   WIFSIGNALED status = (unat status mod 65536 \<in> {1..255}) \<and> unat (WTERMSIG status) = unat status mod 128"
  using wait_status_numbers [of status] by auto

text \<open>
  C33: Reading a directory returns its entries.  A buffer of any number of \<open>getdents64\<close> records, with any padding, is parsed to
  exactly the names and types of its records in order, without the entries for the directory itself and its parent.
\<close>
theorem dirents_roundtrip:
  assumes "list_all dirent_valid ds"
  shows "parse_dirents (concat (map dirent_bytes ds)) = Inr (map (\<lambda>d. (de_name d, de_type d)) (filter visible ds))"
  using parse_dirents_from_bytes [OF assms, of "[]"] by (simp add: parse_dirents_def)

theorem dirents_roundtrip_witness:
  "let ds = [\<lparr>de_ino = 2, de_off = 1, de_type = 4, de_name = [46], de_pad = [0, 0, 0]\<rparr>,
             \<lparr>de_ino = 9, de_off = 2, de_type = 8, de_name = [97, 98], de_pad = []\<rparr>]
   in list_all dirent_valid ds \<and> parse_dirents (concat (map dirent_bytes ds)) = Inr [([97, 98], 8)]"
proof -
  have v: "list_all dirent_valid [\<lparr>de_ino = 2, de_off = 1, de_type = 4, de_name = [46], de_pad = [0, 0, 0]\<rparr>,
             \<lparr>de_ino = 9, de_off = 2, de_type = 8, de_name = [97, 98], de_pad = []\<rparr>]"
    by (simp add: dirent_valid_def dirent_length_def utf8_decode_fatal_def strip_bom_def)
  then show ?thesis using dirents_roundtrip [OF v] by (simp add: Let_def visible_def)
qed
end
