(* ===== verification/Syscalls.thy ===== *)
theory Syscalls
  imports Buffer_Logic Guest_Abi
begin

text \<open>
  The guest system calls of \<open>packages/linux-guest/src/syscalls.ts\<close>: how a request is written on a lane, how its reply is read, and the
  table of calls.  A lane is serial and has no frames, so the reader has to consume exactly the bytes the agent sent; a
  lane at rest is the stream of bytes that will arrive on it.  A failed call throws \<open>Errno\<close>, which is \<open>SystemError\<close>.
\<close>

unbundle bit_operations_syntax

section \<open>Wire types\<close>

definition CHUNK :: nat where "CHUNK = 32 * 1024"
definition MAX_BLOB :: nat where "MAX_BLOB = 128 * 1024"

definition REQ_SYSCALL :: int where "REQ_SYSCALL = 1"
definition REQ_SPAWN :: int where "REQ_SPAWN = 2"
definition REQ_REAP :: int where "REQ_REAP = 3"

definition ARG_SCALAR :: int where "ARG_SCALAR = 0"
definition ARG_IN :: int where "ARG_IN = 1"
definition ARG_OUT_FULL :: int where "ARG_OUT_FULL = 2"
definition ARG_OUT_RET :: int where "ARG_OUT_RET = 3"

definition SyscallReq :: layout where
  "SyscallReq = [(''kind'', Scalar U8), (''nr'', Scalar U32LE), (''arg_kinds'', FixedArray (Scalar U8) 6),
     (''arg_values'', FixedArray (Scalar U64LE) 6)]"

definition ReplyHead :: layout where
  "ReplyHead = [(''ret'', Scalar I64LE), (''errno'', Scalar U32LE)]"

definition SpawnReply :: layout where
  "SpawnReply = [(''pid'', Scalar U32LE), (''stdin'', Scalar U32LE), (''stdout'', Scalar U32LE), (''stderr'', Scalar U32LE)]"

text \<open>\<open>GuestFd\<close>: the descriptor, and whether its close has been issued; every later close returns the same promise.\<close>

record guest_fd =
  gf_fd :: nat
  gf_path :: "ustring option"
  gf_close_issued :: bool

definition new_guest_fd :: "nat \<Rightarrow> ustring option \<Rightarrow> guest_fd" where
  "new_guest_fd fd path = \<lparr>gf_fd = fd, gf_path = path, gf_close_issued = False\<rparr>"

datatype arg = Num_Arg int | Fd_Arg nat | In_Arg bytes | Out_Arg nat bool

record out_spec =
  os_capacity :: nat
  os_ret_sized :: bool

section \<open>Requests\<close>

text \<open>\<open>head.value.k[i] = v\<close>: the array is frozen, so an index outside of it cannot be added.\<close>

definition assign_element :: "layout \<Rightarrow> nat \<Rightarrow> string \<Rightarrow> nat \<Rightarrow> int \<Rightarrow> bytebuf \<Rightarrow> bytebuf result" where
  "assign_element fs head k i v b = (case field_at fs 0 k of
       Some (off, FixedArray t n) \<Rightarrow>
         if i < n then bindE (array_assign t (whole_view (bb_array b)) (head + off) i (Num v)) (\<lambda>(buf, _). Inr (b\<lparr>bb_array := buf\<rparr>))
         else Inl (TypeError ''cannot add property, object is not extensible'')
     | _ \<Rightarrow> Inl (TypeError ''cannot set properties of undefined''))"

definition set_arg :: "nat \<Rightarrow> int \<Rightarrow> int \<Rightarrow> bytebuf \<Rightarrow> bytebuf result option" where
  "set_arg i kind v b = Some (bindE (assign_element SyscallReq 0 ''arg_kinds'' i kind b) (assign_element SyscallReq 0 ''arg_values'' i v))"

definition write_arg :: "nat \<Rightarrow> arg \<Rightarrow> bytebuf \<times> out_spec list \<Rightarrow> (bytebuf \<times> out_spec list) result option" where
  "write_arg i a st = (case st of (b, outs) \<Rightarrow> (case a of
       Num_Arg n \<Rightarrow> bindR (set_arg i ARG_SCALAR (n mod 2 ^ 64) b) (\<lambda>b1. Some (Inr (b1, outs)))
     | Fd_Arg fd \<Rightarrow> bindR (set_arg i ARG_SCALAR (int fd mod 2 ^ 64) b) (\<lambda>b1. Some (Inr (b1, outs)))
     | In_Arg bs \<Rightarrow>
         if length bs > MAX_BLOB then Some (Inl (RangeError ''in-blob exceeds MAX_BLOB''))
         else bindR (set_arg i ARG_IN (int (length bs)) b) (\<lambda>b1. bindR (append_bytes b1 bs) (\<lambda>b2. Some (Inr (b2, outs))))
     | Out_Arg capacity ret_sized \<Rightarrow>
         if capacity > MAX_BLOB then Some (Inl (RangeError ''out capacity exceeds MAX_BLOB''))
         else bindR (set_arg i (if ret_sized then ARG_OUT_RET else ARG_OUT_FULL) (int capacity) b) (\<lambda>b1.
           Some (Inr (b1, outs @ [\<lparr>os_capacity = capacity, os_ret_sized = ret_sized\<rparr>])))))"

fun write_args :: "nat \<Rightarrow> arg list \<Rightarrow> bytebuf \<times> out_spec list \<Rightarrow> (bytebuf \<times> out_spec list) result option" where
  "write_args i [] st = Some (Inr st)"
| "write_args i (a # as) st = bindR (write_arg i a st) (write_args (Suc i) as)"

definition syscall_request :: "int \<Rightarrow> arg list \<Rightarrow> (bytes \<times> out_spec list) result option" where
  "syscall_request nr args =
     bindR (map_option Inr (bytes_alloc (new_bytes (layout_size SyscallReq)) (Struct SyscallReq))) (\<lambda>(head, b0).
     bindR (Some (alloc_set_field b0 SyscallReq head ''kind'' (Num REQ_SYSCALL))) (\<lambda>b1.
     bindR (Some (alloc_set_field b1 SyscallReq head ''nr'' (Num nr))) (\<lambda>b2.
     bindR (write_args 0 args (b2, [])) (\<lambda>(b3, outs). Some (Inr (bytes_array b3, outs))))))"

section \<open>Replies\<close>

text \<open>\<open>lane.read(n)\<close> on the bytes that arrive: short of them, the connection was closed.\<close>

definition lane_read :: "nat \<Rightarrow> bytes \<Rightarrow> (bytes \<times> bytes) result" where
  "lane_read n stream =
     (if n \<le> length stream then Inr (take n stream, drop n stream) else Inl (ProtocolError ''guest connection closed mid-message''))"

text \<open>A field of a struct that may be negative.\<close>

definition get_int :: "layout \<Rightarrow> dataview \<Rightarrow> string \<Rightarrow> int result" where
  "get_int fs dv k = bindE (get_field fs dv k) (\<lambda>v. case v of Num n \<Rightarrow> Inr n | _ \<Rightarrow> Inl (TypeError ''not a number''))"

definition read_reply_head :: "bytes \<Rightarrow> ((int \<times> int) \<times> bytes) result" where
  "read_reply_head stream = bindE (lane_read (layout_size ReplyHead) stream) (\<lambda>(bs, rest).
     bindE (get_int ReplyHead (whole_view bs) ''ret'') (\<lambda>ret.
     bindE (get_int ReplyHead (whole_view bs) ''errno'') (\<lambda>errno. Inr ((ret, errno), rest))))"

definition out_length :: "int \<Rightarrow> out_spec \<Rightarrow> nat" where
  "out_length ret spec = (if os_ret_sized spec then min (os_capacity spec) (nat (max 0 ret)) else os_capacity spec)"

fun read_outs :: "int \<Rightarrow> out_spec list \<Rightarrow> bytes \<Rightarrow> (bytes list \<times> bytes) result" where
  "read_outs ret [] stream = Inr ([], stream)"
| "read_outs ret (spec # specs) stream =
     bindE (lane_read (out_length ret spec) stream) (\<lambda>(bs, rest).
     bindE (read_outs ret specs rest) (\<lambda>(out, rest'). Inr (bs # out, rest')))"

definition syscall_reply :: "out_spec list \<Rightarrow> bytes \<Rightarrow> ((int \<times> int \<times> bytes list) \<times> bytes) result" where
  "syscall_reply outs stream = bindE (read_reply_head stream) (\<lambda>((ret, errno), rest).
     if ret = -1 then Inr ((ret, errno, []), rest)
     else bindE (read_outs ret outs rest) (\<lambda>(out, rest'). Inr ((ret, errno, out), rest')))"

text \<open>After the exchange: an errno is thrown outside of it, so that it does not poison the session.\<close>

definition syscall_result :: "int \<times> int \<times> bytes list \<Rightarrow> (int \<times> bytes list) result" where
  "syscall_result r = (case r of (ret, errno, out) \<Rightarrow> if ret = -1 then Inl (Errno errno) else Inr (ret, out))"

section \<open>The table\<close>

text \<open>A call is its number, its arguments, and what it makes of the result.\<close>

type_synonym 'a call = "int \<times> arg list \<times> (int \<times> bytes list \<Rightarrow> 'a result)"

definition c_string :: "ustring \<Rightarrow> arg" where
  "c_string s = In_Arg (s @ [0])"

definition nullable_c_string :: "ustring option \<Rightarrow> arg" where
  "nullable_c_string s = (case s of None \<Rightarrow> Num_Arg 0 | Some t \<Rightarrow> c_string t)"

abbreviation FDCWD :: arg where
  "FDCWD \<equiv> Num_Arg (entry AT_flags ''FDCWD'')"

definition no_result :: "int \<times> bytes list \<Rightarrow> unit result" where
  "no_result r = Inr ()"

definition openat :: "ustring \<Rightarrow> int \<Rightarrow> int \<Rightarrow> guest_fd call" where
  "openat path flags mode = (entry NR ''openat'', [FDCWD, c_string path, Num_Arg flags, Num_Arg mode],
     \<lambda>(ret, out). Inr (new_guest_fd (nat ret) (Some path)))"

text \<open>\<open>out[0]!\<close>: the reply has one entry per out argument.\<close>

definition sys_read :: "guest_fd \<Rightarrow> nat \<Rightarrow> bytes call" where
  "sys_read fd capacity = (entry NR ''read'', [Fd_Arg (gf_fd fd), Out_Arg capacity True, Num_Arg (int capacity)], \<lambda>(ret, out). Inr (out ! 0))"

definition sys_write :: "guest_fd \<Rightarrow> bytes \<Rightarrow> int call" where
  "sys_write fd data = (entry NR ''write'', [Fd_Arg (gf_fd fd), In_Arg data, Num_Arg (int (length data))], \<lambda>(ret, out). Inr ret)"

definition llseek :: "guest_fd \<Rightarrow> int \<Rightarrow> int \<Rightarrow> int call" where
  "llseek fd offset whence = (let off = offset mod 2 ^ 64 in
     (entry NR ''llseek'', [Fd_Arg (gf_fd fd), Num_Arg (drop_bit 32 off), Num_Arg (off AND 0xffffffff), Out_Arg 8 False, Num_Arg whence],
      \<lambda>(ret, out). scalar_get I64LE (whole_view (out ! 0)) 0))"

definition ftruncate64 :: "guest_fd \<Rightarrow> int \<Rightarrow> unit call" where
  "ftruncate64 fd n = (let len = n mod 2 ^ 64 in
     (entry NR ''ftruncate64'', [Fd_Arg (gf_fd fd), Num_Arg (len AND 0xffffffff), Num_Arg (drop_bit 32 len)], no_result))"

definition fsync :: "guest_fd \<Rightarrow> unit call" where
  "fsync fd = (entry NR ''fsync'', [Fd_Arg (gf_fd fd)], no_result)"

definition getdents64 :: "guest_fd \<Rightarrow> nat \<Rightarrow> bytes call" where
  "getdents64 fd capacity = (entry NR ''getdents64'', [Fd_Arg (gf_fd fd), Out_Arg capacity True, Num_Arg (int capacity)], \<lambda>(ret, out). Inr (out ! 0))"

definition fstatat64 :: "ustring \<Rightarrow> int \<Rightarrow> val call" where
  "fstatat64 path flags = (entry NR ''fstatat64'', [FDCWD, c_string path, Out_Arg stat_size False, Num_Arg flags],
     \<lambda>(ret, out). Inr (Inst (whole_view (out ! 0)) Stat))"

definition mkdirat :: "ustring \<Rightarrow> int \<Rightarrow> unit call" where
  "mkdirat path mode = (entry NR ''mkdirat'', [FDCWD, c_string path, Num_Arg mode], no_result)"

definition unlinkat :: "ustring \<Rightarrow> int \<Rightarrow> unit call" where
  "unlinkat path flags = (entry NR ''unlinkat'', [FDCWD, c_string path, Num_Arg flags], no_result)"

definition renameat :: "ustring \<Rightarrow> ustring \<Rightarrow> unit call" where
  "renameat source target = (entry NR ''renameat'', [FDCWD, c_string source, FDCWD, c_string target], no_result)"

definition symlinkat :: "ustring \<Rightarrow> ustring \<Rightarrow> unit call" where
  "symlinkat target path = (entry NR ''symlinkat'', [c_string target, FDCWD, c_string path], no_result)"

definition readlinkat :: "ustring \<Rightarrow> nat \<Rightarrow> bytes call" where
  "readlinkat path capacity = (entry NR ''readlinkat'', [FDCWD, c_string path, Out_Arg capacity True, Num_Arg (int capacity)], \<lambda>(ret, out). Inr (out ! 0))"

definition fchmodat :: "ustring \<Rightarrow> int \<Rightarrow> unit call" where
  "fchmodat path mode = (entry NR ''fchmodat'', [FDCWD, c_string path, Num_Arg mode, Num_Arg 0], no_result)"

definition fchownat :: "ustring \<Rightarrow> int \<Rightarrow> int \<Rightarrow> unit call" where
  "fchownat path uid gid = (entry NR ''fchownat'', [FDCWD, c_string path, Num_Arg uid, Num_Arg gid, Num_Arg 0], no_result)"

definition sys_mount :: "ustring option \<Rightarrow> ustring \<Rightarrow> ustring option \<Rightarrow> int \<Rightarrow> ustring option \<Rightarrow> unit call" where
  "sys_mount source target type flags data =
     (entry NR ''mount'', [nullable_c_string source, c_string target, nullable_c_string type, Num_Arg flags, nullable_c_string data], no_result)"

definition umount2 :: "ustring \<Rightarrow> int \<Rightarrow> unit call" where
  "umount2 target flags = (entry NR ''umount2'', [c_string target, Num_Arg flags], no_result)"

definition sys_kill :: "int \<Rightarrow> int \<Rightarrow> unit call" where
  "sys_kill pid signal = (entry NR ''kill'', [Num_Arg pid, Num_Arg signal], no_result)"

definition getpid :: "int call" where
  "getpid = (entry NR ''getpid'', [], \<lambda>(ret, out). Inr ret)"

text \<open>\<open>GuestFd.close\<close>: the call, the first time.\<close>

definition close_fd :: "guest_fd \<Rightarrow> guest_fd \<times> unit call option" where
  "close_fd fd = (fd\<lparr>gf_close_issued := True\<rparr>, if gf_close_issued fd then None else Some (entry NR ''close'', [Fd_Arg (gf_fd fd)], no_result))"

text \<open>A call from its request to its result: the bytes written, and what the arriving bytes make of it.\<close>

definition run_call :: "'a call \<Rightarrow> bytes \<Rightarrow> (bytes \<times> 'a result \<times> bytes) result option" where
  "run_call c stream = (case c of (nr, args, post) \<Rightarrow>
     bindR (syscall_request nr args) (\<lambda>(request, outs).
     bindR (Some (syscall_reply outs stream)) (\<lambda>(r, rest).
     Some (Inr (request, bindE (syscall_result r) post, rest)))))"

section \<open>Processes\<close>

definition write_string :: "ustring \<Rightarrow> bytebuf \<Rightarrow> bytebuf result option" where
  "write_string s b = bindR (bytes_put b (Scalar U32LE) (Num (int (length s)))) (\<lambda>b1. append_bytes b1 s)"

fun write_strings_to :: "ustring list \<Rightarrow> bytebuf \<Rightarrow> bytebuf result option" where
  "write_strings_to [] b = Some (Inr b)"
| "write_strings_to (s # ss) b = bindR (write_string s b) (write_strings_to ss)"

definition spawn_process_request :: "ustring list \<Rightarrow> ustring \<Rightarrow> ustring list \<Rightarrow> bytes result option" where
  "spawn_process_request argv cwd env =
     bindR (bytes_put (new_bytes 32) (Scalar U32LE) (Num (int (length argv)))) (\<lambda>p1.
     bindR (write_strings_to argv p1) (\<lambda>p2.
     bindR (write_string cwd p2) (\<lambda>p3.
     bindR (bytes_put p3 (Scalar U32LE) (Num (int (length env)))) (\<lambda>p4.
     bindR (write_strings_to env p4) (\<lambda>payload.
     bindR (bytes_put (new_bytes 32) (Scalar U8) (Num REQ_SPAWN)) (\<lambda>r1.
     bindR (bytes_put r1 (Scalar U32LE) (Num (int (bb_length payload)))) (\<lambda>r2.
     bindR (append_bytes r2 (bytes_array payload)) (\<lambda>r3. Some (Inr (bytes_array r3))))))))))"

record spawned =
  sp_pid :: int
  sp_stdin :: guest_fd
  sp_stdout :: guest_fd
  sp_stderr :: guest_fd

text \<open>The reply to a spawn, and \<open>argv[0]\<close> in the names of the pipes (\<open>undefined\<close> for an empty command).\<close>

definition pipe_path :: "ustring list \<Rightarrow> ustring \<Rightarrow> ustring" where
  "pipe_path argv which = (case argv of a # _ \<Rightarrow> a | [] \<Rightarrow> [117, 110, 100, 101, 102, 105, 110, 101, 100]) @ [58] @ which"

definition spawn_reply :: "ustring list \<Rightarrow> bytes \<Rightarrow> (spawned result \<times> bytes) result" where
  "spawn_reply argv stream = bindE (read_reply_head stream) (\<lambda>((ret, errno), rest).
     if ret = -1 then Inr (Inl (Errno errno), rest)
     else bindE (lane_read (layout_size SpawnReply) rest) (\<lambda>(bs, rest').
       bindE (get_int SpawnReply (whole_view bs) ''pid'') (\<lambda>pid.
       bindE (get_int SpawnReply (whole_view bs) ''stdin'') (\<lambda>i.
       bindE (get_int SpawnReply (whole_view bs) ''stdout'') (\<lambda>out.
       bindE (get_int SpawnReply (whole_view bs) ''stderr'') (\<lambda>err.
       Inr (Inr \<lparr>sp_pid = pid, sp_stdin = new_guest_fd (nat i) (Some (pipe_path argv [115, 116, 100, 105, 110])),
         sp_stdout = new_guest_fd (nat out) (Some (pipe_path argv [115, 116, 100, 111, 117, 116])),
         sp_stderr = new_guest_fd (nat err) (Some (pipe_path argv [115, 116, 100, 101, 114, 114]))\<rparr>, rest')))))))"

definition reap_request :: "int \<Rightarrow> bytes result option" where
  "reap_request pid =
     bindR (bytes_put (new_bytes 32) (Scalar U8) (Num REQ_REAP)) (\<lambda>r1.
     bindR (bytes_put r1 (Scalar U32LE) (Num pid)) (\<lambda>r2. Some (Inr (bytes_array r2))))"

definition reap_reply :: "bytes \<Rightarrow> (int result \<times> bytes) result" where
  "reap_reply stream = bindE (read_reply_head stream) (\<lambda>((ret, errno), rest).
     if ret = -1 then Inr (Inl (Errno errno), rest)
     else bindE (lane_read 4 rest) (\<lambda>(body, rest'). bindE (scalar_get U32LE (whole_view body) 0) (\<lambda>status. Inr (Inr status, rest'))))"

section \<open>The specified wire format\<close>

fun arg_kind :: "arg \<Rightarrow> int" where
  "arg_kind (Num_Arg n) = ARG_SCALAR"
| "arg_kind (Fd_Arg fd) = ARG_SCALAR"
| "arg_kind (In_Arg bs) = ARG_IN"
| "arg_kind (Out_Arg c ret_sized) = (if ret_sized then ARG_OUT_RET else ARG_OUT_FULL)"

fun arg_value :: "arg \<Rightarrow> int" where
  "arg_value (Num_Arg n) = n mod 2 ^ 64"
| "arg_value (Fd_Arg fd) = int fd mod 2 ^ 64"
| "arg_value (In_Arg bs) = int (length bs)"
| "arg_value (Out_Arg c ret_sized) = int c"

fun arg_blob :: "arg \<Rightarrow> bytes" where
  "arg_blob (In_Arg bs) = bs"
| "arg_blob _ = []"

fun arg_specs :: "arg \<Rightarrow> out_spec list" where
  "arg_specs (Out_Arg c ret_sized) = [\<lparr>os_capacity = c, os_ret_sized = ret_sized\<rparr>]"
| "arg_specs _ = []"

fun arg_fits :: "arg \<Rightarrow> bool" where
  "arg_fits (In_Arg bs) = (length bs \<le> MAX_BLOB)"
| "arg_fits (Out_Arg c _) = (c \<le> MAX_BLOB)"
| "arg_fits _ = True"

definition six :: "int list \<Rightarrow> int list" where
  "six vs = vs @ replicate (6 - length vs) 0"

definition wire_request :: "int \<Rightarrow> arg list \<Rightarrow> bytes" where
  "wire_request nr args = scalar_encode U8 REQ_SYSCALL @ scalar_encode U32LE nr @ concat (map (scalar_encode U8) (six (map arg_kind args))) @
     concat (map (scalar_encode U64LE) (six (map arg_value args))) @ concat (map arg_blob args)"

definition wire_reply :: "int \<Rightarrow> int \<Rightarrow> bytes list \<Rightarrow> bytes" where
  "wire_reply ret errno outs = scalar_encode I64LE ret @ scalar_encode U32LE errno @ concat outs"

definition reply_fits :: "out_spec list \<Rightarrow> int \<Rightarrow> int \<Rightarrow> bytes list \<Rightarrow> bool" where
  "reply_fits specs ret errno outs \<longleftrightarrow> scalar_range I64LE ret \<and> scalar_range U32LE errno \<and>
     (if ret = -1 then outs = [] else list_all2 (\<lambda>spec bs. length bs = out_length ret spec) specs outs)"

section \<open>Requests are written as specified\<close>

lemma assign_element_holds:
  assumes "holds bs b" "field_at fs 0 k = Some (off, FixedArray (Scalar s) n)" "i < n" "off + scalar_size s * n \<le> length bs"
  shows "gives (Some (assign_element fs 0 k i v b)) (holds (overwrite bs (off + scalar_size s * i) (scalar_encode s v)))"
proof -
  let ?o = "off + scalar_size s * i"
  have len: "length bs \<le> length (bb_array b)"
    using holds_length [OF assms(1)] assms(1) by (simp add: holds_def growable_def bytes_ok_def)
  have "scalar_size s * i + scalar_size s \<le> scalar_size s * n" using assms(3) by (metis Suc_leI mult_Suc_right add.commute mult_le_mono2)
  with assms(4) have fit: "?o + scalar_size s \<le> length bs" by linarith
  then have "array_assign (Scalar s) (whole_view (bb_array b)) (0 + off) i (Num v) =
      Inr (overwrite (bb_array b) ?o (scalar_encode s v), Num (scalar_decode s (scalar_encode s v)))"
    using len by (simp add: array_assign_def scalar_set_def dv_write_def scalar_get_def dv_read_def whole_view_def length_overwrite subarray_overwrite_same)
  with assms(2,3) have "assign_element fs 0 k i v b = Inr (b\<lparr>bb_array := overwrite (bb_array b) ?o (scalar_encode s v)\<rparr>)"
    by (simp add: assign_element_def)
  with holds_overwrite [OF assms(1), of ?o "scalar_encode s v"] fit show ?thesis by simp
qed

definition request_state :: "bytes \<Rightarrow> int list \<Rightarrow> int list \<Rightarrow> bytes \<Rightarrow> bytes" where
  "request_state h ks vs blobs = h @ concat (map (scalar_encode U8) ks) @ concat (map (scalar_encode U64LE) vs) @ blobs"

lemma length_encodes: "length (concat (map (scalar_encode s) vs)) = scalar_size s * length vs"
  by (induction vs) simp_all

lemma set_arg_holds:
  assumes "holds (request_state h ks vs blobs) b" "length h = 5" "length ks = 6" "length vs = 6" "i < 6"
  shows "gives (set_arg i k v b) (holds (request_state h (ks[i := k]) (vs[i := v]) blobs))"
proof -
  have f: "field_at SyscallReq 0 ''arg_kinds'' = Some (5, FixedArray (Scalar U8) 6)"
    "field_at SyscallReq 0 ''arg_values'' = Some (11, FixedArray (Scalar U64LE) 6)" by (simp_all add: SyscallReq_def)
  have l: "length (request_state h ks' vs' blobs) = 59 + length blobs" if "length ks' = 6" "length vs' = 6" for ks' vs'
    using that assms(2) by (simp add: request_state_def length_encodes)
  have kinds: "overwrite (request_state h ks vs blobs) (5 + scalar_size U8 * i) (scalar_encode U8 k) = request_state h (ks[i := k]) vs blobs"
    using overwrite_element [of i ks "scalar_encode U8" 1 h "concat (map (scalar_encode U64LE) vs) @ blobs" k] assms
    by (simp add: request_state_def)
  have "length (h @ concat (map (scalar_encode U8) (ks[i := k]))) = 11" using assms by (simp add: length_encodes)
  then have vals: "overwrite (request_state h (ks[i := k]) vs blobs) (11 + scalar_size U64LE * i) (scalar_encode U64LE v) =
      request_state h (ks[i := k]) (vs[i := v]) blobs"
    using overwrite_element [of i vs "scalar_encode U64LE" 8 "h @ concat (map (scalar_encode U8) (ks[i := k]))" blobs v] assms
    by (simp add: request_state_def)
  obtain b1 where b1: "assign_element SyscallReq 0 ''arg_kinds'' i k b = Inr b1" "holds (request_state h (ks[i := k]) vs blobs) b1"
    using assign_element_holds [OF assms(1) f(1) assms(5), of k] l assms kinds by (auto simp: gives_def)
  show ?thesis
    using assign_element_holds [OF b1(2) f(2) assms(5), of v] l [of "ks[i := k]" vs] assms vals b1(1) by (simp add: set_arg_def)
qed

lemma write_arg_holds:
  assumes "holds (request_state h ks vs blobs) b" "length h = 5" "length ks = 6" "length vs = 6" "i < 6" "arg_fits a"
  shows "gives (write_arg i a (b, outs)) (\<lambda>(b', outs').
    holds (request_state h (ks[i := arg_kind a]) (vs[i := arg_value a]) (blobs @ arg_blob a)) b' \<and> outs' = outs @ arg_specs a)"
proof -
  note set = set_arg_holds [OF assms(1-5)]
  show ?thesis
  proof (cases a)
    case (In_Arg bs)
    have "gives (append_bytes b1 bs) (holds (request_state h (ks[i := ARG_IN]) (vs[i := int (length bs)]) (blobs @ bs)))"
      if "holds (request_state h (ks[i := ARG_IN]) (vs[i := int (length bs)]) blobs) b1" for b1
      using append_holds [OF that, of bs] by (simp add: request_state_def)
    then show ?thesis using In_Arg assms(6) by (auto simp: write_arg_def intro!: gives_bind [OF set] gives_bind)
  qed (use assms(6) in \<open>auto simp: write_arg_def intro!: gives_bind [OF set]\<close>)
qed

definition put_from :: "nat \<Rightarrow> int list \<Rightarrow> int list \<Rightarrow> int list" where
  "put_from i vs xs = take i vs @ xs @ drop (i + length xs) vs"

lemma put_from_Cons: "i < length vs \<Longrightarrow> put_from (Suc i) (vs[i := x]) xs = put_from i vs (x # xs)"
  by (simp add: put_from_def take_Suc_conv_app_nth)

lemma write_args_holds:
  "holds (request_state h ks vs blobs) b \<Longrightarrow> length h = 5 \<Longrightarrow> length ks = 6 \<Longrightarrow> length vs = 6 \<Longrightarrow> i + length as \<le> 6 \<Longrightarrow> list_all arg_fits as \<Longrightarrow>
   gives (write_args i as (b, outs)) (\<lambda>(b', outs').
     holds (request_state h (put_from i ks (map arg_kind as)) (put_from i vs (map arg_value as)) (blobs @ concat (map arg_blob as))) b' \<and>
     outs' = outs @ concat (map arg_specs as))"
proof (induction as arbitrary: i ks vs blobs b outs)
  case Nil
  then show ?case by (simp add: put_from_def)
next
  case (Cons a as)
  have step: "gives (write_arg i a (b, outs)) (\<lambda>(b', outs').
      holds (request_state h (ks[i := arg_kind a]) (vs[i := arg_value a]) (blobs @ arg_blob a)) b' \<and> outs' = outs @ arg_specs a)"
    using Cons.prems by (intro write_arg_holds) simp_all
  have rest: "gives (write_args (Suc i) as (b', outs @ arg_specs a)) (\<lambda>(b', outs').
     holds (request_state h (put_from i ks (map arg_kind (a # as))) (put_from i vs (map arg_value (a # as))) (blobs @ concat (map arg_blob (a # as)))) b' \<and>
     outs' = outs @ concat (map arg_specs (a # as)))"
    if "holds (request_state h (ks[i := arg_kind a]) (vs[i := arg_value a]) (blobs @ arg_blob a)) b'" for b'
    using Cons.IH [OF that, where i = "Suc i" and outs = "outs @ arg_specs a"] Cons.prems put_from_Cons [of i ks] put_from_Cons [of i vs] by simp
  show ?case unfolding write_args.simps by (rule gives_bind [OF step]) (use rest in auto)
qed

lemma put_from_zeros: "put_from 0 (replicate 6 0) vs = six vs"
  by (simp add: put_from_def six_def)

lemma request_written:
  assumes "length args \<le> 6" "list_all arg_fits args"
  shows "syscall_request nr args = Some (Inr (wire_request nr args, concat (map arg_specs args)))"
proof -
  let ?z = "replicate 6 0 :: int list" and ?h = "scalar_encode U8 REQ_SYSCALL @ scalar_encode U32LE nr"
  have h0: "holds [] (new_bytes (layout_size SyscallReq))" by (simp add: holds_def new_bytes_growable SyscallReq_def)
  have alloc: "gives (map_option Inr (bytes_alloc (new_bytes (layout_size SyscallReq)) (Struct SyscallReq)))
      (\<lambda>(head, b0). head = 0 \<and> holds (replicate 59 0) b0)"
    using alloc_holds [OF h0, of "Struct SyscallReq"] by (simp add: SyscallReq_def)
  have f: "field_at SyscallReq 0 ''kind'' = Some (0, Scalar U8)" "field_at SyscallReq 0 ''nr'' = Some (1, Scalar U32LE)"
    by (simp_all add: SyscallReq_def)
  have kind: "gives (Some (alloc_set_field b0 SyscallReq 0 ''kind'' (Num REQ_SYSCALL))) (holds (scalar_encode U8 REQ_SYSCALL @ replicate 58 0))"
    if "holds (replicate 59 0) b0" for b0
    using set_field_holds [OF that f(1), of 0 REQ_SYSCALL] by (simp add: overwrite_def)
  have zeros: "concat (map (scalar_encode U8) ?z) @ concat (map (scalar_encode U64LE) ?z) = replicate 54 0"
    by code_simp
  have "overwrite (scalar_encode U8 REQ_SYSCALL @ replicate 58 0) 1 (scalar_encode U32LE nr) = request_state ?h ?z ?z []"
    using zeros by (simp add: overwrite_def request_state_def del: replicate.simps)
  then have nr: "gives (Some (alloc_set_field b1 SyscallReq 0 ''nr'' (Num nr))) (holds (request_state ?h ?z ?z []))"
    if "holds (scalar_encode U8 REQ_SYSCALL @ replicate 58 0) b1" for b1
    using set_field_holds [OF that f(2), of 0 nr] by simp
  have written: "gives (write_args 0 args (b2, [])) (\<lambda>(b', outs'). holds (wire_request nr args) b' \<and> outs' = concat (map arg_specs args))"
    if "holds (request_state ?h ?z ?z []) b2" for b2
    using write_args_holds [OF that, of 0 args "[]"] assms
    unfolding put_from_zeros by (simp add: wire_request_def request_state_def)
  have "gives (syscall_request nr args) (\<lambda>r. r = (wire_request nr args, concat (map arg_specs args)))"
    unfolding syscall_request_def
    by (rule gives_bind [OF alloc], clarify, rule gives_bind [OF kind], assumption, rule gives_bind [OF nr], assumption,
        rule gives_bind [OF written], assumption) (auto simp: holds_def)
  then show ?thesis by (simp add: gives_def)
qed
section \<open>Replies are read in step\<close>

lemma lane_read_append: "n = length bs \<Longrightarrow> lane_read n (bs @ rest) = Inr (bs, rest)"
  by (simp add: lane_read_def)

lemma get_int_whole:
  assumes "field_at fs 0 k = Some (off, Scalar s)" "off + scalar_size s \<le> length bs"
  shows "get_int fs (whole_view bs) k = Inr (scalar_decode s (subarray bs off (off + scalar_size s)))"
  using assms by (simp add: get_int_def get_field_def scalar_get_def dv_read_def)

lemma get_int_encoded:
  assumes "field_at fs 0 k = Some (length pre, Scalar s)" "scalar_range s v"
  shows "get_int fs (whole_view (pre @ scalar_encode s v @ post)) k = Inr v"
  using get_int_whole [OF assms(1), of "pre @ scalar_encode s v @ post"] scalar_decode_encode [OF assms(2)] by (simp add: subarray_def)

lemma read_reply_head_wire:
  assumes "scalar_range I64LE ret" "scalar_range U32LE errno"
  shows "read_reply_head (scalar_encode I64LE ret @ scalar_encode U32LE errno @ rest) = Inr ((ret, errno), rest)"
proof -
  have f: "field_at ReplyHead 0 ''ret'' = Some (length [], Scalar I64LE)"
    "field_at ReplyHead 0 ''errno'' = Some (length (scalar_encode I64LE ret), Scalar U32LE)" by (simp_all add: ReplyHead_def)
  have "lane_read (layout_size ReplyHead) ((scalar_encode I64LE ret @ scalar_encode U32LE errno) @ rest) =
      Inr (scalar_encode I64LE ret @ scalar_encode U32LE errno, rest)"
    by (rule lane_read_append) (simp add: ReplyHead_def)
  then show ?thesis
    using get_int_encoded [OF f(1) assms(1), of "scalar_encode U32LE errno"] get_int_encoded [OF f(2) assms(2), of "[]"]
    by (simp add: read_reply_head_def)
qed

lemma read_outs_wire:
  "list_all2 (\<lambda>spec bs. length bs = out_length ret spec) specs outs \<Longrightarrow> read_outs ret specs (concat outs @ rest) = Inr (outs, rest)"
  by (induction rule: list_all2_induct) (simp_all add: lane_read_append)

lemma reply_read:
  "reply_fits specs ret errno outs \<Longrightarrow> syscall_reply specs (wire_reply ret errno outs @ rest) = Inr ((ret, errno, outs), rest)"
  by (auto simp: syscall_reply_def wire_reply_def reply_fits_def read_reply_head_wire read_outs_wire split: if_splits)

section \<open>Processes\<close>

definition wire_string :: "ustring \<Rightarrow> bytes" where
  "wire_string s = scalar_encode U32LE (int (length s)) @ s"

definition wire_spawn :: "ustring list \<Rightarrow> ustring \<Rightarrow> ustring list \<Rightarrow> bytes" where
  "wire_spawn argv cwd env = scalar_encode U32LE (int (length argv)) @ concat (map wire_string argv) @ wire_string cwd @
     scalar_encode U32LE (int (length env)) @ concat (map wire_string env)"

lemma write_string_holds: "holds bs b \<Longrightarrow> gives (write_string s b) (holds (bs @ wire_string s))"
proof -
  assume h: "holds bs b"
  have put: "gives (bytes_put b (Scalar U32LE) (Num (int (length s)))) (holds (bs @ scalar_encode U32LE (int (length s))))"
    using put_holds [OF h] by simp
  have body: "gives (append_bytes b1 s) (holds (bs @ wire_string s))" if "holds (bs @ scalar_encode U32LE (int (length s))) b1" for b1
    using append_holds [OF that, of s] by (simp add: wire_string_def)
  show ?thesis unfolding write_string_def by (rule gives_bind [OF put body])
qed

lemma write_strings_to_holds: "holds bs b \<Longrightarrow> gives (write_strings_to ss b) (holds (bs @ concat (map wire_string ss)))"
proof (induction ss arbitrary: bs b)
  case (Cons s ss)
  have "gives (write_strings_to ss b1) (holds (bs @ concat (map wire_string (s # ss))))" if "holds (bs @ wire_string s) b1" for b1
    using Cons.IH [OF that] by simp
  with gives_bind [OF write_string_holds [OF Cons.prems]] show ?case unfolding write_strings_to.simps by blast
qed simp

lemma new_bytes_holds: "0 < n \<Longrightarrow> holds [] (new_bytes n)"
  by (simp add: holds_def new_bytes_growable)

lemma spawn_process_request_written:
  "spawn_process_request argv cwd env = Some (Inr (scalar_encode U8 REQ_SPAWN @ scalar_encode U32LE (int (length (wire_spawn argv cwd env))) @ wire_spawn argv cwd env))"
proof -
  let ?p1 = "[] @ scalar_encode U32LE (int (length argv))" let ?p2 = "?p1 @ concat (map wire_string argv)"
  let ?p3 = "?p2 @ wire_string cwd" let ?p4 = "?p3 @ scalar_encode U32LE (int (length env))" let ?p5 = "?p4 @ concat (map wire_string env)"
  have p: "?p5 = wire_spawn argv cwd env" by (simp add: wire_spawn_def)
  let ?r1 = "[] @ scalar_encode U8 REQ_SPAWN" let ?r2 = "?r1 @ scalar_encode U32LE (int (length ?p5))"
  have u: "ty_encode (Scalar s) (Num v) = Inr (scalar_encode s v)" for s v by simp
  have size: "gives (bytes_put r1 (Scalar U32LE) (Num (int (bb_length payload)))) (holds ?r2)" if "holds ?p5 payload" "holds ?r1 r1" for payload r1
    using put_holds [OF that(2) u] holds_length [OF that(1)] by simp
  have body: "gives (append_bytes r2 (bytes_array payload)) (holds (?r2 @ ?p5))" if "holds ?p5 payload" "holds ?r2 r2" for payload r2
    using append_holds [OF that(2), of "bytes_array payload"] that(1) by (simp add: holds_def)
  have "gives (spawn_process_request argv cwd env) (\<lambda>bs. bs = ?r2 @ ?p5)"
    unfolding spawn_process_request_def
    by (rule gives_bind [OF put_holds [OF new_bytes_holds u]], simp, rule gives_bind [OF write_strings_to_holds], assumption,
        rule gives_bind [OF write_string_holds], assumption, rule gives_bind [OF put_holds [OF _ u]], assumption,
        rule gives_bind [OF write_strings_to_holds], assumption, rule gives_bind [OF put_holds [OF new_bytes_holds u]], simp,
        rule gives_bind [OF size], assumption, assumption, rule gives_bind [OF body], assumption, assumption) (simp add: holds_def)
  then show ?thesis unfolding p by (simp add: gives_def)
qed

section \<open>Properties\<close>


end
