(* ===== verification/Guest_Session.thy ===== *)
theory Guest_Session
  imports Struct_Encoding
begin

text \<open>
  The transport of the guest agent, \<open>packages/linux-guest/src/conn.ts\<close>: a session connection whose end is the end of the session, and a
  pool of lanes that exchanges borrow.

  A lane is the number of its connection.  A call of \<open>exchange\<close> is an entry of \<open>gs_exchanges\<close>, which says at which \<open>await\<close> it stands; what
  settles there (a connection, a handshake, the callback) is an event.  \<open>gs_closed\<close> lists the lanes whose connection was closed.
\<close>

section \<open>Handshake\<close>

definition SESSION_PORT :: nat where "SESSION_PORT = 1024"
definition LANE_PORT :: nat where "LANE_PORT = 1025"
definition HANDSHAKE_MAGIC :: int where "HANDSHAKE_MAGIC = 0x584e4c54"
definition PROTOCOL_VERSION :: int where "PROTOCOL_VERSION = 3"
definition MAX_LANES :: int where "MAX_LANES = 64"

definition Handshake :: layout where
  "Handshake = [(''magic'', Scalar U32LE), (''version'', Scalar U16LE), (''reserved'', Scalar U16LE)]"

definition handshake_hello :: "bytes result option" where
  "handshake_hello = bindR (bytes_put (new_bytes (layout_size Handshake)) (Struct Handshake)
     (Obj [(''magic'', Num HANDSHAKE_MAGIC), (''version'', Num PROTOCOL_VERSION), (''reserved'', Num 0)])) (\<lambda>b. Some (Inr (bytes_array b)))"

text \<open>The check of the echo, of which \<open>readExactly\<close> may have returned less.\<close>

definition handshake_echo :: "bytes \<Rightarrow> unit result" where
  "handshake_echo echo =
     (if length echo \<noteq> layout_size Handshake then Inl (ProtocolError ''guest connection closed during handshake'')
      else bindE (get_num Handshake (whole_view echo) ''magic'') (\<lambda>magic.
        bindE (if int magic \<noteq> HANDSHAKE_MAGIC then Inr True
               else bindE (get_num Handshake (whole_view echo) ''version'') (\<lambda>version. Inr (int version \<noteq> PROTOCOL_VERSION))) (\<lambda>wrong.
        if wrong then Inl (ProtocolError ''guest handshake echo mismatch'') else Inr ())))"

lemma hello_is_echoed: "\<exists>bs. handshake_hello = Some (Inr bs) \<and> handshake_echo bs = Inr ()"
proof -
  let ?kvs = "[(''magic'', Num HANDSHAKE_MAGIC), (''version'', Num PROTOCOL_VERSION), (''reserved'', Num 0)]"
  let ?bs = "scalar_encode U32LE HANDSHAKE_MAGIC @ scalar_encode U16LE PROTOCOL_VERSION @ scalar_encode U16LE 0"
  have e: "encode_fields Handshake ?kvs = Inr ?bs" by (simp add: Handshake_def)
  have d: "distinct (map fst Handshake)" by (simp add: Handshake_def)
  have f: "field_at Handshake 0 ''magic'' = Some (0, Scalar U32LE)" "field_at Handshake 0 ''version'' = Some (4, Scalar U16LE)"
    by (simp_all add: Handshake_def)
  have g: "growable (new_bytes (layout_size Handshake))" by (simp add: new_bytes_growable Handshake_def)
  obtain b where b: "bytes_put (new_bytes (layout_size Handshake)) (Struct Handshake) (Obj ?kvs) = Some (Inr b)" "bytes_array b = ?bs"
    using bytes_put_works [OF g struct_encode [OF d e]] by auto
  have "get_num Handshake (whole_view ?bs) ''magic'' = Inr (nat HANDSHAKE_MAGIC)" "get_num Handshake (whole_view ?bs) ''version'' = Inr (nat PROTOCOL_VERSION)"
    using get_num_encoded [OF e f(1) _ _ d, of HANDSHAKE_MAGIC "[]"] get_num_encoded [OF e f(2) _ _ d, of PROTOCOL_VERSION "[]"]
    by (simp_all add: scalar_range_def HANDSHAKE_MAGIC_def PROTOCOL_VERSION_def)
  with b show ?thesis
    by (simp add: handshake_hello_def handshake_echo_def HANDSHAKE_MAGIC_def PROTOCOL_VERSION_def) (simp add: Handshake_def)
qed

section \<open>The session\<close>

datatype exchange_phase =
    Connecting
  | Handshaking nat
  | Waiting
  | Holding nat
  | Finished "unit result"

record session =
  gs_dead :: "js_error option"
  gs_free :: "nat list"
  gs_lane_count :: int
  gs_waiters :: "nat list"
  gs_exchanges :: "exchange_phase list"
  gs_closed :: "nat list"
  gs_session_closed :: bool
  gs_next :: nat

definition new_session :: session where
  "new_session = \<lparr>gs_dead = None, gs_free = [], gs_lane_count = 0, gs_waiters = [], gs_exchanges = [], gs_closed = [],
     gs_session_closed = False, gs_next = 0\<rparr>"

definition set_phase :: "nat \<Rightarrow> exchange_phase \<Rightarrow> session \<Rightarrow> session" where
  "set_phase i p s = s\<lparr>gs_exchanges := (gs_exchanges s)[i := p]\<rparr>"

definition reject_all :: "nat list \<Rightarrow> js_error \<Rightarrow> exchange_phase list \<Rightarrow> exchange_phase list" where
  "reject_all ws e ps = foldl (\<lambda>ps i. ps[i := Finished (Inl e)]) ps ws"

definition die :: "js_error \<Rightarrow> session \<Rightarrow> session" where
  "die e s =
     (if gs_dead s \<noteq> None then s
      else s\<lparr>gs_dead := Some e, gs_waiters := [], gs_exchanges := reject_all (gs_waiters s) e (gs_exchanges s),
             gs_closed := gs_closed s @ gs_free s, gs_free := [], gs_session_closed := True\<rparr>)"

text \<open>\<open>#watch\<close>, from what reading the silent session connection returns.\<close>

definition watch_settles :: "bytes result \<Rightarrow> session \<Rightarrow> session" where
  "watch_settles r = (case r of
       Inl e \<Rightarrow> die e
     | Inr chunk \<Rightarrow> die (if chunk = [] then Error ''guest session closed'' else ProtocolError ''unexpected data on the session connection''))"

text \<open>\<open>exchange\<close> up to its first suspension, with \<open>#acquire\<close>: a free lane (the last one), a new lane, or a place in the queue.\<close>

definition exchange_starts :: "session \<Rightarrow> session" where
  "exchange_starts s = (case gs_dead s of
       Some e \<Rightarrow> s\<lparr>gs_exchanges := gs_exchanges s @ [Finished (Inl e)]\<rparr>
     | None \<Rightarrow>
         if gs_free s \<noteq> [] then s\<lparr>gs_free := butlast (gs_free s), gs_exchanges := gs_exchanges s @ [Holding (last (gs_free s))]\<rparr>
         else if gs_lane_count s < MAX_LANES then
           s\<lparr>gs_lane_count := gs_lane_count s + 1, gs_exchanges := gs_exchanges s @ [Connecting]\<rparr>
         else s\<lparr>gs_waiters := gs_waiters s @ [length (gs_exchanges s)], gs_exchanges := gs_exchanges s @ [Waiting]\<rparr>)"

definition acquire_fails :: "nat \<Rightarrow> js_error \<Rightarrow> session \<Rightarrow> session" where
  "acquire_fails i e s = (set_phase i (Finished (Inl e)) s)\<lparr>gs_lane_count := gs_lane_count s - 1\<rparr>"

definition connect_settles :: "nat \<Rightarrow> unit result \<Rightarrow> session \<Rightarrow> session" where
  "connect_settles i r s = (case r of
       Inl e \<Rightarrow> acquire_fails i e s
     | Inr _ \<Rightarrow> (set_phase i (Handshaking (gs_next s)) s)\<lparr>gs_next := Suc (gs_next s)\<rparr>)"

definition handshake_settles :: "nat \<Rightarrow> nat \<Rightarrow> unit result \<Rightarrow> session \<Rightarrow> session" where
  "handshake_settles i lane r s = (case r of
       Inl e \<Rightarrow> acquire_fails i e (s\<lparr>gs_closed := gs_closed s @ [lane]\<rparr>)
     | Inr _ \<Rightarrow> (case gs_dead s of
           Some e \<Rightarrow> acquire_fails i e (s\<lparr>gs_closed := gs_closed s @ [lane]\<rparr>)
         | None \<Rightarrow> set_phase i (Holding lane) s))"

definition release_lane :: "nat \<Rightarrow> session \<Rightarrow> session" where
  "release_lane lane s =
     (if gs_dead s \<noteq> None then s\<lparr>gs_closed := gs_closed s @ [lane]\<rparr>
      else case gs_waiters s of
        w # ws \<Rightarrow> set_phase w (Holding lane) (s\<lparr>gs_waiters := ws\<rparr>)
      | [] \<Rightarrow> s\<lparr>gs_free := gs_free s @ [lane]\<rparr>)"

text \<open>The callback of \<open>exchange\<close> has returned or thrown.\<close>

definition callback_settles :: "nat \<Rightarrow> nat \<Rightarrow> unit result \<Rightarrow> session \<Rightarrow> session" where
  "callback_settles i lane r s = (case r of
       Inr _ \<Rightarrow> release_lane lane (set_phase i (Finished (Inr ())) s)
     | Inl e \<Rightarrow>
         let s1 = die e s
         in (set_phase i (Finished (Inl e)) s1)\<lparr>gs_closed := gs_closed s1 @ [lane], gs_lane_count := gs_lane_count s1 - 1\<rparr>)"

definition close_session :: "session \<Rightarrow> session" where
  "close_session = die (Error ''guest session closed'')"

text \<open>\<open>GuestSession.connect\<close>, from how the connection and its handshake settled: the session, or the error and whether the connection was closed.\<close>

definition session_connect :: "unit result \<Rightarrow> unit result \<Rightarrow> (js_error \<times> bool) + session" where
  "session_connect connected shaken = (case connected of
       Inl e \<Rightarrow> Inl (e, False)
     | Inr _ \<Rightarrow> (case shaken of Inl e \<Rightarrow> Inl (e, True) | Inr _ \<Rightarrow> Inr new_session))"

datatype session_event =
    Starts
  | Connect_Settles nat "unit result"
  | Handshake_Settles nat "unit result"
  | Callback_Settles nat "unit result"
  | Watch_Settles "bytes result"
  | Close_Session

inductive session_step :: "session \<Rightarrow> session_event \<Rightarrow> session \<Rightarrow> bool" where
  starts: "session_step s Starts (exchange_starts s)"
| connects: "i < length (gs_exchanges s) \<Longrightarrow> gs_exchanges s ! i = Connecting \<Longrightarrow>
    session_step s (Connect_Settles i r) (connect_settles i r s)"
| handshakes: "i < length (gs_exchanges s) \<Longrightarrow> gs_exchanges s ! i = Handshaking lane \<Longrightarrow>
    session_step s (Handshake_Settles i r) (handshake_settles i lane r s)"
| returns: "i < length (gs_exchanges s) \<Longrightarrow> gs_exchanges s ! i = Holding lane \<Longrightarrow>
    session_step s (Callback_Settles i r) (callback_settles i lane r s)"
| watch: "session_step s (Watch_Settles r) (watch_settles r s)"
| closes: "session_step s Close_Session (close_session s)"

code_pred session_step .

inductive_cases session_stepE: "session_step s ev s'"

inductive session_reachable :: "session \<Rightarrow> bool" where
  start: "session_reachable new_session"
| step: "session_reachable s \<Longrightarrow> session_step s ev s' \<Longrightarrow> session_reachable s'"

section \<open>The pool\<close>

fun phase_lanes :: "exchange_phase \<Rightarrow> nat set" where
  "phase_lanes (Handshaking l) = {l}"
| "phase_lanes (Holding l) = {l}"
| "phase_lanes _ = {}"

fun phase_weight :: "exchange_phase \<Rightarrow> int" where
  "phase_weight Connecting = 1"
| "phase_weight (Handshaking l) = 1"
| "phase_weight (Holding l) = 1"
| "phase_weight _ = 0"

definition owns :: "session \<Rightarrow> nat \<Rightarrow> nat \<Rightarrow> bool" where
  "owns s i l \<longleftrightarrow> i < length (gs_exchanges s) \<and> l \<in> phase_lanes (gs_exchanges s ! i)"

definition lanes_inv :: "session \<Rightarrow> bool" where
  "lanes_inv s \<longleftrightarrow> distinct (gs_free s) \<and> (\<forall>l \<in> set (gs_free s). l < gs_next s) \<and>
     (\<forall>i l. owns s i l \<longrightarrow> l < gs_next s \<and> l \<notin> set (gs_free s)) \<and> (\<forall>i j l. owns s i l \<longrightarrow> owns s j l \<longrightarrow> i = j)"

definition queue_inv :: "session \<Rightarrow> bool" where
  "queue_inv s \<longleftrightarrow> distinct (gs_waiters s) \<and> (\<forall>i. i \<in> set (gs_waiters s) \<longleftrightarrow> i < length (gs_exchanges s) \<and> gs_exchanges s ! i = Waiting) \<and>
     (gs_dead s \<noteq> None \<longrightarrow> gs_free s = [] \<and> gs_waiters s = []) \<and> (gs_waiters s \<noteq> [] \<longrightarrow> gs_free s = [])"

definition count_inv :: "session \<Rightarrow> bool" where
  "count_inv s \<longleftrightarrow> (gs_dead s = None \<longrightarrow>
     gs_lane_count s = int (length (gs_free s)) + sum_list (map phase_weight (gs_exchanges s)) \<and> gs_lane_count s \<le> MAX_LANES)"

definition session_inv :: "session \<Rightarrow> bool" where
  "session_inv s \<longleftrightarrow> lanes_inv s \<and> queue_inv s \<and> count_inv s"

definition unused :: "nat \<Rightarrow> session \<Rightarrow> bool" where
  "unused l s \<longleftrightarrow> l < gs_next s \<and> l \<notin> set (gs_free s) \<and> (\<forall>i. \<not> owns s i l)"

lemma reject_all_nth: "i < length ps \<Longrightarrow> reject_all ws e ps ! i = (if i \<in> set ws then Finished (Inl e) else ps ! i)"
  by (induction ws arbitrary: ps) (auto simp: reject_all_def nth_list_update)

lemma reject_all_length [simp]: "length (reject_all ws e ps) = length ps"
  by (induction ws arbitrary: ps) (auto simp: reject_all_def)

lemma weight_update:
  "i < length ps \<Longrightarrow> sum_list (map phase_weight (ps[i := p])) = sum_list (map phase_weight ps) + phase_weight p - phase_weight (ps ! i)"
proof (induction ps arbitrary: i)
  case (Cons q ps)
  then show ?case by (cases i) simp_all
qed simp

lemma reject_all_lanes: "i < length ps \<Longrightarrow> phase_lanes (reject_all ws e ps ! i) \<subseteq> phase_lanes (ps ! i)"
  by (simp add: reject_all_nth)

text \<open>Exchanges that only give up lanes keep the lanes apart.\<close>

lemma lanes_inv_shrink:
  assumes "lanes_inv s" "gs_next s' = gs_next s" "\<And>i l. owns s' i l \<Longrightarrow> owns s i l" "gs_free s' = gs_free s \<or> gs_free s' = []"
  shows "lanes_inv s'"
proof -
  have "set (gs_free s') \<subseteq> set (gs_free s)" "distinct (gs_free s')" using assms(1,4) by (auto simp: lanes_inv_def)
  with assms(1-3) show ?thesis unfolding lanes_inv_def by (metis subsetD)
qed

lemma set_phase_fields [simp]:
  "gs_dead (set_phase i p s) = gs_dead s" "gs_free (set_phase i p s) = gs_free s" "gs_lane_count (set_phase i p s) = gs_lane_count s"
  "gs_waiters (set_phase i p s) = gs_waiters s" "gs_next (set_phase i p s) = gs_next s" "gs_closed (set_phase i p s) = gs_closed s"
  "gs_exchanges (set_phase i p s) = (gs_exchanges s)[i := p]"
  by (simp_all add: set_phase_def)

lemma owns_set_phase: "owns (set_phase i p s) j l \<longleftrightarrow> (if j = i then j < length (gs_exchanges s) \<and> l \<in> phase_lanes p else owns s j l)"
  by (auto simp: owns_def)

lemma lanes_inv_finish: "lanes_inv s \<Longrightarrow> phase_lanes p = {} \<Longrightarrow> lanes_inv (set_phase i p s)"
  by (rule lanes_inv_shrink) (auto simp: owns_set_phase split: if_splits)

lemma queue_inv_phase:
  "queue_inv s \<Longrightarrow> i < length (gs_exchanges s) \<Longrightarrow> gs_exchanges s ! i \<noteq> Waiting \<Longrightarrow> p \<noteq> Waiting \<Longrightarrow> queue_inv (set_phase i p s)"
  by (auto simp: queue_inv_def nth_list_update)

lemma inv_by_fields:
  assumes "session_inv s" "gs_dead s' = gs_dead s" "gs_free s' = gs_free s" "gs_lane_count s' = gs_lane_count s" "gs_waiters s' = gs_waiters s"
    "gs_exchanges s' = gs_exchanges s" "gs_next s' = gs_next s"
  shows "session_inv s'"
  using assms(1) unfolding session_inv_def lanes_inv_def queue_inv_def count_inv_def owns_def assms(2-7) .

lemma die_inv:
  assumes "session_inv s"
  shows "session_inv (die e s)" "gs_dead (die e s) \<noteq> None" "length (gs_exchanges (die e s)) = length (gs_exchanges s)"
    "gs_exchanges s ! i \<noteq> Waiting \<Longrightarrow> i < length (gs_exchanges s) \<Longrightarrow> gs_exchanges (die e s) ! i = gs_exchanges s ! i"
proof -
  have owned: "owns (die e s) i l \<Longrightarrow> owns s i l" for i l
    by (auto simp: die_def owns_def reject_all_nth split: if_splits)
  have "lanes_inv s" using assms by (simp add: session_inv_def)
  then have "lanes_inv (die e s)"
    by (rule lanes_inv_shrink) (simp add: die_def, erule owned, simp add: die_def)
  moreover have "queue_inv (die e s)"
  proof (cases "gs_dead s")
    case None
    have q: "i \<in> set (gs_waiters s) \<longleftrightarrow> i < length (gs_exchanges s) \<and> gs_exchanges s ! i = Waiting" for i
      using assms by (simp add: session_inv_def queue_inv_def)
    have "reject_all (gs_waiters s) e (gs_exchanges s) ! i \<noteq> Waiting" if "i < length (gs_exchanges s)" for i
      using that reject_all_nth [OF that, of "gs_waiters s" e] q [of i] by (cases "i \<in> set (gs_waiters s)") simp_all
    with None show ?thesis by (simp add: queue_inv_def die_def)
  qed (use assms in \<open>simp add: session_inv_def die_def\<close>)
  ultimately show "session_inv (die e s)" using assms by (auto simp: session_inv_def count_inv_def die_def)
  show "gs_dead (die e s) \<noteq> None" "length (gs_exchanges (die e s)) = length (gs_exchanges s)" by (auto simp: die_def)
  show "gs_exchanges (die e s) ! i = gs_exchanges s ! i" if "gs_exchanges s ! i \<noteq> Waiting" "i < length (gs_exchanges s)"
  proof -
    have "i \<notin> set (gs_waiters s)" using that assms by (simp add: session_inv_def queue_inv_def)
    then show ?thesis using that(2) by (simp add: die_def reject_all_nth)
  qed
qed

lemma unused_after_finish:
  assumes "lanes_inv s" "i < length (gs_exchanges s)" "gs_exchanges s ! i = Holding l" "phase_lanes p = {}"
  shows "unused l (set_phase i p s)"
proof -
  have "owns s i l" using assms(2,3) by (simp add: owns_def)
  with assms(1) have "l < gs_next s" "l \<notin> set (gs_free s)" "\<And>j. owns s j l \<Longrightarrow> j = i" by (auto simp: lanes_inv_def)
  with assms(4) show ?thesis by (auto simp: unused_def owns_set_phase split: if_splits)
qed

lemma lanes_inv_grant:
  assumes "lanes_inv s" "unused l s" "i < length (gs_exchanges s)" "phase_lanes p = {l}"
  shows "lanes_inv (set_phase i p s)"
proof -
  have "owns (set_phase i p s) j x \<Longrightarrow> (j = i \<and> x = l) \<or> (j \<noteq> i \<and> owns s j x \<and> x \<noteq> l)" for j x
    using assms(2,4) by (auto simp: owns_set_phase unused_def split: if_splits)
  with assms show ?thesis unfolding lanes_inv_def unused_def by (metis set_phase_fields(2,5))
qed
lemma inv_updates [simp]:
  "lanes_inv (s\<lparr>gs_lane_count := c\<rparr>) = lanes_inv s" "lanes_inv (s\<lparr>gs_closed := cl\<rparr>) = lanes_inv s" "lanes_inv (s\<lparr>gs_waiters := w\<rparr>) = lanes_inv s"
  "queue_inv (s\<lparr>gs_lane_count := c\<rparr>) = queue_inv s" "queue_inv (s\<lparr>gs_closed := cl\<rparr>) = queue_inv s" "queue_inv (s\<lparr>gs_next := n\<rparr>) = queue_inv s"
  "count_inv (s\<lparr>gs_closed := cl\<rparr>) = count_inv s" "count_inv (s\<lparr>gs_next := n\<rparr>) = count_inv s" "count_inv (s\<lparr>gs_waiters := w\<rparr>) = count_inv s"
  unfolding lanes_inv_def queue_inv_def count_inv_def owns_def by simp_all

lemma acquire_fails_inv:
  assumes "session_inv s" "i < length (gs_exchanges s)" "gs_exchanges s ! i \<noteq> Waiting" "phase_weight (gs_exchanges s ! i) = 1"
  shows "session_inv (acquire_fails i e s)"
proof -
  have "lanes_inv (set_phase i (Finished (Inl e)) s)" "queue_inv (set_phase i (Finished (Inl e)) s)"
    using assms lanes_inv_finish queue_inv_phase by (auto simp: session_inv_def)
  then have "lanes_inv (acquire_fails i e s)" "queue_inv (acquire_fails i e s)" by (simp_all add: acquire_fails_def)
  moreover have "count_inv (acquire_fails i e s)"
    using assms by (auto simp: session_inv_def count_inv_def acquire_fails_def weight_update)
  ultimately show ?thesis by (simp add: session_inv_def)
qed

lemma owns_snoc:
  "gs_exchanges s' = gs_exchanges s @ [p] \<Longrightarrow> owns s' i l \<longleftrightarrow> owns s i l \<or> i = length (gs_exchanges s) \<and> l \<in> phase_lanes p"
  by (auto simp: owns_def nth_append less_Suc_eq)

lemma lanes_inv_snoc:
  assumes "lanes_inv s" "gs_exchanges s' = gs_exchanges s @ [p]" "gs_next s' = gs_next s"
    and "gs_free s' = gs_free s \<and> phase_lanes p = {} \<or> gs_free s = gs_free s' @ [l] \<and> phase_lanes p = {l}"
  shows "lanes_inv s'"
proof -
  note owned = owns_snoc [OF assms(2)]
  have no: "\<not> owns s (length (gs_exchanges s)) l" for l by (simp add: owns_def)
  from assms(4) show ?thesis
  proof
    assume "gs_free s' = gs_free s \<and> phase_lanes p = {}"
    with assms(1,3) show ?thesis by (simp add: lanes_inv_def owned)
  next
    assume f: "gs_free s = gs_free s' @ [l] \<and> phase_lanes p = {l}"
    then have "\<not> owns s i l" for i using assms(1) by (auto simp: lanes_inv_def)
    with f assms(1,3) no show ?thesis unfolding lanes_inv_def owned by auto
  qed
qed

lemma queue_inv_snoc:
  assumes "queue_inv s" "gs_exchanges s' = gs_exchanges s @ [p]" "gs_dead s' = gs_dead s"
    and "p \<noteq> Waiting \<and> gs_waiters s' = gs_waiters s \<and> (gs_free s = [] \<longrightarrow> gs_free s' = []) \<or>
      p = Waiting \<and> gs_waiters s' = gs_waiters s @ [length (gs_exchanges s)] \<and> gs_free s' = [] \<and> gs_dead s = None"
  shows "queue_inv s'"
proof -
  have waiting: "i < length (gs_exchanges s') \<and> gs_exchanges s' ! i = Waiting \<longleftrightarrow>
      i < length (gs_exchanges s) \<and> gs_exchanges s ! i = Waiting \<or> i = length (gs_exchanges s) \<and> p = Waiting" for i
    by (auto simp: assms(2) nth_append less_Suc_eq)
  have q: "i < length (gs_exchanges s) \<and> gs_exchanges s ! i = Waiting \<longleftrightarrow> i \<in> set (gs_waiters s)" for i
    using assms(1) by (simp add: queue_inv_def)
  have no: "length (gs_exchanges s) \<notin> set (gs_waiters s)" using q [of "length (gs_exchanges s)"] by simp
  have w: "distinct (gs_waiters s)" "gs_dead s \<noteq> None \<Longrightarrow> gs_free s = [] \<and> gs_waiters s = []" "gs_waiters s \<noteq> [] \<Longrightarrow> gs_free s = []"
    using assms(1) by (simp_all add: queue_inv_def)
  from assms(4) show ?thesis unfolding queue_inv_def waiting q using w no assms(3) by (elim disjE) (simp_all, blast+)
qed

lemma exchange_starts_inv:
  assumes "session_inv s"
  shows "session_inv (exchange_starts s)"
proof -
  have inv: "lanes_inv s" "queue_inv s" "count_inv s" using assms by (simp_all add: session_inv_def)
  show ?thesis
  proof (cases "gs_dead s")
    case (Some e)
    have "lanes_inv (exchange_starts s)" "queue_inv (exchange_starts s)"
      using Some lanes_inv_snoc [OF inv(1), of _ "Finished (Inl e)"] queue_inv_snoc [OF inv(2), of _ "Finished (Inl e)"]
      by (simp_all add: exchange_starts_def)
    with Some show ?thesis by (simp add: session_inv_def) (simp add: count_inv_def exchange_starts_def)
  next
    case None
    consider (free) fs l where "gs_free s = fs @ [l]" | (connect) "gs_free s = []" "gs_lane_count s < MAX_LANES"
      | (wait) "gs_free s = []" "\<not> gs_lane_count s < MAX_LANES"
      by (metis append_butlast_last_id)
    then show ?thesis
    proof cases
      case free
      have "lanes_inv (exchange_starts s)" using None free lanes_inv_snoc [OF inv(1), of _ "Holding l" l] by (simp add: exchange_starts_def)
      moreover have "gs_waiters s = []" using inv(2) free by (auto simp: queue_inv_def)
      then have "queue_inv (exchange_starts s)"
        using None free queue_inv_snoc [OF inv(2), of _ "Holding l"] by (simp add: exchange_starts_def)
      ultimately show ?thesis using inv(3) None free by (simp add: session_inv_def) (simp add: count_inv_def exchange_starts_def)
    next
      case connect
      have "lanes_inv (exchange_starts s)" "queue_inv (exchange_starts s)"
        using None connect lanes_inv_snoc [OF inv(1), of _ "Connecting"] queue_inv_snoc [OF inv(2), of _ "Connecting"]
        by (simp_all add: exchange_starts_def)
      then show ?thesis using inv(3) None connect by (simp add: session_inv_def) (simp add: count_inv_def exchange_starts_def)
    next
      case wait
      have "lanes_inv (exchange_starts s)" "queue_inv (exchange_starts s)"
        using None wait lanes_inv_snoc [OF inv(1), of _ "Waiting"] queue_inv_snoc [OF inv(2), of _ "Waiting"]
        by (simp_all add: exchange_starts_def)
      then show ?thesis using inv(3) None wait by (simp add: session_inv_def) (simp add: count_inv_def exchange_starts_def)
    qed
  qed
qed

lemma release_lane_inv:
  assumes "lanes_inv s" "queue_inv s" "unused l s"
    and "gs_dead s = None \<longrightarrow> gs_lane_count s = int (length (gs_free s)) + sum_list (map phase_weight (gs_exchanges s)) + 1 \<and> gs_lane_count s \<le> MAX_LANES"
  shows "session_inv (release_lane l s)"
proof (cases "gs_dead s")
  case (Some e)
  with assms(1,2) show ?thesis by (simp add: release_lane_def session_inv_def) (simp add: count_inv_def)
next
  case None
  show ?thesis
  proof (cases "gs_waiters s")
    case Nil
    with None assms show ?thesis
      by (auto simp: release_lane_def session_inv_def lanes_inv_def queue_inv_def count_inv_def unused_def owns_def)
  next
    case (Cons w ws)
    have w: "w < length (gs_exchanges s)" "gs_exchanges s ! w = Waiting" "w \<notin> set ws" "distinct ws" "gs_free s = []"
      and q: "\<And>i. i \<in> set (w # ws) \<longleftrightarrow> i < length (gs_exchanges s) \<and> gs_exchanges s ! i = Waiting"
      using assms(2) Cons by (auto simp: queue_inv_def)
    have e: "release_lane l s = (set_phase w (Holding l) s)\<lparr>gs_waiters := ws\<rparr>" using None Cons by (simp add: release_lane_def set_phase_def)
    have "lanes_inv (release_lane l s)"
      using lanes_inv_grant [OF assms(1,3) w(1), of "Holding l"] by (simp add: e)
    moreover have "i \<in> set ws \<longleftrightarrow> i < length (gs_exchanges s) \<and> (gs_exchanges s)[w := Holding l] ! i = Waiting" for i
      using q [of i] w(1,3) by (cases "i = w") auto
    then have "queue_inv (release_lane l s)" using w None by (simp add: e queue_inv_def)
    moreover have "count_inv (release_lane l s)" using assms(4) None w by (simp add: e count_inv_def weight_update)
    ultimately show ?thesis by (simp add: session_inv_def)
  qed
qed

lemma connect_settles_inv:
  assumes "session_inv s" "i < length (gs_exchanges s)" "gs_exchanges s ! i = Connecting"
  shows "session_inv (connect_settles i r s)"
proof (cases r)
  case (Inl e)
  with assms show ?thesis by (simp add: connect_settles_def acquire_fails_inv)
next
  case (Inr u)
  let ?s = "s\<lparr>gs_next := Suc (gs_next s)\<rparr>"
  have "lanes_inv ?s" "unused (gs_next s) ?s" using assms(1) by (fastforce simp: session_inv_def lanes_inv_def unused_def owns_def)+
  then have "lanes_inv (set_phase i (Handshaking (gs_next s)) ?s)" using assms(2) by (intro lanes_inv_grant) simp_all
  moreover have "queue_inv (set_phase i (Handshaking (gs_next s)) s)" using assms by (intro queue_inv_phase) (simp_all add: session_inv_def)
  moreover have "count_inv (set_phase i (Handshaking (gs_next s)) s)" using assms by (auto simp: session_inv_def count_inv_def weight_update)
  moreover have "set_phase i p (s\<lparr>gs_next := n\<rparr>) = (set_phase i p s)\<lparr>gs_next := n\<rparr>" for p n by (simp add: set_phase_def)
  ultimately show ?thesis using Inr by (simp add: connect_settles_def session_inv_def)
qed

lemma handshake_settles_inv:
  assumes "session_inv s" "i < length (gs_exchanges s)" "gs_exchanges s ! i = Handshaking lane"
  shows "session_inv (handshake_settles i lane r s)"
proof -
  have closed: "session_inv (s\<lparr>gs_closed := gs_closed s @ [lane]\<rparr>)" by (rule inv_by_fields [OF assms(1)]) simp_all
  have fails: "session_inv (acquire_fails i e (s\<lparr>gs_closed := gs_closed s @ [lane]\<rparr>))" for e
    by (rule acquire_fails_inv [OF closed]) (simp_all add: assms)
  have "owns (set_phase i (Holding lane) s) j l \<longleftrightarrow> owns s j l" for j l using assms(2,3) by (auto simp: owns_def nth_list_update)
  then have "lanes_inv (set_phase i (Holding lane) s)" using assms(1) by (simp add: session_inv_def lanes_inv_def)
  moreover have "queue_inv (set_phase i (Holding lane) s)" using assms by (intro queue_inv_phase) (simp_all add: session_inv_def)
  moreover have "count_inv (set_phase i (Holding lane) s)" using assms by (auto simp: session_inv_def count_inv_def weight_update)
  ultimately have "session_inv (set_phase i (Holding lane) s)" by (simp add: session_inv_def)
  with fails show ?thesis by (simp add: handshake_settles_def split: sum.splits option.splits)
qed

lemma callback_settles_inv:
  assumes "session_inv s" "i < length (gs_exchanges s)" "gs_exchanges s ! i = Holding lane"
  shows "session_inv (callback_settles i lane r s)"
proof (cases r)
  case (Inl e)
  let ?d = "die e s"
  have d: "session_inv ?d" "gs_dead ?d \<noteq> None" "i < length (gs_exchanges ?d)" "gs_exchanges ?d ! i = Holding lane"
    using die_inv [OF assms(1)] assms(2,3) by auto
  have "lanes_inv (set_phase i (Finished (Inl e)) ?d)" "queue_inv (set_phase i (Finished (Inl e)) ?d)"
    using d lanes_inv_finish queue_inv_phase by (auto simp: session_inv_def)
  with d(2) Inl show ?thesis by (simp add: callback_settles_def session_inv_def Let_def) (auto simp: count_inv_def)
next
  case (Inr u)
  let ?s = "set_phase i (Finished (Inr ())) s"
  have "lanes_inv ?s" "queue_inv ?s" "unused lane ?s"
    using assms lanes_inv_finish queue_inv_phase unused_after_finish by (auto simp: session_inv_def)
  then have "session_inv (release_lane lane ?s)"
    using assms by (intro release_lane_inv) (auto simp: session_inv_def count_inv_def weight_update)
  with Inr show ?thesis by (simp add: callback_settles_def)
qed

lemma session_reachable_inv: "session_reachable s \<Longrightarrow> session_inv s"
proof (induction rule: session_reachable.induct)
  case start
  show ?case by (simp add: new_session_def session_inv_def lanes_inv_def queue_inv_def count_inv_def owns_def MAX_LANES_def)
next
  case (step s ev s')
  from step.hyps(2) step.IH show ?case
    by (cases rule: session_step.cases)
      (auto simp: exchange_starts_inv connect_settles_inv handshake_settles_inv callback_settles_inv watch_settles_def close_session_def die_inv(1)
        split: sum.splits)
qed
section \<open>A stranded exchange\<close>

lemma starts_reachable:
  "k \<le> 64 \<Longrightarrow> session_reachable (new_session\<lparr>gs_lane_count := int k, gs_exchanges := replicate k Connecting\<rparr>)"
proof (induction k)
  case 0
  have "new_session\<lparr>gs_lane_count := int 0, gs_exchanges := replicate 0 Connecting\<rparr> = new_session" by (simp add: new_session_def)
  then show ?case by (simp only: session_reachable.start)
next
  case (Suc k)
  let ?s = "new_session\<lparr>gs_lane_count := int k, gs_exchanges := replicate k Connecting\<rparr>"
  have "session_reachable (exchange_starts ?s)" using Suc by (intro session_reachable.step [OF _ session_step.starts]) simp
  moreover have "exchange_starts ?s = new_session\<lparr>gs_lane_count := int (Suc k), gs_exchanges := replicate (Suc k) Connecting\<rparr>"
    using Suc.prems by (simp add: exchange_starts_def new_session_def MAX_LANES_def replicate_append_same [symmetric])
  ultimately show ?case by simp
qed

lemma fails_reachable:
  "k \<le> 64 \<Longrightarrow> session_reachable (new_session\<lparr>gs_lane_count := 64 - int k, gs_waiters := [64],
     gs_exchanges := replicate k (Finished (Inl e)) @ replicate (64 - k) Connecting @ [Waiting]\<rparr>)"
proof (induction k)
  case 0
  let ?s = "new_session\<lparr>gs_lane_count := int 64, gs_exchanges := replicate 64 Connecting\<rparr>"
  have "session_reachable (exchange_starts ?s)" using starts_reachable [of 64] by (intro session_reachable.step [OF _ session_step.starts]) simp
  then show ?case by (simp add: exchange_starts_def new_session_def MAX_LANES_def)
next
  case (Suc k)
  let ?s = "new_session\<lparr>gs_lane_count := 64 - int k, gs_waiters := [64], gs_exchanges := replicate k (Finished (Inl e)) @ replicate (64 - k) Connecting @ [Waiting]\<rparr>"
  have "gs_exchanges ?s ! k = Connecting" using Suc.prems by (simp add: nth_append)
  then have "session_reachable (connect_settles k (Inl e) ?s)"
    using Suc by (intro session_reachable.step [OF _ session_step.connects]) simp_all
  moreover have "replicate (64 - k) Connecting = Connecting # replicate (64 - Suc k) Connecting" using Suc.prems by (simp add: Suc_diff_Suc flip: replicate_Suc)
  then have "connect_settles k (Inl e) ?s = new_session\<lparr>gs_lane_count := 64 - int (Suc k), gs_waiters := [64],
      gs_exchanges := replicate (Suc k) (Finished (Inl e)) @ replicate (64 - Suc k) Connecting @ [Waiting]\<rparr>"
    by (simp add: connect_settles_def acquire_fails_def set_phase_def new_session_def list_update_append replicate_app_Cons_same)
  ultimately show ?case by simp
qed

section \<open>Properties\<close>

text \<open>
  C35: A lane serves one exchange at a time.  In every reachable state of a session no two exchanges hold or set up the same lane and no
  lane that is held is free; while the session lives at most 64 lanes exist, counting those being connected; and an
  exchange waits only while the session lives and no lane is free.
\<close>
theorem session_lanes_exclusive:
  assumes "session_reachable s"
  shows "(owns s i l \<longrightarrow> owns s j l \<longrightarrow> i = j) \<and> (owns s i l \<longrightarrow> l \<notin> set (gs_free s)) \<and>
    (gs_dead s = None \<longrightarrow> gs_lane_count s = int (length (gs_free s)) + sum_list (map phase_weight (gs_exchanges s)) \<and> gs_lane_count s \<le> 64) \<and>
    (i < length (gs_exchanges s) \<and> gs_exchanges s ! i = Waiting \<longrightarrow> gs_dead s = None \<and> gs_free s = [])"
proof -
  have "session_inv s" by (rule session_reachable_inv [OF assms])
  then have l: "lanes_inv s" and q: "queue_inv s" and c: "count_inv s" by (simp_all add: session_inv_def)
  have w: "i < length (gs_exchanges s) \<and> gs_exchanges s ! i = Waiting \<longrightarrow> gs_dead s = None \<and> gs_free s = []"
    using q unfolding queue_inv_def by (metis list.set_intros(1) empty_iff list.set(1))
  show ?thesis using l c w unfolding lanes_inv_def count_inv_def MAX_LANES_def by blast
qed

theorem session_lanes_exclusive_witness:
  "let s = exchange_starts (exchange_starts new_session)
   in session_reachable s \<and> gs_lane_count s = int (length (gs_free s)) + sum_list (map phase_weight (gs_exchanges s)) \<and> gs_lane_count s \<le> 64"
proof -
  have r: "session_reachable (exchange_starts (exchange_starts new_session))"
    by (intro session_reachable.step [OF _ session_step.starts] session_reachable.start)
  have "gs_dead (exchange_starts (exchange_starts new_session)) = None" by (simp add: exchange_starts_def new_session_def MAX_LANES_def)
  with session_lanes_exclusive [OF r] r show ?thesis unfolding Let_def by blast
qed

text \<open>
  C36: An exchange can be left waiting with no lane to wait for.  When 64 lanes are being connected and another exchange queues, and the
  connections then fail, the count returns to zero and nobody looks at the queue: the session lives, no lane exists or
  is being made, and the exchange still waits.
\<close>
theorem waiting_exchange_stranded:
  "\<exists>s. session_reachable s \<and> gs_dead s = None \<and> gs_waiters s \<noteq> [] \<and> gs_free s = [] \<and> gs_lane_count s = 0 \<and>
    (\<forall>i l. \<not> owns s i l) \<and> Connecting \<notin> set (gs_exchanges s)"
proof -
  define e where "e = Error ''connection refused''"
  let ?s = "new_session\<lparr>gs_lane_count := 0, gs_waiters := [64], gs_exchanges := replicate 64 (Finished (Inl e)) @ [Waiting]\<rparr>"
  have "session_reachable ?s" using fails_reachable [of 64 e] by simp
  moreover have "gs_exchanges ?s ! i = Finished (Inl e) \<or> gs_exchanges ?s ! i = Waiting" if "i < 65" for i
    using that by (cases "i = 64") (simp_all add: nth_append)
  then have "\<not> owns ?s i l" for i l by (fastforce simp: owns_def)
  moreover have "Connecting \<notin> set (gs_exchanges ?s)" "gs_dead ?s = None" "gs_waiters ?s \<noteq> []" "gs_free ?s = []" "gs_lane_count ?s = 0"
    by (simp_all add: new_session_def)
  ultimately show ?thesis by blast
qed
end
