(* ===== verification/Http.thy ===== *)
theory Http
  imports Ip_Packet Ethernet "HOL-Library.List_Lexorder"
begin

text \<open>
  The HTTP/1.1 primitives of \<open>packages/linux-guest/src/http.ts\<close>: heads, lines and bodies over a buffered reader, the chunked transfer
  coding in both directions, framing and header fields.

  The stream under a reader is the list of the chunks it will still deliver, after which it ends or fails.  A regular
  expression of the source is a recogniser over UTF-8; \<open>Headers\<close> is the list of its fields with lower-case names, as the Fetch standard
  defines it.
\<close>

section \<open>Text\<close>

definition MAX_HEAD_BYTES :: nat where "MAX_HEAD_BYTES = 65536"
definition MAX_LINE_BYTES :: nat where "MAX_LINE_BYTES = 8192"
definition MAX_TRAILER_BYTES :: nat where "MAX_TRAILER_BYTES = 65536"

text \<open>The UTF-16 length of a text.\<close>

definition utf16_length :: "ustring \<Rightarrow> nat" where
  "utf16_length s = sum_list (map (\<lambda>b. if 240 \<le> b then 2 else if 128 \<le> b \<and> b < 192 then 0 else 1) s)"

text \<open>The white space \<open>\s\<close> and \<open>trim\<close> know, as the encodings of their characters.\<close>

definition whitespace :: "bytes list" where
  "whitespace = [[9], [10], [11], [12], [13], [32], [0xc2, 0xa0], [0xe1, 0x9a, 0x80], [0xe2, 0x80, 0x80], [0xe2, 0x80, 0x81], [0xe2, 0x80, 0x82],
     [0xe2, 0x80, 0x83], [0xe2, 0x80, 0x84], [0xe2, 0x80, 0x85], [0xe2, 0x80, 0x86], [0xe2, 0x80, 0x87], [0xe2, 0x80, 0x88], [0xe2, 0x80, 0x89],
     [0xe2, 0x80, 0x8a], [0xe2, 0x80, 0xa8], [0xe2, 0x80, 0xa9], [0xe2, 0x80, 0xaf], [0xe2, 0x81, 0x9f], [0xe3, 0x80, 0x80], [0xef, 0xbb, 0xbf]]"

definition starts_with :: "bytes \<Rightarrow> bytes \<Rightarrow> bool" where
  "starts_with p s \<longleftrightarrow> take (length p) s = p"

fun has_whitespace :: "bytes \<Rightarrow> bool" where
  "has_whitespace [] = False"
| "has_whitespace (b # bs) = (list_ex (\<lambda>w. starts_with w (b # bs)) whitespace \<or> has_whitespace bs)"

function strip_left :: "bytes list \<Rightarrow> bytes \<Rightarrow> bytes" where
  "strip_left ws s = (case find (\<lambda>w. w \<noteq> [] \<and> starts_with w s) ws of None \<Rightarrow> s | Some w \<Rightarrow> strip_left ws (drop (length w) s))"
  by auto
termination
proof (relation "measure (\<lambda>(ws, s). length s)")
  fix ws :: "bytes list" and s w assume "find (\<lambda>w. w \<noteq> [] \<and> starts_with w s) ws = Some w"
  hence "w \<noteq> [] \<and> starts_with w s"
    by (auto simp: find_Some_iff)
  thus "((ws, drop (length w) s), ws, s) \<in> measure (\<lambda>(ws, s). length s)"
    by (cases s) (auto simp: starts_with_def)
qed simp

declare strip_left.simps [simp del]

definition trim :: "bytes \<Rightarrow> bytes" where
  "trim s = rev (strip_left (map rev whitespace) (rev (strip_left whitespace s)))"

definition upper_byte :: "byte \<Rightarrow> bool" where "upper_byte b \<longleftrightarrow> 65 \<le> b \<and> b \<le> 90"
definition digit_byte :: "byte \<Rightarrow> bool" where "digit_byte b \<longleftrightarrow> 48 \<le> b \<and> b \<le> 57"
definition hex_byte :: "byte \<Rightarrow> bool" where
  "hex_byte b \<longleftrightarrow> digit_byte b \<or> 65 \<le> b \<and> b \<le> 70 \<or> 97 \<le> b \<and> b \<le> 102"

definition to_lower :: "bytes \<Rightarrow> bytes" where
  "to_lower s = map (\<lambda>b. if upper_byte b then b + 32 else b) s"

text \<open>\<open>TOKEN_RE\<close>.\<close>

definition token_byte :: "byte \<Rightarrow> bool" where
  "token_byte b \<longleftrightarrow> digit_byte b \<or> upper_byte b \<or> 97 \<le> b \<and> b \<le> 122 \<or> b \<in> set (ascii ''!#$%&*+.^_`|~-'') \<or> b = 39"

definition is_token :: "bytes \<Rightarrow> bool" where
  "is_token s \<longleftrightarrow> s \<noteq> [] \<and> list_all token_byte s"

section \<open>Header fields\<close>

type_synonym headers = "(ustring \<times> ustring) list"

record http_head =
  hh_line :: ustring
  hh_raw :: "(ustring \<times> ustring) list"
  hh_headers :: headers

text \<open>A value every character of which is below U+0100, as \<open>Headers\<close> requires.\<close>

fun latin1 :: "bytes \<Rightarrow> bool" where
  "latin1 [] = True"
| "latin1 (b # bs) = (if b < 128 then latin1 bs else (b = 0xc2 \<or> b = 0xc3) \<and> (case bs of c # r \<Rightarrow> latin1 r | [] \<Rightarrow> False))"

text \<open>\<open>Headers.append\<close> strips HTTP white space and refuses what is no name or no value; \<open>get\<close> joins the values of a name.\<close>

definition normalize_value :: "bytes \<Rightarrow> bytes" where
  "normalize_value v = (let http_ws = [[9], [10], [13], [32]] in rev (strip_left http_ws (rev (strip_left http_ws v))))"

definition headers_append :: "ustring \<Rightarrow> ustring \<Rightarrow> headers \<Rightarrow> headers result" where
  "headers_append name v hs =
     (if \<not> latin1 v then Inl (TypeError ''invalid header value'')
      else if \<not> is_token name then Inl (TypeError ''invalid header name'')
      else if list_ex (\<lambda>b. b = 0 \<or> b = 10 \<or> b = 13) (normalize_value v) then Inl (TypeError ''invalid header value'')
      else Inr (hs @ [(to_lower name, normalize_value v)]))"

definition headers_get :: "ustring \<Rightarrow> headers \<Rightarrow> ustring option" where
  "headers_get name hs = (case map snd (filter (\<lambda>h. fst h = to_lower name) hs) of [] \<Rightarrow> None | vs \<Rightarrow> Some (join_bytes [44, 32] vs))"

definition headers_delete :: "ustring \<Rightarrow> headers \<Rightarrow> headers" where
  "headers_delete name hs = filter (\<lambda>h. fst h \<noteq> to_lower name) hs"

text \<open>The order of iteration: names sorted, values joined, but every \<open>set-cookie\<close> on its own.\<close>

definition headers_entries :: "headers \<Rightarrow> (ustring \<times> ustring) list" where
  "headers_entries hs = concat (map (\<lambda>n.
     if n = map unat (ascii ''set-cookie'') then filter (\<lambda>h. map unat (fst h) = n) hs
     else [(map of_nat n, join_bytes [44, 32] (map snd (filter (\<lambda>h. map unat (fst h) = n) hs)))])
     (sort (remdups (map (\<lambda>h. map unat (fst h)) hs))))"

section \<open>Parsing a head\<close>

text \<open>\<open>NON_CRLF_LINE_ENDING_RE\<close>: a line feed that no carriage return precedes; \<open>prev\<close> is the byte before.\<close>

fun bare_lf :: "byte option \<Rightarrow> bytes \<Rightarrow> bool" where
  "bare_lf prev [] = False"
| "bare_lf prev (b # bs) = (b = 10 \<and> prev \<noteq> Some 13 \<or> bare_lf (Some b) bs)"

text \<open>\<open>text.split("\\r\\n")\<close> and \<open>text.split(/\\r?\\n/)\<close>; \<open>acc\<close> is the line so far.\<close>

fun split_crlf :: "bytes \<Rightarrow> bytes \<Rightarrow> bytes list" where
  "split_crlf acc [] = [acc]"
| "split_crlf acc [b] = [acc @ [b]]"
| "split_crlf acc (b # c # bs) = (if b = 13 \<and> c = 10 then acc # split_crlf [] bs else split_crlf (acc @ [b]) (c # bs))"

definition drop_cr :: "bytes \<Rightarrow> bytes" where
  "drop_cr l = (if l \<noteq> [] \<and> last l = 13 then butlast l else l)"

fun split_lf :: "bytes \<Rightarrow> bytes \<Rightarrow> bytes list" where
  "split_lf acc [] = [acc]"
| "split_lf acc (b # bs) = (if b = 10 then drop_cr acc # split_lf [] bs else split_lf (acc @ [b]) bs)"

definition invalid_value_byte :: "byte \<Rightarrow> bool" where
  "invalid_value_byte b \<longleftrightarrow> b \<le> 8 \<or> b = 11 \<or> b = 12 \<or> 14 \<le> b \<and> b \<le> 31 \<or> b = 127 \<or> b = 13"

fun parse_headers :: "bytes list \<Rightarrow> (ustring \<times> ustring) list \<times> headers \<Rightarrow> ((ustring \<times> ustring) list \<times> headers) result" where
  "parse_headers [] acc = Inr acc"
| "parse_headers (header # ls) (raw, hs) =
     (if header = [] then parse_headers ls (raw, hs)
      else case index_of 58 header of
        None \<Rightarrow> Inl (Error (''malformed HTTP header: '' @ js_text header))
      | Some colon \<Rightarrow>
          if colon = 0 \<or> has_whitespace (take colon header) then Inl (Error (''malformed HTTP header: '' @ js_text header))
          else
            let name = take colon header; raw_value = drop (Suc colon) header
            in if list_ex invalid_value_byte raw_value then Inl (Error (''malformed HTTP header: '' @ js_text header))
               else bindE (headers_append name (trim raw_value) hs) (\<lambda>hs'. parse_headers ls (raw @ [(name, trim raw_value)], hs')))"

definition parse_head :: "ustring \<Rightarrow> bool \<Rightarrow> http_head result" where
  "parse_head text strict_crlf =
     (if strict_crlf \<and> bare_lf None text then Inl (Error ''HTTP requires CRLF line endings'')
      else
        let ls = (if strict_crlf then split_crlf [] text else split_lf [] text)
        in bindE (parse_headers (tl ls) ([], [])) (\<lambda>(raw, hs). Inr \<lparr>hh_line = hd ls, hh_raw = raw, hh_headers = hs\<rparr>))"

section \<open>The reader\<close>

record byte_reader =
  br_input :: "bytes list"
  br_failure :: "js_error option"
  br_buffer :: bytes
  br_ended :: bool
  br_strict :: bool
  br_cancelled :: bool
  br_released :: bool

definition new_byte_reader :: "bytes list \<Rightarrow> js_error option \<Rightarrow> bool \<Rightarrow> byte_reader" where
  "new_byte_reader input failure strict = \<lparr>br_input = input, br_failure = failure, br_buffer = [], br_ended = False, br_strict = strict,
     br_cancelled = False, br_released = False\<rparr>"

fun fill_loop :: "bytes list \<Rightarrow> byte_reader \<Rightarrow> byte_reader \<times> bool result" where
  "fill_loop [] r = (case br_failure r of
       Some e \<Rightarrow> (r\<lparr>br_input := []\<rparr>, Inl e)
     | None \<Rightarrow> (r\<lparr>br_input := [], br_ended := True\<rparr>, Inr False))"
| "fill_loop (chunk # chunks) r =
     (if chunk = [] then fill_loop chunks r else (r\<lparr>br_input := chunks, br_buffer := br_buffer r @ chunk\<rparr>, Inr True))"

definition fill :: "byte_reader \<Rightarrow> byte_reader \<times> bool result" where
  "fill r = (if br_ended r then (r, Inr False) else fill_loop (br_input r) r)"

definition consume_bytes :: "nat \<Rightarrow> byte_reader \<Rightarrow> byte_reader \<times> bytes" where
  "consume_bytes n r = (r\<lparr>br_buffer := drop n (br_buffer r)\<rparr>, take n (br_buffer r))"

text \<open>The end of a head that has its blank line at \<open>index\<close>; reading past the buffer gives \<open>undefined\<close>.\<close>

definition byte_at :: "bytes \<Rightarrow> nat \<Rightarrow> byte option" where
  "byte_at bs i = (if i < length bs then Some (bs ! i) else None)"

definition head_end_at :: "bool \<Rightarrow> bytes \<Rightarrow> nat \<Rightarrow> nat option" where
  "head_end_at strict bs index =
     (if strict then
        if byte_at bs index = Some 13 \<and> byte_at bs (index + 1) = Some 10 \<and> byte_at bs (index + 2) = Some 13 \<and> byte_at bs (index + 3) = Some 10
        then Some (index + 4) else None
      else if byte_at bs index \<noteq> Some 10 then None
      else
        let follow = (if byte_at bs (index + 1) = Some 13 then index + 2 else index + 1)
        in if byte_at bs follow = Some 10 then Some (follow + 1) else None)"

function find_head_end :: "bool \<Rightarrow> bytes \<Rightarrow> nat \<Rightarrow> nat option" where
  "find_head_end strict bs index =
     (if Suc index < length bs then
        (case head_end_at strict bs index of Some stop \<Rightarrow> Some stop | None \<Rightarrow> find_head_end strict bs (Suc index))
      else None)"
  by auto
termination
  by (relation "measure (\<lambda>(strict, bs, index). length bs - index)") auto

declare find_head_end.simps [simp del]

lemma fill_loop_input: "fill_loop cs r = (r', Inr True) \<Longrightarrow> length (br_input r') < length cs"
  by (induction cs r rule: fill_loop.induct) (auto split: if_splits option.splits)

lemma fill_input: "fill r = (r', Inr True) \<Longrightarrow> length (br_input r') < length (br_input r)"
  by (auto simp: fill_def dest: fill_loop_input split: if_splits)

function read_head_from :: "nat \<Rightarrow> byte_reader \<Rightarrow> byte_reader \<times> http_head option result" where
  "read_head_from searched r =
     (let bs = br_buffer r
      in case find_head_end (br_strict r) bs searched of
           Some stop \<Rightarrow>
             if stop > MAX_HEAD_BYTES then (r, Inl (Error ''HTTP head too large''))
             else (case consume_bytes stop r of (r', text) \<Rightarrow> (r', bindE (parse_head (text_decode text) (br_strict r)) (\<lambda>h. Inr (Some h))))
         | None \<Rightarrow>
             if length bs > MAX_HEAD_BYTES then (r, Inl (Error ''HTTP head too large''))
             else (case fill r of
                 (r', Inl e) \<Rightarrow> (r', Inl e)
               | (r', Inr got) \<Rightarrow>
                   if got then read_head_from (length bs - 3) r'
                   else (r', if bs = [] then Inr None else Inl (Error ''unexpected end of HTTP head''))))"
  by pat_completeness auto
termination
  by (relation "measure (\<lambda>(searched, r). length (br_input r))") (auto dest: fill_input [OF sym])

declare read_head_from.simps [simp del]

definition read_head :: "byte_reader \<Rightarrow> byte_reader \<times> http_head option result" where
  "read_head r = read_head_from 0 r"

text \<open>The line that ends at \<open>index\<close> of the consumed bytes.\<close>

definition line_text :: "bool \<Rightarrow> bytes \<Rightarrow> nat \<Rightarrow> ustring result" where
  "line_text strict bs index =
     (let stop = (if index > 0 \<and> bs ! (index - 1) = 13 then index - 1 else index)
      in if strict \<and> (index = 0 \<or> bs ! (index - 1) \<noteq> 13) then Inl (Error ''HTTP requires CRLF line endings'')
         else if strict \<and> 13 \<in> set (take stop bs) then Inl (Error ''HTTP requires CRLF line endings'')
         else Inr (text_decode (take stop bs)))"

function read_line :: "byte_reader \<Rightarrow> byte_reader \<times> ustring result" where
  "read_line r = (case index_of 10 (br_buffer r) of
       Some index \<Rightarrow>
         if Suc index > MAX_LINE_BYTES then (r, Inl (Error ''HTTP line too long''))
         else (case consume_bytes (Suc index) r of (r', bs) \<Rightarrow> (r', line_text (br_strict r) bs index))
     | None \<Rightarrow>
         if length (br_buffer r) > MAX_LINE_BYTES then (r, Inl (Error ''HTTP line too long''))
         else (case fill r of
             (r', Inl e) \<Rightarrow> (r', Inl e)
           | (r', Inr got) \<Rightarrow> if got then read_line r' else (r', Inl (Error ''unexpected end of HTTP line''))))"
  by pat_completeness auto
termination
  by (relation "measure (\<lambda>r. length (br_input r))") (auto dest: fill_input [OF sym])

declare read_line.simps [simp del]

text \<open>\<open>take(limit)\<close>; \<open>None\<close> is no limit.\<close>

definition read_take :: "nat option \<Rightarrow> byte_reader \<Rightarrow> byte_reader \<times> bytes option result" where
  "read_take limit r =
     (case (if br_buffer r = [] then fill r else (r, Inr True)) of
        (r1, Inl e) \<Rightarrow> (r1, Inl e)
      | (r1, Inr got) \<Rightarrow>
          if \<not> got then (r1, Inr None)
          else (case consume_bytes (case limit of None \<Rightarrow> length (br_buffer r1) | Some n \<Rightarrow> min n (length (br_buffer r1))) r1 of (r2, bs) \<Rightarrow> (r2, Inr (Some bs))))"

definition cancel_reader :: "byte_reader \<Rightarrow> byte_reader" where
  "cancel_reader r = r\<lparr>br_cancelled := True\<rparr>"

definition detach :: "byte_reader \<Rightarrow> byte_reader \<times> bytes" where
  "detach r = (r\<lparr>br_buffer := [], br_released := True\<rparr>, br_buffer r)"


section \<open>Start lines\<close>

definition http_versions :: "ustring list" where
  "http_versions = [ascii ''HTTP/1.0'', ascii ''HTTP/1.1'']"

definition invalid_target_byte :: "byte \<Rightarrow> bool" where
  "invalid_target_byte b \<longleftrightarrow> b = 35 \<or> b = 92 \<or> b \<le> 31 \<or> 127 \<le> b"

text \<open>\<open>REQUEST_LINE_RE\<close>: neither the method nor the target has a space, so the spaces are where the line is cut.\<close>

definition parse_request_line :: "ustring \<Rightarrow> (ustring \<times> ustring) result" where
  "parse_request_line line =
     (let bad = Inl (Error (''unsupported HTTP request line: '' @ js_text line))
      in case index_of 32 line of
        None \<Rightarrow> bad
      | Some i \<Rightarrow>
          let method = take i line; rest = drop (Suc i) line
          in if method = [] \<or> \<not> list_all upper_byte method then bad
             else case index_of 32 rest of
               None \<Rightarrow> bad
             | Some j \<Rightarrow>
                 let target = take j rest
                 in if target = [] \<or> hd target \<noteq> 47 \<or> drop (Suc j) rest \<notin> set http_versions then bad
                    else if list_ex invalid_target_byte target
                    then Inl (Error (''unsupported HTTP request target: '' @ js_text target))
                    else Inr (method, target))"

text \<open>What \<open>.\<close> does not match: the line terminators, of which U+2028 and U+2029 take three bytes.\<close>

fun has_line_terminator :: "bytes \<Rightarrow> bool" where
  "has_line_terminator [] = False"
| "has_line_terminator (b # bs) = (list_ex (\<lambda>w. starts_with w (b # bs)) [[10], [13], [0xe2, 0x80, 0xa8], [0xe2, 0x80, 0xa9]] \<or> has_line_terminator bs)"

definition digits_value :: "nat \<Rightarrow> bytes \<Rightarrow> nat" where
  "digits_value base ds = foldl (\<lambda>n b. base * n + (if b \<le> 57 then unat b - 48 else if b \<le> 70 then unat b - 55 else unat b - 87)) 0 ds"

definition parse_status_line :: "ustring \<Rightarrow> (nat \<times> ustring) result" where
  "parse_status_line line =
     (let status = take 3 (drop 9 line); tail = drop 12 line
      in if take 8 line \<in> set http_versions \<and> byte_at line 8 = Some 32 \<and> length status = 3 \<and> list_all digit_byte status
            \<and> (tail = [] \<or> hd tail = 32 \<and> \<not> has_line_terminator (tl tail))
         then Inr (digits_value 10 status, tl tail)
         else Inl (Error (''malformed HTTP status line: '' @ js_text line)))"

section \<open>Body framing\<close>

datatype framing = Counted nat | Chunked

text \<open>
  The numbers of a field are exact as long as they are safe integers, and a larger one is never rounded down into that range.
\<close>

definition MAX_SAFE_INTEGER :: nat where "MAX_SAFE_INTEGER = 2 ^ 53 - 1"

definition declared_body :: "headers \<Rightarrow> framing option result" where
  "declared_body hs = (let declared = headers_get (ascii ''content-length'') hs in
     case headers_get (ascii ''transfer-encoding'') hs of
       Some encoding \<Rightarrow>
         if declared \<noteq> None then Inl (Error ''HTTP message has both transfer-encoding and content-length'')
         else if to_lower encoding \<noteq> ascii ''chunked'' then Inl (Error (''unsupported transfer encoding: '' @ js_text encoding))
         else Inr (Some Chunked)
     | None \<Rightarrow> (case declared of
         None \<Rightarrow> Inr None
       | Some d \<Rightarrow>
           if d = [] \<or> \<not> list_all digit_byte d then Inl (Error (''invalid content length: '' @ js_text d))
           else if digits_value 10 d > MAX_SAFE_INTEGER then Inl (Error (''invalid content length: '' @ js_text d))
           else Inr (Some (Counted (digits_value 10 d)))))"

definition declared_raw_body :: "http_head \<Rightarrow> framing option result" where
  "declared_raw_body head =
     (let named = (\<lambda>n. filter (\<lambda>h. to_lower (fst h) = ascii n) (hh_raw head))
      in if length (named ''content-length'') > 1 then Inl (Error ''HTTP message has duplicate content-length'')
         else if length (named ''transfer-encoding'') > 1 then Inl (Error ''HTTP message has duplicate transfer-encoding'')
         else declared_body (hh_headers head))"

section \<open>Bodies\<close>

text \<open>
  A \<open>pull\<close> gives the controller at most one chunk and may close it.  \<open>read_body\<close> is the consumer that reads such a stream to its end.
\<close>

type_synonym pulled = "(bytes option \<times> bool) result"

definition chunk_bytes :: "bytes option \<Rightarrow> bytes" where
  "chunk_bytes x = (case x of None \<Rightarrow> [] | Some bs \<Rightarrow> bs)"

partial_function (option) read_body :: "('s \<Rightarrow> 's \<times> pulled) \<Rightarrow> 's \<Rightarrow> ('s \<times> bytes result) option" where
  "read_body pull s = (case pull s of
       (s', Inl e) \<Rightarrow> Some (s', Inl e)
     | (s', Inr (x, closed)) \<Rightarrow>
         if closed then Some (s', Inr (chunk_bytes x))
         else Option.bind (read_body pull s') (\<lambda>(s'', y). Some (s'', map_sum (\<lambda>e. e) (\<lambda>bs. chunk_bytes x @ bs) y)))"

definition fixed_pull :: "nat \<times> byte_reader \<Rightarrow> (nat \<times> byte_reader) \<times> pulled" where
  "fixed_pull = (\<lambda>(remaining, r).
     if remaining = 0 then ((0, r), Inr (None, True))
     else (case read_take (Some remaining) r of
         (r', Inl e) \<Rightarrow> ((remaining, r'), Inl e)
       | (r', Inr None) \<Rightarrow> ((remaining, r'), Inl (Error ''HTTP body ended early''))
       | (r', Inr (Some chunk)) \<Rightarrow> ((remaining - length chunk, r'), Inr (Some chunk, remaining - length chunk = 0))))"

definition eof_pull :: "byte_reader \<Rightarrow> byte_reader \<times> pulled" where
  "eof_pull r = (case read_take None r of
       (r', Inl e) \<Rightarrow> (r', Inl e)
     | (r', Inr None) \<Rightarrow> (r', Inr (None, True))
     | (r', Inr (Some chunk)) \<Rightarrow> (r', Inr (Some chunk, False)))"

text \<open>\<open>CHUNK_SIZE_RE\<close>.  The bytes that may follow a token are not token bytes, so the longest token is the only one that can match.\<close>

lemma dropWhile_tl_le: "length (dropWhile P (tl (dropWhile P s))) \<le> length s"
  using length_dropWhile_le [of P s] length_dropWhile_le [of P "tl (dropWhile P s)"] length_tl [of "dropWhile P s"] by linarith

function chunk_extensions :: "bytes \<Rightarrow> bool" where
  "chunk_extensions [] = True"
| "chunk_extensions (b # s) =
     (let s1 = dropWhile token_byte s
      in if b \<noteq> 59 \<or> takeWhile token_byte s = [] then False
         else if s1 = [] \<or> hd s1 \<noteq> 61 then chunk_extensions s1
         else if tl s1 \<noteq> [] \<and> hd (tl s1) = 34 then
           (case index_of 34 (tl (tl s1)) of None \<Rightarrow> False | Some i \<Rightarrow> chunk_extensions (drop (Suc i) (tl (tl s1))))
         else takeWhile token_byte (tl s1) \<noteq> [] \<and> chunk_extensions (dropWhile token_byte (tl s1)))"
  by pat_completeness auto
termination
  by (relation "measure length")
    (auto simp: less_Suc_eq_le dropWhile_tl_le intro: order_trans [OF length_dropWhile_le] order_trans [OF diff_le_self])

declare chunk_extensions.simps(2) [simp del]

definition is_chunk_size :: "ustring \<Rightarrow> bool" where
  "is_chunk_size s \<longleftrightarrow> takeWhile hex_byte s \<noteq> [] \<and> chunk_extensions (dropWhile hex_byte s)"

definition parse_chunk_size :: "ustring \<Rightarrow> nat result" where
  "parse_chunk_size line =
     (if \<not> is_chunk_size line then Inl (Error (''malformed chunk size: '' @ js_text line))
      else if digits_value 16 (takeWhile hex_byte line) > MAX_SAFE_INTEGER then Inl (Error (''chunk size is too large: '' @ js_text line))
      else Inr (digits_value 16 (takeWhile hex_byte line)))"

text \<open>The bytes a reader has not given out yet.\<close>

definition unread :: "byte_reader \<Rightarrow> bytes" where
  "unread r = br_buffer r @ concat (br_input r)"

lemma fill_loop_unread: "fill_loop cs r = (r', res) \<Longrightarrow> br_buffer r' @ concat (br_input r') = br_buffer r @ concat cs"
  by (induction cs r rule: fill_loop.induct) (auto split: if_splits option.splits)

lemma fill_unread: "fill r = (r', res) \<Longrightarrow> unread r' = unread r"
  by (auto simp: fill_def unread_def dest: fill_loop_unread split: if_splits)

lemma consume_bytes_unread: "unread (fst (consume_bytes n r)) = drop n (br_buffer r) @ concat (br_input r)"
  by (simp add: consume_bytes_def unread_def)

lemma read_line_shrinks: "read_line r = (r', Inr l) \<Longrightarrow> length (unread r') < length (unread r)"
proof (induction r rule: read_line.induct)
  case (1 r)
  show ?case
  proof (cases "index_of 10 (br_buffer r)")
    case (Some i)
    with 1(2) have "r' = fst (consume_bytes (Suc i) r)"
      by (auto simp: read_line.simps [of r] consume_bytes_def split: if_splits)
    thus ?thesis
      using Some [unfolded index_of_Some] by (auto simp: consume_bytes_def unread_def)
  next
    case None
    with 1 show ?thesis
      by (auto simp: read_line.simps [of r] fill_unread split: if_splits prod.splits sum.splits)
  qed
qed

function read_trailers :: "nat \<Rightarrow> byte_reader \<Rightarrow> byte_reader \<times> unit result" where
  "read_trailers trailer_bytes r = (case read_line r of
       (r', Inl e) \<Rightarrow> (r', Inl e)
     | (r', Inr trailer) \<Rightarrow>
         let n = trailer_bytes + utf16_length trailer + 2
         in if n > MAX_TRAILER_BYTES then (r', Inl (Error ''HTTP trailers too large''))
            else if trailer = [] then (r', Inr ())
            else read_trailers n r')"
  by pat_completeness auto
termination
  by (relation "measure (\<lambda>(n, r). length (unread r))") (auto dest: read_line_shrinks [OF sym])

declare read_trailers.simps [simp del]

record chunked_source =
  cb_reader :: byte_reader
  cb_remaining :: nat
  cb_between :: bool

definition chunked_body :: "byte_reader \<Rightarrow> chunked_source" where
  "chunked_body r = \<lparr>cb_reader = r, cb_remaining = 0, cb_between = False\<rparr>"

definition chunk_boundary :: "chunked_source \<Rightarrow> chunked_source \<times> unit result" where
  "chunk_boundary c =
     (if \<not> cb_between c then (c, Inr ())
      else case read_line (cb_reader c) of
        (r, Inl e) \<Rightarrow> (c\<lparr>cb_reader := r\<rparr>, Inl e)
      | (r, Inr l) \<Rightarrow>
          if l \<noteq> [] then (c\<lparr>cb_reader := r\<rparr>, Inl (Error ''malformed chunk boundary''))
          else (c\<lparr>cb_reader := r, cb_between := False\<rparr>, Inr ()))"

text \<open>The size line of the next chunk and, after the last one, the trailer fields; the result tells whether the body has ended.\<close>

definition chunk_size_line :: "chunked_source \<Rightarrow> chunked_source \<times> bool result" where
  "chunk_size_line c = (case read_line (cb_reader c) of
       (r, Inl e) \<Rightarrow> (c\<lparr>cb_reader := r\<rparr>, Inl e)
     | (r, Inr l) \<Rightarrow> (case parse_chunk_size l of
         Inl e \<Rightarrow> (c\<lparr>cb_reader := r\<rparr>, Inl e)
       | Inr n \<Rightarrow>
           if n = 0 then (case read_trailers 0 r of (r', t) \<Rightarrow> (c\<lparr>cb_reader := r', cb_remaining := 0\<rparr>, map_sum (\<lambda>e. e) (\<lambda>_. True) t))
           else (c\<lparr>cb_reader := r, cb_remaining := n\<rparr>, Inr False)))"

definition chunked_pull :: "chunked_source \<Rightarrow> chunked_source \<times> pulled" where
  "chunked_pull c =
     (case (if cb_remaining c = 0
            then (case chunk_boundary c of (c1, Inl e) \<Rightarrow> (c1, Inl e) | (c1, Inr _) \<Rightarrow> chunk_size_line c1)
            else (c, Inr False)) of
        (c1, Inl e) \<Rightarrow> (c1, Inl e)
      | (c1, Inr ended) \<Rightarrow>
          if ended then (c1, Inr (None, True))
          else (case read_take (Some (cb_remaining c1)) (cb_reader c1) of
              (r, Inl e) \<Rightarrow> (c1\<lparr>cb_reader := r\<rparr>, Inl e)
            | (r, Inr None) \<Rightarrow> (c1\<lparr>cb_reader := r\<rparr>, Inl (Error ''HTTP body ended early''))
            | (r, Inr (Some chunk)) \<Rightarrow>
                (let remaining = cb_remaining c1 - length chunk
                 in (c1\<lparr>cb_reader := r, cb_remaining := remaining, cb_between := remaining = 0 \<or> cb_between c1\<rparr>, Inr (Some chunk, False)))))"

text \<open>The encoder's \<open>transform\<close> and \<open>flush\<close>, and all it writes for a stream of chunks.\<close>

definition CRLF :: bytes where "CRLF = [13, 10]"

definition encode_chunk :: "bytes \<Rightarrow> bytes list" where
  "encode_chunk chunk = (if chunk = [] then [] else [ascii (hex_digits (length chunk)) @ CRLF, chunk, CRLF])"

definition encode_flush :: "bytes list" where
  "encode_flush = [ascii ''0'' @ CRLF @ CRLF]"

definition chunked_encoder :: "bytes list \<Rightarrow> bytes list" where
  "chunked_encoder chunks = concat (map encode_chunk chunks) @ encode_flush"

section \<open>Writing a head\<close>

definition HOP_BY_HOP :: "ustring list" where
  "HOP_BY_HOP = map ascii [''connection'', ''keep-alive'', ''proxy-authenticate'', ''proxy-authorization'', ''proxy-connection'',
     ''te'', ''trailer'', ''transfer-encoding'', ''upgrade'']"

fun split_comma :: "bytes \<Rightarrow> bytes \<Rightarrow> bytes list" where
  "split_comma acc [] = [acc]"
| "split_comma acc (b # bs) = (if b = 44 then acc # split_comma [] bs else split_comma (acc @ [b]) bs)"

fun delete_named :: "ustring \<Rightarrow> ustring list \<Rightarrow> headers \<Rightarrow> headers \<times> unit result" where
  "delete_named connection [] hs = (hs, Inr ())"
| "delete_named connection (name # names) hs =
     (if \<not> is_token (trim name) then (hs, Inl (Error (''invalid Connection header: '' @ js_text connection)))
      else delete_named connection names (headers_delete (trim name) hs))"

fun delete_all :: "ustring list \<Rightarrow> headers \<Rightarrow> headers \<times> unit result" where
  "delete_all [] hs = (hs, Inr ())"
| "delete_all (name # names) hs =
     (if \<not> is_token name then (hs, Inl (TypeError ''invalid header name'')) else delete_all names (headers_delete name hs))"

text \<open>The headers object is changed in place, also before an error.\<close>

definition strip_hop_by_hop :: "headers \<Rightarrow> ustring list \<Rightarrow> headers \<times> unit result" where
  "strip_hop_by_hop hs additional =
     (case (case headers_get (ascii ''connection'') hs of
              None \<Rightarrow> (hs, Inr ())
            | Some connection \<Rightarrow> delete_named connection (split_comma [] connection) hs) of
        (hs1, Inl e) \<Rightarrow> (hs1, Inl e)
      | (hs1, Inr _) \<Rightarrow> delete_all (HOP_BY_HOP @ additional) hs1)"

definition serialize_head :: "ustring \<Rightarrow> headers \<Rightarrow> bytes" where
  "serialize_head line hs = line @ CRLF @ concat (map (\<lambda>(name, v). name @ ascii '': '' @ v @ CRLF) (headers_entries hs)) @ CRLF"

section \<open>Reading from any fragmentation\<close>

text \<open>A reader that has seen the end of its stream has nothing left to fetch.\<close>

definition source_ok :: "byte_reader \<Rightarrow> bool" where
  "source_ok r \<longleftrightarrow> (br_ended r \<longrightarrow> br_input r = [])"

lemma source_ok_new [simp]: "source_ok (new_byte_reader input failure strict)"
  by (simp add: source_ok_def new_byte_reader_def)

lemma unread_new [simp]: "unread (new_byte_reader input failure strict) = concat input"
  by (simp add: unread_def new_byte_reader_def)

lemma fill_loop_more:
  assumes "concat cs \<noteq> []"
  shows "\<exists>r'. fill_loop cs r = (r', Inr True) \<and> (\<exists>chunk. chunk \<noteq> [] \<and> br_buffer r' = br_buffer r @ chunk) \<and> br_ended r' = br_ended r
    \<and> br_strict r' = br_strict r \<and> br_failure r' = br_failure r"
  using assms by (induction cs) auto

text \<open>While bytes are missing from the buffer, \<open>fill\<close> adds some of them.\<close>

lemma fill_more:
  assumes "source_ok r" "length (br_buffer r) < length (unread r)"
  obtains r' where "fill r = (r', Inr True)" "source_ok r'" "unread r' = unread r" "br_strict r' = br_strict r"
    "length (br_buffer r) < length (br_buffer r')" "br_ended r' = br_ended r" "br_failure r' = br_failure r"
proof -
  from assms have "\<not> br_ended r" "concat (br_input r) \<noteq> []"
    by (auto simp: source_ok_def unread_def)
  then obtain r' where r': "fill r = (r', Inr True)" "br_ended r' = br_ended r" "br_strict r' = br_strict r" "br_failure r' = br_failure r"
      "length (br_buffer r) < length (br_buffer r')"
    using fill_loop_more [of "br_input r" r] by (auto simp: fill_def)
  show thesis
    using r' fill_unread [OF r'(1)] \<open>\<not> br_ended r\<close> by (intro that [of r']) (auto simp: source_ok_def)
qed

lemma fill_end:
  assumes "source_ok r" "br_buffer r = unread r"
  shows "fill r = (if br_ended r \<or> br_failure r = None then (r\<lparr>br_input := [], br_ended := True\<rparr>, Inr False)
    else (r\<lparr>br_input := []\<rparr>, Inl (the (br_failure r))))"
proof -
  have loop: "fill_loop cs s = (case br_failure s of Some e \<Rightarrow> (s\<lparr>br_input := []\<rparr>, Inl e) | None \<Rightarrow> (s\<lparr>br_input := [], br_ended := True\<rparr>, Inr False))"
    if "concat cs = []" for cs s
    using that by (induction cs) auto
  have "concat (br_input r) = []"
    using assms(2) unfolding unread_def by (metis append_self_conv)
  thus ?thesis
    using assms(1) by (auto simp: fill_def loop source_ok_def split: option.splits)
qed

text \<open>A line that is in the stream is read, wherever the stream is cut.\<close>

lemma read_line_stream:
  assumes "source_ok r" "unread r = l @ CRLF @ rest" "10 \<notin> set l" "13 \<notin> set l" "length l + 2 \<le> MAX_LINE_BYTES"
  shows "\<exists>r'. read_line r = (r', Inr (text_decode l)) \<and> source_ok r' \<and> unread r' = rest"
  using assms
proof (induction r rule: read_line.induct)
  case (1 r)
  show ?case
  proof (cases "index_of 10 (br_buffer r)")
    case (Some i)
    hence "index_of 10 (unread r) = Some i"
      by (auto simp: index_of_Some unread_def nth_append)
    moreover have "index_of 10 (unread r) = Some (Suc (length l))"
      using index_of_append_hit [of 10 "l @ [13]" rest] 1(3,4) by (simp add: 1 CRLF_def)
    ultimately have i: "i = Suc (length l)" by simp
    have bound: "Suc i \<le> length (br_buffer r)"
      using Some by (auto simp: index_of_Some)
    hence taken: "take (Suc i) (br_buffer r) = l @ CRLF"
      using arg_cong [OF 1(3), of "take (Suc i)"] i by (simp add: unread_def CRLF_def)
    have "line_text (br_strict r) (l @ CRLF) (Suc (length l)) = Inr (text_decode l)"
      using 1(5) by (simp add: line_text_def CRLF_def nth_append)
    moreover have "drop (Suc i) (br_buffer r) @ concat (br_input r) = rest"
      using arg_cong [OF 1(3), of "drop (Suc i)"] bound i by (simp add: unread_def CRLF_def)
    ultimately show ?thesis
      using 1(2,6) Some i taken
      by (auto simp: read_line.simps [of r] consume_bytes_def unread_def source_ok_def)
  next
    case None
    hence "\<not> length l + 2 \<le> length (br_buffer r)"
      using arg_cong [OF 1(3), of "take (length l + 2)"] by (auto simp: unread_def CRLF_def index_of_None dest!: arg_cong [of _ _ set] in_set_takeD)
    moreover obtain r' where r': "fill r = (r', Inr True)" "source_ok r'" "unread r' = unread r"
      using fill_more [OF 1(2)] calculation 1(3) by (auto simp: CRLF_def)
    ultimately show ?thesis
      using 1(1) [OF None _ r'(1) [symmetric] refl TrueI r'(2)] r' 1(3-6) None by (simp add: read_line.simps [of r])
  qed
qed

text \<open>\<open>take\<close> gives some bytes of what is left, unless nothing is.\<close>

lemma read_take_stream:
  assumes "source_ok r" "unread r \<noteq> []" "0 < n"
  shows "\<exists>r' chunk. read_take (Some n) r = (r', Inr (Some chunk)) \<and> source_ok r' \<and> unread r = chunk @ unread r'
    \<and> 0 < length chunk \<and> length chunk \<le> n"
proof -
  obtain r1 where r1: "(if br_buffer r = [] then fill r else (r, Inr True)) = (r1, Inr True)" "source_ok r1" "unread r1 = unread r" "br_buffer r1 \<noteq> []"
  proof (cases "br_buffer r = []")
    case True
    with assms(2) show ?thesis
      using fill_more [OF assms(1)] that by (metis length_greater_0_conv less_nat_zero_code list.size(3))
  qed (use assms(1) that in simp)
  define m where "m = min n (length (br_buffer r1))"
  have "read_take (Some n) r = (r1\<lparr>br_buffer := drop m (br_buffer r1)\<rparr>, Inr (Some (take m (br_buffer r1))))"
    using r1(1) by (simp add: read_take_def consume_bytes_def m_def)
  moreover have "unread r = take m (br_buffer r1) @ unread (r1\<lparr>br_buffer := drop m (br_buffer r1)\<rparr>)"
    using r1(3) by (simp add: unread_def flip: append_assoc)
  ultimately show ?thesis
    using r1(2,4) assms(3) by (auto simp: source_ok_def m_def)
qed

section \<open>Streams of a body\<close>

lemma read_body_step:
  "read_body pull s = (case pull s of
       (s', Inl e) \<Rightarrow> Some (s', Inl e)
     | (s', Inr (x, closed)) \<Rightarrow>
         if closed then Some (s', Inr (chunk_bytes x))
         else (case read_body pull s' of None \<Rightarrow> None | Some (s'', y) \<Rightarrow> Some (s'', map_sum (\<lambda>e. e) (\<lambda>bs. chunk_bytes x @ bs) y)))"
  by (subst read_body.simps) (auto split: prod.splits sum.splits option.splits simp: bind_eq_None_conv bind_eq_Some_conv)

text \<open>
  What the three kinds of body promise: while a body is ahead, a \<open>pull\<close> either gives the rest of it and closes, or gives a part that is not
  empty.  The consumer then gets the body whole, and what follows it is left.
\<close>

locale body_source =
  fixes pull :: "'s \<Rightarrow> 's \<times> pulled" and ahead :: "'s \<Rightarrow> bytes \<Rightarrow> bytes \<Rightarrow> bool" and leftover :: "'s \<Rightarrow> bytes"
  assumes pull_progress: "ahead s body rest \<Longrightarrow>
      (\<exists>s' x. pull s = (s', Inr (x, True)) \<and> chunk_bytes x = body \<and> leftover s' = rest)
    \<or> (\<exists>s' x body'. pull s = (s', Inr (x, False)) \<and> body = chunk_bytes x @ body' \<and> chunk_bytes x \<noteq> [] \<and> ahead s' body' rest)"
begin

lemma read_body_whole: "ahead s body rest \<Longrightarrow> \<exists>s'. read_body pull s = Some (s', Inr body) \<and> leftover s' = rest"
proof (induction "length body" arbitrary: s body rule: less_induct)
  case less
  from pull_progress [OF less.prems] consider
      (closes) s' x where "pull s = (s', Inr (x, True))" "chunk_bytes x = body" "leftover s' = rest"
    | (goes_on) s' x body' where "pull s = (s', Inr (x, False))" "body = chunk_bytes x @ body'" "chunk_bytes x \<noteq> []" "ahead s' body' rest"
    by blast
  thus ?case
  proof cases
    case closes
    thus ?thesis by (simp add: read_body_step [of _ s])
  next
    case goes_on
    with less.hyps [OF _ goes_on(4)] show ?thesis by (fastforce simp: read_body_step [of _ s])
  qed
qed

end

section \<open>The chunked coding\<close>

lemma text_decode_ascii: "list_all (\<lambda>b. b < 128) bs \<Longrightarrow> text_decode bs = bs"
proof (rule text_decode_valid)
  assume small: "list_all (\<lambda>b. b < 128) bs"
  thus "utf8_valid bs" by (induction bs) simp_all
  show "take 3 bs \<noteq> [239, 187, 191]"
    using small by (cases bs) auto
qed

lemma hex_digit_byte: "n < 16 \<Longrightarrow> (of_nat (of_char (hex_digit n)) :: byte) = (if n < 10 then 48 + of_nat n else 87 + of_nat n)"
  by (simp add: hex_digit_def)

lemma hex_digit_value:
  assumes "n < 16"
  defines "b \<equiv> (of_nat (of_char (hex_digit n)) :: byte)"
  shows "hex_byte b" "(if b \<le> 57 then unat b - 48 else if b \<le> 70 then unat b - 55 else unat b - 87) = n" "b < 128" "b \<noteq> 10" "b \<noteq> 13"
proof -
  have "n \<in> {0,1,2,3,4,5,6,7,8,9,10,11,12,13,14,15}" using assms(1) by (simp, presburger)
  thus "hex_byte b" "(if b \<le> 57 then unat b - 48 else if b \<le> 70 then unat b - 55 else unat b - 87) = n" "b < 128" "b \<noteq> 10" "b \<noteq> 13"
    unfolding b_def by (elim insertE; simp add: hex_digit_byte hex_byte_def digit_byte_def)+
qed

lemma digits_value_snoc: "digits_value base (ds @ [b]) = base * digits_value base ds + (if b \<le> 57 then unat b - 48 else if b \<le> 70 then unat b - 55 else unat b - 87)"
  by (simp add: digits_value_def)

lemma ascii_append [simp]: "ascii (s @ t) = ascii s @ ascii t"
  by (simp add: ascii_def)

lemma hex_digits_line:
  defines "line n \<equiv> ascii (hex_digits n)"
  shows "line n \<noteq> []" "list_all (\<lambda>b. hex_byte b \<and> b < 128 \<and> b \<noteq> 10 \<and> b \<noteq> 13) (line n)" "digits_value 16 (line n) = n"
    "n < 16 ^ Suc k \<Longrightarrow> length (line n) \<le> Suc k"
proof -
  have step: "line n = (if n < 16 then [of_nat (of_char (hex_digit n))] else line (n div 16) @ [of_nat (of_char (hex_digit (n mod 16)))])" for n
    by (simp add: line_def hex_digits.simps [of n] ascii_def)
  show "line n \<noteq> []" by (subst step) simp
  show "list_all (\<lambda>b. hex_byte b \<and> b < 128 \<and> b \<noteq> 10 \<and> b \<noteq> 13) (line n)"
    by (induction n rule: hex_digits.induct) (subst step, auto simp: hex_digit_value)
  show "digits_value 16 (line n) = n"
  proof (induction n rule: hex_digits.induct)
    case (1 n)
    show ?case
      using 1 hex_digit_value(2) [of n] hex_digit_value(2) [of "n mod 16"] by (subst step) (simp add: digits_value_snoc digits_value_def)
  qed
  show "length (line n) \<le> Suc k" if "n < 16 ^ Suc k"
    using that
  proof (induction k arbitrary: n)
    case (Suc k)
    hence "length (line (n div 16)) \<le> Suc k" by (intro Suc.IH) (simp add: less_mult_imp_div_less mult.commute)
    thus ?case by (subst step) simp
  qed (subst step, simp)
qed


lemma parse_chunk_size_hex:
  assumes "n \<le> MAX_SAFE_INTEGER"
  shows "parse_chunk_size (ascii (hex_digits n)) = Inr n"
proof -
  have "list_all hex_byte (ascii (hex_digits n))"
    using hex_digits_line(2) [of n] by (auto simp: list_all_iff)
  hence all: "takeWhile hex_byte (ascii (hex_digits n)) = ascii (hex_digits n)" "dropWhile hex_byte (ascii (hex_digits n)) = []"
    by (auto simp: list_all_iff)
  show ?thesis
    unfolding parse_chunk_size_def is_chunk_size_def all using assms hex_digits_line(1,3) [of n] by simp
qed

text \<open>
  Where a decoder is in the coding of a stream: \<open>d\<close> is left of the chunk it is in, \<open>chunks\<close> follow it and \<open>rest\<close> follows the body.
\<close>

definition decoding :: "chunked_source \<Rightarrow> bytes \<Rightarrow> bytes list \<Rightarrow> bytes \<Rightarrow> bool" where
  "decoding c d chunks rest \<longleftrightarrow>
     source_ok (cb_reader c) \<and> cb_remaining c = length d \<and> (\<forall>x \<in> set chunks. x \<noteq> [] \<and> length x \<le> MAX_SAFE_INTEGER)
     \<and> unread (cb_reader c) = d @ (if d \<noteq> [] \<or> cb_between c then CRLF else []) @ concat (chunked_encoder chunks) @ rest"

lemma size_line_ok:
  assumes "n \<le> MAX_SAFE_INTEGER"
  shows "10 \<notin> set (ascii (hex_digits n))" "13 \<notin> set (ascii (hex_digits n))" "length (ascii (hex_digits n)) + 2 \<le> MAX_LINE_BYTES"
    "text_decode (ascii (hex_digits n)) = ascii (hex_digits n)"
proof -
  show "10 \<notin> set (ascii (hex_digits n))" "13 \<notin> set (ascii (hex_digits n))"
    using hex_digits_line(2) [of n] by (auto simp: list_all_iff)
  show "text_decode (ascii (hex_digits n)) = ascii (hex_digits n)"
    using hex_digits_line(2) [of n] by (intro text_decode_ascii) (auto simp: list_all_iff)
  show "length (ascii (hex_digits n)) + 2 \<le> MAX_LINE_BYTES"
    using hex_digits_line(4) [of n 13] assms by (simp add: MAX_SAFE_INTEGER_def MAX_LINE_BYTES_def)
qed

lemma encoder_next:
  "concat (chunked_encoder []) = ascii (hex_digits 0) @ CRLF @ CRLF"
  "x \<noteq> [] \<Longrightarrow> concat (chunked_encoder (x # xs)) = ascii (hex_digits (length x)) @ CRLF @ x @ CRLF @ concat (chunked_encoder xs)"
  by (simp_all add: chunked_encoder_def encode_flush_def encode_chunk_def hex_digits.simps [of 0] hex_digit_def ascii_def)

lemma boundary_passes:
  assumes "decoding c [] chunks rest"
  shows "\<exists>c'. chunk_boundary c = (c', Inr ()) \<and> decoding c' [] chunks rest \<and> \<not> cb_between c'"
proof (cases "cb_between c")
  case True
  then obtain r where "read_line (cb_reader c) = (r, Inr [])" "source_ok r" "unread r = concat (chunked_encoder chunks) @ rest"
    using assms read_line_stream [of "cb_reader c" "[]"] text_decode_ascii [of "[]"] by (auto simp: decoding_def MAX_LINE_BYTES_def)
  with True assms show ?thesis by (simp add: chunk_boundary_def decoding_def)
qed (use assms in \<open>simp add: chunk_boundary_def\<close>)

lemma size_line_next:
  assumes "decoding c [] (x # xs) rest" "\<not> cb_between c"
  shows "\<exists>c'. chunk_size_line c = (c', Inr False) \<and> decoding c' x xs rest"
proof -
  from assms have x: "x \<noteq> []" "length x \<le> MAX_SAFE_INTEGER" by (auto simp: decoding_def)
  obtain r where "read_line (cb_reader c) = (r, Inr (ascii (hex_digits (length x))))" "source_ok r"
      "unread r = x @ CRLF @ concat (chunked_encoder xs) @ rest"
    using assms read_line_stream [of "cb_reader c" "ascii (hex_digits (length x))"] size_line_ok [OF x(2)] x(1)
    by (fastforce simp: decoding_def encoder_next)
  with x assms show ?thesis by (simp add: chunk_size_line_def parse_chunk_size_hex decoding_def)
qed

lemma size_line_last:
  assumes "decoding c [] [] rest" "\<not> cb_between c"
  shows "\<exists>c'. chunk_size_line c = (c', Inr True) \<and> source_ok (cb_reader c') \<and> unread (cb_reader c') = rest"
proof -
  obtain r where r: "read_line (cb_reader c) = (r, Inr (ascii (hex_digits 0)))" "source_ok r" "unread r = CRLF @ rest"
    using assms read_line_stream [of "cb_reader c" "ascii (hex_digits 0)"] size_line_ok [of 0] by (fastforce simp: decoding_def encoder_next)
  moreover obtain r' where "read_line r = (r', Inr [])" "source_ok r'" "unread r' = rest"
    using r(2,3) read_line_stream [of r "[]"] text_decode_ascii [of "[]"] by (auto simp: MAX_LINE_BYTES_def)
  ultimately show ?thesis
    by (simp add: chunk_size_line_def parse_chunk_size_hex read_trailers.simps [of 0] utf16_length_def MAX_TRAILER_BYTES_def)
qed

lemma pull_in_chunk:
  assumes "decoding c d chunks rest" "d \<noteq> []"
  shows "\<exists>c' x d'. chunked_pull c = (c', Inr (Some x, False)) \<and> x \<noteq> [] \<and> d = x @ d' \<and> decoding c' d' chunks rest"
proof -
  from assms obtain r x where rx: "read_take (Some (length d)) (cb_reader c) = (r, Inr (Some x))" "source_ok r"
      "unread (cb_reader c) = x @ unread r" "0 < length x" "length x \<le> length d"
    using read_take_stream [of "cb_reader c" "length d"] by (fastforce simp: decoding_def)
  define d' where "d' = drop (length x) d"
  have "x @ unread r = d @ CRLF @ concat (chunked_encoder chunks) @ rest"
    using rx(3) assms by (simp add: decoding_def)
  hence d: "d = x @ d'" "unread r = d' @ CRLF @ concat (chunked_encoder chunks) @ rest"
    using rx(5) unfolding d'_def by (auto simp: append_eq_append_conv2)
  with rx assms show ?thesis
    by (auto simp: chunked_pull_def decoding_def Let_def)
qed

lemma pull_at_boundary:
  assumes "decoding c [] chunks rest"
  shows "chunks = [] \<and> (\<exists>c'. chunked_pull c = (c', Inr (None, True)) \<and> source_ok (cb_reader c') \<and> unread (cb_reader c') = rest)
    \<or> (\<exists>x xs c'. chunks = x # xs \<and> chunked_pull c = chunked_pull c' \<and> decoding c' x xs rest)"
proof -
  obtain c1 where c1: "chunk_boundary c = (c1, Inr ())" "decoding c1 [] chunks rest" "\<not> cb_between c1"
    using boundary_passes [OF assms] by blast
  have none: "cb_remaining c = 0" using assms by (simp add: decoding_def)
  show ?thesis
  proof (cases chunks)
    case Nil
    thus ?thesis using size_line_last [of c1 rest] c1 none by (auto simp: chunked_pull_def)
  next
    case (Cons x xs)
    then obtain c2 where c2: "chunk_size_line c1 = (c2, Inr False)" "decoding c2 x xs rest"
      using size_line_next [of c1 x xs rest] c1 by auto
    moreover have "cb_remaining c2 \<noteq> 0" using c1(2) c2(2) Cons by (auto simp: decoding_def)
    ultimately have "chunked_pull c = chunked_pull c2" using c1 none by (simp add: chunked_pull_def)
    with c2 Cons show ?thesis by blast
  qed
qed

interpretation chunked: body_source chunked_pull "\<lambda>c body rest. \<exists>d chunks. body = d @ concat chunks \<and> decoding c d chunks rest" "\<lambda>c. unread (cb_reader c)"
proof (unfold_locales, elim exE conjE)
  fix c body rest d chunks
  assume body: "body = d @ concat chunks" and at: "decoding c d chunks rest"
  have in_chunk: "\<exists>s' x body'. chunked_pull c = (s', Inr (x, False)) \<and> body = chunk_bytes x @ body' \<and> chunk_bytes x \<noteq> []
      \<and> (\<exists>d chunks. body' = d @ concat chunks \<and> decoding s' d chunks rest)"
    if at': "decoding c' d' chunks' rest" "d' \<noteq> []" "chunked_pull c = chunked_pull c'" "body = d' @ concat chunks'" for c' d' chunks'
  proof -
    obtain c2 x d2 where "chunked_pull c' = (c2, Inr (Some x, False))" "x \<noteq> []" "d' = x @ d2" "decoding c2 d2 chunks' rest"
      using pull_in_chunk [OF at'(1,2)] by blast
    with at'(3,4) show ?thesis
      by (intro exI [of _ c2] exI [of _ "Some x"] exI [of _ "d2 @ concat chunks'"]) (auto simp: chunk_bytes_def)
  qed
  show "(\<exists>s' x. chunked_pull c = (s', Inr (x, True)) \<and> chunk_bytes x = body \<and> unread (cb_reader s') = rest)
    \<or> (\<exists>s' x body'. chunked_pull c = (s', Inr (x, False)) \<and> body = chunk_bytes x @ body' \<and> chunk_bytes x \<noteq> []
        \<and> (\<exists>d chunks. body' = d @ concat chunks \<and> decoding s' d chunks rest))"
  proof (cases "d = []")
    case False
    with in_chunk [OF at] body show ?thesis by blast
  next
    case True
    with at pull_at_boundary [of c chunks rest] consider
        (ended) c' where "chunks = []" "chunked_pull c = (c', Inr (None, True))" "unread (cb_reader c') = rest"
      | (another) x xs c' where "chunks = x # xs" "chunked_pull c = chunked_pull c'" "decoding c' x xs rest" "x \<noteq> []"
      by (auto simp: decoding_def)
    thus ?thesis
    proof cases
      case ended
      with True body show ?thesis by (auto simp: chunk_bytes_def)
    next
      case another
      with in_chunk [OF another(3)] True body show ?thesis by simp
    qed
  qed
qed

lemma encoder_skips_empty: "concat (chunked_encoder (filter (\<lambda>x. x \<noteq> []) chunks)) = concat (chunked_encoder chunks)"
  by (induction chunks) (auto simp: chunked_encoder_def encode_chunk_def)

lemma concat_skips_empty: "concat (filter (\<lambda>x. x \<noteq> []) xs) = concat xs"
  by (induction xs) auto

section \<open>Counted and unframed bodies\<close>

interpretation fixed: body_source fixed_pull "\<lambda>s body rest. fst s = length body \<and> source_ok (snd s) \<and> unread (snd s) = body @ rest" "\<lambda>s. unread (snd s)"
proof
  fix s body rest
  assume at: "fst s = length body \<and> source_ok (snd s) \<and> unread (snd s) = body @ rest"
  obtain r where s: "s = (length body, r)" using at by (cases s) simp
  show "(\<exists>s' x. fixed_pull s = (s', Inr (x, True)) \<and> chunk_bytes x = body \<and> unread (snd s') = rest)
    \<or> (\<exists>s' x body'. fixed_pull s = (s', Inr (x, False)) \<and> body = chunk_bytes x @ body' \<and> chunk_bytes x \<noteq> []
        \<and> (fst s' = length body' \<and> source_ok (snd s') \<and> unread (snd s') = body' @ rest))"
  proof (cases "body = []")
    case True
    with at show ?thesis by (simp add: s fixed_pull_def chunk_bytes_def)
  next
    case False
    then obtain r' x where rx: "read_take (Some (length body)) r = (r', Inr (Some x))" "source_ok r'" "body @ rest = x @ unread r'"
        "0 < length x" "length x \<le> length body"
      using read_take_stream [of r "length body"] at by (auto simp: s)
    define body' where "body' = drop (length x) body"
    have body: "body = x @ body'" "unread r' = body' @ rest"
      using rx(3,5) unfolding body'_def by (auto simp: append_eq_append_conv2)
    have "fixed_pull s = ((length body', r'), Inr (Some x, body' = []))"
      using rx False body(1) by (simp add: s fixed_pull_def)
    with body rx(2,4) show ?thesis by (cases "body' = []") (auto simp: chunk_bytes_def)
  qed
qed

text \<open>A counted body is read whole from any fragmentation, and nothing behind it is taken.\<close>

lemma fixed_body_whole:
  "unread r = body @ rest \<Longrightarrow> source_ok r \<Longrightarrow> \<exists>s. read_body fixed_pull (length body, r) = Some (s, Inr body) \<and> unread (snd s) = rest"
  using fixed.read_body_whole [where s = "(length body, r)" and body = body and rest = rest] by simp

interpretation eof: body_source eof_pull "\<lambda>r body rest. rest = [] \<and> source_ok r \<and> br_failure r = None \<and> unread r = body" unread
proof
  fix r and body rest :: bytes
  assume at: "rest = [] \<and> source_ok r \<and> br_failure r = None \<and> unread r = body"
  show "(\<exists>s' x. eof_pull r = (s', Inr (x, True)) \<and> chunk_bytes x = body \<and> unread s' = rest)
    \<or> (\<exists>s' x body'. eof_pull r = (s', Inr (x, False)) \<and> body = chunk_bytes x @ body' \<and> chunk_bytes x \<noteq> []
        \<and> (rest = [] \<and> source_ok s' \<and> br_failure s' = None \<and> unread s' = body'))"
  proof (cases "body = []")
    case True
    with at have "br_buffer r = unread r" by (simp add: unread_def)
    from fill_end [OF _ this] True at show ?thesis
      by (auto simp: eof_pull_def read_take_def unread_def chunk_bytes_def)
  next
    case False
    obtain r1 where r1: "(if br_buffer r = [] then fill r else (r, Inr True)) = (r1, Inr True)" "source_ok r1" "unread r1 = unread r"
        "br_buffer r1 \<noteq> []" "br_failure r1 = None"
    proof (cases "br_buffer r = []")
      case True
      with at False show ?thesis
        using fill_more [of r] that by (metis length_greater_0_conv less_nat_zero_code list.size(3))
    qed (use at that in simp)
    hence "eof_pull r = (r1\<lparr>br_buffer := []\<rparr>, Inr (Some (br_buffer r1), False))"
      by (simp add: eof_pull_def read_take_def consume_bytes_def)
    with r1 at show ?thesis by (auto simp: chunk_bytes_def unread_def source_ok_def)
  qed
qed

lemma eof_body_whole:
  "source_ok r \<Longrightarrow> br_failure r = None \<Longrightarrow> \<exists>s. read_body eof_pull r = Some (s, Inr (unread r)) \<and> unread s = []"
  using eof.read_body_whole [where s = r and body = "unread r" and rest = "[]"] by simp

section \<open>Finding the end of a head\<close>

lemma byte_at_append: "byte_at (bs @ later) i = (if i < length bs then byte_at bs i else byte_at later (i - length bs))"
  by (auto simp: byte_at_def nth_append)

lemma byte_at_Cons: "byte_at (b # bs) i = (if i = 0 then Some b else byte_at bs (i - 1))"
  by (cases i) (auto simp: byte_at_def)

lemma byte_at_Some: "byte_at bs i = Some b \<Longrightarrow> i < length bs"
  by (simp add: byte_at_def split: if_splits)

text \<open>How many bytes after its first one decide whether a blank line is there.\<close>

definition head_reach :: "bool \<Rightarrow> nat" where
  "head_reach strict = (if strict then 3 else 2)"

lemma head_end_at_bounds:
  assumes "head_end_at strict bs i = Some stop"
  shows "Suc i < stop" "stop \<le> length bs" "strict \<Longrightarrow> i + 3 < length bs"
  using assms by (auto simp: head_end_at_def Let_def split: if_splits dest!: byte_at_Some)

lemma head_end_at_outside: "length bs \<le> Suc i \<Longrightarrow> head_end_at strict bs i = None"
  using head_end_at_bounds(1,2) [of strict bs i] by (cases "head_end_at strict bs i") force+

lemma head_end_at_append:
  assumes "head_end_at strict bs i = Some stop"
  shows "head_end_at strict (bs @ later) i = Some stop"
  using assms head_end_at_bounds [OF assms]
  by (auto simp: head_end_at_def Let_def byte_at_append split: if_splits dest: byte_at_Some)

lemma head_end_at_prefix:
  assumes "head_end_at strict (bs @ later) i = Some stop" "stop \<le> length bs"
  shows "head_end_at strict bs i = Some stop"
  using assms by (auto simp: head_end_at_def Let_def byte_at_append split: if_splits)

lemma head_end_at_reach:
  assumes "head_end_at strict bs i = None" "i + head_reach strict < length bs"
  shows "head_end_at strict (bs @ later) i = None"
  using assms by (auto simp: head_end_at_def Let_def byte_at_append head_reach_def split: if_splits)

lemma find_head_end_Some:
  "find_head_end strict bs s = Some stop \<longleftrightarrow>
     (\<exists>i \<ge> s. head_end_at strict bs i = Some stop \<and> (\<forall>j. s \<le> j \<and> j < i \<longrightarrow> head_end_at strict bs j = None))"
proof (induction strict bs s rule: find_head_end.induct)
  case (1 strict bs s)
  show ?case
  proof (cases "Suc s < length bs")
    case False
    thus ?thesis
      by (auto simp: find_head_end.simps [of _ _ s] head_end_at_outside)
  next
    case True
    show ?thesis
    proof (cases "head_end_at strict bs s")
      case None
      hence "(\<exists>i \<ge> s. head_end_at strict bs i = Some stop \<and> (\<forall>j. s \<le> j \<and> j < i \<longrightarrow> head_end_at strict bs j = None))
        \<longleftrightarrow> (\<exists>i \<ge> Suc s. head_end_at strict bs i = Some stop \<and> (\<forall>j. Suc s \<le> j \<and> j < i \<longrightarrow> head_end_at strict bs j = None))"
        by (metis Suc_leD Suc_leI le_neq_implies_less not_None_eq option.distinct(1))
      with 1 True None show ?thesis
        by (simp add: find_head_end.simps [of _ _ s])
    next
      case (Some e)
      with True show ?thesis
        by (auto simp: find_head_end.simps [of _ _ s]) (metis le_neq_implies_less option.distinct(1) option.inject order_refl)
    qed
  qed
qed

lemma find_head_end_None: "find_head_end strict bs s = None \<longleftrightarrow> (\<forall>i \<ge> s. head_end_at strict bs i = None)"
proof (induction strict bs s rule: find_head_end.induct)
  case (1 strict bs s)
  have "head_end_at strict bs i = None" if "\<not> Suc s < length bs" "s \<le> i" for i
    using that by (intro head_end_at_outside) simp
  with 1 show ?case
    by (auto simp: find_head_end.simps [of _ _ s] Suc_le_eq split: option.splits) (metis le_neq_implies_less)
qed

lemma find_head_end_append:
  assumes "find_head_end strict bs 0 = Some stop"
  shows "find_head_end strict (bs @ later) 0 = Some stop"
proof -
  obtain i where i: "head_end_at strict bs i = Some stop" "\<And>j. j < i \<Longrightarrow> head_end_at strict bs j = None"
    using assms by (auto simp: find_head_end_Some)
  have "head_end_at strict (bs @ later) j = None" if "j < i" for j
    using i(2) [OF that] that head_end_at_bounds [OF i(1)] by (intro head_end_at_reach) (auto simp: head_reach_def)
  thus ?thesis
    using head_end_at_append [OF i(1)] by (auto simp: find_head_end_Some)
qed

text \<open>After a search that failed, the last three bytes are all that has to be searched again.\<close>

lemma find_head_end_resume:
  assumes "find_head_end strict bs 0 = None"
  shows "find_head_end strict (bs @ later) (length bs - 3) = find_head_end strict (bs @ later) 0"
proof -
  have skip: "head_end_at strict (bs @ later) j = None" if "j < length bs - 3" for j
    using assms that by (intro head_end_at_reach) (auto simp: find_head_end_None head_reach_def)
  show ?thesis
  proof (cases "find_head_end strict (bs @ later) (length bs - 3)")
    case None
    thus ?thesis
      unfolding find_head_end_None [of strict "bs @ later" "length bs - 3"] using skip
      by (metis find_head_end_None linorder_not_less None)
  next
    case (Some stop)
    thus ?thesis
      unfolding find_head_end_Some [of strict "bs @ later" "length bs - 3"] using skip
      by (metis Some find_head_end_Some le0 linorder_not_less)
  qed
qed

lemma find_head_end_beyond:
  assumes "find_head_end strict bs 0 = None" "find_head_end strict (bs @ later) 0 = Some stop"
  shows "length bs < stop"
  using assms head_end_at_prefix [of strict bs later _ stop]
  by (auto simp: find_head_end_Some find_head_end_None) (metis linorder_not_less option.distinct(1))

text \<open>What \<open>head\<close> returns, as a function of all the bytes that are left and of how the stream ends after them.\<close>

definition pending_failure :: "byte_reader \<Rightarrow> js_error option" where
  "pending_failure r = (if br_ended r then None else br_failure r)"

definition message_head :: "bool \<Rightarrow> bytes \<Rightarrow> js_error option \<Rightarrow> http_head option result" where
  "message_head strict bs failure = (case find_head_end strict bs 0 of
       Some stop \<Rightarrow>
         if stop > MAX_HEAD_BYTES then Inl (Error ''HTTP head too large'')
         else bindE (parse_head (text_decode (take stop bs)) strict) (\<lambda>h. Inr (Some h))
     | None \<Rightarrow>
         if length bs > MAX_HEAD_BYTES then Inl (Error ''HTTP head too large'')
         else case failure of
           Some e \<Rightarrow> Inl e
         | None \<Rightarrow> if bs = [] then Inr None else Inl (Error ''unexpected end of HTTP head''))"

lemma read_head_from_result:
  assumes "source_ok r" "find_head_end (br_strict r) (br_buffer r) searched = find_head_end (br_strict r) (br_buffer r) 0"
  shows "snd (read_head_from searched r) = message_head (br_strict r) (unread r) (pending_failure r) \<and> source_ok (fst (read_head_from searched r))
    \<and> (\<forall>stop h. find_head_end (br_strict r) (unread r) 0 = Some stop \<and> snd (read_head_from searched r) = Inr (Some h)
         \<longrightarrow> unread (fst (read_head_from searched r)) = drop stop (unread r))"
  using assms
proof (induction searched r rule: read_head_from.induct)
  case (1 searched r)
  let ?find = "find_head_end (br_strict r)"
  have all: "unread r = br_buffer r @ concat (br_input r)" by (simp add: unread_def)
  show ?case
  proof (cases "?find (br_buffer r) 0")
    case (Some stop)
    have "?find (unread r) 0 = Some stop" unfolding all by (rule find_head_end_append [OF Some])
    moreover have "stop \<le> length (br_buffer r)" using Some by (auto simp: find_head_end_Some dest: head_end_at_bounds)
    ultimately show ?thesis
      using 1(2,3) Some
      by (auto simp: read_head_from.simps [of searched] message_head_def consume_bytes_def all unread_def source_ok_def split: sum.splits)
  next
    case None
    have large: "message_head (br_strict r) (unread r) (pending_failure r) = Inl (Error ''HTTP head too large'')"
      if "length (br_buffer r) > MAX_HEAD_BYTES"
      using that by (auto simp: message_head_def all split: option.splits dest: find_head_end_beyond [OF None])
    show ?thesis
    proof (cases "length (br_buffer r) > MAX_HEAD_BYTES")
      case True
      with large None 1(2,3) show ?thesis by (simp add: read_head_from.simps [of searched])
    next
      case small: False
      show ?thesis
      proof (cases "length (br_buffer r) < length (unread r)")
        case True
        then obtain r' where r': "fill r = (r', Inr True)" "source_ok r'" "unread r' = unread r" "br_strict r' = br_strict r"
            "br_ended r' = br_ended r" "br_failure r' = br_failure r"
          using fill_more [OF 1(2)] by metis
        obtain later where "br_buffer r' = br_buffer r @ later"
          using r'(1) fill_loop_more [of "br_input r" r] 1(2) True by (auto simp: fill_def unread_def split: if_splits)
        hence "find_head_end (br_strict r') (br_buffer r') (length (br_buffer r) - 3) = find_head_end (br_strict r') (br_buffer r') 0"
          using find_head_end_resume [OF None] r'(4) by simp
        from 1(1) [OF refl _ small r'(1) [symmetric] refl TrueI r'(2) this] show ?thesis
          using None small 1(3) r' by (simp add: read_head_from.simps [of searched] Let_def pending_failure_def)
      next
        case False
        hence "br_buffer r = unread r" by (simp add: unread_def)
        with fill_end [OF 1(2) this] None small 1(2,3) show ?thesis
          by (auto simp: read_head_from.simps [of searched] Let_def message_head_def pending_failure_def source_ok_def)
      qed
    qed
  qed
qed

section \<open>Writing and reading a head\<close>

lemma head_end_at_shift: "head_end_at strict (p @ bs) (length p + i) = map_option ((+) (length p)) (head_end_at strict bs i)"
  by (auto simp: head_end_at_def Let_def byte_at_append)

lemma find_head_end_skip:
  assumes "\<And>j. j < length p \<Longrightarrow> head_end_at strict (p @ bs) j = None"
  shows "find_head_end strict (p @ bs) 0 = map_option ((+) (length p)) (find_head_end strict bs 0)"
proof (cases "find_head_end strict bs 0")
  case None
  have "head_end_at strict (p @ bs) j = None" for j
    using assms [of j] head_end_at_shift [of strict p bs "j - length p"] None by (cases "j < length p") (auto simp: find_head_end_None)
  hence "find_head_end strict (p @ bs) 0 = None" by (simp add: find_head_end_None)
  with None show ?thesis by simp
next
  case (Some stop)
  then obtain i where i: "head_end_at strict bs i = Some stop" "\<And>j. j < i \<Longrightarrow> head_end_at strict bs j = None"
    by (auto simp: find_head_end_Some)
  have "head_end_at strict (p @ bs) j = None" if "j < length p + i" for j
    using assms [of j] that head_end_at_shift [of strict p bs "j - length p"] i(2) [of "j - length p"] by (cases "j < length p") auto
  hence "find_head_end strict (p @ bs) 0 = Some (length p + stop)"
    using head_end_at_shift [of strict p bs i] i(1) unfolding find_head_end_Some by (intro exI [of _ "length p + i"]) auto
  with Some show ?thesis by simp
qed

definition plain :: "bytes \<Rightarrow> bool" where
  "plain l \<longleftrightarrow> 10 \<notin> set l \<and> 13 \<notin> set l"

definition head_lines :: "bytes list \<Rightarrow> bytes" where
  "head_lines ls = concat (map (\<lambda>l. l @ CRLF) ls)"

lemma head_lines_simps [simp]: "head_lines [] = []" "head_lines (l # ls) = l @ CRLF @ head_lines ls"
  by (simp_all add: head_lines_def)

lemma find_head_end_plain:
  assumes "plain l"
  shows "find_head_end strict (l @ bs) 0 = map_option ((+) (length l)) (find_head_end strict bs 0)"
proof (rule find_head_end_skip)
  fix j assume "j < length l"
  moreover from this have "l ! j \<noteq> 10" "l ! j \<noteq> 13" using assms by (auto simp: plain_def dest: nth_mem)
  ultimately show "head_end_at strict (l @ bs) j = None"
    by (simp add: head_end_at_def byte_at_def nth_append)
qed

lemma find_head_end_line_end:
  assumes "b \<noteq> 10" "b \<noteq> 13"
  shows "find_head_end strict (CRLF @ b # bs) 0 = map_option ((+) 2) (find_head_end strict (b # bs) 0)"
proof -
  have "head_end_at strict (CRLF @ b # bs) j = None" if "j < length CRLF" for j
  proof -
    from that consider "j = 0" | "j = 1" by (force simp: CRLF_def)
    thus ?thesis by cases (simp_all add: assms CRLF_def head_end_at_def byte_at_Cons)
  qed
  from find_head_end_skip [OF this] show ?thesis by (simp add: CRLF_def numeral_2_eq_2)
qed

lemma find_head_end_lines:
  assumes "list_all plain (l # ls)" "[] \<notin> set ls"
  shows "find_head_end strict (head_lines (l # ls) @ CRLF @ rest) 0 = Some (length (head_lines (l # ls) @ CRLF))"
  using assms
proof (induction ls arbitrary: l)
  case Nil
  have "find_head_end strict (CRLF @ CRLF @ rest) 0 = Some 4"
    unfolding find_head_end_Some
    by (intro exI [of _ "if strict then 0 else 1"]) (simp add: CRLF_def head_end_at_def byte_at_Cons)
  with Nil show ?case by (simp add: find_head_end_plain CRLF_def)
next
  case (Cons l' ls)
  then obtain b bs where l': "l' = b # bs" by (cases l') auto
  with Cons.prems have "b \<noteq> 10" "b \<noteq> 13" by (auto simp: plain_def)
  from find_head_end_line_end [OF this, of strict "bs @ CRLF @ head_lines ls @ CRLF @ rest"] Cons.IH [of l'] Cons.prems show ?case
    by (simp add: find_head_end_plain l' CRLF_def)
qed

lemma split_crlf_lines:
  assumes "list_all plain ls"
  shows "split_crlf acc (head_lines ls @ CRLF) = (case ls of [] \<Rightarrow> [acc, []] | l # r \<Rightarrow> (acc @ l) # r @ [[], []])"
proof -
  have skip: "split_crlf acc (l @ CRLF @ bs) = (acc @ l) # split_crlf [] bs" if "plain l" for acc l bs
    using that
  proof (induction l arbitrary: acc)
    case (Cons b l)
    thus ?case by (cases l) (auto simp: plain_def CRLF_def)
  qed (simp add: CRLF_def)
  show ?thesis
    using assms
  proof (induction ls arbitrary: acc)
    case Nil
    show ?case using skip [of "[]" acc "[]"] by (simp add: plain_def)
  next
    case (Cons l ls)
    thus ?case by (cases ls) (simp_all add: skip)
  qed
qed

lemma split_lf_lines:
  assumes "list_all plain ls"
  shows "split_lf acc (head_lines ls @ CRLF) = (case ls of [] \<Rightarrow> [acc, []] | l # r \<Rightarrow> (acc @ l) # r @ [[], []])"
proof -
  have skip: "split_lf acc (l @ CRLF @ bs) = (acc @ l) # split_lf [] bs" if "plain l" for acc l bs
    using that by (induction l arbitrary: acc) (auto simp: plain_def CRLF_def drop_cr_def)
  show ?thesis
    using assms
  proof (induction ls arbitrary: acc)
    case Nil
    show ?case using skip [of "[]" acc "[]"] by (simp add: plain_def)
  next
    case (Cons l ls)
    thus ?case by (cases ls) (simp_all add: skip)
  qed
qed

lemma no_bare_lf:
  assumes "list_all plain ls"
  shows "\<not> bare_lf before (head_lines ls @ CRLF)"
proof -
  have skip: "bare_lf before (l @ CRLF @ bs) = bare_lf (Some 10) bs" if "plain l" for before l bs
    using that by (induction l arbitrary: before) (auto simp: plain_def CRLF_def)
  have blank: "\<not> bare_lf before CRLF" for before
    by (simp add: CRLF_def)
  show ?thesis
    using assms by (induction ls arbitrary: before) (simp_all add: skip blank)
qed

text \<open>A field that a head carries unchanged.\<close>

definition plain_field :: "ustring \<times> ustring \<Rightarrow> bool" where
  "plain_field = (\<lambda>(name, v). is_token name \<and> to_lower name = name \<and> utf8_valid v \<and> latin1 v \<and> trim v = v \<and> normalize_value v = v
     \<and> \<not> list_ex invalid_value_byte v \<and> 10 \<notin> set v)"

definition field_line :: "ustring \<times> ustring \<Rightarrow> bytes" where
  "field_line = (\<lambda>(name, v). name @ ascii '': '' @ v)"

lemma token_byte_ascii:
  assumes "token_byte b"
  shows "b < 128" "b \<noteq> 10" "b \<noteq> 13" "b \<noteq> 58" "\<not> list_ex (\<lambda>w. hd w = b) whitespace"
proof -
  from assms have "33 \<le> b \<and> b < 127 \<and> b \<noteq> 58"
    by (auto simp: token_byte_def digit_byte_def upper_byte_def ascii_def word_less_nat_alt word_le_nat_alt unat_arith_simps)
  thus "b < 128" "b \<noteq> 10" "b \<noteq> 13" "b \<noteq> 58" "\<not> list_ex (\<lambda>w. hd w = b) whitespace"
    by (auto simp: whitespace_def word_less_nat_alt word_le_nat_alt)
qed

lemma starts_with_hd: "starts_with w (b # bs) \<Longrightarrow> w \<noteq> [] \<Longrightarrow> hd w = b"
  by (cases w) (auto simp: starts_with_def)

lemma token_no_whitespace: "list_all token_byte name \<Longrightarrow> \<not> has_whitespace name"
proof (induction name)
  case (Cons b bs)
  have "[] \<notin> set whitespace" by (simp add: whitespace_def)
  hence "\<not> list_ex (\<lambda>w. starts_with w (b # bs)) whitespace"
    using token_byte_ascii(5) [of b] Cons.prems by (auto simp: list_ex_iff dest!: starts_with_hd)
  with Cons show ?case by simp
qed simp

lemma trim_space: "trim (32 # v) = trim v"
proof -
  have "find (\<lambda>w. w \<noteq> [] \<and> starts_with w (32 # v)) whitespace = Some [32]"
    by (simp add: whitespace_def starts_with_def)
  hence "strip_left whitespace (32 # v) = strip_left whitespace v"
    by (subst strip_left.simps) simp
  thus ?thesis by (simp add: trim_def)
qed

lemma field_line_parts:
  assumes "plain_field f"
  shows "index_of 58 (field_line f) = Some (length (fst f))" "take (length (fst f)) (field_line f) = fst f"
    "drop (Suc (length (fst f))) (field_line f) = 32 # snd f" "field_line f \<noteq> []" "plain (field_line f)" "utf8_valid (snd f)"
proof -
  obtain name v where f: "f = (name, v)" by (cases f)
  have token: "name \<noteq> []" "\<forall>b \<in> set name. token_byte b" and v: "10 \<notin> set v" "13 \<notin> set v"
    using assms by (auto simp: f plain_field_def is_token_def list_all_iff list_ex_iff invalid_value_byte_def)
  have line: "field_line f = name @ 58 # 32 # v" by (simp add: f field_line_def ascii_def)
  show "index_of 58 (field_line f) = Some (length (fst f))"
    unfolding line using token(2) token_byte_ascii(4) by (auto simp: f intro!: index_of_append_hit)
  show "take (length (fst f)) (field_line f) = fst f" "drop (Suc (length (fst f))) (field_line f) = 32 # snd f" "field_line f \<noteq> []"
    unfolding line by (simp_all add: f)
  show "plain (field_line f)"
    unfolding line using token(2) v token_byte_ascii(2,3) by (auto simp: plain_def)
  show "utf8_valid (snd f)" using assms by (simp add: f plain_field_def)
qed

lemma parse_headers_step:
  assumes "plain_field f"
  shows "parse_headers (field_line f # ls) (raw, hs) = parse_headers ls (raw @ [f], hs @ [f])"
proof -
  obtain name v where f: "f = (name, v)" by (cases f)
  from assms have "list_all token_byte name" "name \<noteq> []" by (auto simp: f plain_field_def is_token_def)
  moreover have "\<not> list_ex invalid_value_byte (32 # v)"
    using assms by (simp add: f plain_field_def invalid_value_byte_def)
  moreover have "headers_append name v hs = Inr (hs @ [(name, v)])"
  proof -
    have "b \<noteq> 0 \<and> b \<noteq> 10 \<and> b \<noteq> 13" if "b \<in> set v" for b
    proof -
      have "\<not> invalid_value_byte b" "b \<noteq> 10" using assms that by (auto simp: f plain_field_def list_ex_iff)
      thus ?thesis by (auto simp: invalid_value_byte_def)
    qed
    hence "\<not> list_ex (\<lambda>b. b = 0 \<or> b = 10 \<or> b = 13) v" by (auto simp: list_ex_iff)
    thus ?thesis using assms by (simp add: f plain_field_def headers_append_def)
  qed
  ultimately show ?thesis
    using field_line_parts(1-4) [OF assms] assms token_no_whitespace [of name]
    by (simp add: f trim_space plain_field_def Let_def)
qed

lemma parse_headers_fields:
  assumes "list_all plain_field fs"
  shows "parse_headers (map field_line fs @ [[], []]) (raw, hs) = Inr (raw @ fs, hs @ fs)"
  using assms
proof (induction fs arbitrary: raw hs)
  case (Cons f fs)
  thus ?case by (simp add: parse_headers_step del: parse_headers.simps)
qed simp

lemma utf8_valid_append: "utf8_valid xs \<Longrightarrow> utf8_valid (xs @ ys) = utf8_valid ys"
proof (induction xs rule: utf8_valid.induct)
  case (2 a bs)
  define two three four where "two \<longleftrightarrow> 194 \<le> a \<and> a \<le> 223" and "three \<longleftrightarrow> 224 \<le> a \<and> a \<le> 239" and "four \<longleftrightarrow> 240 \<le> a \<and> a \<le> 244"
  note lead = utf8_valid.simps(2) [of a, folded two_def three_def four_def]
  note IH = "2.IH" [folded two_def three_def four_def]
  show ?case
    using "2.prems" IH
    by (cases "a < 128"; cases two; cases three; cases four) (auto simp: lead simp del: utf8_valid.simps(2) split: list.splits)
qed simp

lemma head_text_decodes:
  assumes "utf8_valid line" "take 3 line \<noteq> [239, 187, 191]" "list_all plain_field fs"
  shows "text_decode (head_lines (line # map field_line fs) @ CRLF) = head_lines (line # map field_line fs) @ CRLF"
proof (rule text_decode_valid)
  have small: "utf8_valid (xs @ ys) = utf8_valid ys" if "\<forall>b \<in> set xs. b < 128" for xs ys
    using that by (induction xs) auto
  have field: "utf8_valid (field_line f @ ys) = utf8_valid ys" if "plain_field f" for f ys
    using that small [of "fst f @ [58, 32]"] field_line_parts(6) [OF that] token_byte_ascii(1)
    by (auto simp: field_line_def plain_field_def is_token_def list_all_iff ascii_def utf8_valid_append split: prod.splits)
  have "utf8_valid (head_lines (map field_line fs) @ CRLF)"
    using assms(3) small [of CRLF] by (induction fs) (auto simp: field CRLF_def)
  thus "utf8_valid (head_lines (line # map field_line fs) @ CRLF)"
    using assms(1) small [of CRLF] by (simp add: utf8_valid_append CRLF_def)
  show "take 3 (head_lines (line # map field_line fs) @ CRLF) \<noteq> [239, 187, 191]"
  proof (cases "length line < 3")
    case True
    hence "take 3 (head_lines (line # map field_line fs) @ CRLF) ! length line = 13"
      by (simp add: CRLF_def nth_append)
    moreover have "[239, 187, 191] ! length line \<noteq> (13 :: byte)"
    proof -
      from True consider "length line = 0" | "length line = 1" | "length line = 2" by linarith
      thus ?thesis by cases simp_all
    qed
    ultimately show ?thesis by metis
  qed (use assms(2) in simp)
qed

text \<open>A head that \<open>serialize_head\<close> wrote is read back from any fragmentation, and the bytes after it stay unread.\<close>

lemma serialize_head_lines: "serialize_head line hs = head_lines (line # map field_line (headers_entries hs)) @ CRLF"
  by (simp add: serialize_head_def head_lines_def field_line_def case_prod_unfold comp_def)

lemma parse_head_lines:
  assumes "plain line" "list_all plain_field fs"
  shows "parse_head (head_lines (line # map field_line fs) @ CRLF) strict = Inr \<lparr>hh_line = line, hh_raw = fs, hh_headers = fs\<rparr>"
proof -
  have lines: "list_all plain (line # map field_line fs)"
    using assms field_line_parts(5) by (auto simp: list_all_iff)
  show ?thesis
    using parse_headers_fields [OF assms(2), of "[]" "[]"]
    unfolding parse_head_def split_crlf_lines [OF lines] split_lf_lines [OF lines] Let_def
    by (simp add: no_bare_lf [OF lines] del: head_lines_simps)
qed

lemma message_head_lines:
  assumes "plain line" "utf8_valid line" "take 3 line \<noteq> [239, 187, 191]" "list_all plain_field fs"
    and "length (head_lines (line # map field_line fs) @ CRLF) \<le> MAX_HEAD_BYTES"
  shows "find_head_end strict (head_lines (line # map field_line fs) @ CRLF @ rest) 0 = Some (length (head_lines (line # map field_line fs) @ CRLF))"
    and "message_head strict (head_lines (line # map field_line fs) @ CRLF @ rest) failure
      = Inr (Some \<lparr>hh_line = line, hh_raw = fs, hh_headers = fs\<rparr>)"
proof -
  have "list_all plain (line # map field_line fs)" "[] \<notin> set (map field_line fs)"
    using assms(1,4) field_line_parts(5) by (auto simp: list_all_iff image_iff dest!: field_line_parts(4))
  from find_head_end_lines [OF this]
  show found: "find_head_end strict (head_lines (line # map field_line fs) @ CRLF @ rest) 0 = Some (length (head_lines (line # map field_line fs) @ CRLF))" .
  define head where "head = head_lines (line # map field_line fs) @ CRLF"
  have "find_head_end strict (head @ rest) 0 = Some (length head)" "length head \<le> MAX_HEAD_BYTES"
    using found assms(5) by (simp_all add: head_def)
  moreover have "text_decode head = head" "parse_head head strict = Inr \<lparr>hh_line = line, hh_raw = fs, hh_headers = fs\<rparr>"
    unfolding head_def using head_text_decodes [OF assms(2-4)] parse_head_lines [OF assms(1,4)] by blast+
  ultimately have "message_head strict (head @ rest) failure = Inr (Some \<lparr>hh_line = line, hh_raw = fs, hh_headers = fs\<rparr>)"
    by (simp add: message_head_def)
  thus "message_head strict (head_lines (line # map field_line fs) @ CRLF @ rest) failure
      = Inr (Some \<lparr>hh_line = line, hh_raw = fs, hh_headers = fs\<rparr>)"
    by (simp add: head_def)
qed

section \<open>Connection-scoped fields\<close>

lemma delete_named_result:
  "delete_named connection names hs = (hs', Inr ()) \<Longrightarrow> hs' = filter (\<lambda>h. fst h \<notin> (to_lower \<circ> trim) ` set names) hs"
proof (induction names arbitrary: hs)
  case (Cons name names)
  hence "hs' = filter (\<lambda>h. fst h \<notin> (to_lower \<circ> trim) ` set names) (headers_delete (trim name) hs)"
    by (auto split: if_splits)
  thus ?case by (auto simp: headers_delete_def intro!: filter_cong)
qed simp

lemma delete_all_result:
  "delete_all names hs = (hs', Inr ()) \<Longrightarrow> hs' = filter (\<lambda>h. fst h \<notin> to_lower ` set names) hs"
proof (induction names arbitrary: hs)
  case (Cons name names)
  hence "hs' = filter (\<lambda>h. fst h \<notin> to_lower ` set names) (headers_delete name hs)"
    by (auto split: if_splits)
  thus ?case by (auto simp: headers_delete_def intro!: filter_cong)
qed simp

lemma strip_hop_by_hop_exact:
  assumes "strip_hop_by_hop hs additional = (hs', Inr ())"
  defines "named \<equiv> (case headers_get (ascii ''connection'') hs of None \<Rightarrow> [] | Some c \<Rightarrow> map trim (split_comma [] c))"
  shows "hs' = filter (\<lambda>h. fst h \<notin> to_lower ` set (named @ HOP_BY_HOP @ additional)) hs"
proof (cases "headers_get (ascii ''connection'') hs")
  case None
  with assms show ?thesis by (auto simp: strip_hop_by_hop_def dest: delete_all_result)
next
  case (Some c)
  then obtain hs1 where hs1: "delete_named c (split_comma [] c) hs = (hs1, Inr ())" "delete_all (HOP_BY_HOP @ additional) hs1 = (hs', Inr ())"
    using assms(1) by (auto simp: strip_hop_by_hop_def split: prod.splits sum.splits)
  show ?thesis
    using delete_all_result [OF hs1(2)] delete_named_result [OF hs1(1)] Some by (auto simp: named_def intro!: filter_cong)
qed

section \<open>Properties\<close>

text \<open>
  C38: what \<open>chunked_encoder\<close> writes for a stream of chunks, followed by any further bytes and cut into any fragments, is decoded by
  \<open>chunked_body\<close>, under either line discipline, to exactly the bytes of the stream; the decoder closes, and leaves unread exactly what
  follows the body.
\<close>

theorem chunked_body_roundtrip:
  assumes "concat fragments = concat (chunked_encoder chunks) @ rest" "\<forall>x \<in> set chunks. length x \<le> MAX_SAFE_INTEGER"
  shows "\<exists>c. read_body chunked_pull (chunked_body (new_byte_reader fragments failure strict)) = Some (c, Inr (concat chunks))
    \<and> unread (cb_reader c) = rest"
proof -
  let ?chunks = "filter (\<lambda>x. x \<noteq> []) chunks"
  have "decoding (chunked_body (new_byte_reader fragments failure strict)) [] ?chunks rest"
    using assms encoder_skips_empty [of chunks] by (auto simp: decoding_def chunked_body_def)
  with chunked.read_body_whole [where body = "concat chunks" and rest = rest] show ?thesis
    by (metis append_Nil concat_skips_empty)
qed

theorem chunked_body_roundtrip_witness:
  "\<exists>c. read_body chunked_pull (chunked_body (new_byte_reader [[50, 13], [10, 7, 8, 13, 10, 48], [13, 10, 13, 10, 99]] None True)) = Some (c, Inr [7, 8])
    \<and> unread (cb_reader c) = [99]"
proof -
  have "concat [[50, 13], [10, 7, 8, 13, 10, 48], [13, 10, 13, 10, 99]] = concat (chunked_encoder [[7, 8], []]) @ [99]"
    by (simp add: chunked_encoder_def encode_chunk_def encode_flush_def CRLF_def ascii_def hex_digits.simps hex_digit_def)
  from chunked_body_roundtrip [OF this, of None True] show ?thesis by (simp add: MAX_SAFE_INTEGER_def)
qed

text \<open>
  C39: what \<open>head\<close> returns depends only on the bytes that are left, never on how the stream cuts them, although the search starts
  again only three bytes before the end of what it has seen: it is \<open>message_head\<close> of all the bytes, errors included, and after a head the
  bytes behind its blank line are left.
\<close>

theorem head_fragmentation_independent:
  assumes "source_ok r"
  shows "snd (read_head r) = message_head (br_strict r) (unread r) (pending_failure r)
    \<and> (\<forall>stop h. find_head_end (br_strict r) (unread r) 0 = Some stop \<and> snd (read_head r) = Inr (Some h)
         \<longrightarrow> unread (fst (read_head r)) = drop stop (unread r))"
  using read_head_from_result [OF assms, of 0] by (simp add: read_head_def)

theorem head_fragmentation_independent_witness:
  "snd (read_head (new_byte_reader [[71, 13], [10, 13], [10, 9]] None True)) = message_head True [71, 13, 10, 13, 10, 9] None"
  using head_fragmentation_independent [of "new_byte_reader [[71, 13], [10, 13], [10, 9]] None True"]
  by (simp add: pending_failure_def) (simp add: new_byte_reader_def)

text \<open>
  C40: a head that \<open>serialize_head\<close> wrote, with fields that need no trimming, is read back from any fragmentation with its start line
  and its fields in order, and exactly the bytes after it are left.
\<close>

theorem head_roundtrip:
  assumes "plain line" "utf8_valid line" "take 3 line \<noteq> [239, 187, 191]" "list_all plain_field (headers_entries hs)"
    and "length (serialize_head line hs) \<le> MAX_HEAD_BYTES" "concat fragments = serialize_head line hs @ rest"
  shows "\<exists>r. read_head (new_byte_reader fragments failure strict) = (r, Inr (Some \<lparr>hh_line = line, hh_raw = headers_entries hs, hh_headers = headers_entries hs\<rparr>))
    \<and> unread r = rest"
proof -
  let ?r = "new_byte_reader fragments failure strict"
  have strict: "br_strict ?r = strict" and all: "unread ?r = serialize_head line hs @ rest"
    using assms(6) by (simp_all add: new_byte_reader_def unread_def)
  have head: "find_head_end strict (serialize_head line hs @ rest) 0 = Some (length (serialize_head line hs))"
    "message_head strict (serialize_head line hs @ rest) e
      = Inr (Some \<lparr>hh_line = line, hh_raw = headers_entries hs, hh_headers = headers_entries hs\<rparr>)" for e
    using message_head_lines [OF assms(1-4), of strict rest] assms(5) by (simp_all add: serialize_head_lines)
  have "snd (read_head_from 0 ?r) = Inr (Some \<lparr>hh_line = line, hh_raw = headers_entries hs, hh_headers = headers_entries hs\<rparr>)"
    "unread (fst (read_head_from 0 ?r)) = rest"
    using read_head_from_result [of ?r 0] head unfolding strict all by auto
  thus ?thesis by (cases "read_head_from 0 ?r") (simp add: read_head_def)
qed

theorem head_roundtrip_witness:
  "\<exists>r. read_head (new_byte_reader [[65, 13], [10, 98, 58], [32, 99, 13, 10, 13, 10, 7]] None True)
     = (r, Inr (Some \<lparr>hh_line = [65], hh_raw = [([98], [99])], hh_headers = [([98], [99])]\<rparr>)) \<and> unread r = [7]"
proof -
  have entries: "headers_entries [([98], [99])] = [([98], [99])]"
    by (simp add: headers_entries_def ascii_def)
  have stays: "strip_left whitespace [99] = [99]" "strip_left (map rev whitespace) [99] = [99]" "strip_left [[9], [10], [13], [32]] [99] = [99]"
    by (subst strip_left.simps, simp add: whitespace_def starts_with_def)+
  have field: "plain_field ([98], [99])"
    by (simp add: plain_field_def is_token_def token_byte_def digit_byte_def upper_byte_def to_lower_def invalid_value_byte_def
        trim_def normalize_value_def stays)
  have wire: "serialize_head [65] [([98], [99])] = [65, 13, 10, 98, 58, 32, 99, 13, 10, 13, 10]"
    by (simp add: serialize_head_def entries CRLF_def ascii_def)
  show ?thesis
    using head_roundtrip [of "[65]" "[([98], [99])]" "[[65, 13], [10, 98, 58], [32, 99, 13, 10, 13, 10, 7]]" "[7]" None True]
    by (simp add: entries field wire plain_def MAX_HEAD_BYTES_def)
qed
end
