(* ===== verification/Fs_Wire.thy ===== *)
theory Fs_Wire
  imports Struct_Encoding Virtqueue
begin

text \<open>
  The wire side of \<open>packages/kernel/src/virtio/fs.ts\<close>: the FUSE constants and messages, attributes, names, directory entries, and a
  request and its response spread over the buffers of a chain.
\<close>

unbundle bit_operations_syntax

section \<open>Constants\<close>

definition FUSE_LOOKUP :: nat where "FUSE_LOOKUP = 1"
definition FUSE_FORGET :: nat where "FUSE_FORGET = 2"
definition FUSE_GETATTR :: nat where "FUSE_GETATTR = 3"
definition FUSE_SETATTR :: nat where "FUSE_SETATTR = 4"
definition FUSE_READLINK :: nat where "FUSE_READLINK = 5"
definition FUSE_SYMLINK :: nat where "FUSE_SYMLINK = 6"
definition FUSE_MKDIR :: nat where "FUSE_MKDIR = 9"
definition FUSE_UNLINK :: nat where "FUSE_UNLINK = 10"
definition FUSE_RMDIR :: nat where "FUSE_RMDIR = 11"
definition FUSE_RENAME :: nat where "FUSE_RENAME = 12"
definition FUSE_OPEN :: nat where "FUSE_OPEN = 14"
definition FUSE_READ :: nat where "FUSE_READ = 15"
definition FUSE_WRITE :: nat where "FUSE_WRITE = 16"
definition FUSE_STATFS :: nat where "FUSE_STATFS = 17"
definition FUSE_RELEASE :: nat where "FUSE_RELEASE = 18"
definition FUSE_FSYNC :: nat where "FUSE_FSYNC = 20"
definition FUSE_FLUSH :: nat where "FUSE_FLUSH = 25"
definition FUSE_INIT :: nat where "FUSE_INIT = 26"
definition FUSE_OPENDIR :: nat where "FUSE_OPENDIR = 27"
definition FUSE_READDIR :: nat where "FUSE_READDIR = 28"
definition FUSE_RELEASEDIR :: nat where "FUSE_RELEASEDIR = 29"
definition FUSE_FSYNCDIR :: nat where "FUSE_FSYNCDIR = 30"
definition FUSE_ACCESS :: nat where "FUSE_ACCESS = 34"
definition FUSE_CREATE :: nat where "FUSE_CREATE = 35"
definition FUSE_INTERRUPT :: nat where "FUSE_INTERRUPT = 36"
definition FUSE_DESTROY :: nat where "FUSE_DESTROY = 38"
definition FUSE_BATCH_FORGET :: nat where "FUSE_BATCH_FORGET = 42"

definition INIT_ASYNC_READ :: nat where "INIT_ASYNC_READ = 2 ^ 0"
definition INIT_BIG_WRITES :: nat where "INIT_BIG_WRITES = 2 ^ 5"
definition INIT_AUTO_INVAL_DATA :: nat where "INIT_AUTO_INVAL_DATA = 2 ^ 12"
definition INIT_MAX_PAGES :: nat where "INIT_MAX_PAGES = 2 ^ 22"
definition INIT_INIT_EXT :: nat where "INIT_INIT_EXT = 2 ^ 30"
definition GETATTR_FH :: nat where "GETATTR_FH = 2 ^ 0"
definition SETATTR_MODE :: nat where "SETATTR_MODE = 2 ^ 0"
definition SETATTR_UID :: nat where "SETATTR_UID = 2 ^ 1"
definition SETATTR_GID :: nat where "SETATTR_GID = 2 ^ 2"
definition SETATTR_SIZE :: nat where "SETATTR_SIZE = 2 ^ 3"
definition SETATTR_ATIME :: nat where "SETATTR_ATIME = 2 ^ 4"
definition SETATTR_MTIME :: nat where "SETATTR_MTIME = 2 ^ 5"
definition SETATTR_FH :: nat where "SETATTR_FH = 2 ^ 6"
definition SETATTR_ATIME_NOW :: nat where "SETATTR_ATIME_NOW = 2 ^ 7"
definition SETATTR_MTIME_NOW :: nat where "SETATTR_MTIME_NOW = 2 ^ 8"
definition SETATTR_CTIME :: nat where "SETATTR_CTIME = 2 ^ 10"

datatype file_type =
    T_fifo | T_character | T_directory | T_block | T_file | T_symlink | T_socket

fun file_type_bits :: "file_type \<Rightarrow> int" where
  "file_type_bits T_fifo = 4096"
| "file_type_bits T_character = 8192"
| "file_type_bits T_directory = 16384"
| "file_type_bits T_block = 24576"
| "file_type_bits T_file = 32768"
| "file_type_bits T_symlink = 40960"
| "file_type_bits T_socket = 49152"

fun dirent_type :: "file_type \<Rightarrow> nat" where
  "dirent_type T_fifo = 1"
| "dirent_type T_character = 2"
| "dirent_type T_directory = 4"
| "dirent_type T_block = 6"
| "dirent_type T_file = 8"
| "dirent_type T_symlink = 10"
| "dirent_type T_socket = 12"

datatype fs_code =
    EPERM | ENOENT | EIO | EBADF | EACCES | EEXIST | ENOTDIR | EISDIR | EINVAL | ENOSPC | EROFS | EPROTO | ENAMETOOLONG | ENOSYS | ENOTEMPTY | ELOOP | EOPNOTSUPP

fun fs_errno :: "fs_code \<Rightarrow> nat" where
  "fs_errno EPERM = 1"
| "fs_errno ENOENT = 2"
| "fs_errno EIO = 5"
| "fs_errno EBADF = 9"
| "fs_errno EACCES = 13"
| "fs_errno EEXIST = 17"
| "fs_errno ENOTDIR = 20"
| "fs_errno EISDIR = 21"
| "fs_errno EINVAL = 22"
| "fs_errno ENOSPC = 28"
| "fs_errno EROFS = 30"
| "fs_errno EPROTO = 71"
| "fs_errno ENAMETOOLONG = 36"
| "fs_errno ENOSYS = 38"
| "fs_errno ENOTEMPTY = 39"
| "fs_errno ELOOP = 40"
| "fs_errno EOPNOTSUPP = 95"

section \<open>Messages\<close>

definition FuseInHeader :: layout where
  "FuseInHeader = [(''len'', Scalar U32LE), (''opcode'', Scalar U32LE), (''unique'', Scalar U64LE), (''nodeid'', Scalar U64LE),
     (''uid'', Scalar U32LE), (''gid'', Scalar U32LE), (''pid'', Scalar U32LE), (''total_extlen'', Scalar U16LE),
     (''padding'', Scalar U16LE)]"

definition FuseOutHeader :: layout where
  "FuseOutHeader = [(''len'', Scalar U32LE), (''error'', Scalar I32LE), (''unique'', Scalar U64LE)]"

definition FuseAttr :: layout where
  "FuseAttr = [(''ino'', Scalar U64LE), (''size'', Scalar U64LE), (''blocks'', Scalar U64LE), (''atime'', Scalar U64LE),
     (''mtime'', Scalar U64LE), (''ctime'', Scalar U64LE), (''atimensec'', Scalar U32LE), (''mtimensec'', Scalar U32LE),
     (''ctimensec'', Scalar U32LE), (''mode'', Scalar U32LE), (''nlink'', Scalar U32LE), (''uid'', Scalar U32LE),
     (''gid'', Scalar U32LE), (''rdev'', Scalar U32LE), (''blksize'', Scalar U32LE), (''flags'', Scalar U32LE)]"

definition FuseEntryOut :: layout where
  "FuseEntryOut = [(''nodeid'', Scalar U64LE), (''generation'', Scalar U64LE), (''entry_valid'', Scalar U64LE),
     (''attr_valid'', Scalar U64LE), (''entry_valid_nsec'', Scalar U32LE), (''attr_valid_nsec'', Scalar U32LE),
     (''attr'', Struct FuseAttr)]"

definition FuseAttrOut :: layout where
  "FuseAttrOut = [(''attr_valid'', Scalar U64LE), (''attr_valid_nsec'', Scalar U32LE), (''dummy'', Scalar U32LE),
     (''attr'', Struct FuseAttr)]"

definition FuseOpenOut :: layout where
  "FuseOpenOut = [(''fh'', Scalar U64LE), (''open_flags'', Scalar U32LE), (''backing_id'', Scalar I32LE)]"

definition FuseInitOut :: layout where
  "FuseInitOut = [(''major'', Scalar U32LE), (''minor'', Scalar U32LE), (''max_readahead'', Scalar U32LE), (''flags'', Scalar U32LE),
     (''max_background'', Scalar U16LE), (''congestion_threshold'', Scalar U16LE), (''max_write'', Scalar U32LE),
     (''time_gran'', Scalar U32LE), (''max_pages'', Scalar U16LE), (''map_alignment'', Scalar U16LE), (''flags2'', Scalar U32LE),
     (''max_stack_depth'', Scalar U32LE), (''request_timeout'', Scalar U16LE), (''unused'', FixedArray (Scalar U16LE) 11)]"

definition FuseWriteOut :: layout where
  "FuseWriteOut = [(''size'', Scalar U32LE), (''padding'', Scalar U32LE)]"

definition FuseStatfsOut :: layout where
  "FuseStatfsOut = [(''blocks'', Scalar U64LE), (''bfree'', Scalar U64LE), (''bavail'', Scalar U64LE), (''files'', Scalar U64LE),
     (''ffree'', Scalar U64LE), (''bsize'', Scalar U32LE), (''namelen'', Scalar U32LE), (''frsize'', Scalar U32LE),
     (''padding'', Scalar U32LE), (''spare'', FixedArray (Scalar U32LE) 6)]"

definition FuseInitIn :: layout where
  "FuseInitIn = [(''major'', Scalar U32LE), (''minor'', Scalar U32LE), (''max_readahead'', Scalar U32LE), (''flags'', Scalar U32LE)]"

definition FuseForgetIn :: layout where
  "FuseForgetIn = [(''nlookup'', Scalar U64LE)]"

definition FuseForgetOne :: layout where
  "FuseForgetOne = [(''nodeid'', Scalar U64LE), (''nlookup'', Scalar U64LE)]"

definition FuseBatchForgetIn :: layout where
  "FuseBatchForgetIn = [(''count'', Scalar U32LE), (''dummy'', Scalar U32LE)]"

definition FuseGetattrIn :: layout where
  "FuseGetattrIn = [(''getattr_flags'', Scalar U32LE), (''dummy'', Scalar U32LE), (''fh'', Scalar U64LE)]"

definition FuseMkdirIn :: layout where
  "FuseMkdirIn = [(''mode'', Scalar U32LE), (''umask'', Scalar U32LE)]"

definition FuseRenameIn :: layout where
  "FuseRenameIn = [(''newdir'', Scalar U64LE)]"

definition FuseSetattrIn :: layout where
  "FuseSetattrIn = [(''valid'', Scalar U32LE), (''padding'', Scalar U32LE), (''fh'', Scalar U64LE), (''size'', Scalar U64LE),
     (''lock_owner'', Scalar U64LE), (''atime'', Scalar U64LE), (''mtime'', Scalar U64LE), (''ctime'', Scalar U64LE),
     (''atimensec'', Scalar U32LE), (''mtimensec'', Scalar U32LE), (''ctimensec'', Scalar U32LE), (''mode'', Scalar U32LE),
     (''unused4'', Scalar U32LE), (''uid'', Scalar U32LE), (''gid'', Scalar U32LE), (''unused5'', Scalar U32LE)]"

definition FuseOpenIn :: layout where
  "FuseOpenIn = [(''flags'', Scalar U32LE), (''open_flags'', Scalar U32LE)]"

definition FuseCreateIn :: layout where
  "FuseCreateIn = [(''flags'', Scalar U32LE), (''mode'', Scalar U32LE), (''umask'', Scalar U32LE), (''open_flags'', Scalar U32LE)]"

definition FuseReadIn :: layout where
  "FuseReadIn = [(''fh'', Scalar U64LE), (''offset'', Scalar U64LE), (''size'', Scalar U32LE), (''read_flags'', Scalar U32LE),
     (''lock_owner'', Scalar U64LE), (''flags'', Scalar U32LE), (''padding'', Scalar U32LE)]"

definition FuseWriteIn :: layout where
  "FuseWriteIn = [(''fh'', Scalar U64LE), (''offset'', Scalar U64LE), (''size'', Scalar U32LE), (''write_flags'', Scalar U32LE),
     (''lock_owner'', Scalar U64LE), (''flags'', Scalar U32LE), (''padding'', Scalar U32LE)]"

definition FuseFlushIn :: layout where
  "FuseFlushIn = [(''fh'', Scalar U64LE), (''unused'', Scalar U32LE), (''padding'', Scalar U32LE), (''lock_owner'', Scalar U64LE)]"

definition FuseFsyncIn :: layout where
  "FuseFsyncIn = [(''fh'', Scalar U64LE), (''fsync_flags'', Scalar U32LE), (''padding'', Scalar U32LE)]"

definition FuseReleaseIn :: layout where
  "FuseReleaseIn = [(''fh'', Scalar U64LE), (''flags'', Scalar U32LE), (''release_flags'', Scalar U32LE),
     (''lock_owner'', Scalar U64LE)]"

definition FuseAccessIn :: layout where
  "FuseAccessIn = [(''mask'', Scalar U32LE), (''padding'', Scalar U32LE)]"

definition FuseDirent :: layout where
  "FuseDirent = [(''ino'', Scalar U64LE), (''off'', Scalar U64LE), (''namelen'', Scalar U32LE), (''type'', Scalar U32LE)]"

section \<open>Requests\<close>

text \<open>\<open>body.struct(type)\<close>, and the numeric fields of what it returns.\<close>

definition request_struct :: "layout \<Rightarrow> reader \<Rightarrow> (dataview \<times> reader) result" where
  "request_struct fs r = bindE (reader_struct (Struct fs) r) (\<lambda>(v, r').
     case v of Inst dv fs' \<Rightarrow> Inr (dv, r') | _ \<Rightarrow> Inl (TypeError ''not a struct''))"

definition request_field :: "layout \<Rightarrow> dataview \<Rightarrow> string \<Rightarrow> nat" where
  "request_field fs dv k = (case get_num fs dv k of Inl e \<Rightarrow> 0 | Inr n \<Rightarrow> n)"

definition fs_fail :: "fs_code \<Rightarrow> js_error" where
  "fs_fail code = FSError (fs_errno code) ''''"

text \<open>\<open>a & b\<close> and \<open>a | b\<close> of two numbers are signed 32-bit integers.\<close>

definition to_int32 :: "int \<Rightarrow> int" where
  "to_int32 n = js_signed 32 (nat (n mod 2 ^ 32))"

definition mode_type :: "int \<Rightarrow> file_type result" where
  "mode_type mode = (case find (\<lambda>t. file_type_bits t = mode AND 61440) [T_fifo, T_character, T_directory, T_block, T_file, T_symlink, T_socket] of
       None \<Rightarrow> Inl (fs_fail EIO)
     | Some t \<Rightarrow> Inr t)"

definition checked_number :: "nat \<Rightarrow> nat result" where
  "checked_number n = (if n \<le> 2 ^ 53 - 1 then Inr n else Inl (fs_fail EINVAL))"

definition validate_name :: "ustring \<Rightarrow> ustring result" where
  "validate_name name =
     (if name = [] \<or> name = ascii ''.'' \<or> name = ascii ''..'' \<or> 47 \<in> set name \<or> 0 \<in> set name then Inl (fs_fail EINVAL)
      else if length name > 255 then Inl (fs_fail ENAMETOOLONG)
      else Inr name)"

section \<open>Buffers of a chain\<close>

definition concatenate :: "vq_buffer list \<Rightarrow> bool \<Rightarrow> bytes" where
  "concatenate bufs writable = concat (map vb_array (filter (\<lambda>b. vb_writable b = writable) bufs))"

definition response_capacity :: "vq_buffer list \<Rightarrow> nat" where
  "response_capacity bufs = sum_list (map (\<lambda>b. length (vb_array b)) (filter vb_writable bufs))"

text \<open>\<open>scatter\<close>: the loop stops at the first writable buffer that takes nothing; what it has written stays written.\<close>

fun scatter_loop :: "vq_buffer list \<Rightarrow> bytes \<Rightarrow> vq_buffer list \<times> bytes" where
  "scatter_loop [] rest = ([], rest)"
| "scatter_loop (b # bs) rest =
     (if \<not> vb_writable b then (case scatter_loop bs rest of (bs', rest') \<Rightarrow> (b # bs', rest'))
      else
        let n = min (length (vb_array b)) (length rest)
        in if n = 0 then (b # bs, rest)
           else case scatter_loop bs (drop n rest) of
             (bs', rest') \<Rightarrow> (b\<lparr>vb_array := overwrite (vb_array b) 0 (take n rest)\<rparr> # bs', rest'))"

definition scatter_response :: "vq_buffer list \<Rightarrow> bytes \<Rightarrow> vq_buffer list \<times> unit result" where
  "scatter_response bufs resp = (case scatter_loop bufs resp of
       (bufs', rest) \<Rightarrow> (bufs', if rest \<noteq> [] then Inl (Error ''guest response buffers are too small'') else Inr ()))"

definition minimum_response_capacity :: "nat \<Rightarrow> nat" where
  "minimum_response_capacity opcode =
     (if opcode \<in> {FUSE_FORGET, FUSE_BATCH_FORGET, FUSE_INTERRUPT} then 0
      else layout_size FuseOutHeader
        + (if opcode = FUSE_INIT then layout_size FuseInitOut
           else if opcode \<in> {FUSE_LOOKUP, FUSE_SYMLINK, FUSE_MKDIR} then layout_size FuseEntryOut
           else if opcode \<in> {FUSE_GETATTR, FUSE_SETATTR} then layout_size FuseAttrOut
           else if opcode \<in> {FUSE_OPEN, FUSE_OPENDIR} then layout_size FuseOpenOut
           else if opcode = FUSE_CREATE then layout_size FuseEntryOut + layout_size FuseOpenOut
           else if opcode = FUSE_WRITE then layout_size FuseWriteOut
           else if opcode = FUSE_STATFS then layout_size FuseStatfsOut
           else 0))"

section \<open>Attributes\<close>

record fs_timestamp =
  ts_seconds :: int
  ts_nanoseconds :: "int option"

record fs_attributes =
  fa_mode :: int
  fa_size :: int
  fa_atime :: "fs_timestamp option"
  fa_mtime :: "fs_timestamp option"
  fa_ctime :: "fs_timestamp option"
  fa_blocks :: "int option"
  fa_nlink :: "int option"
  fa_uid :: "int option"
  fa_gid :: "int option"
  fa_rdev :: "int option"
  fa_block_size :: "int option"

definition or_else :: "'a option \<Rightarrow> 'a \<Rightarrow> 'a" where
  "or_else x d = (case x of None \<Rightarrow> d | Some y \<Rightarrow> y)"

definition timestamp :: "fs_timestamp option \<Rightarrow> int \<times> int" where
  "timestamp t = (case t of None \<Rightarrow> (0, 0) | Some t \<Rightarrow> (ts_seconds t, or_else (ts_nanoseconds t) 0))"

text \<open>Division of big integers truncates.\<close>

definition big_div :: "int \<Rightarrow> int \<Rightarrow> int" where
  "big_div a b = (if a < 0 then - ((- a) div b) else a div b)"

definition attr_fields :: "nat \<Rightarrow> fs_attributes \<Rightarrow> (string \<times> val) list result" where
  "attr_fields nodeid a =
     bindE (case fa_nlink a of Some n \<Rightarrow> Inr n | None \<Rightarrow> bindE (mode_type (fa_mode a)) (\<lambda>t. Inr (if t = T_directory then 2 else 1))) (\<lambda>nlink.
     Inr [(''ino'', Num (int nodeid)), (''size'', Num (fa_size a)), (''blocks'', Num (or_else (fa_blocks a) (big_div (fa_size a + 511) 512))),
       (''atime'', Num (fst (timestamp (fa_atime a)))), (''mtime'', Num (fst (timestamp (fa_mtime a)))), (''ctime'', Num (fst (timestamp (fa_ctime a)))),
       (''atimensec'', Num (snd (timestamp (fa_atime a)))), (''mtimensec'', Num (snd (timestamp (fa_mtime a)))),
       (''ctimensec'', Num (snd (timestamp (fa_ctime a)))), (''mode'', Num (fa_mode a)), (''nlink'', Num nlink), (''uid'', Num (or_else (fa_uid a) 0)),
       (''gid'', Num (or_else (fa_gid a) 0)), (''rdev'', Num (or_else (fa_rdev a) 0)), (''blksize'', Num (or_else (fa_block_size a) 4096)), (''flags'', Num 0)])"

text \<open>\<open>payload.alloc(type).value = v\<close>, where computing \<open>v\<close> may throw after the space has been reserved.\<close>

definition put_value :: "bytebuf \<Rightarrow> layout \<Rightarrow> (string \<times> val) list result \<Rightarrow> bytebuf result option" where
  "put_value b fs v = bindR (map_option Inr (bytes_alloc b (Struct fs))) (\<lambda>(off, b1). Some (bindE v (\<lambda>kvs. alloc_set b1 (Struct fs) off (Obj kvs))))"

definition write_entry :: "bytebuf \<Rightarrow> nat \<Rightarrow> fs_attributes \<Rightarrow> nat \<Rightarrow> bytebuf result option" where
  "write_entry payload nodeid a validity = put_value payload FuseEntryOut (bindE (attr_fields nodeid a) (\<lambda>attr.
     Inr [(''nodeid'', Num (int nodeid)), (''generation'', Num 1), (''entry_valid'', Num (int validity)), (''attr_valid'', Num (int validity)),
       (''entry_valid_nsec'', Num 0), (''attr_valid_nsec'', Num 0), (''attr'', Obj attr)]))"

definition write_attr_out :: "bytebuf \<Rightarrow> nat \<Rightarrow> nat \<Rightarrow> fs_attributes \<Rightarrow> bytebuf result option" where
  "write_attr_out payload validity nodeid a = put_value payload FuseAttrOut (bindE (attr_fields nodeid a) (\<lambda>attr.
     Inr [(''attr_valid'', Num (int validity)), (''attr_valid_nsec'', Num 0), (''dummy'', Num 0), (''attr'', Obj attr)]))"

definition write_open_out :: "bytebuf \<Rightarrow> nat \<Rightarrow> bytebuf result option" where
  "write_open_out payload fh = put_value payload FuseOpenOut (Inr [(''fh'', Num (int fh)), (''open_flags'', Num 0), (''backing_id'', Num (- 1))])"

record fs_context =
  fc_mode :: int
  fc_uid :: nat
  fc_gid :: nat

definition create_context :: "dataview \<Rightarrow> int \<Rightarrow> int \<Rightarrow> fs_context" where
  "create_context header mode umask = \<lparr>fc_mode = to_int32 (mode AND NOT umask), fc_uid = request_field FuseInHeader header ''uid'',
     fc_gid = request_field FuseInHeader header ''gid''\<rparr>"

section \<open>Directory entries\<close>

definition dirent_record_length :: "ustring \<Rightarrow> nat" where
  "dirent_record_length name = (24 + length name + 7) div 8 * 8"

text \<open>One entry: the header, the name, and padding to a multiple of eight.\<close>

definition write_dirent :: "bytebuf \<Rightarrow> nat \<Rightarrow> nat \<Rightarrow> ustring \<Rightarrow> int \<Rightarrow> bytebuf result option" where
  "write_dirent payload ino off name mode =
     bindR (put_value payload FuseDirent (bindE (mode_type mode) (\<lambda>t.
       Inr [(''ino'', Num (int ino)), (''off'', Num (int off)), (''namelen'', Num (int (length name))), (''type'', Num (int (dirent_type t)))]))) (\<lambda>p1.
     bindR (append_bytes p1 name) (\<lambda>p2. map_option (\<lambda>(_, p3). Inr p3) (bytes_bump p2 ((8 - bb_length p2 mod 8) mod 8))))"

section \<open>Fixed messages\<close>

definition write_init_out :: "bytebuf \<Rightarrow> nat \<Rightarrow> nat \<Rightarrow> nat \<Rightarrow> bytebuf result option" where
  "write_init_out payload minor max_readahead requested =
     (let flags = requested AND (INIT_ASYNC_READ OR INIT_BIG_WRITES OR INIT_AUTO_INVAL_DATA OR INIT_MAX_PAGES OR INIT_INIT_EXT)
      in put_value payload FuseInitOut (Inr [(''major'', Num 7), (''minor'', Num (int (min minor 45))),
           (''max_readahead'', Num (int (min max_readahead (1024 * 1024)))), (''flags'', Num (int flags)), (''max_background'', Num 12),
           (''congestion_threshold'', Num 9), (''max_write'', Num (1024 * 1024)), (''time_gran'', Num 1),
           (''max_pages'', Num (if flags AND INIT_MAX_PAGES = 0 then 0 else 16)), (''map_alignment'', Num 0), (''flags2'', Num 0),
           (''max_stack_depth'', Num 0), (''request_timeout'', Num 0), (''unused'', Arr (replicate 11 (Num 0)))]))"

record fs_stat =
  fst_blocks :: "int option"
  fst_blocks_free :: "int option"
  fst_blocks_available :: "int option"
  fst_files :: "int option"
  fst_files_free :: "int option"
  fst_block_size :: "int option"
  fst_fragment_size :: "int option"
  fst_name_length :: "int option"

definition no_stat :: fs_stat where
  "no_stat = \<lparr>fst_blocks = None, fst_blocks_free = None, fst_blocks_available = None, fst_files = None, fst_files_free = None,
     fst_block_size = None, fst_fragment_size = None, fst_name_length = None\<rparr>"

definition write_statfs_out :: "bytebuf \<Rightarrow> fs_stat \<Rightarrow> bytebuf result option" where
  "write_statfs_out payload st = put_value payload FuseStatfsOut (Inr [(''blocks'', Num (or_else (fst_blocks st) 0)),
     (''bfree'', Num (or_else (fst_blocks_free st) 0)), (''bavail'', Num (or_else (fst_blocks_available st) 0)),
     (''files'', Num (or_else (fst_files st) 0)), (''ffree'', Num (or_else (fst_files_free st) 0)), (''bsize'', Num (or_else (fst_block_size st) 4096)),
     (''namelen'', Num (or_else (fst_name_length st) 255)),
     (''frsize'', Num (or_else (fst_fragment_size st) (or_else (fst_block_size st) 4096))), (''padding'', Num 0), (''spare'', Arr (replicate 6 (Num 0)))])"

definition response_header :: "nat \<Rightarrow> int \<Rightarrow> nat \<Rightarrow> (string \<times> val) list" where
  "response_header len error unique = [(''len'', Num (int len)), (''error'', Num error), (''unique'', Num (int unique))]"

end
