(* ===== verification/Async.thy ===== *)
theory Async
  imports Prelude
begin

text \<open>
  Async functions over shared state.  Between two awaits such a function runs alone; at an await it hands a call to the host and is
  suspended with a continuation, which gets the reply and the state as the other functions have left it.  \<open>Hang\<close> is a loop that never
  ends.  A computation takes the state it starts in and returns the state at its first await, or at its end, with what is left of it.

  The second part is a proof system for computations that run concurrently: every segment keeps an invariant and a guarantee about the
  state, and may own names (here numbers) that the invariant excuses until they are given up.
\<close>

section \<open>Computations\<close>

datatype ('q, 'r, 's, 'a) async =
    Return 'a
  | Throw js_error
  | Hang
  | Await 'q "'r \<Rightarrow> 's \<Rightarrow> 's \<times> ('q, 'r, 's, 'a) async"

definition returnA :: "'a \<Rightarrow> 's \<Rightarrow> 's \<times> ('q, 'r, 's, 'a) async" where
  "returnA x s = (s, Return x)"

definition throwA :: "js_error \<Rightarrow> 's \<Rightarrow> 's \<times> ('q, 'r, 's, 'a) async" where
  "throwA e s = (s, Throw e)"

definition getA :: "('s \<Rightarrow> 'a) \<Rightarrow> 's \<Rightarrow> 's \<times> ('q, 'r, 's, 'a) async" where
  "getA f s = (s, Return (f s))"

definition updateA :: "('s \<Rightarrow> 's) \<Rightarrow> 's \<Rightarrow> 's \<times> ('q, 'r, 's, unit) async" where
  "updateA f s = (f s, Return ())"

definition stepA :: "('s \<Rightarrow> 's \<times> 'a) \<Rightarrow> 's \<Rightarrow> 's \<times> ('q, 'r, 's, 'a) async" where
  "stepA f s = (case f s of (s', x) \<Rightarrow> (s', Return x))"

definition awaitA :: "'q \<Rightarrow> 's \<Rightarrow> 's \<times> ('q, 'r, 's, 'r) async" where
  "awaitA q s = (s, Await q (\<lambda>r s'. (s', Return r)))"

definition liftA :: "'a result \<Rightarrow> 's \<Rightarrow> 's \<times> ('q, 'r, 's, 'a) async" where
  "liftA x s = (s, case x of Inl e \<Rightarrow> Throw e | Inr y \<Rightarrow> Return y)"

definition liftR :: "'a result option \<Rightarrow> 's \<Rightarrow> 's \<times> ('q, 'r, 's, 'a) async" where
  "liftR x s = (s, case x of None \<Rightarrow> Hang | Some (Inl e) \<Rightarrow> Throw e | Some (Inr y) \<Rightarrow> Return y)"

text \<open>
  What follows a computation: \<open>settleA\<close> continues with its result or its exception, which gives sequencing, \<open>catch\<close> and \<open>finally\<close>.
\<close>

primrec settle_async :: "('q, 'r, 's, 'a) async \<Rightarrow> ('a result \<Rightarrow> 's \<Rightarrow> 's \<times> ('q, 'r, 's, 'b) async) \<Rightarrow> 's \<Rightarrow> 's \<times> ('q, 'r, 's, 'b) async" where
  "settle_async (Return x) = (\<lambda>f s. f (Inr x) s)"
| "settle_async (Throw e) = (\<lambda>f s. f (Inl e) s)"
| "settle_async Hang = (\<lambda>f s. (s, Hang))"
| "settle_async (Await q k) = (\<lambda>f s. (s, Await q (\<lambda>r s'. case map_prod id settle_async (k r s') of (s2, g) \<Rightarrow> g f s2)))"

definition settleA ::
    "('s \<Rightarrow> 's \<times> ('q, 'r, 's, 'a) async) \<Rightarrow> ('a result \<Rightarrow> 's \<Rightarrow> 's \<times> ('q, 'r, 's, 'b) async) \<Rightarrow> 's \<Rightarrow> 's \<times> ('q, 'r, 's, 'b) async" where
  "settleA m f s = (case m s of (s', p) \<Rightarrow> settle_async p f s')"

definition bindA ::
    "('s \<Rightarrow> 's \<times> ('q, 'r, 's, 'a) async) \<Rightarrow> ('a \<Rightarrow> 's \<Rightarrow> 's \<times> ('q, 'r, 's, 'b) async) \<Rightarrow> 's \<Rightarrow> 's \<times> ('q, 'r, 's, 'b) async" where
  "bindA m f = settleA m (\<lambda>x. case x of Inl e \<Rightarrow> throwA e | Inr y \<Rightarrow> f y)"

definition catchA ::
    "('s \<Rightarrow> 's \<times> ('q, 'r, 's, 'a) async) \<Rightarrow> (js_error \<Rightarrow> 's \<Rightarrow> 's \<times> ('q, 'r, 's, 'a) async) \<Rightarrow> 's \<Rightarrow> 's \<times> ('q, 'r, 's, 'a) async" where
  "catchA m h = settleA m (\<lambda>x. case x of Inl e \<Rightarrow> h e | Inr y \<Rightarrow> returnA y)"

definition finallyA ::
    "('s \<Rightarrow> 's \<times> ('q, 'r, 's, 'a) async) \<Rightarrow> ('s \<Rightarrow> 's) \<Rightarrow> 's \<Rightarrow> 's \<times> ('q, 'r, 's, 'a) async" where
  "finallyA m f = settleA m (\<lambda>x s. (f s, case x of Inl e \<Rightarrow> Throw e | Inr y \<Rightarrow> Return y))"

text \<open>Running a computation alone, with the replies given in order: the state, and the result once it has one.\<close>

primrec run_async :: "('q, 'r, 's, 'a) async \<Rightarrow> 's \<Rightarrow> 'r list \<Rightarrow> 's \<times> ('q, 'r, 's, 'a) async" where
  "run_async (Return x) = (\<lambda>s rs. (s, Return x))"
| "run_async (Throw e) = (\<lambda>s rs. (s, Throw e))"
| "run_async Hang = (\<lambda>s rs. (s, Hang))"
| "run_async (Await q k) = (\<lambda>s rs. case rs of
       [] \<Rightarrow> (s, Await q k)
     | r # rs' \<Rightarrow> (case map_prod id run_async (k r s) of (s2, g) \<Rightarrow> g s2 rs'))"

definition runA :: "('s \<Rightarrow> 's \<times> ('q, 'r, 's, 'a) async) \<Rightarrow> 'r list \<Rightarrow> 's \<Rightarrow> 's \<times> ('q, 'r, 's, 'a) async" where
  "runA m rs s = (case m s of (s', p) \<Rightarrow> run_async p s' rs)"

lemma settle_async_Await [simp]:
  "settle_async (Await q k) f s = (s, Await q (\<lambda>r s'. case k r s' of (s2, p) \<Rightarrow> settle_async p f s2))"
  by (simp add: case_prod_unfold)

lemma run_async_Await [simp]:
  "run_async (Await q k) s rs = (case rs of [] \<Rightarrow> (s, Await q k) | r # rs' \<Rightarrow> (case k r s of (s2, p) \<Rightarrow> run_async p s2 rs'))"
  by (simp add: case_prod_unfold split: list.splits)

declare settle_async.simps(4) [simp del] run_async.simps(4) [simp del]

lemma async_steps:
  "runA (returnA x) rs s = (s, Return x)" "runA (throwA e) rs s = (s, Throw e)" "runA (getA f) rs s = (s, Return (f s))"
  "runA (updateA g) rs s = (g s, Return ())" "runA (liftA y) rs s = (s, case y of Inl e \<Rightarrow> Throw e | Inr z \<Rightarrow> Return z)"
  by (simp_all add: runA_def returnA_def throwA_def getA_def updateA_def liftA_def split: sum.splits)

text \<open>Sequencing is associative, and a computation that ends at once passes its result on.\<close>

lemma settleA_async: "settleA (settle_async p f) g s = settle_async p (\<lambda>x. settleA (f x) g) s"
proof (induction p arbitrary: s)
  case (Await q k)
  have "(case case k r s' of (s2, p) \<Rightarrow> settle_async p f s2 of (s2, p) \<Rightarrow> settle_async p g s2)
      = (case k r s' of (s2, p) \<Rightarrow> settle_async p (\<lambda>x. settleA (f x) g) s2)" for r s'
  proof -
    obtain a b where k: "k r s' = (a, b)" by fastforce
    hence "(a, b) \<in> range (k r)" by (metis rangeI)
    from Await.IH [OF _ this, of b a] k show ?thesis by (simp add: settleA_def [abs_def])
  qed
  thus ?case by (simp add: settleA_def [abs_def])
qed (simp_all add: settleA_def)

lemma settleA_assoc: "settleA (settleA m f) g = settleA m (\<lambda>x. settleA (f x) g)"
  using settleA_async [of _ f g] by (auto simp: fun_eq_iff settleA_def split: prod.splits)

lemma settleA_return [simp]: "settleA (returnA x) f = f (Inr x)" "settleA (throwA e) f = f (Inl e)"
  by (simp_all add: fun_eq_iff settleA_def returnA_def throwA_def)

lemma bindA_return [simp]: "bindA (returnA x) f = f x" "bindA (throwA e) f = throwA e"
  by (simp_all add: bindA_def)

lemma bindA_assoc: "bindA (bindA m f) g = bindA m (\<lambda>x. bindA (f x) g)"
  unfolding bindA_def settleA_assoc by (intro arg_cong2 [where f = settleA] refl ext) (simp split: sum.splits)

section \<open>Rules\<close>

text \<open>
  \<open>I A s\<close> is the invariant when the names in \<open>A\<close> are owned by someone, \<open>G\<close> relates the states before and after a segment and \<open>ok\<close> says which
  replies the host may give.  \<open>settles p Q T s\<close>: a computation suspended in \<open>s\<close> that owns \<open>T\<close> can be resumed in every state the others may
  leave, and each time it stops it has kept the invariant and the guarantee; when it ends, \<open>Q\<close> holds.
\<close>

primrec settles ::
    "('q, 'r, 's, 'a) async \<Rightarrow> (nat set \<Rightarrow> 's \<Rightarrow> bool) \<Rightarrow> ('s \<Rightarrow> 's \<Rightarrow> bool) \<Rightarrow> ('q \<Rightarrow> 'r \<Rightarrow> bool)
     \<Rightarrow> ('a result \<Rightarrow> nat set \<Rightarrow> 's \<Rightarrow> bool) \<Rightarrow> nat set \<Rightarrow> 's \<Rightarrow> bool" where
  "settles (Return x) = (\<lambda>I G ok Q T s. Q (Inr x) T s)"
| "settles (Throw e) = (\<lambda>I G ok Q T s. Q (Inl e) T s)"
| "settles Hang = (\<lambda>I G ok Q T s. True)"
| "settles (Await q k) = (\<lambda>I G ok Q T s. \<forall>U r s'. I (T \<union> U) s' \<and> G s s' \<and> ok q r \<longrightarrow>
     (\<exists>T'. I (T' \<union> U) (fst (k r s')) \<and> G s' (fst (k r s'))
        \<and> snd (map_prod id settles (k r s')) I G ok Q T' (fst (k r s'))))"

lemma settles_Await:
  "settles (Await q k) I G ok Q T s \<longleftrightarrow> (\<forall>U r s'. I (T \<union> U) s' \<and> G s s' \<and> ok q r \<longrightarrow>
     (\<exists>T'. I (T' \<union> U) (fst (k r s')) \<and> G s' (fst (k r s')) \<and> settles (snd (k r s')) I G ok Q T' (fst (k r s'))))"
  by simp

declare settles.simps(4) [simp del]

locale concurrent =
  fixes I :: "nat set \<Rightarrow> 's \<Rightarrow> bool" and G :: "'s \<Rightarrow> 's \<Rightarrow> bool" and ok :: "'q \<Rightarrow> 'r \<Rightarrow> bool"
  assumes G_refl: "G s s" and G_trans: "G s s' \<Longrightarrow> G s' s'' \<Longrightarrow> G s s''"
begin

definition triple :: "(nat set \<Rightarrow> 's \<Rightarrow> bool) \<Rightarrow> ('s \<Rightarrow> 's \<times> ('q, 'r, 's, 'a) async) \<Rightarrow> ('a result \<Rightarrow> nat set \<Rightarrow> 's \<Rightarrow> bool) \<Rightarrow> bool" where
  "triple P m Q \<longleftrightarrow> (\<forall>T U s. P T s \<and> I (T \<union> U) s \<longrightarrow>
     (\<exists>T'. I (T' \<union> U) (fst (m s)) \<and> G s (fst (m s)) \<and> settles (snd (m s)) I G ok Q T' (fst (m s))))"

lemma settles_settle:
  assumes "settles p I G ok R T s" "I (T \<union> U) s" "\<And>x. triple (R x) (f x) Q"
  shows "\<exists>T'. I (T' \<union> U) (fst (settle_async p f s)) \<and> G s (fst (settle_async p f s))
    \<and> settles (snd (settle_async p f s)) I G ok Q T' (fst (settle_async p f s))"
  using assms(1,2)
proof (induction p arbitrary: T U s)
  case (Return x)
  thus ?case using assms(3) [of "Inr x"] by (simp add: triple_def)
next
  case (Throw e)
  thus ?case using assms(3) [of "Inl e"] by (simp add: triple_def)
next
  case Hang
  thus ?case by (auto simp: G_refl)
next
  case (Await q k)
  have "settles (snd (settle_async (Await q k) f s)) I G ok Q T s"
    unfolding settle_async_Await snd_conv settles_Await
  proof (intro allI impI, elim conjE)
    fix V r s'
    assume env: "I (T \<union> V) s'" "G s s'" "ok q r"
    obtain s2 p2 where k: "k r s' = (s2, p2)" by fastforce
    from Await.prems(1) env k obtain T2 where T2: "I (T2 \<union> V) s2" "G s' s2" "settles p2 I G ok R T2 s2"
      unfolding settles_Await by fastforce
    from Await.IH [of "k r" "k r s'" p2, OF _ _ _ T2(3,1)] k T2(2)
    show "\<exists>T'. I (T' \<union> V) (fst (case k r s' of (s2, p) \<Rightarrow> settle_async p f s2)) \<and> G s' (fst (case k r s' of (s2, p) \<Rightarrow> settle_async p f s2))
      \<and> settles (snd (case k r s' of (s2, p) \<Rightarrow> settle_async p f s2)) I G ok Q T' (fst (case k r s' of (s2, p) \<Rightarrow> settle_async p f s2))"
      using G_trans by fastforce
  qed
  with Await.prems(2) show ?case by (auto simp: G_refl)
qed

lemma triple_settle:
  assumes "triple P m R" "\<And>x. triple (R x) (f x) Q"
  shows "triple P (settleA m f) Q"
  unfolding triple_def
proof (intro allI impI, elim conjE)
  fix T U s assume "P T s" "I (T \<union> U) s"
  then obtain T1 where 1: "I (T1 \<union> U) (fst (m s))" "G s (fst (m s))" "settles (snd (m s)) I G ok R T1 (fst (m s))"
    using assms(1) unfolding triple_def by blast
  obtain T2 where 2: "I (T2 \<union> U) (fst (settle_async (snd (m s)) f (fst (m s))))"
      "G (fst (m s)) (fst (settle_async (snd (m s)) f (fst (m s))))"
      "settles (snd (settle_async (snd (m s)) f (fst (m s)))) I G ok Q T2 (fst (settle_async (snd (m s)) f (fst (m s))))"
    using settles_settle [OF 1(3,1) assms(2)] by blast
  show "\<exists>T'. I (T' \<union> U) (fst (settleA m f s)) \<and> G s (fst (settleA m f s)) \<and> settles (snd (settleA m f s)) I G ok Q T' (fst (settleA m f s))"
    using 2 G_trans [OF 1(2) 2(2)] by (auto simp: settleA_def case_prod_unfold)
qed

text \<open>The rules of the single operations.  What is known before an await has to survive the guarantee.\<close>

lemma triple_weaken: "triple P m Q \<Longrightarrow> (\<And>T s. P' T s \<Longrightarrow> P T s) \<Longrightarrow> triple P' m Q"
  unfolding triple_def by blast

lemma settles_mono: "settles p I G ok Q T s \<Longrightarrow> (\<And>x T s. Q x T s \<Longrightarrow> Q' x T s) \<Longrightarrow> settles p I G ok Q' T s"
proof (induction p arbitrary: T s)
  case (Await q k)
  have mono: "settles (snd (k r s')) I G ok Q' T' (fst (k r s'))" if "settles (snd (k r s')) I G ok Q T' (fst (k r s'))" for r s' T'
  proof -
    obtain a b where k: "k r s' = (a, b)" by fastforce
    hence "(a, b) \<in> range (k r)" by (metis rangeI)
    from Await.IH [OF _ this, of b T' a] that k Await.prems(2) show ?thesis by simp
  qed
  show ?case
    unfolding settles_Await
  proof (intro allI impI)
    fix U r s' assume "I (T \<union> U) s' \<and> G s s' \<and> ok q r"
    with Await.prems(1) [unfolded settles_Await] mono
    show "\<exists>T'. I (T' \<union> U) (fst (k r s')) \<and> G s' (fst (k r s')) \<and> settles (snd (k r s')) I G ok Q' T' (fst (k r s'))"
      by blast
  qed
qed auto

lemma triple_post: "triple P m Q \<Longrightarrow> (\<And>x T s. Q x T s \<Longrightarrow> Q' x T s) \<Longrightarrow> triple P m Q'"
  unfolding triple_def by (blast intro: settles_mono)

lemma triple_return: "(\<And>T s. P T s \<Longrightarrow> Q (Inr x) T s) \<Longrightarrow> triple P (returnA x) Q"
  by (auto simp: triple_def returnA_def G_refl)

lemma triple_throw: "(\<And>T s. P T s \<Longrightarrow> Q (Inl e) T s) \<Longrightarrow> triple P (throwA e) Q"
  by (auto simp: triple_def throwA_def G_refl)

lemma triple_get: "(\<And>T U s. P T s \<Longrightarrow> I (T \<union> U) s \<Longrightarrow> Q (Inr (f s)) T s) \<Longrightarrow> triple P (getA f) Q"
  by (auto simp: triple_def getA_def G_refl)

lemma triple_update:
  assumes "\<And>T s. P T s \<Longrightarrow> \<exists>T'. (\<forall>U. I (T \<union> U) s \<longrightarrow> I (T' \<union> U) (f s) \<and> G s (f s)) \<and> Q (Inr ()) T' (f s)"
  shows "triple P (updateA f) Q"
  unfolding triple_def
proof (intro allI impI)
  fix T U s assume "P T s \<and> I (T \<union> U) s"
  with assms [of T s] show "\<exists>T'. I (T' \<union> U) (fst (updateA f s)) \<and> G s (fst (updateA f s))
    \<and> settles (snd (updateA f s)) I G ok Q T' (fst (updateA f s))"
    by (auto simp: updateA_def)
qed

lemma triple_step:
  assumes "\<And>T s. P T s \<Longrightarrow> \<exists>T'. (\<forall>U. I (T \<union> U) s \<longrightarrow> I (T' \<union> U) (fst (f s)) \<and> G s (fst (f s)) \<and> Q (Inr (snd (f s))) T' (fst (f s)))"
  shows "triple P (stepA f) Q"
  unfolding triple_def
proof (intro allI impI)
  fix T U s assume "P T s \<and> I (T \<union> U) s"
  with assms [of T s] show "\<exists>T'. I (T' \<union> U) (fst (stepA f s)) \<and> G s (fst (stepA f s))
    \<and> settles (snd (stepA f s)) I G ok Q T' (fst (stepA f s))"
    by (fastforce simp: stepA_def case_prod_unfold)
qed

lemma triple_lift: "(\<And>T s. P T s \<Longrightarrow> Q x T s) \<Longrightarrow> triple P (liftA x) Q"
  by (cases x) (auto simp: triple_def liftA_def G_refl)

lemma triple_liftR: "(\<And>T s y. P T s \<Longrightarrow> x = Some y \<Longrightarrow> Q y T s) \<Longrightarrow> triple P (liftR x) Q"
  by (auto simp: triple_def liftR_def G_refl split: option.splits sum.splits)

lemma triple_await:
  assumes "\<And>T s s' r. P T s \<Longrightarrow> G s s' \<Longrightarrow> ok q r \<Longrightarrow> Q (Inr r) T s'"
  shows "triple P (awaitA q) Q"
  unfolding triple_def awaitA_def fst_conv snd_conv settles_Await
  using assms G_refl by (intro allI impI exI conjI) auto

lemma triple_bind:
  assumes "triple P m (\<lambda>x T s. case x of Inl e \<Rightarrow> Q (Inl e) T s | Inr y \<Rightarrow> R y T s)" "\<And>y. triple (R y) (f y) Q"
  shows "triple P (bindA m f) Q"
  unfolding bindA_def
proof (rule triple_settle [OF assms(1)])
  fix x show "triple (\<lambda>T s. case x of Inl e \<Rightarrow> Q (Inl e) T s | Inr y \<Rightarrow> R y T s) (case x of Inl e \<Rightarrow> throwA e | Inr y \<Rightarrow> f y) Q"
    using assms(2) by (cases x) (auto intro: triple_throw)
qed

lemma triple_catch:
  assumes "triple P m (\<lambda>x T s. case x of Inl e \<Rightarrow> R e T s | Inr y \<Rightarrow> Q (Inr y) T s)" "\<And>e. triple (R e) (h e) Q"
  shows "triple P (catchA m h) Q"
  unfolding catchA_def
proof (rule triple_settle [OF assms(1)])
  fix x show "triple (\<lambda>T s. case x of Inl e \<Rightarrow> R e T s | Inr y \<Rightarrow> Q (Inr y) T s) (case x of Inl e \<Rightarrow> h e | Inr y \<Rightarrow> returnA y) Q"
    using assms(2) by (cases x) (auto intro: triple_return)
qed

lemma triple_finally:
  assumes "triple P m R"
    and "\<And>x T s. R x T s \<Longrightarrow> \<exists>T'. (\<forall>U. I (T \<union> U) s \<longrightarrow> I (T' \<union> U) (f s) \<and> G s (f s)) \<and> Q x T' (f s)"
  shows "triple P (finallyA m f) Q"
  unfolding finallyA_def
proof (rule triple_settle [OF assms(1)])
  fix x show "triple (R x) (\<lambda>s. (f s, case x of Inl e \<Rightarrow> Throw e | Inr y \<Rightarrow> Return y)) Q"
    unfolding triple_def
  proof (intro allI impI)
    fix T U s assume "R x T s \<and> I (T \<union> U) s"
    with assms(2) [of x T s] show "\<exists>T'. I (T' \<union> U) (fst (f s, case x of Inl e \<Rightarrow> Throw e | Inr y \<Rightarrow> Return y))
      \<and> G s (fst (f s, case x of Inl e \<Rightarrow> Throw e | Inr y \<Rightarrow> Return y))
      \<and> settles (snd (f s, case x of Inl e \<Rightarrow> Throw e | Inr y \<Rightarrow> Return y)) I G ok Q T' (fst (f s, case x of Inl e \<Rightarrow> Throw e | Inr y \<Rightarrow> Return y))"
      by (cases x) auto
  qed
qed

lemma triple_if: "(b \<Longrightarrow> triple P m Q) \<Longrightarrow> (\<not> b \<Longrightarrow> triple P m' Q) \<Longrightarrow> triple P (if b then m else m') Q"
  by simp

text \<open>What the guarantee preserves may be kept across any computation.\<close>

lemma settles_frame:
  assumes "\<And>s s'. F s \<Longrightarrow> G s s' \<Longrightarrow> F s'"
  shows "settles p I G ok Q T s \<Longrightarrow> F s \<Longrightarrow> settles p I G ok (\<lambda>x T s. Q x T s \<and> F s) T s"
proof (induction p arbitrary: T s)
  case (Await q k)
  have frame: "settles (snd (k r s')) I G ok (\<lambda>x T s. Q x T s \<and> F s) T' (fst (k r s'))"
    if "settles (snd (k r s')) I G ok Q T' (fst (k r s'))" "F (fst (k r s'))" for r s' T'
  proof -
    obtain a b where k: "k r s' = (a, b)" by fastforce
    hence "(a, b) \<in> range (k r)" by (metis rangeI)
    from Await.IH [OF _ this, of b T' a] that k show ?thesis by simp
  qed
  show ?case
    unfolding settles_Await
  proof (intro allI impI)
    fix U r s' assume "I (T \<union> U) s' \<and> G s s' \<and> ok q r"
    with Await.prems [unfolded settles_Await] frame assms
    show "\<exists>T'. I (T' \<union> U) (fst (k r s')) \<and> G s' (fst (k r s')) \<and> settles (snd (k r s')) I G ok (\<lambda>x T s. Q x T s \<and> F s) T' (fst (k r s'))"
      by meson
  qed
qed auto

lemma triple_frame:
  assumes "\<And>s s'. F s \<Longrightarrow> G s s' \<Longrightarrow> F s'" "triple P m Q"
  shows "triple (\<lambda>T s. P T s \<and> F s) m (\<lambda>x T s. Q x T s \<and> F s)"
  unfolding triple_def
proof (intro allI impI)
  fix T U s assume pre: "(P T s \<and> F s) \<and> I (T \<union> U) s"
  then obtain T' where T': "I (T' \<union> U) (fst (m s))" "G s (fst (m s))" "settles (snd (m s)) I G ok Q T' (fst (m s))"
    using assms(2) unfolding triple_def by blast
  have "F (fst (m s))" using assms(1) pre T'(2) by blast
  hence "settles (snd (m s)) I G ok (\<lambda>x T s. Q x T s \<and> F s) T' (fst (m s))"
    using assms(1) by (intro settles_frame [OF _ T'(3)]) auto
  with T' show "\<exists>T'. I (T' \<union> U) (fst (m s)) \<and> G s (fst (m s)) \<and> settles (snd (m s)) I G ok (\<lambda>x T s. Q x T s \<and> F s) T' (fst (m s))"
    by blast
qed

text \<open>What a suspended computation guarantees is not lost while others run.\<close>

lemma settles_later:
  assumes "settles (Await q k) I G ok Q T s" "G s s'"
  shows "settles (Await q k) I G ok Q T s'"
  using assms G_trans unfolding settles_Await by meson

end

end
