(* ===== verification/Filesystem.thy ===== *)
theory Filesystem
  imports Fs_Wire Async
begin

text \<open>
  The filesystem device of \<open>packages/kernel/src/virtio/fs.ts\<close>: the tables of nodes and open handles, every FUSE operation, the loop that
  answers a chain, and the release of everything on shutdown.

  The filesystem behind the device is supplied by the host.  It is the environment: an operation awaits a call and goes on with any reply of
  the call's type (a reply of another type, which the TypeScript types exclude, throws).  Which optional methods it has is \<open>fd_methods\<close>.
  Its nodes are objects, compared by identity, and its handles are opaque.

  A node record is a shared object that may be referred to after it has left the map, so the records live in a store under their id, which
  is never reused; \<open>fs_records\<close> are the ids the map has.
\<close>

unbundle bit_operations_syntax

section \<open>State\<close>

datatype fs_method =
    M_setattr | M_readlink | M_symlink | M_mkdir | M_unlink | M_rmdir | M_rename | M_open | M_create | M_read | M_write | M_flush | M_fsync
  | M_release | M_opendir | M_readdir | M_releasedir | M_access | M_statfs | M_destroy

record 'n fs_device =
  fd_root :: 'n
  fd_methods :: "fs_method set"
  fd_validity :: nat

record 'n node_record =
  nr_node :: 'n
  nr_parent :: nat
  nr_lookups :: nat
  nr_handles :: int
  nr_children :: int

record 'h handle_entry =
  he_node :: nat
  he_handle :: 'h
  he_directory :: bool

text \<open>\<open>finalize\<close> between its awaits: the handle being released or the backend being destroyed, with the first error so far.\<close>

datatype 'h finalizer =
    NotFinalized
  | Releasing nat "'h handle_entry" "js_error option"
  | Destroying "js_error option"
  | Finalized "js_error option"

record ('n, 'h) fs_state =
  fs_store :: "nat \<Rightarrow> 'n node_record option"
  fs_records :: "nat list"
  fs_by_node :: "'n \<Rightarrow> nat option"
  fs_next_nodeid :: nat
  fs_handles :: "(nat \<times> 'h handle_entry) list"
  fs_next_handle :: nat
  fs_final :: "'h finalizer"

definition ROOT_ID :: nat where "ROOT_ID = 1"

definition new_fs_state :: "'n \<Rightarrow> ('n, 'h) fs_state" where
  "new_fs_state root = \<lparr>fs_store = [ROOT_ID \<mapsto> \<lparr>nr_node = root, nr_parent = ROOT_ID, nr_lookups = 1, nr_handles = 0, nr_children = 0\<rparr>],
     fs_records = [ROOT_ID], fs_by_node = [root \<mapsto> ROOT_ID], fs_next_nodeid = 2, fs_handles = [], fs_next_handle = 1, fs_final = NotFinalized\<rparr>"

definition fileSystemDevice :: "'n \<Rightarrow> fs_method set \<Rightarrow> ustring \<Rightarrow> bool \<Rightarrow> ('n fs_device \<times> bytes \<times> ('n, 'h) fs_state) result" where
  "fileSystemDevice root methods tag cache =
     (if length tag = 0 \<or> length tag > 36 then Inl (RangeError ''virtio-fs tag must be between 1 and 36 UTF-8 bytes'')
      else if (M_write \<in> methods \<or> M_create \<in> methods) \<and> \<not> (M_flush \<in> methods \<and> M_fsync \<in> methods)
      then Inl (Error ''a writable filesystem must implement flush() and fsync()'')
      else Inr (\<lparr>fd_root = root, fd_methods = methods, fd_validity = (if cache then 1 else 0)\<rparr>,
        overwrite (overwrite (replicate 40 0) 0 tag) 36 (le_bytes 4 1), new_fs_state root))"

section \<open>Node and handle tables\<close>

definition alter_record :: "nat \<Rightarrow> ('n node_record \<Rightarrow> 'n node_record) \<Rightarrow> ('n, 'h) fs_state \<Rightarrow> ('n, 'h) fs_state" where
  "alter_record i f s = s\<lparr>fs_store := (fs_store s)(i := map_option f (fs_store s i))\<rparr>"

definition add_children :: "nat \<Rightarrow> int \<Rightarrow> ('n, 'h) fs_state \<Rightarrow> ('n, 'h) fs_state" where
  "add_children i n = alter_record i (\<lambda>r. r\<lparr>nr_children := nr_children r + n\<rparr>)"

definition add_handles :: "nat \<Rightarrow> int \<Rightarrow> ('n, 'h) fs_state \<Rightarrow> ('n, 'h) fs_state" where
  "add_handles i n = alter_record i (\<lambda>r. r\<lparr>nr_handles := nr_handles r + n\<rparr>)"

definition record_for_node :: "'n \<Rightarrow> nat \<Rightarrow> ('n, 'h) fs_state \<Rightarrow> ('n, 'h) fs_state \<times> nat" where
  "record_for_node node parent s = (case fs_by_node s node of
       Some i \<Rightarrow> (s, i)
     | None \<Rightarrow>
         let i = fs_next_nodeid s
         in (add_children parent 1 (s\<lparr>fs_next_nodeid := i + 1,
               fs_store := (fs_store s)(i \<mapsto> \<lparr>nr_node = node, nr_parent = parent, nr_lookups = 0, nr_handles = 0, nr_children = 0\<rparr>),
               fs_records := fs_records s @ [i], fs_by_node := (fs_by_node s)(node \<mapsto> i)\<rparr>), i))"

definition record_unused :: "nat \<Rightarrow> 'n node_record \<Rightarrow> bool" where
  "record_unused i r \<longleftrightarrow> i \<noteq> ROOT_ID \<and> nr_lookups r = 0 \<and> nr_handles r = 0 \<and> nr_children r = 0"

definition drop_record :: "nat \<Rightarrow> 'n node_record \<Rightarrow> ('n, 'h) fs_state \<Rightarrow> ('n, 'h) fs_state" where
  "drop_record i r s = add_children (nr_parent r) (- 1)
     (s\<lparr>fs_records := removeAll i (fs_records s), fs_by_node := (fs_by_node s)(nr_node r := None)\<rparr>)"

lemma drop_record_records [simp]: "fs_records (drop_record i r s) = removeAll i (fs_records s)"
  by (simp add: drop_record_def add_children_def alter_record_def)

function collect_record :: "nat \<Rightarrow> ('n, 'h) fs_state \<Rightarrow> ('n, 'h) fs_state" where
  "collect_record i s =
     (if i \<notin> set (fs_records s) then s
      else case fs_store s i of
        None \<Rightarrow> s
      | Some r \<Rightarrow> if record_unused i r then collect_record (nr_parent r) (drop_record i r s) else s)"
  by auto
termination
  by (relation "measure (\<lambda>(i, s). length (fs_records s))") (auto intro: length_removeAll_less)

declare collect_record.simps [simp del]

definition forget :: "nat \<Rightarrow> nat \<Rightarrow> ('n, 'h) fs_state \<Rightarrow> ('n, 'h) fs_state" where
  "forget i count s = collect_record i (alter_record i (\<lambda>r. r\<lparr>nr_lookups := (if count \<ge> nr_lookups r then 0 else nr_lookups r - count)\<rparr>) s)"

definition find_record :: "nat \<Rightarrow> ('n, 'h) fs_state \<Rightarrow> nat result" where
  "find_record i s = (if i \<in> set (fs_records s) then Inr i else Inl (fs_fail ENOENT))"

definition handle_record :: "nat \<Rightarrow> bool option \<Rightarrow> nat option \<Rightarrow> ('n, 'h) fs_state \<Rightarrow> 'h handle_entry result" where
  "handle_record fh directory node s = (case map_of (fs_handles s) fh of
       None \<Rightarrow> Inl (fs_fail EBADF)
     | Some h \<Rightarrow>
         if (directory \<noteq> None \<and> directory \<noteq> Some (he_directory h)) \<or> (node \<noteq> None \<and> node \<noteq> Some (he_node h)) then Inl (fs_fail EBADF)
         else Inr h)"

definition add_handle :: "nat \<Rightarrow> 'h \<Rightarrow> bool \<Rightarrow> ('n, 'h) fs_state \<Rightarrow> ('n, 'h) fs_state \<times> nat" where
  "add_handle i h directory s =
     (let fh = fs_next_handle s
      in (add_handles i 1 (s\<lparr>fs_next_handle := fh + 1, fs_handles := fs_handles s @ [(fh, \<lparr>he_node = i, he_handle = h, he_directory = directory\<rparr>)]\<rparr>), fh))"

definition remove_handle :: "nat \<Rightarrow> 'h handle_entry \<Rightarrow> ('n, 'h) fs_state \<Rightarrow> ('n, 'h) fs_state" where
  "remove_handle fh h s = collect_record (he_node h)
     (add_handles (he_node h) (- 1) (s\<lparr>fs_handles := filter (\<lambda>x. fst x \<noteq> fh) (fs_handles s)\<rparr>))"

text \<open>\<open>record.node\<close>, and \<open>node!.node\<close> of a request that may name no node.\<close>

definition node_value :: "nat \<Rightarrow> ('n, 'h) fs_state \<Rightarrow> 'n result" where
  "node_value i s = (case fs_store s i of None \<Rightarrow> Inl (TypeError ''no such object'') | Some r \<Rightarrow> Inr (nr_node r))"

section \<open>The backend\<close>

datatype time_change = Now | At fs_timestamp

record fs_changes =
  ch_mode :: "nat option"
  ch_size :: "nat option"
  ch_uid :: "nat option"
  ch_gid :: "nat option"
  ch_atime :: "time_change option"
  ch_mtime :: "time_change option"
  ch_ctime :: "fs_timestamp option"

text \<open>\<open>C_value\<close> awaits a plain value (a method that is absent), \<open>C_finalized\<close> the promise of \<open>finalize\<close>.\<close>

datatype ('n, 'h) fs_call =
    C_lookup 'n ustring
  | C_getattr 'n "'h option"
  | C_setattr 'n fs_changes "'h option"
  | C_readlink 'n
  | C_symlink 'n ustring ustring fs_context
  | C_mkdir 'n ustring fs_context
  | C_unlink 'n ustring
  | C_rmdir 'n ustring
  | C_rename 'n ustring 'n ustring
  | C_open 'n nat
  | C_create 'n ustring nat fs_context
  | C_read 'n 'h nat nat
  | C_write 'n 'h nat bytes
  | C_flush 'n 'h
  | C_fsync 'n 'h bool
  | C_release 'n 'h
  | C_opendir 'n nat
  | C_readdir 'n 'h
  | C_releasedir 'n 'h
  | C_access 'n nat
  | C_statfs 'n
  | C_destroy
  | C_value
  | C_finalized

text \<open>A number a backend returns need not be an integer.\<close>

datatype ('n, 'h) fs_reply =
    R_error js_error
  | R_done
  | R_found "'n option"
  | R_node 'n
  | R_attributes fs_attributes
  | R_text ustring
  | R_handle 'h
  | R_created 'n 'h
  | R_bytes bytes
  | R_number "int option"
  | R_entries "(ustring \<times> 'n) list"
  | R_stat fs_stat

fun as_unit :: "('n, 'h) fs_reply \<Rightarrow> unit result" where
  "as_unit (R_error e) = Inl e"
| "as_unit r = Inr ()"

definition wrong_reply :: "('n, 'h) fs_reply \<Rightarrow> 'a result" where
  "wrong_reply r = (case r of R_error e \<Rightarrow> Inl e | _ \<Rightarrow> Inl (TypeError ''not a value of the reply type''))"

fun as_found :: "('n, 'h) fs_reply \<Rightarrow> 'n option result" where
  "as_found (R_found x) = Inr x"
| "as_found r = wrong_reply r"

fun as_node :: "('n, 'h) fs_reply \<Rightarrow> 'n result" where
  "as_node (R_node x) = Inr x"
| "as_node r = wrong_reply r"

fun as_attributes :: "('n, 'h) fs_reply \<Rightarrow> fs_attributes result" where
  "as_attributes (R_attributes x) = Inr x"
| "as_attributes r = wrong_reply r"

fun as_text :: "('n, 'h) fs_reply \<Rightarrow> ustring result" where
  "as_text (R_text x) = Inr x"
| "as_text r = wrong_reply r"

fun as_handle :: "('n, 'h) fs_reply \<Rightarrow> 'h result" where
  "as_handle (R_handle x) = Inr x"
| "as_handle r = wrong_reply r"

fun as_created :: "('n, 'h) fs_reply \<Rightarrow> ('n \<times> 'h) result" where
  "as_created (R_created n h) = Inr (n, h)"
| "as_created r = wrong_reply r"

fun as_bytes :: "('n, 'h) fs_reply \<Rightarrow> bytes result" where
  "as_bytes (R_bytes x) = Inr x"
| "as_bytes r = wrong_reply r"

fun as_number :: "('n, 'h) fs_reply \<Rightarrow> int option result" where
  "as_number (R_number x) = Inr x"
| "as_number r = wrong_reply r"

fun as_entries :: "('n, 'h) fs_reply \<Rightarrow> (ustring \<times> 'n) list result" where
  "as_entries (R_entries x) = Inr x"
| "as_entries r = wrong_reply r"

fun as_stat :: "('n, 'h) fs_reply \<Rightarrow> fs_stat result" where
  "as_stat (R_stat x) = Inr x"
| "as_stat r = wrong_reply r"

type_synonym ('n, 'h, 'a) fs_async = "(('n, 'h) fs_call, ('n, 'h) fs_reply, ('n, 'h) fs_state, 'a) async"
type_synonym ('n, 'h, 'a) fs_fun = "('n, 'h) fs_state \<Rightarrow> ('n, 'h) fs_state \<times> ('n, 'h, 'a) fs_async"

definition call_fs :: "('n, 'h) fs_call \<Rightarrow> (('n, 'h) fs_reply \<Rightarrow> 'a result) \<Rightarrow> ('n, 'h, 'a) fs_fun" where
  "call_fs c conv = bindA (awaitA c) (\<lambda>r. liftA (conv r))"

definition inspect :: "(('n, 'h) fs_state \<Rightarrow> 'a result) \<Rightarrow> ('n, 'h, 'a) fs_fun" where
  "inspect f = bindA (getA f) liftA"

definition need_method :: "'n fs_device \<Rightarrow> fs_method \<Rightarrow> ('n, 'h, unit) fs_fun" where
  "need_method dev m = (if m \<in> fd_methods dev then returnA () else throwA (fs_fail ENOSYS))"

definition need_node :: "nat option \<Rightarrow> ('n, 'h, nat \<times> 'n) fs_fun" where
  "need_node node = (case node of
       None \<Rightarrow> throwA (TypeError ''cannot read properties of undefined'')
     | Some i \<Rightarrow> bindA (inspect (node_value i)) (\<lambda>n. returnA (i, n)))"

text \<open>A record for the node, one more lookup of it for the guest, and its attributes in an entry.\<close>

definition grant_record :: "'n \<Rightarrow> nat \<Rightarrow> ('n, 'h) fs_state \<Rightarrow> ('n, 'h) fs_state \<times> nat" where
  "grant_record node parent s = (case record_for_node node parent s of
       (s', i) \<Rightarrow> (alter_record i (\<lambda>r. r\<lparr>nr_lookups := nr_lookups r + 1\<rparr>) s', i))"

section \<open>Operations\<close>

definition lookup_record :: "nat option \<Rightarrow> ustring \<Rightarrow> ('n, 'h, nat) fs_fun" where
  "lookup_record parent name =
     bindA (need_node parent) (\<lambda>(p, pn).
     bindA (liftA (validate_name name)) (\<lambda>nm.
     bindA (call_fs (C_lookup pn nm) as_found) (\<lambda>found.
     case found of
       None \<Rightarrow> throwA (fs_fail ENOENT)
     | Some n \<Rightarrow> stepA (grant_record n p))))"

definition attributes_of :: "nat \<Rightarrow> 'h option \<Rightarrow> ('n, 'h, fs_attributes) fs_fun" where
  "attributes_of i h = bindA (inspect (node_value i)) (\<lambda>n. call_fs (C_getattr n h) as_attributes)"

text \<open>\<open>write_entry(payload, record, await filesystem.getattr(...), validity)\<close>.\<close>

definition entry_reply :: "'n fs_device \<Rightarrow> bytebuf \<Rightarrow> nat \<Rightarrow> ('n, 'h, bytebuf) fs_fun" where
  "entry_reply dev payload i =
     bindA (attributes_of i None) (\<lambda>a. liftR (write_entry payload i a (fd_validity dev)))"

definition fuse_init :: "reader \<Rightarrow> bytebuf \<Rightarrow> ('n, 'h, bytebuf) fs_fun" where
  "fuse_init body payload =
     bindA (liftA (request_struct FuseInitIn body)) (\<lambda>(v, _).
     let major = request_field FuseInitIn v ''major''
     in if major < 7 then throwA (fs_fail EPROTO)
        else if major > 7 then
          liftR (bindR (bytes_put payload (Scalar U32LE) (Num 7)) (\<lambda>p. bytes_put p (Scalar U32LE) (Num 45)))
        else liftR (write_init_out payload (request_field FuseInitIn v ''minor'') (request_field FuseInitIn v ''max_readahead'')
          (request_field FuseInitIn v ''flags'')))"

definition fuse_lookup :: "'n fs_device \<Rightarrow> nat option \<Rightarrow> reader \<Rightarrow> bytebuf \<Rightarrow> ('n, 'h, bytebuf) fs_fun" where
  "fuse_lookup dev node body payload =
     bindA (liftA (reader_cstring body)) (\<lambda>(name, _).
     bindA (lookup_record node name) (\<lambda>i. entry_reply dev payload i))"

definition fuse_forget :: "nat option \<Rightarrow> reader \<Rightarrow> ('n, 'h, unit) fs_fun" where
  "fuse_forget node body =
     bindA (liftA (request_struct FuseForgetIn body)) (\<lambda>(v, _).
     case node of
       None \<Rightarrow> throwA (TypeError ''cannot read properties of undefined'')
     | Some i \<Rightarrow> updateA (forget i (request_field FuseForgetIn v ''nlookup'')))"

text \<open>The entries of a batch that name a known node; none is applied when the batch is cut short.\<close>

fun batch_entries :: "nat \<Rightarrow> reader \<Rightarrow> ('n, 'h) fs_state \<Rightarrow> (nat \<times> nat) list result" where
  "batch_entries 0 body s = Inr []"
| "batch_entries (Suc n) body s = bindE (request_struct FuseForgetOne body) (\<lambda>(v, rest).
     let i = request_field FuseForgetOne v ''nodeid''
     in bindE (batch_entries n rest s) (\<lambda>es.
          Inr (if i \<in> set (fs_records s) then (i, request_field FuseForgetOne v ''nlookup'') # es else es)))"

definition forget_all :: "(nat \<times> nat) list \<Rightarrow> ('n, 'h) fs_state \<Rightarrow> ('n, 'h) fs_state" where
  "forget_all es s = fold (\<lambda>(i, n). forget i n) es s"

definition fuse_batch_forget :: "reader \<Rightarrow> ('n, 'h, unit) fs_fun" where
  "fuse_batch_forget body =
     bindA (liftA (request_struct FuseBatchForgetIn body)) (\<lambda>(v, rest).
     bindA (inspect (batch_entries (request_field FuseBatchForgetIn v ''count'') rest)) (\<lambda>es.
     updateA (forget_all es)))"

text \<open>The open handle a request names when its flag is set.\<close>

definition optional_handle :: "bool \<Rightarrow> nat \<Rightarrow> nat option \<Rightarrow> ('n, 'h, 'h option) fs_fun" where
  "optional_handle given fh node =
     (if given then bindA (inspect (handle_record fh None node)) (\<lambda>h. returnA (Some (he_handle h))) else returnA None)"

definition fuse_getattr :: "'n fs_device \<Rightarrow> nat option \<Rightarrow> reader \<Rightarrow> bytebuf \<Rightarrow> ('n, 'h, bytebuf) fs_fun" where
  "fuse_getattr dev node body payload =
     bindA (liftA (request_struct FuseGetattrIn body)) (\<lambda>(v, _).
     bindA (optional_handle (request_field FuseGetattrIn v ''getattr_flags'' AND GETATTR_FH \<noteq> 0) (request_field FuseGetattrIn v ''fh'') node) (\<lambda>h.
     bindA (need_node node) (\<lambda>(i, n).
     bindA (call_fs (C_getattr n h) as_attributes) (\<lambda>a.
     liftR (write_attr_out payload (fd_validity dev) i a)))))"

definition when_set :: "nat \<Rightarrow> nat \<Rightarrow> 'a \<Rightarrow> 'a option" where
  "when_set valid flag x = (if valid AND flag \<noteq> 0 then Some x else None)"

definition setattr_changes :: "dataview \<Rightarrow> fs_changes" where
  "setattr_changes v =
     (let f = request_field FuseSetattrIn v; valid = f ''valid'';
          stamp = (\<lambda>sec nsec. \<lparr>ts_seconds = int (f sec), ts_nanoseconds = Some (int (f nsec))\<rparr>)
      in \<lparr>ch_mode = when_set valid SETATTR_MODE (f ''mode''), ch_size = when_set valid SETATTR_SIZE (f ''size''),
          ch_uid = when_set valid SETATTR_UID (f ''uid''), ch_gid = when_set valid SETATTR_GID (f ''gid''),
          ch_atime = when_set valid SETATTR_ATIME (if valid AND SETATTR_ATIME_NOW \<noteq> 0 then Now else At (stamp ''atime'' ''atimensec'')),
          ch_mtime = when_set valid SETATTR_MTIME (if valid AND SETATTR_MTIME_NOW \<noteq> 0 then Now else At (stamp ''mtime'' ''mtimensec'')),
          ch_ctime = when_set valid SETATTR_CTIME (stamp ''ctime'' ''ctimensec'')\<rparr>)"

definition fuse_setattr :: "'n fs_device \<Rightarrow> nat option \<Rightarrow> reader \<Rightarrow> bytebuf \<Rightarrow> ('n, 'h, bytebuf) fs_fun" where
  "fuse_setattr dev node body payload =
     bindA (need_method dev M_setattr) (\<lambda>_.
     bindA (liftA (request_struct FuseSetattrIn body)) (\<lambda>(v, _).
     bindA (optional_handle (request_field FuseSetattrIn v ''valid'' AND SETATTR_FH \<noteq> 0) (request_field FuseSetattrIn v ''fh'') node) (\<lambda>h.
     bindA (need_node node) (\<lambda>(i, n).
     bindA (call_fs (C_setattr n (setattr_changes v) h) as_attributes) (\<lambda>a.
     liftR (write_attr_out payload (fd_validity dev) i a))))))"

definition fuse_readlink :: "'n fs_device \<Rightarrow> nat option \<Rightarrow> bytebuf \<Rightarrow> ('n, 'h, bytebuf) fs_fun" where
  "fuse_readlink dev node payload =
     bindA (need_method dev M_readlink) (\<lambda>_.
     bindA (need_node node) (\<lambda>(i, n).
     bindA (call_fs (C_readlink n) as_text) (\<lambda>target. liftR (append_bytes payload target))))"

definition fuse_symlink :: "'n fs_device \<Rightarrow> dataview \<Rightarrow> nat option \<Rightarrow> reader \<Rightarrow> bytebuf \<Rightarrow> ('n, 'h, bytebuf) fs_fun" where
  "fuse_symlink dev header node body payload =
     bindA (need_method dev M_symlink) (\<lambda>_.
     bindA (liftA (reader_cstring body)) (\<lambda>(raw, r1).
     bindA (liftA (validate_name raw)) (\<lambda>name.
     bindA (liftA (reader_cstring r1)) (\<lambda>(target, _).
     bindA (need_node node) (\<lambda>(i, n).
     bindA (call_fs (C_symlink n name target (create_context header (40960 OR 511) 0)) as_node) (\<lambda>linked.
     bindA (stepA (grant_record linked i)) (\<lambda>j. entry_reply dev payload j)))))))"

definition fuse_mkdir :: "'n fs_device \<Rightarrow> dataview \<Rightarrow> nat option \<Rightarrow> reader \<Rightarrow> bytebuf \<Rightarrow> ('n, 'h, bytebuf) fs_fun" where
  "fuse_mkdir dev header node body payload =
     bindA (need_method dev M_mkdir) (\<lambda>_.
     bindA (liftA (request_struct FuseMkdirIn body)) (\<lambda>(v, r1).
     bindA (need_node node) (\<lambda>(i, n).
     bindA (liftA (bindE (reader_cstring r1) (\<lambda>(raw, _). validate_name raw))) (\<lambda>name.
     bindA (call_fs (C_mkdir n name (create_context header (16384 OR int (request_field FuseMkdirIn v ''mode''))
       (int (request_field FuseMkdirIn v ''umask'')))) as_node) (\<lambda>made.
     bindA (stepA (grant_record made i)) (\<lambda>j. entry_reply dev payload j))))))"

definition fuse_remove :: "'n fs_device \<Rightarrow> bool \<Rightarrow> nat option \<Rightarrow> reader \<Rightarrow> bytebuf \<Rightarrow> ('n, 'h, bytebuf) fs_fun" where
  "fuse_remove dev directory node body payload =
     bindA (need_method dev (if directory then M_rmdir else M_unlink)) (\<lambda>_.
     bindA (need_node node) (\<lambda>(i, n).
     bindA (liftA (bindE (reader_cstring body) (\<lambda>(raw, _). validate_name raw))) (\<lambda>name.
     bindA (call_fs (if directory then C_rmdir n name else C_unlink n name) as_unit) (\<lambda>_. returnA payload))))"

text \<open>A rename between directories moves the record of the node, unless it has been collected meanwhile.\<close>

definition move_record :: "nat option \<Rightarrow> nat \<Rightarrow> ('n, 'h) fs_state \<Rightarrow> ('n, 'h) fs_state" where
  "move_record moved new_parent s = (case moved of
       None \<Rightarrow> s
     | Some m \<Rightarrow> (case fs_store s m of
         None \<Rightarrow> s
       | Some r \<Rightarrow>
           if m \<in> set (fs_records s) \<and> nr_parent r \<noteq> new_parent
           then collect_record (nr_parent r) (add_children new_parent 1
             (alter_record m (\<lambda>r. r\<lparr>nr_parent := new_parent\<rparr>) (add_children (nr_parent r) (- 1) s)))
           else s))"

definition fuse_rename :: "'n fs_device \<Rightarrow> nat option \<Rightarrow> reader \<Rightarrow> bytebuf \<Rightarrow> ('n, 'h, bytebuf) fs_fun" where
  "fuse_rename dev node body payload =
     bindA (need_method dev M_rename) (\<lambda>_.
     bindA (liftA (request_struct FuseRenameIn body)) (\<lambda>(v, r1).
     bindA (inspect (find_record (request_field FuseRenameIn v ''newdir''))) (\<lambda>new_parent.
     bindA (liftA (bindE (reader_cstring r1) (\<lambda>(raw, r2). bindE (validate_name raw) (\<lambda>old.
       bindE (reader_cstring r2) (\<lambda>(raw', _). bindE (validate_name raw') (\<lambda>new. Inr (old, new))))))) (\<lambda>(old_name, new_name).
     bindA (if node = Some new_parent then returnA None
            else bindA (need_node node) (\<lambda>(i, n). call_fs (C_lookup n old_name) as_found)) (\<lambda>moved.
     bindA (getA (\<lambda>s. case moved of None \<Rightarrow> None | Some m \<Rightarrow> fs_by_node s m)) (\<lambda>moved_record.
     bindA (need_node node) (\<lambda>(i, n).
     bindA (inspect (node_value new_parent)) (\<lambda>np.
     bindA (call_fs (C_rename n old_name np new_name) as_unit) (\<lambda>_.
     bindA (updateA (move_record moved_record new_parent)) (\<lambda>_. returnA payload))))))))))"

definition fuse_open :: "'n fs_device \<Rightarrow> bool \<Rightarrow> nat option \<Rightarrow> reader \<Rightarrow> bytebuf \<Rightarrow> ('n, 'h, bytebuf) fs_fun" where
  "fuse_open dev directory node body payload =
     bindA (need_method dev (if directory then M_opendir else M_open)) (\<lambda>_.
     bindA (liftA (request_struct FuseOpenIn body)) (\<lambda>(v, _).
     bindA (need_node node) (\<lambda>(i, n).
     bindA (call_fs ((if directory then C_opendir else C_open) n (request_field FuseOpenIn v ''flags'')) as_handle) (\<lambda>h.
     bindA (stepA (add_handle i h directory)) (\<lambda>fh. liftR (write_open_out payload fh))))))"

definition fuse_create :: "'n fs_device \<Rightarrow> dataview \<Rightarrow> nat option \<Rightarrow> reader \<Rightarrow> bytebuf \<Rightarrow> ('n, 'h, bytebuf) fs_fun" where
  "fuse_create dev header node body payload =
     bindA (need_method dev M_create) (\<lambda>_.
     bindA (liftA (request_struct FuseCreateIn body)) (\<lambda>(v, r1).
     bindA (need_node node) (\<lambda>(i, n).
     bindA (liftA (bindE (reader_cstring r1) (\<lambda>(raw, _). validate_name raw))) (\<lambda>name.
     bindA (call_fs (C_create n name (request_field FuseCreateIn v ''flags'') (create_context header
       (32768 OR int (request_field FuseCreateIn v ''mode'')) (int (request_field FuseCreateIn v ''umask'')))) as_created) (\<lambda>(created, h).
     bindA (stepA (grant_record created i)) (\<lambda>j.
     bindA (entry_reply dev payload j) (\<lambda>p.
     bindA (stepA (add_handle j h False)) (\<lambda>fh. liftR (write_open_out p fh)))))))))"

definition fuse_read :: "'n fs_device \<Rightarrow> nat option \<Rightarrow> reader \<Rightarrow> nat \<Rightarrow> bytebuf \<Rightarrow> ('n, 'h, bytebuf) fs_fun" where
  "fuse_read dev node body room payload =
     bindA (need_method dev M_read) (\<lambda>_.
     bindA (liftA (request_struct FuseReadIn body)) (\<lambda>(v, _).
     let n = request_field FuseReadIn v ''size''
     in bindA (inspect (handle_record (request_field FuseReadIn v ''fh'') (Some False) node)) (\<lambda>h.
        bindA (inspect (node_value (he_node h))) (\<lambda>hn.
        bindA (call_fs (C_read hn (he_handle h) (request_field FuseReadIn v ''offset'') (min n room)) as_bytes) (\<lambda>data.
        if length data > n \<or> length data > room then throwA (fs_fail EIO) else liftR (append_bytes payload data))))))"

definition fuse_write :: "'n fs_device \<Rightarrow> nat option \<Rightarrow> reader \<Rightarrow> bytebuf \<Rightarrow> ('n, 'h, bytebuf) fs_fun" where
  "fuse_write dev node body payload =
     bindA (need_method dev M_write) (\<lambda>_.
     bindA (liftA (request_struct FuseWriteIn body)) (\<lambda>(v, r1).
     let n = request_field FuseWriteIn v ''size''
     in bindA (liftA (reader_bytes r1 (int n))) (\<lambda>(data, _).
        bindA (inspect (handle_record (request_field FuseWriteIn v ''fh'') (Some False) node)) (\<lambda>h.
        bindA (inspect (node_value (he_node h))) (\<lambda>hn.
        bindA (call_fs (C_write hn (he_handle h) (request_field FuseWriteIn v ''offset'') data) as_number) (\<lambda>written.
        case written of
          None \<Rightarrow> throwA (fs_fail EIO)
        | Some w \<Rightarrow>
            if w < 0 \<or> w > int n then throwA (fs_fail EIO)
            else liftR (put_value payload FuseWriteOut (Inr [(''size'', Num w), (''padding'', Num 0)]))))))))"

definition fuse_flush :: "'n fs_device \<Rightarrow> nat option \<Rightarrow> reader \<Rightarrow> bytebuf \<Rightarrow> ('n, 'h, bytebuf) fs_fun" where
  "fuse_flush dev node body payload =
     bindA (liftA (request_struct FuseFlushIn body)) (\<lambda>(v, _).
     bindA (inspect (handle_record (request_field FuseFlushIn v ''fh'') (Some False) node)) (\<lambda>h.
     bindA (inspect (node_value (he_node h))) (\<lambda>hn.
     if M_flush \<in> fd_methods dev then bindA (call_fs (C_flush hn (he_handle h)) as_unit) (\<lambda>_. returnA payload) else returnA payload)))"

definition fuse_fsync :: "'n fs_device \<Rightarrow> bool \<Rightarrow> nat option \<Rightarrow> reader \<Rightarrow> bytebuf \<Rightarrow> ('n, 'h, bytebuf) fs_fun" where
  "fuse_fsync dev directory node body payload =
     bindA (liftA (request_struct FuseFsyncIn body)) (\<lambda>(v, _).
     bindA (inspect (handle_record (request_field FuseFsyncIn v ''fh'') (Some directory) node)) (\<lambda>h.
     bindA (inspect (node_value (he_node h))) (\<lambda>hn.
     if M_fsync \<in> fd_methods dev
     then bindA (call_fs (C_fsync hn (he_handle h) (request_field FuseFsyncIn v ''fsync_flags'' AND 1 \<noteq> 0)) as_unit) (\<lambda>_. returnA payload)
     else returnA payload)))"

text \<open>The call that releases a handle; an absent method is awaited all the same.\<close>

definition release_call :: "'n fs_device \<Rightarrow> 'n \<Rightarrow> 'h handle_entry \<Rightarrow> ('n, 'h) fs_call" where
  "release_call dev n h =
     (if he_directory h then if M_releasedir \<in> fd_methods dev then C_releasedir n (he_handle h) else C_value
      else if M_release \<in> fd_methods dev then C_release n (he_handle h) else C_value)"

definition fuse_release :: "'n fs_device \<Rightarrow> bool \<Rightarrow> nat option \<Rightarrow> reader \<Rightarrow> bytebuf \<Rightarrow> ('n, 'h, bytebuf) fs_fun" where
  "fuse_release dev directory node body payload =
     bindA (liftA (request_struct FuseReleaseIn body)) (\<lambda>(v, _).
     let fh = request_field FuseReleaseIn v ''fh''
     in bindA (inspect (handle_record fh (Some directory) node)) (\<lambda>h.
        bindA (inspect (node_value (he_node h))) (\<lambda>hn.
        bindA (call_fs (release_call dev hn h) as_unit) (\<lambda>_.
        bindA (updateA (remove_handle fh h)) (\<lambda>_. returnA payload)))))"

text \<open>
  READDIR: a record for every entry the backend lists, in order, until a name is refused; then the entries from the offset on that fit.
\<close>

fun readdir_records :: "nat \<Rightarrow> (ustring \<times> 'n) list \<Rightarrow> ('n, 'h) fs_state \<Rightarrow> ('n, 'h) fs_state \<times> nat list \<times> (ustring \<times> nat) list result" where
  "readdir_records parent [] s = (s, [], Inr [])"
| "readdir_records parent ((raw, n) # es) s = (case record_for_node n parent s of
       (s1, i) \<Rightarrow> (case validate_name raw of
           Inl e \<Rightarrow> (s1, [i], Inl e)
         | Inr name \<Rightarrow> (case readdir_records parent es s1 of
             (s2, is, rs) \<Rightarrow> (s2, i # is, bindE rs (\<lambda>xs. Inr ((name, i) # xs))))))"

fun readdir_fill :: "nat \<Rightarrow> nat \<Rightarrow> (ustring \<times> nat) list \<Rightarrow> bytebuf \<Rightarrow> ('n, 'h, bytebuf) fs_fun" where
  "readdir_fill limit index [] payload = returnA payload"
| "readdir_fill limit index ((name, i) # es) payload =
     (if bb_length payload + dirent_record_length name > limit then returnA payload
      else bindA (attributes_of i None) (\<lambda>a.
           bindA (liftR (write_dirent payload i (index + 1) name (fa_mode a))) (\<lambda>p. readdir_fill limit (index + 1) es p)))"

definition collect_all :: "nat list \<Rightarrow> ('n, 'h) fs_state \<Rightarrow> ('n, 'h) fs_state" where
  "collect_all is s = fold collect_record is s"

definition record_parent :: "nat \<Rightarrow> ('n, 'h) fs_state \<Rightarrow> nat result" where
  "record_parent i s = (case fs_store s i of None \<Rightarrow> Inl (TypeError ''no such object'') | Some r \<Rightarrow> Inr (nr_parent r))"

definition fuse_readdir :: "'n fs_device \<Rightarrow> nat option \<Rightarrow> reader \<Rightarrow> nat \<Rightarrow> bytebuf \<Rightarrow> ('n, 'h, bytebuf) fs_fun" where
  "fuse_readdir dev node body room payload =
     bindA (need_method dev M_readdir) (\<lambda>_.
     bindA (liftA (request_struct FuseReadIn body)) (\<lambda>(v, _).
     bindA (liftA (checked_number (request_field FuseReadIn v ''offset''))) (\<lambda>offset.
     bindA (inspect (handle_record (request_field FuseReadIn v ''fh'') (Some True) node)) (\<lambda>h.
     bindA (inspect (record_parent (he_node h))) (\<lambda>parent.
     bindA (inspect (node_value (he_node h))) (\<lambda>hn.
     bindA (call_fs (C_readdir hn (he_handle h)) as_entries) (\<lambda>listed.
     bindA (stepA (readdir_records (he_node h) listed)) (\<lambda>(transient, names).
     finallyA
       (bindA (liftA names) (\<lambda>xs.
        readdir_fill (min (request_field FuseReadIn v ''size'') room) offset
          (drop offset ([(ascii ''.'', he_node h), (ascii ''..'', parent)] @ xs)) payload))
       (collect_all transient)))))))))"

definition fuse_statfs :: "'n fs_device \<Rightarrow> nat option \<Rightarrow> bytebuf \<Rightarrow> ('n, 'h, bytebuf) fs_fun" where
  "fuse_statfs dev node payload =
     (if M_statfs \<in> fd_methods dev
      then bindA (need_node node) (\<lambda>(i, n). bindA (call_fs (C_statfs n) as_stat) (\<lambda>st. liftR (write_statfs_out payload st)))
      else bindA (call_fs C_value as_unit) (\<lambda>_. liftR (write_statfs_out payload no_stat)))"

definition fuse_access :: "'n fs_device \<Rightarrow> nat option \<Rightarrow> reader \<Rightarrow> bytebuf \<Rightarrow> ('n, 'h, bytebuf) fs_fun" where
  "fuse_access dev node body payload =
     bindA (liftA (request_struct FuseAccessIn body)) (\<lambda>(v, _).
     if M_access \<in> fd_methods dev
     then bindA (need_node node) (\<lambda>(i, n). bindA (call_fs (C_access n (request_field FuseAccessIn v ''mask'')) as_unit) (\<lambda>_. returnA payload))
     else returnA payload)"

section \<open>Shutdown\<close>

text \<open>
  \<open>finalize\<close> iterates over the live map of handles: after a handle it goes on with the first one behind it, which may have been added since.
\<close>

definition finalize_next :: "nat \<Rightarrow> js_error option \<Rightarrow> ('n, 'h) fs_state \<Rightarrow> ('n, 'h) fs_state" where
  "finalize_next after err s = s\<lparr>fs_final := (case find (\<lambda>x. fst x > after) (fs_handles s) of
       None \<Rightarrow> Destroying err
     | Some (fh, h) \<Rightarrow> Releasing fh h err)\<rparr>"

definition start_finalize :: "('n, 'h) fs_state \<Rightarrow> ('n, 'h) fs_state" where
  "start_finalize s = (if fs_final s = NotFinalized then finalize_next 0 None s else s)"

definition first_error :: "js_error option \<Rightarrow> ('n, 'h) fs_reply \<Rightarrow> js_error option" where
  "first_error err r = (case err of Some e \<Rightarrow> Some e | None \<Rightarrow> (case r of R_error e \<Rightarrow> Some e | _ \<Rightarrow> None))"

definition finalize_call :: "'n fs_device \<Rightarrow> ('n, 'h) fs_state \<Rightarrow> ('n, 'h) fs_call option" where
  "finalize_call dev s = (case fs_final s of
       Releasing fh h err \<Rightarrow> (case node_value (he_node h) s of Inl e \<Rightarrow> None | Inr n \<Rightarrow> Some (release_call dev n h))
     | Destroying err \<Rightarrow> Some (if M_destroy \<in> fd_methods dev then C_destroy else C_value)
     | _ \<Rightarrow> None)"

definition finalize_reply :: "('n, 'h) fs_reply \<Rightarrow> ('n, 'h) fs_state \<Rightarrow> ('n, 'h) fs_state" where
  "finalize_reply r s = (case fs_final s of
       Releasing fh h err \<Rightarrow> finalize_next fh (first_error err r) (remove_handle fh h s)
     | Destroying err \<Rightarrow> s\<lparr>fs_final := Finalized (first_error err r)\<rparr>
     | _ \<Rightarrow> s)"

definition fuse_destroy :: "bytebuf \<Rightarrow> ('n, 'h, bytebuf) fs_fun" where
  "fuse_destroy payload = bindA (updateA start_finalize) (\<lambda>_. bindA (call_fs C_finalized as_unit) (\<lambda>_. returnA payload))"

section \<open>Requests and responses\<close>

text \<open>The \<open>switch\<close> over the opcode; \<open>None\<close> is a request without a response.\<close>

definition dispatch :: "'n fs_device \<Rightarrow> dataview \<Rightarrow> nat option \<Rightarrow> reader \<Rightarrow> nat \<Rightarrow> bytebuf \<Rightarrow> ('n, 'h, bytebuf option) fs_fun" where
  "dispatch dev header node body room payload =
     (let opcode = request_field FuseInHeader header ''opcode'';
          answer = (\<lambda>m. bindA m (\<lambda>p. returnA (Some p)));
          silent = (\<lambda>m. bindA m (\<lambda>_. returnA None))
      in if opcode = FUSE_INIT then answer (fuse_init body payload)
         else if opcode = FUSE_LOOKUP then answer (fuse_lookup dev node body payload)
         else if opcode = FUSE_FORGET then silent (fuse_forget node body)
         else if opcode = FUSE_BATCH_FORGET then silent (fuse_batch_forget body)
         else if opcode = FUSE_GETATTR then answer (fuse_getattr dev node body payload)
         else if opcode = FUSE_SETATTR then answer (fuse_setattr dev node body payload)
         else if opcode = FUSE_READLINK then answer (fuse_readlink dev node payload)
         else if opcode = FUSE_SYMLINK then answer (fuse_symlink dev header node body payload)
         else if opcode = FUSE_MKDIR then answer (fuse_mkdir dev header node body payload)
         else if opcode = FUSE_UNLINK then answer (fuse_remove dev False node body payload)
         else if opcode = FUSE_RMDIR then answer (fuse_remove dev True node body payload)
         else if opcode = FUSE_RENAME then answer (fuse_rename dev node body payload)
         else if opcode = FUSE_OPEN then answer (fuse_open dev False node body payload)
         else if opcode = FUSE_OPENDIR then answer (fuse_open dev True node body payload)
         else if opcode = FUSE_CREATE then answer (fuse_create dev header node body payload)
         else if opcode = FUSE_READ then answer (fuse_read dev node body room payload)
         else if opcode = FUSE_WRITE then answer (fuse_write dev node body payload)
         else if opcode = FUSE_FLUSH then answer (fuse_flush dev node body payload)
         else if opcode = FUSE_FSYNC then answer (fuse_fsync dev False node body payload)
         else if opcode = FUSE_FSYNCDIR then answer (fuse_fsync dev True node body payload)
         else if opcode = FUSE_RELEASE then answer (fuse_release dev False node body payload)
         else if opcode = FUSE_RELEASEDIR then answer (fuse_release dev True node body payload)
         else if opcode = FUSE_READDIR then answer (fuse_readdir dev node body room payload)
         else if opcode = FUSE_STATFS then answer (fuse_statfs dev node payload)
         else if opcode = FUSE_ACCESS then answer (fuse_access dev node body payload)
         else if opcode = FUSE_INTERRUPT then returnA None
         else if opcode = FUSE_DESTROY then answer (fuse_destroy payload)
         else throwA (fs_fail ENOSYS))"

text \<open>\<open>process\<close>; \<open>room\<close> is what the response buffers hold behind the header.\<close>

definition process_request :: "'n fs_device \<Rightarrow> dataview \<Rightarrow> reader \<Rightarrow> nat \<Rightarrow> ('n, 'h, bytebuf option) fs_fun" where
  "process_request dev header body capacity =
     (let nodeid = request_field FuseInHeader header ''nodeid''; room = capacity - layout_size FuseOutHeader
      in bindA (if nodeid = 0 then returnA None else bindA (inspect (find_record nodeid)) (\<lambda>i. returnA (Some i))) (\<lambda>node.
         bindA (dispatch dev header node body room (new_bytes room)) (\<lambda>res.
         case res of
           None \<Rightarrow> returnA None
         | Some p \<Rightarrow> if int (bb_length p) > int capacity - int (layout_size FuseOutHeader) then throwA (fs_fail EIO) else returnA (Some p))))"

text \<open>The checks of \<open>notify\<close> before the request is processed.\<close>

fun readable_first :: "bool \<Rightarrow> vq_buffer list \<Rightarrow> bool" where
  "readable_first seen [] = True"
| "readable_first seen (b # bs) = (\<not> (\<not> vb_writable b \<and> seen) \<and> readable_first (seen \<or> vb_writable b) bs)"

definition read_request_header :: "vq_buffer list \<Rightarrow> (dataview \<times> reader) result" where
  "read_request_header bufs =
     (if \<not> readable_first False bufs then Inl (fs_fail EINVAL)
      else request_struct FuseInHeader (new_reader (concatenate bufs False)))"

definition checked_request :: "vq_buffer list \<Rightarrow> (dataview \<times> reader) result" where
  "checked_request bufs =
     bindE (read_request_header bufs) (\<lambda>(header, body).
     let len = request_field FuseInHeader header ''len''
     in if len \<noteq> length (concatenate bufs False) \<or> len < layout_size FuseInHeader then Inl (fs_fail EINVAL)
        else if response_capacity bufs < minimum_response_capacity (request_field FuseInHeader header ''opcode'') then Inl (fs_fail EINVAL)
        else Inr (header, body))"

definition request_unique :: "vq_buffer list \<Rightarrow> nat" where
  "request_unique bufs = (case read_request_header bufs of Inl e \<Rightarrow> 0 | Inr (header, _) \<Rightarrow> request_field FuseInHeader header ''unique'')"

definition error_number :: "js_error \<Rightarrow> nat" where
  "error_number e = (case e of FSError n _ \<Rightarrow> n | RangeError _ \<Rightarrow> fs_errno EINVAL | _ \<Rightarrow> fs_errno EIO)"

text \<open>The bytes of a response with its header.\<close>

definition build_response :: "nat \<Rightarrow> int \<Rightarrow> bytes \<Rightarrow> bytes result option" where
  "build_response unique error payload =
     (let len = layout_size FuseOutHeader + length payload
      in bindR (put_value (new_bytes len) FuseOutHeader (Inr (response_header len error unique))) (\<lambda>b.
         bindR (append_bytes b payload) (\<lambda>b'. Some (Inr (bytes_array b')))))"

text \<open>The \<open>catch\<close> clause; an exception in it ends the whole loop.\<close>

definition answer_error :: "vq_buffer list \<Rightarrow> nat \<Rightarrow> js_error \<Rightarrow> ('n, 'h, vq_buffer list \<times> nat) fs_fun" where
  "answer_error bufs unique e =
     (if response_capacity bufs < layout_size FuseOutHeader then returnA (bufs, 0)
      else bindA (liftR (bindR (put_value (new_bytes (layout_size FuseOutHeader)) FuseOutHeader
               (Inr (response_header (layout_size FuseOutHeader) (- int (error_number e)) unique))) (\<lambda>b. Some (Inr (bytes_array b))))) (\<lambda>resp.
           case scatter_response bufs resp of
             (bufs', Inl e') \<Rightarrow> throwA e'
           | (bufs', Inr _) \<Rightarrow> returnA (bufs', layout_size FuseOutHeader)))"

text \<open>One turn of the loop of \<open>notify\<close>: the buffers as they are when the chain is released, and the length it is released with.\<close>

definition serve :: "'n fs_device \<Rightarrow> vq_buffer list \<Rightarrow> ('n, 'h, vq_buffer list \<times> nat) fs_fun" where
  "serve dev bufs =
     settleA (bindA (liftA (checked_request bufs)) (\<lambda>(header, body).
              bindA (process_request dev header body (response_capacity bufs)) (\<lambda>res.
              case res of
                None \<Rightarrow> returnA None
              | Some p \<Rightarrow> bindA (liftR (build_response (request_unique bufs) 0 (bytes_array p))) (\<lambda>resp. returnA (Some resp)))))
       (\<lambda>res. case res of
          Inl e \<Rightarrow> answer_error bufs (request_unique bufs) e
        | Inr None \<Rightarrow> returnA (bufs, 0)
        | Inr (Some resp) \<Rightarrow> (case scatter_response bufs resp of
            (bufs', Inl e) \<Rightarrow> answer_error bufs' (request_unique bufs) e
          | (bufs', Inr _) \<Rightarrow> returnA (bufs', length resp)))"

section \<open>The device\<close>

text \<open>
  The two queues are served side by side, one chain of each at a time.  \<open>sy_tasks\<close> are the chains being served and \<open>sy_released\<close> the chains
  given back, with their buffers before and after.  A host reply resumes a task; \<open>finalize\<close>, started by a request or by the device's
  shutdown, gets replies of its own.
\<close>

record ('n, 'h) fs_system =
  sy_fs :: "('n, 'h) fs_state"
  sy_tasks :: "nat \<Rightarrow> (vq_buffer list \<times> ('n, 'h, vq_buffer list \<times> nat) fs_async) option"
  sy_released :: "(vq_buffer list \<times> vq_buffer list \<times> nat) list"

definition fs_start :: "'n fs_device \<Rightarrow> ('n, 'h) fs_system" where
  "fs_start dev = \<lparr>sy_fs = new_fs_state (fd_root dev), sy_tasks = (\<lambda>_. None), sy_released = []\<rparr>"

text \<open>What the host may reply: looking up a name never finds the root of the filesystem.\<close>

definition reply_ok :: "'n fs_device \<Rightarrow> ('n, 'h) fs_call \<Rightarrow> ('n, 'h) fs_reply \<Rightarrow> bool" where
  "reply_ok dev c r \<longleftrightarrow> (case c of C_lookup _ _ \<Rightarrow> r \<noteq> R_found (Some (fd_root dev)) | _ \<Rightarrow> True)"

text \<open>The promise of \<open>finalize\<close> settles with the first error.\<close>

definition finalized_ok :: "('n, 'h) fs_call \<Rightarrow> ('n, 'h) fs_reply \<Rightarrow> ('n, 'h) fs_state \<Rightarrow> bool" where
  "finalized_ok c r s \<longleftrightarrow> c = C_finalized \<longrightarrow> (case fs_final s of
     Finalized err \<Rightarrow> r = (case err of None \<Rightarrow> R_done | Some e \<Rightarrow> R_error e) | _ \<Rightarrow> False)"

inductive fs_step :: "'n fs_device \<Rightarrow> ('n, 'h) fs_system \<Rightarrow> ('n, 'h) fs_system \<Rightarrow> bool" for dev where
  accept: "sy_tasks y q = None \<Longrightarrow> q < 2 \<Longrightarrow> serve dev bufs (sy_fs y) = (s, p)
    \<Longrightarrow> fs_step dev y (y\<lparr>sy_fs := s, sy_tasks := (sy_tasks y)(q \<mapsto> (bufs, p))\<rparr>)"
| resume: "sy_tasks y q = Some (bufs, Await c k) \<Longrightarrow> reply_ok dev c r \<Longrightarrow> finalized_ok c r (sy_fs y) \<Longrightarrow> k r (sy_fs y) = (s, p)
    \<Longrightarrow> fs_step dev y (y\<lparr>sy_fs := s, sy_tasks := (sy_tasks y)(q \<mapsto> (bufs, p))\<rparr>)"
| finish: "sy_tasks y q = Some (bufs, Return (bufs', n))
    \<Longrightarrow> fs_step dev y (y\<lparr>sy_tasks := (sy_tasks y)(q := None), sy_released := sy_released y @ [(bufs, bufs', n)]\<rparr>)"
| reject: "sy_tasks y q = Some (bufs, Throw e) \<Longrightarrow> fs_step dev y (y\<lparr>sy_tasks := (sy_tasks y)(q := None)\<rparr>)"
| close: "fs_step dev y (y\<lparr>sy_fs := start_finalize (sy_fs y)\<rparr>)"
| finalizing: "finalize_call dev (sy_fs y) = Some c \<Longrightarrow> fs_step dev y (y\<lparr>sy_fs := finalize_reply r (sy_fs y)\<rparr>)"

inductive fs_reachable :: "'n fs_device \<Rightarrow> ('n, 'h) fs_system \<Rightarrow> bool" for dev where
  start: "fs_reachable dev (fs_start dev)"
| step: "fs_reachable dev y \<Longrightarrow> fs_step dev y y' \<Longrightarrow> fs_reachable dev y'"
end
