(* ===== verification/Fs_Safety.thy ===== *)
theory Fs_Safety
  imports Filesystem
begin

text \<open>
  The filesystem device is safe in every interleaving of its two queues and of its shutdown: the node table stays consistent, the ids the
  guest holds keep naming the nodes they were given for, and no record is kept that nobody needs.
\<close>

section \<open>The invariant of the tables\<close>

definition parent_of :: "('n, 'h) fs_state \<Rightarrow> nat \<Rightarrow> nat" where
  "parent_of s j = nr_parent (the (fs_store s j))"

definition kids :: "('n, 'h) fs_state \<Rightarrow> nat \<Rightarrow> nat set" where
  "kids s i = {j \<in> set (fs_records s). j \<noteq> ROOT_ID \<and> parent_of s j = i}"

text \<open>The map of records and the map of nodes are inverse to each other, and every record refers to records that exist.\<close>

definition tables_ok :: "'n \<Rightarrow> ('n, 'h) fs_state \<Rightarrow> bool" where
  "tables_ok root s \<longleftrightarrow>
     distinct (fs_records s) \<and> ROOT_ID \<in> set (fs_records s) \<and> set (fs_records s) \<subseteq> dom (fs_store s)
     \<and> (\<forall>i \<in> dom (fs_store s). 0 < i \<and> i < fs_next_nodeid s)
     \<and> map_option nr_node (fs_store s ROOT_ID) = Some root \<and> parent_of s ROOT_ID = ROOT_ID
     \<and> (\<forall>n i. fs_by_node s n = Some i \<longleftrightarrow> i \<in> set (fs_records s) \<and> map_option nr_node (fs_store s i) = Some n)
     \<and> (\<forall>i \<in> dom (fs_store s). parent_of s i \<in> dom (fs_store s))"

text \<open>\<open>h\<close> is what \<open>fh\<close> stands for, or stood for before it was closed.\<close>

definition handle_known :: "nat \<Rightarrow> 'h handle_entry \<Rightarrow> ('n, 'h) fs_state \<Rightarrow> bool" where
  "handle_known fh h s \<longleftrightarrow> fh < fs_next_handle s \<and> he_node h \<in> dom (fs_store s) \<and> (\<forall>h'. (fh, h') \<in> set (fs_handles s) \<longrightarrow> h' = h)"

definition handles_ok :: "('n, 'h) fs_state \<Rightarrow> bool" where
  "handles_ok s \<longleftrightarrow>
     0 < fs_next_handle s \<and> (\<forall>fh h. (fh, h) \<in> set (fs_handles s) \<longrightarrow> 0 < fh \<and> handle_known fh h s)
     \<and> (\<forall>fh h e. fs_final s = Releasing fh h e \<longrightarrow> handle_known fh h s)"

text \<open>The number of children a record counts is the number of records below it.\<close>

definition kids_ok :: "('n, 'h) fs_state \<Rightarrow> bool" where
  "kids_ok s \<longleftrightarrow> (\<forall>i r. fs_store s i = Some r \<longrightarrow> nr_children r = int (card (kids s i)))"

text \<open>A record the guest holds lookups of is in the map.\<close>

definition granted_ok :: "('n, 'h) fs_state \<Rightarrow> bool" where
  "granted_ok s \<longleftrightarrow> (\<forall>i r. fs_store s i = Some r \<and> 0 < nr_lookups r \<longrightarrow> i \<in> set (fs_records s))"

text \<open>Records that nothing needs are the ones in \<open>A\<close>, which a request in progress is about to collect.\<close>

definition open_nodes :: "('n, 'h) fs_state \<Rightarrow> nat set" where
  "open_nodes s = (he_node \<circ> snd) ` set (fs_handles s)"

lemma open_nodes_alter [simp]: "open_nodes (alter_record i f s) = open_nodes s"
  by (simp add: open_nodes_def alter_record_def)

lemma open_nodes_other [simp]:
  "open_nodes (fs_records_update f s) = open_nodes s" "open_nodes (fs_by_node_update g s) = open_nodes s"
  "open_nodes (fs_store_update h s) = open_nodes s" "open_nodes (fs_next_nodeid_update k s) = open_nodes s"
  "open_nodes (fs_final_update l s) = open_nodes s" "open_nodes (fs_next_handle_update k s) = open_nodes s"
  by (simp_all add: open_nodes_def)

definition no_garbage :: "nat set \<Rightarrow> ('n, 'h) fs_state \<Rightarrow> bool" where
  "no_garbage A s \<longleftrightarrow> (\<forall>i r. i \<in> set (fs_records s) \<and> fs_store s i = Some r \<and> record_unused i r \<and> i \<notin> open_nodes s \<longrightarrow> i \<in> A)"

definition fs_inv :: "'n \<Rightarrow> nat set \<Rightarrow> ('n, 'h) fs_state \<Rightarrow> bool" where
  "fs_inv root A s \<longleftrightarrow> tables_ok root s \<and> handles_ok s \<and> kids_ok s \<and> granted_ok s \<and> no_garbage A s"

text \<open>What every segment guarantees: a record keeps its node and a handle its meaning, and neither ids nor handles are used again.\<close>

definition ids_stable :: "('n, 'h) fs_state \<Rightarrow> ('n, 'h) fs_state \<Rightarrow> bool" where
  "ids_stable s s' \<longleftrightarrow> (\<forall>i r. fs_store s i = Some r \<longrightarrow> map_option nr_node (fs_store s' i) = Some (nr_node r))
     \<and> fs_next_nodeid s \<le> fs_next_nodeid s' \<and> fs_next_handle s \<le> fs_next_handle s'
     \<and> (\<forall>x \<in> set (fs_handles s'). fst x < fs_next_handle s \<longrightarrow> x \<in> set (fs_handles s))"

lemma ids_stable_refl [simp]: "ids_stable s s"
  by (simp add: ids_stable_def)

lemma ids_stable_trans [trans]: "ids_stable s s' \<Longrightarrow> ids_stable s' s'' \<Longrightarrow> ids_stable s s''"
  unfolding ids_stable_def
  by (intro conjI allI impI ballI; elim conjE) (metis map_option_eq_Some, linarith, linarith, metis order_less_le_trans)

lemma handle_known_stable: "handle_known fh h s \<Longrightarrow> ids_stable s s' \<Longrightarrow> handle_known fh h s'"
  unfolding handle_known_def ids_stable_def by (force simp: dom_def)

lemma ids_stable_dom: "ids_stable s s' \<Longrightarrow> i \<in> dom (fs_store s) \<Longrightarrow> i \<in> dom (fs_store s')"
  unfolding ids_stable_def by (metis domD domI map_option_eq_Some)

lemma handles_ok_later:
  assumes "handles_ok s" "ids_stable s s'" "set (fs_handles s') \<subseteq> set (fs_handles s)" "fs_final s' = fs_final s"
  shows "handles_ok s'"
proof -
  have "handle_known fh h s'" if "(fh, h) \<in> set (fs_handles s) \<or> (\<exists>e. fs_final s = Releasing fh h e)" for fh h
    using that assms(1) handle_known_stable [OF _ assms(2)] by (auto simp: handles_ok_def)
  moreover have "0 < fs_next_handle s'" using assms(1,2) by (auto simp: handles_ok_def ids_stable_def)
  ultimately show ?thesis using assms(1,3,4) by (auto simp: handles_ok_def)
qed

lemma fs_inv_mono: "fs_inv root A s \<Longrightarrow> A \<subseteq> B \<Longrightarrow> fs_inv root B s"
  by (auto simp: fs_inv_def no_garbage_def)

lemma tables_facts:
  assumes "tables_ok root s"
  shows "distinct (fs_records s)" "ROOT_ID \<in> set (fs_records s)" "i \<in> set (fs_records s) \<Longrightarrow> i \<in> dom (fs_store s)"
    "i \<in> dom (fs_store s) \<Longrightarrow> 0 < i \<and> i < fs_next_nodeid s" "map_option nr_node (fs_store s ROOT_ID) = Some root"
    "parent_of s ROOT_ID = ROOT_ID" "fs_by_node s n = Some i \<longleftrightarrow> i \<in> set (fs_records s) \<and> map_option nr_node (fs_store s i) = Some n"
    "i \<in> dom (fs_store s) \<Longrightarrow> parent_of s i \<in> dom (fs_store s)"
  using assms unfolding tables_ok_def by blast+

lemma alter_record_simps [simp]:
  "fs_records (alter_record i f s) = fs_records s" "fs_by_node (alter_record i f s) = fs_by_node s"
  "fs_next_nodeid (alter_record i f s) = fs_next_nodeid s" "fs_handles (alter_record i f s) = fs_handles s"
  "fs_next_handle (alter_record i f s) = fs_next_handle s" "fs_final (alter_record i f s) = fs_final s"
  "dom (fs_store (alter_record i f s)) = dom (fs_store s)"
  by (auto simp: alter_record_def split: if_splits)

lemma alter_record_store: "fs_store (alter_record i f s) j = (if j = i then map_option f (fs_store s i) else fs_store s j)"
  by (simp add: alter_record_def)

text \<open>Changing the counts of a record changes neither its place nor the places of others.\<close>

lemma alter_counts:
  assumes "\<And>r. nr_node (f r) = nr_node r" "\<And>r. nr_parent (f r) = nr_parent r"
  shows "tables_ok root (alter_record i f s) = tables_ok root s" "kids (alter_record i f s) j = kids s j"
    "ids_stable s (alter_record i f s)" "handles_ok s \<Longrightarrow> handles_ok (alter_record i f s)"
proof -
  have node: "map_option nr_node (fs_store (alter_record i f s) j) = map_option nr_node (fs_store s j)" for j
    using assms(1) by (simp add: alter_record_store option.map_comp comp_def)
  have parent: "parent_of (alter_record i f s) j = parent_of s j" for j
    using assms(2) by (cases "fs_store s i") (auto simp: parent_of_def alter_record_store)
  show stable: "ids_stable s (alter_record i f s)"
    using node by (auto simp: ids_stable_def)
  show "tables_ok root (alter_record i f s) = tables_ok root s"
    by (simp add: tables_ok_def node parent)
  show "handles_ok (alter_record i f s)" if "handles_ok s"
    by (rule handles_ok_later [OF that stable]) simp_all
  show "kids (alter_record i f s) j = kids s j"
    by (simp add: kids_def parent)
qed

lemma kids_finite [simp]: "finite (kids s i)"
  by (simp add: kids_def)

text \<open>Forgetting lookups or giving up a handle may leave a record that nothing needs.\<close>

lemma alter_inv:
  assumes "fs_inv root A s" "\<And>r. nr_node (f r) = nr_node r" "\<And>r. nr_parent (f r) = nr_parent r" "\<And>r. nr_children (f r) = nr_children r"
    and "\<And>r. fs_store s i = Some r \<Longrightarrow> 0 < nr_lookups (f r) \<Longrightarrow> 0 < nr_lookups r \<or> i \<in> set (fs_records s)"
  shows "fs_inv root (insert i A) (alter_record i f s)" "ids_stable s (alter_record i f s)"
proof -
  note same = alter_counts [OF assms(2,3)]
  have "kids_ok (alter_record i f s)"
    using assms(1,4) by (auto simp: fs_inv_def kids_ok_def same(2) alter_record_store)
  moreover have "granted_ok (alter_record i f s)"
    using assms(1,5) by (fastforce simp: fs_inv_def granted_ok_def alter_record_store split: if_splits)
  moreover have "no_garbage (insert i A) (alter_record i f s)"
    using assms(1) by (auto simp: fs_inv_def no_garbage_def alter_record_store)
  ultimately show "fs_inv root (insert i A) (alter_record i f s)"
    using assms(1) by (simp add: fs_inv_def same)
  show "ids_stable s (alter_record i f s)" by (rule same(3))
qed

lemma alter_inv_keep:
  assumes "fs_inv root A s" "\<And>r. nr_node (f r) = nr_node r" "\<And>r. nr_parent (f r) = nr_parent r" "\<And>r. nr_children (f r) = nr_children r"
    and "\<And>r. fs_store s i = Some r \<Longrightarrow> 0 < nr_lookups (f r) \<Longrightarrow> 0 < nr_lookups r \<or> i \<in> set (fs_records s)"
    and "\<And>r. fs_store s i = Some r \<Longrightarrow> \<not> record_unused i (f r)"
  shows "fs_inv root (A - {i}) (alter_record i f s)"
  using alter_inv(1) [OF assms(1-5)] assms(6) by (auto simp: fs_inv_def no_garbage_def alter_record_store)

section \<open>Collecting records\<close>

text \<open>Taking a record that nothing needs out of the maps; its parent may be the next.\<close>

lemma drop_record_inv:
  assumes inv: "fs_inv root (insert i A) s" and r: "fs_store s i = Some r" and live: "i \<in> set (fs_records s)" and record_unused: "record_unused i r"
  shows "fs_inv root (insert (nr_parent r) A) (drop_record i r s)" "ids_stable s (drop_record i r s)"
proof -
  let ?s = "s\<lparr>fs_records := removeAll i (fs_records s), fs_by_node := (fs_by_node s)(nr_node r := None)\<rparr>"
  let ?f = "\<lambda>r. r\<lparr>nr_children := nr_children r + - 1\<rparr>"
  have drop: "drop_record i r s = alter_record (nr_parent r) ?f ?s"
    by (simp add: drop_record_def add_children_def)
  have tables: "tables_ok root s" and dist: "distinct (fs_records s)" and store: "fs_store ?s = fs_store s"
    using inv by (simp_all add: fs_inv_def tables_ok_def)
  have not_root: "i \<noteq> ROOT_ID" using record_unused by (simp add: record_unused_def)
  have no_kids: "kids s i = {}"
    using inv r record_unused kids_finite [of s i] by (auto simp: fs_inv_def kids_ok_def record_unused_def)
  have parent: "parent_of ?s j = parent_of s j" for j by (simp add: parent_of_def)
  have kids: "kids ?s j = kids s j - {i}" for j by (auto simp: kids_def parent)
  have unique: "j = i" if "j \<in> set (fs_records s)" "fs_store s j = Some rj" "nr_node rj = nr_node r" for j rj
  proof -
    have "fs_by_node s (nr_node r) = Some i" "fs_by_node s (nr_node r) = Some j"
      using tables r live that unfolding tables_ok_def by auto
    thus ?thesis by simp
  qed
  have "tables_ok root ?s"
    using tables r live not_root
    unfolding tables_ok_def parent by (auto simp: distinct_removeAll dest: unique)
  note same = alter_counts [where f = ?f and i = "nr_parent r" and s = ?s]
  have tables': "tables_ok root (drop_record i r s)"
    unfolding drop using \<open>tables_ok root ?s\<close> by (subst same(1)) simp_all
  have stable: "ids_stable s ?s" by (simp add: ids_stable_def)
  have "handles_ok ?s" by (rule handles_ok_later [OF _ stable]) (use inv in \<open>simp_all add: fs_inv_def\<close>)
  hence handles': "handles_ok (drop_record i r s)"
    unfolding drop by (intro same(4)) simp_all
  have "i \<in> kids s (nr_parent r)" using live not_root r by (simp add: kids_def parent_of_def)
  hence card: "int (card (kids s (nr_parent r) - {i})) = int (card (kids s (nr_parent r))) - 1"
    by (metis card_Diff_singleton card_gt_0_iff empty_iff kids_finite of_nat_1 of_nat_diff Suc_leI One_nat_def)
  have other: "kids s j - {i} = kids s j" if "j \<noteq> nr_parent r" for j
    using that r by (auto simp: kids_def parent_of_def)
  have kids': "kids (drop_record i r s) j = kids s j - {i}" for j
    unfolding drop by (subst same(2)) (simp_all add: kids)
  have "kids_ok (drop_record i r s)"
    unfolding kids_ok_def
  proof (intro allI impI)
    fix j rj assume "fs_store (drop_record i r s) j = Some rj"
    then obtain r0 where "fs_store s j = Some r0" "nr_children rj = nr_children r0 - (if j = nr_parent r then 1 else 0)"
      by (auto simp: drop alter_record_store split: if_splits)
    moreover from this inv have "nr_children r0 = int (card (kids s j))" by (auto simp: fs_inv_def kids_ok_def)
    ultimately show "nr_children rj = int (card (kids (drop_record i r s) j))"
      using card other [of j] by (auto simp: kids')
  qed
  moreover have "granted_ok (drop_record i r s)"
    using inv r record_unused by (auto simp: fs_inv_def granted_ok_def record_unused_def drop alter_record_store split: if_splits)
  moreover have "no_garbage (insert (nr_parent r) A) (drop_record i r s)"
    using inv by (auto simp: fs_inv_def no_garbage_def drop alter_record_store split: if_splits)
  ultimately show "fs_inv root (insert (nr_parent r) A) (drop_record i r s)"
    using tables' handles' by (simp add: fs_inv_def)
  note stable
  also have "ids_stable ?s (drop_record i r s)" unfolding drop by (rule same(3)) simp_all
  finally show "ids_stable s (drop_record i r s)" .
qed

text \<open>After \<open>collect_record\<close> the record needs no excuse any more.\<close>

lemma collect_record_inv:
  "fs_inv root (insert i A) s \<Longrightarrow> fs_inv root A (collect_record i s) \<and> ids_stable s (collect_record i s)"
proof (induction i s rule: collect_record.induct)
  case (1 i s)
  consider "i \<notin> set (fs_records s) \<or> fs_store s i = None" | r where "fs_store s i = Some r" "i \<in> set (fs_records s)" by fastforce
  thus ?case
  proof cases
    case 1
    with "1.prems" show ?thesis
      by (auto simp: collect_record.simps [of i] fs_inv_def no_garbage_def tables_ok_def dom_def)
  next
    case (2 r)
    show ?thesis
    proof (cases "record_unused i r")
      case True
      note drop = drop_record_inv [OF "1.prems" 2 True]
      from "1.IH" [OF _ 2(1) True drop(1)] 2 True drop(2) show ?thesis
        by (auto simp: collect_record.simps [of i s] intro: ids_stable_trans)
    next
      case False
      with 2 "1.prems" show ?thesis
        by (auto simp: collect_record.simps [of i] fs_inv_def no_garbage_def)
    qed
  qed
qed

lemma forget_inv:
  assumes "fs_inv root A s"
  shows "fs_inv root A (forget i n s)" "ids_stable s (forget i n s)"
proof -
  let ?f = "\<lambda>r. r\<lparr>nr_lookups := (if n \<ge> nr_lookups r then 0 else nr_lookups r - n)\<rparr>"
  have "fs_inv root (insert i A) (alter_record i ?f s)"
    by (rule alter_inv(1) [OF assms]) (auto split: if_splits)
  moreover have "ids_stable s (alter_record i ?f s)"
    by (rule alter_counts(3)) simp_all
  ultimately show "fs_inv root A (forget i n s)" "ids_stable s (forget i n s)"
    using collect_record_inv [of root i A "alter_record i ?f s"] ids_stable_trans unfolding forget_def by blast+
qed

lemma forget_all_inv: "fs_inv root A s \<Longrightarrow> fs_inv root A (forget_all es s) \<and> ids_stable s (forget_all es s)"
proof (induction es arbitrary: s)
  case (Cons e es)
  from Cons.IH [OF forget_inv(1) [OF Cons.prems, of "fst e" "snd e"]] forget_inv(2) [OF Cons.prems, of "fst e" "snd e"]
  show ?case by (auto simp: forget_all_def case_prod_unfold intro: ids_stable_trans)
qed (simp add: forget_all_def)

lemma collect_all_inv: "fs_inv root (set is \<union> A) s \<Longrightarrow> fs_inv root A (collect_all is s) \<and> ids_stable s (collect_all is s)"
proof (induction "is" arbitrary: s)
  case (Cons i "is")
  from collect_record_inv [of root i "set is \<union> A" s] Cons.prems
  have "fs_inv root (set is \<union> A) (collect_record i s)" "ids_stable s (collect_record i s)" by auto
  with Cons.IH [of "collect_record i s"] show ?case by (auto simp: collect_all_def intro: ids_stable_trans)
qed (simp add: collect_all_def)


section \<open>New records and handles\<close>

lemma record_for_node_inv:
  assumes inv: "fs_inv root A s" and p: "p \<in> dom (fs_store s)" and result: "record_for_node n p s = (s', i)"
  shows "fs_inv root (insert i A) s'" "ids_stable s s'" "i \<in> set (fs_records s')" "map_option nr_node (fs_store s' i) = Some n"
proof -
  have tables: "tables_ok root s" using inv by (simp add: fs_inv_def)
  have "fs_inv root (insert i A) s' \<and> ids_stable s s' \<and> i \<in> set (fs_records s') \<and> map_option nr_node (fs_store s' i) = Some n"
  proof (cases "fs_by_node s n")
    case (Some j)
    hence "j \<in> set (fs_records s)" "map_option nr_node (fs_store s j) = Some n"
      using tables unfolding tables_ok_def by blast+
    with Some result inv show ?thesis by (auto simp: record_for_node_def intro: fs_inv_mono)
  next
    case None
    let ?r = "\<lparr>nr_node = n, nr_parent = p, nr_lookups = 0, nr_handles = 0, nr_children = 0\<rparr>"
    let ?s = "s\<lparr>fs_next_nodeid := Suc i, fs_store := (fs_store s)(i \<mapsto> ?r), fs_records := fs_records s @ [i], fs_by_node := (fs_by_node s)(n \<mapsto> i)\<rparr>"
    let ?f = "\<lambda>r. r\<lparr>nr_children := nr_children r + 1\<rparr>"
    have i: "i = fs_next_nodeid s" and s': "s' = alter_record p ?f ?s"
      using None result by (auto simp: record_for_node_def Let_def add_children_def)
    have fresh: "i \<notin> dom (fs_store s)"
      using tables_facts(4) [OF tables, of i] unfolding i by blast
    hence new: "i \<notin> set (fs_records s)" and not_root: "i \<noteq> ROOT_ID"
      using tables_facts(2,3) [OF tables] by metis+
    have pi: "p \<noteq> i" using p fresh by blast
    have parent: "parent_of ?s j = (if j = i then p else parent_of s j)" for j by (simp add: parent_of_def)
    have nobody: "map_option nr_node (fs_store s j) \<noteq> Some n" if "j \<in> set (fs_records s)" for j
      using tables_facts(7) [OF tables, of n j] None that by simp
    have known: "j \<noteq> i" if "j \<in> dom (fs_store s)" for j using fresh that by blast
    have "tables_ok root ?s"
      unfolding tables_ok_def parent
    proof (intro conjI allI ballI)
      show "fs_by_node ?s m = Some j \<longleftrightarrow> j \<in> set (fs_records ?s) \<and> map_option nr_node (fs_store ?s j) = Some m" for m j
        using tables_facts(7) [OF tables, of m j] nobody [of j] None new by auto
      show "0 < j" "j < fs_next_nodeid ?s" if "j \<in> dom (fs_store ?s)" for j
        using that tables_facts(4) [OF tables, of j] tables_facts(4) [OF tables p] unfolding i by fastforce+
      show "(if j = i then p else parent_of s j) \<in> dom (fs_store ?s)" if "j \<in> dom (fs_store ?s)" for j
        using that p tables_facts(8) [OF tables, of j] by auto
    qed (use tables_facts(1-3,5,6) [OF tables] new not_root in auto)
    note same = alter_counts [where f = ?f and i = p and s = ?s]
    have tables': "tables_ok root s'" unfolding s' using \<open>tables_ok root ?s\<close> by (subst same(1)) simp_all
    have stable: "ids_stable s ?s" using known by (force simp: ids_stable_def i)
    have "handles_ok ?s" by (rule handles_ok_later [OF _ stable]) (use inv in \<open>simp_all add: fs_inv_def\<close>)
    hence handles': "handles_ok s'" unfolding s' by (intro same(4)) simp_all
    have kids_s: "kids ?s j = (if j = p then insert i (kids s j) else kids s j)" for j
      unfolding kids_def parent using new not_root by auto
    have kids': "kids s' j = (if j = p then insert i (kids s j) else kids s j)" for j
      unfolding s' by (subst same(2)) (simp_all add: kids_s)
    have "i \<notin> kids s j" for j using new by (simp add: kids_def)
    hence card: "card (insert i (kids s p)) = Suc (card (kids s p))" by simp
    have childless: "kids s i = {}"
      using tables fresh unfolding tables_ok_def by (auto simp: kids_def)
    have old: "nr_children r = int (card (kids s j))" if "fs_store s j = Some r" for j r
      using inv that by (auto simp: fs_inv_def kids_ok_def)
    have "kids_ok s'"
      unfolding kids_ok_def kids' using old childless card pi
      by (auto simp: s' alter_record_store split: if_splits)
    moreover have "granted_ok s'"
      using inv by (auto simp: fs_inv_def granted_ok_def s' alter_record_store split: if_splits)
    moreover have "no_garbage (insert i A) s'"
      unfolding no_garbage_def
    proof (intro allI impI, elim conjE)
      fix j rj assume j: "j \<in> set (fs_records s')" "fs_store s' j = Some rj" "record_unused j rj" "j \<notin> open_nodes s'"
      show "j \<in> insert i A"
      proof (cases "j = i")
        case False
        with j(2) obtain r0 where r0: "fs_store s j = Some r0" "rj = (if j = p then ?f r0 else r0)"
          by (auto simp: s' alter_record_store split: if_splits)
        have "record_unused j r0" using j(3) r0 old [OF r0(1)] by (auto simp: record_unused_def split: if_splits)
        thus ?thesis using inv j r0(1) False by (auto simp: fs_inv_def no_garbage_def s')
      qed simp
    qed
    moreover note stable
    moreover have "ids_stable ?s s'" unfolding s' by (rule same(3)) simp_all
    ultimately show ?thesis
      using tables' handles' pi by (auto simp: fs_inv_def s' alter_record_store intro: ids_stable_trans)
  qed
  thus "fs_inv root (insert i A) s'" "ids_stable s s'" "i \<in> set (fs_records s')" "map_option nr_node (fs_store s' i) = Some n" by blast+
qed

lemma grant_record_inv:
  assumes "fs_inv root A s" "p \<in> dom (fs_store s)" "grant_record n p s = (s', i)"
  shows "fs_inv root A s'" "ids_stable s s'" "i \<in> set (fs_records s')" "i \<in> dom (fs_store s')"
proof -
  let ?f = "\<lambda>r. r\<lparr>nr_lookups := nr_lookups r + 1\<rparr>"
  obtain s1 where s1: "record_for_node n p s = (s1, i)" "s' = alter_record i ?f s1"
    using assms(3) by (auto simp: grant_record_def split: prod.splits)
  note rec = record_for_node_inv [OF assms(1,2) s1(1)]
  have "fs_inv root (insert i A - {i}) s'"
    unfolding s1(2) by (rule alter_inv_keep [OF rec(1)]) (simp_all add: rec(3) record_unused_def)
  thus "fs_inv root A s'" by (rule fs_inv_mono) auto
  have "ids_stable s1 s'" unfolding s1(2) by (rule alter_counts(3)) simp_all
  with rec(2) show "ids_stable s s'" by (rule ids_stable_trans)
  show "i \<in> set (fs_records s')" using rec(3) by (simp add: s1(2))
  show "i \<in> dom (fs_store s')" using rec(4) by (auto simp: s1(2) alter_record_store)
qed

lemma add_handle_inv:
  assumes "fs_inv root A s" "i \<in> dom (fs_store s)" "add_handle i h d s = (s', fh)"
  shows "fs_inv root A s'" "ids_stable s s'"
proof -
  let ?s = "s\<lparr>fs_next_handle := fh + 1, fs_handles := fs_handles s @ [(fh, \<lparr>he_node = i, he_handle = h, he_directory = d\<rparr>)]\<rparr>"
  let ?f = "\<lambda>r. r\<lparr>nr_handles := nr_handles r + 1\<rparr>"
  have s': "s' = alter_record i ?f ?s" and fh: "fh = fs_next_handle s"
    using assms(3) by (auto simp: add_handle_def Let_def add_handles_def)
  have stable: "ids_stable s ?s" by (auto simp: ids_stable_def fh)
  have ok: "handles_ok s" using assms(1) by (simp add: fs_inv_def)
  have old: "handle_known fh' h' ?s" if "(fh', h') \<in> set (fs_handles s) \<or> (\<exists>e. fs_final s = Releasing fh' h' e)" for fh' h'
    using that ok handle_known_stable [OF _ stable] by (auto simp: handles_ok_def)
  have "handle_known fh \<lparr>he_node = i, he_handle = h, he_directory = d\<rparr> ?s"
    using assms(2) ok by (auto simp: handle_known_def handles_ok_def fh)
  with old ok have handles: "handles_ok ?s" by (auto simp: handles_ok_def fh)
  have "tables_ok root ?s" "kids_ok ?s" "granted_ok ?s" "no_garbage A ?s"
    using assms(1) by (auto simp: fs_inv_def tables_ok_def kids_ok_def kids_def parent_of_def granted_ok_def no_garbage_def open_nodes_def)
  with handles have inv: "fs_inv root A ?s" by (simp add: fs_inv_def)
  have "fs_inv root (insert i A) s'" "ids_stable ?s s'"
    unfolding s' by (rule alter_inv [OF inv]; simp)+
  moreover have "i \<in> open_nodes s'" by (auto simp: s' open_nodes_def)
  ultimately show "fs_inv root A s'" "ids_stable s s'"
    using ids_stable_trans [OF stable] by (auto simp: fs_inv_def no_garbage_def)
qed

lemma remove_handle_inv:
  assumes inv: "fs_inv root A s" and known: "handle_known fh h s"
  shows "fs_inv root A (remove_handle fh h s)" "ids_stable s (remove_handle fh h s)"
proof -
  let ?s = "s\<lparr>fs_handles := filter (\<lambda>x. fst x \<noteq> fh) (fs_handles s)\<rparr>"
  let ?f = "\<lambda>r. r\<lparr>nr_handles := nr_handles r + - 1\<rparr>"
  let ?a = "alter_record (he_node h) ?f ?s"
  have "open_nodes s \<subseteq> insert (he_node h) (open_nodes ?s)"
    using known by (auto simp: open_nodes_def handle_known_def)
  hence garbage: "no_garbage (insert (he_node h) A) ?s"
    using inv by (auto simp: fs_inv_def no_garbage_def)
  have stable: "ids_stable s ?s" by (auto simp: ids_stable_def)
  have "handles_ok ?s" by (rule handles_ok_later [OF _ stable]) (use inv in \<open>auto simp: fs_inv_def\<close>)
  moreover have "tables_ok root ?s" "kids_ok ?s" "granted_ok ?s"
    using inv by (simp_all add: fs_inv_def tables_ok_def kids_ok_def kids_def parent_of_def granted_ok_def)
  ultimately have inv_s: "fs_inv root (insert (he_node h) A) ?s" using garbage by (simp add: fs_inv_def)
  have "fs_inv root (insert (he_node h) A) ?a"
    using alter_inv(1) [OF inv_s, of ?f "he_node h"] by simp
  note collect = collect_record_inv [OF this]
  show "fs_inv root A (remove_handle fh h s)" using collect by (simp add: remove_handle_def add_handles_def)
  note stable
  also have "ids_stable ?s ?a" by (rule alter_counts(3)) simp_all
  also note conjunct2 [OF collect]
  finally show "ids_stable s (remove_handle fh h s)" by (simp add: remove_handle_def add_handles_def)
qed

section \<open>Listing, renaming and shutdown\<close>

lemma readdir_records_inv:
  "fs_inv root A s \<Longrightarrow> p \<in> dom (fs_store s) \<Longrightarrow> readdir_records p es s = (s', is, res)
    \<Longrightarrow> fs_inv root (set is \<union> A) s' \<and> ids_stable s s' \<and> (\<forall>xs. res = Inr xs \<longrightarrow> snd ` set xs \<subseteq> dom (fs_store s'))"
proof (induction p es s arbitrary: s' "is" res A rule: readdir_records.induct)
  case (2 p raw n es s)
  obtain s1 i where rec: "record_for_node n p s = (s1, i)" by fastforce
  note step = record_for_node_inv [OF "2.prems"(1,2) rec]
  show ?case
  proof (cases "validate_name raw")
    case (Inl e)
    with "2.prems"(3) rec step show ?thesis by auto
  next
    case (Inr name)
    obtain s2 is2 rs where rest: "readdir_records p es s1 = (s2, is2, rs)" by (cases "readdir_records p es s1") auto
    have p1: "p \<in> dom (fs_store s1)" using ids_stable_dom [OF step(2) "2.prems"(2)] .
    from "2.IH" [OF rec [symmetric] Inr step(1) p1 rest]
    have IH: "fs_inv root (set is2 \<union> insert i A) s2" "ids_stable s1 s2" "\<And>xs. rs = Inr xs \<Longrightarrow> snd ` set xs \<subseteq> dom (fs_store s2)" by auto
    have "i \<in> dom (fs_store s2)" using step(4) ids_stable_dom [OF IH(2)] by auto
    moreover have "s' = s2" "is = i # is2" "res = bindE rs (\<lambda>xs. Inr ((name, i) # xs))"
      using Inr rec rest "2.prems"(3) by simp_all
    moreover have "snd ` set xs \<subseteq> dom (fs_store s2)" if res: "bindE rs (\<lambda>xs. Inr ((name, i) # xs)) = Inr xs" for xs
    proof -
      obtain ys where "rs = Inr ys" "xs = (name, i) # ys" using res by (auto simp: throws)
      thus ?thesis using IH(3) [of ys] \<open>i \<in> dom (fs_store s2)\<close> by simp
    qed
    ultimately show ?thesis
      using IH(1) ids_stable_trans [OF step(2) IH(2)] by simp
  qed
qed auto

lemma move_record_inv:
  assumes inv: "fs_inv root A s" and m: "moved \<noteq> Some ROOT_ID" and np: "new_parent \<in> dom (fs_store s)"
  shows "fs_inv root A (move_record moved new_parent s) \<and> ids_stable s (move_record moved new_parent s)"
proof -
  consider "move_record moved new_parent s = s" | i r where "moved = Some i" "fs_store s i = Some r" "i \<in> set (fs_records s)" "nr_parent r \<noteq> new_parent"
  proof (cases "moved = None \<or> fs_store s (the moved) = None")
    case False
    then obtain i r where "moved = Some i" "fs_store s i = Some r" by auto
    thus ?thesis using that by (cases "i \<in> set (fs_records s) \<and> nr_parent r \<noteq> new_parent") (auto simp: move_record_def)
  next
    case True
    hence "move_record moved new_parent s = s" by (cases moved) (auto simp: move_record_def)
    thus ?thesis by (rule that(1))
  qed
  thus ?thesis
  proof cases
    case 1
    with inv show ?thesis by simp
  next
    case (2 i r)
    let ?p = "nr_parent r"
    let ?s = "add_children new_parent 1 (alter_record i (\<lambda>r. r\<lparr>nr_parent := new_parent\<rparr>) (add_children ?p (- 1) s))"
    have moved: "move_record moved new_parent s = collect_record ?p ?s" using 2 by (simp add: move_record_def)
    have not_root: "i \<noteq> ROOT_ID" using m 2(1) by auto
    have tables: "tables_ok root s" using inv by (simp add: fs_inv_def)
    have store: "fs_store ?s j = map_option (\<lambda>r. r\<lparr>nr_parent := (if j = i then new_parent else nr_parent r),
        nr_children := nr_children r - (if j = ?p then 1 else 0) + (if j = new_parent then 1 else 0)\<rparr>) (fs_store s j)" for j
      by (cases "fs_store s j") (auto simp: add_children_def alter_record_store)
    have same: "fs_records ?s = fs_records s" "fs_by_node ?s = fs_by_node s" "fs_next_nodeid ?s = fs_next_nodeid s"
        "fs_handles ?s = fs_handles s" "fs_next_handle ?s = fs_next_handle s" "fs_final ?s = fs_final s" "dom (fs_store ?s) = dom (fs_store s)"
        "open_nodes ?s = open_nodes s"
      by (simp_all add: add_children_def)
    have node: "map_option nr_node (fs_store ?s j) = map_option nr_node (fs_store s j)" for j
      by (simp add: store option.map_comp comp_def)
    have parent: "parent_of ?s j = (if j = i then new_parent else parent_of s j)" if "j \<in> dom (fs_store s)" for j
      using that by (auto simp: parent_of_def store)
    have stable: "ids_stable s ?s" using node by (auto simp: ids_stable_def same)
    define s1 where "s1 = ?s"
    have "tables_ok root s1"
      unfolding tables_ok_def s1_def same node
      using tables_facts [OF tables] parent np not_root by (auto simp: dom_def)
    moreover have "handles_ok s1"
      unfolding s1_def by (rule handles_ok_later [OF _ stable]) (use inv in \<open>simp_all add: fs_inv_def same\<close>)
    moreover have "kids_ok s1"
      unfolding kids_ok_def
    proof (intro allI impI)
      fix j rj assume "fs_store s1 j = Some rj"
      then obtain r0 where r0: "fs_store s j = Some r0" "nr_children rj = nr_children r0 - (if j = ?p then 1 else 0) + (if j = new_parent then 1 else 0)"
        by (auto simp: s1_def store)
      have count: "nr_children r0 = int (card (kids s j))" using inv r0(1) by (auto simp: fs_inv_def kids_ok_def)
      have member: "i \<in> kids s j \<longleftrightarrow> j = ?p" using 2(2,3) not_root by (auto simp: kids_def parent_of_def)
      have live: "k \<in> dom (fs_store s)" if "k \<in> set (fs_records s)" for k using tables_facts(3) [OF tables that] .
      have "kids s1 j = (if j = new_parent then insert i (kids s j) else kids s j - {i})"
        using 2(3,4) not_root live parent by (auto simp: kids_def s1_def same)
      thus "nr_children rj = int (card (kids s1 j))"
        using member count r0(2) 2(4) card_Suc_Diff1 [of "kids s j" i] by (cases "j = ?p") auto
    qed
    moreover have "granted_ok s1"
      using inv by (auto simp: fs_inv_def granted_ok_def s1_def store same)
    moreover have "no_garbage (insert ?p A) s1"
      unfolding no_garbage_def
    proof (intro allI impI, elim conjE)
      fix j rj assume j: "j \<in> set (fs_records s1)" "fs_store s1 j = Some rj" "record_unused j rj" "j \<notin> open_nodes s1"
      then obtain r0 where r0: "fs_store s j = Some r0" "nr_lookups rj = nr_lookups r0" "nr_handles rj = nr_handles r0"
          "nr_children rj = nr_children r0 - (if j = ?p then 1 else 0) + (if j = new_parent then 1 else 0)"
        by (auto simp: s1_def store)
      have "0 \<le> nr_children r0" using inv r0(1) by (auto simp: fs_inv_def kids_ok_def)
      hence "j = ?p \<or> record_unused j r0" using j(3) r0 by (auto simp: record_unused_def split: if_splits)
      thus "j \<in> insert ?p A" using inv j r0(1) by (auto simp: fs_inv_def no_garbage_def s1_def same)
    qed
    ultimately have "fs_inv root (insert ?p A) s1" by (simp add: fs_inv_def)
    from collect_record_inv [OF this] stable show ?thesis
      unfolding moved s1_def by (auto intro: ids_stable_trans)
  qed
qed

lemma final_inv: "fs_inv root A s \<Longrightarrow> (\<And>fh h e. f = Releasing fh h e \<Longrightarrow> handle_known fh h s) \<Longrightarrow> fs_inv root A (s\<lparr>fs_final := f\<rparr>)"
  by (auto simp: fs_inv_def tables_ok_def parent_of_def handles_ok_def handle_known_def kids_ok_def kids_def granted_ok_def no_garbage_def)

lemma finalize_next_inv:
  assumes "fs_inv root A s"
  shows "fs_inv root A (finalize_next after err s)" "ids_stable s (finalize_next after err s)"
proof -
  have "handle_known fh h s" if "(case find (\<lambda>x. fst x > after) (fs_handles s) of None \<Rightarrow> Destroying err | Some (fh, h) \<Rightarrow> Releasing fh h err)
      = Releasing fh h e" for fh h e
    using that assms by (auto simp: fs_inv_def handles_ok_def find_Some_iff split: option.splits)
  thus "fs_inv root A (finalize_next after err s)"
    unfolding finalize_next_def by (rule final_inv [OF assms])
  show "ids_stable s (finalize_next after err s)" by (simp add: finalize_next_def ids_stable_def)
qed

lemma start_finalize_inv:
  "fs_inv root A s \<Longrightarrow> fs_inv root A (start_finalize s) \<and> ids_stable s (start_finalize s)"
  by (simp add: start_finalize_def finalize_next_inv)

lemma finalize_reply_inv:
  assumes "fs_inv root A s"
  shows "fs_inv root A (finalize_reply r s) \<and> ids_stable s (finalize_reply r s)"
proof (cases "fs_final s")
  case (Releasing fh h err)
  hence "handle_known fh h s" using assms by (auto simp: fs_inv_def handles_ok_def)
  from remove_handle_inv [OF assms this] finalize_next_inv [of root A "remove_handle fh h s" fh "first_error err r"]
  show ?thesis using Releasing by (auto simp: finalize_reply_def intro: ids_stable_trans)
next
  case (Destroying err)
  thus ?thesis using assms by (auto simp: finalize_reply_def ids_stable_def intro: final_inv)
qed (use assms in \<open>simp_all add: finalize_reply_def\<close>)


section \<open>Requests keep the invariant\<close>

interpretation fs: concurrent "fs_inv (fd_root dev)" ids_stable "reply_ok dev" for dev
  by unfold_locales (simp, rule ids_stable_trans)

text \<open>
  What a request knows: the records in \<open>K\<close> exist and the handles in \<open>H\<close> stand for what it found.  Others cannot take that away.
\<close>

definition knows :: "nat set \<Rightarrow> (nat \<times> 'h handle_entry) set \<Rightarrow> ('n, 'h) fs_state \<Rightarrow> bool" where
  "knows K H s \<longleftrightarrow> K \<subseteq> dom (fs_store s) \<and> (\<forall>(fh, h) \<in> H. handle_known fh h s)"

lemma knows_stable: "knows K H s \<Longrightarrow> ids_stable s s' \<Longrightarrow> knows K H s'"
  unfolding knows_def using ids_stable_dom handle_known_stable by fastforce

definition sound :: "'n fs_device \<Rightarrow> nat set \<Rightarrow> nat set \<Rightarrow> (nat \<times> 'h handle_entry) set \<Rightarrow> ('n, 'h, 'a) fs_fun \<Rightarrow> bool" where
  "sound dev D K H m \<longleftrightarrow> fs.triple dev (\<lambda>T s. T = D \<and> knows K H s) m (\<lambda>x T s. T = D)"

lemma sound_bind:
  assumes "fs.triple dev (\<lambda>T s. T = D \<and> knows K H s) m (\<lambda>x T s. T = D \<and> (\<forall>y. x = Inr y \<longrightarrow> P y \<and> knows (K' y) (H' y) s))"
    and "\<And>y. P y \<Longrightarrow> sound dev D (K' y) (H' y) (f y)"
  shows "sound dev D K H (bindA m f)"
  unfolding sound_def
proof (rule fs.triple_bind)
  show "fs.triple dev (\<lambda>T s. T = D \<and> knows K H s) m
      (\<lambda>x T s. case x of Inl e \<Rightarrow> T = D | Inr y \<Rightarrow> P y \<and> T = D \<and> knows (K' y) (H' y) s)"
    by (rule fs.triple_post [OF assms(1)]) (auto split: sum.splits)
  show "fs.triple dev (\<lambda>T s. P y \<and> T = D \<and> knows (K' y) (H' y) s) (f y) (\<lambda>x T s. T = D)" for y
    using assms(2) [of y] by (cases "P y") (auto simp: sound_def fs.triple_def)
qed

named_theorems sound_intros \<open>rules for requests that keep the invariant\<close>

lemma sound_ends [sound_intros]: "sound dev D K H (returnA x)" "sound dev D K H (throwA e)" "sound dev D K H (liftA r)" "sound dev D K H (liftR rr)"
  unfolding sound_def by (rule fs.triple_return fs.triple_throw fs.triple_lift fs.triple_liftR; simp)+

lemma sound_lift [sound_intros]: "(\<And>y. x = Inr y \<Longrightarrow> sound dev D K H (f y)) \<Longrightarrow> sound dev D K H (bindA (liftA x) f)"
  by (rule sound_bind [where P = "\<lambda>y. x = Inr y" and K' = "\<lambda>_. K" and H' = "\<lambda>_. H"]) (auto intro: fs.triple_lift)

lemma sound_liftR [sound_intros]: "(\<And>y. sound dev D K H (f y)) \<Longrightarrow> sound dev D K H (bindA (liftR x) f)"
  by (rule sound_bind [where P = "\<lambda>_. True" and K' = "\<lambda>_. K" and H' = "\<lambda>_. H"]) (auto intro: fs.triple_liftR)

lemma sound_get:
  assumes "\<And>A s. fs_inv (fd_root dev) A s \<Longrightarrow> knows K H s \<Longrightarrow> P (g s) \<and> knows (K' (g s)) (H' (g s)) s"
    and "\<And>y. P y \<Longrightarrow> sound dev D (K' y) (H' y) (f y)"
  shows "sound dev D K H (bindA (getA g) f)"
  by (rule sound_bind [OF _ assms(2)], rule fs.triple_get) (use assms(1) in auto)

lemma sound_inspect:
  assumes "\<And>A s y. fs_inv (fd_root dev) A s \<Longrightarrow> knows K H s \<Longrightarrow> g s = Inr y \<Longrightarrow> P y \<and> knows (K' y) (H' y) s"
    and "\<And>y. P y \<Longrightarrow> sound dev D (K' y) (H' y) (f y)"
  shows "sound dev D K H (bindA (inspect g) f)"
  unfolding inspect_def bindA_assoc
proof (rule sound_get [where P = "\<lambda>x. \<forall>y. x = Inr y \<longrightarrow> P y" and K' = "\<lambda>x. case x of Inl e \<Rightarrow> {} | Inr y \<Rightarrow> K' y"
      and H' = "\<lambda>x. case x of Inl e \<Rightarrow> {} | Inr y \<Rightarrow> H' y"])
  show "(\<forall>y. g s = Inr y \<longrightarrow> P y) \<and> knows (case g s of Inl e \<Rightarrow> {} | Inr y \<Rightarrow> K' y) (case g s of Inl e \<Rightarrow> {} | Inr y \<Rightarrow> H' y) s"
    if "fs_inv (fd_root dev) A s" "knows K H s" for A s
    using assms(1) [OF that] by (auto simp: knows_def split: sum.splits)
  show "sound dev D (case x of Inl e \<Rightarrow> {} | Inr y \<Rightarrow> K' y) (case x of Inl e \<Rightarrow> {} | Inr y \<Rightarrow> H' y) (bindA (liftA x) f)"
    if "\<forall>y. x = Inr y \<longrightarrow> P y" for x
    using that by (auto intro!: sound_lift assms(2))
qed

lemma sound_await:
  assumes "\<And>r. reply_ok dev c r \<Longrightarrow> sound dev D K H (f r)"
  shows "sound dev D K H (bindA (awaitA c) f)"
  by (rule sound_bind [where P = "reply_ok dev c" and K' = "\<lambda>_. K" and H' = "\<lambda>_. H"], rule fs.triple_await) (auto intro: knows_stable assms)

lemma sound_call [sound_intros]:
  "(\<And>r y. reply_ok dev c r \<Longrightarrow> conv r = Inr y \<Longrightarrow> sound dev D K H (f y)) \<Longrightarrow> sound dev D K H (bindA (call_fs c conv) f)"
  unfolding call_fs_def bindA_assoc by (intro sound_await sound_lift) auto

lemma sound_step:
  assumes "\<And>s s' y A. fs_inv (fd_root dev) A s \<Longrightarrow> knows K H s \<Longrightarrow> g s = (s', y) \<Longrightarrow>
      fs_inv (fd_root dev) A s' \<and> ids_stable s s' \<and> knows (K' y) (H' y) s'"
    and "\<And>y. sound dev D (K' y) (H' y) (f y)"
  shows "sound dev D K H (bindA (stepA g) f)"
proof (rule sound_bind [where P = "\<lambda>_. True", OF _ assms(2)], rule fs.triple_step)
  show "\<exists>T'. \<forall>U. fs_inv (fd_root dev) (T \<union> U) s \<longrightarrow> fs_inv (fd_root dev) (T' \<union> U) (fst (g s)) \<and> ids_stable s (fst (g s))
      \<and> T' = D \<and> (\<forall>y. Inr (snd (g s)) = Inr y \<longrightarrow> True \<and> knows (K' y) (H' y) (fst (g s)))"
    if "T = D \<and> knows K H s" for T s
    using that assms(1) [of _ s "fst (g s)" "snd (g s)"] by auto
qed

lemma stepA_update: "updateA g = stepA (\<lambda>s. (g s, ()))"
  by (simp add: fun_eq_iff updateA_def stepA_def)

lemma sound_update:
  assumes "\<And>s A. fs_inv (fd_root dev) A s \<Longrightarrow> knows K H s \<Longrightarrow> fs_inv (fd_root dev) A (g s) \<and> ids_stable s (g s)"
    and "sound dev D K H (f ())"
  shows "sound dev D K H (bindA (updateA g) f)"
  unfolding stepA_update
  by (rule sound_step [where K' = "\<lambda>_. K" and H' = "\<lambda>_. H"]) (use assms in \<open>auto intro: knows_stable\<close>)

lemma sound_inspect_any [sound_intros]: "(\<And>y. sound dev D K H (f y)) \<Longrightarrow> sound dev D K H (bindA (inspect g) f)"
  by (rule sound_inspect [where P = "\<lambda>_. True" and K' = "\<lambda>_. K" and H' = "\<lambda>_. H"]) auto

lemma sound_find_record: "(\<And>i. sound dev D (insert i K) H (f i)) \<Longrightarrow> sound dev D K H (bindA (inspect (find_record j)) f)"
  by (rule sound_inspect [where P = "\<lambda>_. True" and K' = "\<lambda>i. insert i K" and H' = "\<lambda>_. H"])
    (auto simp: find_record_def knows_def fs_inv_def dest: tables_facts(3) split: if_splits)

lemma sound_need_node:
  "set_option node \<subseteq> K \<Longrightarrow> (\<And>i n. node = Some i \<Longrightarrow> i \<in> K \<Longrightarrow> sound dev D K H (f (i, n))) \<Longrightarrow> sound dev D K H (bindA (need_node node) f)"
  by (cases node) (auto simp: need_node_def bindA_assoc intro!: sound_intros)

lemma sound_handle_record:
  assumes "\<And>h. sound dev D (insert (he_node h) K) (insert (fh, h) H) (f h)"
  shows "sound dev D K H (bindA (inspect (handle_record fh d node)) f)"
  by (rule sound_inspect [where P = "\<lambda>_. True", OF _ assms])
    (auto simp: handle_record_def knows_def fs_inv_def handles_ok_def handle_known_def dest!: map_of_SomeD split: option.splits if_splits)

lemma sound_record_parent:
  assumes "i \<in> K" "\<And>p. sound dev D (insert p K) H (f p)"
  shows "sound dev D K H (bindA (inspect (record_parent i)) f)"
proof (rule sound_inspect [where P = "\<lambda>_. True", OF _ assms(2)])
  show "True \<and> knows (insert p K) H s" if "fs_inv (fd_root dev) A s" "knows K H s" "record_parent i s = Inr p" for A s p
  proof -
    have "i \<in> dom (fs_store s)" using assms(1) that(2) by (auto simp: knows_def)
    moreover have "tables_ok (fd_root dev) s" using that(1) by (simp add: fs_inv_def)
    ultimately have "parent_of s i \<in> dom (fs_store s)" by (metis tables_facts(8))
    moreover have "p = parent_of s i" using that(3) by (auto simp: record_parent_def parent_of_def split: option.splits)
    ultimately show ?thesis using that(2) by (simp add: knows_def)
  qed
qed

lemma sound_grant:
  assumes "p \<in> K" "\<And>i. sound dev D (insert i K) H (f i)"
  shows "sound dev D K H (bindA (stepA (grant_record n p)) f)"
proof (rule sound_step [OF _ assms(2)], goal_cases)
  case (1 s s' i A)
  have "p \<in> dom (fs_store s)" using assms(1) 1(2) by (auto simp: knows_def)
  note grant = grant_record_inv [OF 1(1) this 1(3)]
  with knows_stable [OF 1(2) grant(2)] show ?case by (auto simp: knows_def)
qed

lemma sound_add_handle:
  assumes "i \<in> K" "\<And>fh. sound dev D K H (f fh)"
  shows "sound dev D K H (bindA (stepA (add_handle i h d)) f)"
proof (rule sound_step [OF _ assms(2)], goal_cases)
  case (1 s s' fh A)
  have "i \<in> dom (fs_store s)" using assms(1) 1(2) by (auto simp: knows_def)
  note add = add_handle_inv [OF 1(1) this 1(3)]
  with knows_stable [OF 1(2) add(2)] show ?case by auto
qed

lemma sound_update_last:
  assumes "\<And>s A. fs_inv (fd_root dev) A s \<Longrightarrow> fs_inv (fd_root dev) A (g s) \<and> ids_stable s (g s)"
  shows "sound dev D K H (updateA g)"
  unfolding sound_def by (rule fs.triple_update) (use assms in blast)

lemma sound_forget [sound_intros]: "sound dev D K H (updateA (forget i n))" "sound dev D K H (updateA (forget_all es))"
  by (rule sound_update_last, simp add: forget_inv forget_all_inv)+

lemma sound_start_finalize [sound_intros]: "sound dev D K H (f ()) \<Longrightarrow> sound dev D K H (bindA (updateA start_finalize) f)"
  by (rule sound_update) (simp_all add: start_finalize_inv)

lemma sound_remove_handle:
  "(fh, h) \<in> H \<Longrightarrow> sound dev D K H (f ()) \<Longrightarrow> sound dev D K H (bindA (updateA (remove_handle fh h)) f)"
  by (rule sound_update) (auto simp: knows_def intro: remove_handle_inv)

lemma sound_move_record:
  "m \<noteq> Some ROOT_ID \<Longrightarrow> p \<in> K \<Longrightarrow> sound dev D K H (f ()) \<Longrightarrow> sound dev D K H (bindA (updateA (move_record m p)) f)"
  by (rule sound_update, rule move_record_inv) (auto simp: knows_def)

text \<open>The operations; \<open>node\<close> is known when the request names one.\<close>

lemmas async_defs = settleA_def bindA_def returnA_def throwA_def liftA_def liftR_def getA_def stepA_def updateA_def awaitA_def

lemmas bind_norm = bindA_assoc Let_def split_beta fst_conv snd_conv

lemma sound_attributes [sound_intros]: "(\<And>a. sound dev D K H (f a)) \<Longrightarrow> sound dev D K H (bindA (attributes_of i h) f)"
  by (auto simp: attributes_of_def bind_norm intro!: sound_intros)

lemma sound_entry [sound_intros]:
  "sound dev D K H (entry_reply dev payload i)"
  "(\<And>p. sound dev D K H (f p)) \<Longrightarrow> sound dev D K H (bindA (entry_reply dev payload i) f)"
  by (auto simp: entry_reply_def bind_norm intro!: sound_intros)

lemma sound_optional_handle [sound_intros]:
  "(\<And>h. sound dev D K H (f h)) \<Longrightarrow> sound dev D K H (bindA (optional_handle g fh node) f)"
  by (auto simp: optional_handle_def bind_norm intro!: sound_intros)

lemma sound_need_method [sound_intros]: "(\<And>u. sound dev D K H (f u)) \<Longrightarrow> sound dev D K H (bindA (need_method dev m) f)"
  by (auto simp: need_method_def intro!: sound_intros)

lemmas sound_rules = sound_need_node sound_handle_record sound_grant sound_add_handle sound_remove_handle sound_find_record

lemma sound_init: "sound dev D K H (fuse_init body payload)"
  by (auto simp: fuse_init_def bind_norm intro!: sound_intros)

lemma sound_lookup: "set_option node \<subseteq> K \<Longrightarrow> sound dev D K H (fuse_lookup dev node body payload)"
  by (auto simp: fuse_lookup_def lookup_record_def bind_norm split: option.split intro!: sound_intros sound_rules)

lemma sound_fuse_forget: "sound dev D K H (fuse_forget node body)" "sound dev D K H (fuse_batch_forget body)"
  by (auto simp: fuse_forget_def fuse_batch_forget_def bind_norm split: option.split intro!: sound_intros)

lemma sound_getattr: "set_option node \<subseteq> K \<Longrightarrow> sound dev D K H (fuse_getattr dev node body payload)"
  by (auto simp: fuse_getattr_def bind_norm intro!: sound_intros sound_rules)

lemma sound_setattr: "set_option node \<subseteq> K \<Longrightarrow> sound dev D K H (fuse_setattr dev node body payload)"
  by (auto simp: fuse_setattr_def bind_norm intro!: sound_intros sound_rules)

lemma sound_readlink: "set_option node \<subseteq> K \<Longrightarrow> sound dev D K H (fuse_readlink dev node payload)"
  by (auto simp: fuse_readlink_def bind_norm intro!: sound_intros sound_rules)

lemma sound_symlink: "set_option node \<subseteq> K \<Longrightarrow> sound dev D K H (fuse_symlink dev header node body payload)"
  by (auto simp: fuse_symlink_def bind_norm intro!: sound_intros sound_rules)

lemma sound_mkdir: "set_option node \<subseteq> K \<Longrightarrow> sound dev D K H (fuse_mkdir dev header node body payload)"
  by (auto simp: fuse_mkdir_def bind_norm intro!: sound_intros sound_rules)

lemma sound_remove: "set_option node \<subseteq> K \<Longrightarrow> sound dev D K H (fuse_remove dev directory node body payload)"
  by (auto simp: fuse_remove_def bind_norm intro!: sound_intros sound_rules)

lemma sound_open: "set_option node \<subseteq> K \<Longrightarrow> sound dev D K H (fuse_open dev directory node body payload)"
  by (auto simp: fuse_open_def bind_norm intro!: sound_intros sound_rules)

lemma sound_create: "set_option node \<subseteq> K \<Longrightarrow> sound dev D K H (fuse_create dev header node body payload)"
  by (auto simp: fuse_create_def bind_norm intro!: sound_intros sound_rules)

lemma sound_read: "sound dev D K H (fuse_read dev node body room payload)"
  by (auto simp: fuse_read_def bind_norm intro!: sound_intros)

lemma sound_write: "sound dev D K H (fuse_write dev node body payload)"
  by (auto simp: fuse_write_def bind_norm split: option.split intro!: sound_intros)

lemma sound_flush: "sound dev D K H (fuse_flush dev node body payload)" "sound dev D K H (fuse_fsync dev directory node body payload)"
  by (auto simp: fuse_flush_def fuse_fsync_def bind_norm intro!: sound_intros)

lemma sound_statfs: "set_option node \<subseteq> K \<Longrightarrow> sound dev D K H (fuse_statfs dev node payload)"
  "set_option node \<subseteq> K \<Longrightarrow> sound dev D K H (fuse_access dev node body payload)"
  by (auto simp: fuse_statfs_def fuse_access_def bind_norm intro!: sound_intros sound_rules)

lemma sound_destroy: "sound dev D K H (fuse_destroy payload)"
  by (auto simp: fuse_destroy_def bind_norm intro!: sound_intros)

lemma sound_release: "sound dev D K H (fuse_release dev directory node body payload)"
  unfolding fuse_release_def bind_norm
  by (rule sound_lift, rule sound_handle_record, rule sound_inspect_any, rule sound_call, rule sound_remove_handle) (auto intro: sound_intros)

text \<open>The record a rename moves is not the root: no name finds the root.\<close>

lemma sound_moved:
  assumes "\<And>m. m \<noteq> Some ROOT_ID \<Longrightarrow> sound dev D K H (f m)" "found \<noteq> Some (fd_root dev)"
  shows "sound dev D K H (bindA (getA (\<lambda>s. case found of None \<Rightarrow> None | Some n \<Rightarrow> fs_by_node s n)) f)"
proof (rule sound_get [where P = "\<lambda>m. m \<noteq> Some ROOT_ID" and K' = "\<lambda>_. K" and H' = "\<lambda>_. H", OF _ assms(1)])
  show "(case found of None \<Rightarrow> None | Some n \<Rightarrow> fs_by_node s n) \<noteq> Some ROOT_ID \<and> knows K H s"
    if "fs_inv (fd_root dev) A s" "knows K H s" for A s
  proof -
    have tables: "tables_ok (fd_root dev) s" using that(1) by (simp add: fs_inv_def)
    have "fs_by_node s n \<noteq> Some ROOT_ID" if "found = Some n" for n
      using tables_facts(5) [OF tables] tables_facts(7) [OF tables, of n ROOT_ID] that assms(2) by auto
    thus ?thesis using that(2) by (simp split: option.splits)
  qed
qed (use assms(2) in simp)

lemma sound_rename:
  assumes "set_option node \<subseteq> K"
  shows "sound dev D K H (fuse_rename dev node body payload)"
proof -
  have rest: "sound dev D (insert p K) H (bindA (getA (\<lambda>s. case found of None \<Rightarrow> None | Some m \<Rightarrow> fs_by_node s m)) (\<lambda>mr.
      bindA (need_node node) (\<lambda>x. bindA (inspect (node_value p)) (\<lambda>np. bindA (call_fs (C_rename (snd x) old np new) as_unit) (\<lambda>_.
      bindA (updateA (move_record mr p)) (\<lambda>_. returnA payload))))))"
    if "found \<noteq> Some (fd_root dev)" for p found old new
    using assms that
    by (intro sound_moved sound_need_node sound_inspect_any sound_call sound_move_record) (auto intro: sound_intros)
  have found: "x \<noteq> Some (fd_root dev)" if "reply_ok dev (C_lookup n nm) r" "as_found r = Inr x" for r x n nm
    using that by (cases r) (auto simp: reply_ok_def wrong_reply_def)
  have lookup: "sound dev D (insert p K) H (bindA (need_node node) (\<lambda>x. bindA (call_fs (C_lookup (snd x) old) as_found) (\<lambda>found.
      bindA (getA (\<lambda>s. case found of None \<Rightarrow> None | Some m \<Rightarrow> fs_by_node s m)) (\<lambda>mr.
      bindA (need_node node) (\<lambda>x. bindA (inspect (node_value p)) (\<lambda>np. bindA (call_fs (C_rename (snd x) old np new) as_unit) (\<lambda>_.
      bindA (updateA (move_record mr p)) (\<lambda>_. returnA payload))))))))" for p old new
    using assms by (intro sound_need_node sound_call rest found) auto
  show ?thesis
    unfolding fuse_rename_def bind_norm
    apply (rule sound_need_method, rule sound_lift, rule sound_find_record, rule sound_lift)
    subgoal for u v p names
      using rest [of None p "fst names" "snd names"] lookup [of p "fst names" "snd names"]
      by (cases "node = Some p") (simp_all add: bindA_assoc split_beta)
    done
qed

text \<open>READDIR owns the records it makes while it waits for attributes, and collects them at its end, also after an error.\<close>

lemma sound_readdir_fill: "sound dev D K H (readdir_fill limit index es payload)"
  by (induction limit index es payload rule: readdir_fill.induct) (auto simp: bind_norm intro!: sound_intros)

lemma sound_collect:
  assumes "sound dev (set is) K H m"
  shows "fs.triple dev (\<lambda>T s. T = set is \<and> knows K H s) (finallyA m (collect_all is)) (\<lambda>x T s. T = {})"
proof (rule fs.triple_finally [OF assms [unfolded sound_def]])
  fix x T and s :: "('a, 'b) fs_state" assume "T = set is"
  thus "\<exists>T'. (\<forall>U. fs_inv (fd_root dev) (T \<union> U) s \<longrightarrow> fs_inv (fd_root dev) (T' \<union> U) (collect_all is s) \<and> ids_stable s (collect_all is s)) \<and> T' = {}"
    using collect_all_inv [of "fd_root dev" "is" _ s] by auto
qed

lemma sound_readdir:
  shows "sound dev {} K H (fuse_readdir dev node body room payload)"
proof -
  have fill: "sound dev (set is) K' H (bindA (liftA names) (\<lambda>xs. readdir_fill l index (g xs) p))" for "is" names l index g p K' and H :: "(nat \<times> 'b handle_entry) set"
    by (intro sound_lift sound_readdir_fill)
  have list: "sound dev {} K' H (bindA (stepA (readdir_records i listed)) (\<lambda>y. finallyA (bindA (liftA (snd y)) (\<lambda>xs. readdir_fill l index (g xs) p))
      (collect_all (fst y))))" if "i \<in> K'" for K' and H :: "(nat \<times> 'b handle_entry) set" and i listed l index g p
    unfolding sound_def
  proof (rule fs.triple_bind [where R = "\<lambda>y T s. T = set (fst y) \<and> knows K' H s"])
    show "fs.triple dev (\<lambda>T s. T = {} \<and> knows K' H s) (stepA (readdir_records i listed))
        (\<lambda>x T s. case x of Inl e \<Rightarrow> T = {} | Inr y \<Rightarrow> T = set (fst y) \<and> knows K' H s)"
    proof (rule fs.triple_step, goal_cases)
      case (1 T s)
      obtain s' "is" res where r: "readdir_records i listed s = (s', is, res)" by (cases "readdir_records i listed s") auto
      have "i \<in> dom (fs_store s)" using 1 that by (auto simp: knows_def)
      hence "fs_inv (fd_root dev) (set is \<union> U) s' \<and> ids_stable s s'" if "fs_inv (fd_root dev) U s" for U
        using readdir_records_inv [OF that _ r] by simp
      with 1 r show ?case by (intro exI [of _ "set is"]) (auto intro: knows_stable)
    qed
    show "fs.triple dev (\<lambda>T s. T = set (fst y) \<and> knows K' H s) (finallyA (bindA (liftA (snd y)) (\<lambda>xs. readdir_fill l index (g xs) p))
        (collect_all (fst y))) (\<lambda>x T s. T = {})" for y
      by (rule sound_collect [OF fill])
  qed
  show ?thesis
    unfolding fuse_readdir_def bind_norm
    by (rule sound_need_method, rule sound_lift, rule sound_lift, rule sound_handle_record, rule sound_inspect_any, rule sound_inspect_any,
        rule sound_call, rule list) simp
qed

lemma sound_seq:
  assumes "sound dev D K H m" "\<And>y. sound dev D {} {} (f y)"
  shows "sound dev D K H (bindA m f)"
  by (rule sound_bind [where P = "\<lambda>_. True" and K' = "\<lambda>_. {}" and H' = "\<lambda>_. {}"], rule fs.triple_post [OF assms(1) [unfolded sound_def]])
    (auto simp: knows_def assms(2))

lemma sound_settle:
  assumes "sound dev D K H m" "\<And>x. sound dev D {} {} (f x)"
  shows "sound dev D K H (settleA m f)"
  using assms unfolding sound_def knows_def by (auto intro: fs.triple_settle)

lemmas sound_operations = sound_init sound_lookup sound_fuse_forget sound_getattr sound_setattr sound_readlink sound_symlink sound_mkdir
  sound_remove sound_rename sound_open sound_create sound_read sound_write sound_flush sound_release sound_readdir sound_statfs sound_destroy

lemma sound_if: "sound dev D K H m \<Longrightarrow> sound dev D K H m' \<Longrightarrow> sound dev D K H (if b then m else m')"
  by simp

lemma sound_runs:
  assumes "sound dev {} {} {} m" "fs_inv (fd_root dev) U s"
  shows "\<exists>T'. fs_inv (fd_root dev) (T' \<union> U) (fst (m s)) \<and> ids_stable s (fst (m s))
    \<and> settles (snd (m s)) (fs_inv (fd_root dev)) ids_stable (reply_ok dev) (\<lambda>x T s. T = {}) T' (fst (m s))"
proof -
  have "\<forall>U s. fs_inv (fd_root dev) ({} \<union> U) s \<longrightarrow> (\<exists>T'. fs_inv (fd_root dev) (T' \<union> U) (fst (m s)) \<and> ids_stable s (fst (m s))
      \<and> settles (snd (m s)) (fs_inv (fd_root dev)) ids_stable (reply_ok dev) (\<lambda>x T s. T = {}) T' (fst (m s)))"
    using assms(1) unfolding sound_def fs.triple_def knows_def by blast
  thus ?thesis using assms(2) by simp
qed

lemma sound_dispatch: "set_option node \<subseteq> K \<Longrightarrow> sound dev {} K H (dispatch dev header node body room payload)"
  unfolding dispatch_def Let_def
  by (intro sound_if sound_seq sound_operations sound_ends; assumption)

lemma sound_process: "sound dev {} K H (process_request dev header body capacity)"
  unfolding process_request_def Let_def
  by (cases "request_field FuseInHeader header ''nodeid'' = 0")
    (auto simp: bindA_assoc split: option.split intro!: sound_find_record sound_seq [OF sound_dispatch] sound_ends)

lemma sound_answer_error: "sound dev {} K H (answer_error bufs unique e)"
  unfolding answer_error_def by (auto split: prod.split sum.split intro!: sound_intros)

lemma sound_serve: "sound dev {} K H (serve dev bufs)"
  unfolding serve_def split_beta
  by (rule sound_settle, rule sound_lift, rule sound_seq [OF sound_process])
    (auto split: option.split sum.split prod.split intro!: sound_intros sound_answer_error)

section \<open>The invariant of the device\<close>

abbreviation fs_settles :: "'n fs_device \<Rightarrow> ('n, 'h, 'a) fs_async \<Rightarrow> nat set \<Rightarrow> ('n, 'h) fs_state \<Rightarrow> bool" where
  "fs_settles dev p T s \<equiv> settles p (fs_inv (fd_root dev)) ids_stable (reply_ok dev) (\<lambda>x T s. T = {}) T s"

definition task_ok :: "'n fs_device \<Rightarrow> ('n, 'h, 'a) fs_async \<Rightarrow> nat set \<Rightarrow> ('n, 'h) fs_state \<Rightarrow> bool" where
  "task_ok dev p T s \<longleftrightarrow> (\<exists>s0. ids_stable s0 s \<and> fs_settles dev p T s0)"

lemma task_ok_now: "fs_settles dev p T s \<Longrightarrow> task_ok dev p T s"
  unfolding task_ok_def using ids_stable_refl by blast

lemma task_ok_later: "task_ok dev p T s \<Longrightarrow> ids_stable s s' \<Longrightarrow> task_ok dev p T s'"
  unfolding task_ok_def using ids_stable_trans by blast

lemma task_ok_end: "task_ok dev (Return x) T s \<Longrightarrow> T = {}" "task_ok dev (Throw e) T s \<Longrightarrow> T = {}"
  by (auto simp: task_ok_def)

lemma task_ok_resume:
  assumes "task_ok dev (Await c k) T s" "fs_inv (fd_root dev) (T \<union> U) s" "reply_ok dev c r"
  shows "\<exists>T'. fs_inv (fd_root dev) (T' \<union> U) (fst (k r s)) \<and> ids_stable s (fst (k r s)) \<and> task_ok dev (snd (k r s)) T' (fst (k r s))"
proof -
  obtain s0 where "ids_stable s0 s" "fs_settles dev (Await c k) T s0" using assms(1) unfolding task_ok_def by blast
  then obtain T' where "fs_inv (fd_root dev) (T' \<union> U) (fst (k r s))" "ids_stable s (fst (k r s))" "fs_settles dev (snd (k r s)) T' (fst (k r s))"
    using assms(2,3) unfolding settles_Await by meson
  thus ?thesis using task_ok_now by blast
qed

text \<open>\<open>Ts q\<close> is what the task of queue \<open>q\<close> owns.\<close>

definition system_inv :: "'n fs_device \<Rightarrow> (nat \<Rightarrow> nat set) \<Rightarrow> ('n, 'h) fs_state
    \<Rightarrow> (nat \<Rightarrow> (vq_buffer list \<times> ('n, 'h, vq_buffer list \<times> nat) fs_async) option) \<Rightarrow> bool" where
  "system_inv dev Ts s tasks \<longleftrightarrow> fs_inv (fd_root dev) (\<Union>q. Ts q) s \<and> (\<forall>q. tasks q = None \<longrightarrow> Ts q = {})
     \<and> (\<forall>q bufs p. tasks q = Some (bufs, p) \<longrightarrow> task_ok dev p (Ts q) s)"

lemma owned_split: "(\<Union>q'. Ts q') = Ts q \<union> (\<Union>q' \<in> - {q}. Ts q')"
  by auto

text \<open>One task runs on, another part of the device does a step, or a task ends.\<close>

lemma system_inv_task:
  assumes inv: "system_inv dev Ts s tasks"
    and run: "fs_inv (fd_root dev) (T' \<union> (\<Union>q' \<in> - {q}. Ts q')) s'" "ids_stable s s'" "task_ok dev p T' s'"
  shows "system_inv dev (Ts(q := T')) s' (tasks(q \<mapsto> (bufs, p)))"
proof -
  have "(\<Union>q'. (Ts(q := T')) q') = T' \<union> (\<Union>q' \<in> - {q}. Ts q')" by (auto split: if_splits)
  moreover have "task_ok dev p' (Ts q') s'" if "tasks q' = Some (bufs', p')" for q' bufs' p'
    using inv that task_ok_later [OF _ run(2)] unfolding system_inv_def by blast
  ultimately show ?thesis using inv run(1,3) by (auto simp: system_inv_def)
qed

lemma system_inv_other:
  assumes "system_inv dev Ts s tasks" "\<And>A. fs_inv (fd_root dev) A s \<Longrightarrow> fs_inv (fd_root dev) A s' \<and> ids_stable s s'"
  shows "system_inv dev Ts s' tasks \<and> ids_stable s s'"
proof -
  have step: "fs_inv (fd_root dev) (\<Union>q. Ts q) s'" "ids_stable s s'"
    using assms unfolding system_inv_def by blast+
  moreover have "task_ok dev p (Ts q) s'" if "tasks q = Some (bufs, p)" for q bufs p
    using assms(1) that task_ok_later [OF _ step(2)] unfolding system_inv_def by blast
  ultimately show ?thesis using assms(1) by (simp add: system_inv_def)
qed

lemma system_inv_end:
  assumes "system_inv dev Ts s tasks" "tasks q = Some (bufs, p)" "p = Return x \<or> p = Throw e"
  shows "system_inv dev Ts s (tasks(q := None))"
proof -
  have "task_ok dev p (Ts q) s" using assms(1,2) unfolding system_inv_def by blast
  hence "Ts q = {}" using assms(3) by (auto dest: task_ok_end)
  with assms(1) show ?thesis by (simp add: system_inv_def)
qed

lemma system_inv_step:
  assumes "fs_step dev y y'" "system_inv dev Ts (sy_fs y) (sy_tasks y)"
  shows "\<exists>Ts'. system_inv dev Ts' (sy_fs y') (sy_tasks y') \<and> ids_stable (sy_fs y) (sy_fs y')"
  using assms(1)
proof cases
  case (accept q bufs s p)
  have "Ts q = {}" using assms(2) accept(2) unfolding system_inv_def by blast
  hence "fs_inv (fd_root dev) (\<Union>q' \<in> - {q}. Ts q') (sy_fs y)"
    using assms(2) owned_split [of Ts q] unfolding system_inv_def by simp
  then obtain T' where "fs_inv (fd_root dev) (T' \<union> (\<Union>q' \<in> - {q}. Ts q')) s" "ids_stable (sy_fs y) s" "fs_settles dev p T' s"
    using sound_runs [OF sound_serve, of dev _ "sy_fs y" bufs] unfolding accept(4) fst_conv snd_conv by blast
  with system_inv_task [OF assms(2) this(1,2) task_ok_now] accept(1) show ?thesis by auto
next
  case (resume q bufs c k r s p)
  have task: "task_ok dev (Await c k) (Ts q) (sy_fs y)"
    using assms(2) resume(2) unfolding system_inv_def by blast
  have "fs_inv (fd_root dev) (Ts q \<union> (\<Union>q' \<in> - {q}. Ts q')) (sy_fs y)"
    using assms(2) owned_split [of Ts q] unfolding system_inv_def by simp
  from task_ok_resume [OF task this resume(3)] resume(5)
  obtain T' where "fs_inv (fd_root dev) (T' \<union> (\<Union>q' \<in> - {q}. Ts q')) s" "ids_stable (sy_fs y) s" "task_ok dev p T' s"
    by auto
  with system_inv_task [OF assms(2) this] resume(1) show ?thesis by auto
next
  case (finish q bufs bufs' n)
  from system_inv_end [OF assms(2) finish(2)] finish(1) ids_stable_refl show ?thesis by auto
next
  case (reject q bufs e)
  from system_inv_end [OF assms(2) reject(2)] reject(1) ids_stable_refl show ?thesis by auto
next
  case close
  from system_inv_other [OF assms(2) start_finalize_inv] show ?thesis unfolding close by auto
next
  case (finalizing c r)
  from system_inv_other [OF assms(2) finalize_reply_inv] show ?thesis unfolding finalizing(1) by auto
qed

lemma new_state_inv: "fs_inv root {} (new_fs_state root)"
  by (auto simp: fs_inv_def tables_ok_def handles_ok_def kids_ok_def kids_def granted_ok_def no_garbage_def new_fs_state_def parent_of_def
      ROOT_ID_def record_unused_def split: if_splits)

lemma system_inv_reachable: "fs_reachable dev y \<Longrightarrow> \<exists>Ts. system_inv dev Ts (sy_fs y) (sy_tasks y)"
proof (induction rule: fs_reachable.induct)
  case start
  show ?case
    by (intro exI [of _ "\<lambda>_. {}"]) (simp add: system_inv_def fs_start_def new_state_inv)
next
  case (step y y')
  thus ?case using system_inv_step by blast
qed

lemma kids_witnessed: "kids_ok s \<Longrightarrow> fs_store s i = Some r \<Longrightarrow> nr_children r \<noteq> 0 \<Longrightarrow> \<exists>j \<in> set (fs_records s). j \<noteq> ROOT_ID \<and> parent_of s j = i"
  by (auto simp: kids_ok_def kids_def card_gt_0_iff intro: ccontr)

lemma fs_steps_stable:
  assumes "(fs_step dev)\<^sup>*\<^sup>* y y'" "system_inv dev Ts (sy_fs y) (sy_tasks y)"
  shows "ids_stable (sy_fs y) (sy_fs y')"
proof -
  have "\<exists>Ts'. system_inv dev Ts' (sy_fs y') (sy_tasks y') \<and> ids_stable (sy_fs y) (sy_fs y')"
    using assms(1)
  proof (induction rule: rtranclp_induct)
    case base
    show ?case using assms(2) ids_stable_refl by blast
  next
    case (step y' y'')
    then obtain Ts' where "system_inv dev Ts' (sy_fs y') (sy_tasks y')" "ids_stable (sy_fs y) (sy_fs y')" by blast
    with system_inv_step [OF step.hyps(2)] show ?case using ids_stable_trans by blast
  qed
  thus ?thesis by blast
qed

text \<open>A request served alone: the replies the host gives in turn, up to the release of the chain.\<close>

fun serve_alone :: "'n fs_device \<Rightarrow> ('n, 'h) fs_state \<Rightarrow> ('n, 'h, 'a) fs_async \<Rightarrow> ('n, 'h) fs_reply list \<Rightarrow> (('n, 'h) fs_state \<times> 'a) option" where
  "serve_alone dev s (Return x) rs = (if rs = [] then Some (s, x) else None)"
| "serve_alone dev s (Await c k) (r # rs) =
     (if reply_ok dev c r \<and> c \<noteq> C_finalized then serve_alone dev (fst (k r s)) (snd (k r s)) rs else None)"
| "serve_alone dev s _ _ = None"

lemma serve_alone_steps:
  "serve_alone dev s p rs = Some (s', bufs', n) \<Longrightarrow> fs_reachable dev y \<Longrightarrow> sy_fs y = s \<Longrightarrow> sy_tasks y q = Some (bufs, p)
   \<Longrightarrow> fs_reachable dev (y\<lparr>sy_fs := s', sy_tasks := (sy_tasks y)(q := None), sy_released := sy_released y @ [(bufs, bufs', n)]\<rparr>)"
proof (induction dev s p rs arbitrary: y rule: serve_alone.induct)
  case (1 dev s x rs)
  hence eq: "x = (bufs', n)" "s' = sy_fs y" and task: "sy_tasks y q = Some (bufs, Return (bufs', n))" by (auto split: if_splits)
  show ?case using fs_reachable.step [OF "1.prems"(2) fs_step.finish [OF task]] by (simp add: eq fun_upd_def)
next
  case (2 dev s c k r rs)
  let ?y = "y\<lparr>sy_fs := fst (k r s), sy_tasks := (sy_tasks y)(q \<mapsto> (bufs, snd (k r s)))\<rparr>"
  have ok: "reply_ok dev c r" "c \<noteq> C_finalized" "serve_alone dev (fst (k r s)) (snd (k r s)) rs = Some (s', bufs', n)"
    using "2.prems"(1) by (auto split: if_splits)
  have "fs_step dev y ?y"
    using "2.prems"(3,4) ok by (intro fs_step.resume [where c = c and k = k and r = r]) (simp_all add: finalized_ok_def)
  hence "fs_reachable dev ?y" by (rule fs_reachable.step [OF "2.prems"(2)])
  with "2.IH" [OF _ ok(3), of ?y] ok show ?case by (simp add: fun_upd_def cong: if_cong)
qed auto

lemma served_alone:
  assumes "fs_reachable dev y" "sy_tasks y q = None" "q < 2" "serve dev bufs (sy_fs y) = (s, p)" "serve_alone dev s p rs = Some (s', bufs', n)"
  shows "fs_reachable dev (y\<lparr>sy_fs := s', sy_released := sy_released y @ [(bufs, bufs', n)]\<rparr>)"
proof -
  have "fs_reachable dev (y\<lparr>sy_fs := s, sy_tasks := (sy_tasks y)(q \<mapsto> (bufs, p))\<rparr>)"
    using fs_reachable.step [OF assms(1) fs_step.accept] assms by blast
  from serve_alone_steps [OF assms(5) this, of q bufs] show ?thesis using assms(2) by (simp add: fun_upd_idem)
qed

end
