(* ===== verification/Fs_Answers.thy ===== *)
theory Fs_Answers
  imports Fs_Safety Buffer_Logic
begin

text \<open>
  What the filesystem device gives back to the guest: how a response is spread over the buffers of a chain, what every released chain holds,
  what a page of directory entries holds, and the requests that end badly.
\<close>

section \<open>Responses\<close>

text \<open>Whatever the host replies, and whatever else goes on: a computation ends as its end demands.\<close>

interpretation any: concurrent "\<lambda>_ _. True" "\<lambda>_ _. True" "\<lambda>_ _. True"
  by unfold_locales auto

lemma any_settles: "settles p (\<lambda>_ _. True) (\<lambda>_ _. True) (\<lambda>_ _. True) (\<lambda>_ _ _. True) T s"
proof (induction p arbitrary: T s)
  case (Await q k)
  have "settles (snd (k r s')) (\<lambda>_ _. True) (\<lambda>_ _. True) (\<lambda>_ _. True) (\<lambda>_ _ _. True) T (fst (k r s'))" for r s'
  proof -
    obtain a b where k: "k r s' = (a, b)" by fastforce
    hence "(a, b) \<in> range (k r)" by (metis rangeI)
    from Await.IH [OF _ this, of b T a] k show ?thesis by simp
  qed
  thus ?case by (auto simp: settles_Await)
qed auto

definition ends_with :: "('n, 'h, 'a) fs_fun \<Rightarrow> ('a result \<Rightarrow> bool) \<Rightarrow> bool" where
  "ends_with m Q \<longleftrightarrow> any.triple (\<lambda>_ _. True) m (\<lambda>x _ _. Q x)"

lemma ends_with_settle: "(\<And>x. ends_with (f x) Q) \<Longrightarrow> ends_with (settleA m f) Q"
  unfolding ends_with_def
  by (rule any.triple_settle [where R = "\<lambda>_ _ _. True"]) (auto simp: any.triple_def any_settles)

lemma ends_with_bind_any: "(\<And>x. ends_with (f x) Q) \<Longrightarrow> (\<And>e. Q (Inl e)) \<Longrightarrow> ends_with (bindA m f) Q"
  unfolding bindA_def by (rule ends_with_settle) (auto split: sum.split simp: ends_with_def intro: any.triple_throw)

lemma ends_with_bind: "ends_with m R \<Longrightarrow> (\<And>x. R (Inr x) \<Longrightarrow> ends_with (f x) Q) \<Longrightarrow> (\<And>e. R (Inl e) \<Longrightarrow> Q (Inl e)) \<Longrightarrow> ends_with (bindA m f) Q"
  unfolding ends_with_def
proof (rule any.triple_bind [where R = "\<lambda>x _ _. R (Inr x)"])
  assume m: "any.triple (\<lambda>_ _. True) m (\<lambda>x _ _. R x)" and e: "\<And>e. R (Inl e) \<Longrightarrow> Q (Inl e)"
  show "any.triple (\<lambda>_ _. True) m (\<lambda>x _ _. case x of Inl e \<Rightarrow> Q (Inl e) | Inr y \<Rightarrow> R (Inr y))"
    by (rule any.triple_post [OF m]) (auto split: sum.splits intro: e)
next
  assume f: "\<And>x. R (Inr x) \<Longrightarrow> any.triple (\<lambda>_ _. True) (f x) (\<lambda>x _ _. Q x)"
  show "any.triple (\<lambda>_ _. R (Inr y)) (f y) (\<lambda>x _ _. Q x)" for y
    using f [of y] by (cases "R (Inr y)") (auto simp: any.triple_def)
qed

lemma ends_with_settle_known: "ends_with m R \<Longrightarrow> (\<And>x. R x \<Longrightarrow> ends_with (f x) Q) \<Longrightarrow> ends_with (settleA m f) Q"
  unfolding ends_with_def
proof (rule any.triple_settle)
  assume m: "any.triple (\<lambda>_ _. True) m (\<lambda>x _ _. R x)"
  show "any.triple (\<lambda>_ _. True) m (\<lambda>x _ _. R x)" by (rule m)
next
  assume f: "\<And>x. R x \<Longrightarrow> any.triple (\<lambda>_ _. True) (f x) (\<lambda>x _ _. Q x)"
  show "any.triple (\<lambda>_ _. R x) (f x) (\<lambda>x _ _. Q x)" for x
    using f [of x] by (cases "R x") (auto simp: any.triple_def)
qed

lemma ends_with_ends: "Q (Inr x) \<Longrightarrow> ends_with (returnA x) Q" "Q (Inl e) \<Longrightarrow> ends_with (throwA e) Q"
  "Q r \<Longrightarrow> ends_with (liftA r) Q" "(\<And>y. rr = Some y \<Longrightarrow> Q y) \<Longrightarrow> ends_with (liftR rr) Q"
  unfolding ends_with_def by (rule any.triple_return any.triple_throw any.triple_lift any.triple_liftR; simp)+

text \<open>The bytes of a response are spread over the writable buffers from the front; the rest keeps what it had.\<close>

definition scattered :: "vq_buffer list \<Rightarrow> vq_buffer list \<Rightarrow> bytes \<Rightarrow> bool" where
  "scattered bufs bufs' bs \<longleftrightarrow>
     map vb_writable bufs' = map vb_writable bufs \<and> map (length \<circ> vb_array) bufs' = map (length \<circ> vb_array) bufs
     \<and> concatenate bufs' False = concatenate bufs False
     \<and> length bs \<le> response_capacity bufs \<and> concatenate bufs' True = bs @ drop (length bs) (concatenate bufs True)"

lemma concatenate_Cons: "concatenate (b # bs) w = (if vb_writable b = w then vb_array b else []) @ concatenate bs w"
  by (simp add: concatenate_def)

lemma response_capacity_Cons: "response_capacity (b # bs) = (if vb_writable b then length (vb_array b) else 0) + response_capacity bs"
  by (simp add: response_capacity_def)

lemma scatter_loop_fits:
  "scatter_loop bufs rest = (bufs', []) \<Longrightarrow> scattered bufs bufs' rest"
proof (induction bufs rest arbitrary: bufs' rule: scatter_loop.induct)
  case (1 rest)
  thus ?case by (simp add: scattered_def concatenate_def)
next
  case (2 b bs rest)
  show ?case
  proof (cases "vb_writable b")
    case False
    with "2.prems" obtain bs' where "scatter_loop bs rest = (bs', [])" "bufs' = b # bs'" by (auto split: prod.splits)
    with "2.IH"(1) [OF False] False show ?thesis
      by (auto simp: scattered_def concatenate_Cons response_capacity_Cons)
  next
    case True
    define n where "n = min (length (vb_array b)) (length rest)"
    show ?thesis
    proof (cases "n = 0")
      case True
      with "2.prems" \<open>vb_writable b\<close> have "rest = []" "bufs' = b # bs" by (simp_all add: n_def Let_def split: if_splits)
      thus ?thesis by (simp add: scattered_def)
    next
      case False
      with "2.prems" True obtain bs' where bs': "scatter_loop bs (drop n rest) = (bs', [])"
          "bufs' = b\<lparr>vb_array := overwrite (vb_array b) 0 (take n rest)\<rparr> # bs'"
        by (auto simp: n_def Let_def split: prod.splits if_splits)
      have IH: "scattered bs bs' (drop n rest)" using "2.IH"(2) [OF _ n_def] True False bs'(1) by simp
      have len: "n \<le> length (vb_array b)" "n \<le> length rest" by (simp_all add: n_def)
      have array: "overwrite (vb_array b) 0 (take n rest) = take n rest @ drop n (vb_array b)"
        using len by (simp add: overwrite_def)
      have "n < length (vb_array b) \<longrightarrow> drop n rest = []" by (auto simp: n_def)
      thus ?thesis
        using IH True len array by (cases "n = length (vb_array b)")
          (auto simp: scattered_def bs'(2) concatenate_Cons response_capacity_Cons)
    qed
  qed
qed

lemma scatter_loop_fills:
  "\<forall>b \<in> set bufs. vb_writable b \<longrightarrow> vb_array b \<noteq> [] \<Longrightarrow> length rest \<le> response_capacity bufs \<Longrightarrow> \<exists>bufs'. scatter_loop bufs rest = (bufs', [])"
proof (induction bufs rest rule: scatter_loop.induct)
  case (1 rest)
  thus ?case by (simp add: response_capacity_def)
next
  case (2 b bs rest)
  show ?case
  proof (cases "vb_writable b")
    case False
    with 2 show ?thesis by (auto simp: response_capacity_Cons split: prod.split)
  next
    case True
    define n where "n = min (length (vb_array b)) (length rest)"
    show ?thesis
    proof (cases "n = 0")
      case True
      with "2.prems"(1) \<open>vb_writable b\<close> have "rest = []" by (auto simp: n_def min_def split: if_splits)
      thus ?thesis using \<open>vb_writable b\<close> by simp
    next
      case False
      have "length (drop n rest) \<le> response_capacity bs"
        using "2.prems"(2) True by (auto simp: n_def response_capacity_Cons)
      with "2.IH"(2) [OF _ n_def] True False "2.prems"(1) show ?thesis
        by (auto simp: n_def [symmetric] Let_def)
    qed
  qed
qed

lemma scatter_loop_shape:
  "scatter_loop bufs rest = (bufs', rest') \<Longrightarrow> map vb_writable bufs' = map vb_writable bufs
     \<and> map (length \<circ> vb_array) bufs' = map (length \<circ> vb_array) bufs \<and> concatenate bufs' False = concatenate bufs False"
proof (induction bufs rest arbitrary: bufs' rest' rule: scatter_loop.induct)
  case (2 b bs rest)
  show ?case
  proof (cases "vb_writable b")
    case False
    with "2.prems" obtain bs' where "scatter_loop bs rest = (bs', rest')" "bufs' = b # bs'" by (auto split: prod.splits)
    with "2.IH"(1) [OF False] False show ?thesis by (auto simp: concatenate_Cons)
  next
    case True
    define n where "n = min (length (vb_array b)) (length rest)"
    show ?thesis
    proof (cases "n = 0")
      case True
      with "2.prems" \<open>vb_writable b\<close> have "bufs' = b # bs" by (simp add: n_def Let_def split: if_splits)
      thus ?thesis by simp
    next
      case False
      with "2.prems" True obtain bs' where bs': "scatter_loop bs (drop n rest) = (bs', rest')"
          "bufs' = b\<lparr>vb_array := overwrite (vb_array b) 0 (take n rest)\<rparr> # bs'"
        by (simp add: n_def [symmetric] Let_def split: prod.splits)
      with "2.IH"(2) [OF _ n_def] True False show ?thesis
        by (auto simp: concatenate_Cons n_def length_overwrite)
    qed
  qed
qed simp

section \<open>The bytes of a response\<close>

lemma put_value_holds:
  assumes "holds bs b" "encode_fields fs kvs = Inr xs" "distinct (map fst fs)"
  shows "gives (put_value b fs (Inr kvs)) (holds (bs @ xs))"
proof -
  have "put_value b fs (Inr kvs) = bytes_put b (Struct fs) (Obj kvs)"
    by (simp add: put_value_def bytes_put_def bindR_def split: option.splits)
  thus ?thesis using put_holds [OF assms(1) struct_encode [OF assms(3,2)]] by simp
qed

definition response_header_bytes :: "nat \<Rightarrow> int \<Rightarrow> nat \<Rightarrow> bytes" where
  "response_header_bytes len error unique = scalar_encode U32LE (int len) @ scalar_encode I32LE error @ scalar_encode U64LE (int unique)"

lemma header_encoded: "encode_fields FuseOutHeader (response_header len error unique) = Inr (response_header_bytes len error unique)"
  "distinct (map fst FuseOutHeader)" "layout_size FuseOutHeader = 16"
  by (simp_all add: FuseOutHeader_def response_header_def response_header_bytes_def layout_size_def)

lemma new_holds: "0 < n \<Longrightarrow> holds [] (new_bytes n)"
  by (simp add: holds_def new_bytes_growable)

lemma build_response_bytes: "build_response unique error payload = Some (Inr (response_header_bytes (16 + length payload) error unique @ payload))"
proof -
  have "gives (put_value (new_bytes (16 + length payload)) FuseOutHeader (Inr (response_header (16 + length payload) error unique)))
      (holds (response_header_bytes (16 + length payload) error unique))"
    using put_value_holds [OF new_holds header_encoded(1,2)] by simp
  moreover have "gives (append_bytes b payload) (holds (xs @ payload))" if "holds xs b" for b xs
    using append_holds [OF that] .
  ultimately show ?thesis by (fastforce simp: build_response_def gives_def header_encoded(3) bindR_def holds_def)
qed

lemma error_response_bytes:
  "bindR (put_value (new_bytes (layout_size FuseOutHeader)) FuseOutHeader (Inr (response_header (layout_size FuseOutHeader) error unique)))
     (\<lambda>b. Some (Inr (bytes_array b))) = Some (Inr (response_header_bytes 16 error unique))"
  using put_value_holds [OF new_holds header_encoded(1,2), of 16 16 error unique]
  by (auto simp: gives_def holds_def header_encoded(3) bindR_def)


lemma bindA_liftR [simp]: "bindA (liftR (Some (Inr x))) f = f x"
  by (simp add: fun_eq_iff bindA_def liftR_def settleA_def)

section \<open>What is given back\<close>

text \<open>
  A chain is answered when it is given back unchanged and empty (a request without a response), or when the bytes counted as written are a
  response to it: its length, an error, the request's \<open>unique\<close>, and a payload.  No buffer is resized, and what the guest wrote stays as it was.
\<close>

definition answered :: "vq_buffer list \<Rightarrow> vq_buffer list \<Rightarrow> nat \<Rightarrow> bool" where
  "answered bufs bufs' n \<longleftrightarrow> (n = 0 \<and> bufs' = bufs) \<or>
     (map vb_writable bufs' = map vb_writable bufs \<and> map (length \<circ> vb_array) bufs' = map (length \<circ> vb_array) bufs
      \<and> concatenate bufs' False = concatenate bufs False
      \<and> (\<exists>error payload. n = 16 + length payload \<and> n \<le> response_capacity bufs
           \<and> take n (concatenate bufs' True) = response_header_bytes n error (request_unique bufs) @ payload))"

definition no_empty_buffer :: "vq_buffer list \<Rightarrow> bool" where
  "no_empty_buffer bufs \<longleftrightarrow> (\<forall>b \<in> set bufs. vb_writable b \<longrightarrow> vb_array b \<noteq> [])"

definition same_shape :: "vq_buffer list \<Rightarrow> vq_buffer list \<Rightarrow> bool" where
  "same_shape bufs bufs' \<longleftrightarrow> map vb_writable bufs' = map vb_writable bufs
     \<and> map (length \<circ> vb_array) bufs' = map (length \<circ> vb_array) bufs \<and> concatenate bufs' False = concatenate bufs False"

lemma same_shape_facts:
  assumes "same_shape bufs bufs'"
  shows "response_capacity bufs' = response_capacity bufs" "no_empty_buffer bufs' \<longleftrightarrow> no_empty_buffer bufs"
proof -
  have "map vb_writable bufs' = map vb_writable bufs \<Longrightarrow> map (length \<circ> vb_array) bufs' = map (length \<circ> vb_array) bufs
      \<Longrightarrow> response_capacity bufs' = response_capacity bufs \<and> (no_empty_buffer bufs' \<longleftrightarrow> no_empty_buffer bufs)"
  proof (induction bufs' arbitrary: bufs)
    case (Cons b' bs')
    then obtain b bs where bs: "bufs = b # bs" by (cases bufs) auto
    with Cons.prems have "vb_writable b' = vb_writable b" "length (vb_array b') = length (vb_array b)" by simp_all
    moreover from this(2) have "vb_array b' = [] \<longleftrightarrow> vb_array b = []" by (metis length_0_conv)
    moreover have "response_capacity bs' = response_capacity bs \<and> (no_empty_buffer bs' \<longleftrightarrow> no_empty_buffer bs)"
      using Cons.IH [of bs] Cons.prems bs by simp
    ultimately show ?case by (simp add: bs response_capacity_Cons no_empty_buffer_def)
  qed (simp add: no_empty_buffer_def)
  with assms show "response_capacity bufs' = response_capacity bufs" "no_empty_buffer bufs' \<longleftrightarrow> no_empty_buffer bufs"
    unfolding same_shape_def by blast+
qed

lemma scatter_response_result:
  assumes "scatter_response bufs resp = (bufs', r)"
  shows "same_shape bufs bufs'"
    "r = Inr u \<Longrightarrow> length resp \<le> response_capacity bufs \<and> take (length resp) (concatenate bufs' True) = resp"
    "r = Inl e \<Longrightarrow> length resp \<le> response_capacity bufs \<Longrightarrow> \<not> no_empty_buffer bufs"
proof -
  obtain rest where loop: "scatter_loop bufs resp = (bufs', rest)" "r = (if rest \<noteq> [] then Inl (Error ''guest response buffers are too small'') else Inr ())"
    using assms by (auto simp: scatter_response_def split: prod.splits)
  show "same_shape bufs bufs'" using scatter_loop_shape [OF loop(1)] by (simp add: same_shape_def)
  show "length resp \<le> response_capacity bufs \<and> take (length resp) (concatenate bufs' True) = resp" if "r = Inr u"
    using scatter_loop_fits [of bufs resp bufs'] loop that by (simp add: scattered_def split: if_splits)
  show "\<not> no_empty_buffer bufs" if "r = Inl e" "length resp \<le> response_capacity bufs"
    using scatter_loop_fills [of bufs resp] loop that by (auto simp: no_empty_buffer_def split: if_splits)
qed

lemma length_response_header_bytes [simp]: "length (response_header_bytes len error unique) = 16"
  by (simp add: response_header_bytes_def)

lemma answered_response:
  assumes "same_shape bufs bufs0" "scatter_response bufs0 (response_header_bytes (16 + length payload) error (request_unique bufs) @ payload) = (bufs', Inr u)"
  shows "answered bufs bufs' (16 + length payload)"
  using scatter_response_result [OF assms(2)] same_shape_facts [OF assms(1)] assms(1)
  unfolding answered_def same_shape_def by (intro disjI2) auto

text \<open>How serving a chain ends.\<close>

definition chain_ends :: "vq_buffer list \<Rightarrow> (vq_buffer list \<times> nat) result \<Rightarrow> bool" where
  "chain_ends bufs x = (case x of Inl e \<Rightarrow> \<not> no_empty_buffer bufs | Inr (bufs', n) \<Rightarrow> answered bufs bufs' n)"

lemma answer_error_room: "16 \<le> response_capacity bufs \<Longrightarrow> answer_error bufs unique e =
    (case scatter_response bufs (response_header_bytes 16 (- int (error_number e)) unique) of
       (bufs', Inl e') \<Rightarrow> throwA e'
     | (bufs', Inr _) \<Rightarrow> returnA (bufs', 16))"
  using error_response_bytes by (simp add: answer_error_def header_encoded(3))

lemma answer_error_ends:
  assumes "same_shape bufs bufs0" "bufs0 = bufs \<or> 16 \<le> response_capacity bufs"
  shows "ends_with (answer_error bufs0 (request_unique bufs) e) (chain_ends bufs)"
proof (cases "response_capacity bufs0 < 16")
  case True
  with assms same_shape_facts(1) [OF assms(1)] have "bufs0 = bufs" by simp
  with True show ?thesis
    by (auto simp: answer_error_def header_encoded(3) chain_ends_def answered_def intro: ends_with_ends)
next
  case False
  obtain bufs' r where scatter: "scatter_response bufs0 (response_header_bytes 16 (- int (error_number e)) (request_unique bufs)) = (bufs', r)"
    by fastforce
  have "answered bufs bufs' 16" if "r = Inr u" for u
    using answered_response [OF assms(1), of "[]" "- int (error_number e)" bufs' u] scatter that by simp
  moreover have "\<not> no_empty_buffer bufs" if "r = Inl x" for x
    using scatter_response_result(3) [OF scatter that] False same_shape_facts [OF assms(1)] by simp
  ultimately show ?thesis using False by (cases r) (simp_all add: answer_error_room scatter chain_ends_def ends_with_ends)
qed

lemma process_room: "ends_with (process_request dev header body capacity) (\<lambda>x. \<forall>p. x = Inr (Some p) \<longrightarrow> 16 \<le> capacity)"
proof -
  have "int (bb_length p) > int capacity - 16" if "\<not> 16 \<le> capacity" for p :: bytebuf
    using that by simp
  thus ?thesis
    unfolding process_request_def Let_def header_encoded(3)
    by (intro ends_with_bind_any) (auto split: option.split intro!: ends_with_ends)
qed

text \<open>What is sent back when a request has succeeded.\<close>

definition response_of :: "vq_buffer list \<Rightarrow> bytes \<Rightarrow> bool" where
  "response_of bufs resp \<longleftrightarrow> 16 \<le> response_capacity bufs \<and> (\<exists>payload. resp = response_header_bytes (16 + length payload) 0 (request_unique bufs) @ payload)"

lemma response_ends:
  assumes "response_of bufs resp"
  shows "ends_with (case scatter_response bufs resp of
      (bufs', Inl e) \<Rightarrow> answer_error bufs' (request_unique bufs) e
    | (bufs', Inr _) \<Rightarrow> returnA (bufs', length resp)) (chain_ends bufs)"
proof -
  obtain payload where resp: "resp = response_header_bytes (16 + length payload) 0 (request_unique bufs) @ payload" "16 \<le> response_capacity bufs"
    using assms by (auto simp: response_of_def)
  obtain bufs' r where scatter: "scatter_response bufs resp = (bufs', r)" by fastforce
  have "answered bufs bufs' (length resp)" if "r = Inr u" for u
    using answered_response [of bufs bufs payload 0 bufs' u] scatter resp(1) that by (simp add: same_shape_def)
  moreover have "ends_with (answer_error bufs' (request_unique bufs) e) (chain_ends bufs)" for e
    using answer_error_ends [OF scatter_response_result(1) [OF scatter]] resp(2) by blast
  ultimately show ?thesis
    by (auto simp: scatter chain_ends_def intro!: ends_with_ends split: sum.split)
qed

lemma serve_ends: "ends_with (serve dev bufs) (chain_ends bufs)"
  unfolding serve_def
proof (rule ends_with_settle_known)
  have respond: "ends_with (case res of
        None \<Rightarrow> returnA None
      | Some p \<Rightarrow> bindA (liftR (build_response (request_unique bufs) 0 (bytes_array p))) (\<lambda>resp. returnA (Some resp)))
      (\<lambda>x. \<forall>resp. x = Inr (Some resp) \<longrightarrow> response_of bufs resp)"
    if "\<forall>p. Inr res = Inr (Some p) \<longrightarrow> 16 \<le> response_capacity bufs" for res :: "bytebuf option"
    using that by (auto simp: build_response_bytes response_of_def split: option.split intro!: ends_with_ends)
  show "ends_with (bindA (liftA (checked_request bufs)) (\<lambda>(header, body).
      bindA (process_request dev header body (response_capacity bufs)) (\<lambda>res.
      case res of
        None \<Rightarrow> returnA None
      | Some p \<Rightarrow> bindA (liftR (build_response (request_unique bufs) 0 (bytes_array p))) (\<lambda>resp. returnA (Some resp)))))
    (\<lambda>x. \<forall>resp. x = Inr (Some resp) \<longrightarrow> response_of bufs resp)"
    by (intro ends_with_bind_any) (auto intro!: ends_with_bind [OF process_room] respond)
next
  fix x :: "bytes option result"
  assume "\<forall>resp. x = Inr (Some resp) \<longrightarrow> response_of bufs resp"
  moreover have "ends_with (returnA (bufs, 0)) (chain_ends bufs)" by (rule ends_with_ends) (simp add: chain_ends_def answered_def)
  moreover have "ends_with (answer_error bufs (request_unique bufs) e) (chain_ends bufs)" for e
    by (rule answer_error_ends) (simp_all add: same_shape_def)
  ultimately show "ends_with (case x of Inl e \<Rightarrow> answer_error bufs (request_unique bufs) e | Inr None \<Rightarrow> returnA (bufs, 0)
    | Inr (Some resp) \<Rightarrow> (case scatter_response bufs resp of
        (bufs', Inl e) \<Rightarrow> answer_error bufs' (request_unique bufs) e
      | (bufs', Inr _) \<Rightarrow> returnA (bufs', length resp))) (chain_ends bufs)"
    by (cases x rule: sum.exhaust; cases "projr x") (auto intro: response_ends)
qed

text \<open>Every task of the device, in whatever state it is, ends as the service of its chain has to end.\<close>

definition finishes :: "('n, 'h, 'a) fs_async \<Rightarrow> ('a result \<Rightarrow> bool) \<Rightarrow> bool" where
  "finishes p Q \<longleftrightarrow> (\<exists>T s. settles p (\<lambda>_ _. True) (\<lambda>_ _. True) (\<lambda>_ _. True) (\<lambda>x _ _. Q x) T s)"

lemma finishes_serve: "serve dev bufs s = (s', p) \<Longrightarrow> finishes p (chain_ends bufs)"
  using serve_ends [of dev bufs] unfolding ends_with_def any.triple_def finishes_def by (metis fst_conv snd_conv)

lemma finishes_resume: "finishes (Await c k) Q \<Longrightarrow> k r s = (s', p) \<Longrightarrow> finishes p Q"
  unfolding finishes_def settles_Await by (metis snd_conv)

lemma finishes_end: "finishes (Return x) Q \<Longrightarrow> Q (Inr x)" "finishes (Throw e) Q \<Longrightarrow> Q (Inl e)"
  by (simp_all add: finishes_def)

lemma tasks_finish:
  "fs_reachable dev y \<Longrightarrow> (\<forall>q bufs p. sy_tasks y q = Some (bufs, p) \<longrightarrow> finishes p (chain_ends bufs))
     \<and> (\<forall>(bufs, bufs', n) \<in> set (sy_released y). answered bufs bufs' n)"
proof (induction rule: fs_reachable.induct)
  case start
  show ?case by (simp add: fs_start_def)
next
  case (step y y')
  hence tasks: "finishes p (chain_ends bufs)" if "sy_tasks y q = Some (bufs, p)" for q bufs p using that by blast
  from step.hyps(2) show ?case
  proof cases
    case (accept q bufs s p)
    hence "sy_released y' = sy_released y" "sy_tasks y' = (sy_tasks y)(q \<mapsto> (bufs, p))" by simp_all
    with step.IH finishes_serve [OF accept(4)] show ?thesis by simp
  next
    case (resume q bufs c k r s p)
    from finishes_resume [OF tasks [OF resume(2)] resume(5)] have "finishes p (chain_ends bufs)" .
    moreover have "sy_released y' = sy_released y" "sy_tasks y' = (sy_tasks y)(q \<mapsto> (bufs, p))" using resume(1) by simp_all
    ultimately show ?thesis using step.IH by simp
  next
    case (finish q bufs bufs' n)
    from finishes_end(1) [OF tasks [OF finish(2)]] have "chain_ends bufs (Inr (bufs', n))" .
    with finish step.IH show ?thesis by (auto simp: chain_ends_def)
  qed (use step.IH in auto)
qed

section \<open>A lookup\<close>

text \<open>A chain with a LOOKUP of the name \<open>a\<close> in the root directory, and room for the reply.\<close>

definition lookup_request :: bytes where
  "lookup_request = le_bytes 4 42 @ le_bytes 4 1 @ le_bytes 8 9 @ le_bytes 8 1 @ replicate 16 0 @ [97, 0]"

definition lookup_chain :: "vq_buffer list" where
  "lookup_chain = [\<lparr>vb_array = lookup_request, vb_writable = False, vb_address = None, vb_target = 0\<rparr>,
     \<lparr>vb_array = replicate 144 0, vb_writable = True, vb_address = None, vb_target = 1\<rparr>]"

definition plain_device :: "nat fs_device" where
  "plain_device = \<lparr>fd_root = 0, fd_methods = {}, fd_validity = 1\<rparr>"

definition lookup_view :: dataview where
  "lookup_view = \<lparr>dv_buffer = lookup_request, dv_offset = 0, dv_length = 42\<rparr>"

lemma lookup_parsed:
  "checked_request lookup_chain = Inr (lookup_view, \<lparr>rd_array = lookup_request, rd_offset = 40\<rparr>)"
  "request_field FuseInHeader lookup_view ''opcode'' = FUSE_LOOKUP" "request_field FuseInHeader lookup_view ''nodeid'' = ROOT_ID"
  "reader_cstring \<lparr>rd_array = lookup_request, rd_offset = 40\<rparr> = Inr (ascii ''a'', \<lparr>rd_array = lookup_request, rd_offset = 42\<rparr>)"
  "validate_name (ascii ''a'') = Inr (ascii ''a'')" "response_capacity lookup_chain = 144" "request_unique lookup_chain = 9"
  by code_simp+

text \<open>The backend finds node 7 and then fails to tell its attributes: the chain is answered with the error.\<close>

definition lookup_error :: "vq_buffer list" where
  "lookup_error = [hd lookup_chain, (lookup_chain ! 1)\<lparr>vb_array := response_header_bytes 16 (- 5) 9 @ replicate 128 0\<rparr>]"

lemma lookup_error_answered: "answer_error lookup_chain 9 (FSError 5 []) s = (s, Return (lookup_error, 16))"
proof -
  have "scatter_response lookup_chain (response_header_bytes 16 (- int (error_number (FSError 5 []))) 9) = (lookup_error, Inr ())"
    by (simp add: scatter_response_def lookup_chain_def lookup_error_def overwrite_def error_number_def)
  thus ?thesis using lookup_parsed(6) by (simp add: answer_error_room returnA_def)
qed

definition after_lookup :: "(nat, nat) fs_system" where
  "after_lookup = \<lparr>sy_fs = alter_record 2 (\<lambda>r. r\<lparr>nr_lookups := 1\<rparr>) (fst (record_for_node 7 ROOT_ID (new_fs_state 0))),
     sy_tasks = (\<lambda>_. None), sy_released = [(lookup_chain, lookup_error, 16)]\<rparr>"

lemma lookup_served:
  "serve_alone plain_device (fst (serve plain_device lookup_chain (new_fs_state 0))) (snd (serve plain_device lookup_chain (new_fs_state 0)))
     [R_found (Some 7), R_error (FSError 5 [])] = Some (sy_fs after_lookup, lookup_error, 16)"
  by (simp add: plain_device_def after_lookup_def new_fs_state_def serve_def process_request_def dispatch_def fuse_lookup_def
      lookup_parsed lookup_record_def need_node_def inspect_def find_record_def node_value_def call_fs_def async_defs FUSE_LOOKUP_def
      FUSE_INIT_def ROOT_ID_def Let_def entry_reply_def attributes_of_def grant_record_def record_for_node_def wrong_reply_def reply_ok_def
      add_children_def alter_record_def lookup_error_answered [unfolded alter_record_def])

lemma after_lookup_reachable: "fs_reachable plain_device after_lookup"
proof -
  let ?y = "fs_start plain_device :: (nat, nat) fs_system"
  have y: "sy_fs ?y = new_fs_state 0" "sy_tasks ?y 0 = None" by (simp_all add: fs_start_def plain_device_def)
  have "fs_reachable plain_device (?y\<lparr>sy_fs := sy_fs after_lookup, sy_released := sy_released ?y @ [(lookup_chain, lookup_error, 16)]\<rparr>)"
    using served_alone [OF fs_reachable.start y(2) zero_less_numeral surjective_pairing] lookup_served unfolding y(1) by blast
  thus ?thesis by (simp add: fs_start_def after_lookup_def)
qed

lemma after_lookup_record:
  "fs_store (sy_fs after_lookup) 2 = Some \<lparr>nr_node = 7, nr_parent = ROOT_ID, nr_lookups = 1, nr_handles = 0, nr_children = 0\<rparr>"
  "2 \<in> set (fs_records (sy_fs after_lookup))" "sy_tasks after_lookup q = None"
  by (simp_all add: after_lookup_def new_fs_state_def record_for_node_def add_children_def alter_record_def ROOT_ID_def)

section \<open>A page of directory entries\<close>

definition fuse_dirent_bytes :: "nat \<Rightarrow> nat \<Rightarrow> ustring \<Rightarrow> file_type \<Rightarrow> bytes" where
  "fuse_dirent_bytes i off name t = scalar_encode U64LE (int i) @ scalar_encode U64LE (int off) @ scalar_encode U32LE (int (length name))
     @ scalar_encode U32LE (int (dirent_type t)) @ name @ replicate ((8 - length name mod 8) mod 8) 0"

text \<open>The entries from the index on; each carries the index of the one behind it, where the guest resumes.\<close>

fun dirent_page :: "nat \<Rightarrow> (ustring \<times> nat) list \<Rightarrow> file_type list \<Rightarrow> bytes" where
  "dirent_page index ((name, i) # es) (t # ts) = fuse_dirent_bytes i (index + 1) name t @ dirent_page (index + 1) es ts"
| "dirent_page index _ _ = []"

lemma padded_length: "n + (8 - n mod 8) mod 8 = (n + 7) div 8 * (8::nat)"
proof -
  obtain q r where "n = 8 * q + r" "r < 8" using mult_div_mod_eq [of 8 n] by (metis mod_less_divisor zero_less_numeral)
  moreover from this(2) have "r = 0 \<or> r = 1 \<or> r = 2 \<or> r = 3 \<or> r = 4 \<or> r = 5 \<or> r = 6 \<or> r = 7" by arith
  ultimately show ?thesis by auto
qed

lemma length_fuse_dirent_bytes: "length (fuse_dirent_bytes i off name t) = dirent_record_length name"
proof -
  have "(24 + length name + 7) div 8 = 3 + (length name + 7) div 8" by presburger
  thus ?thesis using padded_length [of "length name"] by (simp add: fuse_dirent_bytes_def dirent_record_length_def)
qed

lemma bump_holds: "holds bs b \<Longrightarrow> gives (map_option (\<lambda>(_, b'). Inr b') (bytes_bump b n)) (holds (bs @ replicate n 0))"
  using alloc_holds [of bs b "FixedArray (Scalar U8) n"] by (auto simp: gives_def bytes_alloc_def)

lemma write_dirent_holds:
  assumes "holds bs b" "8 dvd length bs" "mode_type mode = Inr t"
  shows "gives (write_dirent b i off name mode) (holds (bs @ fuse_dirent_bytes i off name t))"
proof -
  let ?head = "scalar_encode U64LE (int i) @ scalar_encode U64LE (int off) @ scalar_encode U32LE (int (length name))
     @ scalar_encode U32LE (int (dirent_type t))"
  have "gives (put_value b FuseDirent (Inr [(''ino'', Num (int i)), (''off'', Num (int off)), (''namelen'', Num (int (length name))),
      (''type'', Num (int (dirent_type t)))])) (holds (bs @ ?head))"
    by (rule put_value_holds [OF assms(1)]) (simp_all add: FuseDirent_def)
  moreover have "gives (bindR (append_bytes p1 name) (\<lambda>p2. map_option (\<lambda>(_, p3). Inr p3) (bytes_bump p2 ((8 - bb_length p2 mod 8) mod 8))))
      (holds (bs @ fuse_dirent_bytes i off name t))" if p1: "holds (bs @ ?head) p1" for p1
  proof (rule gives_bind [OF append_holds [OF p1]])
    fix p2
    assume p2: "holds ((bs @ ?head) @ name) p2"
    have "bb_length p2 mod 8 = length name mod 8"
      using holds_length [OF p2] assms(2) by (auto simp: dvd_def) presburger
    thus "gives (map_option (\<lambda>(_, p3). Inr p3) (bytes_bump p2 ((8 - bb_length p2 mod 8) mod 8))) (holds (bs @ fuse_dirent_bytes i off name t))"
      using bump_holds [OF p2] by (simp add: fuse_dirent_bytes_def)
  qed
  ultimately show ?thesis using assms(3) unfolding write_dirent_def by (simp add: gives_bind)
qed

lemma run_attributes:
  "fs_store s i = Some r \<Longrightarrow> runA (bindA (attributes_of i None) f) (R_attributes a # rs) s = runA (f a) rs s"
  by (simp add: runA_def attributes_of_def inspect_def call_fs_def node_value_def async_defs)

lemma readdir_fill_page:
  assumes "holds bs b" "8 dvd length bs" "length bs \<le> limit"
    and "\<forall>(name, i) \<in> set es. fs_store s i \<noteq> None" "map (mode_type \<circ> fa_mode) attrs = map Inr ts" "length ts = length es"
  shows "\<exists>k b'. runA (readdir_fill limit index es b) (map R_attributes attrs) s = (s, Return b') \<and> k \<le> length es
     \<and> bytes_array b' = bs @ dirent_page index (take k es) (take k ts) \<and> length (bytes_array b') \<le> limit
     \<and> (k < length es \<longrightarrow> limit < length (bytes_array b') + dirent_record_length (fst (es ! k)))"
  using assms
proof (induction es arbitrary: index b bs attrs ts)
  case Nil
  thus ?case by (intro exI [of _ 0] exI [of _ b]) (simp add: async_steps holds_def)
next
  case (Cons e es)
  obtain name i where e: "e = (name, i)" by fastforce
  obtain t ts' where ts: "ts = t # ts'" using Cons.prems(6) by (cases ts) auto
  then obtain a attrs' where attrs: "attrs = a # attrs'" "mode_type (fa_mode a) = Inr t" using Cons.prems(5) by (cases attrs) auto
  show ?case
  proof (cases "length bs + dirent_record_length name > limit")
    case True
    thus ?thesis
      using Cons.prems(1,3) holds_length [OF Cons.prems(1)] unfolding e
      by (intro exI [of _ 0] exI [of _ b]) (simp add: async_steps holds_def)
  next
    case False
    obtain r where r: "fs_store s i = Some r" using Cons.prems(4) e by auto
    obtain p where p: "write_dirent b i (index + 1) name (fa_mode a) = Some (Inr p)" "holds (bs @ fuse_dirent_bytes i (index + 1) name t) p"
      using write_dirent_holds [OF Cons.prems(1,2) attrs(2), of i "index + 1" name] unfolding gives_def by blast
    have "8 dvd length (bs @ fuse_dirent_bytes i (index + 1) name t)"
      using Cons.prems(2) by (simp add: length_fuse_dirent_bytes dirent_record_length_def)
    moreover have "length (bs @ fuse_dirent_bytes i (index + 1) name t) \<le> limit" using False by (simp add: length_fuse_dirent_bytes)
    moreover have "\<forall>(name, i) \<in> set es. fs_store s i \<noteq> None" "map (mode_type \<circ> fa_mode) attrs' = map Inr ts'" "length ts' = length es"
      using Cons.prems(4-6) attrs ts by (simp_all add: comp_def)
    ultimately obtain k b' where k:
      "runA (readdir_fill limit (index + 1) es p) (map R_attributes attrs') s = (s, Return b')" "k \<le> length es"
      "bytes_array b' = (bs @ fuse_dirent_bytes i (index + 1) name t) @ dirent_page (index + 1) (take k es) (take k ts')"
      "length (bytes_array b') \<le> limit" "k < length es \<longrightarrow> limit < length (bytes_array b') + dirent_record_length (fst (es ! k))"
      using Cons.IH [OF p(2), of attrs' ts' "index + 1"] by blast
    have "runA (readdir_fill limit index (e # es) b) (map R_attributes attrs) s = (s, Return b')"
      using False k(1) p(1) holds_length [OF Cons.prems(1)] by (simp add: e attrs run_attributes [OF r])
    with k(2-5) show ?thesis by (intro exI [of _ "Suc k"] exI [of _ b']) (simp add: e ts)
  qed
qed

section \<open>Requests that end badly\<close>

text \<open>
  When the host finds a name but cannot tell the attributes, the guest gets the error and no nodeid, yet the new record counts a lookup: the
  guest has nothing to forget, and the record stays.
\<close>

lemma failed_lookup_keeps_record:
  assumes "reader_cstring body = Inr (raw, rest)" "validate_name raw = Inr name" "fs_store s p = Some r" "fs_by_node s n = None"
    and "p < fs_next_nodeid s"
  shows "\<exists>s'. runA (fuse_lookup dev (Some p) body payload) [R_found (Some n), R_error e] s = (s', Throw e)
     \<and> fs_by_node s' n = Some (fs_next_nodeid s) \<and> map_option nr_lookups (fs_store s' (fs_next_nodeid s)) = Some 1"
  using assms
  by (simp add: runA_def fuse_lookup_def lookup_record_def need_node_def inspect_def node_value_def call_fs_def async_defs entry_reply_def
      attributes_of_def grant_record_def record_for_node_def wrong_reply_def add_children_def alter_record_def Let_def)

text \<open>READLINK with room for the header only is let through, and appending the target to a buffer without capacity never ends.\<close>

lemma readlink_without_room_hangs:
  assumes "M_readlink \<in> fd_methods dev" "fs_store s i = Some r" "target \<noteq> []"
  shows "minimum_response_capacity FUSE_READLINK = 16"
    "runA (fuse_readlink dev (Some i) (new_bytes (16 - layout_size FuseOutHeader))) [R_text target] s = (s, Hang)"
proof -
  show "minimum_response_capacity FUSE_READLINK = 16" by code_simp
  have "append_bytes (new_bytes 0) target = None"
    using assms(3) by (simp add: append_bytes_def bytes_append_def bytes_bump_def ensure_capacity_def new_bytes_def grow_length_zero_diverges)
  thus "runA (fuse_readlink dev (Some i) (new_bytes (16 - layout_size FuseOutHeader))) [R_text target] s = (s, Hang)"
    using assms(1,2) by (simp add: runA_def fuse_readlink_def need_method_def need_node_def inspect_def node_value_def call_fs_def async_defs
        header_encoded(3))
qed

section \<open>Properties\<close>

text \<open>
  C15: A nodeid the guest has been given and has not forgotten resolves to its record, the record is the one its node is found under, and it
  keeps its node through every later step of the device, whatever the two queues, the host and the shutdown do in between.
\<close>

theorem fs_granted_ids_resolve:
  assumes "fs_reachable dev y" "fs_store (sy_fs y) i = Some r" "0 < nr_lookups r" "(fs_step dev)\<^sup>*\<^sup>* y y'"
  shows "find_record i (sy_fs y) = Inr i \<and> fs_by_node (sy_fs y) (nr_node r) = Some i \<and> node_value i (sy_fs y') = Inr (nr_node r)"
proof -
  obtain Ts where inv: "system_inv dev Ts (sy_fs y) (sy_tasks y)" using system_inv_reachable [OF assms(1)] by blast
  hence "tables_ok (fd_root dev) (sy_fs y)" "granted_ok (sy_fs y)" by (simp_all add: system_inv_def fs_inv_def)
  moreover from this assms(2,3) have "i \<in> set (fs_records (sy_fs y))" by (auto simp: granted_ok_def)
  moreover have "map_option nr_node (fs_store (sy_fs y') i) = Some (nr_node r)"
    using fs_steps_stable [OF assms(4) inv] assms(2) by (auto simp: ids_stable_def)
  ultimately show ?thesis using assms(2) by (auto simp: find_record_def tables_ok_def node_value_def)
qed

theorem fs_granted_ids_resolve_witness:
  "find_record 2 (sy_fs after_lookup) = Inr 2 \<and> fs_by_node (sy_fs after_lookup) 7 = Some 2
   \<and> node_value 2 (start_finalize (sy_fs after_lookup)) = Inr 7"
  using fs_granted_ids_resolve [OF after_lookup_reachable after_lookup_record(1) _ r_into_rtranclp [of "fs_step plain_device", OF fs_step.close [of plain_device after_lookup]]] by simp


text \<open>
  C17: Every chain the filesystem device gives back is answered: either it is returned untouched and empty, or the bytes counted as written
  hold a response header with their own length and the request's \<open>unique\<close>, and a payload.  The device writes nowhere else, and the length it
  reports is never more than the guest's buffers hold.
\<close>

theorem fs_chain_answered:
  assumes "fs_reachable dev y" "(bufs, bufs', n) \<in> set (sy_released y)"
  shows "answered bufs bufs' n"
  using tasks_finish [OF assms(1)] assms(2) by blast

theorem fs_chain_answered_witness: "answered lookup_chain lookup_error 16"
  using fs_chain_answered [OF after_lookup_reachable, of lookup_chain lookup_error 16] by (simp add: after_lookup_def)



definition empty_buffer_chain :: "vq_buffer list" where
  "empty_buffer_chain = [\<lparr>vb_array = [], vb_writable = True, vb_address = None, vb_target = 0\<rparr>,
     \<lparr>vb_array = replicate 16 0, vb_writable = True, vb_address = None, vb_target = 1\<rparr>]"

lemma empty_buffer_thrown: "serve plain_device empty_buffer_chain s = (s, Throw (Error ''guest response buffers are too small''))"
proof -
  have "\<exists>e. checked_request empty_buffer_chain = Inl e"
    by (simp add: checked_request_def read_request_header_def empty_buffer_chain_def concatenate_def request_struct_def reader_struct_def
        reader_take_def new_reader_def FuseInHeader_def layout_size_def)
  then obtain e where "checked_request empty_buffer_chain = Inl e" by blast
  moreover have "response_capacity empty_buffer_chain = 16" by (simp add: empty_buffer_chain_def response_capacity_def)
  moreover have "scatter_response empty_buffer_chain (response_header_bytes n x u) = (empty_buffer_chain, Inl (Error ''guest response buffers are too small''))"
    for n x u
  proof -
    have "scatter_loop empty_buffer_chain resp = (empty_buffer_chain, resp)" for resp by (simp add: empty_buffer_chain_def)
    moreover have "response_header_bytes n x u \<noteq> []" using length_response_header_bytes [of n x u] by fastforce
    ultimately show ?thesis by (simp add: scatter_response_def)
  qed
  ultimately show ?thesis by (simp add: serve_def answer_error_room async_defs)
qed


text \<open>
  C19: A READDIR page is the longest run of directory entries that fits.  When the host tells the attributes of every entry, the payload holds,
  from the offset on, exactly the entries up to the first one that would pass the limit, each in the layout of a FUSE directory entry and with
  the offset at which the guest resumes behind it.
\<close>

theorem readdir_page:
  assumes "0 < room" "\<forall>(name, i) \<in> set es. fs_store s i \<noteq> None" "map (mode_type \<circ> fa_mode) attrs = map Inr ts" "length ts = length es"
  shows "\<exists>k b. runA (readdir_fill limit index es (new_bytes room)) (map R_attributes attrs) s = (s, Return b) \<and> k \<le> length es
     \<and> bytes_array b = dirent_page index (take k es) (take k ts) \<and> length (bytes_array b) \<le> limit
     \<and> (k < length es \<longrightarrow> limit < length (bytes_array b) + dirent_record_length (fst (es ! k)))"
  using readdir_fill_page [OF new_holds [OF assms(1)] _ _ assms(2-4)] by simp

theorem readdir_page_witness:
  "\<exists>k b. runA (readdir_fill 40 5 [(ascii ''a'', 2), (ascii ''bc'', 1)] (new_bytes 40)) (map R_attributes (replicate 2
       \<lparr>fa_mode = 33188, fa_size = 0, fa_atime = None, fa_mtime = None, fa_ctime = None, fa_blocks = None, fa_nlink = None, fa_uid = None,
         fa_gid = None, fa_rdev = None, fa_block_size = None\<rparr>)) (sy_fs after_lookup) = (sy_fs after_lookup, Return b) \<and> k \<le> 2
     \<and> bytes_array b = dirent_page 5 (take k [(ascii ''a'', 2), (ascii ''bc'', 1)]) (take k [T_file, T_file]) \<and> length (bytes_array b) \<le> 40
     \<and> (k < 2 \<longrightarrow> 40 < length (bytes_array b) + dirent_record_length (fst ([(ascii ''a'', 2), (ascii ''bc'', 1 :: nat)] ! k)))"
proof -
  have "mode_type 33188 = Inr T_file" by code_simp
  moreover have "fs_store (sy_fs after_lookup) 1 \<noteq> None"
    by (simp add: after_lookup_def new_fs_state_def record_for_node_def add_children_def alter_record_def ROOT_ID_def)
  ultimately show ?thesis
    using readdir_page [of 40 "[(ascii ''a'', 2), (ascii ''bc'', 1)]" "sy_fs after_lookup" "replicate 2 \<lparr>fa_mode = 33188, fa_size = 0,
        fa_atime = None, fa_mtime = None, fa_ctime = None, fa_blocks = None, fa_nlink = None, fa_uid = None, fa_gid = None, fa_rdev = None,
        fa_block_size = None\<rparr>" "[T_file, T_file]" 40 5] after_lookup_record(1)
    by (simp add: numeral_2_eq_2)
qed

end
