(* ===== verification/Remote.thy ===== *)
theory Remote
  imports Virtio_Device Guest_Abi
begin

text \<open>
  A device in a worker, \<open>packages/kernel/src/virtio/remote.ts\<close>: the main thread forwards the calls of the guest over a message port and
  commits the completions the worker sends back; a shared array of epochs revokes what is under way.

  The two directions of the port are queues of messages.  The worker's side holds the \<open>VirtioDevice\<close> it serves, attached with hooks: what
  the device publishes or reports goes into \<open>sv_outbox\<close> and is sent before the worker takes the next message, while the main thread runs on
  in parallel.  Memory is shared.  An error crosses the port as its name and message; the stack the code adds to them is left out.
\<close>

section \<open>Messages\<close>

type_synonym epoch = "32 word"

record serialized_error =
  er_name :: string
  er_message :: string

fun serialize_error :: "js_error \<Rightarrow> serialized_error" where
  "serialize_error (Error m) = \<lparr>er_name = ''Error'', er_message = m\<rparr>"
| "serialize_error (RangeError m) = \<lparr>er_name = ''RangeError'', er_message = m\<rparr>"
| "serialize_error (TypeError m) = \<lparr>er_name = ''TypeError'', er_message = m\<rparr>"
| "serialize_error (FSError n m) = \<lparr>er_name = ''FSError'', er_message = m\<rparr>"
| "serialize_error (ProtocolError m) = \<lparr>er_name = ''ProtocolError'', er_message = m\<rparr>"
| "serialize_error (WasmParseError m n) = \<lparr>er_name = ''WasmParseError'', er_message = m @ '' at byte '' @ decimal n\<rparr>"
| "serialize_error (Errno n) = \<lparr>er_name = ''SystemError'', er_message = se_message (SystemError n)\<rparr>"

datatype worker_message =
    M_ready nat nat bytes nat
  | M_complete nat nat epoch epoch completion
  | M_config nat bytes bool
  | M_reset_done
  | M_error serialized_error
  | M_closed "serialized_error option"

datatype device_message =
    D_bind
  | D_features nat
  | D_setup nat nat
  | D_enable nat nat nat nat epoch epoch
  | D_disable nat
  | D_notify nat
  | D_reset
  | D_close

section \<open>State\<close>

text \<open>What the main thread does to its surroundings, and the calls that concern the epochs, in order.\<close>

datatype remote_output =
    RO_irq nat
  | RO_error serialized_error
  | RO_reset_resolved nat
  | RO_publish nat completion
  | RO_enable nat
  | RO_disable nat
  | RO_reset
  | RO_revoke
  | RO_fail

record remote_device =
  rm_id :: nat
  rm_features :: nat
  rm_queues :: nat
  rm_config :: bytes
  rm_listening :: bool
  rm_connected :: bool
  rm_close_started :: bool
  rm_closed :: "serialized_error option option"
  rm_terminal :: "serialized_error option"
  rm_enabled :: "nat \<Rightarrow> bool"
  rm_target :: "(nat \<times> nat) option"
  rm_failed :: bool
  rm_resets :: "nat list"
  rm_next_reset :: nat
  rm_log :: "remote_output list"

text \<open>
  \<open>sv_waits\<close> are the resets the worker has taken up, each with the work it waits for, and \<open>sv_acked\<close> the numbers of those it has
  acknowledged: each has a promise of its own, so nothing in the code orders them.
\<close>

datatype outgoing = Out device_output | Post worker_message

record served_device =
  sv_device :: virtio_device
  sv_bound :: bool
  sv_connected :: bool
  sv_epoch :: epoch
  sv_qepochs :: "nat \<Rightarrow> epoch"
  sv_closing :: bool
  sv_listening :: bool
  sv_waits :: "work list list"
  sv_acked :: "nat list"
  sv_outbox :: "outgoing list"

record remote_system =
  rs_main :: remote_device
  rs_worker :: served_device
  rs_control :: "nat \<Rightarrow> epoch"
  rs_memory :: bytes
  rs_to_worker :: "device_message list"
  rs_to_main :: "worker_message list"

section \<open>Starting\<close>

text \<open>\<open>workerDevice\<close>: the first \<open>error\<close> rejects, the first \<open>ready\<close> makes the device, other messages are ignored.\<close>

definition create_remote_device :: "nat \<Rightarrow> nat \<Rightarrow> bytes \<Rightarrow> nat \<Rightarrow> remote_device" where
  "create_remote_device device_id features config queues =
     \<lparr>rm_id = device_id, rm_features = features, rm_queues = queues, rm_config = config, rm_listening = True, rm_connected = False,
      rm_close_started = False, rm_closed = None, rm_terminal = None, rm_enabled = (\<lambda>_. False), rm_target = None,
      rm_failed = False, rm_resets = [], rm_next_reset = 0, rm_log = []\<rparr>"

definition worker_device :: "worker_message \<Rightarrow> (serialized_error + remote_device) option" where
  "worker_device message = (case message of
       M_error e \<Rightarrow> Some (Inl e)
     | M_ready device_id features config queues \<Rightarrow> Some (Inr (create_remote_device device_id features config queues))
     | _ \<Rightarrow> None)"

definition serve_device :: "virtio_device \<Rightarrow> served_device" where
  "serve_device d =
     \<lparr>sv_device = d, sv_bound = False, sv_connected = False, sv_epoch = 0, sv_qepochs = (\<lambda>_. 0), sv_closing = False, sv_listening = True,
      sv_waits = [], sv_acked = [], sv_outbox = []\<rparr>"

definition ready_message :: "nat \<Rightarrow> virtio_device \<Rightarrow> worker_message" where
  "ready_message device_id d = M_ready device_id (vd_features d) (vd_config d) (vd_queues d)"

definition serve_device_error :: "js_error \<Rightarrow> worker_message" where
  "serve_device_error e = M_error (serialize_error e)"

section \<open>The main thread\<close>

type_synonym remote_action = "remote_system \<Rightarrow> remote_system"

definition on_main :: "(remote_device \<Rightarrow> remote_device) \<Rightarrow> remote_action" where
  "on_main f s = s\<lparr>rs_main := f (rs_main s)\<rparr>"

definition remote_log :: "remote_output \<Rightarrow> remote_action" where
  "remote_log out = on_main (\<lambda>m. m\<lparr>rm_log := rm_log m @ [out]\<rparr>)"

definition post_worker :: "device_message \<Rightarrow> remote_action" where
  "post_worker message s = s\<lparr>rs_to_worker := rs_to_worker s @ [message]\<rparr>"

text \<open>\<open>Atomics.add(control, slot, 1)\<close>.\<close>

definition advance_epoch :: "nat \<Rightarrow> remote_action" where
  "advance_epoch slot s = s\<lparr>rs_control := (rs_control s)(slot := rs_control s slot + 1)\<rparr>"

definition fail_connection :: "serialized_error \<Rightarrow> remote_action" where
  "fail_connection e s =
     (if \<not> rm_connected (rs_main s) \<or> rm_failed (rs_main s) then s
      else remote_log (RO_error e) (remote_log RO_fail (advance_epoch 0 (on_main (\<lambda>m. m\<lparr>rm_failed := True\<rparr>) s))))"

definition revoke_connection :: remote_action where
  "revoke_connection s =
     (if \<not> rm_connected (rs_main s) then s
      else remote_log RO_revoke (advance_epoch 0 (on_main (\<lambda>m. m\<lparr>rm_enabled := (\<lambda>_. False)\<rparr>) s)))"

definition release_resets :: remote_action where
  "release_resets = on_main (\<lambda>m. m\<lparr>rm_resets := [], rm_log := rm_log m @ map RO_reset_resolved (rm_resets m)\<rparr>)"

definition settle_closed :: "serialized_error option \<Rightarrow> remote_action" where
  "settle_closed r = on_main (\<lambda>m. m\<lparr>rm_closed := (case rm_closed m of None \<Rightarrow> Some r | Some r' \<Rightarrow> Some r')\<rparr>)"

text \<open>\<open>fail\<close> of the device, which remembers the first error for a machine that attaches it later.\<close>

definition remote_fail :: "serialized_error \<Rightarrow> remote_action" where
  "remote_fail e s =
     settle_closed (Some e) (fail_connection e
       (on_main (\<lambda>m. m\<lparr>rm_terminal := (case rm_terminal m of None \<Rightarrow> Some e | Some e' \<Rightarrow> Some e')\<rparr>) s))"

text \<open>A completion is committed only while its queue is enabled and both epochs are the ones it was made under.\<close>

definition completion_current :: "nat \<Rightarrow> epoch \<Rightarrow> epoch \<Rightarrow> remote_system \<Rightarrow> bool" where
  "completion_current vq device_epoch queue_epoch s \<longleftrightarrow>
     vq < rm_queues (rs_main s) \<and> rm_enabled (rs_main s) vq \<and> rs_control s 0 = device_epoch \<and> rs_control s (1 + vq) = queue_epoch"

definition receive_completion :: "nat \<Rightarrow> nat \<Rightarrow> epoch \<Rightarrow> epoch \<Rightarrow> completion \<Rightarrow> remote_action" where
  "receive_completion vq irq device_epoch queue_epoch c s =
     (if \<not> completion_current vq device_epoch queue_epoch s then s
      else case publish_virtqueue_completion (rs_memory s) c of
        Inl e \<Rightarrow> s
      | Inr mem \<Rightarrow> remote_log (RO_irq irq) (remote_log (RO_publish vq c) (s\<lparr>rs_memory := mem\<rparr>)))"

text \<open>A configuration that does not fit the guest's window throws, after the device's own copy has been replaced.\<close>

definition receive_config :: "nat \<Rightarrow> bytes \<Rightarrow> bool \<Rightarrow> remote_action" where
  "receive_config irq config interrupt s =
     (let s1 = on_main (\<lambda>m. m\<lparr>rm_config := overwrite (rm_config m) 0 (take (length (rm_config m)) config)\<rparr>) s;
          raise = (\<lambda>s. if interrupt then remote_log (RO_irq irq) s else s)
      in case rm_target (rs_main s1) of
           None \<Rightarrow> raise s1
         | Some (address, len) \<Rightarrow>
             if length config > len then s1
             else raise (s1\<lparr>rs_memory := overwrite (rs_memory s1) address config\<rparr>))"

definition shift_reset :: remote_action where
  "shift_reset s = (case rm_resets (rs_main s) of
       [] \<Rightarrow> s
     | r # rs \<Rightarrow> remote_log (RO_reset_resolved r) (on_main (\<lambda>m. m\<lparr>rm_resets := rs\<rparr>) s))"

definition receive_connected :: "worker_message \<Rightarrow> remote_action" where
  "receive_connected message = (case message of
       M_complete vq irq device_epoch queue_epoch c \<Rightarrow> receive_completion vq irq device_epoch queue_epoch c
     | M_config irq config interrupt \<Rightarrow> receive_config irq config interrupt
     | M_reset_done \<Rightarrow> shift_reset
     | M_error e \<Rightarrow> fail_connection e
     | _ \<Rightarrow> id)"

definition remote_receive :: "worker_message \<Rightarrow> remote_action" where
  "remote_receive message s = (case message of
       M_closed r \<Rightarrow>
         let s1 = release_resets (revoke_connection (on_main (\<lambda>m. m\<lparr>rm_listening := False\<rparr>) s))
         in (case r of None \<Rightarrow> settle_closed None s1 | Some e \<Rightarrow> settle_closed (Some e) (fail_connection e s1))
     | M_error e \<Rightarrow> if rm_connected (rs_main s) then receive_connected message s else remote_fail e s
     | _ \<Rightarrow> if rm_connected (rs_main s) then receive_connected message s else s)"

definition endpoint_failure :: "serialized_error \<Rightarrow> remote_action" where
  "endpoint_failure e s = remote_fail e (on_main (\<lambda>m. m\<lparr>rm_listening := False\<rparr>) s)"

text \<open>The calls of the bus and, once attached, of the guest.\<close>

definition remote_attach :: "remote_system \<Rightarrow> remote_system \<times> (serialized_error + unit)" where
  "remote_attach s =
     (if rm_connected (rs_main s) then (s, Inl (serialize_error (Error ''remote virtio device is already attached'')))
      else case rm_terminal (rs_main s) of
        Some e \<Rightarrow> (s, Inl e)
      | None \<Rightarrow> (post_worker D_bind (on_main (\<lambda>m. m\<lparr>rm_connected := True\<rparr>) s), Inr ()))"

definition remote_shutdown :: remote_action where
  "remote_shutdown s =
     (if rm_close_started (rs_main s) then s
      else post_worker D_close (revoke_connection (on_main (\<lambda>m. m\<lparr>rm_close_started := True\<rparr>) s)))"

definition remote_set_features :: "nat \<Rightarrow> remote_system \<Rightarrow> remote_system \<times> unit result" where
  "remote_set_features features s =
     (if features \<noteq> rm_features (rs_main s) then (s, Inl (Error ''Assertation failed''))
      else (post_worker (D_features features) s, Inr ()))"

definition remote_setup :: "nat \<Rightarrow> nat \<Rightarrow> nat \<Rightarrow> remote_system \<Rightarrow> remote_system \<times> unit result" where
  "remote_setup config_irq address len s =
     (if \<not> len \<ge> length (rm_config (rs_main s)) then (s, Inl (Error ''config space too small''))
      else if address + len > length (rs_memory s) then (s, Inl (RangeError ''invalid typed array length''))
      else (post_worker (D_setup config_irq len) (on_main (\<lambda>m. m\<lparr>rm_target := Some (address, len)\<rparr>)
        (s\<lparr>rs_memory := overwrite (rs_memory s) address (rm_config (rs_main s))\<rparr>)), Inr ()))"

definition no_queue :: "nat \<Rightarrow> js_error" where
  "no_queue vq = Error (''virtio device has no queue '' @ decimal vq)"

definition remote_enable_queue :: "nat \<Rightarrow> nat \<Rightarrow> nat \<Rightarrow> nat \<Rightarrow> remote_system \<Rightarrow> remote_system \<times> unit result" where
  "remote_enable_queue vq n address irq s =
     (if \<not> vq < rm_queues (rs_main s) then (s, Inl (no_queue vq))
      else
        let s1 = remote_log (RO_enable vq) (on_main (\<lambda>m. m\<lparr>rm_enabled := (rm_enabled m)(vq := True)\<rparr>) (advance_epoch (1 + vq) s))
        in (post_worker (D_enable vq n address irq (rs_control s1 0) (rs_control s1 (1 + vq))) s1, Inr ()))"

definition remote_disable_queue :: "nat \<Rightarrow> remote_system \<Rightarrow> remote_system \<times> unit result" where
  "remote_disable_queue vq s =
     (if \<not> vq < rm_queues (rs_main s) then (s, Inl (no_queue vq))
      else (post_worker (D_disable vq) (remote_log (RO_disable vq) (advance_epoch (1 + vq)
             (on_main (\<lambda>m. m\<lparr>rm_enabled := (rm_enabled m)(vq := False)\<rparr>) s))), Inr ()))"

definition remote_notify :: "nat \<Rightarrow> remote_action" where
  "remote_notify vq = post_worker (D_notify vq)"

definition remote_reset :: remote_action where
  "remote_reset s =
     post_worker D_reset (remote_log RO_reset (on_main (\<lambda>m. m\<lparr>rm_enabled := (\<lambda>_. False), rm_resets := rm_resets m @ [rm_next_reset m],
       rm_next_reset := Suc (rm_next_reset m)\<rparr>) (advance_epoch 0 s)))"

section \<open>The worker\<close>

definition on_worker :: "(served_device \<Rightarrow> served_device) \<Rightarrow> remote_action" where
  "on_worker f s = s\<lparr>rs_worker := f (rs_worker s)\<rparr>"

text \<open>The device acts on the shared memory; what it puts out is sent in order, and an exception behind it.\<close>

definition run_device :: "(virtio_device \<Rightarrow> virtio_device \<times> 'r result) \<Rightarrow> remote_action" where
  "run_device f s =
     (let w = rs_worker s; d = (sv_device w)\<lparr>vd_mem := rs_memory s\<rparr>
      in case f d of (d', r) \<Rightarrow>
           s\<lparr>rs_memory := vd_mem d', rs_worker := w\<lparr>sv_device := d',
             sv_outbox := sv_outbox w @ map Out (drop (length (vd_log d)) (vd_log d'))
               @ (case r of Inl e \<Rightarrow> [Post (M_error (serialize_error e))] | Inr _ \<Rightarrow> [])\<rparr>\<rparr>)"

definition send_error :: "js_error \<Rightarrow> remote_action" where
  "send_error e = on_worker (\<lambda>w. w\<lparr>sv_outbox := sv_outbox w @ [Post (M_error (serialize_error e))]\<rparr>)"

definition if_connected :: "remote_action \<Rightarrow> remote_action" where
  "if_connected f s = (if sv_connected (rs_worker s) then f s else s)"

text \<open>A reset is acknowledged when the work the device names has settled; a device that was never attached has none.\<close>

definition serve_reset :: remote_action where
  "serve_reset s =
     (if \<not> sv_bound (rs_worker s) then send_error (TypeError ''cannot read properties of undefined'') s
      else
        let s1 = on_worker (\<lambda>w. w\<lparr>sv_epoch := rs_control s 0\<rparr>) s
        in if \<not> sv_connected (rs_worker s1) then on_worker (\<lambda>w. w\<lparr>sv_waits := sv_waits w @ [[]]\<rparr>) s1
           else
             let waits = snd (guest_reset ((sv_device (rs_worker s1))\<lparr>vd_mem := rs_memory s1\<rparr>))
             in on_worker (\<lambda>w. w\<lparr>sv_waits := sv_waits w @ [waits]\<rparr>) (run_device (\<lambda>d. (fst (guest_reset d), Inr ())) s1))"

text \<open>\<open>stop\<close> is how the device's own \<open>stop\<close> ends when it is shut down.\<close>

fun serve_message :: "js_error option \<Rightarrow> device_message \<Rightarrow> remote_action" where
  "serve_message stop D_bind s =
     (if sv_connected (rs_worker s) then send_error (Error ''virtio device is already bound'') s
      else
        let s1 = on_worker (\<lambda>w. w\<lparr>sv_bound := True\<rparr>) s
        in on_worker (\<lambda>w. w\<lparr>sv_connected := is_ok (snd (attach True (sv_device (rs_worker s1))))\<rparr>) (run_device (attach True) s1))"
| "serve_message stop (D_features features) s = if_connected (run_device (set_features features)) s"
| "serve_message stop (D_setup irq len) s = if_connected (run_device (setup_config irq 0 len)) s"
| "serve_message stop (D_enable vq n address irq device_epoch queue_epoch) s =
     if_connected (run_device (enable_queue vq n address irq))
       (on_worker (\<lambda>w. w\<lparr>sv_epoch := device_epoch, sv_qepochs := (sv_qepochs w)(vq := queue_epoch)\<rparr>) s)"
| "serve_message stop (D_disable vq) s = if_connected (run_device (\<lambda>d. (disable_queue vq d, Inr ()))) s"
| "serve_message stop (D_notify vq) s = if_connected (run_device (\<lambda>d. (notify vq d, Inr ()))) s"
| "serve_message stop D_reset s = serve_reset s"
| "serve_message stop D_close s =
     (if sv_closing (rs_worker s) then s
      else run_device (\<lambda>d. (shutdown stop d, Inr ())) (on_worker (\<lambda>w. w\<lparr>sv_closing := True\<rparr>) s))"

text \<open>\<open>publish_completion\<close> of the hooks, and \<open>queue_is_current\<close>.\<close>

definition hook_current :: "nat \<Rightarrow> remote_system \<Rightarrow> bool" where
  "hook_current vq s \<longleftrightarrow> rs_control s 0 = sv_epoch (rs_worker s) \<and> rs_control s (1 + vq) = sv_qepochs (rs_worker s) vq"

definition outgoing_messages :: "outgoing \<Rightarrow> remote_system \<Rightarrow> worker_message list" where
  "outgoing_messages out s = (case out of
       Post message \<Rightarrow> [message]
     | Out (OutPublish vq irq c) \<Rightarrow>
         if hook_current vq s then [M_complete vq irq (sv_epoch (rs_worker s)) (sv_qepochs (rs_worker s) vq) c] else []
     | Out (OutConfig irq config interrupt) \<Rightarrow> [M_config irq config interrupt]
     | Out (OutError e) \<Rightarrow> [M_error (serialize_error e)]
     | _ \<Rightarrow> [])"

section \<open>The protocol\<close>

text \<open>What a device does by itself in the worker; \<open>hook\<close> answers are the epochs of the moment.\<close>

fun own_event :: "remote_system \<Rightarrow> device_event \<Rightarrow> bool" where
  "own_event s (UpdateConfig c) = True"
| "own_event s Spawn = True"
| "own_event s (Settle w r) = True"
| "own_event s (Resume vq w) = True"
| "own_event s (TakeChain g hook) = (g < length (vd_heap (sv_device (rs_worker s)))
     \<longrightarrow> hook = hook_current (qo_vq (vd_heap (sv_device (rs_worker s)) ! g)) s)"
| "own_event s (CompleteChain g hook ch n) = (g < length (vd_heap (sv_device (rs_worker s)))
     \<longrightarrow> hook = hook_current (qo_vq (vd_heap (sv_device (rs_worker s)) ! g)) s)"
| "own_event s ShutdownResume = True"
| "own_event s (CloseSettled r) = True"
| "own_event s _ = False"

text \<open>The work whose promise has settled.\<close>

definition finished_work :: "virtio_device \<Rightarrow> work set" where
  "finished_work d = fst ` set (vd_settled d)"

text \<open>A device that is not attached has nothing to do but to finish a shutdown.\<close>

definition shutdown_event :: "device_event \<Rightarrow> bool" where
  "shutdown_event e = (case e of ShutdownResume \<Rightarrow> True | CloseSettled r \<Rightarrow> True | _ \<Rightarrow> False)"

inductive remote_step :: "remote_system \<Rightarrow> remote_system \<Rightarrow> bool" where
  attach: "remote_step s (fst (remote_attach s))"
| features: "rm_connected (rs_main s) \<Longrightarrow> remote_step s (fst (remote_set_features f s))"
| configure: "rm_connected (rs_main s) \<Longrightarrow> remote_step s (fst (remote_setup irq address len s))"
| enable: "rm_connected (rs_main s) \<Longrightarrow> remote_step s (fst (remote_enable_queue vq n address irq s))"
| disable: "rm_connected (rs_main s) \<Longrightarrow> remote_step s (fst (remote_disable_queue vq s))"
| notify: "rm_connected (rs_main s) \<Longrightarrow> remote_step s (remote_notify vq s)"
| reset: "rm_connected (rs_main s) \<Longrightarrow> remote_step s (remote_reset s)"
| shutdown: "remote_step s (remote_shutdown s)"
| driver: "length mem = length (rs_memory s) \<Longrightarrow> remote_step s (s\<lparr>rs_memory := mem\<rparr>)"
| endpoint: "rm_listening (rs_main s) \<Longrightarrow> remote_step s (endpoint_failure e s)"
| receive: "rs_to_main s = message # rest \<Longrightarrow> remote_step s
     (if rm_listening (rs_main s) then remote_receive message (s\<lparr>rs_to_main := rest\<rparr>) else s\<lparr>rs_to_main := rest\<rparr>)"
| serve: "rs_to_worker s = message # rest \<Longrightarrow> sv_outbox (rs_worker s) = [] \<Longrightarrow> remote_step s
     (if sv_listening (rs_worker s) then serve_message stop message (s\<lparr>rs_to_worker := rest\<rparr>) else s\<lparr>rs_to_worker := rest\<rparr>)"
| send: "sv_outbox (rs_worker s) = out # rest \<Longrightarrow> remote_step s
     ((on_worker (\<lambda>w. w\<lparr>sv_outbox := rest\<rparr>) s)\<lparr>rs_to_main := rs_to_main s @ outgoing_messages out s\<rparr>)"
| own: "sv_outbox (rs_worker s) = [] \<Longrightarrow> own_event s e \<Longrightarrow> sv_connected (rs_worker s) \<or> shutdown_event e
     \<Longrightarrow> device_step e ((sv_device (rs_worker s))\<lparr>vd_mem := rs_memory s\<rparr>) = Some d
     \<Longrightarrow> remote_step s (run_device (\<lambda>_. (d, Inr ())) s)"
| acknowledge: "sv_outbox (rs_worker s) = [] \<Longrightarrow> i < length (sv_waits (rs_worker s)) \<Longrightarrow> i \<notin> set (sv_acked (rs_worker s))
     \<Longrightarrow> set (sv_waits (rs_worker s) ! i) \<subseteq> finished_work (sv_device (rs_worker s))
     \<Longrightarrow> remote_step s ((on_worker (\<lambda>w. w\<lparr>sv_acked := sv_acked w @ [i]\<rparr>) s)\<lparr>rs_to_main := rs_to_main s @ [M_reset_done]\<rparr>)"
| closed: "sv_outbox (rs_worker s) = [] \<Longrightarrow> sv_closing (rs_worker s) \<Longrightarrow> sv_listening (rs_worker s)
     \<Longrightarrow> vd_phase (sv_device (rs_worker s)) = Closed r
     \<Longrightarrow> remote_step s ((on_worker (\<lambda>w. w\<lparr>sv_listening := False\<rparr>) s)\<lparr>rs_to_main := rs_to_main s @ [M_closed (map_option serialize_error r)]\<rparr>)"

text \<open>A worker serves a new device, and the main thread has got its \<open>ready\<close>.\<close>

definition remote_start :: "nat \<Rightarrow> virtio_device \<Rightarrow> remote_system" where
  "remote_start device_id d = \<lparr>rs_main = create_remote_device device_id (vd_features d) (vd_config d) (vd_queues d), rs_worker = serve_device d,
     rs_control = (\<lambda>_. 0), rs_memory = vd_mem d, rs_to_worker = [], rs_to_main = []\<rparr>"

inductive remote_reachable :: "remote_system \<Rightarrow> bool" where
  start: "remote_reachable (remote_start device_id (new_device queues features config views mem))"
| step: "remote_reachable s \<Longrightarrow> remote_step s s' \<Longrightarrow> remote_reachable s'"

section \<open>Epochs\<close>

definition epoch_count :: "nat \<Rightarrow> remote_output list \<Rightarrow> nat" where
  "epoch_count vq log = length (filter (\<lambda>out. out = RO_enable vq \<or> out = RO_disable vq) log)"

fun revokes :: "nat \<Rightarrow> remote_output \<Rightarrow> bool" where
  "revokes vq (RO_enable vq') = (vq' = vq)"
| "revokes vq (RO_disable vq') = (vq' = vq)"
| "revokes vq RO_reset = True"
| "revokes vq RO_revoke = True"
| "revokes vq _ = False"

text \<open>The last call that enabled the queue has not been revoked.\<close>

definition in_force :: "nat \<Rightarrow> remote_output list \<Rightarrow> bool" where
  "in_force vq log \<longleftrightarrow> (\<exists>pre post. log = pre @ RO_enable vq # post \<and> (\<forall>out \<in> set post. \<not> revokes vq out))"

lemma epoch_count_snoc: "epoch_count vq (log @ outs) = epoch_count vq log + epoch_count vq outs"
  by (simp add: epoch_count_def)

lemma epoch_count_one:
  "epoch_count vq [RO_enable vq'] = (if vq' = vq then 1 else 0)" "epoch_count vq [RO_disable vq'] = (if vq' = vq then 1 else 0)"
  by (simp_all add: epoch_count_def)

lemma in_force_snoc:
  assumes "in_force vq log" "\<not> revokes vq out"
  shows "in_force vq (log @ [out])"
proof -
  obtain pre post where "log = pre @ RO_enable vq # post" "\<forall>out \<in> set post. \<not> revokes vq out" using assms(1) by (auto simp: in_force_def)
  hence "log @ [out] = pre @ RO_enable vq # (post @ [out])" "\<forall>out \<in> set (post @ [out]). \<not> revokes vq out" using assms(2) by auto
  thus ?thesis unfolding in_force_def by blast
qed

lemma in_force_enabled: "in_force vq (log @ [RO_enable vq])"
  unfolding in_force_def by (intro exI [of _ log] exI [of _ "[]"]) simp

definition epochs_inv :: "remote_system \<Rightarrow> bool" where
  "epochs_inv s \<longleftrightarrow> (\<forall>vq. rs_control s (1 + vq) = of_nat (epoch_count vq (rm_log (rs_main s))))
     \<and> (\<forall>vq. rm_enabled (rs_main s) vq \<longrightarrow> in_force vq (rm_log (rs_main s)))"

text \<open>The parts of the state the main thread's calls and the worker's leave to each other.\<close>

lemma worker_frame [simp]:
  "rs_main (on_worker f s) = rs_main s" "rs_control (on_worker f s) = rs_control s"
  "rs_to_worker (on_worker f s) = rs_to_worker s" "rs_to_main (on_worker f s) = rs_to_main s"
  "rs_memory (on_worker f s) = rs_memory s" "rs_worker (on_worker f s) = f (rs_worker s)"
  by (simp_all add: on_worker_def)

lemma run_device_frame [simp]:
  "rs_main (run_device f s) = rs_main s" "rs_control (run_device f s) = rs_control s"
  "rs_to_worker (run_device f s) = rs_to_worker s" "rs_to_main (run_device f s) = rs_to_main s"
  by (simp_all add: run_device_def Let_def split: prod.split)

lemma serve_message_frame [simp]:
  "rs_main (serve_message stop m s) = rs_main s" "rs_control (serve_message stop m s) = rs_control s"
  "rs_to_worker (serve_message stop m s) = rs_to_worker s" "rs_to_main (serve_message stop m s) = rs_to_main s"
  by (cases m; simp add: if_connected_def send_error_def serve_reset_def Let_def)+

lemmas main_actions = on_main_def remote_log_def post_worker_def advance_epoch_def fail_connection_def revoke_connection_def release_resets_def
  settle_closed_def remote_fail_def receive_completion_def receive_config_def shift_reset_def receive_connected_def remote_receive_def
  endpoint_failure_def remote_attach_def remote_shutdown_def remote_set_features_def remote_setup_def remote_enable_queue_def
  remote_disable_queue_def remote_notify_def remote_reset_def

lemma main_actions_worker [simp]:
  "rs_worker (remote_receive m s) = rs_worker s" "rs_worker (endpoint_failure e s) = rs_worker s" "rs_worker (fst (remote_attach s)) = rs_worker s"
  "rs_worker (remote_shutdown s) = rs_worker s" "rs_worker (fst (remote_set_features f s)) = rs_worker s"
  "rs_worker (fst (remote_setup irq a n s)) = rs_worker s" "rs_worker (fst (remote_enable_queue vq n a irq s)) = rs_worker s"
  "rs_worker (fst (remote_disable_queue vq s)) = rs_worker s" "rs_worker (remote_notify vq s) = rs_worker s" "rs_worker (remote_reset s) = rs_worker s"
  by (simp_all add: main_actions Let_def split: worker_message.split option.split list.split sum.split prod.split)

text \<open>The parts of an action of the main thread.\<close>

lemma epochs_inv_main:
  "epochs_inv s \<Longrightarrow> (\<And>m. rm_log (f m) = rm_log m) \<Longrightarrow> (\<And>m vq. rm_enabled (f m) vq \<Longrightarrow> rm_enabled m vq) \<Longrightarrow> epochs_inv (on_main f s)"
  by (simp add: epochs_inv_def on_main_def)

lemma epochs_inv_say: "epochs_inv s \<Longrightarrow> (\<And>vq. \<not> revokes vq out) \<Longrightarrow> epochs_inv (remote_log out s)"
  by (cases out) (simp_all add: epochs_inv_def remote_log_def on_main_def epoch_count_snoc in_force_snoc, simp_all add: epoch_count_def)

lemma epochs_inv_revoked:
  "epochs_inv s \<Longrightarrow> (\<And>vq. \<not> rm_enabled (rs_main s) vq) \<Longrightarrow> out = RO_reset \<or> out = RO_revoke \<Longrightarrow> epochs_inv (remote_log out s)"
  by (auto simp: epochs_inv_def remote_log_def on_main_def epoch_count_def)

lemma epochs_inv_frame [simp]:
  "epochs_inv (advance_epoch 0 s) = epochs_inv s" "epochs_inv (post_worker m s) = epochs_inv s" "epochs_inv (s\<lparr>rs_memory := mem\<rparr>) = epochs_inv s"
  "epochs_inv (s\<lparr>rs_to_main := ms\<rparr>) = epochs_inv s" "epochs_inv (s\<lparr>rs_to_worker := ws\<rparr>) = epochs_inv s" "epochs_inv (on_worker g s) = epochs_inv s"
  "epochs_inv (run_device h s) = epochs_inv s" "epochs_inv (serve_message stop d s) = epochs_inv s"
  by (simp_all add: epochs_inv_def advance_epoch_def post_worker_def)

lemma epochs_inv_resolved: "epochs_inv s \<Longrightarrow> epochs_inv (on_main (\<lambda>m. m\<lparr>rm_resets := [], rm_log := rm_log m @ map RO_reset_resolved rs\<rparr>) s)"
proof (induction rs arbitrary: s)
  case (Cons r rs)
  have "epochs_inv (remote_log (RO_reset_resolved r) s)" by (rule epochs_inv_say [OF Cons.prems]) simp
  from Cons.IH [OF this] show ?case by (simp add: remote_log_def on_main_def)
qed (auto intro: epochs_inv_main)

lemma epochs_inv_release: "epochs_inv s \<Longrightarrow> epochs_inv (release_resets s)"
  using epochs_inv_resolved [of s "rm_resets (rs_main s)"] by (simp add: release_resets_def on_main_def)

lemmas epochs_rules = epochs_inv_main epochs_inv_say epochs_inv_release

lemma epochs_inv_fail: "epochs_inv s \<Longrightarrow> epochs_inv (fail_connection e s)"
  by (auto simp: fail_connection_def intro!: epochs_rules)

lemma epochs_inv_revoke: "epochs_inv s \<Longrightarrow> epochs_inv (revoke_connection s)"
  by (auto simp: revoke_connection_def advance_epoch_def on_main_def intro!: epochs_inv_revoked) (simp add: epochs_inv_def)

lemma epochs_inv_remote_fail: "epochs_inv s \<Longrightarrow> epochs_inv (remote_fail e s)"
  by (auto simp: remote_fail_def settle_closed_def intro!: epochs_rules epochs_inv_fail)

lemma epochs_inv_receive: "epochs_inv s \<Longrightarrow> epochs_inv (remote_receive m s)"
  by (auto simp: remote_receive_def receive_connected_def receive_completion_def receive_config_def shift_reset_def settle_closed_def Let_def
      intro!: epochs_rules epochs_inv_fail epochs_inv_revoke epochs_inv_remote_fail split: worker_message.split option.split sum.split list.split)

lemma epochs_inv_enable: "epochs_inv s \<Longrightarrow> epochs_inv (fst (remote_enable_queue vq n a irq s))"
  by (auto simp: remote_enable_queue_def Let_def epochs_inv_def remote_log_def on_main_def advance_epoch_def post_worker_def epoch_count_snoc
      epoch_count_one in_force_enabled in_force_snoc add.commute)

lemma epochs_inv_disable: "epochs_inv s \<Longrightarrow> epochs_inv (fst (remote_disable_queue vq s))"
  by (auto simp: remote_disable_queue_def epochs_inv_def remote_log_def on_main_def advance_epoch_def post_worker_def epoch_count_snoc
      epoch_count_one in_force_snoc add.commute split: if_splits)

lemma epochs_inv_reset: "epochs_inv s \<Longrightarrow> epochs_inv (remote_reset s)"
  by (simp add: remote_reset_def) (rule epochs_inv_revoked; simp add: on_main_def advance_epoch_def epochs_inv_def)

lemma epochs_inv_step: "remote_step s s' \<Longrightarrow> epochs_inv s \<Longrightarrow> epochs_inv s'"
proof (induction rule: remote_step.cases)
qed (auto simp: remote_attach_def remote_set_features_def remote_setup_def remote_notify_def endpoint_failure_def remote_shutdown_def
    intro!: epochs_rules epochs_inv_receive epochs_inv_enable epochs_inv_disable epochs_inv_reset epochs_inv_remote_fail epochs_inv_revoke
    split: option.split)

lemma epochs_inv_reachable: "remote_reachable s \<Longrightarrow> epochs_inv s"
  by (induction rule: remote_reachable.induct)
    (auto simp: epochs_inv_step, simp add: epochs_inv_def remote_start_def create_remote_device_def epoch_count_def)

section \<open>The device in the worker\<close>

text \<open>Memory keeps its size, and the guest's window for the configuration lies in it.\<close>

lemma publish_length: "publish_virtqueue_completion mem c = Inr mem' \<Longrightarrow> length mem' = length mem"
proof -
  have outputs: "length m = length mem" if "write_outputs mem (c_outputs c) = Inr m" for m
    using write_outputs_clear [OF that, of 0 0] by (simp add: outputs_clear_def)
  have field: "length m' = length m" if "ty_set (Struct VirtqDescriptor) (whole_view m) a (Obj kvs) = Inr m'" for m m' a kvs
    using only_writes_length [OF ty_set_only_writes [OF that]] by simp
  assume "publish_virtqueue_completion mem c = Inr mem'"
  then obtain m1 m2 m3 where "write_outputs mem (c_outputs c) = Inr m1"
    "ty_set (Struct VirtqDescriptor) (whole_view m1) (c_descriptor_address c) (Obj [(''id'', Num (int (c_id c)))]) = Inr m2"
    "ty_set (Struct VirtqDescriptor) (whole_view m2) (c_descriptor_address c) (Obj [(''len'', Num (int (c_written c)))]) = Inr m3"
    "store_flags m3 (c_descriptor_address c) (c_flags c) = Inr mem'"
    unfolding publish_virtqueue_completion_def bindE_eq_Inr by blast
  with outputs [OF this(1)] field [OF this(2)] field [OF this(3)] show ?thesis
    by (auto simp: store_flags_def Let_def length_overwrite split: if_splits)
qed

definition memory_inv :: "nat \<Rightarrow> remote_system \<Rightarrow> bool" where
  "memory_inv n s \<longleftrightarrow> length (rs_memory s) = n
     \<and> (case rm_target (rs_main s) of None \<Rightarrow> True | Some (address, len) \<Rightarrow> address + len \<le> n)"

lemma memory_inv_parts [simp]:
  "memory_inv n (remote_log out s) = memory_inv n s" "memory_inv n (post_worker m s) = memory_inv n s"
  "memory_inv n (advance_epoch slot s) = memory_inv n s" "memory_inv n (settle_closed r s) = memory_inv n s"
  "memory_inv n (fail_connection e s) = memory_inv n s" "memory_inv n (revoke_connection s) = memory_inv n s"
  "memory_inv n (release_resets s) = memory_inv n s" "memory_inv n (remote_fail e s) = memory_inv n s"
  by (simp_all add: memory_inv_def remote_log_def on_main_def post_worker_def advance_epoch_def settle_closed_def fail_connection_def
      revoke_connection_def release_resets_def remote_fail_def)

lemma memory_inv_receive: "memory_inv n s \<Longrightarrow> memory_inv n (remote_receive m s)"
proof -
  assume inv: "memory_inv n s"
  have "memory_inv n (receive_completion vq irq de qe c s)" for vq irq de qe c
    using inv by (auto simp: receive_completion_def memory_inv_def remote_log_def on_main_def publish_length split: sum.split)
  moreover have "memory_inv n (receive_config irq config b s)" for irq config b
    using inv by (auto simp: receive_config_def Let_def memory_inv_def remote_log_def on_main_def length_overwrite split: option.split)
  moreover have "memory_inv n (shift_reset s)" using inv by (simp add: shift_reset_def memory_inv_def remote_log_def on_main_def split: list.split)
  moreover have "memory_inv n (on_main (\<lambda>m. m\<lparr>rm_listening := False\<rparr>) s)" using inv by (simp add: memory_inv_def on_main_def)
  ultimately show ?thesis
    using inv by (auto simp: remote_receive_def receive_connected_def Let_def split: worker_message.split option.split)
qed

text \<open>A device in a worker is in a state the attached device of \<open>Virtio_Device\<close> can reach.\<close>

definition present_device :: "remote_system \<Rightarrow> virtio_device" where
  "present_device s = (sv_device (rs_worker s))\<lparr>vd_mem := rs_memory s\<rparr>"

definition unattached :: "virtio_device \<Rightarrow> bool" where
  "unattached d \<longleftrightarrow> vd_stopped d \<or> (\<exists>queues features config views mem. d = new_device queues features config views mem)"

definition serves_inv :: "remote_system \<Rightarrow> bool" where
  "serves_inv s \<longleftrightarrow> (if sv_connected (rs_worker s) then reachable (present_device s) else unattached (present_device s))"

lemma reachable_memory: "reachable d \<Longrightarrow> length mem = length (vd_mem d) \<Longrightarrow> reachable (d\<lparr>vd_mem := mem\<rparr>)"
  using reachable.step [of d "DriverWrites mem"] by simp

lemma unattached_memory: "unattached d \<Longrightarrow> unattached (d\<lparr>vd_mem := mem\<rparr>)"
  by (auto simp: unattached_def new_device_def)

lemma serves_inv_memory:
  assumes "serves_inv s" "rs_worker s' = rs_worker s" "length (rs_memory s') = length (rs_memory s)"
  shows "serves_inv s'"
proof -
  have "present_device s' = (present_device s)\<lparr>vd_mem := rs_memory s'\<rparr>" "length (rs_memory s') = length (vd_mem (present_device s))"
    using assms(2,3) by (simp_all add: present_device_def)
  with assms(1,2) reachable_memory unattached_memory show ?thesis by (metis serves_inv_def)
qed

text \<open>A step of the device itself: what it does is an event of the attached device.\<close>

lemma run_device_worker [simp]:
  "present_device (run_device f s) = fst (f (present_device s))"
  "sv_device (rs_worker (run_device f s)) = fst (f (present_device s))" "rs_memory (run_device f s) = vd_mem (fst (f (present_device s)))"
  "sv_connected (rs_worker (run_device f s)) = sv_connected (rs_worker s)" "sv_waits (rs_worker (run_device f s)) = sv_waits (rs_worker s)"
  "sv_acked (rs_worker (run_device f s)) = sv_acked (rs_worker s)" "sv_bound (rs_worker (run_device f s)) = sv_bound (rs_worker s)"
  "sv_listening (rs_worker (run_device f s)) = sv_listening (rs_worker s)" "sv_closing (rs_worker (run_device f s)) = sv_closing (rs_worker s)"
  by (simp_all add: run_device_def Let_def present_device_def split: prod.split)

lemma present_device_worker: "(\<And>w. sv_device (f w) = sv_device w) \<Longrightarrow> present_device (on_worker f s) = present_device s"
  by (simp add: present_device_def)

lemma present_device_post [simp]:
  "present_device (s\<lparr>rs_to_main := ms\<rparr>) = present_device s" "present_device (s\<lparr>rs_to_worker := ws\<rparr>) = present_device s"
  by (simp_all add: present_device_def)

lemma serves_inv_run:
  assumes "serves_inv s" "device_step e (present_device s) = Some (fst (f (present_device s)))" "sv_connected (rs_worker s)"
  shows "serves_inv (run_device f s)"
  using assms reachable.step by (auto simp: serves_inv_def)

lemma serves_inv_unattached: "\<not> sv_connected (rs_worker s) \<Longrightarrow> unattached (fst (f (present_device s))) \<Longrightarrow> serves_inv (run_device f s)"
  by (simp add: serves_inv_def)

text \<open>The parts of the worker the device does not see.\<close>

lemma serves_inv_worker:
  "serves_inv s \<Longrightarrow> (\<And>w. sv_device (f w) = sv_device w) \<Longrightarrow> (\<And>w. sv_connected (f w) = sv_connected w) \<Longrightarrow> serves_inv (on_worker f s)"
  by (simp add: serves_inv_def present_device_worker)

lemma serves_inv_post [simp]: "serves_inv (s\<lparr>rs_to_main := ms\<rparr>) = serves_inv s" "serves_inv (s\<lparr>rs_to_worker := ws\<rparr>) = serves_inv s"
  by (simp_all add: serves_inv_def)

lemma serves_inv_attach:
  assumes "serves_inv s" "\<not> sv_connected (rs_worker s)"
  shows "serves_inv (on_worker (\<lambda>w. w\<lparr>sv_connected := is_ok (snd (attach True (sv_device (rs_worker s))))\<rparr>) (run_device (attach True) s))"
proof -
  obtain d r where d: "attach True (present_device s) = (d, r)" by fastforce
  have r: "snd (attach True (sv_device (rs_worker s))) = r" using d by (auto simp: attach_def present_device_def split: if_splits)
  have now: "present_device (on_worker (\<lambda>w. w\<lparr>sv_connected := b\<rparr>) (run_device (attach True) s)) = d" for b
    using d by (simp add: present_device_worker)
  show ?thesis
  proof (cases r)
    case (Inl e)
    hence "d = present_device s" using d by (auto simp: attach_def split: if_splits)
    with assms Inl r now show ?thesis by (simp add: serves_inv_def is_ok_def)
  next
    case (Inr u)
    hence "\<not> vd_stopped (present_device s)" using d by (auto simp: attach_def split: if_splits)
    with assms obtain queues features config views mem where "present_device s = new_device queues features config views mem"
      unfolding serves_inv_def unattached_def by auto
    with d Inr have "reachable d" using reachable.attached by simp
    with Inr r now show ?thesis by (simp add: serves_inv_def is_ok_def)
  qed
qed

lemma serves_inv_serve: "serves_inv s \<Longrightarrow> serves_inv (serve_message stop m s)"
proof -
  assume inv: "serves_inv s"
  have ok: "serves_inv (if_connected (run_device f) s')"
    if "serves_inv s'" "\<And>d. device_step e d = Some (fst (f d))" for f :: "virtio_device \<Rightarrow> virtio_device \<times> unit result" and e s'
    using that serves_inv_run [of s' e f] by (simp add: if_connected_def)
  have worker: "serves_inv (on_worker f s)" if "\<And>w. sv_device (f w) = sv_device w" "\<And>w. sv_connected (f w) = sv_connected w" for f
    using serves_inv_worker [OF inv that] .
  have bound: "serves_inv (on_worker (\<lambda>w. w\<lparr>sv_bound := True\<rparr>) s)" by (rule worker) simp_all
  show ?thesis
  proof (cases m)
    case D_bind
    with worker serves_inv_attach [OF bound] show ?thesis by (auto simp: send_error_def Let_def)
  next
    case (D_features f)
    with ok [OF inv, of "SetFeatures f"] show ?thesis by simp
  next
    case (D_setup irq len)
    with ok [OF inv, of "SetupConfig irq 0 len"] show ?thesis by simp
  next
    case (D_enable vq n a irq de qe)
    with ok [of _ "EnableQueue vq n a irq"] worker show ?thesis by simp
  next
    case (D_disable vq)
    with ok [OF inv, of "DisableQueue vq"] show ?thesis by simp
  next
    case (D_notify vq)
    with ok [OF inv, of "Notify vq"] show ?thesis by simp
  next
    case D_reset
    let ?s1 = "on_worker (\<lambda>w. w\<lparr>sv_epoch := rs_control s 0\<rparr>) s"
    have s1: "serves_inv ?s1" by (rule worker) simp_all
    have "serves_inv (run_device (\<lambda>d. (fst (guest_reset d), Inr ())) ?s1)" if "sv_connected (rs_worker s)"
      by (rule serves_inv_run [OF s1, of GuestReset]) (use that in simp_all)
    with D_reset worker serves_inv_worker [OF s1] serves_inv_worker show ?thesis by (auto simp: serve_reset_def send_error_def Let_def)
  next
    case D_close
    let ?s1 = "on_worker (\<lambda>w. w\<lparr>sv_closing := True\<rparr>) s"
    have s1: "serves_inv ?s1" by (rule worker) simp_all
    have "unattached (shutdown stop d)" for d by (simp add: unattached_def shutdown_def shutdown_turn_def)
    have "serves_inv (run_device (\<lambda>d. (shutdown stop d, Inr ())) ?s1)"
    proof (cases "sv_connected (rs_worker s)")
      case True
      thus ?thesis by (intro serves_inv_run [OF s1, of "Shutdown stop"]) simp_all
    next
      case False
      thus ?thesis by (intro serves_inv_unattached) (simp_all add: \<open>unattached (shutdown stop _)\<close>)
    qed
    with D_close inv show ?thesis by simp
  qed
qed

lemma shutdown_event_unattached: "shutdown_event e \<Longrightarrow> device_step e d = Some d' \<Longrightarrow> unattached d \<Longrightarrow> unattached d'"
  by (auto simp: shutdown_event_def unattached_def new_device_def shutdown_resume_def shutdown_turn_def close_settled_def
      split: device_event.splits shutdown_phase.splits)

text \<open>Attached with hooks, a device writes no guest memory by itself, and work that has settled stays settled.\<close>

definition hooked :: "virtio_device \<Rightarrow> bool" where
  "hooked d \<longleftrightarrow> vd_hooks d \<and> (case vd_attached d of None \<Rightarrow> True | Some a \<Rightarrow> at_target a \<noteq> None)"

text \<open>Work settles and never comes back, and what is under way stays under way until it has settled.\<close>

definition progress :: "virtio_device \<Rightarrow> virtio_device \<Rightarrow> bool" where
  "progress d d' \<longleftrightarrow> finished_work d \<subseteq> finished_work d' \<and> vd_views d' = vd_views d
     \<and> set (vd_active d) \<subseteq> set (vd_active d') \<union> finished_work d'"

lemma progress_trans: "progress d d1 \<Longrightarrow> progress d1 d2 \<Longrightarrow> progress d d2"
  by (auto simp: progress_def)

lemma progress_refl [simp]: "progress d d"
  by (simp add: progress_def)

definition device_keeps :: "virtio_device \<Rightarrow> virtio_device \<Rightarrow> bool" where
  "device_keeps d d' \<longleftrightarrow> (hooked d \<longrightarrow> vd_mem d' = vd_mem d \<and> hooked d') \<and> progress d d'"

lemma progress_same:
  "vd_settled d' = vd_settled d \<Longrightarrow> vd_views d' = vd_views d \<Longrightarrow> set (vd_active d) \<subseteq> set (vd_active d') \<Longrightarrow> progress d d'"
  by (auto simp: progress_def finished_work_def)

lemma device_keeps_same:
  "vd_mem d' = vd_mem d \<Longrightarrow> vd_hooks d' = vd_hooks d \<Longrightarrow> vd_attached d' = vd_attached d \<Longrightarrow> vd_settled d' = vd_settled d
    \<Longrightarrow> vd_views d' = vd_views d \<Longrightarrow> set (vd_active d) \<subseteq> set (vd_active d') \<Longrightarrow> device_keeps d d'"
  by (simp add: device_keeps_def hooked_def progress_same)

lemma device_keeps_trans: "device_keeps d d1 \<Longrightarrow> device_keeps d1 d2 \<Longrightarrow> device_keeps d d2"
  by (auto simp: device_keeps_def intro: progress_trans)

lemmas device_operations = drain_def drain_turn_def drain_end_def suspend_def start_kick_def report_def emit_def set_state_def Let_def

lemma keeps_drain: "device_keeps d (drain vq d)" "device_keeps d (drain_turn vq g d)" "device_keeps d (drain_end vq d)"
  by (auto intro!: device_keeps_same simp: device_operations split: option.split)

lemma keeps_resume: "device_keeps d (drain_resume vq w r d)"
  by (auto intro!: device_keeps_same simp: drain_resume_def device_operations split: option.split)

lemma device_keeps_update: "device_keeps d (update_config d)"
  by (auto intro!: progress_same simp: device_keeps_def hooked_def update_config_def raise_config_def write_config_def emit_def split: option.splits)

lemma keeps_setup: "device_keeps d (fst (setup_config irq a n d))"
  by (auto intro!: progress_same simp: device_keeps_def hooked_def setup_config_def update_config_def raise_config_def write_config_def emit_def Let_def split: option.splits)

lemma keeps_transfer: "device_keeps d (set_virtq g q d)" "device_keeps d (fst (complete_chain g hook ch n d))" "device_keeps d (irq_task g d)"
proof -
  have virtq: "device_keeps d (set_virtq g q d)" for g q d by (rule device_keeps_same) (simp_all add: set_virtq_def)
  moreover have "device_keeps d (fst (publish g c d))" for c d
    by (auto intro!: progress_same simp: publish_def device_keeps_def hooked_def emit_def set_armed_def split: sum.split)
  ultimately have "device_keeps d (fst (publish g c (set_virtq g q d)))" for c q using device_keeps_trans by blast
  with virtq show "device_keeps d (fst (complete_chain g hook ch n d))"
    by (auto simp: complete_chain_def split: prod.split sum.split option.split)
  show "device_keeps d (set_virtq g q d)" by (rule virtq)
  show "device_keeps d (irq_task g d)" by (rule device_keeps_same) (simp_all add: irq_task_def set_armed_def emit_def Let_def)
qed

lemma keeps_queues: "device_keeps d (fst (enable_queue vq n a irq d))" "device_keeps d (disable_queue vq d)" "device_keeps d (fst (guest_reset d))" "device_keeps d (notify vq d)"
  by (auto intro!: device_keeps_same simp: enable_queue_def install_queue_def retire_queue_def disable_queue_def guest_reset_def notify_def
      device_operations split: option.split sum.split)

lemma remove_active: "set (vd_active d) \<subseteq> insert w (set (remove1 w (vd_active d)))"
  using in_set_remove1 by fast

lemma device_step_keeps:
  assumes "device_step e d = Some d'" "\<And>mem. e \<noteq> DriverWrites mem"
  shows "device_keeps d d'"
  using assms
proof (cases e)
  case (UpdateConfig cfg)
  have "device_keeps d (d\<lparr>vd_config := cfg\<rparr>)" by (rule device_keeps_same) simp_all
  from device_keeps_trans [OF this device_keeps_update] assms UpdateConfig show ?thesis by auto
next
  case (Settle w r)
  have "device_keeps d (settle w r d)"
    using remove_active [of d w]
    by (cases w; cases r) (auto simp: device_keeps_def hooked_def progress_def finished_work_def settle_def Let_def report_def emit_def split: option.split)
  with assms Settle show ?thesis by auto
qed (auto simp: keeps_queues keeps_setup keeps_resume keeps_transfer set_features_def spawn_def take_chain_def shutdown_def shutdown_resume_def
    shutdown_turn_def close_settled_def emit_def split: if_splits option.splits shutdown_phase.splits intro: device_keeps_same)

text \<open>What a segment of the worker leaves as it was.\<close>

definition worker_keeps :: "remote_system \<Rightarrow> remote_system \<Rightarrow> bool" where
  "worker_keeps s s' \<longleftrightarrow> rs_memory s' = rs_memory s \<and> (sv_connected (rs_worker s') \<longrightarrow> hooked (present_device s'))
     \<and> progress (present_device s) (present_device s')"

lemma present_settled: "vd_active (present_device s) = vd_active (sv_device (rs_worker s))" "vd_views (present_device s) = vd_views (sv_device (rs_worker s))"
  "vd_settled (present_device s) = vd_settled (sv_device (rs_worker s))" "vd_phase (present_device s) = vd_phase (sv_device (rs_worker s))"
  by (simp_all add: present_device_def)

lemma worker_keeps_run:
  assumes "device_keeps (present_device s) (fst (f (present_device s)))" "sv_connected (rs_worker s) \<longrightarrow> hooked (present_device s)"
    and "vd_mem (fst (f (present_device s))) = vd_mem (present_device s) \<or> sv_connected (rs_worker s)"
  shows "worker_keeps s (run_device f s)"
  using assms by (auto simp: worker_keeps_def device_keeps_def) (simp_all add: present_device_def)

lemma worker_keeps_on_worker:
  assumes "worker_keeps s s'" "\<And>w. sv_device (f w) = sv_device w" "\<And>w. sv_connected (f w) = sv_connected w"
  shows "worker_keeps s (on_worker f s')"
  using assms by (simp add: worker_keeps_def present_device_worker)

lemma worker_keeps_refl: "sv_connected (rs_worker s) \<longrightarrow> hooked (present_device s) \<Longrightarrow> worker_keeps s s"
  by (simp add: worker_keeps_def)

lemma worker_keeps_from:
  "worker_keeps (on_worker f s) s' \<Longrightarrow> (\<And>w. sv_device (f w) = sv_device w) \<Longrightarrow> worker_keeps s s'"
  by (simp add: worker_keeps_def present_device_worker)

lemma serve_message_keeps:
  assumes "sv_connected (rs_worker s) \<longrightarrow> hooked (present_device s)"
  shows "worker_keeps s (serve_message stop m s)"
proof -
  have run: "worker_keeps s (if_connected (run_device f) s)" if "device_keeps (present_device s) (fst (f (present_device s)))"
    for f :: "virtio_device \<Rightarrow> virtio_device \<times> unit result"
    using worker_keeps_run [of s f] that assms worker_keeps_refl [OF assms] by (simp add: if_connected_def)
  have mark: "worker_keeps s (on_worker f s)" if "\<And>w. sv_device (f w) = sv_device w" "\<And>w. sv_connected (f w) = sv_connected w" for f
    using worker_keeps_on_worker [OF worker_keeps_refl [OF assms] that] .
  show ?thesis
  proof (cases m)
    case D_bind
    let ?s1 = "on_worker (\<lambda>w. w\<lparr>sv_bound := True\<rparr>) s"
    have now: "present_device ?s1 = present_device s" by (simp add: present_device_worker)
    have "worker_keeps s (on_worker (\<lambda>w. w\<lparr>sv_connected := b\<rparr>) (run_device (attach True) ?s1))"
      if "b = is_ok (snd (attach True (present_device s)))" "\<not> sv_connected (rs_worker s)" for b
      using that by (auto simp: worker_keeps_def present_device_worker now attach_def is_ok_def hooked_def intro!: progress_same) (simp_all add: present_device_def)
    moreover have "is_ok (snd (attach True (present_device s))) = is_ok (snd (attach True (sv_device (rs_worker s))))"
      by (simp add: attach_def present_device_def)
    ultimately show ?thesis using D_bind mark by (simp add: send_error_def Let_def)
  next
    case (D_features f)
    with run show ?thesis by (simp add: set_features_def device_keeps_same)
  next
    case (D_setup irq len)
    with run keeps_setup show ?thesis by simp
  next
    case (D_enable vq n a irq de qe)
    let ?s1 = "on_worker (\<lambda>w. w\<lparr>sv_epoch := de, sv_qepochs := (sv_qepochs w)(vq := qe)\<rparr>) s"
    have "worker_keeps ?s1 (if_connected (run_device (enable_queue vq n a irq)) ?s1)"
      using worker_keeps_run [of ?s1 "enable_queue vq n a irq"] keeps_queues(1) worker_keeps_refl [of ?s1] assms
      by (simp add: if_connected_def present_device_worker)
    with D_enable worker_keeps_from show ?thesis by simp
  next
    case (D_disable vq)
    with run keeps_queues show ?thesis by simp
  next
    case (D_notify vq)
    with run keeps_queues show ?thesis by simp
  next
    case D_reset
    let ?s1 = "on_worker (\<lambda>w. w\<lparr>sv_epoch := rs_control s 0\<rparr>) s"
    have "worker_keeps ?s1 (run_device (\<lambda>d. (fst (guest_reset d), Inr ())) ?s1)" if "sv_connected (rs_worker s)"
      using worker_keeps_run [of ?s1 "\<lambda>d. (fst (guest_reset d), Inr ())"] keeps_queues(3) assms that by (simp add: present_device_worker)
    hence "worker_keeps s (run_device (\<lambda>d. (fst (guest_reset d), Inr ())) ?s1)" if "sv_connected (rs_worker s)"
      using worker_keeps_from that by simp
    with D_reset mark worker_keeps_on_worker show ?thesis by (auto simp: serve_reset_def send_error_def Let_def)
  next
    case D_close
    let ?s1 = "on_worker (\<lambda>w. w\<lparr>sv_closing := True\<rparr>) s"
    have same: "device_keeps d (shutdown stop d)" "vd_mem (shutdown stop d) = vd_mem d" for d
      by (auto intro!: device_keeps_same simp: shutdown_def shutdown_turn_def emit_def)
    have "worker_keeps ?s1 (run_device (\<lambda>d. (shutdown stop d, Inr ())) ?s1)"
      using worker_keeps_run [of ?s1 "\<lambda>d. (shutdown stop d, Inr ())"] same assms by (simp add: present_device_worker)
    with D_close worker_keeps_from worker_keeps_refl [OF assms] show ?thesis by simp
  qed
qed

lemma own_event_keeps:
  assumes "sv_connected (rs_worker s) \<longrightarrow> hooked (present_device s)" "own_event s e" "sv_connected (rs_worker s) \<or> shutdown_event e"
    and "device_step e (present_device s) = Some d"
  shows "worker_keeps s (run_device (\<lambda>_. (d, Inr ())) s)" "vd_phase (present_device s) = Closed f \<Longrightarrow> vd_phase d = Closed f"
proof -
  have "device_keeps (present_device s) d" using device_step_keeps [OF assms(4)] assms(2) by (cases e) auto
  moreover have "vd_mem d = vd_mem (present_device s)" if "shutdown_event e"
    using that assms(4) by (auto simp: shutdown_event_def shutdown_resume_def shutdown_turn_def close_settled_def emit_def
        split: device_event.splits shutdown_phase.splits)
  ultimately show "worker_keeps s (run_device (\<lambda>_. (d, Inr ())) s)"
    using worker_keeps_run [of s "\<lambda>_. (d, Inr ())"] assms(1,3) by auto
  have "vd_phase d = vd_phase (present_device s)" if "\<not> shutdown_event e"
  proof (cases "transfer_event e")
    case True
    with transfer_event_frame [OF assms(4)] show ?thesis by (simp add: transfer_frame_def)
  next
    case False
    have "vd_phase (settle w r d) = vd_phase d" "vd_phase (drain_resume vq w' r d) = vd_phase d" for w w' r d vq
      using settle_life [of d w r] drain_resume_life [of d vq w' r] by (simp_all add: life_frame_def)
    with False that assms(2,4) show ?thesis by (cases e) (auto simp: shutdown_event_def spawn_def split: if_splits)
  qed
  moreover have "vd_phase d = Closed f" if "shutdown_event e" "vd_phase (present_device s) = Closed f"
    using that assms(4) by (auto simp: shutdown_event_def split: device_event.splits)
  ultimately show "vd_phase d = Closed f" if "vd_phase (present_device s) = Closed f" using that by fastforce
qed

section \<open>Resets\<close>

definition resolved_resets :: "remote_output list \<Rightarrow> nat set" where
  "resolved_resets log = {i. RO_reset_resolved i \<in> set log}"

text \<open>What the main thread knows of the resets, and the actions that leave it alone.\<close>

definition reset_view :: "remote_system \<Rightarrow> nat list \<times> nat \<times> nat set" where
  "reset_view s = (rm_resets (rs_main s), rm_next_reset (rs_main s), resolved_resets (rm_log (rs_main s)))"

lemma reset_view_log: "(\<And>i. out \<noteq> RO_reset_resolved i) \<Longrightarrow> reset_view (remote_log out s) = reset_view s"
  by (auto simp: reset_view_def remote_log_def on_main_def resolved_resets_def)

lemma reset_view_actions [simp]:
  "reset_view (post_worker m s) = reset_view s" "reset_view (advance_epoch slot s) = reset_view s" "reset_view (settle_closed r s) = reset_view s"
  "reset_view (fail_connection e s) = reset_view s" "reset_view (revoke_connection s) = reset_view s" "reset_view (remote_fail e s) = reset_view s"
  "reset_view (receive_completion vq irq de qe c s) = reset_view s" "reset_view (receive_config irq config b s) = reset_view s"
  "reset_view (endpoint_failure e s) = reset_view s" "reset_view (fst (remote_attach s)) = reset_view s" "reset_view (remote_shutdown s) = reset_view s"
  "reset_view (fst (remote_set_features f s)) = reset_view s" "reset_view (fst (remote_setup irq a n s)) = reset_view s"
  "reset_view (fst (remote_enable_queue vq n a irq s)) = reset_view s" "reset_view (fst (remote_disable_queue vq s)) = reset_view s"
  "reset_view (remote_notify vq s) = reset_view s"
proof -
  show primitive: "reset_view (post_worker m s) = reset_view s" "reset_view (advance_epoch slot s) = reset_view s"
    "reset_view (settle_closed r s) = reset_view s" for m slot r s
    by (simp_all add: reset_view_def post_worker_def advance_epoch_def settle_closed_def on_main_def)
  have main: "reset_view (on_main f s) = reset_view s"
    if "\<And>m. rm_resets (f m) = rm_resets m" "\<And>m. rm_next_reset (f m) = rm_next_reset m" "\<And>m. rm_log (f m) = rm_log m" for f s
    using that by (simp add: reset_view_def on_main_def)
  have memory: "reset_view (s\<lparr>rs_memory := mem\<rparr>) = reset_view s" for mem s by (simp add: reset_view_def)
  show fail: "reset_view (fail_connection e s) = reset_view s" for e s by (simp add: fail_connection_def reset_view_log primitive main)
  show revoke: "reset_view (revoke_connection s) = reset_view s" for s by (simp add: revoke_connection_def reset_view_log primitive main)
  show terminal: "reset_view (remote_fail e s) = reset_view s" for e s by (simp add: remote_fail_def primitive main fail)
  show "reset_view (receive_completion vq irq de qe c s) = reset_view s"
    by (simp add: receive_completion_def reset_view_log memory split: sum.split)
  show "reset_view (receive_config irq config b s) = reset_view s"
    by (simp add: receive_config_def Let_def reset_view_log memory main split: option.split)
  show "reset_view (endpoint_failure e s) = reset_view s" "reset_view (fst (remote_attach s)) = reset_view s"
    "reset_view (remote_shutdown s) = reset_view s" "reset_view (fst (remote_set_features f s)) = reset_view s"
    "reset_view (fst (remote_setup irq a n s)) = reset_view s" "reset_view (fst (remote_enable_queue vq n a irq s)) = reset_view s"
    "reset_view (fst (remote_disable_queue vq s)) = reset_view s" "reset_view (remote_notify vq s) = reset_view s"
    by (simp_all add: endpoint_failure_def remote_attach_def remote_shutdown_def remote_set_features_def remote_setup_def remote_enable_queue_def
        remote_disable_queue_def remote_notify_def Let_def primitive main memory fail revoke terminal reset_view_log split: option.split)
qed

definition acks :: "worker_message list \<Rightarrow> nat" where
  "acks ms = length (filter (\<lambda>m. m = M_reset_done) ms)"

text \<open>
  Until the worker reports its device closed, the resets the guest waits for are consecutive, and each acknowledgement on its way stands for
  one more that the worker has finished.
\<close>

definition outstanding :: "nat list \<times> nat \<times> nat set \<Rightarrow> worker_message list \<Rightarrow> nat \<Rightarrow> bool" where
  "outstanding view ms acked \<longleftrightarrow> (\<forall>r. M_closed r \<notin> set ms) \<and> (case view of (ids, next_reset, resolved) \<Rightarrow>
     \<exists>k \<le> next_reset. ids = [k..<next_reset] \<and> k + acks ms \<le> acked \<and> (\<forall>i \<in> resolved. i < k))"

definition finished_device :: "remote_system \<Rightarrow> bool" where
  "finished_device s \<longleftrightarrow> (\<exists>r. vd_phase (present_device s) = Closed r) \<and> \<not> sv_listening (rs_worker s)"

text \<open>
  The books of the worker: the resets it has taken up and the ones it has acknowledged, beside the device.  Only a device with views makes a
  reset wait, and for all the work under way, so what an earlier reset waits for a later one waits for too.
\<close>

definition books :: "work list list \<Rightarrow> nat list \<Rightarrow> bool \<Rightarrow> virtio_device \<Rightarrow> bool" where
  "books waits acked connected d \<longleftrightarrow> distinct acked
     \<and> (\<forall>i \<in> set acked. i < length waits \<and> set (waits ! i) \<subseteq> finished_work d)
     \<and> (\<forall>ws \<in> set waits. set ws \<subseteq> set (vd_active d) \<union> finished_work d \<and> (ws \<noteq> [] \<longrightarrow> connected \<and> vd_views d))
     \<and> sorted_wrt (\<lambda>ws ws'. set ws \<subseteq> set ws' \<union> finished_work d) waits"

definition waits_settled :: "remote_system \<Rightarrow> bool" where
  "waits_settled s \<longleftrightarrow>
     books (sv_waits (rs_worker s)) (sv_acked (rs_worker s)) (sv_connected (rs_worker s)) (present_device s)
     \<and> (\<forall>message. Post message \<in> set (sv_outbox (rs_worker s)) \<longrightarrow> (\<exists>e. message = M_error e))"

lemma books_later:
  assumes "books waits acked c d" "progress d d'" "c \<longrightarrow> c'"
  shows "books waits acked c' d'"
proof -
  have "sorted_wrt (\<lambda>ws ws'. set ws \<subseteq> set ws' \<union> finished_work d') waits"
    by (rule sorted_wrt_mono_rel [of _ "\<lambda>ws ws'. set ws \<subseteq> set ws' \<union> finished_work d"]) (use assms in \<open>auto simp: books_def progress_def\<close>)
  thus ?thesis using assms unfolding books_def progress_def by blast
qed

lemma books_reset:
  assumes "books waits acked c d" "ws = (if c \<and> vd_views d then vd_active d else [])"
  shows "books (waits @ [ws]) acked c d"
proof -
  have "set ws' \<subseteq> set ws \<union> finished_work d" if "ws' \<in> set waits" for ws'
    using assms that by (cases "ws' = []") (auto simp: books_def)
  moreover have "set ws \<subseteq> set (vd_active d) \<union> finished_work d" "ws \<noteq> [] \<longrightarrow> c \<and> vd_views d" using assms(2) by auto
  moreover have "i < length (waits @ [ws]) \<and> set ((waits @ [ws]) ! i) \<subseteq> finished_work d" if "i \<in> set acked" for i
    using assms(1) that by (auto simp: books_def nth_append)
  ultimately show ?thesis using assms(1) unfolding books_def by (simp add: sorted_wrt_append)
qed

lemma books_acknowledge:
  "books waits acked c d \<Longrightarrow> i < length waits \<Longrightarrow> i \<notin> set acked \<Longrightarrow> set (waits ! i) \<subseteq> finished_work d \<Longrightarrow> books waits (acked @ [i]) c d"
  by (auto simp: books_def)

text \<open>The first acknowledgements stand for the first resets, whichever the worker meant.\<close>

lemma books_finished:
  assumes "books waits acked c d" "i < length acked"
  shows "i < length waits" "set (waits ! i) \<subseteq> finished_work d"
proof -
  have "\<exists>j \<in> set acked. i \<le> j"
  proof (rule ccontr)
    assume "\<not> ?thesis"
    hence "set acked \<subseteq> {..<i}" by auto
    hence "card (set acked) \<le> i" using card_mono [of "{..<i}" "set acked"] by simp
    thus False using assms by (simp add: books_def distinct_card)
  qed
  then obtain j where j: "j \<in> set acked" "i \<le> j" by blast
  hence fin: "j < length waits" "set (waits ! j) \<subseteq> finished_work d" using assms(1) by (auto simp: books_def)
  have "set (waits ! i) \<subseteq> set (waits ! j) \<union> finished_work d" if "i < j"
  proof (rule sorted_wrt_nth_less [OF _ that fin(1)])
    show "sorted_wrt (\<lambda>ws ws'. set ws \<subseteq> set ws' \<union> finished_work d) waits" using assms(1) by (simp add: books_def)
  qed
  with j(2) fin show "i < length waits" "set (waits ! i) \<subseteq> finished_work d" by (auto simp: le_less)
qed

definition resets_inv :: "remote_system \<Rightarrow> bool" where
  "resets_inv s \<longleftrightarrow> waits_settled s \<and> (finished_device s \<or> outstanding (reset_view s) (rs_to_main s) (length (sv_acked (rs_worker s))))"

lemma acks_simps [simp]: "acks [] = 0" "acks (m # ms) = (if m = M_reset_done then 1 else 0) + acks ms" "acks (ms @ ns) = acks ms + acks ns"
  by (simp_all add: acks_def)

lemma outstanding_more: "outstanding view ms acked \<Longrightarrow> \<forall>m \<in> set ns. \<forall>r. m \<noteq> M_closed r \<and> m \<noteq> M_reset_done \<Longrightarrow> outstanding view (ms @ ns) acked"
proof -
  have "acks ns = 0" if "\<forall>m \<in> set ns. \<forall>r. m \<noteq> M_closed r \<and> m \<noteq> M_reset_done" using that by (auto simp: acks_def filter_empty_conv)
  thus "outstanding view ms acked \<Longrightarrow> \<forall>m \<in> set ns. \<forall>r. m \<noteq> M_closed r \<and> m \<noteq> M_reset_done \<Longrightarrow> outstanding view (ms @ ns) acked"
    by (auto simp: outstanding_def)
qed

lemma outstanding_less: "outstanding view (m # ms) acked \<Longrightarrow> outstanding view ms acked"
  by (fastforce simp: outstanding_def split: if_splits)

text \<open>A message the main thread takes from the port.\<close>

lemma outstanding_receive:
  assumes "outstanding (reset_view s) (message # rest) acked"
  shows "outstanding (reset_view (remote_receive message s)) rest acked"
proof (cases message)
  case M_reset_done
  show ?thesis
  proof (cases "rm_resets (rs_main s)")
    case Nil
    with M_reset_done outstanding_less [OF assms] show ?thesis by (simp add: remote_receive_def receive_connected_def shift_reset_def)
  next
    case (Cons r rs)
    from assms obtain k where k: "k \<le> rm_next_reset (rs_main s)" "r # rs = [k..<rm_next_reset (rs_main s)]" "k + 1 + acks rest \<le> acked"
      "\<forall>i \<in> resolved_resets (rm_log (rs_main s)). i < k" "\<forall>r. M_closed r \<notin> set rest"
      using M_reset_done Cons by (auto simp: outstanding_def reset_view_def)
    have "k < rm_next_reset (rs_main s)" using k(2) by (metis linorder_not_less list.distinct(1) upt_conv_Nil)
    with k(2) have r: "r = k" "rs = [Suc k..<rm_next_reset (rs_main s)]" "Suc k \<le> rm_next_reset (rs_main s)" by (simp_all add: upt_conv_Cons)
    have "reset_view (shift_reset s) = (rs, rm_next_reset (rs_main s), insert k (resolved_resets (rm_log (rs_main s))))"
      using Cons r by (auto simp: shift_reset_def reset_view_def remote_log_def on_main_def resolved_resets_def)
    hence "outstanding (reset_view (shift_reset s)) rest acked"
      using k r by (auto simp: outstanding_def intro!: exI [of _ "Suc k"])
    with M_reset_done outstanding_less [OF assms] show ?thesis by (simp add: remote_receive_def receive_connected_def)
  qed
next
  case (M_closed r)
  with assms show ?thesis by (auto simp: outstanding_def)
qed (use outstanding_less [OF assms] in \<open>simp_all add: remote_receive_def receive_connected_def\<close>)

text \<open>What serving a message does to the worker's books.\<close>

lemma outbox_run: "Post message \<in> set (sv_outbox (rs_worker (run_device f s)))
    \<Longrightarrow> Post message \<in> set (sv_outbox (rs_worker s)) \<or> (\<exists>e. message = M_error e)"
  by (auto simp: run_device_def Let_def split: prod.splits sum.splits)

lemma run_device_books:
  "sv_acked (rs_worker (run_device f s)) = sv_acked (rs_worker s)" "sv_waits (rs_worker (run_device f s)) = sv_waits (rs_worker s)"
  "sv_listening (rs_worker (run_device f s)) = sv_listening (rs_worker s)"
  by (simp_all add: run_device_def Let_def split: prod.split)

lemma serve_message_books:
  "sv_acked (rs_worker (serve_message stop m s)) = sv_acked (rs_worker s)"
  "m \<noteq> D_reset \<Longrightarrow> sv_waits (rs_worker (serve_message stop m s)) = sv_waits (rs_worker s)"
  "sv_connected (rs_worker s) \<Longrightarrow> sv_connected (rs_worker (serve_message stop m s))"
  "sv_listening (rs_worker (serve_message stop m s)) = sv_listening (rs_worker s)"
  "Post message \<in> set (sv_outbox (rs_worker (serve_message stop m s))) \<Longrightarrow> Post message \<in> set (sv_outbox (rs_worker s)) \<or> (\<exists>e. message = M_error e)"
  by (cases m; auto simp: if_connected_def send_error_def serve_reset_def Let_def dest!: outbox_run split: if_splits)+

lemma serve_message_settled:
  assumes "waits_settled s" "worker_keeps s (serve_message stop m s)"
  shows "waits_settled (serve_message stop m s)"
proof -
  let ?t = "serve_message stop m s"
  have progress: "progress (present_device s) (present_device ?t)" using assms(2) by (simp add: worker_keeps_def)
  have books: "books (sv_waits (rs_worker s)) (sv_acked (rs_worker s)) (sv_connected (rs_worker ?t)) (present_device ?t)"
    using books_later [OF _ progress] serve_message_books(3) assms(1) by (auto simp: waits_settled_def)
  have "books (sv_waits (rs_worker ?t)) (sv_acked (rs_worker s)) (sv_connected (rs_worker ?t)) (present_device ?t)"
  proof (cases "m = D_reset \<and> sv_bound (rs_worker s)")
    case False
    hence "sv_waits (rs_worker ?t) = sv_waits (rs_worker s)"
      using serve_message_books(2) [of m stop s] by (cases "m = D_reset") (simp_all add: serve_reset_def send_error_def)
    with books show ?thesis by simp
  next
    case True
    have "vd_active (fst (guest_reset d)) = vd_active d" "vd_views (fst (guest_reset d)) = vd_views d" for d
      by (simp_all add: guest_reset_def Let_def emit_def)
    moreover have "snd (guest_reset d) = (if vd_views d then vd_active d else [])" for d by (simp add: guest_reset_def Let_def emit_def)
    ultimately have "sv_waits (rs_worker ?t) = sv_waits (rs_worker s)
        @ [if sv_connected (rs_worker ?t) \<and> vd_views (present_device ?t) then vd_active (present_device ?t) else []]"
      using True by (simp add: serve_reset_def Let_def present_settled)
    with books_reset [OF books] show ?thesis by simp
  qed
  with assms(1) serve_message_books(1) show ?thesis using serve_message_books(5) unfolding waits_settled_def by metis
qed

lemma outgoing_harmless: "(\<And>message. out = Post message \<Longrightarrow> \<exists>e. message = M_error e) \<Longrightarrow> m \<in> set (outgoing_messages out s)
    \<Longrightarrow> m \<noteq> M_closed r \<and> m \<noteq> M_reset_done"
  by (auto simp: outgoing_messages_def split: outgoing.splits device_output.splits if_splits)

text \<open>The main thread's steps do not concern the worker.\<close>

lemma main_waits: "waits_settled s \<Longrightarrow> rs_worker s' = rs_worker s \<Longrightarrow> waits_settled s'"
  by (simp add: waits_settled_def books_def finished_work_def present_settled)

lemma main_finished: "finished_device s \<Longrightarrow> rs_worker s' = rs_worker s \<Longrightarrow> finished_device s'"
  by (simp add: finished_device_def present_settled)

lemma resets_inv_main:
  assumes "resets_inv s" "rs_worker s' = rs_worker s"
    and "outstanding (reset_view s) (rs_to_main s) (length (sv_acked (rs_worker s))) \<Longrightarrow> outstanding (reset_view s') (rs_to_main s') (length (sv_acked (rs_worker s)))"
  shows "resets_inv s'"
  using assms main_waits main_finished unfolding resets_inv_def by metis

text \<open>Every step keeps the books.\<close>

definition hooked_inv :: "nat \<Rightarrow> remote_system \<Rightarrow> bool" where
  "hooked_inv n s \<longleftrightarrow> serves_inv s \<and> memory_inv n s \<and> (sv_connected (rs_worker s) \<longrightarrow> hooked (present_device s))"

lemma hooked_memory [simp]: "hooked (d\<lparr>vd_mem := mem\<rparr>) = hooked d"
  by (simp add: hooked_def)

lemma hooked_inv_main: "hooked_inv n s \<Longrightarrow> rs_worker s' = rs_worker s \<Longrightarrow> memory_inv n s' \<Longrightarrow> hooked_inv n s'"
  using serves_inv_memory [of s s'] by (simp add: hooked_inv_def memory_inv_def present_device_def)

lemma hooked_inv_worker:
  assumes "hooked_inv n s" "worker_keeps s s'" "serves_inv s'" "rs_main s' = rs_main s"
  shows "hooked_inv n s'"
  using assms by (simp add: hooked_inv_def worker_keeps_def memory_inv_def)

lemma resets_inv_reset: "resets_inv s \<Longrightarrow> resets_inv (remote_reset s)"
proof (erule resets_inv_main)
  assume "outstanding (reset_view s) (rs_to_main s) (length (sv_acked (rs_worker s)))"
  then obtain k where "rm_resets (rs_main s) = [k..<rm_next_reset (rs_main s)]" "k \<le> rm_next_reset (rs_main s)"
    "k + acks (rs_to_main s) \<le> length (sv_acked (rs_worker s))" "\<forall>i \<in> resolved_resets (rm_log (rs_main s)). i < k" "\<forall>r. M_closed r \<notin> set (rs_to_main s)"
    by (auto simp: outstanding_def reset_view_def)
  thus "outstanding (reset_view (remote_reset s)) (rs_to_main (remote_reset s)) (length (sv_acked (rs_worker s)))"
    by (auto simp: outstanding_def reset_view_def remote_reset_def post_worker_def remote_log_def on_main_def advance_epoch_def resolved_resets_def
        intro!: exI [of _ k])
qed simp

lemma to_main_kept [simp]:
  "rs_to_main (fst (remote_attach s)) = rs_to_main s" "rs_to_main (fst (remote_set_features f s)) = rs_to_main s"
  "rs_to_main (fst (remote_setup irq a n s)) = rs_to_main s" "rs_to_main (fst (remote_enable_queue vq n a irq s)) = rs_to_main s"
  "rs_to_main (fst (remote_disable_queue vq s)) = rs_to_main s" "rs_to_main (remote_notify vq s) = rs_to_main s"
  "rs_to_main (remote_shutdown s) = rs_to_main s" "rs_to_main (endpoint_failure e s) = rs_to_main s" "rs_to_main (remote_receive m s) = rs_to_main s"
  by (simp_all add: main_actions Let_def split: worker_message.split option.split list.split sum.split)

lemma memory_inv_kept:
  "memory_inv n s \<Longrightarrow> memory_inv n (fst (remote_attach s))" "memory_inv n s \<Longrightarrow> memory_inv n (fst (remote_set_features f s))"
  "memory_inv n s \<Longrightarrow> memory_inv n (fst (remote_setup irq a len s))" "memory_inv n s \<Longrightarrow> memory_inv n (fst (remote_enable_queue vq k a irq s))"
  "memory_inv n s \<Longrightarrow> memory_inv n (fst (remote_disable_queue vq s))" "memory_inv n s \<Longrightarrow> memory_inv n (remote_notify vq s)"
  "memory_inv n s \<Longrightarrow> memory_inv n (remote_shutdown s)" "memory_inv n s \<Longrightarrow> memory_inv n (endpoint_failure e s)"
  "memory_inv n s \<Longrightarrow> memory_inv n (remote_reset s)"
  by (auto simp: remote_attach_def remote_set_features_def remote_setup_def remote_enable_queue_def remote_disable_queue_def remote_notify_def
      remote_shutdown_def endpoint_failure_def remote_reset_def Let_def split: option.split)
    (auto simp: memory_inv_def on_main_def post_worker_def advance_epoch_def length_overwrite)

lemma hooked_inv_step:
  assumes "remote_step s s'" "hooked_inv n s"
  shows "hooked_inv n s'"
proof -
  have inv: "serves_inv s" "memory_inv n s" "sv_connected (rs_worker s) \<longrightarrow> hooked (present_device s)" using assms(2) by (simp_all add: hooked_inv_def)
  have main: "hooked_inv n t" if "rs_worker t = rs_worker s" "memory_inv n t" for t using hooked_inv_main [OF assms(2) that] .
  have post: "hooked_inv n (t\<lparr>rs_to_main := ms\<rparr>) = hooked_inv n t" "hooked_inv n (t\<lparr>rs_to_worker := ws\<rparr>) = hooked_inv n t" for t ms ws
    by (simp_all add: hooked_inv_def memory_inv_def)
  have book: "hooked_inv n (on_worker f s)" if "\<And>w. sv_device (f w) = sv_device w" "\<And>w. sv_connected (f w) = sv_connected w" for f
    using hooked_inv_worker [OF assms(2) worker_keeps_on_worker [OF worker_keeps_refl [OF inv(3)] that]] serves_inv_worker [OF inv(1) that] by simp
  from assms(1) show ?thesis
  proof cases
    case (serve message rest stop)
    let ?s = "s\<lparr>rs_to_worker := rest\<rparr>"
    have "hooked_inv n ?s" using assms(2) post by simp
    moreover from this have "worker_keeps ?s (serve_message stop message ?s)" "serves_inv (serve_message stop message ?s)"
      using serve_message_keeps serves_inv_serve unfolding hooked_inv_def by blast+
    ultimately have "hooked_inv n (serve_message stop message ?s)" using hooked_inv_worker by simp
    with serve(1) \<open>hooked_inv n ?s\<close> show ?thesis by simp
  next
    case (own e d)
    have step: "device_step e (present_device s) = Some d" using own(5) by (simp add: present_device_def)
    have "serves_inv (run_device (\<lambda>_. (d, Inr ())) s)"
    proof (cases "sv_connected (rs_worker s)")
      case True
      with inv(1) step show ?thesis by (intro serves_inv_run) simp_all
    next
      case False
      with inv(1) own(4) step shutdown_event_unattached show ?thesis by (intro serves_inv_unattached) (auto simp: serves_inv_def)
    qed
    with own hooked_inv_worker [OF assms(2) own_event_keeps(1) [OF inv(3) own(3,4) step]] show ?thesis by simp
  next
    case (driver mem)
    with main inv(2) show ?thesis by (simp add: memory_inv_def)
  next
    case (receive message rest)
    have "memory_inv n (remote_receive message (s\<lparr>rs_to_main := rest\<rparr>))" by (rule memory_inv_receive) (use inv(2) in \<open>simp add: memory_inv_def\<close>)
    with receive main post assms(2) show ?thesis by simp
  qed (use main memory_inv_kept inv(2) book post in simp_all)
qed

lemma resets_inv_step:
  assumes "remote_step s s'" "hooked_inv n s" "resets_inv s"
  shows "resets_inv s'"
proof -
  have inv: "sv_connected (rs_worker s) \<longrightarrow> hooked (present_device s)" using assms(2) by (simp add: hooked_inv_def)
  have settled: "waits_settled s" using assms(3) by (simp add: resets_inv_def)
  have main: "resets_inv t" if "rs_worker t = rs_worker s" "reset_view t = reset_view s" "rs_to_main t = rs_to_main s" for t
    using resets_inv_main [OF assms(3) that(1)] that by simp
  from assms(1) show ?thesis
  proof cases
    case reset
    with resets_inv_reset [OF assms(3)] show ?thesis by simp
  next
    case (driver mem)
    with main show ?thesis by (simp add: reset_view_def)
  next
    case (receive message rest)
    let ?s = "s\<lparr>rs_to_main := rest\<rparr>"
    have "outstanding (reset_view (remote_receive message ?s)) rest acked" "outstanding (reset_view ?s) rest acked"
      if "outstanding (reset_view s) (rs_to_main s) acked" for acked
      using that outstanding_receive [of ?s message rest acked] outstanding_less [of "reset_view ?s" message rest acked] receive(2)
      by (simp_all add: reset_view_def)
    with receive(1) show ?thesis by (intro resets_inv_main [OF assms(3)]) auto
  next
    case (serve message rest stop)
    let ?s = "s\<lparr>rs_to_worker := rest\<rparr>"
    have view: "reset_view ?s = reset_view s" by (simp add: reset_view_def)
    have "resets_inv ?s" by (rule main) (simp_all add: reset_view_def)
    show ?thesis
    proof (cases "sv_listening (rs_worker s)")
      case False
      with serve \<open>resets_inv ?s\<close> show ?thesis by simp
    next
      case True
      have "waits_settled ?s" using main_waits [OF settled] by simp
      moreover have "worker_keeps ?s (serve_message stop message ?s)" using serve_message_keeps inv by simp
      ultimately have "waits_settled (serve_message stop message ?s)" by (rule serve_message_settled)
      moreover have "outstanding (reset_view s) (rs_to_main s) (length (sv_acked (rs_worker s)))"
        using assms(3) True by (simp add: resets_inv_def finished_device_def)
      moreover have "reset_view (serve_message stop message ?s) = reset_view s" by (simp add: reset_view_def)
      ultimately show ?thesis using serve True serve_message_books(1) [of stop message ?s] by (simp add: resets_inv_def)
    qed
  next
    case (send out rest)
    let ?t = "on_worker (\<lambda>w. w\<lparr>sv_outbox := rest\<rparr>) s"
    have "waits_settled s'" using settled send by (simp add: waits_settled_def present_device_worker)
    moreover have "\<exists>e. message = M_error e" if "out = Post message" for message using settled send(2) that by (simp add: waits_settled_def)
    hence "\<forall>m \<in> set (outgoing_messages out s). \<forall>r. m \<noteq> M_closed r \<and> m \<noteq> M_reset_done" using outgoing_harmless by blast
    hence "outstanding (reset_view s) (rs_to_main s @ outgoing_messages out s) acked" if "outstanding (reset_view s) (rs_to_main s) acked" for acked
      using outstanding_more [OF that] by blast
    moreover have "reset_view s' = reset_view s" using send by (simp add: reset_view_def)
    moreover have "finished_device s' = finished_device s" using send(1) by (simp add: finished_device_def present_settled)
    moreover have "rs_to_main s' = rs_to_main s @ outgoing_messages out s" "sv_acked (rs_worker s') = sv_acked (rs_worker s)"
      using send(1) by simp_all
    ultimately show ?thesis using assms(3) unfolding resets_inv_def by metis
  next
    case (own e d)
    have step: "device_step e (present_device s) = Some d" using own(5) by (simp add: present_device_def)
    have keeps: "worker_keeps s s'" using own_event_keeps(1) [OF inv own(3,4) step] own(1) by simp
    have "waits_settled s'"
    proof -
      have "progress (present_device s) (present_device s')" using keeps by (simp add: worker_keeps_def)
      with settled books_later have "books (sv_waits (rs_worker s)) (sv_acked (rs_worker s)) (sv_connected (rs_worker s)) (present_device s')"
        unfolding waits_settled_def by blast
      moreover have "\<exists>e. message = M_error e" if "Post message \<in> set (sv_outbox (rs_worker s'))" for message
        using outbox_run that settled unfolding own(1) waits_settled_def by blast
      moreover have "sv_connected (rs_worker s') = sv_connected (rs_worker s)" unfolding own(1) by (rule run_device_worker)
      ultimately show ?thesis unfolding waits_settled_def own(1) run_device_books by auto
    qed
    moreover have "finished_device s'" if "finished_device s"
      using own_event_keeps(2) [OF inv own(3,4) step] that unfolding finished_device_def own(1) run_device_books by auto
    moreover have "reset_view s' = reset_view s" "rs_to_main s' = rs_to_main s" using own(1) by (simp_all add: reset_view_def)
    moreover have "sv_acked (rs_worker s') = sv_acked (rs_worker s)" unfolding own(1) by (rule run_device_books)
    ultimately show ?thesis using assms(3) unfolding resets_inv_def by metis
  next
    case (acknowledge i)
    have "books (sv_waits (rs_worker s)) (sv_acked (rs_worker s) @ [i]) (sv_connected (rs_worker s)) (present_device s)"
      using settled acknowledge by (intro books_acknowledge) (auto simp: waits_settled_def finished_work_def present_settled)
    hence "waits_settled s'" using settled acknowledge(1) by (simp add: waits_settled_def present_device_worker)
    moreover have "outstanding (reset_view s') (rs_to_main s') (length (sv_acked (rs_worker s')))"
      if "outstanding (reset_view s) (rs_to_main s) (length (sv_acked (rs_worker s)))"
      using that acknowledge(1) by (auto simp: outstanding_def reset_view_def)
    ultimately show ?thesis using assms(3) acknowledge(1) by (auto simp: resets_inv_def finished_device_def present_settled)
  next
    case (closed r)
    have "waits_settled s'" using settled closed(1) by (simp add: waits_settled_def present_device_worker)
    with closed show ?thesis by (simp add: resets_inv_def finished_device_def present_settled)
  qed (use main in simp_all)
qed

lemma remote_reachable_inv: "remote_reachable s \<Longrightarrow> \<exists>n. hooked_inv n s \<and> resets_inv s"
proof (induction rule: remote_reachable.induct)
  case (start device_id queues features config views mem)
  let ?d = "new_device queues features config views mem"
  have "present_device (remote_start device_id ?d) = ?d" by (simp add: present_device_def remote_start_def serve_device_def)
  moreover have "unattached ?d" unfolding unattached_def by blast
  ultimately have "hooked_inv (length mem) (remote_start device_id ?d)"
    by (simp add: hooked_inv_def serves_inv_def memory_inv_def remote_start_def serve_device_def create_remote_device_def) (simp add: new_device_def)
  moreover have "resets_inv (remote_start device_id ?d)"
    by (simp add: resets_inv_def waits_settled_def books_def outstanding_def reset_view_def resolved_resets_def remote_start_def serve_device_def create_remote_device_def)
  ultimately show ?case by blast
next
  case (step s s')
  thus ?case using hooked_inv_step resets_inv_step by blast
qed

section \<open>Properties\<close>

lemma epoch_count_unrevoked: "\<forall>out \<in> set outs. \<not> revokes vq out \<Longrightarrow> epoch_count vq outs = 0"
  by (auto simp: epoch_count_def filter_empty_conv)

lemma epoch_count_later:
  assumes "log = pre @ RO_enable vq # post" "log = pre' @ RO_enable vq # post'" "length pre < length pre'"
  shows "epoch_count vq (pre @ [RO_enable vq]) < epoch_count vq (pre' @ [RO_enable vq])"
proof -
  have "take (length pre + 1) log = pre @ [RO_enable vq]" using assms(1) by simp
  moreover have "take (length pre + 1) log = take (length pre + 1) pre'" using assms(2,3) by simp
  ultimately have "pre' = (pre @ [RO_enable vq]) @ drop (length pre + 1) pre'" by (metis append_take_drop_id)
  from arg_cong [OF this, of "epoch_count vq"]
  have "epoch_count vq pre' = epoch_count vq pre + epoch_count vq [RO_enable vq] + epoch_count vq (drop (length pre + 1) pre')"
    by (simp only: epoch_count_snoc)
  thus ?thesis by (simp add: epoch_count_snoc epoch_count_one)
qed

lemma epoch_count_unique:
  assumes "log = pre @ RO_enable vq # post" "log = pre' @ RO_enable vq # post'"
    and "epoch_count vq (pre @ [RO_enable vq]) = epoch_count vq (pre' @ [RO_enable vq])"
  shows "pre = pre'"
proof (rule ccontr)
  assume "pre \<noteq> pre'"
  hence "length pre \<noteq> length pre'" using assms(1,2) by (metis append_eq_append_conv)
  hence "length pre < length pre' \<or> length pre' < length pre" by linarith
  with epoch_count_later [OF assms(1,2)] epoch_count_later [OF assms(2,1)] assms(3) show False by linarith
qed

text \<open>
  C12: A completion from the worker changes the system only while the call that enabled its queue is in force.  In every interleaving of the
  guest, the main thread, the worker and its device, when the main thread acts on a completion, its queue epoch was given out by the last call
  that enabled this queue, no disabling, reset or revocation has followed that call, and no other call that enabled the queue, of fewer than
  \<open>2 ^ 32\<close>, gave out the same epoch: a completion of an earlier life of the queue is never committed.
\<close>

theorem remote_completion_in_force:
  assumes "remote_reachable s" "remote_receive (M_complete vq irq device_epoch queue_epoch c) s \<noteq> s"
    and "epoch_count vq (rm_log (rs_main s)) < 2 ^ 32"
  shows "\<exists>pre post. rm_log (rs_main s) = pre @ RO_enable vq # post \<and> (\<forall>out \<in> set post. \<not> revokes vq out)
     \<and> queue_epoch = of_nat (epoch_count vq (pre @ [RO_enable vq]))
     \<and> (\<forall>pre' post'. rm_log (rs_main s) = pre' @ RO_enable vq # post'
          \<and> queue_epoch = of_nat (epoch_count vq (pre' @ [RO_enable vq])) \<longrightarrow> pre' = pre)"
proof -
  have current: "completion_current vq device_epoch queue_epoch s"
    using assms(2) by (auto simp: remote_receive_def receive_connected_def receive_completion_def split: if_splits)
  have epochs: "rs_control s (1 + vq) = of_nat (epoch_count vq (rm_log (rs_main s)))" "in_force vq (rm_log (rs_main s))"
    using epochs_inv_reachable [OF assms(1)] current by (simp_all add: epochs_inv_def completion_current_def)
  from epochs(2) obtain pre post where log: "rm_log (rs_main s) = pre @ RO_enable vq # post" "\<forall>out \<in> set post. \<not> revokes vq out"
    by (auto simp: in_force_def)
  have split: "epoch_count vq (rm_log (rs_main s)) = epoch_count vq (pre' @ [RO_enable vq]) + epoch_count vq post'"
    if "rm_log (rs_main s) = pre' @ RO_enable vq # post'" for pre' post'
    using that epoch_count_snoc [of vq "pre' @ [RO_enable vq]" post'] by simp
  have epoch: "queue_epoch = of_nat (epoch_count vq (pre @ [RO_enable vq]))"
    using epochs(1) current split [OF log(1)] epoch_count_unrevoked [OF log(2)] by (simp add: completion_current_def)
  have "pre' = pre"
    if "rm_log (rs_main s) = pre' @ RO_enable vq # post'" "queue_epoch = of_nat (epoch_count vq (pre' @ [RO_enable vq]))" for pre' post'
  proof (rule epoch_count_unique [OF that(1) log(1)])
    have "(of_nat (epoch_count vq (pre' @ [RO_enable vq])) :: epoch) = of_nat (epoch_count vq (pre @ [RO_enable vq]))"
      using that(2) epoch by simp
    moreover have "epoch_count vq (pre' @ [RO_enable vq]) < 2 ^ 32" "epoch_count vq (pre @ [RO_enable vq]) < 2 ^ 32"
      using split [OF that(1)] split [OF log(1)] assms(3) by linarith+
    ultimately show "epoch_count vq (pre' @ [RO_enable vq]) = epoch_count vq (pre @ [RO_enable vq])"
      by (simp add: word_of_nat_eq_iff take_bit_nat_eq_self)
  qed
  with log epoch show ?thesis by blast
qed

text \<open>A run of the two threads: attach, enable a queue, or reset it and wait for the worker.\<close>

definition demo_attached :: remote_system where
  "demo_attached = fst (remote_attach (remote_start 2 (new_device 1 0 [] False (replicate 32 0))))"

definition demo_enabled :: remote_system where
  "demo_enabled = fst (remote_enable_queue 0 2 0 5 demo_attached)"

definition demo_completion :: completion where
  "demo_completion = \<lparr>c_descriptor_address = 0, c_id = 1, c_written = 0, c_flags = 0, c_outputs = []\<rparr>"

lemmas demo_start = demo_attached_def remote_attach_def remote_start_def create_remote_device_def serve_device_def new_device_def
  on_main_def post_worker_def

lemma demo_attached_reachable: "remote_reachable demo_attached"
  unfolding demo_attached_def by (intro remote_reachable.step [OF remote_reachable.start remote_step.attach])

lemma demo_enabled_reachable: "remote_reachable demo_enabled"
  unfolding demo_enabled_def by (rule remote_reachable.step [OF demo_attached_reachable remote_step.enable]) (simp add: demo_start)

lemma demo_published: "\<exists>mem. publish_virtqueue_completion (replicate 32 0) demo_completion = Inr mem"
  by (rule publish_total [of _ "\<lparr>q_size = 2, q_desc_addr = 0, q_views = False, q_avail_wrap = True, q_used_wrap = True, q_used_idx = 0,
      q_avail_idx = 0, q_valid = True\<rparr>" 0]) (simp_all add: demo_completion_def ring_ok_def slot_address_def)

theorem remote_completion_in_force_witness:
  "\<exists>pre post. rm_log (rs_main demo_enabled) = pre @ RO_enable 0 # post \<and> (1 :: epoch) = of_nat (epoch_count 0 (pre @ [RO_enable 0]))"
proof -
  have "rs_memory demo_enabled = replicate 32 0"
    by (simp add: demo_enabled_def remote_enable_queue_def demo_start remote_log_def advance_epoch_def Let_def)
  then obtain mem where "publish_virtqueue_completion (rs_memory demo_enabled) demo_completion = Inr mem"
    using demo_published by auto
  hence "rm_log (rs_main (remote_receive (M_complete 0 5 0 1 demo_completion) demo_enabled)) \<noteq> rm_log (rs_main demo_enabled)"
    by (simp add: remote_receive_def receive_connected_def receive_completion_def completion_current_def demo_enabled_def remote_enable_queue_def
        demo_start remote_log_def advance_epoch_def Let_def)
  hence "remote_receive (M_complete 0 5 0 1 demo_completion) demo_enabled \<noteq> demo_enabled" by auto
  moreover have "epoch_count 0 (rm_log (rs_main demo_enabled)) < 2 ^ 32"
    by (simp add: epoch_count_def demo_enabled_def remote_enable_queue_def demo_start remote_log_def advance_epoch_def Let_def)
  ultimately show ?thesis using remote_completion_in_force [OF demo_enabled_reachable] by blast
qed

text \<open>
  C13: The guest's wait for a reset ends only when the worker is done with guest memory.  When the main thread has released the guest's
  \<open>n\<close>th reset, either the worker has taken up this very reset and all the work it named as under way then has settled, although the
  acknowledgements carry no number and the worker may send them in any order, or the worker's device has finished shutting down and, if it was
  attached, has no kick under way.
\<close>

theorem remote_reset_finished:
  assumes "remote_reachable s" "RO_reset_resolved n \<in> set (rm_log (rs_main s))"
  shows "(n < length (sv_waits (rs_worker s)) \<and> set (sv_waits (rs_worker s) ! n) \<subseteq> finished_work (sv_device (rs_worker s)))
    \<or> (\<exists>r. vd_phase (sv_device (rs_worker s)) = Closed r)
      \<and> (sv_connected (rs_worker s) \<longrightarrow> (\<forall>k. KickWork k \<notin> set (vd_active (sv_device (rs_worker s)))))"
proof -
  obtain m where inv: "hooked_inv m s" "resets_inv s" using remote_reachable_inv [OF assms(1)] by blast
  show ?thesis
  proof (cases "finished_device s")
    case True
    then obtain r where closed: "vd_phase (present_device s) = Closed r" by (auto simp: finished_device_def)
    have "\<forall>k. KickWork k \<notin> set (vd_active (present_device s))" if "sv_connected (rs_worker s)"
    proof -
      have "reachable (present_device s)" using inv(1) that by (simp add: hooked_inv_def serves_inv_def)
      from reachable_life [OF this] closed show ?thesis by (simp add: life_inv_def)
    qed
    with closed show ?thesis by (auto simp: present_settled)
  next
    case False
    with inv(2) have "n < length (sv_acked (rs_worker s))" using assms(2)
      by (auto simp: resets_inv_def outstanding_def reset_view_def resolved_resets_def)
    moreover have "books (sv_waits (rs_worker s)) (sv_acked (rs_worker s)) (sv_connected (rs_worker s)) (present_device s)"
      using inv(2) by (simp add: resets_inv_def waits_settled_def)
    ultimately have "n < length (sv_waits (rs_worker s))" "set (sv_waits (rs_worker s) ! n) \<subseteq> finished_work (present_device s)"
      using books_finished by blast+
    thus ?thesis by (simp add: finished_work_def present_settled)
  qed
qed

text \<open>The run: the worker binds its device, takes up the reset, sends what its device put out and acknowledges; the main thread hears of it.\<close>

definition demo_reset :: remote_system where
  "demo_reset = remote_reset demo_attached"

definition demo_bound :: remote_system where
  "demo_bound = serve_message None D_bind (demo_reset\<lparr>rs_to_worker := [D_reset]\<rparr>)"

definition demo_taken_reset :: remote_system where
  "demo_taken_reset = serve_message None D_reset (demo_bound\<lparr>rs_to_worker := []\<rparr>)"

definition demo_sent :: remote_system where
  "demo_sent = (on_worker (\<lambda>w. w\<lparr>sv_outbox := []\<rparr>) demo_taken_reset)\<lparr>rs_to_main := rs_to_main demo_taken_reset @ outgoing_messages (Out OutReset) demo_taken_reset\<rparr>"

definition demo_acknowledged :: remote_system where
  "demo_acknowledged = (on_worker (\<lambda>w. w\<lparr>sv_acked := sv_acked w @ [0]\<rparr>) demo_sent)\<lparr>rs_to_main := rs_to_main demo_sent @ [M_reset_done]\<rparr>"

definition demo_released :: remote_system where
  "demo_released = remote_receive M_reset_done (demo_acknowledged\<lparr>rs_to_main := []\<rparr>)"

lemmas demo_run = demo_start demo_reset_def remote_reset_def remote_log_def advance_epoch_def

lemmas demo_worker = demo_run demo_bound_def on_worker_def run_device_def Let_def attach_def

lemma demo_bound_facts:
  "sv_outbox (rs_worker demo_bound) = []" "sv_listening (rs_worker demo_bound)" "sv_connected (rs_worker demo_bound)"
  "sv_bound (rs_worker demo_bound)" "rs_to_worker demo_bound = [D_reset]" "rs_to_main demo_bound = []" "sv_waits (rs_worker demo_bound) = []"
  "sv_acked (rs_worker demo_bound) = []" "vd_views (sv_device (rs_worker demo_bound)) = False" "vd_states (sv_device (rs_worker demo_bound)) = []"
  "vd_stopped (sv_device (rs_worker demo_bound)) = False" "rm_connected (rs_main demo_bound)" "rm_listening (rs_main demo_bound)"
  "rm_resets (rs_main demo_bound) = [0]"
  by (simp_all add: demo_worker)

lemma demo_bound_reachable: "remote_reachable demo_bound"
proof -
  have "remote_step demo_attached demo_reset" unfolding demo_reset_def by (rule remote_step.reset) (simp add: demo_start)
  with demo_attached_reachable have "remote_reachable demo_reset" by (rule remote_reachable.step)
  moreover have "rs_to_worker demo_reset = D_bind # [D_reset]" "sv_outbox (rs_worker demo_reset) = []" "sv_listening (rs_worker demo_reset)"
    by (simp_all add: demo_run)
  hence "remote_step demo_reset demo_bound" using remote_step.serve [of demo_reset D_bind "[D_reset]" None] by (simp add: demo_bound_def)
  ultimately show ?thesis by (rule remote_reachable.step)
qed

lemma demo_taken_reset_facts:
  "sv_outbox (rs_worker demo_taken_reset) = [Out OutReset]" "sv_waits (rs_worker demo_taken_reset) = [[]]" "sv_acked (rs_worker demo_taken_reset) = []"
  "rs_to_main demo_taken_reset = []" "rs_main demo_taken_reset = rs_main demo_bound"
  using demo_bound_facts by (simp_all add: demo_taken_reset_def serve_reset_def run_device_def guest_reset_def emit_def Let_def invalidate_all_def)

lemma demo_released_reachable: "remote_reachable demo_released"
proof -
  have "remote_step demo_bound demo_taken_reset"
    using remote_step.serve [of demo_bound D_reset "[]" None] demo_bound_facts by (simp add: demo_taken_reset_def)
  with demo_bound_reachable have "remote_reachable demo_taken_reset" by (rule remote_reachable.step)
  moreover have "remote_step demo_taken_reset demo_sent" unfolding demo_sent_def by (rule remote_step.send) (rule demo_taken_reset_facts)
  ultimately have "remote_reachable demo_sent" by (rule remote_reachable.step)
  moreover have sent: "sv_outbox (rs_worker demo_sent) = []" "sv_waits (rs_worker demo_sent) = [[]]" "sv_acked (rs_worker demo_sent) = []"
    "rs_to_main demo_sent = []" "rs_main demo_sent = rs_main demo_bound"
    using demo_taken_reset_facts by (simp_all add: demo_sent_def outgoing_messages_def)
  hence "remote_step demo_sent demo_acknowledged" unfolding demo_acknowledged_def by (intro remote_step.acknowledge) simp_all
  ultimately have "remote_reachable demo_acknowledged" by (rule remote_reachable.step)
  moreover have "rs_to_main demo_acknowledged = M_reset_done # []" "rm_listening (rs_main demo_acknowledged)"
    using sent demo_bound_facts by (simp_all add: demo_acknowledged_def)
  hence "remote_step demo_acknowledged demo_released"
    using remote_step.receive [of demo_acknowledged M_reset_done "[]"] by (simp add: demo_released_def)
  ultimately show ?thesis by (rule remote_reachable.step)
qed

lemma demo_released_log: "RO_reset_resolved 0 \<in> set (rm_log (rs_main demo_released))"
proof -
  have "rs_main demo_acknowledged = rs_main demo_bound" using demo_taken_reset_facts by (simp add: demo_acknowledged_def demo_sent_def)
  with demo_bound_facts show ?thesis
    by (simp add: demo_released_def remote_receive_def receive_connected_def shift_reset_def remote_log_def on_main_def)
qed

theorem remote_reset_finished_witness:
  "(0 < length (sv_waits (rs_worker demo_released))
     \<and> set (sv_waits (rs_worker demo_released) ! 0) \<subseteq> finished_work (sv_device (rs_worker demo_released)))
    \<or> (\<exists>r. vd_phase (sv_device (rs_worker demo_released)) = Closed r)"
  using remote_reset_finished [OF demo_released_reachable demo_released_log] by blast

text \<open>
  C14: The device a worker serves is an attached device of the ordinary life cycle.  Whatever the guest, the main thread, the driver's writes to the
  shared memory and the messages in flight do, once the worker has bound its device, the device beside the memory of the moment is a reachable
  state of the model of \<open>VirtioDevice\<close>, and attached with the hooks by which completions and configuration leave as messages instead of being
  written to guest memory: all that is proved of reachable devices holds of it.
\<close>

theorem remote_device_reachable:
  assumes "remote_reachable s" "sv_connected (rs_worker s)"
  shows "reachable (present_device s) \<and> hooked (present_device s)"
  using remote_reachable_inv [OF assms(1)] assms(2) by (auto simp: hooked_inv_def serves_inv_def)

theorem remote_device_reachable_witness: "reachable (present_device demo_bound) \<and> hooked (present_device demo_bound)"
  using remote_device_reachable [OF demo_bound_reachable] demo_bound_facts(3) by simp
end
