(* ===== verification/Spec2Isabelle.thy ===== *)
theory Spec2Isabelle
  imports Vsock Block_Device Network Wasm_Binary Console Bus Syscalls Guest_Session Http Fs_Answers Remote
begin

text \<open>
  A verification development of the Linux-on-WebAssembly distribution (\<open>tombl/distro\<close>): the TypeScript library that
  boots a Linux kernel compiled to WebAssembly, gives it virtio devices and talks to it.

  \<^bold>\<open>The program.\<close>  A \<^emph>\<open>machine\<close> (\<open>packages/kernel/src\<close>) loads the kernel module, describes its hardware in a device tree and
  attaches devices through a bus.  A \<^emph>\<open>device\<close> subclasses \<open>VirtioDevice\<close>, owns packed virtqueues in guest memory and is kicked
  by the guest.  The block, network, vsock, console, entropy and filesystem devices connect the guest to host storage, to an
  Ethernet switch, to byte streams, to a terminal, to random numbers and to a filesystem written in JavaScript.  On top,
  \<open>packages/linux-guest/src\<close> offers a user-mode TCP/IP stack behind that switch, an agent that runs system calls in the guest over
  vsock connections, and HTTP over them.  Everything binary goes through \<open>packages/bytes\<close>.

  \<^bold>\<open>Theories and sources: the library.\<close>
  \<^item> \<open>Prelude\<close>: bytes, exceptions as values (\<open>'a result\<close> is \<open>js_error + 'a\<close>; \<open>bindE\<close> is sequencing, \<open>bindR\<close> the same for code that
    may not return), little and big endian numbers, slices and overwrites of byte lists.
  \<^item> \<open>Byte_Layout\<close>, \<open>Byte_Buffer\<close>: \<open>packages/bytes/src/index.ts\<close>.  A \<open>DataView\<close> is a buffer with a window; \<open>Struct\<close>, \<open>FixedArray\<close> and the
    scalars are the datatype \<open>ty\<close> with \<open>ty_get\<close> and \<open>ty_set\<close>; \<open>Reader\<close> and \<open>Bytes\<close> are records.  \<open>Struct_Encoding\<close> and \<open>Buffer_Logic\<close> are
    the lemmas and rules by which code that fills and parses structs is verified.
  \<^item> \<open>Host_Stream\<close> is what the code relies on of the streams standard, \<open>Async\<close> a value for async functions over shared state (a
    computation runs to its next await and leaves a continuation) with the proof rules for several of them at once.

  \<^bold>\<open>Theories and sources: \<open>packages/kernel/src\<close>.\<close>
  \<^item> \<open>Virtqueue\<close> (\<open>virtio/queue.ts\<close>, \<open>util.ts\<close>), \<open>Rx_Queue\<close> (\<open>virtio/rx.ts\<close>), \<open>Virtio_Device\<close> (\<open>virtio/device.ts\<close>): the packed ring over
    guest memory, the queue of posted receive chains, and the life cycle of a device.
  \<^item> \<open>Vsock\<close> (\<open>virtio/vsock.ts\<close>), \<open>Ethernet\<close> (\<open>virtio/net.ts\<close>), \<open>Block_Device\<close> (\<open>virtio/block.ts\<close>), \<open>Console\<close> (\<open>virtio/console.ts\<close>,
    \<open>virtio/entropy.ts\<close>), \<open>Bus\<close> (\<open>virtio/bus.ts\<close>): the devices and the bus they are attached to.
  \<^item> \<open>Fs_Wire\<close>, \<open>Filesystem\<close>, \<open>Fs_Safety\<close>, \<open>Fs_Answers\<close> (\<open>virtio/fs.ts\<close>): the FUSE messages; the node and handle tables, one
    definition \<open>fuse_...\<close> per operation, \<open>serve\<close> for a turn of \<open>notify\<close>, and \<open>fs_step\<close> for the device with its two queues and its
    shutdown; then the invariants of the tables and what is given back to the guest.  The filesystem behind the device is the
    environment: it may reply to a call with anything of the reply's type, at any time.  What is asked of it is that a lookup does not
    return its root (\<open>reply_ok\<close>).
  \<^item> \<open>Remote\<close> (\<open>virtio/remote.ts\<close>): a device served in a worker.  \<open>remote_system\<close> is the main thread, the worker with its \<open>VirtioDevice\<close>,
    the shared array of epochs, the shared memory and the two directions of the message port; \<open>remote_step\<close> interleaves the calls of
    the guest, the messages, the events of the device and writes to the memory.
  \<^item> \<open>Wasm_Binary\<close> (\<open>wasm_binary.ts\<close>) and \<open>Device_Tree\<close> (\<open>devicetree.ts\<close>): the reader of WebAssembly modules and the writer of
    flattened device trees.

  \<^bold>\<open>Theories and sources: \<open>packages/linux-guest/src\<close>.\<close>
  \<^item> \<open>Ip_Packet\<close>, \<open>Ip_Reassembly\<close>, \<open>Network\<close> (\<open>network.ts\<close>): from packet formats to the flows of \<open>createNetwork\<close>.
  \<^item> \<open>Guest_Abi\<close> (\<open>abi.ts\<close>), \<open>Syscalls\<close> (\<open>syscalls.ts\<close>), \<open>Guest_Session\<close> (\<open>conn.ts\<close>): the kernel ABI with the checks generated from it, the
    system calls and their wire format, and the session with its pool of lanes.
  \<^item> \<open>Http\<close> (\<open>http.ts\<close>): heads, lines and bodies over a buffered reader, the chunked coding in both directions, framing, fields.

  \<^bold>\<open>How code becomes definitions.\<close>  A class is a record of its fields, a method a function on it with the same name; an object
  that is referred to after its owner dropped it lives in a store and is named by its index.  A \<open>throw\<close> is \<open>Inl\<close>, and state
  changes made before it are kept where the caller can see them.  An \<open>async\<close> function is cut at every \<open>await\<close>: the rest is a value
  in the state (a suspended drain, a transfer in flight, a continuation of a task), and the settling of what it waits for is an
  event of a step relation, so every interleaving the event loop allows is a run of the model.  Host services (storage, timers,
  streams, the resolver, the filesystem, the kernel's interrupt line) are events and entries of output logs.

  \<^bold>\<open>What is shown.\<close>  Layouts: a struct written is read back and only its bytes change; what is read is well typed.  Rings: what the
  guest publishes is what the device takes, a held chain can be released in any order without corrupting the ring, an iteration
  ends after at most one lap.  Devices: at most one kick per queue runs, no notification is lost, a queue disabled by the guest is
  never touched again, shutdown waits for all work; block requests stay in bounds and a flush is ordered behind the writes it
  covers; vsock never exceeds the credit of its peer and delivers bytes in order; the switch delivers to the learned port and
  floods otherwise; the console delivers its input in order and without loss.  Filesystem: in every interleaving the two tables of
  nodes stay inverse to each other, an id the guest holds keeps naming its node, child counts are exact and no record is kept
  without a reason; every chain given back is empty or holds a response of its own length; a directory page is the longest that fits.
  Remote devices: a completion is committed only while the call that enabled its queue is in force, a reset ends only when the worker
  has finished what it had under way, and the served device is an ordinary one.
  Network: packets round trip, fragments reassemble to what was sent, TCP delivers the accepted bytes in order, shutdown settles
  every waiter.  Agent: wait statuses and directory entries are decoded as the kernel encodes them, a call and its reply leave the
  lane in step, a lane serves one exchange at a time.  HTTP: heads and chunked bodies are read back as written, and however the bytes are cut
  into chunks.  Device tree: the imperative generator refines a pure specification.  WebAssembly: modules written in the format
  are read back.

  \<^bold>\<open>Interfaces.\<close>  \<open>byte_type\<close> (a type that can be got and put in a view), \<open>byte_sink\<close> (an append-only buffer), \<open>revocable_queue\<close> (a
  queue handle that may be revoked), \<open>body_source\<close> (a body pulled chunk by chunk) and \<open>concurrent\<close> (computations that share a state,
  keep an invariant and guarantee each other something) are locales, interpreted on the model's own definitions.

  \<^bold>\<open>Bounds and fuel.\<close>  Loops over data are structural or have a measure (the bytes left of a module, the free slots of a ring, the
  ports not tried yet, the records left in the node table).  The loops that may run for ever are the doubling of \<open>Bytes\<close>, a
  \<open>partial_function (option)\<close> that does so exactly for capacity zero; inside an async computation that is \<open>Hang\<close>.  No definition uses fuel.

  \<^bold>\<open>Not modelled.\<close>  The kernel binary, workers and shared-memory waiting (\<open>worker.ts\<close>, \<open>wasm.ts\<close>, \<open>platform.ts\<close>, \<open>endpoint.ts\<close>): threads, \<open>Atomics\<close> and
  instances of WebAssembly modules; of the threads of a remote device the steps between messages are modelled, not the endpoint.
  The machine and its plugins (\<open>index.ts\<close>, \<open>plugin.ts\<close>), the client and the hosts (\<open>client.ts\<close>, \<open>node.ts\<close>, \<open>browser.ts\<close>, the runner), the loading of
  the agent (\<open>agent.ts\<close>) and the wrappers of streams and \<open>fetch\<close> around the system calls (\<open>file.ts\<close>, \<open>process.ts\<close>, \<open>guest-fetch-handler.ts\<close>,
  \<open>host-fetch-network.ts\<close>): they call the parts above, the host's file system, terminal and browser, and keep little state of their own.
\<close>

end
